(* ===== verification/Prelude.thy ===== *)
theory Prelude
  imports Main "HOL-Library.Word" "HOL-Library.Multiset" "HOL-Library.Char_ord" "HOL-Library.List_Lexorder"
begin

text \<open>
  Shared vocabulary of the development: the names of the machine integers, Rust's
  \<open>Result\<close> with the \<open>?\<close> operator as the function \<open>try_in\<close>, the fallible loops
  \<open>try_fold\<close> and \<open>try_each\<close>, the option and list facts the components share, and the
  contract of a keyed store (\<open>BTreeMap\<close>, \<open>BTreeSet\<close>) as a locale with the sorted
  association list as its provider.
\<close>

section \<open>Machine integers\<close>

type_synonym u8 = "8 word"
type_synonym u16 = "16 word"
type_synonym u32 = "32 word"
type_synonym u64 = "64 word"

definition u64_max :: nat where
  "u64_max = 18446744073709551615"

definition u32_max :: nat where
  "u32_max = 4294967295"

lemma unat_u64_le [simp, intro]: "unat (w :: u64) \<le> u64_max"
proof -
  have "unat w < 2 ^ 64" using unsigned_less [of w] by simp
  then show ?thesis by (simp add: u64_max_def)
qed

text \<open>\<open>u64::checked_add\<close>, \<open>u64::saturating_add\<close> and \<open>u64::saturating_mul\<close>.\<close>

definition checked_add :: "u64 \<Rightarrow> u64 \<Rightarrow> u64 option" where
  "checked_add a b = (if unat a + unat b \<le> u64_max then Some (a + b) else None)"

definition checked_mul :: "u64 \<Rightarrow> u64 \<Rightarrow> u64 option" where
  "checked_mul a b = (if unat a * unat b \<le> u64_max then Some (a * b) else None)"

definition saturating_add :: "u64 \<Rightarrow> u64 \<Rightarrow> u64" where
  "saturating_add a b = (if unat a + unat b \<le> u64_max then a + b else of_nat u64_max)"

definition saturating_mul :: "u64 \<Rightarrow> u64 \<Rightarrow> u64" where
  "saturating_mul a b = (if unat a * unat b \<le> u64_max then a * b else of_nat u64_max)"

text \<open>For evaluation the bounds are compared as binary integers.\<close>

lemma unat_bound_uint:
  "unat (a :: u64) + unat (b :: u64) \<le> u64_max \<longleftrightarrow> uint a + uint b \<le> 18446744073709551615"
  "unat a * unat b \<le> u64_max \<longleftrightarrow> uint a * uint b \<le> 18446744073709551615"
proof -
  have "uint a + uint b = int (unat a + unat b)" and "uint a * uint b = int (unat a * unat b)"
    by simp_all
  then show "unat a + unat b \<le> u64_max \<longleftrightarrow> uint a + uint b \<le> 18446744073709551615"
    and "unat a * unat b \<le> u64_max \<longleftrightarrow> uint a * uint b \<le> 18446744073709551615"
    by (simp_all only: u64_max_def) linarith+
qed

lemma checked_add_code [code]:
  "checked_add a b = (if uint a + uint b \<le> 18446744073709551615 then Some (a + b) else None)"
  by (simp add: checked_add_def unat_bound_uint)

lemma checked_mul_code [code]:
  "checked_mul a b = (if uint a * uint b \<le> 18446744073709551615 then Some (a * b) else None)"
  by (simp add: checked_mul_def unat_bound_uint)

lemma saturating_add_code [code]:
  "saturating_add a b = (if uint a + uint b \<le> 18446744073709551615 then a + b else - 1)"
  unfolding saturating_add_def unat_bound_uint by (simp add: u64_max_def)

lemma saturating_mul_code [code]:
  "saturating_mul a b = (if uint a * uint b \<le> 18446744073709551615 then a * b else - 1)"
  unfolding saturating_mul_def unat_bound_uint by (simp add: u64_max_def)

lemma unat_of_nat_u64: "n \<le> u64_max \<Longrightarrow> unat (of_nat n :: u64) = n"
  by (simp add: u64_max_def unat_of_nat)

lemma unat_add_u64: "unat (a :: u64) + unat b \<le> u64_max \<Longrightarrow> unat (a + b) = unat a + unat b"
  by (simp add: u64_max_def unat_word_ariths)

lemma unat_mult_u64: "unat (a :: u64) * unat b \<le> u64_max \<Longrightarrow> unat (a * b) = unat a * unat b"
  by (simp add: u64_max_def unat_word_ariths)

lemma unat_sub_u64: "b \<le> a \<Longrightarrow> unat ((a :: u64) - b) = unat a - unat b"
  by (simp add: word_le_nat_alt unat_sub)

lemma checked_add_Some: "checked_add a b = Some c \<Longrightarrow> unat c = unat a + unat b"
  by (auto simp: checked_add_def unat_add_u64 split: if_splits)

lemma checked_mul_Some: "checked_mul a b = Some c \<Longrightarrow> unat c = unat a * unat b"
  by (auto simp: checked_mul_def unat_mult_u64 split: if_splits)

lemma unat_saturating_add [simp]: "unat (saturating_add a b) = min (unat a + unat b) u64_max"
  by (auto simp: saturating_add_def unat_add_u64 unat_of_nat_u64 min_def)

lemma unat_saturating_mul [simp]: "unat (saturating_mul a b) = min (unat a * unat b) u64_max"
  by (auto simp: saturating_mul_def unat_mult_u64 unat_of_nat_u64 min_def)

section \<open>Results and the question-mark operator\<close>

datatype ('a, 'e) result = Ok 'a | Err 'e

named_theorems result_simps \<open>inversion of successful results\<close>

fun is_ok :: "('a, 'e) result \<Rightarrow> bool" where
  "is_ok (Ok _) = True"
| "is_ok (Err _) = False"

fun try_in :: "('a, 'e) result \<Rightarrow> ('a \<Rightarrow> ('b, 'e) result) \<Rightarrow> ('b, 'e) result" where
  "try_in (Ok x) k = k x"
| "try_in (Err e) k = Err e"

fun map_err :: "('e \<Rightarrow> 'f) \<Rightarrow> ('a, 'e) result \<Rightarrow> ('a, 'f) result" where
  "map_err f (Ok x) = Ok x"
| "map_err f (Err e) = Err (f e)"

fun ok_or :: "'e \<Rightarrow> 'a option \<Rightarrow> ('a, 'e) result" where
  "ok_or e None = Err e"
| "ok_or e (Some x) = Ok x"

definition ensure :: "bool \<Rightarrow> 'e \<Rightarrow> (unit, 'e) result" where
  "ensure b e = (if b then Ok () else Err e)"

lemma is_ok_iff [result_simps]: "is_ok r \<longleftrightarrow> (\<exists>x. r = Ok x)"
  by (cases r) auto

lemma try_in_Ok_iff [result_simps]: "try_in r k = Ok y \<longleftrightarrow> (\<exists>x. r = Ok x \<and> k x = Ok y)"
  by (cases r) auto

lemma try_in_Err_iff: "try_in r k = Err e \<longleftrightarrow> r = Err e \<or> (\<exists>x. r = Ok x \<and> k x = Err e)"
  by (cases r) auto

lemma map_err_Ok_iff [result_simps, simp]: "map_err f r = Ok y \<longleftrightarrow> r = Ok y"
  by (cases r) auto

lemma ok_or_Ok_iff [result_simps, simp]: "ok_or e v = Ok x \<longleftrightarrow> v = Some x"
  by (cases v) auto

lemma ensure_Ok_iff [result_simps, simp]: "ensure b e = Ok u \<longleftrightarrow> b"
  by (simp add: ensure_def)

lemma if_Err_Ok_iff [result_simps]:
  "(if b then Err e else r) = Ok x \<longleftrightarrow> \<not> b \<and> r = Ok x"
  by auto

lemma is_ok_unit: "is_ok (r :: (unit, 'e) result) \<longleftrightarrow> r = Ok ()"
  by (cases r) auto

lemma ok_unit: "(r :: (unit, 'e) result) = Ok u \<longleftrightarrow> is_ok r"
  by (cases r) auto

section \<open>Fallible loops\<close>

text \<open>A \<open>for\<close> loop over a list whose body may return early through \<open>?\<close>.\<close>

fun try_fold :: "('s \<Rightarrow> 'a \<Rightarrow> ('s, 'e) result) \<Rightarrow> 's \<Rightarrow> 'a list \<Rightarrow> ('s, 'e) result" where
  "try_fold f s [] = Ok s"
| "try_fold f s (x # xs) = try_in (f s x) (\<lambda>s'. try_fold f s' xs)"

fun try_each :: "('a \<Rightarrow> (unit, 'e) result) \<Rightarrow> 'a list \<Rightarrow> (unit, 'e) result" where
  "try_each f [] = Ok ()"
| "try_each f (x # xs) = try_in (f x) (\<lambda>_. try_each f xs)"

fun try_map :: "('a \<Rightarrow> ('b, 'e) result) \<Rightarrow> 'a list \<Rightarrow> ('b list, 'e) result" where
  "try_map f [] = Ok []"
| "try_map f (x # xs) = try_in (f x) (\<lambda>y. try_in (try_map f xs) (\<lambda>ys. Ok (y # ys)))"

lemma try_fold_append:
  "try_fold f s (xs @ ys) = try_in (try_fold f s xs) (\<lambda>s'. try_fold f s' ys)"
proof (induction xs arbitrary: s)
  case Nil
  then show ?case by simp
next
  case (Cons x xs)
  then show ?case by (cases "f s x") simp_all
qed

lemma try_each_Ok_iff [result_simps]:
  "try_each f xs = Ok u \<longleftrightarrow> (\<forall>x \<in> set xs. f x = Ok ())"
  by (induction xs) (auto simp: try_in_Ok_iff)

lemma try_map_Ok_iff [result_simps]:
  "try_map f xs = Ok ys \<longleftrightarrow> list_all2 (\<lambda>x y. f x = Ok y) xs ys"
proof (induction xs arbitrary: ys)
  case Nil
  then show ?case by auto
next
  case (Cons x xs)
  then show ?case by (cases ys) (auto simp: try_in_Ok_iff)
qed

text \<open>The invariant rule of a fallible loop.\<close>

lemma try_fold_invariant:
  assumes "try_fold f s xs = Ok t" and "I s"
    and "\<And>s x s'. x \<in> set xs \<Longrightarrow> I s \<Longrightarrow> f s x = Ok s' \<Longrightarrow> I s'"
  shows "I t"
  using assms
proof (induction xs arbitrary: s)
  case Nil
  then show ?case by simp
next
  case (Cons x xs)
  then obtain s' where "f s x = Ok s'" "try_fold f s' xs = Ok t"
    by (auto simp: try_in_Ok_iff)
  moreover have "I s'" using Cons.prems(2) Cons.prems(3) [of x s s'] calculation(1) by simp
  ultimately show ?case using Cons.IH [of s'] Cons.prems(3) by auto
qed

text \<open>A fallible loop whose steps only ever extend a relation to the final state.\<close>

lemma try_fold_prefix:
  assumes "try_fold f s xs = Ok t" and "x \<in> set xs"
    and "\<And>s x s'. f s x = Ok s' \<Longrightarrow> Q x s'"
    and "\<And>s y s' x. f s y = Ok s' \<Longrightarrow> Q x s \<Longrightarrow> Q x s'"
  shows "Q x t"
  using assms(1,2)
proof (induction xs arbitrary: s)
  case Nil
  then show ?case by simp
next
  case (Cons y xs)
  then obtain s' where s': "f s y = Ok s'" "try_fold f s' xs = Ok t"
    by (auto simp: try_in_Ok_iff)
  have keep: "Q x s' \<Longrightarrow> Q x t" for x
    using try_fold_invariant [OF s'(2), of "Q x"] assms(4) by blast
  show ?case
  proof (cases "x = y")
    case True
    then show ?thesis using keep assms(3) [OF s'(1)] by blast
  next
    case False
    then show ?thesis using Cons.IH [OF s'(2)] Cons.prems(2) by simp
  qed
qed

section \<open>Fallible steps on a state\<close>

text \<open>The \<open>?\<close> operator where the step also changes a state, and a \<open>for\<close> loop of such steps.\<close>

fun st_try ::
  "('a, 'e) result \<times> 's \<Rightarrow> ('a \<Rightarrow> 's \<Rightarrow> ('b, 'e) result \<times> 's) \<Rightarrow> ('b, 'e) result \<times> 's" where
  "st_try (Ok x, s) k = k x s"
| "st_try (Err e, s) k = (Err e, s)"

fun st_each :: "('a \<Rightarrow> 's \<Rightarrow> (unit, 'e) result \<times> 's) \<Rightarrow> 'a list \<Rightarrow> 's \<Rightarrow> (unit, 'e) result \<times> 's" where
  "st_each f [] s = (Ok (), s)"
| "st_each f (x # xs) s = st_try (f x s) (\<lambda>_ s. st_each f xs s)"

lemma st_try_Ok_iff:
  "st_try p k = (Ok y, t) \<longleftrightarrow> (\<exists>x s. p = (Ok x, s) \<and> k x s = (Ok y, t))"
  by (cases p; cases "fst p") auto

lemma st_try_iff:
  "st_try p k = (r, t) \<longleftrightarrow>
     (\<exists>x s. p = (Ok x, s) \<and> k x s = (r, t)) \<or> (\<exists>e. p = (Err e, t) \<and> r = Err e)"
  by (cases p; cases "fst p") auto

lemma st_each_invariant:
  assumes "st_each f xs s = (r, t)" and "I s"
    and "\<And>x s r s'. x \<in> set xs \<Longrightarrow> I s \<Longrightarrow> f x s = (r, s') \<Longrightarrow> I s'"
  shows "I t"
  using assms
proof (induction xs arbitrary: s)
  case Nil
  then show ?case by simp
next
  case (Cons x xs)
  obtain r1 s1 where f: "f x s = (r1, s1)" by (cases "f x s")
  have "I s1" using Cons.prems(3) [OF _ Cons.prems(2) f] by simp
  then show ?case
    using Cons.IH [of s1] Cons.prems(1,3) f by (cases r1) auto
qed

section \<open>Keyed stores\<close>

text \<open>
  What the components rely on of \<open>BTreeMap\<close>: a lookup after an insert sees the last value
  of that key and nothing else changes. A \<open>BTreeMap\<close> is modelled as an association list
  sorted by key, which is the order its iterators use.
\<close>

locale keyed_store =
  fixes empty :: "'m"
    and get :: "'m \<Rightarrow> 'k \<Rightarrow> 'v option"
    and put :: "'k \<Rightarrow> 'v \<Rightarrow> 'm \<Rightarrow> 'm"
    and wf :: "'m \<Rightarrow> bool"
  assumes get_empty: "get empty k = None"
    and wf_empty: "wf empty"
    and get_put: "wf m \<Longrightarrow> get (put k v m) k' = (if k' = k then Some v else get m k')"
    and wf_put: "wf m \<Longrightarrow> wf (put k v m)"
begin

lemma wf_fold_put: "wf m \<Longrightarrow> wf (fold (\<lambda>(k, v). put k v) kvs m)"
  by (induction kvs arbitrary: m) (auto simp: wf_put)

lemma get_fold_put:
  assumes "wf m"
  shows "get (fold (\<lambda>(k, v). put k v) kvs m) k =
    (case map_of (rev kvs) k of None \<Rightarrow> get m k | Some v \<Rightarrow> Some v)"
  using assms
proof (induction kvs arbitrary: m)
  case Nil
  then show ?case by simp
next
  case (Cons kv kvs)
  obtain a b where "kv = (a, b)" by (cases kv)
  then show ?case
    using Cons by (simp add: wf_put get_put map_add_def split: option.split)
qed

lemma get_put_same [simp]: "wf m \<Longrightarrow> get (put k v m) k = Some v"
  by (simp add: get_put)

lemma get_put_other [simp]: "wf m \<Longrightarrow> k' \<noteq> k \<Longrightarrow> get (put k v m) k' = get m k'"
  by (simp add: get_put)

end

type_synonym ('k, 'v) btree_map = "('k \<times> 'v) list"

fun bt_put :: "'k::linorder \<Rightarrow> 'v \<Rightarrow> ('k, 'v) btree_map \<Rightarrow> ('k, 'v) btree_map" where
  "bt_put k v [] = [(k, v)]"
| "bt_put k v ((a, b) # m) =
     (if k < a then (k, v) # (a, b) # m
      else if k = a then (k, v) # m
      else (a, b) # bt_put k v m)"

fun bt_get :: "('k, 'v) btree_map \<Rightarrow> 'k \<Rightarrow> 'v option" where
  "bt_get [] k = None"
| "bt_get ((a, b) # m) k = (if k = a then Some b else bt_get m k)"

definition bt_wf :: "('k::linorder, 'v) btree_map \<Rightarrow> bool" where
  "bt_wf m \<longleftrightarrow> sorted_wrt (<) (map fst m)"

lemma set_bt_put: "fst ` set (bt_put k v m) = insert k (fst ` set m)"
  by (induction k v m rule: bt_put.induct) auto

lemma bt_wf_put: "bt_wf m \<Longrightarrow> bt_wf (bt_put k v m)"
  unfolding bt_wf_def
proof (induction k v m rule: bt_put.induct)
  case (2 k v a b m)
  then show ?case
    using set_bt_put [of k v m] by (auto simp: image_iff)
qed simp

lemma bt_get_put: "bt_get (bt_put k v m) k' = (if k' = k then Some v else bt_get m k')"
  by (induction k v m rule: bt_put.induct) auto

interpretation btree: keyed_store "[]" bt_get bt_put bt_wf
  by unfold_locales (auto simp: bt_get_put bt_wf_put, simp add: bt_wf_def)

lemma bt_get_map_of: "bt_get m k = map_of m k"
  by (induction m) auto

lemma bt_wf_distinct: "bt_wf m \<Longrightarrow> distinct (map fst m)"
  by (simp add: bt_wf_def strict_sorted_iff)

lemma bt_get_in_set: "bt_get m k = Some v \<Longrightarrow> (k, v) \<in> set m"
  by (simp add: bt_get_map_of map_of_SomeD)

lemma bt_in_set_get: "bt_wf m \<Longrightarrow> (k, v) \<in> set m \<Longrightarrow> bt_get m k = Some v"
  by (simp add: bt_get_map_of bt_wf_distinct)

lemma bt_mem: "bt_wf m \<Longrightarrow> (k, v) \<in> set m \<longleftrightarrow> bt_get m k = Some v"
  using bt_in_set_get bt_get_in_set by metis

lemma bt_canonical: "bt_wf m \<Longrightarrow> bt_wf n \<Longrightarrow> m = n \<longleftrightarrow> set m = set n"
proof
  assume w: "bt_wf m" "bt_wf n" and eq: "set m = set n"
  have "inj_on fst (set m \<union> set n)"
    using bt_wf_distinct [OF w(1)] eq by (simp add: distinct_map)
  then show "m = n"
    by (rule map_sorted_distinct_set_unique) (use w eq in \<open>auto simp: bt_wf_def strict_sorted_iff\<close>)
qed simp

text \<open>A \<open>BTreeSet\<close> is the sorted list of its elements; \<open>insert\<close> returns whether it was new.\<close>

definition bset_put :: "'a::linorder \<Rightarrow> 'a list \<Rightarrow> 'a list" where
  "bset_put x xs = (if x \<in> set xs then xs else insort x xs)"

lemma set_bset_put [simp]: "set (bset_put x xs) = insert x (set xs)"
  by (auto simp: bset_put_def set_insort_key)

lemma sorted_bset_put [simp, intro]: "sorted xs \<Longrightarrow> sorted (bset_put x xs)"
  by (simp add: bset_put_def sorted_insort)

lemma distinct_bset_put [simp, intro]: "distinct xs \<Longrightarrow> distinct (bset_put x xs)"
  by (simp add: bset_put_def distinct_insort)

definition bset_of :: "'a::linorder list \<Rightarrow> 'a list" where
  "bset_of xs = fold bset_put xs []"

lemma set_fold_bset_put: "set (fold bset_put xs acc) = set xs \<union> set acc"
  by (induction xs arbitrary: acc) auto

lemma set_bset_of [simp]: "set (bset_of xs) = set xs"
  by (simp add: bset_of_def set_fold_bset_put)

lemma bset_canonical:
  "sorted xs \<Longrightarrow> distinct xs \<Longrightarrow> sorted ys \<Longrightarrow> distinct ys \<Longrightarrow> xs = ys \<longleftrightarrow> set xs = set ys"
  using sorted_distinct_set_unique by blast

lemma bset_of_sorted: "sorted (bset_of xs) \<and> distinct (bset_of xs)"
proof -
  have "sorted acc \<and> distinct acc \<Longrightarrow>
    sorted (fold bset_put xs acc) \<and> distinct (fold bset_put xs acc)" for acc
    by (induction xs arbitrary: acc) auto
  then show ?thesis by (simp add: bset_of_def)
qed

text \<open>The seen-set loop \<open>if !seen.insert(x) { return Err }\<close> accepts exactly the duplicate-free lists.\<close>

fun no_repeat :: "'a list \<Rightarrow> 'a set \<Rightarrow> bool" where
  "no_repeat [] seen = True"
| "no_repeat (x # xs) seen = (x \<notin> seen \<and> no_repeat xs (insert x seen))"

lemma no_repeat_iff: "no_repeat xs seen \<longleftrightarrow> distinct xs \<and> set xs \<inter> seen = {}"
  by (induction xs arbitrary: seen) auto

section \<open>Bounded concurrency\<close>

text \<open>
  A bounded set of pending jobs, refilled from a queue; a schedule of numbers picks the one
  that completes next.
\<close>

fun fill :: "nat \<Rightarrow> 'a list \<Rightarrow> 'a list \<Rightarrow> 'a list \<times> 'a list" where
  "fill concurrency pending [] = (pending, [])"
| "fill concurrency pending (job # queue) =
     (if length pending < concurrency then fill concurrency (pending @ [job]) queue
      else (pending, job # queue))"

definition remove_at :: "nat \<Rightarrow> 'a list \<Rightarrow> 'a list" where
  "remove_at i xs = take i xs @ drop (Suc i) xs"

lemma fill_append: "fill c p q = (p', q') \<Longrightarrow> p' @ q' = p @ q"
  by (induction c p q rule: fill.induct) (auto split: if_splits)

lemma fill_empty: "fill c p q = ([], q') \<Longrightarrow> 0 < c \<Longrightarrow> q' = []"
  by (induction c p q rule: fill.induct) (auto split: if_splits)

lemma mset_remove_at: "i < length xs \<Longrightarrow> mset xs = add_mset (xs ! i) (mset (remove_at i xs))"
proof -
  assume "i < length xs"
  then have "mset xs = mset (take i xs @ xs ! i # drop (Suc i) xs)"
    using id_take_nth_drop by metis
  then show ?thesis by (simp add: remove_at_def)
qed

lemma remove_at_distinct:
  assumes "distinct xs" and "i < length xs"
  shows "set (remove_at i xs) = set xs - {xs ! i}" and "distinct (remove_at i xs)"
proof -
  have xs: "xs = take i xs @ xs ! i # drop (Suc i) xs" by (rule id_take_nth_drop [OF assms(2)])
  have "distinct (take i xs @ xs ! i # drop (Suc i) xs)" using assms(1) xs by simp
  then show "distinct (remove_at i xs)" by (simp add: remove_at_def)
  have "set xs = set (take i xs) \<union> {xs ! i} \<union> set (drop (Suc i) xs)"
    by (subst xs) auto
  then show "set (remove_at i xs) = set xs - {xs ! i}"
    using \<open>distinct (take i xs @ xs ! i # drop (Suc i) xs)\<close> by (auto simp: remove_at_def)
qed

end
