(* ===== verification/Rust_Str.thy ===== *)
theory Rust_Str
  imports Prelude
begin

text \<open>
  Rust's \<open>str\<close> as the list of its UTF-8 bytes (\<open>string\<close>, one \<open>char\<close> per byte), with
  the standard-library operations the program uses. \<open>str::len\<close>, slicing, \<open>find\<close>, prefix
  and suffix tests, and comparison of \<open>str\<close> values are all on bytes in Rust too; the
  operations on scalar values (\<open>char::is_control\<close>, \<open>str::trim\<close>) decode the two- and
  three-byte sequences they depend on.
\<close>

named_theorems str_simps \<open>characterisations of the string operations\<close>

section \<open>Prefixes and suffixes\<close>

fun strip_prefix :: "'a list \<Rightarrow> 'a list \<Rightarrow> 'a list option" where
  "strip_prefix [] s = Some s"
| "strip_prefix (c # p) [] = None"
| "strip_prefix (c # p) (d # s) = (if c = d then strip_prefix p s else None)"

definition strip_suffix :: "'a list \<Rightarrow> 'a list \<Rightarrow> 'a list option" where
  "strip_suffix p s = map_option rev (strip_prefix (rev p) (rev s))"

definition starts_with :: "'a list \<Rightarrow> 'a list \<Rightarrow> bool" where
  "starts_with p s \<longleftrightarrow> strip_prefix p s \<noteq> None"

definition ends_with :: "'a list \<Rightarrow> 'a list \<Rightarrow> bool" where
  "ends_with p s \<longleftrightarrow> strip_suffix p s \<noteq> None"

text \<open>\<open>s.strip_suffix(p).unwrap_or(s)\<close>, written often enough to have a name.\<close>

definition without_suffix :: "'a list \<Rightarrow> 'a list \<Rightarrow> 'a list" where
  "without_suffix p s = (case strip_suffix p s of None \<Rightarrow> s | Some t \<Rightarrow> t)"

lemma strip_prefix_Some [str_simps]: "strip_prefix p s = Some t \<longleftrightarrow> s = p @ t"
  by (induction p s rule: strip_prefix.induct) auto

lemma strip_prefix_None: "strip_prefix p s = None \<longleftrightarrow> (\<forall>t. s \<noteq> p @ t)"
  by (metis not_None_eq strip_prefix_Some)

lemma strip_prefix_append [simp]: "strip_prefix p (p @ t) = Some t"
  by (simp add: strip_prefix_Some)

lemma strip_suffix_Some [str_simps]: "strip_suffix p s = Some t \<longleftrightarrow> s = t @ p"
proof -
  have "rev s = rev p @ rev t \<longleftrightarrow> s = t @ p"
    by (metis rev_append rev_rev_ident)
  moreover have "strip_suffix p s = Some t \<longleftrightarrow> strip_prefix (rev p) (rev s) = Some (rev t)"
    by (auto simp: strip_suffix_def)
  ultimately show ?thesis by (simp add: strip_prefix_Some)
qed

lemma strip_suffix_None: "strip_suffix p s = None \<longleftrightarrow> (\<forall>t. s \<noteq> t @ p)"
  by (metis not_None_eq strip_suffix_Some)

lemma strip_suffix_append [simp]: "strip_suffix p (t @ p) = Some t"
  by (simp add: strip_suffix_Some)

lemma starts_with_iff [str_simps]: "starts_with p s \<longleftrightarrow> (\<exists>t. s = p @ t)"
  by (auto simp: starts_with_def strip_prefix_Some)

lemma ends_with_iff [str_simps]: "ends_with p s \<longleftrightarrow> (\<exists>t. s = t @ p)"
  by (auto simp: ends_with_def strip_suffix_Some)

lemma ends_with_single: "ends_with [c] s \<longleftrightarrow> s \<noteq> [] \<and> last s = c"
proof -
  have "s \<noteq> [] \<Longrightarrow> s = butlast s @ [last s]" by simp
  then show ?thesis unfolding ends_with_iff by (metis append_is_Nil_conv last_snoc list.discI)
qed

lemma without_suffix_append [simp]: "without_suffix p (t @ p) = t"
  by (simp add: without_suffix_def)

lemma without_suffix_other: "\<not> ends_with p s \<Longrightarrow> without_suffix p s = s"
  by (simp add: without_suffix_def ends_with_def)

section \<open>Splitting and joining\<close>

fun split_on :: "'a \<Rightarrow> 'a list \<Rightarrow> 'a list list" where
  "split_on c [] = [[]]"
| "split_on c (x # xs) =
     (if x = c then [] # split_on c xs
      else (case split_on c xs of [] \<Rightarrow> [[x]] | y # ys \<Rightarrow> (x # y) # ys))"

fun join_with :: "'a \<Rightarrow> 'a list list \<Rightarrow> 'a list" where
  "join_with c [] = []"
| "join_with c [x] = x"
| "join_with c (x # y # ys) = x @ c # join_with c (y # ys)"

lemma split_on_not_Nil [simp]: "split_on c s \<noteq> []"
  by (cases s) (auto split: list.splits)

lemma join_split [simp]: "join_with c (split_on c s) = s"
proof (induction s)
  case Nil
  then show ?case by simp
next
  case (Cons x s)
  obtain y ys where "split_on c s = y # ys" by (meson neq_Nil_conv split_on_not_Nil)
  with Cons show ?case by (cases ys) auto
qed

lemma split_on_no_sep: "y \<in> set (split_on c s) \<Longrightarrow> c \<notin> set y"
  by (induction s arbitrary: y) (auto split: if_splits list.splits)

lemma split_on_none [simp]: "c \<notin> set s \<Longrightarrow> split_on c s = [s]"
  by (induction s) auto

lemma split_on_append: "c \<notin> set x \<Longrightarrow> split_on c (x @ c # s) = x # split_on c s"
  by (induction x) auto

lemma length_split_on: "length (split_on c s) = Suc (count_list s c)"
  by (induction s) (auto split: list.splits)

lemma join_with_Cons: "ys \<noteq> [] \<Longrightarrow> join_with c (x # ys) = x @ c # join_with c ys"
  by (cases ys) auto

lemma split_join:
  "xs \<noteq> [] \<Longrightarrow> (\<forall>x \<in> set xs. c \<notin> set x) \<Longrightarrow> split_on c (join_with c xs) = xs"
proof (induction xs)
  case Nil
  then show ?case by simp
next
  case (Cons x xs)
  then show ?case by (cases xs) (auto simp: split_on_append)
qed

lemma join_with_append:
  "xs \<noteq> [] \<Longrightarrow> ys \<noteq> [] \<Longrightarrow> join_with c (xs @ ys) = join_with c xs @ c # join_with c ys"
proof (induction xs)
  case Nil
  then show ?case by simp
next
  case (Cons x xs)
  then show ?case by (cases "xs = []") (auto simp: join_with_Cons)
qed

lemma join_take_append:
  assumes "0 < i" and "i < j" and "j \<le> length cs"
  shows "\<exists>r. join_with c (take j cs) = join_with c (take i cs) @ c # r"
proof -
  have "take j cs = take i cs @ take (j - i) (drop i cs)"
    using assms(2) by (metis le_add_diff_inverse less_imp_le take_add)
  moreover have "take i cs \<noteq> []" and "take (j - i) (drop i cs) \<noteq> []"
    using assms by auto
  ultimately show ?thesis by (metis join_with_append)
qed

lemma split_on_mid: "split_on c (xs @ c # ys) = split_on c xs @ split_on c ys"
  by (induction xs) (auto split: list.splits)

lemma split_on_set: "y \<in> set (split_on c s) \<Longrightarrow> set y \<subseteq> set s"
  by (induction s arbitrary: y) (auto split: if_splits list.splits, fastforce+)

text \<open>\<open>split_once\<close> and \<open>rsplit_once\<close> on a one-byte separator.\<close>

fun split_once :: "'a \<Rightarrow> 'a list \<Rightarrow> ('a list \<times> 'a list) option" where
  "split_once c [] = None"
| "split_once c (x # xs) =
     (if x = c then Some ([], xs) else map_option (\<lambda>(a, b). (x # a, b)) (split_once c xs))"

definition rsplit_once :: "'a \<Rightarrow> 'a list \<Rightarrow> ('a list \<times> 'a list) option" where
  "rsplit_once c s = map_option (\<lambda>(a, b). (rev b, rev a)) (split_once c (rev s))"

lemma split_once_None: "split_once c s = None \<longleftrightarrow> c \<notin> set s"
  by (induction s) auto

lemma split_once_Some: "split_once c s = Some (a, b) \<longleftrightarrow> s = a @ c # b \<and> c \<notin> set a"
proof (induction s arbitrary: a)
  case Nil
  then show ?case by simp
next
  case (Cons x s)
  then show ?case by (cases a) (auto simp: split: prod.splits)
qed

lemma rsplit_once_None: "rsplit_once c s = None \<longleftrightarrow> c \<notin> set s"
  by (simp add: rsplit_once_def split_once_None)

lemma rsplit_once_Some: "rsplit_once c s = Some (a, b) \<longleftrightarrow> s = a @ c # b \<and> c \<notin> set b"
proof -
  have "rev s = rev b @ c # rev a \<longleftrightarrow> s = a @ c # b"
    by (metis append.assoc append_Cons append_Nil rev.simps(2) rev_append rev_rev_ident)
  moreover have "rsplit_once c s = Some (a, b) \<longleftrightarrow> split_once c (rev s) = Some (rev b, rev a)"
    by (auto simp: rsplit_once_def split: prod.splits)
  ultimately show ?thesis by (simp add: split_once_Some)
qed

lemma rsplit_once_shorter: "rsplit_once c s = Some (a, b) \<Longrightarrow> length a < length s"
  by (simp add: rsplit_once_Some)

text \<open>\<open>s.rsplit_once(c).map_or("", |(parent, _)| parent)\<close> and \<open>s.rsplit(c).next()\<close>.\<close>

definition parent_of :: "'a \<Rightarrow> 'a list \<Rightarrow> 'a list" where
  "parent_of c s = (case rsplit_once c s of None \<Rightarrow> [] | Some (a, b) \<Rightarrow> a)"

definition last_segment :: "'a \<Rightarrow> 'a list \<Rightarrow> 'a list" where
  "last_segment c s = (case rsplit_once c s of None \<Rightarrow> s | Some (a, b) \<Rightarrow> b)"

lemma parent_of_shorter: "s \<noteq> [] \<Longrightarrow> length (parent_of c s) < length s"
  by (auto simp: parent_of_def dest: rsplit_once_shorter split: option.splits)

lemma parent_of_append: "c \<notin> set b \<Longrightarrow> parent_of c (a @ c # b) = a"
  by (simp add: parent_of_def rsplit_once_Some [THEN iffD2])

lemma parent_of_none: "c \<notin> set s \<Longrightarrow> parent_of c s = []"
  by (simp add: parent_of_def rsplit_once_None [THEN iffD2])

lemma last_segment_no_sep: "c \<notin> set (last_segment c s)"
  by (auto simp: last_segment_def rsplit_once_None rsplit_once_Some split: option.splits)

section \<open>Trimming one byte\<close>

definition trim_start_of :: "'a \<Rightarrow> 'a list \<Rightarrow> 'a list" where
  "trim_start_of c s = dropWhile (\<lambda>x. x = c) s"

definition trim_end_of :: "'a \<Rightarrow> 'a list \<Rightarrow> 'a list" where
  "trim_end_of c s = rev (dropWhile (\<lambda>x. x = c) (rev s))"

definition trim_of :: "'a \<Rightarrow> 'a list \<Rightarrow> 'a list" where
  "trim_of c s = trim_end_of c (trim_start_of c s)"

lemma trim_end_of_id: "s = [] \<or> last s \<noteq> c \<Longrightarrow> trim_end_of c s = s"
proof (cases s rule: rev_cases)
  case Nil
  then show ?thesis by (simp add: trim_end_of_def)
next
  case (snoc ys y)
  moreover assume "s = [] \<or> last s \<noteq> c"
  ultimately show ?thesis by (simp add: trim_end_of_def)
qed

lemma trim_end_of_snoc [simp]: "trim_end_of c (s @ [c]) = trim_end_of c s"
  by (simp add: trim_end_of_def)

lemma trim_end_of_Nil [simp]: "trim_end_of c [] = []"
  by (simp add: trim_end_of_def)

lemma trim_end_of_last: "trim_end_of c s \<noteq> [] \<Longrightarrow> last (trim_end_of c s) \<noteq> c"
proof (induction s rule: rev_induct)
  case Nil
  then show ?case by simp
next
  case (snoc x xs)
  then show ?case by (cases "x = c") (auto simp: trim_end_of_id)
qed

lemma trim_end_of_idem [simp]: "trim_end_of c (trim_end_of c s) = trim_end_of c s"
  by (cases "trim_end_of c s = []") (auto simp: trim_end_of_id trim_end_of_last)

lemma trim_end_of_decomp: "\<exists>n. s = trim_end_of c s @ replicate n c"
proof (induction s rule: rev_induct)
  case Nil
  then show ?case by simp
next
  case (snoc x xs)
  show ?case
  proof (cases "x = c")
    case True
    obtain n where n: "xs = trim_end_of c xs @ replicate n c" using snoc by blast
    have "xs @ [x] = trim_end_of c (xs @ [x]) @ replicate (Suc n) c"
      using n True by (metis append.assoc replicate_append_same replicate_Suc trim_end_of_snoc)
    then show ?thesis by blast
  next
    case False
    then have "trim_end_of c (xs @ [x]) = xs @ [x]" by (simp add: trim_end_of_id)
    then show ?thesis by (metis append_Nil2 replicate_0)
  qed
qed

section \<open>Substring search\<close>

fun find_sub :: "'a list \<Rightarrow> 'a list \<Rightarrow> nat option" where
  "find_sub p [] = (if p = [] then Some 0 else None)"
| "find_sub p (c # s) =
     (if starts_with p (c # s) then Some 0 else map_option Suc (find_sub p s))"

definition contains_sub :: "'a list \<Rightarrow> 'a list \<Rightarrow> bool" where
  "contains_sub p s \<longleftrightarrow> find_sub p s \<noteq> None"

lemma find_sub_Some_split:
  "find_sub p s = Some i \<Longrightarrow> s = take i s @ p @ drop (i + length p) s"
proof (induction p s arbitrary: i rule: find_sub.induct)
  case (1 p)
  then show ?case by (auto split: if_splits)
next
  case (2 p c s)
  show ?case
  proof (cases "starts_with p (c # s)")
    case True
    then obtain t where "c # s = p @ t" by (auto simp: starts_with_iff)
    moreover have "i = 0" using True "2.prems" by simp
    ultimately show ?thesis by simp
  next
    case False
    then obtain j where "i = Suc j" "find_sub p s = Some j" using "2.prems"(1) by auto
    then show ?thesis using "2.IH" [OF False] by simp
  qed
qed

lemma find_sub_leftmost:
  "find_sub p s = Some i \<Longrightarrow> s = a @ p @ b \<Longrightarrow> i \<le> length a"
proof (induction p s arbitrary: i a rule: find_sub.induct)
  case (1 p)
  then show ?case by (auto split: if_splits)
next
  case (2 p c s)
  show ?case
  proof (cases "starts_with p (c # s)")
    case True
    then have "i = 0" using "2.prems"(1) by simp
    then show ?thesis by simp
  next
    case False
    then obtain j where j: "i = Suc j" "find_sub p s = Some j" using "2.prems"(1) by auto
    obtain a' where "a = c # a'"
      using False "2.prems"(2) by (cases a) (auto simp: starts_with_iff)
    then show ?thesis using "2.IH" [OF False j(2), of a'] "2.prems"(2) j by simp
  qed
qed

lemma find_sub_None: "find_sub p s = None \<longleftrightarrow> (\<forall>a b. s \<noteq> a @ p @ b)"
proof (induction p s rule: find_sub.induct)
  case (1 p)
  then show ?case by auto
next
  case (2 p c s)
  show ?case
  proof (cases "starts_with p (c # s)")
    case True
    then show ?thesis by (auto simp: starts_with_iff) (metis append_Nil)
  next
    case False
    have "(\<exists>a b. c # s = a @ p @ b) \<longleftrightarrow> (\<exists>a b. s = a @ p @ b)"
    proof
      assume "\<exists>a b. c # s = a @ p @ b"
      then obtain a b where "c # s = a @ p @ b" by blast
      then show "\<exists>a b. s = a @ p @ b"
        using False by (cases a) (auto simp: starts_with_iff)
    next
      assume "\<exists>a b. s = a @ p @ b"
      then obtain a b where "s = a @ p @ b" by blast
      then have "c # s = (c # a) @ p @ b" by simp
      then show "\<exists>a b. c # s = a @ p @ b" by blast
    qed
    then show ?thesis using False "2.IH" by auto
  qed
qed

lemma contains_sub_iff [str_simps]: "contains_sub p s \<longleftrightarrow> (\<exists>a b. s = a @ p @ b)"
  by (auto simp: contains_sub_def find_sub_None)

section \<open>Bytes\<close>

abbreviation byte :: "char \<Rightarrow> nat" where
  "byte c \<equiv> of_char c"

definition is_ascii_control :: "char \<Rightarrow> bool" where
  "is_ascii_control c \<longleftrightarrow> byte c < 32 \<or> byte c = 127"

definition is_ascii_digit :: "char \<Rightarrow> bool" where
  "is_ascii_digit c \<longleftrightarrow> 48 \<le> byte c \<and> byte c \<le> 57"

definition is_ascii_upper :: "char \<Rightarrow> bool" where
  "is_ascii_upper c \<longleftrightarrow> 65 \<le> byte c \<and> byte c \<le> 90"

definition is_ascii_lower :: "char \<Rightarrow> bool" where
  "is_ascii_lower c \<longleftrightarrow> 97 \<le> byte c \<and> byte c \<le> 122"

definition is_ascii_alphanumeric :: "char \<Rightarrow> bool" where
  "is_ascii_alphanumeric c \<longleftrightarrow> is_ascii_digit c \<or> is_ascii_upper c \<or> is_ascii_lower c"

definition is_ascii_hexdigit :: "char \<Rightarrow> bool" where
  "is_ascii_hexdigit c \<longleftrightarrow>
     is_ascii_digit c \<or> 65 \<le> byte c \<and> byte c \<le> 70 \<or> 97 \<le> byte c \<and> byte c \<le> 102"

definition lower_byte :: "char \<Rightarrow> char" where
  "lower_byte c = (if is_ascii_upper c then char_of (byte c + 32) else c)"

definition upper_byte :: "char \<Rightarrow> char" where
  "upper_byte c = (if is_ascii_lower c then char_of (byte c - 32) else c)"

definition to_ascii_lowercase :: "string \<Rightarrow> string" where
  "to_ascii_lowercase s = map lower_byte s"

definition to_ascii_uppercase :: "string \<Rightarrow> string" where
  "to_ascii_uppercase s = map upper_byte s"

definition eq_ignore_ascii_case :: "string \<Rightarrow> string \<Rightarrow> bool" where
  "eq_ignore_ascii_case a b \<longleftrightarrow> to_ascii_lowercase a = to_ascii_lowercase b"

lemma byte_less [simp]: "byte c < 256"
  using of_char_mod_256 [of c, where ?'a = nat] by (metis mod_less_divisor zero_less_numeral)

lemma byte_lower: "byte (lower_byte c) = (if is_ascii_upper c then byte c + 32 else byte c)"
  by (auto simp: lower_byte_def is_ascii_upper_def)

lemma lower_byte_idem [simp]: "lower_byte (lower_byte c) = lower_byte c"
proof -
  have "\<not> is_ascii_upper (lower_byte c)"
    by (auto simp: byte_lower is_ascii_upper_def)
  then show ?thesis by (simp add: lower_byte_def)
qed

lemma to_ascii_lowercase_idem [simp]:
  "to_ascii_lowercase (to_ascii_lowercase s) = to_ascii_lowercase s"
  by (simp add: to_ascii_lowercase_def)

lemma length_to_ascii_lowercase [simp]: "length (to_ascii_lowercase s) = length s"
  by (simp add: to_ascii_lowercase_def)

text \<open>
  \<open>chars().any(char::is_control)\<close>: the C0 controls and DEL are single bytes, the C1
  controls U+0080 to U+009F are the two-byte sequences C2 80 to C2 9F. The byte C2 only
  ever starts a two-byte sequence, so a scan of adjacent bytes finds exactly these.
\<close>

fun has_control :: "string \<Rightarrow> bool" where
  "has_control [] = False"
| "has_control [c] = is_ascii_control c"
| "has_control (c # d # s) =
     (is_ascii_control c \<or> (byte c = 194 \<and> 128 \<le> byte d \<and> byte d \<le> 159) \<or> has_control (d # s))"

lemma has_control_ascii:
  "has_control s \<longleftrightarrow> False \<Longrightarrow> c \<in> set s \<Longrightarrow> \<not> is_ascii_control c"
  by (induction s rule: has_control.induct) auto

lemma has_control_suffix: "\<not> has_control (a @ b) \<Longrightarrow> \<not> has_control b"
proof (induction a)
  case Nil
  then show ?case by simp
next
  case (Cons x a)
  then show ?case by (cases "a @ b") (auto simp: Cons_eq_append_conv)
qed

text \<open>The UTF-8 encodings of the White_Space scalars that \<open>str::trim\<close> removes.\<close>

definition whitespace :: "string list" where
  "whitespace = [[CHR 0x20], [CHR 0x09], [CHR 0x0A], [CHR 0x0B], [CHR 0x0C], [CHR 0x0D],
     [CHR 0xC2, CHR 0x85], [CHR 0xC2, CHR 0xA0], [CHR 0xE1, CHR 0x9A, CHR 0x80],
     [CHR 0xE2, CHR 0x80, CHR 0x80], [CHR 0xE2, CHR 0x80, CHR 0x81],
     [CHR 0xE2, CHR 0x80, CHR 0x82], [CHR 0xE2, CHR 0x80, CHR 0x83],
     [CHR 0xE2, CHR 0x80, CHR 0x84], [CHR 0xE2, CHR 0x80, CHR 0x85],
     [CHR 0xE2, CHR 0x80, CHR 0x86], [CHR 0xE2, CHR 0x80, CHR 0x87],
     [CHR 0xE2, CHR 0x80, CHR 0x88], [CHR 0xE2, CHR 0x80, CHR 0x89],
     [CHR 0xE2, CHR 0x80, CHR 0x8A], [CHR 0xE2, CHR 0x80, CHR 0xA8],
     [CHR 0xE2, CHR 0x80, CHR 0xA9], [CHR 0xE2, CHR 0x80, CHR 0xAF],
     [CHR 0xE2, CHR 0x81, CHR 0x9F], [CHR 0xE3, CHR 0x80, CHR 0x80]]"

fun strip_any :: "'a list list \<Rightarrow> 'a list \<Rightarrow> 'a list option" where
  "strip_any [] s = None"
| "strip_any (w # ws) s =
     (case strip_prefix w s of Some t \<Rightarrow> Some t | None \<Rightarrow> strip_any ws s)"

lemma strip_any_Some: "strip_any ws s = Some t \<Longrightarrow> \<exists>w \<in> set ws. s = w @ t"
  by (induction ws) (auto simp: strip_prefix_Some split: option.splits)

text \<open>Each round removes at least one byte, so as many rounds as bytes are enough.\<close>

fun strip_rounds :: "nat \<Rightarrow> 'a list list \<Rightarrow> 'a list \<Rightarrow> 'a list" where
  "strip_rounds 0 ws s = s"
| "strip_rounds (Suc n) ws s =
     (case strip_any ws s of None \<Rightarrow> s | Some t \<Rightarrow> strip_rounds n ws t)"

lemma strip_rounds_enough:
  assumes "[] \<notin> set ws" and "length s \<le> n"
  shows "strip_any ws (strip_rounds n ws s) = None"
  using assms(2)
proof (induction n arbitrary: s)
  case 0
  then show ?case
    using strip_any_Some [of ws "[]"] assms(1) by (cases "strip_any ws []") auto
next
  case (Suc n)
  show ?case
  proof (cases "strip_any ws s")
    case None
    then show ?thesis by simp
  next
    case (Some t)
    then obtain w where "w \<in> set ws" "s = w @ t" using strip_any_Some by blast
    moreover have "w \<noteq> []" using calculation(1) assms(1) by blast
    then have "1 \<le> length w" by (cases w) simp_all
    moreover have "length w + length t \<le> Suc n" using Suc.prems \<open>s = w @ t\<close> by simp
    ultimately have "length t \<le> n" by linarith
    then show ?thesis using Suc.IH Some by simp
  qed
qed

definition trim_start :: "string \<Rightarrow> string" where
  "trim_start s = strip_rounds (length s) whitespace s"

definition trim_end :: "string \<Rightarrow> string" where
  "trim_end s = rev (strip_rounds (length s) (map rev whitespace) (rev s))"

definition trim :: "string \<Rightarrow> string" where
  "trim s = trim_end (trim_start s)"

text \<open>A text in single quotes, as messages show it.\<close>

definition quoted :: "string \<Rightarrow> string" where
  "quoted s = CHR 0x27 # s @ [CHR 0x27]"

section \<open>Decimal numbers\<close>

definition digit_char :: "nat \<Rightarrow> char" where
  "digit_char d = char_of (48 + d)"

definition digit_val :: "char \<Rightarrow> nat option" where
  "digit_val c = (if is_ascii_digit c then Some (byte c - 48) else None)"

fun show_nat :: "nat \<Rightarrow> string" where
  "show_nat n = (if n < 10 then [digit_char n] else show_nat (n div 10) @ [digit_char (n mod 10)])"

declare show_nat.simps [simp del]

fun parse_digits :: "nat \<Rightarrow> string \<Rightarrow> nat option" where
  "parse_digits acc [] = Some acc"
| "parse_digits acc (c # s) =
     (case digit_val c of None \<Rightarrow> None | Some d \<Rightarrow> parse_digits (10 * acc + d) s)"

text \<open>
  \<open>str::parse\<close> for an unsigned integer type with the given maximum: one optional plus
  sign, then at least one digit, no overflow.
\<close>

definition parse_unsigned :: "nat \<Rightarrow> string \<Rightarrow> nat option" where
  "parse_unsigned limit s =
     (let t = (case s of c # r \<Rightarrow> if c = CHR ''+'' then r else s | [] \<Rightarrow> s)
      in if t = [] then None
         else case parse_digits 0 t of
                Some n \<Rightarrow> if n \<le> limit then Some n else None
              | None \<Rightarrow> None)"

lemma digit_val_char [simp]: "d < 10 \<Longrightarrow> digit_val (digit_char d) = Some d"
  by (auto simp: digit_val_def digit_char_def is_ascii_digit_def)

lemma parse_digits_snoc:
  "parse_digits acc (s @ [c]) =
     (case parse_digits acc s of None \<Rightarrow> None
      | Some n \<Rightarrow> (case digit_val c of None \<Rightarrow> None | Some d \<Rightarrow> Some (10 * n + d)))"
  by (induction s arbitrary: acc) (auto split: option.splits)

lemma parse_digits_show: "parse_digits 0 (show_nat n) = Some n"
proof (induction n rule: show_nat.induct)
  case (1 n)
  show ?case
  proof (cases "n < 10")
    case True
    then show ?thesis by (simp add: show_nat.simps [of n])
  next
    case False
    then show ?thesis using "1.IH" by (simp add: show_nat.simps [of n] parse_digits_snoc)
  qed
qed

lemma show_nat_digits: "c \<in> set (show_nat n) \<Longrightarrow> is_ascii_digit c"
proof (induction n rule: show_nat.induct)
  case (1 n)
  then show ?case
    by (cases "n < 10")
       (auto simp: show_nat.simps [of n] digit_char_def is_ascii_digit_def)
qed

lemma show_nat_not_Nil [simp]: "show_nat n \<noteq> []"
  by (subst show_nat.simps) simp

lemma parse_show: "n \<le> limit \<Longrightarrow> parse_unsigned limit (show_nat n) = Some n"
proof -
  assume "n \<le> limit"
  obtain c r where cr: "show_nat n = c # r" by (meson neq_Nil_conv show_nat_not_Nil)
  then have "is_ascii_digit c" using show_nat_digits by (metis list.set_intros(1))
  then have "c \<noteq> CHR ''+''" by (auto simp: is_ascii_digit_def)
  then show ?thesis
    using \<open>n \<le> limit\<close> parse_digits_show [of n] cr by (simp add: parse_unsigned_def)
qed

lemma show_nat_inj: "show_nat m = show_nat n \<longleftrightarrow> m = n"
  by (metis option.inject parse_digits_show)

lemma parse_unsigned_bound: "parse_unsigned limit s = Some n \<Longrightarrow> n \<le> limit"
  by (auto simp: parse_unsigned_def Let_def split: option.splits if_splits list.splits)

section \<open>Little-endian integers\<close>

text \<open>\<open>to_le_bytes\<close> and \<open>from_le_bytes\<close> of a number of \<open>k\<close> bytes.\<close>

fun le_bytes :: "nat \<Rightarrow> nat \<Rightarrow> string" where
  "le_bytes 0 n = []"
| "le_bytes (Suc k) n = char_of (n mod 256) # le_bytes k (n div 256)"

fun le_value :: "string \<Rightarrow> nat" where
  "le_value [] = 0"
| "le_value (c # s) = byte c + 256 * le_value s"

lemma length_le_bytes [simp]: "length (le_bytes k n) = k"
  by (induction k arbitrary: n) auto

lemma le_value_bytes: "n < 256 ^ k \<Longrightarrow> le_value (le_bytes k n) = n"
proof (induction k arbitrary: n)
  case 0
  then show ?case by simp
next
  case (Suc k)
  then have "n div 256 < 256 ^ k" by (simp add: less_mult_imp_div_less mult.commute)
  then show ?case using Suc.IH by simp
qed

end
