(* ===== verification/Request_Trace.thy ===== *)
theory Request_Trace
  imports Rust_Str
begin

text \<open>
  \<open>crates/tos-core/src/agent/request_id.rs\<close>: the bounded trace of service request ids
  of one invocation, the operation scopes that isolate concurrently polled transfers, and
  the projection of a trace onto the final JSON envelope.

  A trace lives in a store addressed by number, as the \<open>Arc\<close>s of the source do; the
  task-local \<open>OPERATION_REQUEST_TRACES\<close> of the running future is the list of addresses
  that an event is delivered to. An interleaving of futures is a list of events, each with
  the scopes of the future that produced it.
\<close>

section \<open>Sanitising one identifier\<close>

definition service_request_id_limit :: nat where
  "service_request_id_limit = 100"

definition service_request_id_max_chars :: nat where
  "service_request_id_max_chars = 256"

text \<open>\<open>chars().count()\<close>: every scalar value has exactly one non-continuation byte.\<close>

definition char_count :: "string \<Rightarrow> nat" where
  "char_count s = length (filter (\<lambda>c. \<not> (128 \<le> byte c \<and> byte c < 192)) s)"

definition sanitize_request_id :: "string \<Rightarrow> string option" where
  "sanitize_request_id raw =
     (let request_id = trim raw
      in if request_id \<noteq> [] \<and> char_count request_id \<le> service_request_id_max_chars
            \<and> \<not> has_control request_id
         then Some request_id else None)"

definition safe_request_id :: "string \<Rightarrow> bool" where
  "safe_request_id s \<longleftrightarrow>
     s \<noteq> [] \<and> char_count s \<le> service_request_id_max_chars \<and> \<not> has_control s"

lemma sanitize_safe: "sanitize_request_id raw = Some s \<Longrightarrow> safe_request_id s \<and> s = trim raw"
  by (auto simp: sanitize_request_id_def safe_request_id_def Let_def split: if_splits)

section \<open>One trace\<close>

record service_request_trace =
  tr_limit :: nat
  tr_request_ids :: "string list"
  tr_request_ids_omitted :: nat
  tr_last_successful_request_id :: "string option"
  tr_response_count :: nat
  tr_request_attempted :: bool
  tr_terminal_response_received :: bool
  tr_terminal_response_request_id :: "string option"

definition with_limit :: "nat \<Rightarrow> service_request_trace" where
  "with_limit n = \<lparr>tr_limit = n, tr_request_ids = [], tr_request_ids_omitted = 0,
     tr_last_successful_request_id = None, tr_response_count = 0, tr_request_attempted = False,
     tr_terminal_response_received = False, tr_terminal_response_request_id = None\<rparr>"

definition default_trace :: service_request_trace where
  "default_trace = with_limit service_request_id_limit"

text \<open>\<open>usize::saturating_add(1)\<close>.\<close>

definition sat_succ :: "nat \<Rightarrow> nat" where
  "sat_succ n = (if n < u64_max then Suc n else n)"

definition record_response_locally ::
  "string option \<Rightarrow> bool \<Rightarrow> service_request_trace \<Rightarrow> service_request_trace" where
  "record_response_locally raw is_success st =
     (let request_id = Option.bind raw sanitize_request_id;
          st = st\<lparr>tr_response_count := sat_succ (tr_response_count st),
                  tr_request_attempted := True,
                  tr_terminal_response_received := True,
                  tr_terminal_response_request_id := request_id\<rparr>
      in case request_id of
           None \<Rightarrow> st
         | Some rid \<Rightarrow>
             (let st = (if length (tr_request_ids st) < tr_limit st
                        then st\<lparr>tr_request_ids := tr_request_ids st @ [rid]\<rparr>
                        else st\<lparr>tr_request_ids_omitted := sat_succ (tr_request_ids_omitted st)\<rparr>)
              in if is_success then st\<lparr>tr_last_successful_request_id := Some rid\<rparr> else st))"

definition record_no_response_locally :: "service_request_trace \<Rightarrow> service_request_trace" where
  "record_no_response_locally st =
     st\<lparr>tr_request_attempted := True, tr_terminal_response_received := False,
        tr_terminal_response_request_id := None\<rparr>"

definition preserve_locally :: "string option \<Rightarrow> service_request_trace \<Rightarrow> service_request_trace" where
  "preserve_locally rid st = st\<lparr>tr_terminal_response_request_id := rid\<rparr>"

definition select_error_request_id ::
  "service_request_trace \<Rightarrow> string option \<Rightarrow> string option" where
  "select_error_request_id snap legacy =
     (if tr_request_attempted snap then tr_terminal_response_request_id snap
      else Option.bind legacy sanitize_request_id)"

section \<open>The store of traces and the operation scopes\<close>

type_synonym trace_store = "nat \<Rightarrow> service_request_trace"

definition deliver :: "(service_request_trace \<Rightarrow> service_request_trace) \<Rightarrow> nat list \<Rightarrow>
  trace_store \<Rightarrow> trace_store" where
  "deliver f traces st = fold (\<lambda>i s. s(i := f (s i))) traces st"

definition record_response ::
  "nat \<Rightarrow> nat list \<Rightarrow> string option \<Rightarrow> bool \<Rightarrow> trace_store \<Rightarrow> trace_store" where
  "record_response this traces raw is_success st =
     (let f = record_response_locally raw is_success
      in deliver f traces (st(this := f (st this))))"

definition record_no_response :: "nat \<Rightarrow> nat list \<Rightarrow> trace_store \<Rightarrow> trace_store" where
  "record_no_response this traces st =
     deliver record_no_response_locally traces (st(this := record_no_response_locally (st this)))"

definition preserve_operation_failure_request_id ::
  "nat list \<Rightarrow> string option \<Rightarrow> trace_store \<Rightarrow> trace_store" where
  "preserve_operation_failure_request_id traces request_id st =
     deliver (preserve_locally (Option.bind request_id sanitize_request_id)) traces st"

definition current_service_request_id :: "nat list \<Rightarrow> trace_store \<Rightarrow> string option" where
  "current_service_request_id traces st =
     (if traces = [] then None else tr_terminal_response_request_id (st (last traces)))"

definition has_operation_request_scope :: "nat list \<Rightarrow> bool" where
  "has_operation_request_scope traces \<longleftrightarrow> traces \<noteq> []"

text \<open>
  The events of one future: an attempt with or without a response, reported by the trace
  \<open>this\<close> of the client that made it, or a worker preserving the id of the failed part.
\<close>

datatype trace_event =
    Response nat "string option" bool
  | NoResponse nat
  | PreserveFailure "string option"

fun trace_step :: "nat list \<times> trace_event \<Rightarrow> trace_store \<Rightarrow> trace_store" where
  "trace_step (traces, Response this raw is_success) st =
     record_response this traces raw is_success st"
| "trace_step (traces, NoResponse this) st = record_no_response this traces st"
| "trace_step (traces, PreserveFailure rid) st =
     preserve_operation_failure_request_id traces rid st"

definition trace_run :: "(nat list \<times> trace_event) list \<Rightarrow> trace_store \<Rightarrow> trace_store" where
  "trace_run es st = fold trace_step es st"

text \<open>
  \<open>capture_service_request_id\<close>: a fresh trace with limit zero is pushed on the scopes of
  the operation, whose events then reach it as well; its terminal id is the result. The
  operation is the list of events it (and the futures interleaved with it) produce.
\<close>

definition capture_scope :: "nat \<Rightarrow> nat list \<Rightarrow> trace_store \<Rightarrow> nat list \<times> trace_store" where
  "capture_scope fresh traces st = (traces @ [fresh], st(fresh := with_limit 0))"

definition capture_service_request_id ::
  "nat \<Rightarrow> nat list \<Rightarrow> (nat list \<Rightarrow> (nat list \<times> trace_event) list) \<Rightarrow> trace_store \<Rightarrow>
   trace_store \<times> string option" where
  "capture_service_request_id fresh traces operation st =
     (let (scopes, st) = capture_scope fresh traces st;
          st = trace_run (operation scopes) st
      in (st, tr_terminal_response_request_id (st fresh)))"

definition without_operation_request_tracking ::
  "(nat list \<Rightarrow> (nat list \<times> trace_event) list) \<Rightarrow> trace_store \<Rightarrow> trace_store" where
  "without_operation_request_tracking cleanup st = trace_run (cleanup []) st"

section \<open>The JSON envelope\<close>

text \<open>
  \<open>serde_json::Value\<close>; an object is the sorted map of its members (\<open>Map\<close> is a
  \<open>BTreeMap\<close> without the \<open>preserve_order\<close> feature, which the workspace does not enable).
\<close>

datatype json =
    JNull
  | JBool bool
  | JNumber int
  | JString string
  | JArray "json list"
  | JObject "(string \<times> json) list"

abbreviation obj_get :: "(string \<times> json) list \<Rightarrow> string \<Rightarrow> json option" where
  "obj_get \<equiv> bt_get"

abbreviation obj_put :: "string \<Rightarrow> json \<Rightarrow> (string \<times> json) list \<Rightarrow> (string \<times> json) list" where
  "obj_put \<equiv> bt_put"

definition obj_remove :: "string \<Rightarrow> (string \<times> json) list \<Rightarrow> (string \<times> json) list" where
  "obj_remove k m = filter (\<lambda>(a, v). a \<noteq> k) m"

fun as_str :: "json \<Rightarrow> string option" where
  "as_str (JString s) = Some s"
| "as_str _ = None"

definition sanitize_existing_envelope_request_id ::
  "(string \<times> json) list \<Rightarrow> (string \<times> json) list" where
  "sanitize_existing_envelope_request_id mems =
     (case obj_get mems ''request_id'' of
        None \<Rightarrow> mems
      | Some v \<Rightarrow>
          if v = JNull then mems
          else (case Option.bind (as_str v) sanitize_request_id of
                  Some rid \<Rightarrow> obj_put ''request_id'' (JString rid) mems
                | None \<Rightarrow> obj_remove ''request_id'' mems))"

definition insert_multi_request_trace ::
  "service_request_trace \<Rightarrow> (string \<times> json) list \<Rightarrow> (string \<times> json) list" where
  "insert_multi_request_trace snap data_fields =
     obj_put ''service_request_ids_omitted'' (JNumber (int (tr_request_ids_omitted snap)))
       (obj_put ''service_request_ids'' (JArray (map JString (tr_request_ids snap))) data_fields)"

definition apply_service_trace_to_success_envelope ::
  "json \<Rightarrow> service_request_trace \<Rightarrow> json" where
  "apply_service_trace_to_success_envelope envelope snap =
     (case envelope of
        JObject members \<Rightarrow>
          if obj_get members ''success'' \<noteq> Some (JBool True) then envelope
          else
            (let mems = sanitize_existing_envelope_request_id members;
                 has_explicit_null = (obj_get mems ''request_id'' = Some JNull);
                 mems = (if has_explicit_null then mems
                           else (case tr_last_successful_request_id snap of
                                   Some rid \<Rightarrow> obj_put ''request_id'' (JString rid) mems
                                 | None \<Rightarrow> mems))
             in if tr_response_count snap \<le> 1 then JObject mems
                else (case obj_get mems ''data'' of
                        Some (JObject data_fields) \<Rightarrow>
                          JObject (obj_put ''data''
                            (JObject (insert_multi_request_trace snap data_fields)) mems)
                      | _ \<Rightarrow> JObject mems))
      | _ \<Rightarrow> envelope)"

section \<open>Lemmas: one trace\<close>

definition trace_ok :: "service_request_trace \<Rightarrow> bool" where
  "trace_ok st \<longleftrightarrow>
     length (tr_request_ids st) \<le> tr_limit st \<and>
     (\<forall>rid \<in> set (tr_request_ids st). safe_request_id rid) \<and>
     (\<forall>rid. tr_last_successful_request_id st = Some rid \<longrightarrow> safe_request_id rid) \<and>
     (\<forall>rid. tr_terminal_response_request_id st = Some rid \<longrightarrow> safe_request_id rid) \<and>
     (tr_request_ids_omitted st > 0 \<longrightarrow> length (tr_request_ids st) = tr_limit st) \<and>
     tr_response_count st \<le> u64_max"

lemma bind_sanitize_safe: "Option.bind raw sanitize_request_id = Some rid \<Longrightarrow> safe_request_id rid"
  by (cases raw) (auto dest: sanitize_safe)

lemma trace_ok_with_limit [simp]: "trace_ok (with_limit n)"
  by (simp add: trace_ok_def with_limit_def)

lemma sat_succ_bound: "n \<le> u64_max \<Longrightarrow> sat_succ n \<le> u64_max"
  by (simp add: sat_succ_def)

lemma trace_ok_response: "trace_ok st \<Longrightarrow> trace_ok (record_response_locally raw ok st)"
  by (auto simp: trace_ok_def record_response_locally_def Let_def sat_succ_def
      dest: bind_sanitize_safe split: option.split)

lemma trace_ok_no_response: "trace_ok st \<Longrightarrow> trace_ok (record_no_response_locally st)"
  by (simp add: trace_ok_def record_no_response_locally_def)

lemma trace_ok_preserve:
  "trace_ok st \<Longrightarrow> trace_ok (preserve_locally (Option.bind raw sanitize_request_id) st)"
  by (auto simp: trace_ok_def preserve_locally_def dest: bind_sanitize_safe)

section \<open>Lemmas: delivery\<close>

lemma deliver_other: "i \<notin> set traces \<Longrightarrow> deliver f traces st i = st i"
  unfolding deliver_def by (induction traces arbitrary: st) auto

lemma deliver_distinct: "distinct traces \<Longrightarrow> i \<in> set traces \<Longrightarrow> deliver f traces st i = f (st i)"
proof (induction traces arbitrary: st)
  case Nil
  then show ?case by simp
next
  case (Cons j traces)
  have "deliver f (j # traces) st i = deliver f traces (st(j := f (st j))) i"
    by (simp add: deliver_def)
  also have "\<dots> = f (st i)"
    using Cons by (cases "i = j") (auto simp: deliver_other)
  finally show ?case .
qed

lemma deliver_invariant:
  "(\<And>s. P s \<Longrightarrow> P (f s)) \<Longrightarrow> (\<And>i. P (st i)) \<Longrightarrow> P (deliver f traces st i)"
  unfolding deliver_def
proof (induction traces arbitrary: st)
  case Nil
  then show ?case by simp
next
  case (Cons j traces)
  then have "\<And>i. P ((st(j := f (st j))) i)" by simp
  then show ?case using Cons by simp
qed

lemma trace_step_ok: "(\<And>i. trace_ok (st i)) \<Longrightarrow> trace_ok (trace_step e st i)"
proof (induction e st rule: trace_step.induct)
  case (1 traces this raw is_success st)
  show ?case unfolding trace_step.simps record_response_def Let_def
    by (rule deliver_invariant) (auto intro: trace_ok_response "1.prems")
next
  case (2 traces this st)
  show ?case unfolding trace_step.simps record_no_response_def
    by (rule deliver_invariant) (auto intro: trace_ok_no_response "2.prems")
next
  case (3 traces rid st)
  show ?case unfolding trace_step.simps preserve_operation_failure_request_id_def
    by (rule deliver_invariant) (auto intro: trace_ok_preserve "3.prems")
qed

lemma trace_run_ok: "(\<And>i. trace_ok (st i)) \<Longrightarrow> trace_ok (trace_run es st i)"
  unfolding trace_run_def
proof (induction es arbitrary: st)
  case Nil
  then show ?case by simp
next
  case (Cons e es)
  then have "\<And>i. trace_ok (trace_step e st i)" by (auto intro: trace_step_ok)
  then show ?case using Cons.IH by simp
qed

text \<open>The traces an event can change, and the local effect it has on them.\<close>

fun touches :: "nat \<Rightarrow> nat list \<times> trace_event \<Rightarrow> bool" where
  "touches i (traces, Response this raw ok) = (i = this \<or> i \<in> set traces)"
| "touches i (traces, NoResponse this) = (i = this \<or> i \<in> set traces)"
| "touches i (traces, PreserveFailure rid) = (i \<in> set traces)"

lemma trace_step_frame: "\<not> touches i e \<Longrightarrow> trace_step e st i = st i"
  by (induction e st rule: trace_step.induct)
     (auto simp: record_response_def record_no_response_def Let_def
       preserve_operation_failure_request_id_def deliver_other)

lemma deliver_Nil: "deliver f [] st = st"
  by (simp add: deliver_def)

lemma deliver_Cons: "deliver f (j # traces) st = deliver f traces (st(j := f (st j)))"
  by (simp add: deliver_def)

lemma deliver_local: "st i = st' i \<Longrightarrow> deliver f traces st i = deliver f traces st' i"
proof (induction traces arbitrary: st st')
  case Nil
  then show ?case by (simp add: deliver_Nil)
next
  case (Cons j traces)
  have "(st(j := f (st j))) i = (st'(j := f (st' j))) i"
    using Cons.prems by (cases "i = j") auto
  then have "deliver f traces (st(j := f (st j))) i = deliver f traces (st'(j := f (st' j))) i"
    by (rule Cons.IH)
  then show ?case by (simp only: deliver_Cons)
qed

lemma upd_local: "st i = st' i \<Longrightarrow> (st(j := f (st j))) i = (st'(j := f (st' j))) i"
  by (cases "i = j") auto

lemma trace_step_local: "st i = st' i \<Longrightarrow> trace_step e st i = trace_step e st' i"
proof (induction e st rule: trace_step.induct)
  case (1 traces this raw is_success st)
  show ?case unfolding trace_step.simps record_response_def Let_def
    by (rule deliver_local, rule upd_local, rule "1.prems")
next
  case (2 traces this st)
  show ?case unfolding trace_step.simps record_no_response_def
    by (rule deliver_local, rule upd_local, rule "2.prems")
next
  case (3 traces rid st)
  show ?case unfolding trace_step.simps preserve_operation_failure_request_id_def
    by (rule deliver_local, rule "3.prems")
qed

lemma trace_run_Cons: "trace_run (e # es) st = trace_run es (trace_step e st)"
  by (simp add: trace_run_def)

lemma trace_run_local: "st i = st' i \<Longrightarrow> trace_run es st i = trace_run es st' i"
proof (induction es arbitrary: st st')
  case Nil
  then show ?case by (simp add: trace_run_def)
next
  case (Cons e es)
  have "trace_step e st i = trace_step e st' i" by (rule trace_step_local) (rule Cons.prems)
  then have "trace_run es (trace_step e st) i = trace_run es (trace_step e st') i"
    by (rule Cons.IH)
  then show ?case by (simp only: trace_run_Cons)
qed

lemma trace_run_filter: "trace_run es st i = trace_run (filter (touches i) es) st i"
proof (induction es arbitrary: st)
  case Nil
  then show ?case by simp
next
  case (Cons e es)
  show ?case
  proof (cases "touches i e")
    case True
    then show ?thesis using Cons.IH [of "trace_step e st"] by (simp add: trace_run_def)
  next
    case False
    have "trace_run (e # es) st i = trace_run es (trace_step e st) i" by (simp add: trace_run_def)
    also have "\<dots> = trace_run es st i"
      by (rule trace_run_local) (simp add: trace_step_frame False)
    finally show ?thesis using Cons.IH [of st] False by simp
  qed
qed

lemma obj_get_remove: "obj_get (obj_remove k m) k' = (if k' = k then None else obj_get m k')"
  by (induction m) (auto simp: obj_remove_def)

section \<open>What a trace records\<close>

text \<open>
  The abstract view of a trace: the identifier an event leaves as the terminal one, and the
  identifiers received by trace \<open>i\<close>, in order. An event reaches a trace once when the
  scopes are pairwise distinct and do not contain the trace of the client itself.
\<close>

fun terminal_of :: "trace_event \<Rightarrow> string option" where
  "terminal_of (Response this raw ok) = Option.bind raw sanitize_request_id"
| "terminal_of (NoResponse this) = None"
| "terminal_of (PreserveFailure rid) = Option.bind rid sanitize_request_id"

fun reaches_once :: "nat list \<times> trace_event \<Rightarrow> bool" where
  "reaches_once (traces, Response this raw ok) = distinct (this # traces)"
| "reaches_once (traces, NoResponse this) = distinct (this # traces)"
| "reaches_once (traces, PreserveFailure rid) = distinct traces"

fun received :: "nat \<Rightarrow> (nat list \<times> trace_event) list \<Rightarrow> string list" where
  "received i [] = []"
| "received i ((traces, Response this raw ok) # es) =
     (if touches i (traces, Response this raw ok)
      then (case Option.bind raw sanitize_request_id of
              None \<Rightarrow> received i es | Some rid \<Rightarrow> rid # received i es)
      else received i es)"
| "received i ((traces, NoResponse this) # es) = received i es"
| "received i ((traces, PreserveFailure rid) # es) = received i es"

lemma deliver_reaches:
  "i \<in> set traces \<Longrightarrow> (\<And>s. P (f s)) \<Longrightarrow> P (deliver f traces st i)"
proof (induction traces arbitrary: st)
  case Nil
  then show ?case by simp
next
  case (Cons j traces)
  show ?case
  proof (cases "i \<in> set traces")
    case True
    then show ?thesis using Cons by (simp only: deliver_Cons)
  next
    case False
    then show ?thesis using Cons.prems by (simp add: deliver_Cons deliver_other)
  qed
qed

lemma response_terminal:
  "tr_terminal_response_request_id (record_response_locally raw ok s) =
     Option.bind raw sanitize_request_id"
  by (simp add: record_response_locally_def Let_def split: option.split)

lemma touched_terminal:
  "touches i e \<Longrightarrow> tr_terminal_response_request_id (trace_step e st i) = terminal_of (snd e)"
proof (induction e st rule: trace_step.induct)
  case (1 traces this raw ok st)
  let ?P = "\<lambda>s. tr_terminal_response_request_id s = Option.bind raw sanitize_request_id"
  show ?case
  proof (cases "i \<in> set traces")
    case True
    then have "?P (trace_step (traces, Response this raw ok) st i)"
      unfolding trace_step.simps record_response_def Let_def
      by (rule deliver_reaches) (rule response_terminal)
    then show ?thesis by simp
  next
    case False
    then show ?thesis using "1.prems"
      by (simp add: record_response_def Let_def deliver_other response_terminal)
  qed
next
  case (2 traces this st)
  show ?case
  proof (cases "i \<in> set traces")
    case True
    have "tr_terminal_response_request_id (trace_step (traces, NoResponse this) st i) = None"
      unfolding trace_step.simps record_no_response_def
      by (rule deliver_reaches [OF True]) (simp add: record_no_response_locally_def)
    then show ?thesis by simp
  next
    case False
    then show ?thesis using "2.prems"
      by (simp add: record_no_response_def deliver_other record_no_response_locally_def)
  qed
next
  case (3 traces rid st)
  then have "i \<in> set traces" by simp
  then have "tr_terminal_response_request_id (trace_step (traces, PreserveFailure rid) st i)
      = Option.bind rid sanitize_request_id"
    unfolding trace_step.simps preserve_operation_failure_request_id_def
    by (rule deliver_reaches) (simp add: preserve_locally_def)
  then show ?case by simp
qed

text \<open>An event that reaches trace \<open>i\<close> once changes it by its local effect alone.\<close>

lemma touched_response:
  assumes "distinct (this # traces)" and "i = this \<or> i \<in> set traces"
  shows "trace_step (traces, Response this raw ok) st i = record_response_locally raw ok (st i)"
proof (cases "i = this")
  case True
  then show ?thesis using assms(1) by (simp add: record_response_def Let_def deliver_other)
next
  case False
  then have "i \<in> set traces" using assms(2) by simp
  then show ?thesis using assms(1) False
    by (simp add: record_response_def Let_def deliver_distinct)
qed

lemma quiet_step:
  assumes "\<And>this raw ok. snd e \<noteq> Response this raw ok"
  shows "tr_request_ids (trace_step e st i) = tr_request_ids (st i)
    \<and> tr_request_ids_omitted (trace_step e st i) = tr_request_ids_omitted (st i)
    \<and> tr_limit (trace_step e st i) = tr_limit (st i)"
proof -
  let ?P = "\<lambda>s. tr_request_ids s = tr_request_ids (st i)
    \<and> tr_request_ids_omitted s = tr_request_ids_omitted (st i) \<and> tr_limit s = tr_limit (st i)"
  obtain traces ev where e: "e = (traces, ev)" by (cases e)
  have step: "?P (deliver f traces st' i)" if "\<And>s. ?P s \<Longrightarrow> ?P (f s)" "?P (st' i)" for f st'
    using that(2)
  proof (induction traces arbitrary: st')
    case Nil
    then show ?case by (simp add: deliver_Nil)
  next
    case (Cons j traces)
    have "?P ((st'(j := f (st' j))) i)" using Cons.prems that(1) by (cases "i = j") auto
    then show ?case unfolding deliver_Cons by (rule Cons.IH)
  qed
  show ?thesis
  proof (cases ev)
    case (Response this raw ok)
    then have "snd e = Response this raw ok" by (simp add: e)
    then show ?thesis using assms by blast
  next
    case (NoResponse this)
    show ?thesis unfolding e NoResponse trace_step.simps record_no_response_def
      by (rule step) (auto simp: record_no_response_locally_def)
  next
    case (PreserveFailure rid)
    show ?thesis
      unfolding e PreserveFailure trace_step.simps preserve_operation_failure_request_id_def
      by (rule step) (auto simp: preserve_locally_def)
  qed
qed

definition trace_recorded :: "nat \<Rightarrow> string list \<Rightarrow> service_request_trace \<Rightarrow> bool" where
  "trace_recorded n rids s \<longleftrightarrow> tr_limit s = n \<and> tr_request_ids s = take n rids
     \<and> tr_request_ids_omitted s = length rids - n"

lemma recorded_response:
  assumes "trace_recorded n rids s" and "length rids < u64_max"
  shows "trace_recorded n
    (case Option.bind raw sanitize_request_id of None \<Rightarrow> rids | Some rid \<Rightarrow> rids @ [rid])
    (record_response_locally raw ok s)"
  using assms
  by (auto simp: trace_recorded_def record_response_locally_def Let_def sat_succ_def min_def
      split: option.split)

lemma length_received: "length (received i es) \<le> length es"
  by (induction i es rule: received.induct) (auto split: option.split)

lemma recorded_run:
  "trace_recorded n rids (st i) \<Longrightarrow> list_all reaches_once es \<Longrightarrow> length rids + length es \<le> u64_max
   \<Longrightarrow> trace_recorded n (rids @ received i es) (trace_run es st i)"
proof (induction es arbitrary: st rids)
  case Nil
  then show ?case by (simp add: trace_run_def)
next
  case (Cons e es)
  obtain traces ev where e: "e = (traces, ev)" by (cases e)
  let ?new = "received i [e]"
  have step: "trace_recorded n (rids @ ?new) (trace_step e st i)"
  proof (cases "\<exists>this raw ok. ev = Response this raw ok")
    case True
    then obtain this raw ok where ev: "ev = Response this raw ok" by blast
    show ?thesis
    proof (cases "touches i e")
      case t: True
      have "trace_step e st i = record_response_locally raw ok (st i)"
        unfolding e ev by (rule touched_response) (use Cons.prems t e ev in auto)
      then show ?thesis
        using recorded_response [OF Cons.prems(1), of raw ok] Cons.prems(3) t
        by (simp add: e ev split: option.splits)
    next
      case False
      then have "trace_step e st i = st i" by (rule trace_step_frame)
      then show ?thesis using Cons.prems(1) False by (simp add: e ev)
    qed
  next
    case False
    then have q: "\<And>this raw ok. snd e \<noteq> Response this raw ok" by (simp add: e)
    have "?new = []" using False by (cases ev) (auto simp: e)
    then show ?thesis using quiet_step [OF q, of st i] Cons.prems(1) by (simp add: trace_recorded_def)
  qed
  have "received i (e # es) = ?new @ received i es"
    by (cases ev) (auto simp: e split: option.split)
  moreover have "length ?new \<le> 1" using length_received [of i "[e]"] by simp
  ultimately show ?case
    using Cons.IH [where st = "trace_step e st" and rids = "rids @ ?new", OF step] Cons.prems
    by (simp add: trace_run_Cons)
qed

lemma trace_run_terminal:
  "tr_terminal_response_request_id (trace_run es st i) =
     (case filter (touches i) es of
        [] \<Rightarrow> tr_terminal_response_request_id (st i)
      | e # fs \<Rightarrow> terminal_of (snd (last (e # fs))))"
proof (induction es arbitrary: st)
  case Nil
  then show ?case by (simp add: trace_run_def)
next
  case (Cons e es)
  show ?case
  proof (cases "touches i e")
    case True
    then show ?thesis using Cons.IH [of "trace_step e st"]
      by (auto simp: trace_run_Cons touched_terminal split: list.split)
  next
    case False
    then have "trace_step e st i = st i" by (rule trace_step_frame)
    then show ?thesis using Cons.IH [of "trace_step e st"] False
      by (simp add: trace_run_Cons split: list.split)
  qed
qed

section \<open>Properties\<close>

text \<open>
  C27: capturing an operation isolates its request id. Whatever other traces the interleaved
  futures report to, the captured id is the one left by the last event delivered to the
  fresh scope: the sanitised id of that response, nothing if that attempt had no response,
  or the id preserved for the failed worker; nothing when no event reached the scope.
\<close>

theorem capture_isolated:
  "snd (capture_service_request_id fresh traces operation st) =
     (case filter (touches fresh) (operation (traces @ [fresh])) of
        [] \<Rightarrow> None
      | e # fs \<Rightarrow> terminal_of (snd (last (e # fs))))"
  by (simp add: capture_service_request_id_def capture_scope_def Let_def trace_run_terminal
      with_limit_def split: list.split)

text \<open>
  The public trace is a faithful, bounded record. When every event reaches a trace at
  most once, the trace of a run holds exactly the first hundred sanitised ids delivered to
  it, in order, and counts every further one as omitted.
\<close>

theorem trace_records_prefix:
  assumes "list_all reaches_once es" and "length es \<le> u64_max"
  shows "tr_request_ids (trace_run es (\<lambda>_. default_trace) i) = take 100 (received i es)
    \<and> tr_request_ids_omitted (trace_run es (\<lambda>_. default_trace) i) = length (received i es) - 100"
proof -
  have "trace_recorded 100 ([] @ received i es) (trace_run es (\<lambda>_. default_trace) i)"
    by (rule recorded_run)
      (use assms in \<open>auto simp: trace_recorded_def default_trace_def with_limit_def
        service_request_id_limit_def\<close>)
  then show ?thesis by (simp add: trace_recorded_def)
qed

theorem trace_records_prefix_witness:
  "let es = [([7], Response 0 (Some '' req-1 '') True), ([7], NoResponse 0),
             ([], Response 0 (Some [CHR 0x0A]) True), ([7], Response 0 (Some ''req-2'') False)]
   in tr_request_ids (trace_run es (\<lambda>_. default_trace) 0) = [''req-1'', ''req-2'']
    \<and> tr_request_ids (trace_run es (\<lambda>_. default_trace) 7) = [''req-1'', ''req-2'']"
proof -
  let ?es = "[([7], Response 0 (Some '' req-1 '') True), ([7], NoResponse 0),
     ([], Response 0 (Some [CHR 0x0A]) True), ([7], Response 0 (Some ''req-2'') False)]"
  have once: "list_all reaches_once ?es" by simp
  have len: "length ?es \<le> u64_max" by (simp add: u64_max_def)
  have "take 100 (received 0 ?es) = [''req-1'', ''req-2'']" by code_simp
  moreover have "take 100 (received 7 ?es) = [''req-1'', ''req-2'']" by code_simp
  ultimately show ?thesis
    using trace_records_prefix [OF once len, of 0] trace_records_prefix [OF once len, of 7]
    by (simp only: Let_def)
qed

text \<open>
  The trace of any run, whatever the interleaving and the scopes, stays within its limit
  of one hundred ids, all of them sanitised, and an id is only omitted once it is full.
\<close>

theorem trace_bounded:
  "length (tr_request_ids (trace_run es (\<lambda>_. default_trace) i)) \<le> tr_limit (trace_run es (\<lambda>_. default_trace) i)
    \<and> list_all safe_request_id (tr_request_ids (trace_run es (\<lambda>_. default_trace) i))
    \<and> pred_option safe_request_id
        (tr_terminal_response_request_id (trace_run es (\<lambda>_. default_trace) i))
    \<and> pred_option safe_request_id
        (tr_last_successful_request_id (trace_run es (\<lambda>_. default_trace) i))"
proof -
  have "trace_ok (trace_run es (\<lambda>_. default_trace) i)"
    by (rule trace_run_ok) (simp add: default_trace_def)
  then show ?thesis by (auto simp: trace_ok_def list_all_iff pred_option_def)
qed

text \<open>
  Projecting a trace onto a successful envelope touches nothing but \<open>request_id\<close> and
  \<open>data\<close>. An explicit null id stays null; otherwise the last successful response supplies
  the id, or the id the handler wrote survives if it is a sanitisable string.
\<close>

theorem success_envelope_request_id:
  assumes "obj_get m ''success'' = Some (JBool True)"
  shows "\<exists>m'. apply_service_trace_to_success_envelope (JObject m) snap = JObject m'
    \<and> (\<forall>k. k \<noteq> ''request_id'' \<longrightarrow> k \<noteq> ''data'' \<longrightarrow> obj_get m' k = obj_get m k)
    \<and> obj_get m' ''request_id'' =
        (if obj_get m ''request_id'' = Some JNull then Some JNull
         else case tr_last_successful_request_id snap of
           Some rid \<Rightarrow> Some (JString rid)
         | None \<Rightarrow> map_option JString
             (Option.bind (Option.bind (obj_get m ''request_id'') as_str) sanitize_request_id))"
proof -
  define s where "s = sanitize_existing_envelope_request_id m"
  define r where "r = (if obj_get s ''request_id'' = Some JNull then s
     else case tr_last_successful_request_id snap of
       Some rid \<Rightarrow> obj_put ''request_id'' (JString rid) s | None \<Rightarrow> s)"
  have s_other: "obj_get s k = obj_get m k" if "k \<noteq> ''request_id''" for k
    using that by (auto simp: s_def sanitize_existing_envelope_request_id_def bt_get_put
        obj_get_remove split: option.splits)
  have s_id: "obj_get s ''request_id'' =
      (if obj_get m ''request_id'' = Some JNull then Some JNull
       else map_option JString
         (Option.bind (Option.bind (obj_get m ''request_id'') as_str) sanitize_request_id))"
    by (auto simp: s_def sanitize_existing_envelope_request_id_def bt_get_put
        obj_get_remove split: option.splits)
  have r_other: "obj_get r k = obj_get m k" if "k \<noteq> ''request_id''" for k
    using that by (auto simp: r_def s_other bt_get_put split: option.splits)
  have r_id: "obj_get r ''request_id'' =
      (if obj_get m ''request_id'' = Some JNull then Some JNull
       else case tr_last_successful_request_id snap of
         Some rid \<Rightarrow> Some (JString rid)
       | None \<Rightarrow> map_option JString
           (Option.bind (Option.bind (obj_get m ''request_id'') as_str) sanitize_request_id))"
    by (auto simp: r_def s_id bt_get_put split: option.splits)
  have "apply_service_trace_to_success_envelope (JObject m) snap =
      (if tr_response_count snap \<le> 1 then JObject r
       else case obj_get r ''data'' of
         Some (JObject d) \<Rightarrow> JObject (obj_put ''data'' (JObject (insert_multi_request_trace snap d)) r)
       | _ \<Rightarrow> JObject r)"
    unfolding apply_service_trace_to_success_envelope_def Let_def json.case
      s_def [symmetric] r_def [symmetric]
    using assms by simp
  then obtain m' where "apply_service_trace_to_success_envelope (JObject m) snap = JObject m'"
    and "m' = r \<or> (\<exists>d. m' = obj_put ''data'' d r)"
    by (auto split: if_splits option.splits json.splits)
  then show ?thesis using r_id r_other by (auto simp: bt_get_put)
qed

theorem success_envelope_request_id_witness:
  "\<exists>m'. apply_service_trace_to_success_envelope
      (JObject [(''request_id'', JNumber 3), (''success'', JBool True)]) (with_limit 1) = JObject m'
    \<and> obj_get m' ''request_id'' = None"
  using success_envelope_request_id
    [of "[(''request_id'', JNumber 3), (''success'', JBool True)]" "with_limit 1"]
  by (auto simp: with_limit_def)

end
