(* ===== verification/Cli_Error.thy ===== *)
theory Cli_Error
  imports Request_Trace
begin

text \<open>
  \<open>crates/tos-core/src/agent/error.rs\<close> and the error mapping of
  \<open>crates/adrive/src/handler/common.rs\<close>: the CLI error type, its exit codes, the parser
  that recovers status, code, message and request id from a service error's text, the agent
  category, and the translation of ADrive service errors. Errors of other crates
  (\<open>reqwest\<close>, \<open>std::io\<close>, \<open>serde_json\<close>) are what the code reads of them.
\<close>

section \<open>Data\<close>

datatype agent_error_category =
  Retryable | AuthError | NotFound | QuotaExceeded | InvalidParam | UnknownCategory

datatype cli_exit_code =
    ExitSuccess | ExitUnknown | ExitAuthFailed | ExitConfigMissing | ExitResourceNotFound
  | ExitPermissionDenied | ExitValidationError | ExitRateLimited | ExitTransferFailed | ExitConflict

datatype io_error_kind =
    IoNotFound | IoPermissionDenied | IoAlreadyExists | IoInvalidInput | IoInvalidData
  | IoTimedOut | IoInterrupted | IoUnexpectedEof | IoWriteZero | IoBrokenPipe
  | IoConnectionAborted | IoConnectionRefused | IoConnectionReset | IoNotConnected | IoOther

record http_error =
  he_is_timeout :: bool
  he_is_connect :: bool
  he_status :: "nat option"
  he_text :: string

record io_error =
  io_kind :: io_error_kind
  io_text :: string

datatype cli_error =
    Unknown string
  | AuthFailed string
  | ConfigMissing string
  | ResourceNotFound string
  | PermissionDenied string
  | ValidationError string
  | RateLimited string
  | TransferFailed string
  | Conflict string
  | Http http_error
  | Io io_error
  | Json string

record agent_error_semantics =
  sem_status_code :: "nat option"
  sem_code :: string
  sem_message :: string
  sem_request_id :: "string option"
  sem_category :: agent_error_category
  sem_suggested_action :: string

record service_error_fields =
  sef_status_code :: "nat option"
  sef_code :: "string option"
  sef_message :: "string option"
  sef_request_id :: "string option"

section \<open>Exit codes\<close>

fun as_i32 :: "cli_exit_code \<Rightarrow> int" where
  "as_i32 ExitSuccess = 0"
| "as_i32 ExitUnknown = 1"
| "as_i32 ExitAuthFailed = 2"
| "as_i32 ExitConfigMissing = 3"
| "as_i32 ExitResourceNotFound = 4"
| "as_i32 ExitPermissionDenied = 5"
| "as_i32 ExitValidationError = 6"
| "as_i32 ExitRateLimited = 7"
| "as_i32 ExitTransferFailed = 8"
| "as_i32 ExitConflict = 9"

definition http_error_exit_code :: "http_error \<Rightarrow> cli_exit_code" where
  "http_error_exit_code err =
     (if he_is_timeout err \<or> he_is_connect err then ExitTransferFailed
      else case he_status err of
             Some status \<Rightarrow>
               if status = 401 then ExitAuthFailed
               else if status = 403 then ExitPermissionDenied
               else if status = 404 then ExitResourceNotFound
               else if status = 408 then ExitTransferFailed
               else if status = 409 \<or> status = 412 then ExitConflict
               else if status = 429 then ExitRateLimited
               else if 500 \<le> status \<and> status \<le> 599 then ExitTransferFailed
               else ExitUnknown
           | None \<Rightarrow> ExitUnknown)"

fun io_error_exit_code :: "io_error_kind \<Rightarrow> cli_exit_code" where
  "io_error_exit_code IoNotFound = ExitResourceNotFound"
| "io_error_exit_code IoPermissionDenied = ExitPermissionDenied"
| "io_error_exit_code IoAlreadyExists = ExitConflict"
| "io_error_exit_code IoInvalidInput = ExitValidationError"
| "io_error_exit_code IoInvalidData = ExitValidationError"
| "io_error_exit_code IoTimedOut = ExitTransferFailed"
| "io_error_exit_code IoInterrupted = ExitTransferFailed"
| "io_error_exit_code IoUnexpectedEof = ExitTransferFailed"
| "io_error_exit_code IoWriteZero = ExitTransferFailed"
| "io_error_exit_code IoBrokenPipe = ExitTransferFailed"
| "io_error_exit_code IoConnectionAborted = ExitTransferFailed"
| "io_error_exit_code IoConnectionRefused = ExitTransferFailed"
| "io_error_exit_code IoConnectionReset = ExitTransferFailed"
| "io_error_exit_code IoNotConnected = ExitTransferFailed"
| "io_error_exit_code IoOther = ExitUnknown"

fun exit_code :: "cli_error \<Rightarrow> cli_exit_code" where
  "exit_code (Unknown _) = ExitUnknown"
| "exit_code (AuthFailed _) = ExitAuthFailed"
| "exit_code (ConfigMissing _) = ExitConfigMissing"
| "exit_code (ResourceNotFound _) = ExitResourceNotFound"
| "exit_code (PermissionDenied _) = ExitPermissionDenied"
| "exit_code (ValidationError _) = ExitValidationError"
| "exit_code (RateLimited _) = ExitRateLimited"
| "exit_code (TransferFailed _) = ExitTransferFailed"
| "exit_code (Conflict _) = ExitConflict"
| "exit_code (Http err) = http_error_exit_code err"
| "exit_code (Io err) = io_error_exit_code (io_kind err)"
| "exit_code (Json _) = ExitValidationError"

fun raw_message :: "cli_error \<Rightarrow> string" where
  "raw_message (Unknown m) = m"
| "raw_message (AuthFailed m) = m"
| "raw_message (ConfigMissing m) = m"
| "raw_message (ResourceNotFound m) = m"
| "raw_message (PermissionDenied m) = m"
| "raw_message (ValidationError m) = m"
| "raw_message (RateLimited m) = m"
| "raw_message (TransferFailed m) = m"
| "raw_message (Conflict m) = m"
| "raw_message (Http _) = []"
| "raw_message (Io _) = []"
| "raw_message (Json _) = []"

fun display_cli_error :: "cli_error \<Rightarrow> string" where
  "display_cli_error (Unknown m) = ''Unknown error: '' @ m"
| "display_cli_error (AuthFailed m) = ''Authentication failed: '' @ m"
| "display_cli_error (ConfigMissing m) = ''Configuration missing: '' @ m"
| "display_cli_error (ResourceNotFound m) = ''Resource not found: '' @ m"
| "display_cli_error (PermissionDenied m) = ''Permission denied: '' @ m"
| "display_cli_error (ValidationError m) = ''Validation error: '' @ m"
| "display_cli_error (RateLimited m) = ''Rate limited: '' @ m"
| "display_cli_error (TransferFailed m) = ''Transfer failed: '' @ m"
| "display_cli_error (Conflict m) = ''Conflict: '' @ m"
| "display_cli_error (Http err) = ''HTTP error: '' @ he_text err"
| "display_cli_error (Io err) = ''IO error: '' @ io_text err"
| "display_cli_error (Json m) = ''JSON error: '' @ m"

section \<open>Parsing a service error's text\<close>

text \<open>\<open>split_whitespace().next()\<close>: the first maximal run of non-whitespace.\<close>

fun take_word :: "string \<Rightarrow> string" where
  "take_word [] = []"
| "take_word (c # s) = (if strip_any whitespace (c # s) \<noteq> None then [] else c # take_word s)"

definition first_word :: "string \<Rightarrow> string option" where
  "first_word s = (let t = trim_start s in if t = [] then None else Some (take_word t))"

definition extract_http_status_code :: "string \<Rightarrow> nat option" where
  "extract_http_status_code message =
     Option.bind (strip_prefix ''HTTP '' message) (\<lambda>rest.
     Option.bind (first_word rest) (\<lambda>code. parse_unsigned 65535 (trim code)))"

definition extract_bracketed_code :: "string \<Rightarrow> string option" where
  "extract_bracketed_code message =
     Option.bind (split_once CHR ''['' message) (\<lambda>(_, rest).
     Option.bind (split_once CHR '']'' rest) (\<lambda>(inner, _).
       let code = trim inner in if code \<noteq> [] then Some code else None))"

definition request_id_marker :: string where
  "request_id_marker = ''(RequestId:''"

definition extract_request_id :: "string \<Rightarrow> string option" where
  "extract_request_id message =
     Option.bind (find_sub request_id_marker message) (\<lambda>i.
     Option.bind (split_once CHR '')'' (drop (i + length request_id_marker) message))
       (\<lambda>(inner, _). sanitize_request_id (trim inner)))"

definition extract_service_message :: "string \<Rightarrow> string option" where
  "extract_service_message message =
     Option.bind (split_once CHR '']'' message) (\<lambda>(_, rest).
       let after_code = trim rest;
           head = (case find_sub request_id_marker after_code of
                     None \<Rightarrow> after_code | Some i \<Rightarrow> take i after_code);
           without_request_id = trim head
       in if without_request_id \<noteq> [] then Some without_request_id else None)"

definition parse_service_error :: "string \<Rightarrow> service_error_fields option" where
  "parse_service_error raw =
     (let status_code = extract_http_status_code raw;
          code = extract_bracketed_code raw;
          request_id = extract_request_id raw
      in if status_code = None \<and> code = None \<and> request_id = None then None
         else Some \<lparr>sef_status_code = status_code, sef_code = code,
                     sef_message = extract_service_message raw, sef_request_id = request_id\<rparr>)"

section \<open>The agent contract\<close>

fun default_error_code :: "cli_exit_code \<Rightarrow> string" where
  "default_error_code ExitSuccess = ''Success''"
| "default_error_code ExitUnknown = ''Unknown''"
| "default_error_code ExitAuthFailed = ''AuthError''"
| "default_error_code ExitConfigMissing = ''ConfigMissing''"
| "default_error_code ExitResourceNotFound = ''NotFound''"
| "default_error_code ExitPermissionDenied = ''PermissionDenied''"
| "default_error_code ExitValidationError = ''InvalidParam''"
| "default_error_code ExitRateLimited = ''QuotaExceeded''"
| "default_error_code ExitTransferFailed = ''Retryable''"
| "default_error_code ExitConflict = ''Conflict''"

definition normalize_error_code :: "string \<Rightarrow> string" where
  "normalize_error_code code = to_ascii_lowercase (filter is_ascii_alphanumeric code)"

definition is_retryable_code :: "string \<Rightarrow> bool" where
  "is_retryable_code code \<longleftrightarrow>
     code \<in> set [''requesttimeout'', ''internalerror'', ''serviceunavailable'', ''serverbusy'']
     \<or> contains_sub ''temporarilyunavailable'' code
     \<or> contains_sub ''network'' code
     \<or> contains_sub ''timeout'' code"

definition is_auth_code :: "string \<Rightarrow> bool" where
  "is_auth_code code \<longleftrightarrow>
     code \<in> set [''accessdenied'', ''authenticationfailed'', ''authfailed'',
       ''invalidaccesskeyid'', ''invalidcredential'', ''invalidsecretkey'',
       ''invalidsecuritytoken'', ''permissiondenied'', ''signaturenotmatch'', ''unauthorized'']"

definition is_not_found_code :: "string \<Rightarrow> bool" where
  "is_not_found_code code \<longleftrightarrow> contains_sub ''notfound'' code \<or> starts_with ''nosuch'' code"

definition is_quota_code :: "string \<Rightarrow> bool" where
  "is_quota_code code \<longleftrightarrow>
     contains_sub ''quota'' code \<or> contains_sub ''limitexceeded'' code
     \<or> contains_sub ''ratelimit'' code \<or> contains_sub ''throttl'' code
     \<or> code = ''toomanyrequests'' \<or> code = ''slowdown''"

definition is_invalid_param_code :: "string \<Rightarrow> bool" where
  "is_invalid_param_code code \<longleftrightarrow>
     starts_with ''invalid'' code \<or> starts_with ''missing'' code
     \<or> starts_with ''malformed'' code \<or> code = ''badrequest''
     \<or> starts_with ''unsupported'' code"

fun category_from_exit_code :: "cli_exit_code \<Rightarrow> agent_error_category" where
  "category_from_exit_code ExitAuthFailed = AuthError"
| "category_from_exit_code ExitConfigMissing = AuthError"
| "category_from_exit_code ExitPermissionDenied = AuthError"
| "category_from_exit_code ExitResourceNotFound = NotFound"
| "category_from_exit_code ExitValidationError = InvalidParam"
| "category_from_exit_code ExitConflict = InvalidParam"
| "category_from_exit_code ExitRateLimited = QuotaExceeded"
| "category_from_exit_code ExitTransferFailed = Retryable"
| "category_from_exit_code ExitSuccess = UnknownCategory"
| "category_from_exit_code ExitUnknown = UnknownCategory"

definition classify_agent_error :: "cli_exit_code \<Rightarrow> string \<Rightarrow> agent_error_category" where
  "classify_agent_error ec code =
     (let normalized = normalize_error_code code
      in if is_retryable_code normalized then Retryable
         else if is_auth_code normalized then AuthError
         else if is_not_found_code normalized then NotFound
         else if is_quota_code normalized then QuotaExceeded
         else if is_invalid_param_code normalized then InvalidParam
         else category_from_exit_code ec)"

fun suggested_action :: "agent_error_category \<Rightarrow> string" where
  "suggested_action Retryable =
     ''retry with exponential backoff; verify endpoint and network if retries keep failing''"
| "suggested_action AuthError =
     ''refresh credentials, security token, profile, and IAM/TOS permissions''"
| "suggested_action NotFound =
     ''verify bucket/key/resource name and region; create the resource if it should exist''"
| "suggested_action QuotaExceeded =
     ''reduce request rate or concurrency, retry later, or request a quota increase''"
| "suggested_action InvalidParam =
     ''validate command arguments and JSON body; run the command with --describe or --help''"
| "suggested_action UnknownCategory =
     ''inspect status_code, ec, and request_id; run ve-tos doctor if needed''"

text \<open>\<open>last\<close> is the environment variable \<open>TOS_LAST_REQUEST_ID\<close>.\<close>

definition last_request_id :: "string option \<Rightarrow> string option" where
  "last_request_id env_last = Option.bind env_last sanitize_request_id"

definition agent_semantics :: "string option \<Rightarrow> cli_error \<Rightarrow> agent_error_semantics" where
  "agent_semantics env_last err =
     (let ec = exit_code err;
          raw = raw_message err;
          service = parse_service_error raw;
          code = (case Option.bind service sef_code of
                    Some c \<Rightarrow> c | None \<Rightarrow> default_error_code ec);
          status_code = Option.bind service sef_status_code;
          message = (case Option.bind service sef_message of
                       Some m \<Rightarrow> m | None \<Rightarrow> display_cli_error err);
          request_id = (case Option.bind service sef_request_id of
                          Some rid \<Rightarrow> Some rid
                        | None \<Rightarrow>
                            if contains_sub request_id_marker raw then None
                            else Option.bind (Option.bind service sef_status_code)
                                   (\<lambda>_. last_request_id env_last));
          category = classify_agent_error ec code
      in \<lparr>sem_status_code = status_code, sem_code = code, sem_message = message,
          sem_request_id = request_id, sem_category = category,
          sem_suggested_action = suggested_action category\<rparr>)"

section \<open>Service errors as text\<close>

text \<open>\<open>format_tos_error\<close> of \<open>crates/tos-core/src/infra/client.rs\<close>.\<close>

definition format_tos_error :: "nat \<Rightarrow> string \<Rightarrow> string \<Rightarrow> string \<Rightarrow> string" where
  "format_tos_error status code message request_id =
     ''HTTP '' @ show_nat status @ '' ['' @ code @ ''] '' @ message
       @ '' (RequestId: '' @ request_id @ '')''"

text \<open>The ADrive service error and client error of \<open>crates/adrive/src/domain/client.rs\<close>.\<close>

record ids_error =
  ids_code :: string
  ids_message :: string
  ids_request_id :: "string option"
  ids_status_code :: "nat option"

datatype client_error =
    ClientHttp string
  | ClientHttpBody string
  | ClientJson string
  | ClientServer ids_error
  | ClientCli cli_error
  | ClientUnifiedCredential cli_error
  | ClientError string
  | ClientInvalidResponse string

definition display_ids_error :: "ids_error \<Rightarrow> string" where
  "display_ids_error e =
     ''['' @ ids_code e @ ''] '' @ ids_message e
     @ (case ids_request_id e of Some rid \<Rightarrow> '' (RequestId: '' @ rid @ '')'' | None \<Rightarrow> [])
     @ (case ids_status_code e of Some st \<Rightarrow> '' (status='' @ show_nat st @ '')'' | None \<Rightarrow> [])"

fun display_client_error :: "client_error \<Rightarrow> string" where
  "display_client_error (ClientHttp e) = ''http error: '' @ e"
| "display_client_error (ClientHttpBody e) = ''body io error: '' @ e"
| "display_client_error (ClientJson e) = ''json error: '' @ e"
| "display_client_error (ClientServer e) = ''ids server error: '' @ display_ids_error e"
| "display_client_error (ClientCli e) = display_cli_error e"
| "display_client_error (ClientUnifiedCredential e) = display_cli_error e"
| "display_client_error (ClientError m) = ''client error: '' @ m"
| "display_client_error (ClientInvalidResponse m) = ''invalid response: '' @ m"

definition ids_error_message :: "client_error \<Rightarrow> string" where
  "ids_error_message err =
     (case err of
        ClientServer server \<Rightarrow>
          (case ids_status_code server of
             None \<Rightarrow> display_client_error err
           | Some status \<Rightarrow>
               (let request_id_absence =
                      (if ids_request_id server = None then '' (RequestId: )'' else [])
                in ''HTTP '' @ show_nat status @ '' '' @ display_client_error err
                     @ request_id_absence))
      | _ \<Rightarrow> display_client_error err)"

definition map_server_status :: "nat option \<Rightarrow> string \<Rightarrow> cli_error" where
  "map_server_status st message =
     (case st of
        None \<Rightarrow> Unknown message
      | Some s \<Rightarrow>
          if s = 401 then AuthFailed message
          else if s = 403 then PermissionDenied message
          else if s = 404 then ResourceNotFound message
          else if s = 409 \<or> s = 412 then Conflict message
          else if s = 429 \<or> s = 503 then RateLimited message
          else if 500 \<le> s \<and> s \<le> 599 \<or> s = 408 then TransferFailed message
          else Unknown message)"

fun map_ids_error :: "client_error \<Rightarrow> cli_error" where
  "map_ids_error (ClientCli e) = e"
| "map_ids_error (ClientUnifiedCredential e) = e"
| "map_ids_error (ClientServer server) =
     map_server_status (ids_status_code server) (ids_error_message (ClientServer server))"
| "map_ids_error (ClientHttp e) = TransferFailed (ids_error_message (ClientHttp e))"
| "map_ids_error (ClientHttpBody e) = TransferFailed (ids_error_message (ClientHttpBody e))"
| "map_ids_error (ClientJson e) = ValidationError (ids_error_message (ClientJson e))"
| "map_ids_error (ClientError e) = ValidationError (ids_error_message (ClientError e))"
| "map_ids_error (ClientInvalidResponse e) =
     ValidationError (ids_error_message (ClientInvalidResponse e))"

section \<open>Lemmas: trimming and searching\<close>

definition graphic :: "char \<Rightarrow> bool" where
  "graphic c \<longleftrightarrow> 33 \<le> byte c \<and> byte c \<le> 126"

lemma whitespace_not_graphic: "\<forall>w \<in> set whitespace. w \<noteq> [] \<and> \<not> graphic (hd w) \<and> \<not> graphic (last w)"
  by (simp add: whitespace_def graphic_def)

lemma strip_any_hd: "(\<forall>w \<in> set ws. w \<noteq> [] \<and> hd w \<noteq> c) \<Longrightarrow> strip_any ws (c # s) = None"
proof (induction ws)
  case Nil
  then show ?case by simp
next
  case (Cons w ws)
  then obtain d v where "w = d # v" "d \<noteq> c" by (cases w) auto
  then show ?case using Cons by simp
qed

lemma strip_any_graphic: "graphic c \<Longrightarrow> strip_any whitespace (c # s) = None"
  by (rule strip_any_hd) (metis whitespace_not_graphic)

lemma strip_any_rev_graphic: "graphic c \<Longrightarrow> strip_any (map rev whitespace) (c # s) = None"
proof (rule strip_any_hd, rule ballI)
  fix w
  assume "graphic c" and "w \<in> set (map rev whitespace)"
  then obtain v where "w = rev v" "v \<in> set whitespace" by auto
  then show "w \<noteq> [] \<and> hd w \<noteq> c"
    using whitespace_not_graphic \<open>graphic c\<close> by (metis hd_rev rev_is_Nil_conv)
qed

lemma strip_rounds_None: "strip_any ws s = None \<Longrightarrow> strip_rounds n ws s = s"
  by (cases n) auto

lemma trim_start_graphic: "graphic c \<Longrightarrow> trim_start (c # s) = c # s"
  by (simp add: trim_start_def strip_rounds_None strip_any_graphic del: strip_rounds.simps)

lemma trim_end_graphic: "graphic c \<Longrightarrow> trim_end (s @ [c]) = s @ [c]"
  by (simp add: trim_end_def strip_rounds_None strip_any_rev_graphic del: strip_rounds.simps)

lemma trim_start_space: "trim_start (CHR '' '' # s) = trim_start s"
  by (simp add: trim_start_def whitespace_def)

lemma trim_space: "trim (CHR '' '' # s) = trim s"
  by (simp add: trim_def trim_start_space)

lemma trim_graphic: "s \<noteq> [] \<Longrightarrow> graphic (hd s) \<Longrightarrow> graphic (last s) \<Longrightarrow> trim s = s"
proof -
  assume "s \<noteq> []" "graphic (hd s)" "graphic (last s)"
  then have "trim_start s = s" by (cases s) (auto simp: trim_start_graphic)
  moreover have "trim_end s = s"
    using trim_end_graphic [of "last s" "butlast s"] \<open>graphic (last s)\<close> \<open>s \<noteq> []\<close> by simp
  ultimately show ?thesis by (simp add: trim_def)
qed

lemma take_word_graphic: "\<forall>c \<in> set w. graphic c \<Longrightarrow> take_word (w @ CHR '' '' # s) = w"
  by (induction w) (auto simp: strip_any_graphic, auto simp: whitespace_def)

lemma find_sub_at: "c \<notin> set a \<Longrightarrow> find_sub (c # p) (a @ c # p @ b) = Some (length a)"
proof (induction a)
  case Nil
  then show ?case by (simp add: starts_with_iff)
next
  case (Cons x a)
  then show ?case by (auto simp: starts_with_iff)
qed

lemma drop_past: "drop (length q + n) (q @ x) = drop n x"
  by simp

lemma find_sub_skip:
  "find_sub (c # p) s = Some n \<Longrightarrow> c \<notin> set a \<Longrightarrow>
   find_sub (c # p) (a @ s) = Some (length a + n)"
  by (induction a) (auto simp: starts_with_iff)

lemma digit_graphic: "is_ascii_digit c \<Longrightarrow> graphic c"
  by (auto simp: is_ascii_digit_def graphic_def)

lemma alnum_graphic: "is_ascii_alphanumeric c \<Longrightarrow> graphic c"
  by (auto simp: is_ascii_alphanumeric_def is_ascii_digit_def is_ascii_upper_def
      is_ascii_lower_def graphic_def)

lemma alnum_not_bracket:
  "is_ascii_alphanumeric c \<Longrightarrow> c \<noteq> CHR ''['' \<and> c \<noteq> CHR '']'' \<and> c \<noteq> CHR ''(''"
  by (auto simp: is_ascii_alphanumeric_def is_ascii_digit_def is_ascii_upper_def is_ascii_lower_def)

lemma digit_alnum: "is_ascii_digit c \<Longrightarrow> is_ascii_alphanumeric c"
  by (simp add: is_ascii_alphanumeric_def)

lemma show_nat_alnum: "c \<in> set (show_nat n) \<Longrightarrow> is_ascii_alphanumeric c"
  by (auto dest: show_nat_digits digit_alnum)

lemma show_nat_no_bracket:
  "CHR ''['' \<notin> set (show_nat n) \<and> CHR '']'' \<notin> set (show_nat n) \<and> CHR ''('' \<notin> set (show_nat n)"
  using show_nat_alnum alnum_not_bracket by blast

lemma trim_alnum: "code \<noteq> [] \<Longrightarrow> \<forall>c \<in> set code. is_ascii_alphanumeric c \<Longrightarrow> trim code = code"
  by (rule trim_graphic) (auto intro: alnum_graphic)

section \<open>Lemmas: parsing formatted errors\<close>

lemma extract_status_format:
  "n \<le> 65535 \<Longrightarrow> extract_http_status_code (''HTTP '' @ show_nat n @ CHR '' '' # s) = Some n"
proof -
  assume n: "n \<le> 65535"
  have g: "\<forall>c \<in> set (show_nat n). graphic c" by (auto dest: show_nat_digits digit_graphic)
  obtain c r where cr: "show_nat n = c # r" by (meson neq_Nil_conv show_nat_not_Nil)
  then have "trim_start (show_nat n @ CHR '' '' # s) = show_nat n @ CHR '' '' # s"
    using g by (simp add: trim_start_graphic)
  then have "first_word (show_nat n @ CHR '' '' # s) = Some (show_nat n)"
    using g take_word_graphic [of "show_nat n" s] by (simp add: first_word_def)
  moreover have "trim (show_nat n) = show_nat n"
    by (rule trim_graphic) (auto simp: g)
  ultimately show ?thesis
    using n by (simp add: extract_http_status_code_def parse_show)
qed

lemma extract_code_format:
  assumes "CHR ''['' \<notin> set pre" and "code \<noteq> []" and "\<forall>c \<in> set code. is_ascii_alphanumeric c"
  shows "extract_bracketed_code (pre @ CHR ''['' # code @ CHR '']'' # s) = Some code"
proof -
  have "split_once CHR ''['' (pre @ CHR ''['' # code @ CHR '']'' # s)
      = Some (pre, code @ CHR '']'' # s)"
    using assms(1) by (simp add: split_once_Some)
  moreover have "split_once CHR '']'' (code @ CHR '']'' # s) = Some (code, s)"
    using assms(3) alnum_not_bracket by (auto simp: split_once_Some)
  ultimately show ?thesis
    using assms(2,3) by (simp add: extract_bracketed_code_def trim_alnum)
qed

lemma extract_request_id_format:
  assumes "CHR ''('' \<notin> set pre" and "CHR '')'' \<notin> set rid"
  shows "extract_request_id (pre @ ''(RequestId: '' @ rid @ CHR '')'' # s) =
    sanitize_request_id (trim rid)"
proof -
  have "find_sub request_id_marker (pre @ request_id_marker @ CHR '' '' # rid @ CHR '')'' # s)
      = Some (length pre)"
    using find_sub_at [OF assms(1), of "''RequestId:''" "CHR '' '' # rid @ CHR '')'' # s"]
    by (simp add: request_id_marker_def)
  moreover have "split_once CHR '')'' (CHR '' '' # rid @ CHR '')'' # s)
      = Some (CHR '' '' # rid, s)"
    using assms(2) by (simp add: split_once_Some)
  ultimately show ?thesis
    by (simp add: extract_request_id_def request_id_marker_def trim_space)
qed

lemma extract_message_format:
  assumes "CHR '']'' \<notin> set pre" and "CHR ''('' \<notin> set msg" and "msg \<noteq> []"
    and "graphic (hd msg)" and "graphic (last msg)"
  shows "extract_service_message (pre @ '']'' @ CHR '' '' # msg @ '' (RequestId: '' @ rid @ '')'')
    = Some msg"
proof -
  let ?tail = "msg @ '' (RequestId: '' @ rid @ '')''"
  have "split_once CHR '']'' (pre @ '']'' @ CHR '' '' # ?tail) = Some (pre, CHR '' '' # ?tail)"
    using assms(1) by (simp add: split_once_Some)
  moreover have "trim (CHR '' '' # ?tail) = ?tail"
  proof -
    have "graphic (last ?tail)" by (simp add: graphic_def)
    then have "trim ?tail = ?tail"
      by (intro trim_graphic) (use assms in auto)
    then show ?thesis by (simp only: trim_space)
  qed
  moreover have "find_sub request_id_marker ?tail = Some (length (msg @ '' ''))"
    using find_sub_at [of "CHR ''(''" "msg @ '' ''" "''RequestId:''" "CHR '' '' # rid @ '')''"] assms(2)
    by (simp add: request_id_marker_def)
  moreover have "trim (msg @ '' '') = msg"
  proof -
    have "trim_start (msg @ '' '') = msg @ '' ''"
      using assms(3,4) by (cases msg) (auto simp: trim_start_graphic)
    moreover have "trim_end (msg @ '' '') = trim_end msg"
      by (simp add: trim_end_def whitespace_def)
    moreover have "trim_end msg = msg"
      using trim_end_graphic [of "last msg" "butlast msg"] assms(3,5) by simp
    ultimately show ?thesis by (simp add: trim_def)
  qed
  ultimately show ?thesis
    using assms(3) by (simp add: extract_service_message_def)
qed

lemma sanitize_trimmed: "sanitize_request_id rid = Some rid \<Longrightarrow> sanitize_request_id (trim rid) = Some rid"
  by (metis sanitize_safe)

lemma request_id_in_text: "contains_sub request_id_marker (a @ ''(RequestId:'' @ b)"
  by (auto simp: contains_sub_iff request_id_marker_def)

section \<open>Properties\<close>



text \<open>
  An ADrive service error with a status reaches the agent contract with that status, its
  code and its own request id. When the service sent no id, none is reported: neither
  the text nor the process-wide \<open>TOS_LAST_REQUEST_ID\<close> supplies one.
\<close>

theorem ids_error_identity:
  assumes "ids_status_code e = Some status" and "status \<le> 65535"
    and "ids_code e \<noteq> []" and "\<forall>c \<in> set (ids_code e). is_ascii_alphanumeric c"
    and "CHR ''('' \<notin> set (ids_message e)"
    and "\<forall>rid. ids_request_id e = Some rid \<longrightarrow>
           sanitize_request_id rid = Some rid \<and> CHR '')'' \<notin> set rid"
  shows "sem_status_code (agent_semantics env (map_ids_error (ClientServer e))) = Some status
    \<and> sem_code (agent_semantics env (map_ids_error (ClientServer e))) = ids_code e
    \<and> sem_request_id (agent_semantics env (map_ids_error (ClientServer e))) = ids_request_id e"
proof -
  let ?raw = "ids_error_message (ClientServer e)"
  let ?pre = "''HTTP '' @ show_nat status @ '' ids server error: ''"
  have raw: "raw_message (map_ids_error (ClientServer e)) = ?raw"
    by (simp add: assms(1) map_server_status_def)
  have nb: "CHR ''('' \<notin> set (ids_code e)" using assms(4) alnum_not_bracket by blast
  have st: "extract_http_status_code ?raw = Some status"
    using extract_status_format [OF assms(2)] by (simp add: ids_error_message_def assms(1))
  have co: "extract_bracketed_code ?raw = Some (ids_code e)"
    using extract_code_format [OF _ assms(3,4), of ?pre]
    by (simp add: ids_error_message_def display_ids_error_def assms(1) show_nat_no_bracket)
  have rq: "extract_request_id ?raw = ids_request_id e \<and> contains_sub request_id_marker ?raw"
  proof (cases "ids_request_id e")
    case (Some rid)
    let ?p = "?pre @ ''['' @ ids_code e @ ''] '' @ ids_message e @ '' ''"
    have eq: "?raw = ?p @ ''(RequestId: '' @ rid @ CHR '')'' # '' (status='' @ show_nat status @ '')''"
      by (simp add: ids_error_message_def display_ids_error_def assms(1) Some)
    have "CHR ''('' \<notin> set ?p" using nb assms(5) by (simp add: show_nat_no_bracket)
    then have "extract_request_id ?raw = sanitize_request_id (trim rid)"
      unfolding eq by (rule extract_request_id_format) (use assms(6) Some in simp)
    moreover have "contains_sub request_id_marker ?raw"
      unfolding eq using request_id_in_text [of ?p] by simp
    ultimately show ?thesis using sanitize_trimmed assms(6) Some by metis
  next
    case None
    let ?q = "?pre @ ''['' @ ids_code e @ ''] '' @ ids_message e @ '' (status='' @ show_nat status @ '') ''"
    have eq: "?raw = ?q @ ''(RequestId: )''"
      by (simp add: ids_error_message_def display_ids_error_def assms(1) None)
    have i: "find_sub request_id_marker ?raw = Some (length ?q)"
    proof -
      let ?a = "?pre @ ''['' @ ids_code e @ ''] '' @ ids_message e @ '' ''"
      have a: "CHR ''('' \<notin> set ?a"
        using nb assms(5) by (simp add: show_nat_no_bracket)
      have b: "find_sub ''(RequestId:''
          (''(status='' @ show_nat status @ '') (RequestId: )'') =
          Some (length (''(status='' @ show_nat status @ '') ''))"
        using find_sub_at [of "CHR ''(''" "''status='' @ show_nat status @ '') ''" "''RequestId:''" "'' )''"]
        by (simp add: starts_with_iff show_nat_no_bracket)
      from find_sub_skip [OF b a] show ?thesis
        unfolding eq request_id_marker_def by simp
    qed
    have "drop (length ?q + length request_id_marker) ?raw = '' )''"
      unfolding eq drop_past by (simp add: request_id_marker_def)
    moreover have "sanitize_request_id (trim '' '') = None" by code_simp
    ultimately have "extract_request_id ?raw = None"
      by (simp add: extract_request_id_def i)
    moreover have "contains_sub request_id_marker ?raw"
      unfolding eq using request_id_in_text [of ?q "'' )''"] by simp
    ultimately show ?thesis using None by simp
  qed
  show ?thesis
    unfolding agent_semantics_def raw
    by (simp add: parse_service_error_def st co rq Let_def split: option.split)
qed

theorem ids_error_identity_witness:
  "sem_request_id (agent_semantics (Some ''stale'')
     (map_ids_error (ClientServer \<lparr>ids_code = ''NotFound'', ids_message = ''no share'',
        ids_request_id = None, ids_status_code = Some 404\<rparr>))) = None"
proof -
  let ?e = "\<lparr>ids_code = ''NotFound'', ids_message = ''no share'',
        ids_request_id = None, ids_status_code = Some 404\<rparr>"
  have "ids_status_code ?e = Some 404" by simp
  from ids_error_identity [OF this, of "Some ''stale''"] show ?thesis
    by (simp add: is_ascii_alphanumeric_def is_ascii_digit_def is_ascii_upper_def is_ascii_lower_def)
qed

text \<open>
  C38: every request id in the agent contract is sanitised (nonempty, bounded, free of control
  characters), and the process-wide \<open>TOS_LAST_REQUEST_ID\<close> can only supply it for an error
  whose text carries an HTTP status: a local error reports the same id whatever that variable
  holds.
\<close>

theorem agent_request_id_safe:
  "(case sem_request_id (agent_semantics env err) of None \<Rightarrow> True | Some rid \<Rightarrow> safe_request_id rid)
   \<and> (sem_status_code (agent_semantics env err) = None \<longrightarrow>
        agent_semantics env err = agent_semantics None err)"
proof -
  have ex: "extract_request_id m = Some rid \<Longrightarrow> safe_request_id rid" for m rid
    by (auto simp: extract_request_id_def bind_eq_Some_conv dest: sanitize_safe)
  then have "parse_service_error m = Some f \<Longrightarrow> sef_request_id f = Some rid \<Longrightarrow> safe_request_id rid"
    for m f rid
    by (auto simp: parse_service_error_def Let_def split: if_splits)
  moreover have "last_request_id env = Some rid \<Longrightarrow> safe_request_id rid" for rid
    by (auto simp: last_request_id_def bind_eq_Some_conv dest: sanitize_safe)
  ultimately show ?thesis
    by (auto simp: agent_semantics_def Let_def bind_eq_Some_conv
        split: option.splits if_splits)
qed

theorem agent_request_id_safe_witness:
  "agent_semantics (Some ''stale'') (ValidationError ''bad path'') =
   agent_semantics None (ValidationError ''bad path'')"
proof -
  have "sem_status_code (agent_semantics (Some ''stale'') (ValidationError ''bad path'')) = None"
    by code_simp
  then show ?thesis
    using agent_request_id_safe [of "Some ''stale''" "ValidationError ''bad path''"] by blast
qed

end
