(* ===== verification/Share_Path.thy ===== *)
theory Share_Path
  imports Cli_Error
begin

text \<open>
  \<open>crates/adrive/src/handler/share_manifest.rs\<close>: \<open>validate_relative\<close>, the check every
  remote or local path of a share download passes before it is joined to the destination,
  and \<open>insert_path\<close>, which records a local path with its ancestors under a case- and
  normalisation-folded key and rejects two paths that one file system would identify.

  \<open>to_uppercase\<close> of the device-name check is the ASCII one: no other scalar value
  uppercases to exactly one of the letters of CON, PRN, AUX, NUL, COM and LPT. The folding
  of \<open>insert_path\<close> (\<open>nfd\<close> of the \<open>unicode_normalization\<close> crate, then \<open>to_uppercase\<close>)
  is the parameter \<open>fold_path\<close>.
\<close>

section \<open>validate_relative\<close>

abbreviation slash :: char where
  "slash \<equiv> CHR ''/''"

definition invalid :: "string \<Rightarrow> cli_error" where
  "invalid message = ValidationError message"

definition is_device :: "string \<Rightarrow> bool" where
  "is_device base \<longleftrightarrow>
     base \<in> {''CON'', ''PRN'', ''AUX'', ''NUL''} \<or>
     (length base = 4 \<and> (starts_with ''COM'' base \<or> starts_with ''LPT'' base)
        \<and> is_ascii_digit (base ! 3))"

text \<open>The characters rejected by name: backslash, colon, the angles, the double quote, \<open>|?*\<close>.\<close>

definition non_portable :: string where
  "non_portable = [CHR 0x5C, CHR '':'', CHR ''<'', CHR ''>'', CHR 0x22, CHR ''|'', CHR ''?'', CHR ''*'']"

definition unsafe_component :: "string \<Rightarrow> bool" where
  "unsafe_component component \<longleftrightarrow>
     (let base = to_ascii_uppercase (hd (split_on (CHR ''.'') component))
      in component = [] \<or> component = ''.'' \<or> component = ''..''
         \<or> ends_with ''.'' component \<or> ends_with '' '' component
         \<or> is_device base
         \<or> has_control component \<or> list_ex (\<lambda>c. c \<in> set non_portable) component)"

fun check_components :: "string list \<Rightarrow> (unit, cli_error) result" where
  "check_components [] = Ok ()"
| "check_components (component # rest) =
     (if unsafe_component component
      then Err (invalid ''unsafe or non-portable download path'')
      else check_components rest)"

definition validate_relative :: "string \<Rightarrow> (unit, cli_error) result" where
  "validate_relative path =
     (if path = [] \<or> length path > 4096 \<or> length (split_on slash path) > 64
      then Err (invalid ''download path is empty or exceeds path/depth limit'')
      else check_components (split_on slash path))"

abbreviation valid_relative :: "string \<Rightarrow> bool" where
  "valid_relative path \<equiv> is_ok (validate_relative path)"

lemma check_components_ok: "is_ok (check_components cs) \<longleftrightarrow> list_all (\<lambda>c. \<not> unsafe_component c) cs"
  by (induction cs) auto

lemma valid_relative_iff:
  "valid_relative path \<longleftrightarrow> path \<noteq> [] \<and> length path \<le> 4096 \<and> length (split_on slash path) \<le> 64
     \<and> list_all (\<lambda>c. \<not> unsafe_component c) (split_on slash path)"
  by (auto simp: validate_relative_def check_components_ok)

lemma validate_relative_Ok: "validate_relative path = Ok u \<longleftrightarrow> valid_relative path"
  by (cases "validate_relative path") auto

lemma valid_component:
  "valid_relative path \<Longrightarrow> c \<in> set (split_on slash path) \<Longrightarrow> \<not> unsafe_component c"
  by (auto simp: valid_relative_iff list_all_iff)

lemma safe_component_not_Nil: "\<not> unsafe_component c \<Longrightarrow> c \<noteq> []"
  by (auto simp: unsafe_component_def Let_def)

lemma valid_not_absolute: "valid_relative path \<Longrightarrow> path \<noteq> [] \<and> hd path \<noteq> slash"
proof -
  assume v: "valid_relative path"
  then have ne: "path \<noteq> []" by (simp add: valid_relative_iff)
  have "[] \<notin> set (split_on slash path)"
    using valid_component [OF v] safe_component_not_Nil by blast
  moreover have "[] \<in> set (split_on slash (slash # p))" for p by simp
  ultimately show ?thesis using ne by (metis list.collapse)
qed

lemma valid_no_trailing_slash: "valid_relative path \<Longrightarrow> last path \<noteq> slash"
proof
  assume v: "valid_relative path" and l: "last path = slash"
  have ne: "path \<noteq> []" using v by (simp add: valid_relative_iff)
  then have "path = butlast path @ slash # []" using l by (metis append_butlast_last_id)
  then have "split_on slash path = split_on slash (butlast path) @ split_on slash []"
    using split_on_mid by metis
  then have "[] \<in> set (split_on slash path)" by simp
  then show False using valid_component [OF v] safe_component_not_Nil by blast
qed

lemma valid_trim_end: "valid_relative path \<Longrightarrow> trim_end_of slash path = path"
  by (intro trim_end_of_id disjI2 valid_no_trailing_slash)

text \<open>Every ancestor of an accepted path is accepted.\<close>

lemma valid_relative_prefix:
  assumes "valid_relative (a @ slash # b)"
  shows "valid_relative a"
proof -
  have s: "split_on slash (a @ slash # b) = split_on slash a @ split_on slash b"
    by (rule split_on_mid)
  have "a \<noteq> []" using valid_not_absolute [OF assms] by (cases a) auto
  then show ?thesis using assms unfolding valid_relative_iff s by auto
qed

section \<open>Where an accepted path leads\<close>

text \<open>
  The resolution of a path against the components of a directory: empty and \<open>.\<close>
  components are skipped, \<open>..\<close> removes one. On Windows the backslash separates
  components as well and a colon starts another volume, so \<open>resolve\<close> splits at
  either separator and gives up on a colon.
\<close>

fun walk :: "string list \<Rightarrow> string list \<Rightarrow> string list" where
  "walk dir [] = dir"
| "walk dir (c # cs) =
     walk (if c = [] \<or> c = ''.'' then dir else if c = ''..'' then butlast dir else dir @ [c]) cs"

definition resolve :: "string list \<Rightarrow> string \<Rightarrow> string list option" where
  "resolve dir path =
     (if CHR '':'' \<in> set path \<or> (path \<noteq> [] \<and> (hd path = slash \<or> hd path = CHR 0x5C)) then None
      else Some (walk dir (concat (map (split_on (CHR 0x5C)) (split_on slash path)))))"

lemma walk_plain:
  "list_all (\<lambda>c. c \<noteq> [] \<and> c \<noteq> ''.'' \<and> c \<noteq> ''..'') cs \<Longrightarrow> walk dir cs = dir @ cs"
  by (induction cs arbitrary: dir) auto

lemma safe_component_chars: "\<not> unsafe_component c \<Longrightarrow> set c \<inter> set non_portable = {}"
  by (auto simp: unsafe_component_def Let_def list_ex_iff)

lemma set_split: "c \<in> set path \<Longrightarrow> c \<noteq> sep \<Longrightarrow> \<exists>x \<in> set (split_on sep path). c \<in> set x"
proof (induction path)
  case Nil
  then show ?case by simp
next
  case (Cons d path)
  show ?case
  proof (cases "c = d")
    case True
    then show ?thesis using Cons.prems by (auto split: list.split)
  next
    case False
    then obtain x where "x \<in> set (split_on sep path)" "c \<in> set x" using Cons by auto
    then show ?thesis by (cases "split_on sep path") (auto split: list.split)
  qed
qed

lemma resolve_valid:
  assumes v: "valid_relative path"
  shows "resolve dir path = Some (dir @ split_on slash path)"
proof -
  have safe: "c \<notin> set path" if "c \<in> set non_portable" for c
  proof
    assume "c \<in> set path"
    moreover have "c \<noteq> slash" using that by (auto simp: non_portable_def)
    ultimately obtain x where "x \<in> set (split_on slash path)" "c \<in> set x"
      using set_split by metis
    then show False using safe_component_chars [OF valid_component [OF v]] that by blast
  qed
  have "map (split_on (CHR 0x5C)) (split_on slash path) = map (\<lambda>c. [c]) (split_on slash path)"
  proof (rule map_cong)
    fix c assume c: "c \<in> set (split_on slash path)"
    have "CHR 0x5C \<notin> set c"
      using safe_component_chars [OF valid_component [OF v c]] by (auto simp: non_portable_def)
    then show "split_on (CHR 0x5C) c = [c]" by simp
  qed simp
  then have "concat (map (split_on (CHR 0x5C)) (split_on slash path)) = split_on slash path"
    by (simp only: concat_map_singleton list.map_ident)
  moreover have "list_all (\<lambda>c. c \<noteq> [] \<and> c \<noteq> ''.'' \<and> c \<noteq> ''..'') (split_on slash path)"
    using valid_component [OF v] by (auto simp: list_all_iff unsafe_component_def Let_def)
  moreover have "CHR '':'' \<notin> set path" and "CHR 0x5C \<notin> set path"
    using safe by (auto simp: non_portable_def)
  moreover have "path \<noteq> []" "hd path \<noteq> slash" using valid_not_absolute [OF v] by auto
  moreover have "hd path \<noteq> CHR 0x5C" using calculation(4,5) by (metis hd_in_set)
  ultimately show ?thesis by (simp add: resolve_def walk_plain)
qed

section \<open>insert_path\<close>

text \<open>The map from a folded path to the original spelling and whether it is a directory.\<close>

type_synonym path_index = "(string, string \<times> bool) btree_map"

definition insert_prefix ::
  "(string \<Rightarrow> string) \<Rightarrow> nat \<Rightarrow> bool \<Rightarrow> string list \<Rightarrow> path_index \<Rightarrow> nat \<Rightarrow> (path_index, cli_error) result" where
  "insert_prefix fold_path total_parts is_directory components paths nparts =
     (let original = join_with slash (take nparts components);
          folded = fold_path original;
          is_parent = (nparts < total_parts \<or> is_directory)
      in case bt_get paths folded of
           Some (previous, was_directory) \<Rightarrow>
             if previous \<noteq> original \<or> \<not> was_directory \<or> \<not> is_parent
             then Err (invalid ''download paths collide (case, Unicode, or file/directory)'')
             else Ok paths
         | None \<Rightarrow> Ok (bt_put folded (original, is_parent) paths))"

definition insert_path ::
  "(string \<Rightarrow> string) \<Rightarrow> path_index \<Rightarrow> string \<Rightarrow> bool \<Rightarrow> (path_index, cli_error) result" where
  "insert_path fold_path paths path is_directory =
     try_in (validate_relative path) (\<lambda>_.
       let components = split_on slash path
       in try_fold (insert_prefix fold_path (length components) is_directory components)
            paths [1..<Suc (length components)])"

text \<open>The ancestors-or-self of a path, as \<open>insert_path\<close> enumerates them.\<close>

definition ancestors :: "string \<Rightarrow> string list" where
  "ancestors path =
     map (\<lambda>count. join_with slash (take count (split_on slash path)))
       [1..<Suc (length (split_on slash path))]"

definition proper_ancestors :: "string \<Rightarrow> string list" where
  "proper_ancestors path =
     map (\<lambda>count. join_with slash (take count (split_on slash path)))
       [1..<length (split_on slash path)]"

text \<open>Entries are only added, and every step records what it was given.\<close>

definition index_le :: "path_index \<Rightarrow> path_index \<Rightarrow> bool" where
  "index_le m m' \<longleftrightarrow> (\<forall>k v. bt_get m k = Some v \<longrightarrow> bt_get m' k = Some v)"

lemma index_le_refl [simp]: "index_le m m"
  by (simp add: index_le_def)

lemma index_le_trans: "index_le a b \<Longrightarrow> index_le b c \<Longrightarrow> index_le a c"
  by (simp add: index_le_def)

lemma insert_prefix_le:
  "insert_prefix f n d cs m k = Ok m' \<Longrightarrow> index_le m m'"
  by (auto simp: insert_prefix_def Let_def index_le_def bt_get_put
      split: option.splits if_splits prod.splits)

lemma insert_prefix_records:
  assumes "insert_prefix f n d cs m k = Ok m'"
  shows "bt_get m' (f (join_with slash (take k cs))) =
    Some (join_with slash (take k cs), k < n \<or> d)"
  using assms
  by (auto simp: insert_prefix_def Let_def bt_get_put
      split: option.splits if_splits prod.splits)

lemma try_fold_prefix_le:
  "try_fold (insert_prefix f n d cs) m ks = Ok m' \<Longrightarrow> index_le m m'"
proof (induction ks arbitrary: m)
  case Nil
  then show ?case by simp
next
  case (Cons k ks)
  then obtain m1 where "insert_prefix f n d cs m k = Ok m1"
    and "try_fold (insert_prefix f n d cs) m1 ks = Ok m'" by (auto simp: try_in_Ok_iff)
  then show ?case using Cons.IH insert_prefix_le index_le_trans by metis
qed

lemma try_fold_prefix_records:
  "try_fold (insert_prefix f n d cs) m ks = Ok m' \<Longrightarrow> k \<in> set ks \<Longrightarrow>
   bt_get m' (f (join_with slash (take k cs))) = Some (join_with slash (take k cs), k < n \<or> d)"
proof (induction ks arbitrary: m)
  case Nil
  then show ?case by simp
next
  case (Cons j ks)
  then obtain m1 where m1: "insert_prefix f n d cs m j = Ok m1"
    and m': "try_fold (insert_prefix f n d cs) m1 ks = Ok m'" by (auto simp: try_in_Ok_iff)
  show ?case
  proof (cases "k \<in> set ks")
    case True
    then show ?thesis using Cons.IH m' by blast
  next
    case False
    then have "k = j" using Cons.prems by simp
    then show ?thesis
      using insert_prefix_records [OF m1] try_fold_prefix_le [OF m'] by (simp add: index_le_def)
  qed
qed

lemma insert_path_le: "insert_path f m path d = Ok m' \<Longrightarrow> index_le m m'"
  by (auto simp: insert_path_def Let_def try_in_Ok_iff dest: try_fold_prefix_le)

lemma insert_path_valid: "insert_path f m path d = Ok m' \<Longrightarrow> valid_relative path"
  by (auto simp: insert_path_def try_in_Ok_iff)

lemma path_in_ancestors: "path \<in> set (ancestors path)"
proof -
  let ?cs = "split_on slash path"
  have "0 < length ?cs" by simp
  then have k: "length ?cs \<in> set [1..<Suc (length ?cs)]"
    by (simp only: set_upt atLeastLessThan_iff) linarith
  have "path = join_with slash (take (length ?cs) ?cs)" by simp
  then show ?thesis unfolding ancestors_def set_map using k by (rule image_eqI)
qed

lemma ancestors_split: "ancestors path = proper_ancestors path @ [path]"
  by (simp add: ancestors_def proper_ancestors_def Suc_le_eq)

lemma proper_ancestor_split:
  assumes "a \<in> set (proper_ancestors path)"
  shows "\<exists>r. path = a @ slash # r"
proof -
  let ?cs = "split_on slash path"
  obtain k where k: "k \<in> set [1..<length ?cs]" and a: "a = join_with slash (take k ?cs)"
    using assms unfolding proper_ancestors_def set_map by blast
  then have "\<exists>r. join_with slash (take (length ?cs) ?cs) = join_with slash (take k ?cs) @ slash # r"
    by (intro join_take_append) auto
  then show ?thesis using a by simp
qed

lemma proper_ancestor_not_self: "a \<in> set (proper_ancestors path) \<Longrightarrow> a \<noteq> path"
  using proper_ancestor_split by fastforce

text \<open>
  When an index accepts a further path: two paths are compatible when no ancestors of theirs
  are folded together unless they are equal, and neither is a file above or equal to the other.
\<close>

definition fold_injective :: "(string \<Rightarrow> string) \<Rightarrow> string \<Rightarrow> string \<Rightarrow> bool" where
  "fold_injective f p q \<longleftrightarrow>
     list_all (\<lambda>a. list_all (\<lambda>b. f a = f b \<longrightarrow> a = b) (ancestors q)) (ancestors p)"

fun compatible :: "(string \<Rightarrow> string) \<Rightarrow> string \<times> bool \<Rightarrow> string \<times> bool \<Rightarrow> bool" where
  "compatible f (p, d) (q, e) \<longleftrightarrow> fold_injective f p q
     \<and> (d \<or> p \<notin> set (ancestors q)) \<and> (e \<or> q \<notin> set (ancestors p))"

definition collision_free :: "(string \<Rightarrow> string) \<Rightarrow> (string \<times> bool) list \<Rightarrow> bool" where
  "collision_free f items \<longleftrightarrow> list_all (\<lambda>(p, d). fold_injective f p p) items
     \<and> sorted_wrt (compatible f) items"

definition insert_paths ::
  "(string \<Rightarrow> string) \<Rightarrow> path_index \<Rightarrow> (string \<times> bool) list \<Rightarrow> (path_index, cli_error) result" where
  "insert_paths f = try_fold (\<lambda>m (p, d). insert_path f m p d)"

lemma fold_injectiveD:
  "fold_injective f p q \<Longrightarrow> a \<in> set (ancestors p) \<Longrightarrow> b \<in> set (ancestors q) \<Longrightarrow> f a = f b \<Longrightarrow> a = b"
  by (auto simp: fold_injective_def list_all_iff)

lemma fold_injectiveI:
  "(\<And>a b. a \<in> set (ancestors p) \<Longrightarrow> b \<in> set (ancestors q) \<Longrightarrow> f a = f b \<Longrightarrow> a = b) \<Longrightarrow>
   fold_injective f p q"
  by (auto simp: fold_injective_def list_all_iff)

lemma ancestor_count:
  assumes "k \<in> set [1..<Suc (length (split_on slash path))]"
  shows "k < length (split_on slash path) \<longleftrightarrow>
    join_with slash (take k (split_on slash path)) \<in> set (proper_ancestors path)"
proof
  assume "k < length (split_on slash path)"
  then show "join_with slash (take k (split_on slash path)) \<in> set (proper_ancestors path)"
    using assms unfolding proper_ancestors_def set_map by (intro imageI) simp
next
  assume pa: "join_with slash (take k (split_on slash path)) \<in> set (proper_ancestors path)"
  show "k < length (split_on slash path)"
  proof (rule ccontr)
    assume "\<not> k < length (split_on slash path)"
    then have "join_with slash (take k (split_on slash path)) = path" by simp
    then show False using pa proper_ancestor_not_self by metis
  qed
qed

lemma insert_path_fold:
  "insert_path f m path d = Ok m' \<Longrightarrow>
   try_fold (insert_prefix f (length (split_on slash path)) d (split_on slash path)) m
     [1..<Suc (length (split_on slash path))] = Ok m'"
  by (auto simp: insert_path_def Let_def try_in_Ok_iff)

lemma insert_path_records:
  assumes "insert_path f m path d = Ok m'" and "a \<in> set (ancestors path)"
  shows "bt_get m' (f a) = Some (a, a \<in> set (proper_ancestors path) \<or> d)"
proof -
  let ?cs = "split_on slash path"
  obtain k where k: "k \<in> set [1..<Suc (length ?cs)]" and a: "a = join_with slash (take k ?cs)"
    using assms(2) unfolding ancestors_def set_map by blast
  have "bt_get m' (f a) = Some (a, k < length ?cs \<or> d)"
    unfolding a by (rule try_fold_prefix_records [OF insert_path_fold [OF assms(1)] k])
  then show ?thesis using ancestor_count [OF k] a by simp
qed

lemma insert_prefix_new:
  assumes "insert_prefix f n d cs m k = Ok m'" and "bt_get m' key = Some v"
  shows "bt_get m key = Some v \<or>
    key = f (join_with slash (take k cs)) \<and> v = (join_with slash (take k cs), k < n \<or> d)"
  using assms
  by (auto simp: insert_prefix_def Let_def bt_get_put split: option.splits if_splits prod.splits)

lemma try_fold_prefix_new:
  "try_fold (insert_prefix f n d cs) m ks = Ok m' \<Longrightarrow> bt_get m' key = Some v \<Longrightarrow>
   bt_get m key = Some v \<or> (\<exists>k \<in> set ks. key = f (join_with slash (take k cs))
     \<and> v = (join_with slash (take k cs), k < n \<or> d))"
proof (induction ks arbitrary: m)
  case Nil
  then show ?case by simp
next
  case (Cons k ks)
  then obtain m1 where m1: "insert_prefix f n d cs m k = Ok m1"
    and m': "try_fold (insert_prefix f n d cs) m1 ks = Ok m'" by (auto simp: try_in_Ok_iff)
  from Cons.IH [OF m' Cons.prems(2)] show ?case
    using insert_prefix_new [OF m1, of key v] by auto
qed

lemma insert_path_new:
  assumes "insert_path f m path d = Ok m'" and "bt_get m' key = Some v"
  shows "bt_get m key = Some v \<or> (\<exists>a \<in> set (ancestors path). key = f a
    \<and> v = (a, a \<in> set (proper_ancestors path) \<or> d))"
proof -
  let ?cs = "split_on slash path"
  from try_fold_prefix_new [OF insert_path_fold [OF assms(1)] assms(2)]
  consider "bt_get m key = Some v" | k where "k \<in> set [1..<Suc (length ?cs)]"
    and "key = f (join_with slash (take k ?cs))"
    and "v = (join_with slash (take k ?cs), k < length ?cs \<or> d)" by blast
  then show ?thesis
  proof cases
    case 1
    then show ?thesis by blast
  next
    case 2
    have "join_with slash (take k ?cs) \<in> set (ancestors path)"
      unfolding ancestors_def set_map by (rule imageI) (rule 2(1))
    then show ?thesis using 2(2,3) ancestor_count [OF 2(1)] by metis
  qed
qed

text \<open>A file is only accepted under a key that was free.\<close>

lemma insert_file_fresh:
  assumes "insert_path f m path False = Ok m'"
  shows "bt_get m (f path) = None"
proof -
  let ?cs = "split_on slash path"
  let ?step = "insert_prefix f (length ?cs) False ?cs"
  have "[1..<Suc (length ?cs)] = [1..<length ?cs] @ [length ?cs]" by (simp add: Suc_le_eq)
  then have "try_fold ?step m ([1..<length ?cs] @ [length ?cs]) = Ok m'"
    using insert_path_fold [OF assms] by (simp only:)
  then obtain m1 where "try_fold ?step m [1..<length ?cs] = Ok m1"
    and "try_fold ?step m1 [length ?cs] = Ok m'"
    unfolding try_fold_append try_in_Ok_iff by blast
  then have le: "index_le m m1" and last: "?step m1 (length ?cs) = Ok m'"
    by (auto simp: try_in_Ok_iff dest: try_fold_prefix_le)
  from last have "bt_get m1 (f path) = None"
    by (auto simp: insert_prefix_def Let_def split: option.splits if_splits prod.splits)
  then show ?thesis using le by (cases "bt_get m (f path)") (auto simp: index_le_def)
qed

text \<open>What an index holds after inserting the paths \<open>earlier\<close>.\<close>

definition indexed :: "(string \<Rightarrow> string) \<Rightarrow> (string \<times> bool) list \<Rightarrow> path_index \<Rightarrow> bool" where
  "indexed f earlier m \<longleftrightarrow>
     (\<forall>key v. bt_get m key = Some v \<longrightarrow>
        (\<exists>(q, e) \<in> set earlier. \<exists>a \<in> set (ancestors q).
            key = f a \<and> v = (a, a \<in> set (proper_ancestors q) \<or> e)))
   \<and> (\<forall>(q, e) \<in> set earlier. \<forall>a \<in> set (ancestors q).
        bt_get m (f a) = Some (a, a \<in> set (proper_ancestors q) \<or> e))"

lemma indexed_Nil: "indexed f [] []"
  by (simp add: indexed_def)

lemma indexed_entry:
  "indexed f earlier m \<Longrightarrow> bt_get m key = Some v \<Longrightarrow>
   \<exists>q e a. (q, e) \<in> set earlier \<and> a \<in> set (ancestors q) \<and> key = f a
     \<and> v = (a, a \<in> set (proper_ancestors q) \<or> e)"
  unfolding indexed_def by blast

lemma indexed_path:
  "indexed f earlier m \<Longrightarrow> (q, e) \<in> set earlier \<Longrightarrow> a \<in> set (ancestors q) \<Longrightarrow>
   bt_get m (f a) = Some (a, a \<in> set (proper_ancestors q) \<or> e)"
  unfolding indexed_def by blast

lemma indexed_insert:
  assumes "indexed f earlier m" and ok: "insert_path f m p d = Ok m'"
  shows "indexed f ((p, d) # earlier) m'"
proof -
  have le: "index_le m m'" by (rule insert_path_le [OF ok])
  have "\<exists>(q, e) \<in> set ((p, d) # earlier). \<exists>a \<in> set (ancestors q).
      key = f a \<and> v = (a, a \<in> set (proper_ancestors q) \<or> e)"
    if entry: "bt_get m' key = Some v" for key v
  proof -
    consider "bt_get m key = Some v"
      | "\<exists>a \<in> set (ancestors p). key = f a \<and> v = (a, a \<in> set (proper_ancestors p) \<or> d)"
      using insert_path_new [OF ok entry] by blast
    then show ?thesis
    proof cases
      case 1
      then obtain q e a where "(q, e) \<in> set earlier" "a \<in> set (ancestors q)" "key = f a"
        "v = (a, a \<in> set (proper_ancestors q) \<or> e)" using indexed_entry [OF assms(1)] by blast
      then show ?thesis by (intro bexI [of _ "(q, e)"]) auto
    next
      case 2
      then show ?thesis by (intro bexI [of _ "(p, d)"]) auto
    qed
  qed
  moreover have "bt_get m' (f a) = Some (a, a \<in> set (proper_ancestors q) \<or> e)"
    if "(q, e) \<in> set ((p, d) # earlier)" and "a \<in> set (ancestors q)" for q e a
    using that insert_path_records [OF ok, of a] indexed_path [OF assms(1), of q e a] le
    by (auto simp: index_le_def)
  ultimately show ?thesis unfolding indexed_def by blast
qed

lemma insert_path_sound:
  assumes "indexed f earlier m" and ok: "insert_path f m p d = Ok m'"
  shows "valid_relative p \<and> fold_injective f p p
    \<and> list_all (\<lambda>x. compatible f (p, d) x) earlier"
proof -
  note new = indexed_insert [OF assms]
  have inj: "fold_injective f q r" if "(q, e) \<in> set ((p, d) # earlier)" "(r, e') \<in> set ((p, d) # earlier)"
    for q r e e'
    by (rule fold_injectiveI) (use indexed_path [OF new that(1)] indexed_path [OF new that(2)]
        in fastforce)
  have above: "e \<or> q \<notin> set (ancestors p)" if q: "(q, e) \<in> set earlier" for q e
  proof (rule ccontr)
    assume "\<not> (e \<or> q \<notin> set (ancestors p))"
    then have e: "\<not> e" and qp: "q \<in> set (ancestors p)" by auto
    have "bt_get m (f q) = Some (q, False)"
      using indexed_path [OF assms(1) q path_in_ancestors] e proper_ancestor_not_self by fastforce
    moreover have "bt_get m' (f q) = Some (q, q \<in> set (proper_ancestors p) \<or> d)"
      by (rule insert_path_records [OF ok qp])
    moreover have "bt_get m' (f q) = Some (q, False)"
      using insert_path_le [OF ok] calculation(1) unfolding index_le_def by blast
    ultimately have "q = p" and "\<not> d" and "bt_get m (f q) \<noteq> None"
      using qp by (auto simp: ancestors_split)
    then show False using insert_file_fresh [of f m p m'] ok by simp
  qed
  have below: "d \<or> p \<notin> set (ancestors q)" if q: "(q, e) \<in> set earlier" for q e
  proof (rule ccontr)
    assume "\<not> (d \<or> p \<notin> set (ancestors q))"
    then have "\<not> d" and "p \<in> set (ancestors q)" by auto
    then show False
      using indexed_path [OF assms(1) q, of p] insert_file_fresh [of f m p m'] ok by simp
  qed
  have "compatible f (p, d) (q, e)" if q: "(q, e) \<in> set earlier" for q e
    using inj [of p d q e] q above [OF q] below [OF q] by simp
  then show ?thesis using insert_path_valid [OF ok] inj [of p d p d] by (auto simp: list_all_iff)
qed

text \<open>Conversely, a valid path compatible with those inserted is accepted.\<close>

lemma insert_prefix_accepts:
  assumes m: "indexed f earlier m"
    and self: "fold_injective f p p" and others: "list_all (compatible f (p, d)) earlier"
    and k: "k \<in> set [1..<Suc (length (split_on slash p))]"
    and m1: "\<And>key v. bt_get m1 key = Some v \<Longrightarrow> bt_get m key = Some v \<or>
      (\<exists>j \<in> set [1..<k]. key = f (join_with slash (take j (split_on slash p)))
        \<and> v = (join_with slash (take j (split_on slash p)), True))"
  shows "is_ok (insert_prefix f (length (split_on slash p)) d (split_on slash p) m1 k)"
proof -
  let ?cs = "split_on slash p"
  let ?o = "join_with slash (take k ?cs)"
  have o: "?o \<in> set (ancestors p)" unfolding ancestors_def set_map by (rule imageI) (rule k)
  have par: "k < length ?cs \<longleftrightarrow> ?o \<in> set (proper_ancestors p)" by (rule ancestor_count [OF k])
  have good: "prev = ?o \<and> was \<and> (k < length ?cs \<or> d)"
    if got: "bt_get m1 (f ?o) = Some (prev, was)" for prev was
  proof -
    consider (old) "bt_get m (f ?o) = Some (prev, was)"
      | (own) j where "j \<in> set [1..<k]" "f ?o = f (join_with slash (take j ?cs))"
          "prev = join_with slash (take j ?cs)"
      using m1 [OF got] by blast
    then show ?thesis
    proof cases
      case old
      then obtain q e where q: "(q, e) \<in> set earlier" and prev: "prev \<in> set (ancestors q)"
        and eq: "f ?o = f prev" and was: "was = (prev \<in> set (proper_ancestors q) \<or> e)"
        using indexed_entry [OF m] by blast
      have c: "compatible f (p, d) (q, e)" using others q by (auto simp: list_all_iff)
      have same: "prev = ?o" using fold_injectiveD [OF _ o prev eq] c by simp
      have "was"
      proof (rule ccontr)
        assume "\<not> was"
        then have "\<not> e" and "prev = q" using was prev by (auto simp: ancestors_split)
        then show False using c o same by simp
      qed
      moreover have "k < length ?cs \<or> d"
      proof (rule ccontr)
        assume n: "\<not> (k < length ?cs \<or> d)"
        then have "?o = p" by simp
        then show False using c n prev same by simp
      qed
      ultimately show ?thesis using same by blast
    next
      case own
      then have j: "j \<in> set [1..<Suc (length ?cs)]"
        using k \<open>j \<in> set [1..<k]\<close> unfolding set_upt atLeastLessThan_iff by linarith
      have "join_with slash (take j ?cs) \<in> set (ancestors p)"
        unfolding ancestors_def set_map by (rule imageI) (rule j)
      then have "?o = join_with slash (take j ?cs)" using fold_injectiveD [OF self o] own(2) by blast
      moreover have "\<exists>r. ?o = join_with slash (take j ?cs) @ slash # r"
        using own(1) k by (intro join_take_append) auto
      ultimately show ?thesis by fastforce
    qed
  qed
  show ?thesis
    using good by (auto simp: insert_prefix_def Let_def split: option.split prod.split)
qed

lemma insert_prefixes_accept:
  assumes m: "indexed f earlier m"
    and self: "fold_injective f p p" and others: "list_all (compatible f (p, d)) earlier"
  shows "k \<le> length (split_on slash p) \<Longrightarrow>
    is_ok (try_fold (insert_prefix f (length (split_on slash p)) d (split_on slash p)) m [1..<Suc k])"
proof (induction k)
  case 0
  then show ?case by simp
next
  case (Suc k)
  let ?cs = "split_on slash p"
  let ?step = "insert_prefix f (length ?cs) d ?cs"
  obtain m1 where m1: "try_fold ?step m [1..<Suc k] = Ok m1"
    using Suc by (auto simp: is_ok_iff)
  have "is_ok (?step m1 (Suc k))"
  proof (rule insert_prefix_accepts [OF m self others])
    show "Suc k \<in> set [1..<Suc (length ?cs)]"
      using Suc.prems by (simp only: set_upt atLeastLessThan_iff) linarith
    show "bt_get m key = Some v \<or> (\<exists>j \<in> set [1..<Suc k]. key = f (join_with slash (take j ?cs))
        \<and> v = (join_with slash (take j ?cs), True))" if got: "bt_get m1 key = Some v" for key v
    proof -
      have "j < length ?cs" if "j \<in> set [1..<Suc k]" for j
        using that Suc.prems unfolding set_upt atLeastLessThan_iff by linarith
      then show ?thesis using try_fold_prefix_new [OF m1 got] by blast
    qed
  qed
  moreover have "[1..<Suc (Suc k)] = [1..<Suc k] @ [Suc k]" by simp
  ultimately show ?case
    using m1 by (simp only: try_fold_append) (auto simp: is_ok_iff)
qed

lemma insert_path_complete:
  assumes "indexed f earlier m" and "valid_relative p"
    and "fold_injective f p p" and "list_all (compatible f (p, d)) earlier"
  shows "is_ok (insert_path f m p d)"
proof -
  have "validate_relative p = Ok ()" using assms(2) by (simp add: validate_relative_Ok)
  then show ?thesis
    using insert_prefixes_accept [OF assms(1,3,4) order_refl]
    by (simp add: insert_path_def Let_def del: upt_Suc)
qed

lemma insert_path_ok_iff:
  assumes "indexed f earlier m"
  shows "is_ok (insert_path f m p d) \<longleftrightarrow> valid_relative p \<and> fold_injective f p p
    \<and> list_all (compatible f (p, d)) earlier"
  using insert_path_sound [OF assms] insert_path_complete [OF assms] by (auto simp: is_ok_iff)

lemma compatible_sym: "compatible f x y \<longleftrightarrow> compatible f y x"
proof -
  have "fold_injective f p q \<Longrightarrow> fold_injective f q p" for p q
    by (rule fold_injectiveI) (metis fold_injectiveD)
  then show ?thesis by (cases x; cases y) auto
qed

lemma insert_paths_iff:
  "indexed f earlier m \<Longrightarrow> is_ok (insert_paths f m items) \<longleftrightarrow>
     list_all (\<lambda>(p, d). valid_relative p) items \<and> collision_free f items
     \<and> list_all (\<lambda>x. list_all (compatible f x) items) earlier"
proof (induction items arbitrary: m earlier)
  case Nil
  then show ?case by (simp add: insert_paths_def collision_free_def list_all_iff)
next
  case (Cons x items)
  obtain p d where x: "x = (p, d)" by (cases x)
  show ?case
  proof (cases "insert_path f m p d")
    case (Ok m')
    have h: "valid_relative p \<and> fold_injective f p p \<and> list_all (compatible f (p, d)) earlier"
      using insert_path_ok_iff [OF Cons.prems, of p d] Ok by simp
    have "is_ok (insert_paths f m (x # items)) \<longleftrightarrow> is_ok (insert_paths f m' items)"
      by (simp add: insert_paths_def x Ok)
    also have "\<dots> \<longleftrightarrow> list_all (\<lambda>(p, d). valid_relative p) items \<and> collision_free f items
        \<and> list_all (\<lambda>x. list_all (compatible f x) items) ((p, d) # earlier)"
      by (rule Cons.IH) (rule indexed_insert [OF Cons.prems Ok])
    finally show ?thesis using h compatible_sym [of f]
      by (auto simp: x collision_free_def list_all_iff)
  next
    case (Err e)
    then have "\<not> (valid_relative p \<and> fold_injective f p p \<and> list_all (compatible f (p, d)) earlier)"
      using insert_path_ok_iff [OF Cons.prems, of p d] by simp
    then show ?thesis using Err compatible_sym [of f]
      by (auto simp: insert_paths_def x collision_free_def list_all_iff)
  qed
qed

section \<open>Properties\<close>

text \<open>
  C32: a download path cannot leave its destination. Resolving an accepted path, with \<open>/\<close> or
  backslash as separator, from any directory appends exactly the components of the path to
  that directory: no parent step, no root, no volume, and none of them is a device name.
\<close>

theorem download_path_confined:
  assumes "valid_relative path"
  shows "resolve dir path = Some (dir @ split_on slash path)
    \<and> list_all (\<lambda>c. \<not> is_device (to_ascii_uppercase (hd (split_on (CHR ''.'') c)))) (split_on slash path)"
  using resolve_valid [OF assms] valid_component [OF assms]
  by (auto simp: list_all_iff unsafe_component_def Let_def)

theorem download_path_confined_witness:
  "resolve [''home''] ''docs/a.txt'' = Some [''home'', ''docs'', ''a.txt'']"
proof -
  have "valid_relative ''docs/a.txt''" by code_simp
  moreover have "split_on slash ''docs/a.txt'' = [''docs'', ''a.txt'']" by code_simp
  ultimately show ?thesis using download_path_confined [of "''docs/a.txt''" "[''home'']"] by simp
qed

text \<open>
  C34: the path index accepts a sequence of files and directories exactly when every path is
  valid and the sequence is free of collisions: no two ancestors of its paths are identified
  by the file system's folding unless they are the same string, and no file is equal to, or
  above, another path. This holds for every folding function.
\<close>

theorem path_index_accepts_iff:
  "is_ok (insert_paths fold_path [] items) \<longleftrightarrow>
     list_all (\<lambda>(path, is_directory). valid_relative path) items \<and> collision_free fold_path items"
  using insert_paths_iff [OF indexed_Nil] by simp

end
