(* ===== verification/Path_Filter.thy ===== *)
theory Path_Filter
  imports Rust_Str
begin

text \<open>
  \<open>crates/adrive/src/handler/high_level.rs\<close>: the include and exclude filters shared by
  \<open>cp\<close>, \<open>rm\<close>, \<open>find\<close> and the share downloads. \<open>simple_pattern_match\<close> searches the
  star-separated parts greedily from the left; \<open>glob\<close> is the usual backtracking definition of
  what a star pattern matches.
\<close>

section \<open>The code\<close>

abbreviation star :: char where
  "star \<equiv> CHR ''*''"

text \<open>The loop over \<open>parts.iter().enumerate()\<close>; False is its early return.\<close>

fun match_parts :: "string \<Rightarrow> nat \<Rightarrow> string list \<Rightarrow> string \<Rightarrow> bool" where
  "match_parts pattern index [] remainder = True"
| "match_parts pattern index (part # parts) remainder =
     (if part = [] then match_parts pattern (Suc index) parts remainder
      else case find_sub part remainder of
             None \<Rightarrow> False
           | Some position \<Rightarrow>
               if index = 0 \<and> \<not> starts_with ''*'' pattern \<and> position \<noteq> 0 then False
               else match_parts pattern (Suc index) parts
                      (drop (position + length part) remainder))"

definition simple_pattern_match :: "string \<Rightarrow> string \<Rightarrow> bool" where
  "simple_pattern_match pattern value =
     (if pattern = ''*'' then True
      else let parts = split_on star pattern
           in if length parts = 1 then contains_sub pattern value
              else if \<not> match_parts pattern 0 parts value then False
              else ends_with ''*'' pattern \<or> ends_with (last parts) value)"

definition path_matches_filters :: "string \<Rightarrow> string option \<Rightarrow> string option \<Rightarrow> bool" where
  "path_matches_filters path incl excl =
     (if (case excl of None \<Rightarrow> False | Some pattern \<Rightarrow> simple_pattern_match pattern path)
      then False
      else (case incl of None \<Rightarrow> True | Some pattern \<Rightarrow> simple_pattern_match pattern path))"

section \<open>The reference semantics\<close>

function glob :: "string \<Rightarrow> string \<Rightarrow> bool" where
  "glob [] v = (v = [])"
| "glob (c # p) v =
     (if c = star then glob p v \<or> (case v of [] \<Rightarrow> False | d # w \<Rightarrow> glob (c # p) w)
      else (case v of [] \<Rightarrow> False | d # w \<Rightarrow> d = c \<and> glob p w))"
  by pat_completeness auto
termination by (relation "measure (\<lambda>(p, v). length p + length v)") auto

lemma glob_star: "glob (star # p) v \<longleftrightarrow> (\<exists>g w. v = g @ w \<and> glob p w)"
proof (induction v)
  case Nil
  then show ?case by simp
next
  case (Cons d v)
  have "glob (star # p) (d # v) \<longleftrightarrow> glob p (d # v) \<or> (\<exists>g w. v = g @ w \<and> glob p w)"
    using Cons by simp
  also have "\<dots> \<longleftrightarrow> (\<exists>g w. d # v = g @ w \<and> glob p w)"
    by (auto simp: Cons_eq_append_conv)
  finally show ?case .
qed

section \<open>Greedy search\<close>

text \<open>\<open>emb ps v\<close>: the parts occur in \<open>v\<close> in order, without overlapping.\<close>

fun emb :: "string list \<Rightarrow> string \<Rightarrow> bool" where
  "emb [] v = True"
| "emb (p # ps) v = (\<exists>g w. v = g @ p @ w \<and> emb ps w)"

lemma emb_suffix: "emb ps w \<Longrightarrow> emb ps (g @ w)"
proof (cases ps)
  case (Cons p ps')
  assume "emb ps w"
  then obtain h u where "w = h @ p @ u" and "emb ps' u" by (auto simp: Cons)
  then have "g @ w = (g @ h) @ p @ u" by simp
  then show ?thesis using \<open>emb ps' u\<close> unfolding Cons emb.simps by blast
qed simp

lemma emb_empty: "emb ([] # ps) v \<longleftrightarrow> emb ps v"
  by (auto intro: emb_suffix)

lemma emb_length: "emb ps v \<Longrightarrow> p \<in> set ps \<Longrightarrow> length p \<le> length v"
  by (induction ps arbitrary: v) (auto, fastforce)

lemma emb_greedy:
  assumes "find_sub p v = Some i"
  shows "emb (p # ps) v \<longleftrightarrow> emb ps (drop (i + length p) v)"
proof
  assume "emb (p # ps) v"
  then obtain g w where v: "v = g @ p @ w" and w: "emb ps w" by auto
  then have "i \<le> length g" using assms find_sub_leftmost by blast
  then have "drop (i + length p) v = drop (i + length p) (g @ p) @ w"
    by (simp add: v)
  then show "emb ps (drop (i + length p) v)" using emb_suffix [OF w] by (simp only:)
next
  assume "emb ps (drop (i + length p) v)"
  then show "emb (p # ps) v" using find_sub_Some_split [OF assms] by auto
qed

lemma emb_not_found: "find_sub p v = None \<Longrightarrow> \<not> emb (p # ps) v"
  by (auto simp: find_sub_None)

lemma match_parts_emb: "0 < k \<Longrightarrow> match_parts pattern k ps v \<longleftrightarrow> emb ps v"
proof (induction ps arbitrary: k v)
  case Nil
  then show ?case by simp
next
  case (Cons p ps)
  show ?case
  proof (cases "p = []")
    case True
    then show ?thesis using Cons.IH [of "Suc k" v] emb_empty [of ps v] by (simp del: emb.simps)
  next
    case False
    then show ?thesis using Cons.IH [of "Suc k"] Cons.prems
      by (simp add: emb_greedy emb_not_found del: emb.simps split: option.split)
  qed
qed

section \<open>Anchoring the last part\<close>

fun anch :: "string list \<Rightarrow> string \<Rightarrow> bool" where
  "anch [] v = True"
| "anch [p] v = (\<exists>g. v = g @ p)"
| "anch (p # q # ps) v = (\<exists>g w. v = g @ p @ w \<and> anch (q # ps) w)"

lemma suffix_of_both: "v = a @ w \<Longrightarrow> v = b @ l \<Longrightarrow> length l \<le> length w \<Longrightarrow> \<exists>c. w = c @ l"
  by (auto simp: append_eq_append_conv2)

lemma ends_with_prepend: "ends_with l w \<Longrightarrow> ends_with l (g @ w)"
  by (auto simp: ends_with_iff)

lemma anch_emb: "ps \<noteq> [] \<Longrightarrow> anch ps v \<longleftrightarrow> emb ps v \<and> ends_with (last ps) v"
proof (induction ps v rule: anch.induct)
  case (1 v)
  then show ?case by simp
next
  case (2 p v)
  have "emb [p] v" if "v = g @ p" for g using that by (auto intro: exI [of _ g] exI [of _ "[]"])
  then show ?case by (auto simp: ends_with_iff simp del: emb.simps)
next
  case (3 p q ps v)
  have IH: "anch (q # ps) w \<longleftrightarrow> emb (q # ps) w \<and> ends_with (last (q # ps)) w" for w
    using "3.IH" [of w] by simp
  show ?case
  proof
    assume "anch (p # q # ps) v"
    then obtain g w where v: "v = g @ p @ w" and w: "anch (q # ps) w" by auto
    then show "emb (p # q # ps) v \<and> ends_with (last (p # q # ps)) v"
      using IH [of w] ends_with_prepend [of "last (q # ps)" w "g @ p"] by fastforce
  next
    assume r: "emb (p # q # ps) v \<and> ends_with (last (p # q # ps)) v"
    then obtain g w where v: "v = g @ p @ w" and w: "emb (q # ps) w"
      unfolding emb.simps(2) [of p] by blast
    from r obtain b where b: "v = b @ last (q # ps)" by (auto simp: ends_with_iff)
    have "length (last (q # ps)) \<le> length w" by (rule emb_length [OF w]) simp
    then have "ends_with (last (q # ps)) w"
      using suffix_of_both [of v "g @ p" w b] v b by (auto simp: ends_with_iff)
    then have "anch (q # ps) w" using IH w by blast
    then show "anch (p # q # ps) v" unfolding anch.simps using v by blast
  qed
qed

section \<open>Patterns as parts\<close>

fun fills :: "string list \<Rightarrow> string \<Rightarrow> bool" where
  "fills [] v = (v = [])"
| "fills [p] v = (v = p)"
| "fills (p # q # ps) v = (\<exists>g w. v = p @ g @ w \<and> fills (q # ps) w)"

lemma fills_anch: "fills (p # q # ps) v \<longleftrightarrow> (\<exists>w. v = p @ w \<and> anch (q # ps) w)"
proof (induction ps arbitrary: p q v)
  case Nil
  then show ?case by auto
next
  case (Cons r ps)
  show ?case
    unfolding fills.simps(3) [of p] Cons.IH anch.simps(3) by auto
qed

lemma fills_Cons:
  "fills ((c # p) # ps) v \<longleftrightarrow> (case v of [] \<Rightarrow> False | d # w \<Rightarrow> d = c \<and> fills (p # ps) w)"
  by (cases ps; cases v) auto

lemma fills_empty: "ps \<noteq> [] \<Longrightarrow> fills ([] # ps) v \<longleftrightarrow> (\<exists>g w. v = g @ w \<and> fills ps w)"
  by (cases ps) auto

lemma glob_fills: "glob pattern v \<longleftrightarrow> fills (split_on star pattern) v"
proof (induction pattern arbitrary: v)
  case Nil
  then show ?case by simp
next
  case (Cons c pattern)
  show ?case
  proof (cases "c = star")
    case True
    then show ?thesis using Cons by (simp only: glob_star split_on.simps if_True) (simp add: fills_empty)
  next
    case False
    obtain q qs where q: "split_on star pattern = q # qs"
      by (cases "split_on star pattern") auto
    have "glob (c # pattern) v \<longleftrightarrow> (case v of [] \<Rightarrow> False | d # w \<Rightarrow> d = c \<and> glob pattern w)"
      using False by simp
    also have "\<dots> \<longleftrightarrow> (case v of [] \<Rightarrow> False | d # w \<Rightarrow> d = c \<and> fills (q # qs) w)"
      using Cons q by (simp split: list.split)
    also have "\<dots> \<longleftrightarrow> fills ((c # q) # qs) v" by (simp only: fills_Cons)
    finally show ?thesis using False q by simp
  qed
qed

lemma hd_split_empty: "hd (split_on c s) = [] \<longleftrightarrow> s = [] \<or> hd s = c"
  by (cases s) (auto split: list.split)

lemma last_split_empty: "last (split_on c s) = [] \<longleftrightarrow> s = [] \<or> last s = c"
proof (induction s)
  case Nil
  then show ?case by simp
next
  case (Cons x s)
  have "split_on c (x # s) = (if x = c then [] # split_on c s
      else (x # hd (split_on c s)) # tl (split_on c s))"
    by (cases "split_on c s") auto
  moreover have "tl (split_on c s) = [] \<Longrightarrow> hd (split_on c s) = last (split_on c s)"
    by (cases "split_on c s") auto
  moreover have "tl (split_on c s) = [] \<Longrightarrow> s \<noteq> [] \<Longrightarrow> last s \<noteq> c"
    using length_split_on [of c s] count_list_0_iff [of s c] last_in_set [of s]
    by (cases "split_on c s") auto
  ultimately show ?case using Cons by (auto simp: last_tl)
qed

lemma match_first:
  assumes "split_on star pattern = p # q # ps"
  shows "match_parts pattern 0 (p # q # ps) v \<longleftrightarrow> (\<exists>w. v = p @ w \<and> emb (q # ps) w)"
proof (cases "p = []")
  case True
  then show ?thesis
    by (simp add: match_parts_emb del: emb.simps match_parts.simps(2)
        add: match_parts.simps(2) [of pattern 0 "[]"])
next
  case False
  then have "pattern \<noteq> [] \<and> hd pattern \<noteq> star"
    using hd_split_empty [of star pattern] assms by auto
  then have ns: "\<not> starts_with ''*'' pattern" by (auto simp: starts_with_iff)
  have zero: "find_sub p v = Some 0 \<longleftrightarrow> (\<exists>w. v = p @ w)"
  proof
    assume "find_sub p v = Some 0"
    then show "\<exists>w. v = p @ w" using find_sub_Some_split by fastforce
  next
    assume "\<exists>w. v = p @ w"
    then obtain w where w: "v = [] @ p @ w" by auto
    then obtain i where "find_sub p v = Some i" by (metis find_sub_None not_Some_eq)
    then show "find_sub p v = Some 0" using find_sub_leftmost [OF _ w] by simp
  qed
  have "match_parts pattern 0 (p # q # ps) v \<longleftrightarrow>
      find_sub p v = Some 0 \<and> emb (q # ps) (drop (length p) v)"
    using False ns by (auto simp: match_parts_emb simp del: emb.simps match_parts.simps(2)
        simp: match_parts.simps(2) [of pattern 0 p] split: option.split)
  then show ?thesis unfolding zero by (auto simp del: emb.simps)
qed

lemma match_starred:
  assumes "star \<in> set pattern"
  shows "simple_pattern_match pattern v \<longleftrightarrow> glob pattern v"
proof -
  obtain p q ps where s: "split_on star pattern = p # q # ps"
  proof -
    have "length (split_on star pattern) \<ge> 2"
      using assms length_split_on [of star pattern] count_list_0_iff [of pattern star] by simp
    then show ?thesis
      by (cases "split_on star pattern"; cases "tl (split_on star pattern)") (auto intro: that)
  qed
  have lst: "ends_with ''*'' pattern \<longleftrightarrow> last (q # ps) = []"
    using last_split_empty [of star pattern] assms s by (auto simp: ends_with_single)
  have fin: "ends_with ''*'' pattern \<or> ends_with (last (q # ps)) v \<longleftrightarrow> ends_with (last (q # ps)) v"
    using lst by (auto simp: ends_with_iff)
  have split: "(v = p @ w \<and> emb (q # ps) w \<and> ends_with (last (q # ps)) v) \<longleftrightarrow>
      (v = p @ w \<and> anch (q # ps) w)" for w
  proof -
    have "ends_with (last (q # ps)) (p @ w) \<longleftrightarrow> ends_with (last (q # ps)) w"
      if "emb (q # ps) w"
    proof
      assume "ends_with (last (q # ps)) (p @ w)"
      then obtain b where "p @ w = b @ last (q # ps)" by (auto simp: ends_with_iff)
      moreover have "length (last (q # ps)) \<le> length w" by (rule emb_length [OF that]) simp
      ultimately show "ends_with (last (q # ps)) w"
        using suffix_of_both [of "p @ w" p w b] by (auto simp: ends_with_iff)
    qed (auto simp: ends_with_iff)
    then show ?thesis using anch_emb [of "q # ps" w] by (auto simp del: emb.simps anch.simps)
  qed
  have "match_parts pattern 0 (p # q # ps) v \<and>
      (ends_with ''*'' pattern \<or> ends_with (last (q # ps)) v) \<longleftrightarrow> glob pattern v"
    unfolding glob_fills s fills_anch match_first [OF s] fin using split by blast
  moreover have "last (p # q # ps) = last (q # ps)" by simp
  ultimately have run: "match_parts pattern 0 (p # q # ps) v \<and>
      (ends_with ''*'' pattern \<or> ends_with (last (p # q # ps)) v) \<longleftrightarrow> glob pattern v" by simp
  have two: "length (p # q # ps) \<noteq> 1" by simp
  show ?thesis
  proof (cases "pattern = ''*''")
    case True
    have "glob ''*'' v" unfolding glob_star by auto
    then show ?thesis unfolding simple_pattern_match_def True by simp
  next
    case False
    show ?thesis
      unfolding simple_pattern_match_def Let_def s run [symmetric] using False two
      by (simp del: match_parts.simps)
  qed
qed

section \<open>Properties\<close>

text \<open>
  C39: the filters mean what a glob means. A pattern with a star matches exactly the paths
  the backtracking reference \<open>glob\<close> accepts, although the code searches greedily and checks
  the last part only by \<open>ends_with\<close>; a pattern without a star is a substring test; a path is
  kept when no exclude pattern matches and the include pattern, if any, does.
\<close>


theorem path_filter_glob:
  "path_matches_filters path incl excl =
     (let hit = (\<lambda>pattern. if star \<in> set pattern then glob pattern path
                           else contains_sub pattern path)
      in (case excl of None \<Rightarrow> True | Some e \<Rightarrow> \<not> hit e)
         \<and> (case incl of None \<Rightarrow> True | Some p \<Rightarrow> hit p))"
proof -
  have hit: "simple_pattern_match pattern path =
      (if star \<in> set pattern then glob pattern path else contains_sub pattern path)" for pattern
  proof (cases "star \<in> set pattern")
    case True
    then show ?thesis by (simp add: match_starred)
  next
    case False
    then show ?thesis by (auto simp: simple_pattern_match_def)
  qed
  show ?thesis
    unfolding path_matches_filters_def Let_def hit by (cases incl; cases excl) auto
qed

end
