(* ===== verification/Share_Mapping.thy ===== *)
theory Share_Mapping
  imports Share_Path Path_Filter
begin

text \<open>
  \<open>crates/adrive/src/handler/share_manifest_mapping.rs\<close>: the persisted mapping policy of a
  share download and the index that maps a remote path to its root and its local path. A
  \<open>HashSet\<close> of roots is the list of roots, used for membership alone. A mapped path is either
  empty (the destination itself) or passed \<open>validate_relative\<close>.
\<close>

section \<open>The policy\<close>

datatype mapping_policy =
    Legacy
  | Cp bool "string option" "string option"
  | SpaceRoot bool "string option" "string option"

record download_args =
  da_is_include_parent :: bool
  da_include :: "string option"
  da_exclude :: "string option"

definition from_args :: "download_args \<Rightarrow> mapping_policy" where
  "from_args args = Cp (da_is_include_parent args) (da_include args) (da_exclude args)"

fun includes_parent :: "mapping_policy \<Rightarrow> bool" where
  "includes_parent Legacy = True"
| "includes_parent (Cp is_include_parent _ _) = is_include_parent"
| "includes_parent (SpaceRoot _ _ _) = False"

fun into_space_root :: "mapping_policy \<Rightarrow> mapping_policy" where
  "into_space_root Legacy = SpaceRoot True None None"
| "into_space_root (Cp is_include_parent incl excl) = SpaceRoot is_include_parent incl excl"
| "into_space_root (SpaceRoot is_include_parent incl excl) = SpaceRoot is_include_parent incl excl"

fun is_space_root :: "mapping_policy \<Rightarrow> bool" where
  "is_space_root (SpaceRoot _ _ _) = True"
| "is_space_root _ = False"

fun policy_matches :: "mapping_policy \<Rightarrow> string \<Rightarrow> bool" where
  "policy_matches Legacy local = True"
| "policy_matches (Cp _ incl excl) local = path_matches_filters local incl excl"
| "policy_matches (SpaceRoot _ incl excl) local = path_matches_filters local incl excl"

fun options_match :: "mapping_policy \<Rightarrow> bool \<Rightarrow> string option \<Rightarrow> string option \<Rightarrow> bool" where
  "options_match Legacy is_include_parent incl excl =
     (is_include_parent \<and> incl = None \<and> excl = None)"
| "options_match (Cp rparent rincl rexcl) is_include_parent incl excl =
     (rparent = is_include_parent \<and> rincl = incl \<and> rexcl = excl)"
| "options_match (SpaceRoot rparent rincl rexcl) is_include_parent incl excl =
     (rparent = is_include_parent \<and> rincl = incl \<and> rexcl = excl)"

definition policy_validate_options ::
  "mapping_policy \<Rightarrow> bool \<Rightarrow> string option \<Rightarrow> string option \<Rightarrow> (unit, cli_error) result" where
  "policy_validate_options policy is_include_parent incl excl =
     (if \<not> options_match policy is_include_parent incl excl
      then Err (invalid ''manifest mapping or filtering policy differs from this download'')
      else Ok ())"

section \<open>The index\<close>

record mapping_index =
  mi_roots :: "string list"
  mi_policy :: mapping_policy

definition mapping_new :: "string list \<Rightarrow> mapping_policy \<Rightarrow> mapping_index" where
  "mapping_new roots policy = \<lparr>mi_roots = roots, mi_policy = policy\<rparr>"

text \<open>The loop over \<open>path.bytes().enumerate()\<close>: the first slash-terminated prefix that is a root.\<close>

fun root_scan :: "string list \<Rightarrow> string \<Rightarrow> nat list \<Rightarrow> string option" where
  "root_scan roots path [] = None"
| "root_scan roots path (offset # rest) =
     (if path ! offset = slash \<and> take (Suc offset) path \<in> set roots
      then Some (take (Suc offset) path) else root_scan roots path rest)"

definition mapping_root :: "mapping_index \<Rightarrow> string \<Rightarrow> string option" where
  "mapping_root mapping path =
     (if is_space_root (mi_policy mapping) \<and> ''/'' \<in> set (mi_roots mapping)
         \<and> (path = ''/'' \<or> is_ok (validate_relative (without_suffix ''/'' path)))
      then Some ''/''
      else case root_scan (mi_roots mapping) path [0..<length path] of
             Some root \<Rightarrow> Some root
           | None \<Rightarrow> if path \<in> set (mi_roots mapping) then Some path else None)"

definition mapping_local :: "mapping_index \<Rightarrow> string \<Rightarrow> (string, cli_error) result" where
  "mapping_local mapping path =
     try_in (ok_or (invalid ''path is outside manifest roots'') (mapping_root mapping path)) (\<lambda>root.
       if root = ''/'' then
         (let local = without_suffix ''/'' path
          in try_in (if path \<noteq> ''/'' then validate_relative local else Ok ()) (\<lambda>_.
               Ok (if path = ''/'' then [] else local)))
       else
         (let root_name = last_segment slash (trim_end_of slash root);
              suffix = trim_end_of slash
                (case strip_prefix root path of None \<Rightarrow> [] | Some t \<Rightarrow> t);
              local = (if \<not> ends_with ''/'' root \<or> includes_parent (mi_policy mapping)
                       then (if suffix = [] then root_name else root_name @ ''/'' @ suffix)
                       else suffix)
          in try_in (if local \<noteq> [] then validate_relative local else Ok ()) (\<lambda>_. Ok local)))"

section \<open>Lemmas\<close>

lemma root_scan_Some:
  "root_scan roots path os = Some r \<Longrightarrow> r \<in> set roots \<and> (\<exists>i \<in> set os. r = take (Suc i) path \<and> path ! i = slash)"
  by (induction roots path os rule: root_scan.induct) (auto split: if_splits)

lemma mapping_root_in: "mapping_root mapping path = Some r \<Longrightarrow> r \<in> set (mi_roots mapping)"
  by (auto simp: mapping_root_def split: if_splits option.splits dest: root_scan_Some)

text \<open>No mapping leaves the destination.\<close>

lemma mapping_local_safe: "mapping_local mapping path = Ok l \<Longrightarrow> l = [] \<or> valid_relative l"
  by (auto simp: mapping_local_def try_in_Ok_iff Let_def validate_relative_Ok
      split: if_splits)

lemma mapping_local_root: "mapping_local mapping path = Ok l \<Longrightarrow> mapping_root mapping path \<noteq> None"
  by (auto simp: mapping_local_def try_in_Ok_iff)

lemma without_slash_valid: "valid_relative p \<Longrightarrow> without_suffix ''/'' p = p"
proof -
  assume v: "valid_relative p"
  then have "p \<noteq> []" by (simp add: valid_relative_iff)
  then have "\<not> ends_with ''/'' p"
    using valid_no_trailing_slash [OF v] by (simp add: ends_with_single)
  then show ?thesis by (rule without_suffix_other)
qed

lemma space_root_local:
  assumes "is_space_root (mi_policy mapping)" and "''/'' \<in> set (mi_roots mapping)"
    and "valid_relative p"
  shows "mapping_local mapping p = Ok p" and "mapping_local mapping (p @ ''/'') = Ok p"
proof -
  have v: "validate_relative p = Ok ()" using assms(3) by (simp add: validate_relative_Ok)
  have ne: "p \<noteq> []" using assms(3) by (simp add: valid_relative_iff)
  have "p \<noteq> ''/''" using valid_not_absolute [OF assms(3)] by auto
  then show "mapping_local mapping p = Ok p"
    using assms v by (simp add: mapping_local_def mapping_root_def without_slash_valid)
  show "mapping_local mapping (p @ ''/'') = Ok p"
    using assms v ne by (simp add: mapping_local_def mapping_root_def)
qed

lemma mapping_root_decomp:
  assumes "mapping_root mapping path = Some r" and "r \<noteq> ''/''"
  shows "\<exists>t. path = r @ t"
proof -
  from assms consider "root_scan (mi_roots mapping) path [0..<length path] = Some r" | "r = path"
    by (auto simp: mapping_root_def split: if_splits option.splits)
  then show ?thesis
  proof cases
    case 1
    then obtain i where "r = take (Suc i) path" using root_scan_Some by blast
    then show ?thesis by (metis append_take_drop_id)
  qed simp
qed

text \<open>Below an ordinary root, the local path of a valid path is a function of the rest alone.\<close>

definition local_below :: "mapping_policy \<Rightarrow> string \<Rightarrow> string \<Rightarrow> string" where
  "local_below policy root rest =
     (let root_name = last_segment slash (trim_end_of slash root)
      in if \<not> ends_with ''/'' root \<or> includes_parent policy
         then (if rest = [] then root_name else root_name @ ''/'' @ rest) else rest)"

lemma local_below_inj: "local_below policy root s = local_below policy root t \<Longrightarrow> s = t"
  by (auto simp: local_below_def Let_def split: if_splits)

lemma trim_rest:
  assumes "valid_relative (r @ t)"
  shows "trim_end_of slash t = t"
proof (rule trim_end_of_id)
  show "t = [] \<or> last t \<noteq> slash" using valid_no_trailing_slash [OF assms] by (cases "t = []") auto
qed

lemma mapping_local_below:
  assumes "mapping_root mapping path = Some r" and "r \<noteq> ''/''"
    and "valid_relative path" and "mapping_local mapping path = Ok l"
  shows "\<exists>t. path = r @ t \<and> l = local_below (mi_policy mapping) r t"
proof -
  obtain t where t: "path = r @ t" using mapping_root_decomp [OF assms(1,2)] by blast
  then have "trim_end_of slash t = t" using trim_rest assms(3) by blast
  then have "l = local_below (mi_policy mapping) r t"
    using assms(1,2,4) by (auto simp: mapping_local_def Let_def local_below_def t try_in_Ok_iff)
  then show ?thesis using t by blast
qed

section \<open>Properties\<close>

text \<open>
  The persisted policy pins the options of a download. A policy recorded from the
  arguments of a download, also after it was turned into a Space-root policy, accepts exactly
  the include-parent flag and filters it was recorded from; a legacy policy accepts only the
  historical mode without filters.
\<close>

theorem policy_pins_options:
  "(is_ok (policy_validate_options (from_args args) ip incl excl) \<longleftrightarrow>
      \<lparr>da_is_include_parent = ip, da_include = incl, da_exclude = excl\<rparr> = args)
   \<and> (is_ok (policy_validate_options (into_space_root policy) ip incl excl) \<longleftrightarrow>
      is_ok (policy_validate_options policy ip incl excl))
   \<and> (is_ok (policy_validate_options Legacy ip incl excl) \<longleftrightarrow> ip \<and> incl = None \<and> excl = None)"
proof -
  have "(\<lparr>da_is_include_parent = ip, da_include = incl, da_exclude = excl\<rparr> = args) \<longleftrightarrow>
      da_is_include_parent args = ip \<and> da_include args = incl \<and> da_exclude args = excl"
    by (cases args) auto
  then show ?thesis
    by (cases policy) (auto simp: policy_validate_options_def from_args_def)
qed

text \<open>
  Under one root, two remote files never share a local path. If a valid remote path maps to
  the same local path as another under the same root, the two are the same path; and every
  mapped path is the destination itself or passes \<open>validate_relative\<close>.
\<close>

theorem mapping_injective:
  assumes "valid_relative p" and "valid_relative q"
    and "mapping_root mapping p = mapping_root mapping q"
    and "mapping_local mapping p = Ok l" and "mapping_local mapping q = Ok l"
  shows "p = q \<and> (l = [] \<or> valid_relative l)"
proof -
  obtain r where r: "mapping_root mapping p = Some r" using mapping_local_root [OF assms(4)] by blast
  have "p = q"
  proof (cases "r = ''/''")
    case True
    have "p \<noteq> ''/''" and "q \<noteq> ''/''"
      using valid_not_absolute [OF assms(1)] valid_not_absolute [OF assms(2)] by auto
    then show ?thesis
      using assms r True by (auto simp: mapping_local_def try_in_Ok_iff without_slash_valid)
  next
    case False
    obtain s t where "p = r @ s" "q = r @ t"
      and "l = local_below (mi_policy mapping) r s" "l = local_below (mi_policy mapping) r t"
      using mapping_local_below [OF r False assms(1,4)] assms(2,3,5) r False
        mapping_local_below [of mapping q r l] by metis
    then show ?thesis using local_below_inj by metis
  qed
  then show ?thesis using mapping_local_safe [OF assms(4)] by blast
qed

theorem mapping_injective_witness:
  "let mapping = mapping_new [''team/docs/''] (Cp True None None)
   in mapping_local mapping ''team/docs/a.txt'' = Ok ''docs/a.txt'' \<and> valid_relative ''docs/a.txt''"
proof -
  have l: "mapping_local (mapping_new [''team/docs/''] (Cp True None None)) ''team/docs/a.txt''
      = Ok ''docs/a.txt''" by code_simp
  have v: "valid_relative ''team/docs/a.txt''" by code_simp
  show ?thesis using mapping_injective [OF v v refl l l] l by simp
qed

end
