(* ===== verification/Ids_Types.thy ===== *)
theory Ids_Types
  imports Rust_Str
begin

text \<open>
  \<open>crates/adrive/src/domain/types.rs\<close>: the listing request and the file, folder and page
  records of the ADrive service that the scanning and download components consume. Sizes and
  timestamps are signed 64-bit integers (\<open>i64\<close>), read with \<open>sint\<close>; the serde attributes,
  which only name the JSON members, are not modelled.
\<close>

type_synonym i64 = "64 word"

record file_info =
  fi_instance_id :: string
  fi_space_id :: string
  fi_file_path :: string
  fi_file_type :: string
  fi_storage_class :: string
  fi_meta :: "(string, string) btree_map"
  fi_hash_crc64_ecma :: u64
  fi_size :: i64
  fi_etag :: string
  fi_created_at :: i64
  fi_updated_at :: i64

record folder_info =
  fo_folder :: string
  fo_updated_at :: i64

record list_files_output =
  lo_next_marker :: string
  lo_is_truncated :: bool
  lo_folders :: "folder_info list"
  lo_files :: "file_info list"

text \<open>The file record a service reply with only a path, a type, a size and an ETag decodes to.\<close>

definition plain_file :: "string \<Rightarrow> string \<Rightarrow> i64 \<Rightarrow> string \<Rightarrow> file_info" where
  "plain_file path file_type bytes etag =
     \<lparr>fi_instance_id = [], fi_space_id = [], fi_file_path = path, fi_file_type = file_type,
      fi_storage_class = [], fi_meta = [], fi_hash_crc64_ecma = 0, fi_size = bytes,
      fi_etag = etag, fi_created_at = 0, fi_updated_at = 0\<rparr>"

end
