(* ===== verification/Share_Manifest.thy ===== *)
theory Share_Manifest
  imports Share_Mapping Ids_Types
begin

text \<open>
  \<open>crates/adrive/src/handler/share_manifest.rs\<close> and \<open>share_manifest_mapping.rs\<close>: the
  manifest of a share download, its validation, and \<open>build_manifest\<close>, which projects a
  prescan onto a manifest. Every function that folds paths takes the folding of
  \<open>insert_path\<close> as its parameter.
\<close>

section \<open>Data\<close>

record remote_file =
  rf_path :: string
  rf_size :: u64
  rf_etag :: string
  rf_crc64 :: u64
  rf_updated_at :: i64

record entry =
  en_local :: string
  en_remote :: remote_file

record manifest =
  mf_roots :: "string list"
  mf_files :: "entry list"
  mf_directories :: "string list"
  mf_remote_directories :: "string list"
  mf_policy :: mapping_policy

definition etag_bad :: "string \<Rightarrow> bool" where
  "etag_bad etag \<longleftrightarrow> length etag > 1024 \<or> has_control etag"

definition remote_validate :: "remote_file \<Rightarrow> (unit, cli_error) result" where
  "remote_validate r =
     try_in (validate_relative (rf_path r)) (\<lambda>_.
       if etag_bad (rf_etag r) then Err (invalid ''invalid remote ETag'') else Ok ())"

definition from_info :: "file_info \<Rightarrow> (remote_file, cli_error) result" where
  "from_info info =
     try_in (validate_relative (fi_file_path info)) (\<lambda>_.
       if sint (fi_size info) < 0
       then Err (invalid ''remote file size is missing or negative; cannot build an exact download plan'')
       else if etag_bad (fi_etag info) then Err (invalid ''invalid remote ETag'')
       else Ok \<lparr>rf_path = fi_file_path info, rf_size = fi_size info, rf_etag = fi_etag info,
                rf_crc64 = fi_hash_crc64_ecma info, rf_updated_at = fi_updated_at info\<rparr>)"

definition has_identity :: "remote_file \<Rightarrow> bool" where
  "has_identity r \<longleftrightarrow>
     (rf_etag r \<noteq> [] \<and> \<not> starts_with ''W/'' (rf_etag r)) \<or> rf_crc64 r \<noteq> 0"

definition is_folder :: "file_info \<Rightarrow> bool" where
  "is_folder info \<longleftrightarrow>
     eq_ignore_ascii_case (fi_file_type info) ''folder'' \<or> ends_with ''/'' (fi_file_path info)"

definition directory_path :: "string \<Rightarrow> (string, cli_error) result" where
  "directory_path path =
     try_in (validate_relative (without_suffix ''/'' path)) (\<lambda>_.
       Ok (trim_end_of slash path @ ''/''))"

section \<open>Validation\<close>

definition validate_root ::
  "mapping_index \<Rightarrow> mapping_policy \<Rightarrow> string list \<Rightarrow> string list \<Rightarrow> string \<Rightarrow>
   (string list, cli_error) result" where
  "validate_root mapping policy represented seen_roots root =
     try_in (validate_relative (without_suffix ''/'' root)) (\<lambda>_.
       try_in (mapping_local mapping root) (\<lambda>local.
         let needs_target = (policy = Legacy \<or> (local \<noteq> [] \<and> policy_matches policy local))
         in if root \<in> set seen_roots \<or> (needs_target \<and> root \<notin> set represented)
            then Err (invalid ''duplicate or unrepresented manifest root'')
            else Ok (bset_put root seen_roots)))"

definition validate_roots :: "manifest \<Rightarrow> mapping_index \<Rightarrow> (unit, cli_error) result" where
  "validate_roots m mapping =
     (if is_space_root (mf_policy m) then
        (if mf_roots m = [''/''] then Ok ()
         else Err (invalid ''Space-root manifest must declare exactly `/`''))
      else
        (let represented = bset_of (mf_remote_directories m @ map (\<lambda>e. rf_path (en_remote e)) (mf_files m))
         in try_in (try_fold (validate_root mapping (mf_policy m) represented) [] (mf_roots m))
              (\<lambda>_. Ok ())))"

definition validate_directory ::
  "mapping_index \<Rightarrow> string list \<times> string list \<Rightarrow> string \<times> string \<Rightarrow>
   (string list \<times> string list, cli_error) result" where
  "validate_directory mapping seen dir =
     (let (seen_directories, seen_local) = seen; (remote, local) = dir
      in if \<not> ends_with ''/'' remote \<or> remote \<in> set seen_directories \<or> local \<in> set seen_local
         then Err (invalid ''invalid or duplicate directory mapping'')
         else try_in (validate_relative (without_suffix ''/'' remote)) (\<lambda>_.
           if local = [] then Err (invalid ''directory mapping differs from remote roots'')
           else try_in (mapping_local mapping remote) (\<lambda>mapped.
             if mapped \<noteq> local then Err (invalid ''directory mapping differs from remote roots'')
             else Ok (bset_put remote seen_directories, bset_put local seen_local))))"

definition validate_roots_and_directories ::
  "manifest \<Rightarrow> mapping_index \<Rightarrow> (unit, cli_error) result" where
  "validate_roots_and_directories m mapping =
     (if length (mf_remote_directories m) \<noteq> length (mf_directories m)
      then Err (invalid ''directory mapping count differs'')
      else try_in (validate_roots m mapping) (\<lambda>_.
        try_in (try_fold (validate_directory mapping) ([], [])
                  (zip (mf_remote_directories m) (mf_directories m))) (\<lambda>_. Ok ())))"

text \<open>The loop of \<open>add_local_parents\<close>: the path and its parents, up to the empty one.\<close>

function local_parents :: "string \<Rightarrow> string list \<Rightarrow> string list" where
  "local_parents current parents =
     (if current = [] then parents
      else local_parents (parent_of slash current) (bset_put current parents))"
  by pat_completeness auto
termination
  by (relation "measure (\<lambda>(current, parents). length current)") (auto simp: parent_of_shorter)

declare local_parents.simps [simp del]

definition add_local_parents :: "string \<Rightarrow> bool \<Rightarrow> string list \<Rightarrow> string list" where
  "add_local_parents path is_directory parents =
     local_parents (if is_directory then path else parent_of slash path) parents"

definition validate_directory_policy :: "manifest \<Rightarrow> (unit, cli_error) result" where
  "validate_directory_policy m =
     (if mf_policy m = Legacy then Ok ()
      else try_in
        (try_fold (\<lambda>expected e.
            if \<not> policy_matches (mf_policy m) (en_local e)
            then Err (invalid ''manifest file violates its filter policy'')
            else Ok (add_local_parents (en_local e) False expected)) [] (mf_files m))
        (\<lambda>expected.
          let expected = fold (\<lambda>directory expected.
                if policy_matches (mf_policy m) directory
                then add_local_parents directory True expected else expected)
                (mf_directories m) expected
          in if bset_of (mf_directories m) \<noteq> expected
             then Err (invalid ''manifest directories violate filters or omit necessary parents'')
             else Ok ()))"

definition validate_file ::
  "(string \<Rightarrow> string) \<Rightarrow> mapping_index \<Rightarrow> string list \<times> path_index \<Rightarrow> entry \<Rightarrow>
   (string list \<times> path_index, cli_error) result" where
  "validate_file fold_path mapping st e =
     (let (remote_paths, paths) = st; r = en_remote e
      in try_in (remote_validate r) (\<lambda>_.
           if rf_path r \<in> set remote_paths
           then Err (invalid ''invalid or duplicate manifest remote mapping'')
           else try_in (mapping_local mapping (rf_path r)) (\<lambda>local.
             if local \<noteq> en_local e
             then Err (invalid ''invalid or duplicate manifest remote mapping'')
             else try_in (insert_path fold_path paths (en_local e) False) (\<lambda>paths.
               Ok (bset_put (rf_path r) remote_paths, paths)))))"

definition total_size :: "entry list \<Rightarrow> (u64, cli_error) result" where
  "total_size files =
     try_fold (\<lambda>t e. ok_or (invalid ''manifest total byte size overflows u64'')
                          (checked_add t (rf_size (en_remote e)))) 0 files"

definition manifest_validate :: "(string \<Rightarrow> string) \<Rightarrow> manifest \<Rightarrow> (unit, cli_error) result" where
  "manifest_validate fold_path m =
     (let mapping = mapping_new (mf_roots m) (mf_policy m)
      in try_in (validate_roots_and_directories m mapping) (\<lambda>_.
         try_in (validate_directory_policy m) (\<lambda>_.
         try_in (try_fold (\<lambda>paths directory. insert_path fold_path paths directory True) []
                  (mf_directories m)) (\<lambda>paths.
         try_in (try_fold (validate_file fold_path mapping) ([], paths) (mf_files m)) (\<lambda>_.
         try_in (total_size (mf_files m)) (\<lambda>_. Ok ()))))))"

section \<open>Options and selection\<close>

definition manifest_validate_options ::
  "manifest \<Rightarrow> bool \<Rightarrow> string option \<Rightarrow> string option \<Rightarrow> (unit, cli_error) result" where
  "manifest_validate_options m is_include_parent incl excl =
     policy_validate_options (mf_policy m) is_include_parent incl excl"

definition is_valid_exact_selection :: "manifest \<Rightarrow> string \<Rightarrow> (bool, cli_error) result" where
  "is_valid_exact_selection m selection =
     try_in (mapping_local (mapping_new (mf_roots m) (mf_policy m)) selection) (\<lambda>local.
       let expected_count = (if policy_matches (mf_policy m) local then 1 else 0)
       in Ok (mf_directories m = [] \<and> length (mf_files m) = expected_count
              \<and> list_all (\<lambda>e. rf_path (en_remote e) = selection) (mf_files m)))"

definition validate_selection ::
  "manifest \<Rightarrow> string option \<Rightarrow> bool \<Rightarrow> (unit, cli_error) result" where
  "validate_selection m selection is_recursive =
     (if \<not> is_recursive \<and> (mf_directories m \<noteq> [] \<or> list_ex (ends_with ''/'') (mf_roots m))
      then Err (invalid ''directory manifest requires recursive policy'')
      else case selection of
        None \<Rightarrow> Ok ()
      | Some selection \<Rightarrow>
          if mf_roots m \<noteq> [selection]
          then Err (invalid ''manifest roots differ from selected target'')
          else if ends_with ''/'' selection then
            (if \<not> is_recursive \<or> (mf_policy m = Legacy \<and> selection \<notin> set (mf_remote_directories m))
             then Err (invalid ''selected directory is absent or nonrecursive'')
             else Ok ())
          else try_in (is_valid_exact_selection m selection) (\<lambda>valid.
            if \<not> valid
            then Err (invalid ''exact file selection must contain exactly that file and no directories'')
            else Ok ()))"

section \<open>build_manifest\<close>

text \<open>The loop of \<open>retain_parents\<close>.\<close>

function retain_from ::
  "mapping_index \<Rightarrow> string \<Rightarrow> (string, string) btree_map \<Rightarrow>
   ((string, string) btree_map, cli_error) result" where
  "retain_from mapping current retained =
     (if current = [] then Ok retained
      else let directory = current @ ''/''
           in if mapping_root mapping directory = None then Ok retained
              else try_in (mapping_local mapping directory) (\<lambda>local.
                retain_from mapping (parent_of slash current)
                  (if local \<noteq> [] then bt_put directory local retained else retained)))"
  by pat_completeness auto
termination
  by (relation "measure (\<lambda>(mapping, current, retained). length current)")
     (auto simp: parent_of_shorter)

declare retain_from.simps [simp del]

definition retain_parents ::
  "string \<Rightarrow> bool \<Rightarrow> mapping_index \<Rightarrow> (string, string) btree_map \<Rightarrow>
   ((string, string) btree_map, cli_error) result" where
  "retain_parents remote is_directory mapping retained =
     (let current = trim_end_of slash remote;
          current = (if is_directory then current else parent_of slash current)
      in retain_from mapping current retained)"

definition keep_file ::
  "mapping_index \<Rightarrow> entry list \<times> (string, string) btree_map \<Rightarrow> remote_file \<Rightarrow>
   (entry list \<times> (string, string) btree_map, cli_error) result" where
  "keep_file mapping st remote =
     (let (kept_files, kept_directories) = st
      in try_in (mapping_local mapping (rf_path remote)) (\<lambda>local.
           if policy_matches (mi_policy mapping) local then
             try_in (retain_parents (rf_path remote) False mapping kept_directories)
               (\<lambda>kept_directories.
                 Ok (kept_files @ [\<lparr>en_local = local, en_remote = remote\<rparr>], kept_directories))
           else Ok (kept_files, kept_directories)))"

definition keep_directory ::
  "mapping_index \<Rightarrow> (string, string) btree_map \<Rightarrow> string \<Rightarrow>
   ((string, string) btree_map, cli_error) result" where
  "keep_directory mapping kept_directories directory =
     try_in (mapping_local mapping directory) (\<lambda>local.
       if local \<noteq> [] \<and> policy_matches (mi_policy mapping) local
       then retain_parents directory True mapping kept_directories
       else Ok kept_directories)"

definition build_manifest ::
  "(string \<Rightarrow> string) \<Rightarrow> string list \<Rightarrow> (string, remote_file) btree_map \<Rightarrow> string list \<Rightarrow>
   mapping_policy \<Rightarrow> (manifest, cli_error) result" where
  "build_manifest fold_path roots files directories policy =
     (let mapping = mapping_new roots policy
      in try_in (try_fold (keep_file mapping) ([], []) (map snd files)) (\<lambda>(kept_files, kept_directories).
         try_in (try_fold (keep_directory mapping) kept_directories directories) (\<lambda>kept_directories.
           let m = \<lparr>mf_roots = roots, mf_files = kept_files,
                    mf_directories = map snd kept_directories,
                    mf_remote_directories = map fst kept_directories, mf_policy = policy\<rparr>
           in try_in (manifest_validate fold_path m) (\<lambda>_. Ok m))))"

section \<open>Lemmas: the parent chain\<close>

lemma ancestors_snoc:
  assumes "slash \<notin> set b"
  shows "ancestors (a @ slash # b) = ancestors a @ [a @ slash # b]"
    and "proper_ancestors (a @ slash # b) = ancestors a"
proof -
  let ?n = "length (split_on slash a)"
  have s: "split_on slash (a @ slash # b) = split_on slash a @ [b]"
    using assms by (simp add: split_on_mid)
  have "map (\<lambda>k. join_with slash (take k (split_on slash a @ [b]))) [1..<Suc ?n] = ancestors a"
    unfolding ancestors_def by (rule map_cong) auto
  then show pa: "proper_ancestors (a @ slash # b) = ancestors a"
    unfolding proper_ancestors_def s by simp
  show "ancestors (a @ slash # b) = ancestors a @ [a @ slash # b]"
    by (simp add: ancestors_split [of "a @ slash # b"] pa)
qed

lemma parent_cases:
  obtains "slash \<notin> set p" "parent_of slash p = []" "ancestors p = [p]" "proper_ancestors p = []"
  | a b where "p = a @ slash # b" "slash \<notin> set b" "parent_of slash p = a"
      "ancestors p = ancestors a @ [p]" "proper_ancestors p = ancestors a"
proof (cases "slash \<in> set p")
  case True
  then obtain a b where p: "p = a @ slash # b" and b: "slash \<notin> set b"
    by (meson split_list_last)
  show ?thesis
    by (rule that(2) [OF p b]) (use ancestors_snoc [OF b, of a] parent_of_append [OF b, of a] p in auto)
next
  case False
  show ?thesis
    by (rule that(1)) (use False in \<open>auto simp: parent_of_none ancestors_def proper_ancestors_def\<close>)
qed

lemma set_local_parents:
  "valid_relative p \<Longrightarrow> set (local_parents p acc) = set acc \<union> set (ancestors p)"
proof (induction "length p" arbitrary: p acc rule: less_induct)
  case less
  have ne: "p \<noteq> []" using less.prems by (simp add: valid_relative_iff)
  then have step: "local_parents p acc = local_parents (parent_of slash p) (bset_put p acc)"
    by (simp add: local_parents.simps [of p])
  show ?case
  proof (cases rule: parent_cases [of p])
    case 1
    then show ?thesis by (simp add: step local_parents.simps [of "[]"])
  next
    case (2 a b)
    have "valid_relative a" using valid_relative_prefix less.prems 2(1) by blast
    moreover have "length a < length p" using 2(1) by simp
    ultimately have "set (local_parents a (bset_put p acc)) = insert p (set acc) \<union> set (ancestors a)"
      using less.hyps by simp
    then show ?thesis by (auto simp: step 2(3,4))
  qed
qed

lemma local_parents_sorted:
  "sorted acc \<and> distinct acc \<Longrightarrow> sorted (local_parents p acc) \<and> distinct (local_parents p acc)"
proof (induction p acc rule: local_parents.induct)
  case (1 p acc)
  then show ?case by (cases "p = []") (simp_all add: local_parents.simps [of p] local_parents.simps [of "[]"])
qed

lemma set_add_local_parents:
  assumes "valid_relative p"
  shows "set (add_local_parents p d acc) =
    set acc \<union> (if d then set (ancestors p) else set (proper_ancestors p))"
proof (cases d)
  case True
  then show ?thesis using set_local_parents [OF assms] by (simp add: add_local_parents_def)
next
  case False
  show ?thesis
  proof (cases rule: parent_cases [of p])
    case 1
    then show ?thesis using False by (simp add: add_local_parents_def local_parents.simps [of "[]"])
  next
    case (2 a b)
    have "valid_relative a" using valid_relative_prefix assms 2(1) by blast
    then show ?thesis using set_local_parents False 2 by (simp add: add_local_parents_def)
  qed
qed

lemma add_local_parents_sorted:
  "sorted acc \<and> distinct acc \<Longrightarrow>
   sorted (add_local_parents p d acc) \<and> distinct (add_local_parents p d acc)"
  unfolding add_local_parents_def by (rule local_parents_sorted)

section \<open>The manifest specification\<close>

text \<open>The directories a filtered manifest needs: the parents of its files and of its matching directories.\<close>

definition needed_directories :: "manifest \<Rightarrow> string set" where
  "needed_directories m =
     (\<Union>e \<in> set (mf_files m). set (proper_ancestors (en_local e))) \<union>
     (\<Union>d \<in> {d \<in> set (mf_directories m). policy_matches (mf_policy m) d}. set (ancestors d))"

definition spec_roots :: "manifest \<Rightarrow> bool" where
  "spec_roots m \<longleftrightarrow>
     (if is_space_root (mf_policy m) then mf_roots m = [''/'']
      else distinct (mf_roots m) \<and> list_all (\<lambda>root. valid_relative (without_suffix ''/'' root) \<and>
        (\<exists>local. mapping_local (mapping_new (mf_roots m) (mf_policy m)) root = Ok local \<and>
          ((mf_policy m = Legacy \<or> (local \<noteq> [] \<and> policy_matches (mf_policy m) local)) \<longrightarrow>
             root \<in> set (mf_remote_directories m) \<union> (rf_path \<circ> en_remote) ` set (mf_files m))))
        (mf_roots m))"

definition spec_directories :: "manifest \<Rightarrow> bool" where
  "spec_directories m \<longleftrightarrow>
     length (mf_remote_directories m) = length (mf_directories m)
     \<and> distinct (mf_remote_directories m) \<and> distinct (mf_directories m)
     \<and> list_all (\<lambda>(remote, local). ends_with ''/'' remote \<and> valid_relative (without_suffix ''/'' remote)
          \<and> local \<noteq> [] \<and> mapping_local (mapping_new (mf_roots m) (mf_policy m)) remote = Ok local)
        (zip (mf_remote_directories m) (mf_directories m))"

definition spec_policy :: "manifest \<Rightarrow> bool" where
  "spec_policy m \<longleftrightarrow> mf_policy m = Legacy \<or>
     (list_all (\<lambda>e. policy_matches (mf_policy m) (en_local e)) (mf_files m)
      \<and> set (mf_directories m) = needed_directories m)"

definition local_items :: "manifest \<Rightarrow> (string \<times> bool) list" where
  "local_items m = map (\<lambda>d. (d, True)) (mf_directories m) @ map (\<lambda>e. (en_local e, False)) (mf_files m)"

definition spec_files :: "manifest \<Rightarrow> bool" where
  "spec_files m \<longleftrightarrow>
     distinct (map (rf_path \<circ> en_remote) (mf_files m))
     \<and> list_all (\<lambda>e. valid_relative (rf_path (en_remote e)) \<and> \<not> etag_bad (rf_etag (en_remote e))
          \<and> mapping_local (mapping_new (mf_roots m) (mf_policy m)) (rf_path (en_remote e))
              = Ok (en_local e)) (mf_files m)"

definition manifest_spec :: "(string \<Rightarrow> string) \<Rightarrow> manifest \<Rightarrow> bool" where
  "manifest_spec fold_path m \<longleftrightarrow>
     spec_roots m \<and> spec_directories m \<and> spec_policy m \<and> spec_files m
     \<and> list_all (\<lambda>(p, d). valid_relative p) (local_items m)
     \<and> collision_free fold_path (local_items m)
     \<and> sum_list (map (\<lambda>e. unat (rf_size (en_remote e))) (mf_files m)) \<le> u64_max"

lemma remote_validate_ok:
  "is_ok (remote_validate r) \<longleftrightarrow> valid_relative (rf_path r) \<and> \<not> etag_bad (rf_etag r)"
  by (cases "validate_relative (rf_path r)") (auto simp: remote_validate_def)

lemma total_size_ok:
  "is_ok (try_fold (\<lambda>t e. ok_or x (checked_add t (rf_size (en_remote e)))) t files) \<longleftrightarrow>
   unat t + sum_list (map (\<lambda>e. unat (rf_size (en_remote e))) files) \<le> u64_max"
proof (induction files arbitrary: t)
  case Nil
  then show ?case by simp
next
  case (Cons e files)
  show ?case
  proof (cases "checked_add t (rf_size (en_remote e))")
    case None
    then have "unat t + unat (rf_size (en_remote e)) > u64_max"
      by (auto simp: checked_add_def split: if_splits)
    then show ?thesis using None by simp
  next
    case (Some t')
    then show ?thesis using checked_add_Some [OF Some] Cons.IH [of t'] by (simp add: add.assoc)
  qed
qed

lemma total_size_iff:
  "is_ok (total_size files) \<longleftrightarrow> sum_list (map (\<lambda>e. unat (rf_size (en_remote e))) files) \<le> u64_max"
  using total_size_ok [of _ 0 files] by (simp add: total_size_def)

lemma validate_root_fold:
  "is_ok (try_fold (validate_root mapping policy represented) seen roots) \<longleftrightarrow>
     distinct roots \<and> set roots \<inter> set seen = {} \<and>
     list_all (\<lambda>root. valid_relative (without_suffix ''/'' root) \<and>
       (\<exists>local. mapping_local mapping root = Ok local \<and>
         ((policy = Legacy \<or> (local \<noteq> [] \<and> policy_matches policy local)) \<longrightarrow>
            root \<in> set represented))) roots"
proof (induction roots arbitrary: seen)
  case Nil
  then show ?case by simp
next
  case (Cons root roots)
  show ?case
  proof (cases "validate_root mapping policy represented seen root")
    case (Ok seen')
    then have "seen' = bset_put root seen" "root \<notin> set seen"
      "valid_relative (without_suffix ''/'' root)"
      "\<exists>local. mapping_local mapping root = Ok local \<and>
         ((policy = Legacy \<or> (local \<noteq> [] \<and> policy_matches policy local)) \<longrightarrow> root \<in> set represented)"
      by (auto simp: validate_root_def try_in_Ok_iff Let_def split: if_splits)
    then show ?thesis using Ok Cons.IH [of seen'] by auto
  next
    case (Err e)
    then have "\<not> (root \<notin> set seen \<and> valid_relative (without_suffix ''/'' root) \<and>
      (\<exists>local. mapping_local mapping root = Ok local \<and>
         ((policy = Legacy \<or> (local \<noteq> [] \<and> policy_matches policy local)) \<longrightarrow> root \<in> set represented)))"
      by (auto simp: validate_root_def try_in_Err_iff Let_def split: if_splits)
    then show ?thesis using Err by auto
  qed
qed

lemma validate_directory_fold:
  "is_ok (try_fold (validate_directory mapping) (sr, sl) dirs) \<longleftrightarrow>
     distinct (map fst dirs) \<and> distinct (map snd dirs)
     \<and> set (map fst dirs) \<inter> set sr = {} \<and> set (map snd dirs) \<inter> set sl = {}
     \<and> list_all (\<lambda>(remote, local). ends_with ''/'' remote \<and> valid_relative (without_suffix ''/'' remote)
          \<and> local \<noteq> [] \<and> mapping_local mapping remote = Ok local) dirs"
proof (induction dirs arbitrary: sr sl)
  case Nil
  then show ?case by simp
next
  case (Cons dir dirs)
  obtain remote local where dir: "dir = (remote, local)" by (cases dir)
  let ?good = "remote \<notin> set sr \<and> local \<notin> set sl \<and> ends_with ''/'' remote
    \<and> valid_relative (without_suffix ''/'' remote) \<and> local \<noteq> [] \<and> mapping_local mapping remote = Ok local"
  show ?case
  proof (cases "validate_directory mapping (sr, sl) dir")
    case (Ok s')
    then have "s' = (bset_put remote sr, bset_put local sl)" "?good"
      by (auto simp: validate_directory_def dir try_in_Ok_iff split: if_splits)
    then show ?thesis using Ok Cons.IH [of "bset_put remote sr" "bset_put local sl"]
      by (auto simp: dir)
  next
    case (Err e)
    then have "\<not> ?good"
      by (auto simp: validate_directory_def dir try_in_Err_iff split: if_splits)
    then show ?thesis using Err by (auto simp: dir)
  qed
qed

lemma validate_file_fold:
  "is_ok (try_fold (validate_file f mapping) (seen, paths) es) \<longleftrightarrow>
     distinct (map (rf_path \<circ> en_remote) es) \<and> set (map (rf_path \<circ> en_remote) es) \<inter> set seen = {}
     \<and> list_all (\<lambda>e. valid_relative (rf_path (en_remote e)) \<and> \<not> etag_bad (rf_etag (en_remote e))
          \<and> mapping_local mapping (rf_path (en_remote e)) = Ok (en_local e)) es
     \<and> is_ok (insert_paths f paths (map (\<lambda>e. (en_local e, False)) es))"
proof (induction es arbitrary: seen paths)
  case Nil
  then show ?case by (simp add: insert_paths_def)
next
  case (Cons e es)
  let ?r = "en_remote e"
  let ?good = "rf_path ?r \<notin> set seen \<and> valid_relative (rf_path ?r) \<and> \<not> etag_bad (rf_etag ?r)
    \<and> mapping_local mapping (rf_path ?r) = Ok (en_local e)"
  have rv: "remote_validate ?r = Ok u \<longleftrightarrow> valid_relative (rf_path ?r) \<and> \<not> etag_bad (rf_etag ?r)" for u
    using remote_validate_ok [of ?r] by (cases "remote_validate ?r") auto
  show ?case
  proof (cases "validate_file f mapping (seen, paths) e")
    case (Ok s')
    then obtain paths' where "s' = (bset_put (rf_path ?r) seen, paths')" "?good"
      "insert_path f paths (en_local e) False = Ok paths'"
      by (auto simp: validate_file_def try_in_Ok_iff Let_def rv split: if_splits)
    then show ?thesis using Ok Cons.IH [of "bset_put (rf_path ?r) seen" paths']
      by (auto simp: insert_paths_def)
  next
    case (Err err)
    have "\<not> (?good \<and> is_ok (insert_path f paths (en_local e) False))"
    proof
      assume g: "?good \<and> is_ok (insert_path f paths (en_local e) False)"
      then have "remote_validate ?r = Ok ()" by (simp add: rv)
      then show False using Err g
        by (cases "insert_path f paths (en_local e) False") (simp_all add: validate_file_def)
    qed
    then show ?thesis using Err by (cases "insert_path f paths (en_local e) False")
        (auto simp: insert_paths_def)
  qed
qed

lemma expected_files:
  assumes "list_all (\<lambda>e. valid_relative (en_local e)) files" and "sorted acc \<and> distinct acc"
  shows "(case try_fold (\<lambda>expected e.
            if \<not> policy_matches policy (en_local e) then Err x
            else Ok (add_local_parents (en_local e) False expected)) acc files of
      Ok expected \<Rightarrow> list_all (\<lambda>e. policy_matches policy (en_local e)) files
        \<and> set expected = set acc \<union> (\<Union>e \<in> set files. set (proper_ancestors (en_local e)))
        \<and> sorted expected \<and> distinct expected
    | Err _ \<Rightarrow> \<not> list_all (\<lambda>e. policy_matches policy (en_local e)) files)"
  using assms
proof (induction files arbitrary: acc)
  case Nil
  then show ?case by simp
next
  case (Cons e files)
  have v: "valid_relative (en_local e)" and vs: "list_all (\<lambda>e. valid_relative (en_local e)) files"
    using Cons.prems(1) by auto
  have s: "sorted (add_local_parents (en_local e) False acc)
      \<and> distinct (add_local_parents (en_local e) False acc)"
    by (rule add_local_parents_sorted) (rule Cons.prems(2))
  have set_add: "set (add_local_parents (en_local e) False acc) =
      set acc \<union> set (proper_ancestors (en_local e))"
    using set_add_local_parents [OF v, of False acc] by simp
  show ?case
    using Cons.IH [OF vs s] by (auto simp: set_add split: result.splits)
qed

lemma expected_directories:
  assumes "list_all valid_relative dirs" and "sorted acc \<and> distinct acc"
  shows "set (fold (\<lambda>d expected. if policy_matches policy d then add_local_parents d True expected
      else expected) dirs acc) = set acc \<union>
        (\<Union>d \<in> {d \<in> set dirs. policy_matches policy d}. set (ancestors d))
    \<and> sorted (fold (\<lambda>d expected. if policy_matches policy d then add_local_parents d True expected
      else expected) dirs acc)
    \<and> distinct (fold (\<lambda>d expected. if policy_matches policy d then add_local_parents d True expected
      else expected) dirs acc)"
  using assms
proof (induction dirs arbitrary: acc)
  case Nil
  then show ?case by simp
next
  case (Cons d dirs)
  let ?acc = "if policy_matches policy d then add_local_parents d True acc else acc"
  have v: "valid_relative d" and vs: "list_all valid_relative dirs" using Cons.prems(1) by auto
  have s: "sorted ?acc \<and> distinct ?acc"
    using add_local_parents_sorted [OF Cons.prems(2)] Cons.prems(2) by simp
  have "set (add_local_parents d True acc) = set acc \<union> set (ancestors d)"
    using set_add_local_parents [OF v, of True acc] by simp
  then show ?case using Cons.IH [OF vs s] by auto
qed

lemma validate_directory_policy_ok:
  assumes "list_all (\<lambda>e. valid_relative (en_local e)) (mf_files m)"
    and "list_all valid_relative (mf_directories m)"
  shows "is_ok (validate_directory_policy m) \<longleftrightarrow> spec_policy m"
proof (cases "mf_policy m = Legacy")
  case True
  then show ?thesis by (simp add: validate_directory_policy_def spec_policy_def)
next
  case False
  let ?match = "policy_matches (mf_policy m)"
  let ?msg = "invalid ''manifest file violates its filter policy''"
  let ?files = "try_fold (\<lambda>expected e. if \<not> ?match (en_local e) then Err ?msg
      else Ok (add_local_parents (en_local e) False expected)) [] (mf_files m)"
  note f = expected_files [OF assms(1), of "[]" "mf_policy m" ?msg]
  show ?thesis
  proof (cases ?files)
    case (Ok expected)
    then have all: "list_all (\<lambda>e. ?match (en_local e)) (mf_files m)"
      and se: "set expected = (\<Union>e \<in> set (mf_files m). set (proper_ancestors (en_local e)))"
      and sd: "sorted expected \<and> distinct expected"
      using f by simp_all
    let ?all = "fold (\<lambda>d expected. if ?match d then add_local_parents d True expected else expected)
      (mf_directories m) expected"
    have d: "set ?all = needed_directories m" "sorted ?all" "distinct ?all"
      using expected_directories [OF assms(2) sd, of "mf_policy m"] se
      by (simp_all add: needed_directories_def)
    have "bset_of (mf_directories m) = ?all \<longleftrightarrow> set (mf_directories m) = needed_directories m"
      using bset_canonical [of "bset_of (mf_directories m)" ?all]
        bset_of_sorted [of "mf_directories m"] d by simp
    then show ?thesis using False Ok all
      by (simp add: validate_directory_policy_def spec_policy_def)
  next
    case (Err err)
    then show ?thesis using False f
      by (simp add: validate_directory_policy_def spec_policy_def)
  qed
qed

lemma is_ok_try: "is_ok (try_in r k) \<longleftrightarrow> (\<exists>x. r = Ok x \<and> is_ok (k x))"
  by (cases r) auto

lemma is_ok_try_const: "is_ok (try_in r (\<lambda>_. k)) \<longleftrightarrow> is_ok r \<and> is_ok k"
  by (cases r) auto

lemma validate_roots_ok:
  "is_ok (validate_roots m (mapping_new (mf_roots m) (mf_policy m))) \<longleftrightarrow> spec_roots m"
proof (cases "is_space_root (mf_policy m)")
  case True
  then show ?thesis by (simp add: validate_roots_def spec_roots_def)
next
  case False
  let ?mapping = "mapping_new (mf_roots m) (mf_policy m)"
  let ?rep = "bset_of (mf_remote_directories m @ map (\<lambda>e. rf_path (en_remote e)) (mf_files m))"
  have rep: "set ?rep = set (mf_remote_directories m) \<union> (rf_path \<circ> en_remote) ` set (mf_files m)"
    by auto
  have "is_ok (validate_roots m ?mapping) \<longleftrightarrow>
      is_ok (try_fold (validate_root ?mapping (mf_policy m) ?rep) [] (mf_roots m))"
    using False by (simp add: validate_roots_def Let_def is_ok_try_const)
  also have "\<dots> \<longleftrightarrow> spec_roots m"
    unfolding validate_root_fold rep spec_roots_def using False by simp
  finally show ?thesis .
qed

lemma validate_roots_and_directories_ok:
  "is_ok (validate_roots_and_directories m (mapping_new (mf_roots m) (mf_policy m))) \<longleftrightarrow>
     spec_roots m \<and> spec_directories m"
proof (cases "length (mf_remote_directories m) = length (mf_directories m)")
  case True
  let ?mapping = "mapping_new (mf_roots m) (mf_policy m)"
  let ?zip = "zip (mf_remote_directories m) (mf_directories m)"
  have "is_ok (validate_roots_and_directories m ?mapping) \<longleftrightarrow>
      is_ok (validate_roots m ?mapping) \<and> is_ok (try_fold (validate_directory ?mapping) ([], []) ?zip)"
    using True by (simp add: validate_roots_and_directories_def is_ok_try_const)
  then show ?thesis
    unfolding validate_roots_ok validate_directory_fold spec_directories_def using True by simp
next
  case False
  then show ?thesis by (simp add: validate_roots_and_directories_def spec_directories_def)
qed

lemma manifest_validate_ok: "is_ok (manifest_validate f m) \<longleftrightarrow> manifest_spec f m"
proof -
  let ?mapping = "mapping_new (mf_roots m) (mf_policy m)"
  let ?dirs = "map (\<lambda>d. (d, True)) (mf_directories m)"
  let ?files = "map (\<lambda>e. (en_local e, False)) (mf_files m)"
  have dirs: "try_fold (\<lambda>paths d. insert_path f paths d True) ps ds =
      insert_paths f ps (map (\<lambda>d. (d, True)) ds)" for ps ds
    unfolding insert_paths_def
  proof (induction ds arbitrary: ps)
    case Nil
    then show ?case by simp
  next
    case (Cons d ds)
    then show ?case by (cases "insert_path f ps d True") simp_all
  qed
  have split: "is_ok (insert_paths f [] (?dirs @ ?files)) \<longleftrightarrow>
      (\<exists>paths. insert_paths f [] ?dirs = Ok paths \<and> is_ok (insert_paths f paths ?files))"
    unfolding insert_paths_def try_fold_append is_ok_try ..
  have items: "is_ok (insert_paths f [] (?dirs @ ?files)) \<longleftrightarrow>
      list_all (\<lambda>(p, d). valid_relative p) (local_items m) \<and> collision_free f (local_items m)"
    unfolding local_items_def using insert_paths_iff [OF indexed_Nil] by simp
  have "is_ok (manifest_validate f m) \<longleftrightarrow> spec_roots m \<and> spec_directories m
      \<and> is_ok (validate_directory_policy m) \<and> spec_files m \<and> is_ok (insert_paths f [] (?dirs @ ?files))
      \<and> sum_list (map (\<lambda>e. unat (rf_size (en_remote e))) (mf_files m)) \<le> u64_max"
    unfolding split
    using validate_roots_and_directories_ok [of m] total_size_iff [of "mf_files m"]
      validate_file_fold [of f ?mapping "[]" _ "mf_files m"]
    by (auto simp: manifest_validate_def Let_def is_ok_try_const is_ok_try [of "insert_paths _ _ _"]
        dirs spec_files_def)
  also have "\<dots> \<longleftrightarrow> manifest_spec f m"
  proof -
    have "is_ok (validate_directory_policy m) \<longleftrightarrow> spec_policy m"
      if "list_all (\<lambda>(p, d). valid_relative p) (local_items m)"
      using that by (intro validate_directory_policy_ok) (auto simp: local_items_def list_all_iff)
    then show ?thesis unfolding items manifest_spec_def by blast
  qed
  finally show ?thesis .
qed

lemma keep_file_fold:
  "try_fold (keep_file mapping) (kept, dirs) remotes = Ok (kept', dirs') \<Longrightarrow>
   list_all (\<lambda>r. is_ok (mapping_local mapping (rf_path r))) remotes \<and>
   kept' = kept @ map (\<lambda>r. \<lparr>en_local = (case mapping_local mapping (rf_path r) of Ok l \<Rightarrow> l | Err _ \<Rightarrow> []),
                             en_remote = r\<rparr>)
     (filter (\<lambda>r. case mapping_local mapping (rf_path r) of
        Ok l \<Rightarrow> policy_matches (mi_policy mapping) l | Err _ \<Rightarrow> False) remotes)"
proof (induction remotes arbitrary: kept dirs)
  case Nil
  then show ?case by simp
next
  case (Cons r remotes)
  from Cons.prems obtain kept1 dirs1 where step: "keep_file mapping (kept, dirs) r = Ok (kept1, dirs1)"
    and rest: "try_fold (keep_file mapping) (kept1, dirs1) remotes = Ok (kept', dirs')"
    by (auto simp: try_in_Ok_iff)
  from step obtain l where l: "mapping_local mapping (rf_path r) = Ok l"
    by (auto simp: keep_file_def try_in_Ok_iff)
  have "kept1 = (if policy_matches (mi_policy mapping) l
      then kept @ [\<lparr>en_local = l, en_remote = r\<rparr>] else kept)"
    using step l by (auto simp: keep_file_def try_in_Ok_iff split: if_splits)
  then show ?case using Cons.IH [OF rest] l by simp
qed

lemma build_manifest_cases:
  assumes "build_manifest f roots files directories policy = Ok m"
  shows "manifest_validate f m = Ok () \<and> mf_roots m = roots \<and> mf_policy m = policy
    \<and> (\<exists>dirs. try_fold (keep_file (mapping_new roots policy)) ([], []) (map snd files) = Ok (mf_files m, dirs))"
  using assms
  by (auto simp: build_manifest_def Let_def try_in_Ok_iff)

lemma single_root_below:
  assumes "mapping_local (mapping_new [root] policy) path = Ok l" and "root \<noteq> ''/''"
  shows "\<exists>t. path = root @ t"
proof -
  obtain r where r: "mapping_root (mapping_new [root] policy) path = Some r"
    using mapping_local_root [OF assms(1)] by blast
  then have "r = root" using mapping_root_in [OF r] by (simp add: mapping_new_def)
  then show ?thesis using mapping_root_decomp [OF r] assms(2) by blast
qed

section \<open>Properties\<close>

text \<open>
  C20: the manifest validator decides its specification. \<open>manifest_validate\<close> accepts a
  (possibly tampered) manifest exactly when its roots, directories, policy and files are
  consistent with the mapping, all local paths are valid and free of collisions under the
  folding, and the total size fits 64 bits, whatever the folding function is.
\<close>

theorem manifest_validate_decides:
  "is_ok (manifest_validate fold_path m) = manifest_spec fold_path m"
  by (rule manifest_validate_ok)

text \<open>
  C33: building a manifest filters exactly and maps faithfully. The files kept are exactly
  those whose mapped path passes the filters, in order, each with the path the mapping gives;
  no file outside the roots is skipped silently; and the manifest satisfies the specification.
\<close>

theorem build_manifest_exact:
  assumes "build_manifest fold_path roots files directories policy = Ok m"
  shows "manifest_spec fold_path m \<and> mf_roots m = roots \<and> mf_policy m = policy
    \<and> list_all (\<lambda>r. is_ok (mapping_local (mapping_new roots policy) (rf_path r))) (map snd files)
    \<and> map en_remote (mf_files m) =
        filter (\<lambda>r. case mapping_local (mapping_new roots policy) (rf_path r) of
          Ok local \<Rightarrow> policy_matches policy local | Err _ \<Rightarrow> False) (map snd files)"
proof -
  from build_manifest_cases [OF assms] obtain dirs where
    v: "manifest_validate fold_path m = Ok ()" and m: "mf_roots m = roots" "mf_policy m = policy"
    and k: "try_fold (keep_file (mapping_new roots policy)) ([], []) (map snd files)
      = Ok (mf_files m, dirs)" by blast
  have "manifest_spec fold_path m" using manifest_validate_ok [of fold_path m] v by simp
  moreover have "mi_policy (mapping_new roots policy) = policy" by (simp add: mapping_new_def)
  ultimately show ?thesis using keep_file_fold [OF k] m by (simp add: comp_def cong: result.case_cong)
qed

theorem build_manifest_exact_witness:
  "\<exists>m. build_manifest to_ascii_uppercase [''d/'']
      [(''d/a.txt'', \<lparr>rf_path = ''d/a.txt'', rf_size = 3, rf_etag = [], rf_crc64 = 0, rf_updated_at = 0\<rparr>),
       (''d/b.log'', \<lparr>rf_path = ''d/b.log'', rf_size = 4, rf_etag = [], rf_crc64 = 0, rf_updated_at = 0\<rparr>)]
      [''d/''] (Cp True (Some ''*.txt'') None) = Ok m
    \<and> manifest_spec to_ascii_uppercase m"
proof -
  let ?a = "\<lparr>rf_path = ''d/a.txt'', rf_size = 3, rf_etag = [], rf_crc64 = 0, rf_updated_at = 0\<rparr>"
  let ?b = "\<lparr>rf_path = ''d/b.log'', rf_size = 4, rf_etag = [], rf_crc64 = 0, rf_updated_at = 0\<rparr>"
  have "is_ok (build_manifest to_ascii_uppercase [''d/''] [(''d/a.txt'', ?a), (''d/b.log'', ?b)]
      [''d/''] (Cp True (Some ''*.txt'') None))" by code_simp
  then obtain m where "build_manifest to_ascii_uppercase [''d/''] [(''d/a.txt'', ?a), (''d/b.log'', ?b)]
      [''d/''] (Cp True (Some ''*.txt'') None) = Ok m" by (auto simp: is_ok_iff)
  then show ?thesis using build_manifest_exact by blast
qed

text \<open>
  C31: a resumed download stays within the selected target. When a validated manifest passes
  the check against the immutable selection, its only root is the selection and every file
  is the selected file, or lies below the selected directory.
\<close>

theorem selection_confines:
  assumes "is_ok (manifest_validate fold_path m)"
    and "is_ok (validate_selection m (Some selection) is_recursive)"
    and "e \<in> set (mf_files m)" and "selection \<noteq> ''/''"
  shows "mf_roots m = [selection] \<and>
    (if ends_with ''/'' selection then is_recursive \<and> starts_with selection (rf_path (en_remote e))
     else rf_path (en_remote e) = selection)"
proof -
  have spec: "manifest_spec fold_path m" using assms(1) by (simp add: manifest_validate_ok)
  have roots: "mf_roots m = [selection]"
    using assms(2) by (auto simp: validate_selection_def split: if_splits)
  have local: "mapping_local (mapping_new [selection] (mf_policy m)) (rf_path (en_remote e)) = Ok (en_local e)"
    using spec assms(3) roots by (auto simp: manifest_spec_def spec_files_def list_all_iff)
  show ?thesis
  proof (cases "ends_with ''/'' selection")
    case True
    then have "is_recursive"
      using assms(2) roots by (auto simp: validate_selection_def split: if_splits)
    then show ?thesis
      using single_root_below [OF local assms(4)] True roots by (auto simp: starts_with_iff)
  next
    case False
    then have "is_valid_exact_selection m selection = Ok True"
      using assms(2) roots
      by (cases "is_valid_exact_selection m selection")
         (auto simp: validate_selection_def split: if_splits)
    then have "list_all (\<lambda>e. rf_path (en_remote e) = selection) (mf_files m)"
      by (auto simp: is_valid_exact_selection_def try_in_Ok_iff Let_def)
    then show ?thesis using assms(3) roots False by (simp add: list_all_iff)
  qed
qed

theorem selection_confines_witness:
  "let m = \<lparr>mf_roots = [''d/''], mf_files = [\<lparr>en_local = ''a'', en_remote = \<lparr>rf_path = ''d/a'',
        rf_size = 3, rf_etag = [], rf_crc64 = 7, rf_updated_at = 0\<rparr>\<rparr>], mf_directories = [],
        mf_remote_directories = [], mf_policy = Cp False None None\<rparr>
   in list_all (\<lambda>e. starts_with ''d/'' (rf_path (en_remote e))) (mf_files m)"
proof -
  let ?e = "\<lparr>en_local = ''a'', en_remote = \<lparr>rf_path = ''d/a'',
        rf_size = 3, rf_etag = [], rf_crc64 = 7, rf_updated_at = 0\<rparr>\<rparr>"
  let ?m = "\<lparr>mf_roots = [''d/''], mf_files = [?e], mf_directories = [],
        mf_remote_directories = [], mf_policy = Cp False None None\<rparr>"
  have "is_ok (manifest_validate to_ascii_uppercase ?m)" by code_simp
  moreover have "is_ok (validate_selection ?m (Some ''d/'') True)" by code_simp
  moreover have "ends_with ''/'' ''d/''" by code_simp
  ultimately show ?thesis
    using selection_confines [of to_ascii_uppercase ?m "''d/''" True ?e] by simp
qed

end
