(* ===== verification/Share_Scan.thy ===== *)
theory Share_Scan
  imports Share_Manifest
begin

text \<open>
  \<open>crates/adrive/src/handler/share_manifest_scan.rs\<close>: the prescan of a share. Reading one
  directory follows the pagination of the service, here a state machine \<open>service\<close> that is
  a parameter; scanning keeps up to \<open>concurrency\<close> directory reads pending and takes their
  results in any order, here given by a \<open>schedule\<close>: its next number picks the pending read
  that completes. \<open>reader\<close> stands for the listing a directory read returns and \<open>get_file\<close>
  for the metadata request; both are parameters.
\<close>

section \<open>Reading one directory\<close>

record directory_listing =
  dl_files :: "file_info list"
  dl_folders :: "folder_info list"

definition empty_listing :: directory_listing where
  "empty_listing = \<lparr>dl_files = [], dl_folders = []\<rparr>"

definition validate_scoped_path ::
  "string \<Rightarrow> bool \<Rightarrow> string option \<Rightarrow> (unit, cli_error) result" where
  "validate_scoped_path path is_directory prefix =
     try_in (if is_directory then directory_path path
             else try_in (validate_relative path) (\<lambda>_. Ok path)) (\<lambda>canonical.
       case prefix of
         Some scope \<Rightarrow>
           if scope \<noteq> ''/'' \<and> \<not> starts_with scope canonical
           then Err (invalid ''service returned a path outside the selected directory'')
           else Ok ()
       | None \<Rightarrow> Ok ())"

definition validate_scope :: "list_files_output \<Rightarrow> string option \<Rightarrow> (unit, cli_error) result" where
  "validate_scope page prefix =
     try_in (try_each (\<lambda>file. validate_scoped_path (fi_file_path file) (is_folder file) prefix)
               (lo_files page)) (\<lambda>_.
       try_each (\<lambda>folder. validate_scoped_path (fo_folder folder) True prefix) (lo_folders page))"

text \<open>The next marker, with the set of markers seen.\<close>

definition next_marker ::
  "list_files_output \<Rightarrow> string list \<Rightarrow> (string option \<times> string list, cli_error) result" where
  "next_marker page markers =
     (if lo_next_marker page = [] then
        (if lo_is_truncated page then Err (invalid ''truncated page is missing NextMarker'')
         else Ok (None, markers))
      else if length (lo_next_marker page) > 4096 \<or> has_control (lo_next_marker page)
      then Err (invalid ''pagination marker exceeds 4096 bytes or contains control characters'')
      else if lo_next_marker page \<in> set markers then Err (invalid ''cyclic pagination marker'')
      else Ok (Some (lo_next_marker page), bset_put (lo_next_marker page) markers))"

lemma finite_markers: "finite {s :: string. length s \<le> 4096}"
proof -
  have "{s :: string. length s \<le> 4096} = {s. set s \<subseteq> UNIV \<and> length s \<le> 4096}" by simp
  then show ?thesis using finite_lists_length_le [of "UNIV :: char set" 4096] by simp
qed

lemma next_marker_progress:
  assumes "next_marker page markers = Ok (Some marker, markers')"
  shows "card ({s. length s \<le> 4096} - set markers') < card ({s. length s \<le> 4096} - set markers)"
proof -
  have m: "length marker \<le> 4096" "marker \<notin> set markers" "markers' = bset_put marker markers"
    using assms by (auto simp: next_marker_def split: if_splits)
  show ?thesis
    by (rule psubset_card_mono) (use m finite_markers in auto)
qed

text \<open>
  The pagination loop. It ends for every service: a marker is never accepted twice and there
  are finitely many markers of at most 4096 bytes.
\<close>

type_synonym 's list_service =
  "'s \<Rightarrow> string option \<Rightarrow> string option \<Rightarrow> (list_files_output, cli_error) result \<times> 's"

function read_pages ::
  "'s list_service \<Rightarrow> string option \<Rightarrow> string option \<Rightarrow> string list \<Rightarrow> directory_listing \<Rightarrow> 's \<Rightarrow>
   (directory_listing, cli_error) result \<times> 's" where
  "read_pages service prefix marker markers listing st =
     (case service st prefix marker of
        (Err e, st1) \<Rightarrow> (Err e, st1)
      | (Ok page, st1) \<Rightarrow>
          (case validate_scope page prefix of
             Err e \<Rightarrow> (Err e, st1)
           | Ok _ \<Rightarrow>
               (case next_marker page markers of
                  Err e \<Rightarrow> (Err e, st1)
                | Ok (None, markers1) \<Rightarrow>
                    (Ok (listing\<lparr>dl_files := dl_files listing @ lo_files page,
                                 dl_folders := dl_folders listing @ lo_folders page\<rparr>), st1)
                | Ok (Some marker1, markers1) \<Rightarrow>
                    read_pages service prefix (Some marker1) markers1
                      (listing\<lparr>dl_files := dl_files listing @ lo_files page,
                               dl_folders := dl_folders listing @ lo_folders page\<rparr>) st1)))"
  by pat_completeness auto
termination
  by (relation "measure (\<lambda>(service, prefix, marker, markers, listing, st).
        card ({s. length s \<le> 4096} - set markers))") (auto dest: next_marker_progress)

declare read_pages.simps [simp del]

definition read_directory ::
  "'s list_service \<Rightarrow> string option \<Rightarrow> 's \<Rightarrow> (directory_listing, cli_error) result \<times> 's" where
  "read_directory service prefix st = read_pages service prefix None [] empty_listing st"

section \<open>The snapshot\<close>

record snapshot =
  sn_roots :: "string list"
  sn_files :: "(string, remote_file) btree_map"
  sn_directories :: "string list"
  sn_queue :: "string list"
  sn_directory_versions :: "(string, i64) btree_map"
  sn_policy :: mapping_policy

definition default_snapshot :: "mapping_policy \<Rightarrow> snapshot" where
  "default_snapshot policy = \<lparr>sn_roots = [], sn_files = [], sn_directories = [], sn_queue = [],
     sn_directory_versions = [], sn_policy = policy\<rparr>"

definition add_directory :: "snapshot \<Rightarrow> string \<Rightarrow> (snapshot, cli_error) result" where
  "add_directory s path =
     try_in (directory_path path) (\<lambda>directory.
       if directory \<notin> set (sn_directories s)
       then Ok (s\<lparr>sn_directories := bset_put directory (sn_directories s),
                  sn_queue := sn_queue s @ [directory]\<rparr>)
       else Ok s)"

definition directory_version :: "snapshot \<Rightarrow> string \<Rightarrow> i64 \<Rightarrow> (snapshot, cli_error) result" where
  "directory_version s path version =
     try_in (directory_path path) (\<lambda>path.
       if version = 0 then Ok s
       else if (case bt_get (sn_directory_versions s) path of
                  None \<Rightarrow> False | Some previous \<Rightarrow> previous \<noteq> version)
       then Err (invalid ''conflicting duplicate directory metadata'')
       else Ok (s\<lparr>sn_directory_versions := bt_put path version (sn_directory_versions s)\<rparr>))"

definition add_file :: "snapshot \<Rightarrow> file_info \<Rightarrow> (snapshot, cli_error) result" where
  "add_file s info =
     (if is_folder info then
        try_in (directory_version s (fi_file_path info) (fi_updated_at info)) (\<lambda>s.
          add_directory s (fi_file_path info))
      else
        try_in (from_info info) (\<lambda>file.
          if (case bt_get (sn_files s) (rf_path file) of
                None \<Rightarrow> False | Some previous \<Rightarrow> previous \<noteq> file)
          then Err (invalid ''remote file changed or conflicting duplicate during enumeration'')
          else Ok (s\<lparr>sn_files := bt_put (rf_path file) file (sn_files s)\<rparr>)))"

definition accept :: "snapshot \<Rightarrow> directory_listing \<Rightarrow> (snapshot, cli_error) result" where
  "accept s listing =
     try_in (try_fold (\<lambda>s folder.
         try_in (directory_version s (fo_folder folder) (fo_updated_at folder)) (\<lambda>s.
           add_directory s (fo_folder folder))) s (dl_folders listing)) (\<lambda>s.
       try_fold add_file s (dl_files listing))"

section \<open>Selecting roots\<close>

definition select_space_root :: "snapshot \<Rightarrow> bool \<Rightarrow> (snapshot, cli_error) result" where
  "select_space_root s is_recursive =
     (if \<not> is_recursive then Err (invalid ''whole-Space downloads require --recursive'')
      else Ok (s\<lparr>sn_roots := [''/''], sn_policy := into_space_root (sn_policy s)\<rparr>))"

definition select_path ::
  "(string \<Rightarrow> (file_info, client_error) result) \<Rightarrow> snapshot \<Rightarrow> string \<Rightarrow> (snapshot, cli_error) result" where
  "select_path get_file s path =
     try_in (map_err map_ids_error (get_file path)) (\<lambda>info.
       let s = s\<lparr>sn_roots := sn_roots s @ [path]\<rparr>
       in if \<not> is_folder info then add_file s info
          else if \<not> ends_with ''/'' path
          then Err (invalid ''directory selection must end with a slash'')
          else add_directory s path)"

definition select_declared_roots ::
  "snapshot \<Rightarrow> string list option \<Rightarrow> (snapshot, cli_error) result" where
  "select_declared_roots s declared_roots =
     (case declared_roots of
        None \<Rightarrow> Ok s
      | Some roots \<Rightarrow>
          if roots = [] then Ok s
          else try_fold (\<lambda>s root.
                 try_in (validate_relative (trim_end_of slash root)) (\<lambda>_.
                   if ends_with ''/'' root then add_directory s root else Ok s))
                 (s\<lparr>sn_roots := roots\<rparr>) roots)"

definition infer_roots :: "snapshot \<Rightarrow> snapshot" where
  "infer_roots s =
     (if sn_roots s \<noteq> [] then s
      else let roots = sn_directories s;
               mapping = mapping_new roots (sn_policy s);
               files = filter (\<lambda>path. mapping_root mapping path = None) (map fst (sn_files s))
           in s\<lparr>sn_roots := roots @ files\<rparr>)"

text \<open>\<open>has_space_root\<close> of the receiver is read before and after the root listing.\<close>

definition select_roots ::
  "(string option \<Rightarrow> (directory_listing, cli_error) result) \<Rightarrow> bool \<Rightarrow> bool \<Rightarrow> snapshot \<Rightarrow>
   string list option \<Rightarrow> bool \<Rightarrow> (snapshot, cli_error) result" where
  "select_roots reader space_before space_after s declared_roots is_recursive =
     try_in (if space_before then select_space_root s is_recursive else Ok s) (\<lambda>s.
     try_in (reader None) (\<lambda>listing.
     try_in (if space_after then select_space_root s is_recursive
             else select_declared_roots s declared_roots) (\<lambda>s.
     try_in (accept s listing) (\<lambda>s. Ok (infer_roots s)))))"

section \<open>The concurrent scan\<close>

text \<open>None when the schedule ends before the scan does.\<close>

fun scan_loop ::
  "(string option \<Rightarrow> (directory_listing, cli_error) result) \<Rightarrow> nat \<Rightarrow> nat list \<Rightarrow> snapshot \<Rightarrow>
   string list \<Rightarrow> (snapshot, cli_error) result option" where
  "scan_loop reader concurrency schedule s pending =
     (let (pending, queue) = fill concurrency pending (sn_queue s);
          s = s\<lparr>sn_queue := queue\<rparr>
      in if pending = [] then Some (Ok s)
         else case schedule of
           [] \<Rightarrow> None
         | choice # rest \<Rightarrow>
             (let i = choice mod length pending
              in case try_in (reader (Some (pending ! i))) (accept s) of
                   Err e \<Rightarrow> Some (Err e)
                 | Ok s \<Rightarrow> scan_loop reader concurrency rest s (remove_at i pending)))"

declare scan_loop.simps [simp del]

definition scan_directories ::
  "(string option \<Rightarrow> (directory_listing, cli_error) result) \<Rightarrow> nat \<Rightarrow> nat list \<Rightarrow> snapshot \<Rightarrow>
   (snapshot, cli_error) result option" where
  "scan_directories reader concurrency schedule s = scan_loop reader concurrency schedule s []"

definition finish :: "(string \<Rightarrow> string) \<Rightarrow> snapshot \<Rightarrow> (manifest, cli_error) result" where
  "finish fold_path s =
     build_manifest fold_path (sn_roots s) (sn_files s) (sn_directories s) (sn_policy s)"

record scan_options =
  so_selection :: "string option"
  so_is_recursive :: bool
  so_concurrency :: nat
  so_policy :: mapping_policy

text \<open>The part of \<open>enumerate\<close> before the scan, and the whole.\<close>

definition select ::
  "(string option \<Rightarrow> (directory_listing, cli_error) result) \<Rightarrow>
   (string \<Rightarrow> (file_info, client_error) result) \<Rightarrow> bool \<Rightarrow> bool \<Rightarrow> scan_options \<Rightarrow>
   string list option \<Rightarrow> (snapshot, cli_error) result" where
  "select reader get_file space_before space_after options declared_roots =
     (let s = default_snapshot (so_policy options)
      in case so_selection options of
           Some path \<Rightarrow>
             if path = ''/'' then
               try_in (select_space_root s (so_is_recursive options)) (\<lambda>s.
                 try_in (reader (Some ''/'')) (accept s))
             else select_path get_file s path
         | None \<Rightarrow> select_roots reader space_before space_after s declared_roots
                     (so_is_recursive options))"

definition enumerate_share ::
  "(string \<Rightarrow> string) \<Rightarrow> (string option \<Rightarrow> (directory_listing, cli_error) result) \<Rightarrow>
   (string \<Rightarrow> (file_info, client_error) result) \<Rightarrow> bool \<Rightarrow> bool \<Rightarrow> nat list \<Rightarrow> scan_options \<Rightarrow>
   string list option \<Rightarrow> (manifest, cli_error) result option" where
  "enumerate_share fold_path reader get_file space_before space_after schedule options declared_roots =
     (if so_concurrency options = 0
      then Some (Err (invalid ''--list-concurrency must be greater than 0''))
      else case select reader get_file space_before space_after options declared_roots of
        Err e \<Rightarrow> Some (Err e)
      | Ok s \<Rightarrow>
          if sn_directories s \<noteq> [] \<and> \<not> so_is_recursive options
          then Some (Err (invalid ''directory downloads require --recursive''))
          else map_option (\<lambda>r. try_in r (finish fold_path))
                 (scan_directories reader (so_concurrency options) schedule s))"

section \<open>Lemmas: pagination\<close>

text \<open>The pages a service serves when every request carries the marker of the page before.\<close>

inductive page_chain ::
  "'s list_service \<Rightarrow> string option \<Rightarrow> string option \<Rightarrow> 's \<Rightarrow> list_files_output list \<Rightarrow> 's \<Rightarrow> bool"
  for service :: "'s list_service" and prefix :: "string option" where
  last_page: "service st prefix marker = (Ok page, st') \<Longrightarrow> lo_next_marker page = [] \<Longrightarrow>
     \<not> lo_is_truncated page \<Longrightarrow> page_chain service prefix marker st [page] st'"
| more_pages: "service st prefix marker = (Ok page, st1) \<Longrightarrow> lo_next_marker page \<noteq> [] \<Longrightarrow>
     page_chain service prefix (Some (lo_next_marker page)) st1 pages st' \<Longrightarrow>
     page_chain service prefix marker st (page # pages) st'"

inductive_cases page_chain_ConsE: "page_chain service prefix marker st (page # pages) st'"
inductive_cases page_chain_NilE: "page_chain service prefix marker st [] st'"

lemma page_chain_not_Nil: "page_chain service prefix marker st pages st' \<Longrightarrow> pages \<noteq> []"
  by (induction rule: page_chain.induct) auto

definition marker_ok :: "string \<Rightarrow> bool" where
  "marker_ok marker \<longleftrightarrow> length marker \<le> 4096 \<and> \<not> has_control marker"

definition chain_ok :: "string option \<Rightarrow> list_files_output list \<Rightarrow> string list \<Rightarrow> bool" where
  "chain_ok prefix pages seen \<longleftrightarrow>
     list_all (\<lambda>page. is_ok (validate_scope page prefix)) pages
     \<and> list_all marker_ok (map lo_next_marker (butlast pages))
     \<and> distinct (map lo_next_marker (butlast pages))
     \<and> set (map lo_next_marker (butlast pages)) \<inter> set seen = {}"

lemma chain_ok_single: "chain_ok prefix [page] seen \<longleftrightarrow> is_ok (validate_scope page prefix)"
  by (simp add: chain_ok_def)

lemma chain_ok_Cons:
  "pages \<noteq> [] \<Longrightarrow> chain_ok prefix (page # pages) seen \<longleftrightarrow>
     is_ok (validate_scope page prefix) \<and> marker_ok (lo_next_marker page)
     \<and> lo_next_marker page \<notin> set seen \<and> chain_ok prefix pages (bset_put (lo_next_marker page) seen)"
  by (auto simp: chain_ok_def)

lemma next_marker_None:
  "next_marker page markers = Ok (None, markers') \<longleftrightarrow>
     lo_next_marker page = [] \<and> \<not> lo_is_truncated page \<and> markers' = markers"
  by (auto simp: next_marker_def)

lemma next_marker_Some:
  "next_marker page markers = Ok (Some marker, markers') \<longleftrightarrow>
     lo_next_marker page \<noteq> [] \<and> marker = lo_next_marker page \<and> marker_ok marker
     \<and> marker \<notin> set markers \<and> markers' = bset_put marker markers"
  by (auto simp: next_marker_def marker_ok_def)

definition add_pages :: "directory_listing \<Rightarrow> list_files_output list \<Rightarrow> directory_listing" where
  "add_pages listing pages =
     listing\<lparr>dl_files := dl_files listing @ concat (map lo_files pages),
             dl_folders := dl_folders listing @ concat (map lo_folders pages)\<rparr>"

lemma read_pages_sound:
  "read_pages service prefix marker markers listing st = (Ok result, st') \<Longrightarrow>
   \<exists>pages. page_chain service prefix marker st pages st' \<and> chain_ok prefix pages markers
     \<and> result = add_pages listing pages"
proof (induction service prefix marker markers listing st rule: read_pages.induct)
  case (1 service prefix marker markers listing st)
  let ?with = "\<lambda>page. listing\<lparr>dl_files := dl_files listing @ lo_files page,
    dl_folders := dl_folders listing @ lo_folders page\<rparr>"
  from "1.prems" obtain page st1 where p: "service st prefix marker = (Ok page, st1)"
    by (subst (asm) read_pages.simps) (auto split: prod.splits result.splits)
  from "1.prems" p obtain u where v: "validate_scope page prefix = Ok u"
    by (subst (asm) read_pages.simps) (auto split: result.splits)
  from "1.prems" p v obtain nxt markers1 where n: "next_marker page markers = Ok (nxt, markers1)"
    by (subst (asm) read_pages.simps) (auto split: result.splits)
  show ?case
  proof (cases nxt)
    case None
    have "(Ok result, st') = (Ok (?with page), st1)"
      using "1.prems" p v n None by (subst (asm) read_pages.simps) simp
    then show ?thesis
      using page_chain.last_page [where service = service and prefix = prefix, OF p] n None v
      by (auto simp: next_marker_None chain_ok_single add_pages_def intro!: exI [of _ "[page]"])
  next
    case (Some m)
    have "read_pages service prefix (Some m) markers1 (?with page) st1 = (Ok result, st')"
      using "1.prems" p v n Some by (subst (asm) read_pages.simps) simp
    with "1.IH" [OF p [symmetric] refl v n refl Some]
    obtain pages where c: "page_chain service prefix (Some m) st1 pages st'"
      and ok: "chain_ok prefix pages markers1" and r: "result = add_pages (?with page) pages" by blast
    have m: "m = lo_next_marker page" "lo_next_marker page \<noteq> []" "marker_ok m" "m \<notin> set markers"
      "markers1 = bset_put m markers" using n Some by (auto simp: next_marker_Some)
    have "page_chain service prefix marker st (page # pages) st'"
      using page_chain.more_pages [where service = service and prefix = prefix, OF p m(2)] c m(1) by simp
    moreover have "chain_ok prefix (page # pages) markers"
      using chain_ok_Cons [OF page_chain_not_Nil [OF c]] ok m v by simp
    moreover have "result = add_pages listing (page # pages)" using r by (simp add: add_pages_def)
    ultimately show ?thesis by blast
  qed
qed

lemma read_pages_complete:
  "page_chain service prefix marker st pages st' \<Longrightarrow> chain_ok prefix pages markers \<Longrightarrow>
   read_pages service prefix marker markers listing st = (Ok (add_pages listing pages), st')"
proof (induction arbitrary: markers listing rule: page_chain.induct)
  case (last_page st marker page st')
  have v: "validate_scope page prefix = Ok ()"
    using last_page.prems unfolding chain_ok_single is_ok_unit .
  have n: "next_marker page markers = Ok (None, markers)"
    using last_page.hyps by (simp add: next_marker_None)
  show ?case
    by (subst read_pages.simps) (simp add: last_page.hyps(1) v n add_pages_def)
next
  case (more_pages st marker page st1 pages st')
  have ne: "pages \<noteq> []" by (rule page_chain_not_Nil) (rule more_pages.hyps(3))
  have ok: "marker_ok (lo_next_marker page)" "lo_next_marker page \<notin> set markers"
    "chain_ok prefix pages (bset_put (lo_next_marker page) markers)"
    using more_pages.prems unfolding chain_ok_Cons [OF ne] by blast+
  have v: "validate_scope page prefix = Ok ()"
    using more_pages.prems ne unfolding chain_ok_Cons [OF ne] is_ok_unit by blast
  have n: "next_marker page markers = Ok (Some (lo_next_marker page), bset_put (lo_next_marker page) markers)"
    using ok more_pages.hyps(2) by (simp add: next_marker_Some)
  show ?case
    by (subst read_pages.simps)
       (simp add: more_pages.hyps(1) v n more_pages.IH [OF ok(3)] add_pages_def)
qed

section \<open>Lemmas: what a snapshot knows\<close>

text \<open>
  A snapshot is a set of facts: directories, files and directory versions. A listing states
  facts of its own, or is malformed (None). Accepting a listing adds its facts, and fails
  exactly when it is malformed or contradicts what is known.
\<close>

datatype fact = FDir string | FFile string remote_file | FVer string i64

definition facts :: "snapshot \<Rightarrow> fact set" where
  "facts s = FDir ` set (sn_directories s) \<union> (\<lambda>(k, v). FFile k v) ` set (sn_files s)
     \<union> (\<lambda>(k, v). FVer k v) ` set (sn_directory_versions s)"

definition consistent :: "fact set \<Rightarrow> bool" where
  "consistent F \<longleftrightarrow> (\<forall>k a b. FFile k a \<in> F \<longrightarrow> FFile k b \<in> F \<longrightarrow> a = b)
     \<and> (\<forall>k a b. FVer k a \<in> F \<longrightarrow> FVer k b \<in> F \<longrightarrow> a = b)"

definition note_facts :: "string \<Rightarrow> i64 \<Rightarrow> fact set option" where
  "note_facts path version =
     (case directory_path path of
        Err _ \<Rightarrow> None
      | Ok d \<Rightarrow> Some (insert (FDir d) (if version = 0 then {} else {FVer d version})))"

definition file_facts :: "file_info \<Rightarrow> fact set option" where
  "file_facts info =
     (if is_folder info then note_facts (fi_file_path info) (fi_updated_at info)
      else case from_info info of Err _ \<Rightarrow> None | Ok r \<Rightarrow> Some {FFile (rf_path r) r})"

definition both :: "fact set option \<Rightarrow> fact set option \<Rightarrow> fact set option" where
  "both a b = (case a of None \<Rightarrow> None | Some F \<Rightarrow> (case b of None \<Rightarrow> None | Some G \<Rightarrow> Some (F \<union> G)))"

definition all_facts :: "fact set option list \<Rightarrow> fact set option" where
  "all_facts fs = foldr both fs (Some {})"

definition listing_facts :: "directory_listing \<Rightarrow> fact set option" where
  "listing_facts l = both
     (all_facts (map (\<lambda>folder. note_facts (fo_folder folder) (fo_updated_at folder)) (dl_folders l)))
     (all_facts (map file_facts (dl_files l)))"

definition sn_wf :: "snapshot \<Rightarrow> bool" where
  "sn_wf s \<longleftrightarrow> bt_wf (sn_files s) \<and> bt_wf (sn_directory_versions s)
     \<and> sorted (sn_directories s) \<and> distinct (sn_directories s)"

definition extends :: "snapshot \<Rightarrow> fact set \<Rightarrow> snapshot \<Rightarrow> bool" where
  "extends s F s' \<longleftrightarrow> sn_wf s' \<and> facts s' = facts s \<union> F
     \<and> sn_roots s' = sn_roots s \<and> sn_policy s' = sn_policy s
     \<and> (\<exists>new. sn_queue s' = sn_queue s @ new \<and> distinct new
            \<and> set new = set (sn_directories s') - set (sn_directories s))"

definition adds :: "snapshot \<Rightarrow> (snapshot, cli_error) result \<Rightarrow> fact set option \<Rightarrow> bool" where
  "adds s r F \<longleftrightarrow>
     (case F of
        None \<Rightarrow> \<not> is_ok r
      | Some L \<Rightarrow> if consistent (facts s \<union> L) then \<exists>s'. r = Ok s' \<and> extends s L s' else \<not> is_ok r)"

lemma facts_mem [simp]:
  "FDir d \<in> facts s \<longleftrightarrow> d \<in> set (sn_directories s)"
  "FFile k r \<in> facts s \<longleftrightarrow> (k, r) \<in> set (sn_files s)"
  "FVer k v \<in> facts s \<longleftrightarrow> (k, v) \<in> set (sn_directory_versions s)"
  by (auto simp: facts_def)

lemma fact_set_eqI:
  "(\<And>d. FDir d \<in> A \<longleftrightarrow> FDir d \<in> B) \<Longrightarrow> (\<And>k r. FFile k r \<in> A \<longleftrightarrow> FFile k r \<in> B) \<Longrightarrow>
   (\<And>k v. FVer k v \<in> A \<longleftrightarrow> FVer k v \<in> B) \<Longrightarrow> A = B"
proof (rule set_eqI)
  fix x
  assume "\<And>d. FDir d \<in> A \<longleftrightarrow> FDir d \<in> B" "\<And>k r. FFile k r \<in> A \<longleftrightarrow> FFile k r \<in> B"
    "\<And>k v. FVer k v \<in> A \<longleftrightarrow> FVer k v \<in> B"
  then show "x \<in> A \<longleftrightarrow> x \<in> B" by (cases x) auto
qed

lemma consistent_mono: "consistent B \<Longrightarrow> A \<subseteq> B \<Longrightarrow> consistent A"
  unfolding consistent_def by blast

lemma bt_wf_functional: "bt_wf m \<Longrightarrow> (k, a) \<in> set m \<Longrightarrow> (k, b) \<in> set m \<Longrightarrow> a = b"
  by (simp add: bt_mem)

lemma consistent_facts: "sn_wf s \<Longrightarrow> consistent (facts s)"
  by (auto simp: consistent_def sn_wf_def dest: bt_wf_functional)

lemma set_bt_put_fresh:
  assumes "bt_wf m" and "bt_get m k = None \<or> bt_get m k = Some v"
  shows "set (bt_put k v m) = insert (k, v) (set m)"
proof -
  have "(a, b) \<in> set (bt_put k v m) \<longleftrightarrow> (a, b) \<in> insert (k, v) (set m)" for a b
    unfolding bt_mem [OF bt_wf_put [OF assms(1)]] insert_iff bt_mem [OF assms(1)] bt_get_put
    using assms(2) by auto
  then show ?thesis by auto
qed

lemma extends_refl: "sn_wf s \<Longrightarrow> extends s {} s"
  by (simp add: extends_def)

lemma extends_trans:
  assumes "extends s F s1" and "extends s1 G s2"
  shows "extends s (F \<union> G) s2"
proof -
  obtain new1 new2 where q: "sn_queue s1 = sn_queue s @ new1" "sn_queue s2 = sn_queue s1 @ new2"
    and d: "distinct new1" "distinct new2"
    and n1: "set new1 = set (sn_directories s1) - set (sn_directories s)"
    and n2: "set new2 = set (sn_directories s2) - set (sn_directories s1)"
    using assms by (auto simp: extends_def)
  have f: "facts s1 = facts s \<union> F" "facts s2 = facts s1 \<union> G" using assms by (auto simp: extends_def)
  have sub: "set (sn_directories s) \<subseteq> set (sn_directories s1)"
    "set (sn_directories s1) \<subseteq> set (sn_directories s2)"
    using f by (auto simp flip: facts_mem)
  have "sn_queue s2 = sn_queue s @ (new1 @ new2)" using q by simp
  moreover have "distinct (new1 @ new2)" using d n1 n2 by auto
  moreover have "set (new1 @ new2) = set (sn_directories s2) - set (sn_directories s)"
    using n1 n2 sub by auto
  ultimately have "\<exists>new. sn_queue s2 = sn_queue s @ new \<and> distinct new
      \<and> set new = set (sn_directories s2) - set (sn_directories s)" by blast
  then show ?thesis using assms f by (auto simp: extends_def)
qed

lemma adds_try:
  assumes "adds s r F" and "\<And>L s'. F = Some L \<Longrightarrow> extends s L s' \<Longrightarrow> adds s' (k s') G"
  shows "adds s (try_in r k) (both F G)"
proof (cases F)
  case None
  then show ?thesis using assms(1) by (cases r) (auto simp: adds_def both_def)
next
  case (Some L)
  show ?thesis
  proof (cases "consistent (facts s \<union> L)")
    case False
    then have r: "\<not> is_ok r" using assms(1) Some by (simp add: adds_def)
    have "\<not> consistent (facts s \<union> (L \<union> M))" for M using False consistent_mono by blast
    then show ?thesis using r Some by (cases r) (auto simp: adds_def both_def split: option.split)
  next
    case True
    then obtain s' where s': "r = Ok s'" "extends s L s'" using assms(1) Some by (auto simp: adds_def)
    have k: "adds s' (k s') G" using assms(2) [OF Some s'(2)] .
    have f: "facts s' = facts s \<union> L" using s'(2) by (simp add: extends_def)
    show ?thesis
      using k extends_trans [OF s'(2)]
      by (auto simp: s'(1) Some adds_def both_def f Un_assoc split: option.splits if_splits)
  qed
qed

lemma adds_fold:
  assumes "\<And>s x. sn_wf s \<Longrightarrow> adds s (step s x) (f x)"
  shows "sn_wf s \<Longrightarrow> adds s (try_fold step s xs) (all_facts (map f xs))"
proof (induction xs arbitrary: s)
  case Nil
  then show ?case using extends_refl [OF Nil] consistent_facts [OF Nil]
    by (simp add: all_facts_def adds_def)
next
  case (Cons x xs)
  have "adds s (try_in (step s x) (\<lambda>s'. try_fold step s' xs)) (both (f x) (all_facts (map f xs)))"
    by (rule adds_try [OF assms [OF Cons.prems]]) (rule Cons.IH, simp add: extends_def)
  then show ?case by (simp add: all_facts_def)
qed

lemma adds_directory:
  assumes wf: "sn_wf s"
  shows "adds s (add_directory s path)
    (case directory_path path of Err _ \<Rightarrow> None | Ok d \<Rightarrow> Some {FDir d})"
proof (cases "directory_path path")
  case (Err e)
  then show ?thesis by (simp add: adds_def add_directory_def)
next
  case (Ok d)
  have c: "consistent (facts s \<union> {FDir d})"
    using consistent_facts [OF wf] by (auto simp: consistent_def)
  show ?thesis
  proof (cases "d \<in> set (sn_directories s)")
    case True
    then have "facts s \<union> {FDir d} = facts s" by auto
    then have "extends s {FDir d} s" using wf by (simp add: extends_def)
    then show ?thesis using Ok True c by (simp add: adds_def add_directory_def)
  next
    case False
    let ?s = "s\<lparr>sn_directories := bset_put d (sn_directories s), sn_queue := sn_queue s @ [d]\<rparr>"
    have "facts ?s = facts s \<union> {FDir d}" by (rule fact_set_eqI) auto
    then have "extends s {FDir d} ?s" using wf False by (auto simp: extends_def sn_wf_def)
    then show ?thesis using Ok False c by (simp add: adds_def add_directory_def)
  qed
qed

lemma consistent_version:
  assumes wf: "sn_wf s"
  shows "consistent (facts s \<union> {FVer d v}) \<longleftrightarrow>
    bt_get (sn_directory_versions s) d = None \<or> bt_get (sn_directory_versions s) d = Some v"
proof
  assume c: "consistent (facts s \<union> {FVer d v})"
  have "a = v" if "bt_get (sn_directory_versions s) d = Some a" for a
  proof -
    have "FVer d a \<in> facts s \<union> {FVer d v}" using bt_get_in_set [OF that] by simp
    then show ?thesis using c unfolding consistent_def by blast
  qed
  then show "bt_get (sn_directory_versions s) d = None \<or> bt_get (sn_directory_versions s) d = Some v"
    by (cases "bt_get (sn_directory_versions s) d") auto
next
  assume "bt_get (sn_directory_versions s) d = None \<or> bt_get (sn_directory_versions s) d = Some v"
  moreover have "(d, a) \<in> set (sn_directory_versions s) \<longleftrightarrow> bt_get (sn_directory_versions s) d = Some a" for a
    using wf by (simp add: sn_wf_def bt_mem)
  ultimately show "consistent (facts s \<union> {FVer d v})"
    using consistent_facts [OF wf] by (auto simp: consistent_def)
qed

lemma consistent_file:
  assumes wf: "sn_wf s"
  shows "consistent (facts s \<union> {FFile k r}) \<longleftrightarrow>
    bt_get (sn_files s) k = None \<or> bt_get (sn_files s) k = Some r"
proof
  assume c: "consistent (facts s \<union> {FFile k r})"
  have "a = r" if "bt_get (sn_files s) k = Some a" for a
  proof -
    have "FFile k a \<in> facts s \<union> {FFile k r}" using bt_get_in_set [OF that] by simp
    then show ?thesis using c unfolding consistent_def by blast
  qed
  then show "bt_get (sn_files s) k = None \<or> bt_get (sn_files s) k = Some r"
    by (cases "bt_get (sn_files s) k") auto
next
  assume "bt_get (sn_files s) k = None \<or> bt_get (sn_files s) k = Some r"
  moreover have "(k, a) \<in> set (sn_files s) \<longleftrightarrow> bt_get (sn_files s) k = Some a" for a
    using wf by (simp add: sn_wf_def bt_mem)
  ultimately show "consistent (facts s \<union> {FFile k r})"
    using consistent_facts [OF wf] by (auto simp: consistent_def)
qed

lemma adds_version:
  assumes wf: "sn_wf s"
  shows "adds s (directory_version s path version)
    (case directory_path path of Err _ \<Rightarrow> None
     | Ok d \<Rightarrow> Some (if version = 0 then {} else {FVer d version}))"
proof (cases "directory_path path")
  case (Err e)
  then show ?thesis by (simp add: adds_def directory_version_def)
next
  case (Ok d)
  show ?thesis
  proof (cases "version = 0")
    case True
    then show ?thesis using Ok extends_refl [OF wf] consistent_facts [OF wf]
      by (simp add: adds_def directory_version_def)
  next
    case False
    note c = consistent_version [OF wf, of d version]
    show ?thesis
    proof (cases "consistent (facts s \<union> {FVer d version})")
      case True
      let ?s = "s\<lparr>sn_directory_versions := bt_put d version (sn_directory_versions s)\<rparr>"
      have "set (bt_put d version (sn_directory_versions s)) = insert (d, version) (set (sn_directory_versions s))"
        using wf c [THEN iffD1, OF True] by (intro set_bt_put_fresh) (simp_all add: sn_wf_def)
      then have "facts ?s = facts s \<union> {FVer d version}" by (intro fact_set_eqI) auto
      then have "extends s {FVer d version} ?s"
        using wf by (simp add: extends_def sn_wf_def bt_wf_put)
      then show ?thesis using Ok False True c
        by (auto simp: adds_def directory_version_def split: option.split)
    next
      case bad: False
      then show ?thesis using Ok False c
        by (auto simp: adds_def directory_version_def split: option.split)
    qed
  qed
qed

lemma adds_note:
  assumes "sn_wf s"
  shows "adds s (try_in (directory_version s path version) (\<lambda>s. add_directory s path))
    (note_facts path version)"
proof -
  have "note_facts path version = both
      (case directory_path path of Err _ \<Rightarrow> None
       | Ok d \<Rightarrow> Some (if version = 0 then {} else {FVer d version}))
      (case directory_path path of Err _ \<Rightarrow> None | Ok d \<Rightarrow> Some {FDir d})"
    by (auto simp: note_facts_def both_def split: result.split)
  then show ?thesis
    using adds_try [OF adds_version [OF assms]] adds_directory by (auto simp: extends_def)
qed

lemma adds_file:
  assumes wf: "sn_wf s"
  shows "adds s (add_file s info) (file_facts info)"
proof (cases "is_folder info")
  case True
  then show ?thesis using adds_note [OF wf] by (simp add: add_file_def file_facts_def)
next
  case False
  show ?thesis
  proof (cases "from_info info")
    case (Err e)
    then show ?thesis using False by (simp add: add_file_def file_facts_def adds_def)
  next
    case (Ok r)
    let ?k = "rf_path r"
    note c = consistent_file [OF wf, of ?k r]
    show ?thesis
    proof (cases "consistent (facts s \<union> {FFile ?k r})")
      case True
      let ?s = "s\<lparr>sn_files := bt_put ?k r (sn_files s)\<rparr>"
      have "set (bt_put ?k r (sn_files s)) = insert (?k, r) (set (sn_files s))"
        using wf c [THEN iffD1, OF True] by (intro set_bt_put_fresh) (simp_all add: sn_wf_def)
      then have "facts ?s = facts s \<union> {FFile ?k r}" by (intro fact_set_eqI) auto
      then have "extends s {FFile ?k r} ?s"
        using wf by (simp add: extends_def sn_wf_def bt_wf_put)
      then show ?thesis using Ok False True c
        by (auto simp: adds_def add_file_def file_facts_def split: option.split)
    next
      case bad: False
      then show ?thesis using Ok False c
        by (auto simp: adds_def add_file_def file_facts_def split: option.split)
    qed
  qed
qed

lemma adds_accept:
  assumes wf: "sn_wf s"
  shows "adds s (accept s l) (listing_facts l)"
  unfolding accept_def listing_facts_def
proof (rule adds_try)
  show "adds s (try_fold (\<lambda>s folder. try_in (directory_version s (fo_folder folder) (fo_updated_at folder))
      (\<lambda>s. add_directory s (fo_folder folder))) s (dl_folders l))
    (all_facts (map (\<lambda>folder. note_facts (fo_folder folder) (fo_updated_at folder)) (dl_folders l)))"
    by (rule adds_fold [OF adds_note wf])
  show "adds s' (try_fold add_file s' (dl_files l)) (all_facts (map file_facts (dl_files l)))"
    if "extends s L s'" for L s'
    by (rule adds_fold [OF adds_file]) (use that in \<open>auto simp: extends_def\<close>)
qed

text \<open>A wellformed snapshot is determined by its facts, queue, roots and policy.\<close>

lemma snapshot_eqI:
  assumes "sn_wf a" and "sn_wf b" and "facts a = facts b"
    and "sn_queue a = sn_queue b" and "sn_roots a = sn_roots b" and "sn_policy a = sn_policy b"
  shows "a = b"
proof -
  have "set (sn_directories a) = set (sn_directories b)" using assms(3) facts_mem(1) by blast
  then have "sn_directories a = sn_directories b"
    using assms(1,2) by (simp add: sn_wf_def sorted_distinct_set_unique)
  moreover have "x \<in> set (sn_files a) \<longleftrightarrow> x \<in> set (sn_files b)" for x
    using assms(3) facts_mem(2) by (metis surj_pair)
  then have "sn_files a = sn_files b" using assms(1,2) by (simp add: sn_wf_def bt_canonical set_eq_iff)
  moreover have "x \<in> set (sn_directory_versions a) \<longleftrightarrow> x \<in> set (sn_directory_versions b)" for x
    using assms(3) facts_mem(3) by (metis surj_pair)
  then have "sn_directory_versions a = sn_directory_versions b"
    using assms(1,2) by (simp add: sn_wf_def bt_canonical set_eq_iff)
  ultimately show ?thesis using assms(4-6) by simp
qed

section \<open>Lemmas: the scan\<close>

definition directory_facts ::
  "(string option \<Rightarrow> (directory_listing, cli_error) result) \<Rightarrow> string \<Rightarrow> fact set option" where
  "directory_facts reader d =
     (case reader (Some d) of Err _ \<Rightarrow> None | Ok l \<Rightarrow> listing_facts l)"

text \<open>\<open>D\<close> are the directories read so far.\<close>

definition scanning ::
  "(string option \<Rightarrow> (directory_listing, cli_error) result) \<Rightarrow> snapshot \<Rightarrow> string set \<Rightarrow> snapshot \<Rightarrow>
   string list \<Rightarrow> bool" where
  "scanning reader s0 D s pending \<longleftrightarrow> sn_wf s
     \<and> distinct (pending @ sn_queue s) \<and> set (pending @ sn_queue s) \<inter> D = {}
     \<and> set (sn_directories s) = D \<union> set (pending @ sn_queue s)
     \<and> (\<forall>d \<in> D. directory_facts reader d \<noteq> None)
     \<and> facts s = facts s0 \<union> (\<Union>d \<in> D. the (directory_facts reader d))
     \<and> sn_roots s = sn_roots s0 \<and> sn_policy s = sn_policy s0"

definition closed_facts ::
  "(string option \<Rightarrow> (directory_listing, cli_error) result) \<Rightarrow> fact set \<Rightarrow> fact set \<Rightarrow> bool" where
  "closed_facts reader F0 F \<longleftrightarrow> F0 \<subseteq> F \<and> consistent F
     \<and> (\<forall>d. FDir d \<in> F \<longrightarrow> (\<exists>L. directory_facts reader d = Some L \<and> L \<subseteq> F))"

lemma scanning_fill:
  assumes "scanning reader s0 D s pending" and "fill c pending (sn_queue s) = (p, q)"
  shows "scanning reader s0 D (s\<lparr>sn_queue := q\<rparr>) p"
proof -
  have "p @ q = pending @ sn_queue s" by (rule fill_append [OF assms(2)])
  moreover have "facts (s\<lparr>sn_queue := q\<rparr>) = facts s" by (simp add: facts_def)
  ultimately show ?thesis using assms(1)
    by (simp add: scanning_def sn_wf_def del: set_append distinct_append)
qed

lemma scanning_step:
  assumes sc: "scanning reader s0 D s pending" and i: "i < length pending"
  shows "case try_in (reader (Some (pending ! i))) (accept s) of
      Ok s' \<Rightarrow> scanning reader s0 (insert (pending ! i) D) s' (remove_at i pending)
        \<and> (\<exists>L. directory_facts reader (pending ! i) = Some L \<and> facts s' = facts s \<union> L)
    | Err _ \<Rightarrow> \<not> (\<exists>L. directory_facts reader (pending ! i) = Some L \<and> consistent (facts s \<union> L))"
proof -
  let ?d = "pending ! i"
  have wf: "sn_wf s" using sc by (simp add: scanning_def)
  show ?thesis
  proof (cases "reader (Some ?d)")
    case (Err e)
    then show ?thesis by (simp add: directory_facts_def)
  next
    case (Ok l)
    note acc = adds_accept [OF wf, of l]
    show ?thesis
    proof (cases "accept s l")
      case (Err e)
      then show ?thesis using acc Ok
        by (auto simp: adds_def directory_facts_def split: option.splits if_splits)
    next
      case s': (Ok s')
      then obtain L where L: "listing_facts l = Some L" and ext: "extends s L s'"
        using acc by (auto simp: adds_def split: option.splits if_splits)
      obtain new where q: "sn_queue s' = sn_queue s @ new" and dn: "distinct new"
        and sn: "set new = set (sn_directories s') - set (sn_directories s)"
        using ext by (auto simp: extends_def)
      have f: "facts s' = facts s \<union> L" using ext by (simp add: extends_def)
      have sub: "set (sn_directories s) \<subseteq> set (sn_directories s')"
        using f by (auto simp flip: facts_mem)
      have dp: "distinct pending" using sc by (simp add: scanning_def)
      have mem: "?d \<in> set pending" using i by simp
      have df: "directory_facts reader ?d = Some L" using Ok L by (simp add: directory_facts_def)
      have dirs: "set (sn_directories s) = D \<union> set pending \<union> set (sn_queue s)"
        and disj: "(set pending \<union> set (sn_queue s)) \<inter> D = {}"
        and dis: "set pending \<inter> set (sn_queue s) = {}" "distinct (sn_queue s)"
        using sc by (auto simp: scanning_def)
      have "distinct (remove_at i pending @ sn_queue s')"
        using remove_at_distinct [OF dp i] dis dn sn dirs q by auto
      moreover have "set (remove_at i pending @ sn_queue s') \<inter> insert ?d D = {}"
        using remove_at_distinct [OF dp i] dis disj sn dirs q mem by auto
      moreover have "set (sn_directories s') = insert ?d D \<union> set (remove_at i pending @ sn_queue s')"
        using remove_at_distinct [OF dp i] sn dirs q mem sub by auto
      moreover have "facts s' = facts s0 \<union> (\<Union>d \<in> insert ?d D. the (directory_facts reader d))"
        using sc f df by (auto simp: scanning_def)
      ultimately have "scanning reader s0 (insert ?d D) s' (remove_at i pending)"
        using sc ext df by (simp add: scanning_def extends_def)
      then show ?thesis using Ok s' df f by simp
    qed
  qed
qed

lemma scan_loop_sound:
  "scan_loop reader c schedule s pending = Some (Ok s') \<Longrightarrow> scanning reader s0 D s pending \<Longrightarrow> 0 < c \<Longrightarrow>
   \<exists>D'. scanning reader s0 D' s' [] \<and> sn_queue s' = []"
proof (induction schedule arbitrary: s pending D)
  case Nil
  obtain p q where pq: "fill c pending (sn_queue s) = (p, q)" by (cases "fill c pending (sn_queue s)")
  have p: "p = []" and s': "s' = s\<lparr>sn_queue := q\<rparr>"
    using Nil.prems(1) pq by (auto simp: scan_loop.simps [of _ _ "[]"] Let_def split: if_splits)
  have "q = []" using fill_empty pq p Nil.prems(3) by blast
  then show ?case using scanning_fill [OF Nil.prems(2) pq] s' p by auto
next
  case (Cons choice rest)
  obtain p q where pq: "fill c pending (sn_queue s) = (p, q)" by (cases "fill c pending (sn_queue s)")
  let ?s = "s\<lparr>sn_queue := q\<rparr>"
  have sc: "scanning reader s0 D ?s p" by (rule scanning_fill [OF Cons.prems(2) pq])
  show ?case
  proof (cases "p = []")
    case True
    then have "s' = ?s" using Cons.prems(1) pq by (simp add: scan_loop.simps)
    moreover have "q = []" using fill_empty pq True Cons.prems(3) by blast
    ultimately show ?thesis using sc True by auto
  next
    case False
    let ?i = "choice mod length p"
    have i: "?i < length p" using False by simp
    have run: "(case try_in (reader (Some (p ! ?i))) (accept ?s) of
        Err e \<Rightarrow> Some (Err e) | Ok s2 \<Rightarrow> scan_loop reader c rest s2 (remove_at ?i p)) = Some (Ok s')"
      using Cons.prems(1) pq False by (simp add: scan_loop.simps Let_def)
    then obtain s2 where s2: "try_in (reader (Some (p ! ?i))) (accept ?s) = Ok s2"
      and rest: "scan_loop reader c rest s2 (remove_at ?i p) = Some (Ok s')"
      by (auto split: result.splits)
    have "scanning reader s0 (insert (p ! ?i) D) s2 (remove_at ?i p)"
      using scanning_step [OF sc i] s2 by simp
    then show ?thesis using Cons.IH [OF rest] Cons.prems(3) by blast
  qed
qed

lemma scanning_closed:
  assumes "scanning reader s0 D s []" and "sn_queue s = []"
  shows "closed_facts reader (facts s0) (facts s)"
proof -
  have wf: "sn_wf s" and dirs: "set (sn_directories s) = D"
    and all: "\<And>d. d \<in> D \<Longrightarrow> directory_facts reader d \<noteq> None"
    and f: "facts s = facts s0 \<union> (\<Union>d \<in> D. the (directory_facts reader d))"
    using assms by (auto simp: scanning_def)
  have "\<exists>L. directory_facts reader d = Some L \<and> L \<subseteq> facts s" if "FDir d \<in> facts s" for d
  proof -
    have d: "d \<in> D" using that dirs by simp
    then obtain L where L: "directory_facts reader d = Some L" using all by blast
    have "the (directory_facts reader d) \<subseteq> facts s" unfolding f using d by blast
    then show ?thesis using L by simp
  qed
  moreover have "facts s0 \<subseteq> facts s" unfolding f by blast
  ultimately show ?thesis using consistent_facts [OF wf] by (simp add: closed_facts_def)
qed

text \<open>A run within a closed set of facts never fails and never leaves it.\<close>

lemma scan_loop_within:
  "scanning reader s0 D s pending \<Longrightarrow> closed_facts reader (facts s0) F \<Longrightarrow> facts s \<subseteq> F \<Longrightarrow> 0 < c \<Longrightarrow>
   finite D \<Longrightarrow> finite {d. FDir d \<in> F} \<Longrightarrow>
   (case scan_loop reader c schedule s pending of
      None \<Rightarrow> length schedule + card D < card {d. FDir d \<in> F}
    | Some (Err _) \<Rightarrow> False
    | Some (Ok s') \<Rightarrow> facts s' \<subseteq> F)"
proof (induction schedule arbitrary: s pending D)
  case Nil
  obtain p q where pq: "fill c pending (sn_queue s) = (p, q)" by (cases "fill c pending (sn_queue s)")
  have sc: "scanning reader s0 D (s\<lparr>sn_queue := q\<rparr>) p" by (rule scanning_fill [OF Nil.prems(1) pq])
  have f: "facts (s\<lparr>sn_queue := q\<rparr>) = facts s" by (simp add: facts_def)
  show ?case
  proof (cases "p = []")
    case True
    then show ?thesis using pq f Nil.prems(3) by (simp add: scan_loop.simps [of _ _ "[]"] Let_def)
  next
    case False
    have dirs: "set (sn_directories s) = D \<union> set p \<union> set q" and disj: "set p \<inter> D = {}"
      using sc by (auto simp: scanning_def)
    have "set (sn_directories s) \<subseteq> {d. FDir d \<in> F}" using Nil.prems(3) facts_mem(1) by blast
    moreover have "hd p \<in> set p" using False by simp
    ultimately have "D \<subset> {d. FDir d \<in> F}" using dirs disj by blast
    then have "card D < card {d. FDir d \<in> F}" using Nil.prems(6) psubset_card_mono by blast
    then show ?thesis using pq False by (simp add: scan_loop.simps [of _ _ "[]"] Let_def)
  qed
next
  case (Cons choice rest)
  obtain p q where pq: "fill c pending (sn_queue s) = (p, q)" by (cases "fill c pending (sn_queue s)")
  let ?s = "s\<lparr>sn_queue := q\<rparr>"
  have sc: "scanning reader s0 D ?s p" by (rule scanning_fill [OF Cons.prems(1) pq])
  have f: "facts ?s = facts s" by (simp add: facts_def)
  show ?case
  proof (cases "p = []")
    case True
    then show ?thesis using pq f Cons.prems(3) by (simp add: scan_loop.simps [of _ _ "choice # rest"] Let_def)
  next
    case False
    let ?i = "choice mod length p"
    let ?d = "p ! ?i"
    have i: "?i < length p" using False by simp
    then have mem: "?d \<in> set p" by simp
    have dirs: "set (sn_directories s) = D \<union> set p \<union> set q" and disj: "set p \<inter> D = {}"
      using sc by (auto simp: scanning_def)
    then have "FDir ?d \<in> facts s" using mem by simp
    then have "FDir ?d \<in> F" using Cons.prems(3) by blast
    then obtain L where L: "directory_facts reader ?d = Some L" "L \<subseteq> F"
      using Cons.prems(2) by (auto simp: closed_facts_def)
    have "consistent (facts ?s \<union> L)"
      using consistent_mono [of F "facts ?s \<union> L"] Cons.prems(2,3) L(2) f by (auto simp: closed_facts_def)
    then obtain s2 where s2: "try_in (reader (Some ?d)) (accept ?s) = Ok s2"
      using scanning_step [OF sc i] L(1) by (cases "try_in (reader (Some ?d)) (accept ?s)") auto
    have sc2: "scanning reader s0 (insert ?d D) s2 (remove_at ?i p)" and f2: "facts s2 = facts ?s \<union> L"
      using scanning_step [OF sc i] s2 L(1) by auto
    have "?d \<notin> D" using disj mem by blast
    then have card: "card (insert ?d D) = Suc (card D)" using Cons.prems(5) by simp
    have step: "scan_loop reader c (choice # rest) s pending = scan_loop reader c rest s2 (remove_at ?i p)"
      using pq False s2 by (simp add: scan_loop.simps [of _ _ "choice # rest"] Let_def)
    have "facts s2 \<subseteq> F" using f2 f L(2) Cons.prems(3) by simp
    then show ?thesis
      using Cons.IH [OF sc2 Cons.prems(2) _ Cons.prems(4) _ Cons.prems(6)] Cons.prems(5) card
      unfolding step by (simp split: option.splits result.splits)
  qed
qed

text \<open>A snapshot whose queue is all its directories, as the selection of roots leaves it.\<close>

definition fresh_snapshot :: "snapshot \<Rightarrow> bool" where
  "fresh_snapshot s \<longleftrightarrow> sn_wf s \<and> distinct (sn_queue s) \<and> set (sn_queue s) = set (sn_directories s)"

lemma fresh_scanning: "fresh_snapshot s \<Longrightarrow> scanning reader s {} s []"
  by (auto simp: fresh_snapshot_def scanning_def)

lemma scan_deterministic:
  assumes fresh: "fresh_snapshot s" and c: "0 < c" "0 < c'"
    and run: "scan_directories reader c schedule s = Some (Ok sA)"
    and long: "length (sn_directories sA) \<le> length schedule'"
  shows "scan_directories reader c' schedule' s = Some (Ok sA)"
proof -
  note start = fresh_scanning [OF fresh]
  obtain DA where A: "scanning reader s DA sA []" "sn_queue sA = []"
    using scan_loop_sound [OF run [unfolded scan_directories_def] start c(1)] by blast
  have cA: "closed_facts reader (facts s) (facts sA)" by (rule scanning_closed [OF A])
  have fin: "finite {d. FDir d \<in> facts sA}" by simp
  have card: "card {d. FDir d \<in> facts sA} \<le> length schedule'"
    using long card_length [of "sn_directories sA"] by simp
  have "facts s \<subseteq> facts sA" using cA by (simp add: closed_facts_def)
  from scan_loop_within [OF start cA this c(2) _ fin, of schedule']
  obtain sB where B: "scan_loop reader c' schedule' s [] = Some (Ok sB)" and BA: "facts sB \<subseteq> facts sA"
    using card by (auto split: option.splits result.splits)
  obtain DB where B': "scanning reader s DB sB []" "sn_queue sB = []"
    using scan_loop_sound [OF B start c(2)] by blast
  have cB: "closed_facts reader (facts s) (facts sB)" by (rule scanning_closed [OF B'])
  have finB: "finite {d. FDir d \<in> facts sB}" by simp
  have "facts s \<subseteq> facts sB" using cB by (simp add: closed_facts_def)
  from scan_loop_within [OF start cB this c(1) _ finB, of schedule]
  have "facts sA \<subseteq> facts sB" using run by (simp add: scan_directories_def)
  then have "sB = sA"
    using BA A B' by (intro snapshot_eqI) (auto simp: scanning_def)
  then show ?thesis using B by (simp add: scan_directories_def)
qed

lemma fresh_extends: "fresh_snapshot s \<Longrightarrow> extends s L s' \<Longrightarrow> fresh_snapshot s'"
proof -
  assume fr: "fresh_snapshot s" and ex: "extends s L s'"
  obtain new where q: "sn_queue s' = sn_queue s @ new" and d: "distinct new"
    and n: "set new = set (sn_directories s') - set (sn_directories s)"
    using ex by (auto simp: extends_def)
  have "facts s \<subseteq> facts s'" using ex by (simp add: extends_def)
  then have sub: "set (sn_directories s) \<subseteq> set (sn_directories s')" using facts_mem(1) by blast
  have "distinct (sn_queue s @ new)" using fr d n by (auto simp: fresh_snapshot_def)
  moreover have "set (sn_queue s @ new) = set (sn_directories s')"
    using fr n sub by (auto simp: fresh_snapshot_def)
  ultimately show ?thesis using ex q by (simp add: fresh_snapshot_def extends_def)
qed

lemma fresh_adds: "fresh_snapshot s \<Longrightarrow> adds s r F \<Longrightarrow> r = Ok s' \<Longrightarrow> fresh_snapshot s'"
  using fresh_extends by (fastforce simp: adds_def split: option.splits if_splits)

lemma fresh_wf: "fresh_snapshot s \<Longrightarrow> sn_wf s"
  by (simp add: fresh_snapshot_def)

lemma fresh_default: "fresh_snapshot (default_snapshot policy)"
  by (simp add: fresh_snapshot_def default_snapshot_def sn_wf_def bt_wf_def)

lemma fresh_roots [simp]:
  "fresh_snapshot (s\<lparr>sn_roots := roots\<rparr>) = fresh_snapshot s"
  "fresh_snapshot (s\<lparr>sn_roots := roots, sn_policy := policy\<rparr>) = fresh_snapshot s"
  by (simp_all add: fresh_snapshot_def sn_wf_def)

lemmas fresh_intros = fresh_adds [OF _ adds_accept [OF fresh_wf]] fresh_adds [OF _ adds_file [OF fresh_wf]]
  fresh_adds [OF _ adds_directory [OF fresh_wf]]

lemma fresh_space_root: "select_space_root s r = Ok s' \<Longrightarrow> fresh_snapshot s \<Longrightarrow> fresh_snapshot s'"
  by (auto simp: select_space_root_def split: if_splits)

lemma fresh_path: "select_path get_file s path = Ok s' \<Longrightarrow> fresh_snapshot s \<Longrightarrow> fresh_snapshot s'"
  by (auto simp: select_path_def try_in_Ok_iff Let_def split: if_splits
      intro: fresh_intros(2) [of "s\<lparr>sn_roots := sn_roots s @ [path]\<rparr>"]
        fresh_intros(3) [of "s\<lparr>sn_roots := sn_roots s @ [path]\<rparr>"])

lemma fresh_declared:
  assumes "select_declared_roots s roots = Ok s'" and "fresh_snapshot s"
  shows "fresh_snapshot s'"
proof (cases "roots = None \<or> roots = Some []")
  case True
  then show ?thesis using assms by (auto simp: select_declared_roots_def)
next
  case False
  then obtain rs where rs: "roots = Some rs" "rs \<noteq> []" by (cases roots) auto
  have run: "try_fold (\<lambda>s root. try_in (validate_relative (trim_end_of slash root)) (\<lambda>_.
      if ends_with ''/'' root then add_directory s root else Ok s)) (s\<lparr>sn_roots := rs\<rparr>) rs = Ok s'"
    using assms(1) rs by (simp add: select_declared_roots_def)
  show ?thesis
    by (rule try_fold_invariant [OF run, where I = fresh_snapshot])
       (use assms(2) in \<open>auto simp: try_in_Ok_iff split: if_splits intro: fresh_intros(3)\<close>)
qed

lemma fresh_infer: "fresh_snapshot s \<Longrightarrow> fresh_snapshot (infer_roots s)"
  by (simp add: infer_roots_def Let_def)

lemma fresh_roots_selection:
  assumes "select_roots reader sb sa s roots r = Ok s'" and "fresh_snapshot s"
  shows "fresh_snapshot s'"
proof -
  obtain s1 l s2 s3 where
    s1: "(if sb then select_space_root s r else Ok s) = Ok s1" and
    s2: "(if sa then select_space_root s1 r else select_declared_roots s1 roots) = Ok s2" and
    s3: "accept s2 l = Ok s3" and s': "s' = infer_roots s3"
    using assms(1) unfolding select_roots_def try_in_Ok_iff by auto
  have "fresh_snapshot s1" using s1 assms(2) fresh_space_root by (auto split: if_splits)
  then have "fresh_snapshot s2" using s2 fresh_space_root fresh_declared by (auto split: if_splits)
  then have "fresh_snapshot s3" using s3 fresh_intros(1) by blast
  then show ?thesis using s' fresh_infer by blast
qed

lemma fresh_select:
  assumes "select reader get_file sb sa options roots = Ok s"
  shows "fresh_snapshot s"
proof (cases "so_selection options")
  case None
  then show ?thesis using assms fresh_roots_selection fresh_default
    by (auto simp: select_def)
next
  case (Some path)
  show ?thesis
  proof (cases "path = ''/''")
    case True
    then obtain s1 l where "select_space_root (default_snapshot (so_policy options)) (so_is_recursive options) = Ok s1"
      and "accept s1 l = Ok s"
      using assms Some by (auto simp: select_def try_in_Ok_iff)
    then show ?thesis using fresh_space_root fresh_default fresh_intros(1) by blast
  next
    case False
    then show ?thesis using assms Some fresh_path fresh_default by (auto simp: select_def)
  qed
qed

section \<open>Properties\<close>

text \<open>
  C35: a directory read never truncates, loops or leaves its scope silently. For every service,
  reading a directory ends, and it succeeds with a listing exactly when the service serves a
  chain of pages, each requested with the marker of the one before, that ends with an
  untruncated page, whose markers are wellformed and pairwise distinct, and whose paths are
  all in scope; the listing is then the concatenation of these pages.
\<close>

theorem read_directory_complete:
  "read_directory service prefix st = (Ok listing, st') \<longleftrightarrow>
     (\<exists>pages. page_chain service prefix None st pages st' \<and> chain_ok prefix pages []
        \<and> listing = add_pages empty_listing pages)"
proof
  assume "read_directory service prefix st = (Ok listing, st')"
  then show "\<exists>pages. page_chain service prefix None st pages st' \<and> chain_ok prefix pages []
      \<and> listing = add_pages empty_listing pages"
    unfolding read_directory_def by (rule read_pages_sound)
next
  assume "\<exists>pages. page_chain service prefix None st pages st' \<and> chain_ok prefix pages []
      \<and> listing = add_pages empty_listing pages"
  then show "read_directory service prefix st = (Ok listing, st')"
    unfolding read_directory_def using read_pages_complete by metis
qed

text \<open>
  C28: the scan is complete. After a successful scan of a selection, every directory of the
  snapshot was read successfully and everything its listing states (files, subdirectories
  and versions, all wellformed) is in the snapshot, which contradicts nothing it was told.
\<close>

theorem scan_complete:
  assumes "select reader get_file space_before space_after options roots = Ok s"
    and "scan_directories reader concurrency schedule s = Some (Ok s')" and "0 < concurrency"
  shows "facts s \<subseteq> facts s' \<and> consistent (facts s')
    \<and> list_all (\<lambda>d. case directory_facts reader d of None \<Rightarrow> False | Some L \<Rightarrow> L \<subseteq> facts s')
        (sn_directories s')"
proof -
  obtain D where "scanning reader s D s' []" "sn_queue s' = []"
    using scan_loop_sound [OF assms(2) [unfolded scan_directories_def]
        fresh_scanning [OF fresh_select [OF assms(1)]] assms(3)] by blast
  then have "closed_facts reader (facts s) (facts s')" by (rule scanning_closed)
  then have sub: "facts s \<subseteq> facts s'" and con: "consistent (facts s')"
    and all: "\<And>d. FDir d \<in> facts s' \<Longrightarrow> \<exists>L. directory_facts reader d = Some L \<and> L \<subseteq> facts s'"
    by (auto simp: closed_facts_def)
  have "case directory_facts reader d of None \<Rightarrow> False | Some L \<Rightarrow> L \<subseteq> facts s'"
    if "d \<in> set (sn_directories s')" for d
  proof -
    obtain L where "directory_facts reader d = Some L" "L \<subseteq> facts s'"
      using all [of d] \<open>d \<in> set (sn_directories s')\<close> by (auto simp only: facts_mem)
    then show ?thesis by simp
  qed
  then show ?thesis using sub con by (simp add: list_all_iff)
qed

text \<open>A share with one folder and one file, for the witnesses.\<close>

definition demo_reader :: "string option \<Rightarrow> (directory_listing, cli_error) result" where
  "demo_reader prefix =
     (if prefix = None then Ok \<lparr>dl_files = [], dl_folders = [\<lparr>fo_folder = ''d/'', fo_updated_at = 1\<rparr>]\<rparr>
      else if prefix = Some ''d/''
      then Ok \<lparr>dl_files = [plain_file ''d/a'' [] 3 ''e''], dl_folders = []\<rparr>
      else Err (invalid ''no such directory''))"

definition demo_options :: scan_options where
  "demo_options = \<lparr>so_selection = None, so_is_recursive = True, so_concurrency = 1,
     so_policy = Cp True None None\<rparr>"

definition demo_get_file :: "string \<Rightarrow> (file_info, client_error) result" where
  "demo_get_file path = Ok (plain_file path [] 0 [])"

theorem scan_complete_witness:
  "\<exists>s s'. scan_directories demo_reader 2 [5] s = Some (Ok s') \<and> facts s \<subseteq> facts s'"
proof -
  have "is_ok (select demo_reader demo_get_file False False demo_options None)" by code_simp
  then obtain s where s: "select demo_reader demo_get_file False False demo_options None = Ok s"
    by (auto simp: is_ok_iff)
  have "(case select demo_reader demo_get_file False False demo_options None of
      Err _ \<Rightarrow> False
    | Ok s \<Rightarrow> (case scan_directories demo_reader 2 [5] s of Some r \<Rightarrow> is_ok r | None \<Rightarrow> False))" by code_simp
  then obtain s' where s': "scan_directories demo_reader 2 [5] s = Some (Ok s')"
    using s by (auto simp: is_ok_iff split: option.splits)
  then show ?thesis using scan_complete [OF s s'] by auto
qed

text \<open>
  C18: the manifest does not depend on timing. If the enumeration of an unchanged share
  succeeds under one concurrency limit and one order of completion, then under every limit
  and every order it succeeds with the same manifest, after a bounded number of reads.
\<close>

theorem enumeration_schedule_independent:
  assumes "enumerate_share fold_path reader get_file space_before space_after schedule options roots
    = Some (Ok m)"
  shows "\<exists>n. \<forall>concurrency schedule'. 0 < concurrency \<longrightarrow> n \<le> length schedule' \<longrightarrow>
    enumerate_share fold_path reader get_file space_before space_after schedule'
      (options\<lparr>so_concurrency := concurrency\<rparr>) roots = Some (Ok m)"
proof -
  have c: "0 < so_concurrency options" using assms by (auto simp: enumerate_share_def split: if_splits)
  obtain s where s: "select reader get_file space_before space_after options roots = Ok s"
    and rec: "sn_directories s = [] \<or> so_is_recursive options"
    using assms by (auto simp: enumerate_share_def split: if_splits result.splits)
  obtain r where r: "scan_directories reader (so_concurrency options) schedule s = Some r"
    and m: "try_in r (finish fold_path) = Ok m"
    using assms c s rec by (auto simp: enumerate_share_def split: if_splits)
  obtain sA where rA: "r = Ok sA" using m by (cases r) auto
  have same: "select reader get_file space_before space_after (options\<lparr>so_concurrency := k\<rparr>) roots = Ok s" for k
    using s by (simp add: select_def cong: if_cong option.case_cong)
  have "enumerate_share fold_path reader get_file space_before space_after schedule'
      (options\<lparr>so_concurrency := k\<rparr>) roots = Some (Ok m)"
    if "0 < k" and "length (sn_directories sA) \<le> length schedule'" for k schedule'
    using scan_deterministic [OF fresh_select [OF s] c that(1) _ that(2)] r rA m same rec that(1)
    by (auto simp: enumerate_share_def)
  then show ?thesis by blast
qed

theorem enumeration_schedule_independent_witness:
  "\<exists>m n. \<forall>concurrency schedule'. 0 < concurrency \<longrightarrow> n \<le> length schedule' \<longrightarrow>
     enumerate_share to_ascii_uppercase demo_reader demo_get_file False False schedule'
       (demo_options\<lparr>so_concurrency := concurrency\<rparr>) None = Some (Ok m)"
proof -
  have "(case enumerate_share to_ascii_uppercase demo_reader demo_get_file False False [0] demo_options None of
      Some r \<Rightarrow> is_ok r | None \<Rightarrow> False)" by code_simp
  then obtain m where "enumerate_share to_ascii_uppercase demo_reader demo_get_file False False [0]
      demo_options None = Some (Ok m)" by (auto simp: is_ok_iff split: option.splits)
  then show ?thesis using enumeration_schedule_independent by blast
qed

end
