(* ===== verification/Local_Store.thy ===== *)
theory Local_Store
  imports Share_Path
begin

text \<open>
  \<open>crates/adrive/src/handler/share_local.rs\<close>: descriptor-relative access to the
  destination of a share download. The local file system below a pinned root is a map from
  component paths to nodes, and a \<open>SafeDir\<close> is the component path of a directory; no
  operation follows a link. Native faults are chosen by the environment where a publication
  can be interrupted.
\<close>

section \<open>Nodes\<close>

datatype node = RegularFile string | Folder | Link | Special

type_synonym file_tree = "string list \<Rightarrow> node option"

type_synonym safe_dir = "string list"

definition path_conflict :: "string \<Rightarrow> io_error" where
  "path_conflict message =
     \<lparr>io_kind = IoAlreadyExists, io_text = ''[share_local_path_conflict] '' @ message\<rparr>"

definition native_not_found :: io_error where
  "native_not_found = \<lparr>io_kind = IoNotFound, io_text = ''No such file or directory (os error 2)''\<rparr>"

definition native_exists :: io_error where
  "native_exists = \<lparr>io_kind = IoAlreadyExists, io_text = ''File exists (os error 17)''\<rparr>"

definition native_is_directory :: io_error where
  "native_is_directory = \<lparr>io_kind = IoOther, io_text = ''Is a directory (os error 21)''\<rparr>"

definition unsafe_relative_path :: io_error where
  "unsafe_relative_path = \<lparr>io_kind = IoOther, io_text = ''unsafe relative path''\<rparr>"

section \<open>Directories\<close>

definition child ::
  "safe_dir \<Rightarrow> string \<Rightarrow> bool \<Rightarrow> file_tree \<Rightarrow> (safe_dir, io_error) result \<times> file_tree" where
  "child self name is_create fs =
     (case fs (self @ [name]) of
        Some Folder \<Rightarrow> (Ok (self @ [name]), fs)
      | Some _ \<Rightarrow>
          (Err (path_conflict ''destination component is a symlink or has an unexpected file type''), fs)
      | None \<Rightarrow>
          if is_create then (Ok (self @ [name]), fs(self @ [name] \<mapsto> Folder))
          else (Err native_not_found, fs))"

fun descend ::
  "safe_dir \<Rightarrow> string list \<Rightarrow> bool \<Rightarrow> file_tree \<Rightarrow> (safe_dir, io_error) result \<times> file_tree" where
  "descend current [] is_create fs = (Ok current, fs)"
| "descend current (component # rest) is_create fs =
     st_try (child current component is_create fs) (\<lambda>current fs. descend current rest is_create fs)"

definition safe_directory ::
  "safe_dir \<Rightarrow> string \<Rightarrow> bool \<Rightarrow> file_tree \<Rightarrow> (safe_dir, io_error) result \<times> file_tree" where
  "safe_directory self path is_create fs =
     (if \<not> valid_relative path then (Err unsafe_relative_path, fs)
      else descend self (split_on slash path) is_create fs)"

definition safe_parent ::
  "safe_dir \<Rightarrow> string \<Rightarrow> bool \<Rightarrow> file_tree \<Rightarrow> (safe_dir \<times> string, io_error) result \<times> file_tree" where
  "safe_parent self path is_create fs =
     (if \<not> valid_relative path then (Err unsafe_relative_path, fs)
      else case rsplit_once slash path of
             Some (parent, name) \<Rightarrow>
               st_try (safe_directory self parent is_create fs) (\<lambda>dir fs. (Ok (dir, name), fs))
           | None \<Rightarrow> (Ok (self, path), fs))"

section \<open>Leaves\<close>

definition ordinary :: "safe_dir \<Rightarrow> string \<Rightarrow> file_tree \<Rightarrow> (bool, io_error) result" where
  "ordinary self name fs =
     (case fs (self @ [name]) of
        Some (RegularFile _) \<Rightarrow> Ok True
      | Some _ \<Rightarrow> Err (path_conflict ''destination is not an ordinary file'')
      | None \<Rightarrow> Ok False)"

definition read_leaf :: "safe_dir \<Rightarrow> string \<Rightarrow> file_tree \<Rightarrow> (string, io_error) result" where
  "read_leaf self name fs =
     try_in (ordinary self name fs) (\<lambda>_.
       case fs (self @ [name]) of
         Some (RegularFile bytes) \<Rightarrow> Ok bytes
       | Some _ \<Rightarrow> Err (path_conflict ''destination is not an ordinary file'')
       | None \<Rightarrow> Err native_not_found)"

definition exclusive :: "safe_dir \<Rightarrow> string \<Rightarrow> file_tree \<Rightarrow> (unit, io_error) result \<times> file_tree" where
  "exclusive self name fs =
     (case fs (self @ [name]) of
        None \<Rightarrow> (Ok (), fs(self @ [name] \<mapsto> RegularFile []))
      | Some _ \<Rightarrow> (Err native_exists, fs))"

definition remove_leaf :: "safe_dir \<Rightarrow> string \<Rightarrow> file_tree \<Rightarrow> (unit, io_error) result \<times> file_tree" where
  "remove_leaf self name fs =
     (case fs (self @ [name]) of
        None \<Rightarrow> (Err native_not_found, fs)
      | Some Folder \<Rightarrow> (Err native_is_directory, fs)
      | Some _ \<Rightarrow> (Ok (), fs(self @ [name] := None)))"

text \<open>The system calls of a publication; the environment may fail one of them.\<close>

datatype publish_call = AtSync | AtRename | AtUnlink | AtFsync

record publish_env =
  pv_fault :: "(publish_call \<times> io_error) option"
  pv_cleanup :: bool

definition fault_at :: "publish_env \<Rightarrow> publish_call \<Rightarrow> io_error option" where
  "fault_at env call =
     (case pv_fault env of Some (c, e) \<Rightarrow> if c = call then Some e else None | None \<Rightarrow> None)"

definition calling ::
  "publish_env \<Rightarrow> publish_call \<Rightarrow> (unit, io_error) result \<times> file_tree \<Rightarrow> file_tree \<Rightarrow>
   (unit, io_error) result \<times> file_tree" where
  "calling env call effect fs =
     (case fault_at env call of Some e \<Rightarrow> (Err e, fs) | None \<Rightarrow> effect)"

definition rename_leaf ::
  "safe_dir \<Rightarrow> string \<Rightarrow> string \<Rightarrow> file_tree \<Rightarrow> (unit, io_error) result \<times> file_tree" where
  "rename_leaf self source target fs =
     (case fs (self @ [source]) of
        None \<Rightarrow> (Err native_not_found, fs)
      | Some n \<Rightarrow> if source = target then (Ok (), fs)
                  else (Ok (), fs(self @ [target] \<mapsto> n, self @ [source] := None)))"

definition link_leaf ::
  "safe_dir \<Rightarrow> string \<Rightarrow> string \<Rightarrow> file_tree \<Rightarrow> (unit, io_error) result \<times> file_tree" where
  "link_leaf self source target fs =
     (case (fs (self @ [source]), fs (self @ [target])) of
        (None, _) \<Rightarrow> (Err native_not_found, fs)
      | (_, Some _) \<Rightarrow> (Err native_exists, fs)
      | (Some n, None) \<Rightarrow> (Ok (), fs(self @ [target] \<mapsto> n)))"

definition replace_leaf ::
  "publish_env \<Rightarrow> safe_dir \<Rightarrow> string \<Rightarrow> string \<Rightarrow> bool \<Rightarrow> file_tree \<Rightarrow>
   (unit, io_error) result \<times> file_tree" where
  "replace_leaf env self source target is_overwrite fs =
     st_try (ordinary self target fs, fs) (\<lambda>_ fs.
     st_try (if is_overwrite then calling env AtRename (rename_leaf self source target fs) fs
             else st_try (calling env AtRename (link_leaf self source target fs) fs) (\<lambda>_ fs.
                    calling env AtUnlink (remove_leaf self source fs) fs))
       (\<lambda>_ fs. calling env AtFsync (Ok (), fs) fs))"

section \<open>Staged files\<close>

record staged_file =
  sf_directory :: safe_dir
  sf_name :: string
  sf_target :: string

definition staged_key :: "staged_file \<Rightarrow> string list" where
  "staged_key st = sf_directory st @ [sf_name st]"

definition target_key :: "staged_file \<Rightarrow> string list" where
  "target_key st = sf_directory st @ [sf_target st]"

text \<open>\<open>StagedFile::new\<close>; the identifier of \<open>Ulid::new()\<close> is an argument.\<close>

definition staged_new ::
  "string \<Rightarrow> safe_dir \<Rightarrow> string \<Rightarrow> file_tree \<Rightarrow> (staged_file, io_error) result \<times> file_tree" where
  "staged_new ulid dir path fs =
     st_try (safe_parent dir path True fs) (\<lambda>(parent, target) fs.
       let name = ''.adrive-share-'' @ ulid @ ''.partial''
       in st_try (exclusive parent name fs) (\<lambda>_ fs.
            (Ok \<lparr>sf_directory = parent, sf_name = name, sf_target = target\<rparr>, fs)))"

text \<open>\<open>Drop\<close>: the cleanup is best effort, and does not happen at all when the process dies.\<close>

definition drop_staged :: "bool \<Rightarrow> staged_file \<Rightarrow> file_tree \<Rightarrow> file_tree" where
  "drop_staged is_cleaned st fs =
     (if is_cleaned then snd (remove_leaf (sf_directory st) (sf_name st) fs) else fs)"

definition publish ::
  "publish_env \<Rightarrow> staged_file \<Rightarrow> bool \<Rightarrow> file_tree \<Rightarrow> (unit, io_error) result \<times> file_tree" where
  "publish env st is_overwrite fs =
     (case st_try (calling env AtSync (Ok (), fs) fs) (\<lambda>_ fs.
             replace_leaf env (sf_directory st) (sf_name st) (sf_target st) is_overwrite fs) of
        (Ok _, fs) \<Rightarrow> (Ok (), fs)
      | (Err e, fs) \<Rightarrow> (Err e, drop_staged (pv_cleanup env) st fs))"

text \<open>A write through the open handle of a file.\<close>

definition update_file :: "string list \<Rightarrow> (string \<Rightarrow> string) \<Rightarrow> file_tree \<Rightarrow> file_tree" where
  "update_file key f fs =
     (case fs key of Some (RegularFile bytes) \<Rightarrow> fs(key \<mapsto> RegularFile (f bytes)) | _ \<Rightarrow> fs)"

section \<open>Lemmas: descending\<close>

definition grows :: "file_tree \<Rightarrow> file_tree \<Rightarrow> bool" where
  "grows fs fs' \<longleftrightarrow> (\<forall>k. fs k \<noteq> None \<longrightarrow> fs' k = fs k)"

lemma grows_refl [simp]: "grows fs fs"
  by (simp add: grows_def)

lemma grows_trans: "grows fs1 fs2 \<Longrightarrow> grows fs2 fs3 \<Longrightarrow> grows fs1 fs3"
  by (simp add: grows_def)

lemma grows_keep: "grows fs fs' \<Longrightarrow> fs k = Some n \<Longrightarrow> fs' k = Some n"
  by (simp add: grows_def)

lemma child_cases:
  assumes "child self name is_create fs = (r, fs')"
  shows "grows fs fs'" and "fs' = fs \<or> fs' = fs(self @ [name] \<mapsto> Folder)"
    and "r = Ok h \<Longrightarrow> h = self @ [name] \<and> fs' h = Some Folder"
    and "\<not> is_create \<Longrightarrow> fs' = fs"
  using assms by (auto simp: child_def grows_def split: option.splits node.splits if_splits)

lemma descend_grows: "descend self cs is_create fs = (r, fs') \<Longrightarrow> grows fs fs'"
proof (induction cs arbitrary: self fs)
  case Nil
  then show ?case by simp
next
  case (Cons c cs)
  obtain r1 fs1 where c: "child self c is_create fs = (r1, fs1)" by fastforce
  note g = child_cases(1) [OF c]
  show ?case
  proof (cases r1)
    case (Ok h)
    then show ?thesis using Cons.IH [of h fs1] Cons.prems c grows_trans [OF g] by simp
  next
    case (Err e)
    then show ?thesis using Cons.prems c g by simp
  qed
qed

lemma descend_new:
  assumes "descend self cs is_create fs = (r, fs')" and "fs' k \<noteq> fs k"
  shows "is_create \<and> fs' k = Some Folder \<and> (\<exists>n < length cs. k = self @ take (Suc n) cs)"
  using assms
proof (induction cs arbitrary: self fs)
  case Nil
  then show ?case by simp
next
  case (Cons c cs)
  obtain r1 fs1 where c: "child self c is_create fs = (r1, fs1)" by fastforce
  have first: "fs1 k \<noteq> fs k \<Longrightarrow> is_create \<and> fs1 k = Some Folder \<and> k = self @ [c]"
    using child_cases(2,4) [OF c] by (cases is_create) (auto split: if_splits)
  show ?case
  proof (cases r1)
    case (Ok h)
    then have h: "h = self @ [c]" and d: "descend h cs is_create fs1 = (r, fs')"
      using Cons.prems(1) c child_cases(3) [OF c] by auto
    show ?thesis
    proof (cases "fs1 k = fs k")
      case True
      then obtain n where "is_create" "fs' k = Some Folder" "n < length cs" "k = h @ take (Suc n) cs"
        using Cons.IH [OF d] Cons.prems(2) by auto
      then show ?thesis using h by (auto intro!: exI [of _ "Suc n"])
    next
      case False
      then have "fs' k = Some Folder" using first grows_keep [OF descend_grows [OF d]] by blast
      then show ?thesis using first [OF False] by auto
    qed
  next
    case (Err e)
    then show ?thesis using Cons.prems c first by auto
  qed
qed

lemma descend_Ok:
  assumes "descend self cs is_create fs = (Ok h, fs')"
  shows "h = self @ cs \<and> (\<forall>n < length cs. fs' (self @ take (Suc n) cs) = Some Folder)"
  using assms
proof (induction cs arbitrary: self fs)
  case Nil
  then show ?case by simp
next
  case (Cons c cs)
  obtain h1 fs1 where c1: "child self c is_create fs = (Ok h1, fs1)"
    and d1: "descend h1 cs is_create fs1 = (Ok h, fs')"
    using Cons.prems by (auto simp: st_try_Ok_iff)
  have "h1 = self @ [c]" using child_cases(3) [OF c1] by blast
  note c = c1 [unfolded this] and d = d1 [unfolded this]
  have "fs' (self @ [c]) = Some Folder"
    using child_cases(3) [OF c] grows_keep [OF descend_grows [OF d]] by blast
  then have "fs' (self @ take (Suc n) (c # cs)) = Some Folder" if "n < Suc (length cs)" for n
    using that Cons.IH [OF d] by (cases n) auto
  then show ?case using Cons.IH [OF d] by auto
qed

lemma valid_components:
  "valid_relative path \<Longrightarrow> list_all (\<lambda>c. c \<noteq> [] \<and> c \<noteq> ''.'' \<and> c \<noteq> ''..'') (split_on slash path)"
  unfolding list_all_iff
proof
  fix c assume "valid_relative path" and "c \<in> set (split_on slash path)"
  then have "\<not> unsafe_component c" by (rule valid_component)
  then show "c \<noteq> [] \<and> c \<noteq> ''.'' \<and> c \<noteq> ''..''" by (simp add: unsafe_component_def Let_def)
qed

section \<open>Lemmas: publication\<close>

lemma remove_leaf_other: "remove_leaf self name fs = (r, fs') \<Longrightarrow> k \<noteq> self @ [name] \<Longrightarrow> fs' k = fs k"
  by (auto simp: remove_leaf_def split: option.splits node.splits)

lemma drop_staged_other: "k \<noteq> staged_key st \<Longrightarrow> drop_staged c st fs k = fs k"
  by (auto simp: drop_staged_def staged_key_def split: prod.splits
      dest: remove_leaf_other [OF prod.collapse [symmetric]])

lemma replace_leaf_cases:
  assumes "fs (self @ [source]) = Some (RegularFile bytes)" and "source \<noteq> target"
    and "replace_leaf env self source target is_overwrite fs = (r, fs')"
  shows "k \<noteq> self @ [source] \<Longrightarrow> k \<noteq> self @ [target] \<Longrightarrow> fs' k = fs k"
    and "fs' (self @ [target]) = fs (self @ [target]) \<or> fs' (self @ [target]) = Some (RegularFile bytes)"
    and "is_ok r \<Longrightarrow> fs' (self @ [target]) = Some (RegularFile bytes) \<and> fs' (self @ [source]) = None"
    and "fs (self @ [target]) \<noteq> None \<Longrightarrow>
      \<not> is_overwrite \<or> (\<forall>b. fs (self @ [target]) \<noteq> Some (RegularFile b)) \<Longrightarrow>
      fs' = fs \<and> \<not> is_ok r"
  using assms
  by (auto simp: replace_leaf_def ordinary_def calling_def rename_leaf_def link_leaf_def
      remove_leaf_def split: option.splits node.splits if_splits)

lemma publish_iff:
  "publish env st is_overwrite fs =
     (case fault_at env AtSync of
        Some e \<Rightarrow> (Err e, drop_staged (pv_cleanup env) st fs)
      | None \<Rightarrow> (case replace_leaf env (sf_directory st) (sf_name st) (sf_target st) is_overwrite fs of
          (Ok _, fs) \<Rightarrow> (Ok (), fs)
        | (Err e, fs) \<Rightarrow> (Err e, drop_staged (pv_cleanup env) st fs)))"
  by (simp add: publish_def calling_def split: option.splits)

lemma publish_cases:
  assumes "fs (staged_key st) = Some (RegularFile bytes)" and "sf_name st \<noteq> sf_target st"
    and "publish env st is_overwrite fs = (r, fs')"
  shows "k \<noteq> staged_key st \<Longrightarrow> k \<noteq> target_key st \<Longrightarrow> fs' k = fs k"
    and "fs' (target_key st) = fs (target_key st) \<or> fs' (target_key st) = Some (RegularFile bytes)"
    and "is_ok r \<Longrightarrow> fs' (target_key st) = Some (RegularFile bytes) \<and> fs' (staged_key st) = None"
    and "fs (target_key st) \<noteq> None \<Longrightarrow>
      \<not> is_overwrite \<or> (\<forall>b. fs (target_key st) \<noteq> Some (RegularFile b)) \<Longrightarrow>
      fs' (target_key st) = fs (target_key st) \<and> \<not> is_ok r"
proof -
  obtain r1 fs1 where rep: "replace_leaf env (sf_directory st) (sf_name st) (sf_target st) is_overwrite fs = (r1, fs1)"
    by fastforce
  note c = replace_leaf_cases [OF assms(1) [unfolded staged_key_def] assms(2) rep, folded staged_key_def target_key_def]
  have ne: "target_key st \<noteq> staged_key st" using assms(2) by (simp add: target_key_def staged_key_def)
  note d = drop_staged_other
  show "k \<noteq> staged_key st \<Longrightarrow> k \<noteq> target_key st \<Longrightarrow> fs' k = fs k"
    using assms(3) c(1) d rep unfolding publish_iff
    by (auto split: option.splits result.splits)
  show "fs' (target_key st) = fs (target_key st) \<or> fs' (target_key st) = Some (RegularFile bytes)"
    using assms(3) c(2) d [OF ne] rep unfolding publish_iff
    by (auto split: option.splits result.splits)
  show "is_ok r \<Longrightarrow> fs' (target_key st) = Some (RegularFile bytes) \<and> fs' (staged_key st) = None"
    using assms(3) c(3) rep unfolding publish_iff
    by (auto split: option.splits result.splits)
  show "fs (target_key st) \<noteq> None \<Longrightarrow>
      \<not> is_overwrite \<or> (\<forall>b. fs (target_key st) \<noteq> Some (RegularFile b)) \<Longrightarrow>
      fs' (target_key st) = fs (target_key st) \<and> \<not> is_ok r"
    using assms(3) c(4) d [OF ne] rep unfolding publish_iff
    by (auto split: option.splits result.splits)
qed

lemma publish_other:
  assumes "publish env st is_overwrite fs = (r, fs')" and "k \<noteq> staged_key st" and "k \<noteq> target_key st"
  shows "fs' k = fs k"
proof -
  obtain r1 fs1 where rep: "replace_leaf env (sf_directory st) (sf_name st) (sf_target st) is_overwrite fs = (r1, fs1)"
    by fastforce
  have "fs1 k = fs k"
    using rep assms(2,3)
    by (auto simp: replace_leaf_def calling_def rename_leaf_def link_leaf_def remove_leaf_def staged_key_def
        target_key_def st_try_iff split: option.splits node.splits if_splits)
  then show ?thesis
    using assms rep drop_staged_other [OF assms(2)] unfolding publish_iff
    by (auto split: option.splits result.splits)
qed

section \<open>Properties\<close>

text \<open>
  C21: publication is atomic whatever system call fails. The target ends as it was or as exactly
  the staged bytes, success means the staged bytes are there and the temporary file is gone, an
  existing target is never replaced without the overwrite policy nor when it is a folder, link
  or special node, and no other entry of the tree changes.
\<close>

theorem publish_atomic:
  assumes "fs (staged_key st) = Some (RegularFile bytes)" and "sf_name st \<noteq> sf_target st"
    and "publish env st is_overwrite fs = (r, fs')"
  shows "(fs' (target_key st) = fs (target_key st) \<or> fs' (target_key st) = Some (RegularFile bytes))
    \<and> (is_ok r \<longrightarrow> fs' (target_key st) = Some (RegularFile bytes) \<and> fs' (staged_key st) = None)
    \<and> (fs (target_key st) \<noteq> None
        \<and> (\<not> is_overwrite \<or> (\<forall>b. fs (target_key st) \<noteq> Some (RegularFile b))) \<longrightarrow>
      fs' (target_key st) = fs (target_key st) \<and> \<not> is_ok r)
    \<and> (\<forall>k. k \<noteq> staged_key st \<and> k \<noteq> target_key st \<longrightarrow> fs' k = fs k)"
  using publish_cases [OF assms] by blast

theorem publish_atomic_witness:
  "let st = \<lparr>sf_directory = [''d''], sf_name = ''.tmp'', sf_target = ''f''\<rparr>;
       fs = (\<lambda>_. None)([''d'', ''.tmp''] \<mapsto> RegularFile ''new'', [''d'', ''f''] \<mapsto> RegularFile ''old'');
       fs' = snd (publish \<lparr>pv_fault = Some (AtFsync, native_exists), pv_cleanup = True\<rparr> st True fs)
   in fs' [''d'', ''f''] = fs [''d'', ''f''] \<or> fs' [''d'', ''f''] = Some (RegularFile ''new'')"
proof -
  let ?st = "\<lparr>sf_directory = [''d''], sf_name = ''.tmp'', sf_target = ''f''\<rparr>"
  let ?fs = "(\<lambda>_. None)([''d'', ''.tmp''] \<mapsto> RegularFile ''new'', [''d'', ''f''] \<mapsto> RegularFile ''old'')"
  let ?env = "\<lparr>pv_fault = Some (AtFsync, native_exists), pv_cleanup = True\<rparr>"
  obtain r fs' where run: "publish ?env ?st True ?fs = (r, fs')" by fastforce
  have "?fs (staged_key ?st) = Some (RegularFile ''new'')" by (simp add: staged_key_def)
  then have "fs' (target_key ?st) = ?fs (target_key ?st)
      \<or> fs' (target_key ?st) = Some (RegularFile ''new'')"
    using publish_atomic [where fs = ?fs and st = ?st and bytes = "''new''", OF _ _ run] by simp
  then show ?thesis unfolding Let_def run snd_conv by (simp add: target_key_def)
qed

text \<open>
  Resolving a remote path below the destination never leaves it and never follows a link.
  Nothing that exists changes, everything created is a folder on the path itself, and the
  directory that is returned is the destination extended by the path's components, each of
  which is a real folder and none of which is empty, a dot or a double dot.
\<close>

theorem safe_directory_confined:
  assumes "safe_directory self path is_create fs = (r, fs')"
  shows "(\<forall>k. fs k \<noteq> None \<longrightarrow> fs' k = fs k)
    \<and> (\<forall>k. fs' k \<noteq> fs k \<longrightarrow> is_create \<and> fs' k = Some Folder
        \<and> (\<exists>n < length (split_on slash path). k = self @ take (Suc n) (split_on slash path)))
    \<and> (\<forall>h. r = Ok h \<longrightarrow> h = self @ split_on slash path
        \<and> (\<forall>n < length (split_on slash path).
            fs' (self @ take (Suc n) (split_on slash path)) = Some Folder)
        \<and> list_all (\<lambda>c. c \<noteq> [] \<and> c \<noteq> ''.'' \<and> c \<noteq> ''..'') (split_on slash path))"
proof (cases "valid_relative path")
  case True
  then have d: "descend self (split_on slash path) is_create fs = (r, fs')"
    using assms by (simp add: safe_directory_def)
  have "\<forall>k. fs k \<noteq> None \<longrightarrow> fs' k = fs k" using descend_grows [OF d] by (simp add: grows_def)
  then show ?thesis
    using descend_new [OF d] descend_Ok [of self _ is_create fs _ fs'] d valid_components [OF True]
    by blast
next
  case False
  then show ?thesis using assms by (auto simp: safe_directory_def)
qed

theorem safe_directory_confined_witness:
  "fst (safe_directory [''home''] ''a/b'' True ((\<lambda>_. None)([''home''] \<mapsto> Folder)))
     = Ok [''home'', ''a'', ''b'']
   \<and> snd (safe_directory [''home''] ''a/b'' True ((\<lambda>_. None)([''home''] \<mapsto> Folder))) [''home'', ''a'']
     = Some Folder"
proof -
  let ?fs = "(\<lambda>_. None)([''home''] \<mapsto> Folder)"
  let ?run = "safe_directory [''home''] ''a/b'' True ?fs"
  have r: "fst ?run = Ok [''home'', ''a'', ''b'']" by code_simp
  then have run: "?run = (Ok [''home'', ''a'', ''b''], snd ?run)" by (metis prod.collapse)
  have "\<forall>n < length (split_on slash ''a/b'').
      snd ?run ([''home''] @ take (Suc n) (split_on slash ''a/b'')) = Some Folder"
    using safe_directory_confined [OF run] by blast
  then have "snd ?run ([''home''] @ take (Suc 0) (split_on slash ''a/b'')) = Some Folder"
    by (rule allE [where x = 0]) simp
  then show ?thesis using r by simp
qed

end
