(* ===== verification/Download_Ranges.thy ===== *)
theory Download_Ranges
  imports Cli_Error
begin

text \<open>
  \<open>crates/adrive/src/handler/download_ranges.rs\<close>: the checked byte ranges of a multipart
  download, the exact \<open>Content-Range\<close> test, and the bounded scheduler. Offsets and sizes
  are 64-bit words. A transfer is a step on a state that is a parameter; a schedule picks
  the pending transfer that completes next.
\<close>

section \<open>Ranges\<close>

definition download_part_size :: u64 where
  "download_part_size = 16 * 1024 * 1024"

record download_range =
  dr_number :: u32
  dr_offset :: u64
  dr_size :: u64

definition range_header :: "download_range \<Rightarrow> string" where
  "range_header r = ''bytes='' @ show_nat (unat (dr_offset r)) @ ''-''
     @ show_nat (unat (dr_offset r + dr_size r - 1))"

definition content_range :: "download_range \<Rightarrow> u64 \<Rightarrow> string" where
  "content_range r total_size = ''bytes '' @ show_nat (unat (dr_offset r)) @ ''-''
     @ show_nat (unat (dr_offset r + dr_size r - 1)) @ ''/'' @ show_nat (unat total_size)"

definition range_validate ::
  "download_range \<Rightarrow> nat \<Rightarrow> string option \<Rightarrow> u64 \<Rightarrow> (unit, cli_error) result" where
  "range_validate r status header total_size =
     (let expected = content_range r total_size
      in if status \<noteq> 206 \<or> map_option trim header \<noteq> Some expected
         then Err (TransferFailed ''range response must return HTTP 206 and the exact Content-Range'')
         else Ok ())"

section \<open>The plan\<close>

record range_plan =
  rp_size :: u64
  rp_offset :: u64
  rp_next_number :: u32

definition u64_div_ceil :: "u64 \<Rightarrow> u64 \<Rightarrow> nat" where
  "u64_div_ceil a b = (unat a + unat b - 1) div unat b"

definition plan_new :: "u64 \<Rightarrow> (range_plan, cli_error) result" where
  "plan_new bytes =
     (if u64_div_ceil bytes download_part_size > u32_max
      then Err (ValidationError ''file exceeds range part-count limit'')
      else Ok \<lparr>rp_size = bytes, rp_offset = 0, rp_next_number = 1\<rparr>)"

definition u32_saturating_succ :: "u32 \<Rightarrow> u32" where
  "u32_saturating_succ n = (if unat n < u32_max then n + 1 else n)"

definition plan_next :: "range_plan \<Rightarrow> (download_range \<times> range_plan) option" where
  "plan_next p =
     (if rp_offset p = rp_size p then None
      else let part = min (rp_size p - rp_offset p) download_part_size
           in Some (\<lparr>dr_number = rp_next_number p, dr_offset = rp_offset p, dr_size = part\<rparr>,
                    p\<lparr>rp_offset := rp_offset p + part,
                      rp_next_number := u32_saturating_succ (rp_next_number p)\<rparr>))"

lemma part_size_unat: "unat download_part_size = 16777216"
  by (simp add: download_part_size_def)

lemma plan_next_progress:
  assumes "plan_next p = Some (r, p')"
  shows "unat (rp_size p' - rp_offset p') < unat (rp_size p - rp_offset p)"
proof -
  let ?d = "rp_size p - rp_offset p"
  let ?part = "min ?d download_part_size"
  have p': "rp_size p' = rp_size p" "rp_offset p' = rp_offset p + ?part" "rp_offset p \<noteq> rp_size p"
    using assms by (auto simp: plan_next_def Let_def split: if_splits)
  have "rp_size p' - rp_offset p' = ?d - ?part" using p' by simp
  moreover have "?part \<le> ?d" by simp
  moreover have "?part \<noteq> 0" using p'(3) by (auto simp: min_def download_part_size_def)
  then have "0 < unat ?part" by (metis unat_gt_0)
  moreover have "unat ?part \<le> unat ?d" using calculation(2) by (simp add: word_le_nat_alt)
  ultimately show ?thesis by (simp only: unat_sub_u64)
qed

text \<open>The iterator run to its end.\<close>

function plan_collect :: "range_plan \<Rightarrow> download_range list" where
  "plan_collect p = (case plan_next p of None \<Rightarrow> [] | Some (r, p') \<Rightarrow> r # plan_collect p')"
  by pat_completeness auto
termination
  by (relation "measure (\<lambda>p. unat (rp_size p - rp_offset p))") (auto intro: plan_next_progress)

declare plan_collect.simps [simp del]

section \<open>Running the transfers\<close>

fun run_loop ::
  "(download_range \<Rightarrow> 's \<Rightarrow> (unit, cli_error) result \<times> 's) \<Rightarrow> nat \<Rightarrow> nat list \<Rightarrow>
   download_range list \<Rightarrow> download_range list \<Rightarrow> 's \<Rightarrow> ((unit, cli_error) result \<times> 's) option" where
  "run_loop transfer concurrency schedule pending queue st =
     (let (pending, queue) = fill concurrency pending queue
      in if pending = [] then Some (Ok (), st)
         else case schedule of
           [] \<Rightarrow> None
         | choice # rest \<Rightarrow>
             (let i = choice mod length pending
              in case transfer (pending ! i) st of
                   (Err e, st) \<Rightarrow> Some (Err e, st)
                 | (Ok _, st) \<Rightarrow> run_loop transfer concurrency rest (remove_at i pending) queue st))"

declare run_loop.simps [simp del]

definition run_ranges ::
  "download_range list \<Rightarrow> nat \<Rightarrow> (download_range \<Rightarrow> 's \<Rightarrow> (unit, cli_error) result \<times> 's) \<Rightarrow> nat list \<Rightarrow>
   's \<Rightarrow> ((unit, cli_error) result \<times> 's) option" where
  "run_ranges ranges concurrency transfer schedule st =
     (if concurrency = 0
      then Some (Err (ValidationError ''multipart concurrency must be positive''), st)
      else run_loop transfer concurrency schedule [] ranges st)"

section \<open>Lemmas: the plan\<close>

definition nth_range :: "u64 \<Rightarrow> nat \<Rightarrow> download_range" where
  "nth_range bytes i =
     \<lparr>dr_number = of_nat (Suc i), dr_offset = of_nat (i * 16777216),
      dr_size = of_nat (min 16777216 (unat bytes - i * 16777216))\<rparr>"

definition part_count :: "u64 \<Rightarrow> nat" where
  "part_count bytes = u64_div_ceil bytes download_part_size"

lemma part_count_less: "i < part_count bytes \<longleftrightarrow> i * 16777216 < unat bytes"
  by (simp add: part_count_def u64_div_ceil_def part_size_unat less_eq_div_iff_mult_less_eq
      flip: Suc_le_eq)

lemma nth_range_bounds:
  assumes "i < part_count bytes"
  shows "unat (dr_offset (nth_range bytes i)) = i * 16777216"
    and "unat (dr_size (nth_range bytes i)) = min 16777216 (unat bytes - i * 16777216)"
    and "0 < unat (dr_size (nth_range bytes i))"
    and "unat (dr_offset (nth_range bytes i)) + unat (dr_size (nth_range bytes i)) \<le> unat bytes"
proof -
  have less: "i * 16777216 < unat bytes" using assms by (simp add: part_count_less)
  have "i * 16777216 \<le> u64_max" using less unat_u64_le [of bytes] by linarith
  then show off: "unat (dr_offset (nth_range bytes i)) = i * 16777216"
    by (simp only: nth_range_def download_range.simps unat_of_nat_u64)
  have "min 16777216 (unat bytes - i * 16777216) \<le> u64_max" by (simp add: u64_max_def)
  then show sz: "unat (dr_size (nth_range bytes i)) = min 16777216 (unat bytes - i * 16777216)"
    by (simp only: nth_range_def download_range.simps unat_of_nat_u64)
  show "0 < unat (dr_size (nth_range bytes i))"
    and "unat (dr_offset (nth_range bytes i)) + unat (dr_size (nth_range bytes i)) \<le> unat bytes"
    unfolding off sz using less by auto
qed

lemma plan_next_nth:
  assumes "k < part_count bytes" and "rp_size p = bytes" and "rp_offset p = of_nat (k * 16777216)"
    and "rp_next_number p = of_nat (Suc k)"
  shows "plan_next p = Some (nth_range bytes k,
    \<lparr>rp_size = bytes,
     rp_offset = (if Suc k = part_count bytes then bytes else of_nat (Suc k * 16777216)),
     rp_next_number = u32_saturating_succ (of_nat (Suc k))\<rparr>)"
proof -
  let ?r = "nth_range bytes k"
  note b = nth_range_bounds [OF assms(1)]
  have less: "k * 16777216 < unat bytes" using assms(1) by (simp add: part_count_less)
  have off: "rp_offset p = dr_offset ?r" using assms(3) by (simp add: nth_range_def)
  have le: "dr_offset ?r \<le> bytes" using b(1) less by (simp add: word_le_nat_alt)
  have diff: "unat (bytes - dr_offset ?r) = unat bytes - k * 16777216"
    using unat_sub_u64 [OF le] b(1) by simp
  have part: "min (bytes - dr_offset ?r) download_part_size = dr_size ?r"
    by (rule word_unat_eq_iff [THEN iffD2])
       (use diff b(2) in \<open>auto simp: min_def word_le_nat_alt part_size_unat\<close>)
  have sum: "unat (dr_offset ?r + dr_size ?r) = unat (dr_offset ?r) + unat (dr_size ?r)"
    using b(4) unat_u64_le [of bytes] by (intro unat_add_u64) linarith
  have next_off: "dr_offset ?r + dr_size ?r =
      (if Suc k = part_count bytes then bytes else of_nat (Suc k * 16777216))"
  proof (cases "Suc k = part_count bytes")
    case True
    then have "\<not> Suc k < part_count bytes" by simp
    then have "unat bytes \<le> Suc k * 16777216" unfolding part_count_less by simp
    then have "unat (dr_offset ?r + dr_size ?r) = unat bytes" using sum b(1,2) less by simp
    then show ?thesis using True by (simp add: word_unat_eq_iff)
  next
    case False
    then have more: "Suc k * 16777216 < unat bytes"
      using assms(1) part_count_less [of "Suc k" bytes] by simp
    then have "Suc k * 16777216 \<le> u64_max" using unat_u64_le [of bytes] by linarith
    then have "unat (of_nat (Suc k * 16777216) :: u64) = Suc k * 16777216" by (rule unat_of_nat_u64)
    moreover have "unat (dr_offset ?r + dr_size ?r) = Suc k * 16777216" using sum b(1,2) more by simp
    ultimately show ?thesis using False by (simp only: word_unat_eq_iff if_False)
  qed
  have "dr_offset ?r \<noteq> bytes" using b(1) less by auto
  moreover have "?r = \<lparr>dr_number = of_nat (Suc k), dr_offset = dr_offset ?r, dr_size = dr_size ?r\<rparr>"
    by (simp add: nth_range_def)
  ultimately show ?thesis
    using assms part next_off off by (simp add: plan_next_def Let_def)
qed

lemma u32_succ: "Suc k < u32_max \<Longrightarrow> u32_saturating_succ (of_nat (Suc k)) = of_nat (Suc (Suc k))"
proof -
  assume "Suc k < u32_max"
  then have "unat (of_nat (Suc k) :: u32) = Suc k" by (simp only: u32_max_def unat_of_nat) simp
  then show ?thesis using \<open>Suc k < u32_max\<close> by (simp add: u32_saturating_succ_def add.commute)
qed

lemma plan_collect_from:
  assumes "part_count bytes \<le> u32_max"
  shows "k \<le> part_count bytes \<Longrightarrow> rp_size p = bytes \<Longrightarrow>
    rp_offset p = (if k = part_count bytes then bytes else of_nat (k * 16777216)) \<Longrightarrow>
    k < part_count bytes \<longrightarrow> rp_next_number p = of_nat (Suc k) \<Longrightarrow>
    plan_collect p = map (nth_range bytes) [k..<part_count bytes]"
proof (induction "part_count bytes - k" arbitrary: k p)
  case 0
  then have "k = part_count bytes" by simp
  then show ?case using 0 by (simp add: plan_collect.simps [of p] plan_next_def)
next
  case (Suc d)
  then have k: "k < part_count bytes" by simp
  let ?p' = "\<lparr>rp_size = bytes,
     rp_offset = (if Suc k = part_count bytes then bytes else of_nat (Suc k * 16777216)),
     rp_next_number = u32_saturating_succ (of_nat (Suc k))\<rparr>"
  have nxt: "plan_next p = Some (nth_range bytes k, ?p')"
    by (rule plan_next_nth [OF k]) (use Suc.prems k in auto)
  have "plan_collect ?p' = map (nth_range bytes) [Suc k..<part_count bytes]"
    by (rule Suc.hyps(1)) (use Suc.hyps(2) k assms u32_succ [of k] in auto)
  moreover have "[k..<part_count bytes] = k # [Suc k..<part_count bytes]" using k by (rule upt_conv_Cons)
  ultimately show ?case using nxt by (simp add: plan_collect.simps [of p])
qed

lemma plan_collect_new:
  assumes "plan_new bytes = Ok plan"
  shows "plan_collect plan = map (nth_range bytes) [0..<part_count bytes]
    \<and> part_count bytes \<le> u32_max"
proof -
  have c: "part_count bytes \<le> u32_max"
    and p: "plan = \<lparr>rp_size = bytes, rp_offset = 0, rp_next_number = 1\<rparr>"
    using assms by (auto simp: plan_new_def part_count_def split: if_splits)
  have "part_count bytes = 0 \<Longrightarrow> bytes = 0"
    using part_count_less [of 0 bytes] by (simp add: unat_eq_0)
  then show ?thesis using plan_collect_from [OF c, of 0 plan] p c by auto
qed

lemma consecutive_intervals:
  "concat (map (\<lambda>i. [i * n..<i * n + min n (m - i * n)]) [0..<k]) = [0..<min (k * n) m]"
proof (induction k)
  case 0
  then show ?case by simp
next
  case (Suc k)
  show ?case
  proof (cases "k * n \<le> m")
    case True
    have "[0..<k * n] @ [k * n..<k * n + min n (m - k * n)] = [0..<k * n + min n (m - k * n)]"
      by (metis le_add1 le0 upt_add_eq_append add_0)
    moreover have "k * n + min n (m - k * n) = min (Suc k * n) m"
      using True by (simp add: min_def) linarith
    moreover have "min (k * n) m = k * n" using True by simp
    ultimately show ?thesis using Suc by simp
  next
    case False
    then show ?thesis using Suc by (simp add: min_def)
  qed
qed

definition range_bytes :: "download_range \<Rightarrow> nat list" where
  "range_bytes r = [unat (dr_offset r)..<unat (dr_offset r) + unat (dr_size r)]"

lemma plan_partition:
  assumes "plan_new bytes = Ok plan"
  shows "concat (map range_bytes (plan_collect plan)) = [0..<unat bytes]"
proof -
  let ?n = "part_count bytes"
  have "concat (map range_bytes (map (nth_range bytes) [0..<?n])) =
      concat (map (\<lambda>i. [i * 16777216..<i * 16777216 + min 16777216 (unat bytes - i * 16777216)]) [0..<?n])"
    unfolding map_map
    by (rule arg_cong [where f = concat], rule map_cong)
       (auto simp: range_bytes_def nth_range_bounds)
  also have "\<dots> = [0..<min (?n * 16777216) (unat bytes)]" by (rule consecutive_intervals)
  also have "min (?n * 16777216) (unat bytes) = unat bytes"
    using part_count_less [of ?n bytes] by simp
  finally show ?thesis using plan_collect_new [OF assms] by simp
qed

section \<open>Lemmas: the scheduler\<close>

text \<open>The sequential run of the transfers in a given order.\<close>

fun run_in_order ::
  "(download_range \<Rightarrow> 's \<Rightarrow> (unit, cli_error) result \<times> 's) \<Rightarrow> download_range list \<Rightarrow> 's \<Rightarrow>
   (unit, cli_error) result \<times> 's" where
  "run_in_order transfer [] st = (Ok (), st)"
| "run_in_order transfer (r # rs) st =
     (case transfer r st of (Err e, st) \<Rightarrow> (Err e, st) | (Ok _, st) \<Rightarrow> run_in_order transfer rs st)"

lemma run_loop_order:
  "run_loop transfer c schedule pending queue st = Some (Ok (), st') \<Longrightarrow> 0 < c \<Longrightarrow>
   \<exists>order. mset order = mset (pending @ queue) \<and> run_in_order transfer order st = (Ok (), st')"
proof (induction schedule arbitrary: pending queue st)
  case Nil
  obtain p q where pq: "fill c pending queue = (p, q)" by (cases "fill c pending queue")
  then have "p = []" "st' = st"
    using Nil.prems(1) by (auto simp: run_loop.simps [of _ _ "[]"] Let_def split: if_splits)
  moreover have "q = []" using fill_empty pq calculation(1) Nil.prems(2) by blast
  moreover have "pending @ queue = p @ q" using fill_append [OF pq] by simp
  ultimately show ?case by (intro exI [of _ "[]"]) simp
next
  case (Cons choice rest)
  obtain p q where pq: "fill c pending queue = (p, q)" by (cases "fill c pending queue")
  have app: "pending @ queue = p @ q" using fill_append [OF pq] by simp
  show ?case
  proof (cases "p = []")
    case True
    then have "st' = st" using Cons.prems(1) pq by (simp add: run_loop.simps [of _ _ "choice # rest"] Let_def)
    moreover have "q = []" using fill_empty pq True Cons.prems(2) by blast
    ultimately show ?thesis using app True by (intro exI [of _ "[]"]) simp
  next
    case False
    let ?i = "choice mod length p"
    have i: "?i < length p" using False by simp
    have run: "(case transfer (p ! ?i) st of (Err e, st) \<Rightarrow> Some (Err e, st)
        | (Ok _, st) \<Rightarrow> run_loop transfer c rest (remove_at ?i p) q st) = Some (Ok (), st')"
      using Cons.prems(1) pq False by (simp add: run_loop.simps [of _ _ "choice # rest"] Let_def)
    then obtain u st1 where t: "transfer (p ! ?i) st = (Ok u, st1)"
      and r: "run_loop transfer c rest (remove_at ?i p) q st1 = Some (Ok (), st')"
      by (auto split: prod.splits result.splits)
    obtain order where o: "mset order = mset (remove_at ?i p @ q)"
      "run_in_order transfer order st1 = (Ok (), st')"
      using Cons.IH [OF r Cons.prems(2)] by blast
    have "mset (p ! ?i # order) = mset (pending @ queue)"
      unfolding app using o(1) mset_remove_at [OF i] by simp
    moreover have "run_in_order transfer (p ! ?i # order) st = (Ok (), st')" using t o(2) by simp
    ultimately show ?thesis by blast
  qed
qed

text \<open>A transfer that stores the bytes of its range, in a sparse file.\<close>

definition store_range :: "(nat \<Rightarrow> 'b) \<Rightarrow> download_range \<Rightarrow> (nat \<Rightarrow> 'b option) \<Rightarrow> nat \<Rightarrow> 'b option" where
  "store_range source r disk =
     (\<lambda>i. if i \<in> set (range_bytes r) then Some (source i) else disk i)"

lemma run_in_order_stores:
  assumes "\<And>r st st'. r \<in> set order \<Longrightarrow> transfer r st = (Ok (), st') \<Longrightarrow> st' = store_range source r st"
    and "run_in_order transfer order disk = (Ok (), disk')"
  shows "disk' i = (if \<exists>r \<in> set order. i \<in> set (range_bytes r) then Some (source i) else disk i)"
  using assms
proof (induction order arbitrary: disk)
  case Nil
  then show ?case by simp
next
  case (Cons r order)
  then obtain u st1 where t: "transfer r disk = (Ok u, st1)"
    and rest: "run_in_order transfer order st1 = (Ok (), disk')"
    by (auto split: prod.splits result.splits)
  have "st1 = store_range source r disk" using Cons.prems(1) [of r disk st1] t by simp
  then show ?case using Cons.IH [OF _ rest] Cons.prems(1) by (auto simp: store_range_def)
qed

section \<open>The contract of a range worker\<close>

text \<open>
  What a transfer promises the scheduler: it keeps an invariant of the state, a success leaves
  its range stored, and no transfer spoils a range that is stored already.
\<close>

locale range_worker =
  fixes transfer :: "download_range \<Rightarrow> 's \<Rightarrow> (unit, cli_error) result \<times> 's"
    and inv :: "'s \<Rightarrow> bool"
    and stored :: "download_range \<Rightarrow> 's \<Rightarrow> bool"
    and part :: "download_range \<Rightarrow> bool"
  assumes transfer_inv: "part r \<Longrightarrow> inv s \<Longrightarrow> transfer r s = (x, s') \<Longrightarrow> inv s'"
    and transfer_stores: "part r \<Longrightarrow> inv s \<Longrightarrow> transfer r s = (Ok (), s') \<Longrightarrow> stored r s'"
    and transfer_keeps: "part r \<Longrightarrow> part q \<Longrightarrow> q \<noteq> r \<Longrightarrow> inv s \<Longrightarrow> stored q s \<Longrightarrow>
      transfer r s = (x, s') \<Longrightarrow> stored q s'"
begin

lemma in_order_stores:
  assumes "run_in_order transfer order s = (Ok (), s')" and "inv s" and "distinct order"
    and "\<forall>r \<in> set order. part r"
  shows "inv s' \<and> (\<forall>q. part q \<and> (q \<in> set order \<or> stored q s) \<longrightarrow> stored q s')"
  using assms
proof (induction order arbitrary: s)
  case Nil
  then show ?case by simp
next
  case (Cons r order)
  then obtain s1 where one: "transfer r s = (Ok (), s1)"
    and rest: "run_in_order transfer order s1 = (Ok (), s')"
    by (auto split: prod.splits result.splits)
  have "part r" using Cons.prems(4) by simp
  note after = transfer_inv [OF this Cons.prems(2) one] transfer_stores [OF this Cons.prems(2) one]
  have IH: "inv s'" "\<forall>q. part q \<and> (q \<in> set order \<or> stored q s1) \<longrightarrow> stored q s'"
    using Cons.IH [OF rest after(1)] Cons.prems(3,4) by auto
  have "stored q s'" if q: "part q" "q \<in> set (r # order) \<or> stored q s" for q
  proof (cases "q = r")
    case True
    then show ?thesis using IH(2) q(1) after(2) by simp
  next
    case False
    have "stored q s \<Longrightarrow> stored q s1"
      using transfer_keeps [OF \<open>part r\<close> q(1) False Cons.prems(2) _ one] .
    then show ?thesis using IH(2) q False by auto
  qed
  then show ?case using IH(1) by blast
qed

lemma run_stores:
  assumes "run_ranges ranges concurrency transfer schedule s = Some (Ok (), s')" and "inv s"
    and "distinct ranges" and "\<forall>r \<in> set ranges. part r"
  shows "inv s' \<and> (\<forall>r \<in> set ranges. stored r s')"
proof -
  have "0 < concurrency" and "run_loop transfer concurrency schedule [] ranges s = Some (Ok (), s')"
    using assms(1) by (auto simp: run_ranges_def split: if_splits)
  then obtain order where o: "mset order = mset ranges"
    and run: "run_in_order transfer order s = (Ok (), s')"
    using run_loop_order by (metis append_Nil)
  have "set order = set ranges" "distinct order"
    using o assms(3) mset_eq_setD mset_eq_imp_distinct_iff by blast+
  then show ?thesis using in_order_stores [OF run assms(2)] assms(4) by auto
qed

end

section \<open>Lemmas: the header\<close>

lemma digits_split:
  "a @ x # b = a' @ x' # b' \<Longrightarrow> list_all is_ascii_digit a \<Longrightarrow> list_all is_ascii_digit a' \<Longrightarrow>
   \<not> is_ascii_digit x \<Longrightarrow> \<not> is_ascii_digit x' \<Longrightarrow> a = a' \<and> x = x' \<and> b = b'"
proof (induction a arbitrary: a')
  case Nil
  then show ?case by (cases a') auto
next
  case (Cons c a)
  then show ?case by (cases a') auto
qed

lemma show_nat_all_digits: "list_all is_ascii_digit (show_nat n)"
  using show_nat_digits by (auto simp: list_all_iff)

lemma content_range_inj:
  assumes "content_range r t = content_range r' t'"
  shows "dr_offset r = dr_offset r' \<and> dr_size r = dr_size r' \<and> t = t'"
proof -
  let ?off = "\<lambda>r. show_nat (unat (dr_offset r))"
  let ?stop = "\<lambda>r. show_nat (unat (dr_offset r + dr_size r - 1))"
  have dash: "\<not> is_ascii_digit (CHR ''-'')" and sl: "\<not> is_ascii_digit (CHR ''/'')" by code_simp+
  have "?off r @ CHR ''-'' # (?stop r @ CHR ''/'' # show_nat (unat t)) =
      ?off r' @ CHR ''-'' # (?stop r' @ CHR ''/'' # show_nat (unat t'))"
    using assms by (simp add: content_range_def)
  from digits_split [OF this show_nat_all_digits show_nat_all_digits dash dash]
  have "?off r = ?off r'" and
    "?stop r @ CHR ''/'' # show_nat (unat t) = ?stop r' @ CHR ''/'' # show_nat (unat t')" by auto
  moreover from digits_split [OF this(2) show_nat_all_digits show_nat_all_digits sl sl]
  have "?stop r = ?stop r'" and "show_nat (unat t) = show_nat (unat t')" by auto
  ultimately have o: "dr_offset r = dr_offset r'"
    and e: "dr_offset r + dr_size r - 1 = dr_offset r' + dr_size r' - 1" and "t = t'"
    by (simp_all add: show_nat_inj word_unat_eq_iff)
  from e o have "dr_size r = dr_size r'" by simp
  then show ?thesis using o \<open>t = t'\<close> by blast
qed

section \<open>Properties\<close>

text \<open>
  A range plan partitions the file. When a plan is made, its ranges laid end to end are
  exactly the bytes from zero to the size, each range is nonempty and at most 16 MiB, they
  are numbered 1, 2, 3 and so on without saturation, and no offset overflows.
\<close>

theorem range_plan_partitions:
  assumes "plan_new bytes = Ok plan"
  shows "concat (map range_bytes (plan_collect plan)) = [0..<unat bytes]
    \<and> list_all (\<lambda>r. 0 < unat (dr_size r) \<and> unat (dr_size r) \<le> 16777216
        \<and> unat (dr_offset r) + unat (dr_size r) \<le> unat bytes) (plan_collect plan)
    \<and> map (unat \<circ> dr_number) (plan_collect plan) = [1..<Suc (length (plan_collect plan))]"
proof -
  let ?n = "part_count bytes"
  have c: "plan_collect plan = map (nth_range bytes) [0..<?n]" and le: "?n \<le> u32_max"
    using plan_collect_new [OF assms] by auto
  have "list_all (\<lambda>r. 0 < unat (dr_size r) \<and> unat (dr_size r) \<le> 16777216
      \<and> unat (dr_offset r) + unat (dr_size r) \<le> unat bytes) (plan_collect plan)"
    unfolding c list_all_iff using nth_range_bounds by fastforce
  moreover have "map (unat \<circ> dr_number) (plan_collect plan) = map Suc [0..<?n]"
    unfolding c map_map
  proof (rule map_cong)
    fix i assume "i \<in> set [0..<?n]"
    then have "Suc i \<le> 4294967295" using le by (simp add: u32_max_def)
    then show "(unat \<circ> dr_number \<circ> nth_range bytes) i = Suc i"
      by (simp add: nth_range_def unat_of_nat flip: of_nat_Suc del: of_nat_Suc)
  qed simp
  then have "map (unat \<circ> dr_number) (plan_collect plan) = [1..<Suc (length (plan_collect plan))]"
    unfolding c by (simp add: map_Suc_upt)
  ultimately show ?thesis using plan_partition [OF assms] by blast
qed

theorem range_plan_partitions_witness:
  "\<exists>plan. plan_new 20000000 = Ok plan \<and> concat (map range_bytes (plan_collect plan)) = [0..<20000000]"
proof -
  let ?plan = "\<lparr>rp_size = 20000000, rp_offset = 0, rp_next_number = 1\<rparr>"
  have "plan_new 20000000 = Ok ?plan"
    by (simp add: plan_new_def u64_div_ceil_def part_size_unat u32_max_def)
  moreover have "unat (20000000 :: u64) = 20000000" by simp
  ultimately show ?thesis using range_plan_partitions [of 20000000 ?plan] by metis
qed

text \<open>
  A multipart download reassembles the file whatever the concurrency and the order of
  completion. If every successful transfer stores exactly the bytes of its range and the run
  succeeds, then every byte of the file holds the source byte, and nothing past the end changed.
\<close>

theorem ranges_reassemble:
  assumes "plan_new bytes = Ok plan"
    and "run_ranges (plan_collect plan) concurrency transfer schedule disk = Some (Ok (), disk')"
    and "\<And>r st st'. r \<in> set (plan_collect plan) \<Longrightarrow> transfer r st = (Ok (), st') \<Longrightarrow>
      st' = store_range source r st"
  shows "disk' i = (if i < unat bytes then Some (source i) else disk i)"
proof -
  have "0 < concurrency"
    and "run_loop transfer concurrency schedule [] (plan_collect plan) disk = Some (Ok (), disk')"
    using assms(2) by (auto simp: run_ranges_def split: if_splits)
  then obtain order where o: "mset order = mset (plan_collect plan)"
    and run: "run_in_order transfer order disk = (Ok (), disk')"
    using run_loop_order by (metis append_Nil)
  have set: "set order = set (plan_collect plan)" using o mset_eq_setD by blast
  have "(\<exists>r \<in> set order. i \<in> set (range_bytes r)) \<longleftrightarrow>
      i \<in> set (concat (map range_bytes (plan_collect plan)))" unfolding set by simp
  also have "\<dots> \<longleftrightarrow> i < unat bytes" unfolding plan_partition [OF assms(1)] by simp
  finally have cover: "(\<exists>r \<in> set order. i \<in> set (range_bytes r)) \<longleftrightarrow> i < unat bytes" .
  have "disk' i = (if \<exists>r \<in> set order. i \<in> set (range_bytes r) then Some (source i) else disk i)"
    by (rule run_in_order_stores [OF _ run]) (use assms(3) set in auto)
  then show ?thesis unfolding cover .
qed

theorem ranges_reassemble_witness:
  "let plan = \<lparr>rp_size = 3, rp_offset = 0, rp_next_number = 1\<rparr>;
       transfer = (\<lambda>r st. (Ok (), store_range (\<lambda>i. 2 * i) r st))
   in \<exists>disk. run_ranges (plan_collect plan) 4 transfer [9] (\<lambda>_. None) = Some (Ok (), disk)
     \<and> disk 2 = Some (4 :: nat)"
proof -
  let ?plan = "\<lparr>rp_size = 3, rp_offset = 0, rp_next_number = 1\<rparr>"
  let ?transfer = "\<lambda>r st. (Ok (), store_range (\<lambda>i. 2 * i :: nat) r st)"
  have new: "plan_new 3 = Ok ?plan"
    by (simp add: plan_new_def u64_div_ceil_def part_size_unat u32_max_def)
  have "length (plan_collect ?plan) = 1"
    using plan_collect_new [OF new] by (simp add: part_count_def u64_div_ceil_def part_size_unat)
  then obtain r where r: "plan_collect ?plan = [r]" by (auto simp: length_Suc_conv)
  have run: "run_ranges (plan_collect ?plan) 4 ?transfer [9] (\<lambda>_. None)
      = Some (Ok (), store_range (\<lambda>i. 2 * i) r (\<lambda>_. None))"
    by (simp add: run_ranges_def run_loop.simps r remove_at_def Let_def)
  have "store_range (\<lambda>i. 2 * i) r (\<lambda>_. None) 2 = Some (4 :: nat)"
    using ranges_reassemble [OF new run, of "\<lambda>i. 2 * i" 2] by simp
  then show ?thesis using run by (auto simp: Let_def)
qed

text \<open>
  A range response is accepted for one range only. If the same response header passes the
  check for two ranges, they agree on offset, size and total, and the status was 206.
\<close>

theorem content_range_identifies:
  assumes "is_ok (range_validate r status header t)" and "is_ok (range_validate r' status header t')"
  shows "status = 206 \<and> dr_offset r = dr_offset r' \<and> dr_size r = dr_size r' \<and> t = t'"
proof -
  have "status = 206" and "map_option trim header = Some (content_range r t)"
    and "map_option trim header = Some (content_range r' t')"
    using assms by (auto simp: range_validate_def Let_def split: if_splits)
  then show ?thesis using content_range_inj [of r t r' t'] by simp
qed

theorem content_range_identifies_witness:
  "let r = \<lparr>dr_number = 1, dr_offset = 0, dr_size = 5\<rparr>
   in is_ok (range_validate r 206 (Some '' bytes 0-4/9'') 9) \<and> dr_offset r = 0"
proof -
  let ?r = "\<lparr>dr_number = 1, dr_offset = 0, dr_size = 5\<rparr>"
  have ok: "is_ok (range_validate ?r 206 (Some '' bytes 0-4/9'') 9)" by code_simp
  show ?thesis using content_range_identifies [OF ok ok] ok by simp
qed

end
