(* ===== verification/Range_Checkpoint.thy ===== *)
theory Range_Checkpoint
  imports Local_Store Share_Manifest Download_Ranges
begin

text \<open>
  \<open>crates/adrive/src/handler/share_range_checkpoint.rs\<close>: the recovery directory of a
  multipart download, one file of bytes and one hash receipt per completed range. SHA-256,
  CRC-64 and the JSON coding come from other crates and are the parameter \<open>codec\<close>; what
  the code relies on of them is \<open>codec_ok\<close>.
\<close>

section \<open>The coding\<close>

record receipt =
  rc_version :: u32
  rc_number :: u32
  rc_offset :: u64
  rc_size :: u64
  rc_sha256 :: string

record codec =
  cx_receipt :: "receipt \<Rightarrow> string"
  cx_read_receipt :: "string \<Rightarrow> receipt option"
  cx_sha256 :: "string \<Rightarrow> string"
  cx_identity :: "remote_file \<Rightarrow> string \<Rightarrow> string"
  cx_crc64 :: "string \<Rightarrow> u64"

definition max_receipt_bytes :: nat where
  "max_receipt_bytes = 1024"

text \<open>
  \<open>serde_json\<close> reads back what it wrote and its text for a receipt with a digest of 64
  bytes is short; the hexadecimal SHA-256 has 64 digits.
\<close>

definition codec_ok :: "codec \<Rightarrow> bool" where
  "codec_ok cx \<longleftrightarrow>
     (\<forall>r. cx_read_receipt cx (cx_receipt cx r) = Some r)
     \<and> (\<forall>r. length (rc_sha256 r) = 64 \<longrightarrow> length (cx_receipt cx r) \<le> max_receipt_bytes)
     \<and> (\<forall>b. length (cx_sha256 cx b) = 64 \<and> list_all is_ascii_hexdigit (cx_sha256 cx b))"

text \<open>The \<open>?\<close> operator converts an I/O error into a CLI error.\<close>

definition io_step :: "('a, io_error) result \<times> 's \<Rightarrow> ('a, cli_error) result \<times> 's" where
  "io_step p = (map_err Io (fst p), snd p)"

definition failed :: "string \<Rightarrow> cli_error" where
  "failed message = TransferFailed message"

section \<open>Opening\<close>

definition checkpoint_open ::
  "codec \<Rightarrow> safe_dir \<Rightarrow> remote_file \<Rightarrow> string \<Rightarrow> file_tree \<times> safe_dir list \<Rightarrow>
   (safe_dir, cli_error) result \<times> file_tree \<times> safe_dir list" where
  "checkpoint_open cx root remote local state =
     (let (fs, locks) = state
      in if \<not> has_identity remote
         then (Err (failed ''range recovery requires a pinned remote identity''), fs, locks)
         else case validate_relative local of
           Err e \<Rightarrow> (Err e, fs, locks)
         | Ok _ \<Rightarrow>
             (let fingerprint = cx_sha256 cx (cx_identity cx remote local)
              in case io_step (safe_directory root fingerprint True fs) of
                   (Err e, fs) \<Rightarrow> (Err e, fs, locks)
                 | (Ok dir, fs) \<Rightarrow>
                     (case (case exclusive dir ''file.lock'' fs of
                              (Ok _, fs) \<Rightarrow> (Ok (), fs)
                            | (Err e, fs) \<Rightarrow>
                                if io_kind e = IoAlreadyExists
                                then (map_err Io (try_in (read_leaf dir ''file.lock'' fs) (\<lambda>_. Ok ())), fs)
                                else (Err (Io e), fs)) of
                        (Err e, fs) \<Rightarrow> (Err e, fs, locks)
                      | (Ok _, fs) \<Rightarrow>
                          if dir \<in> set locks
                          then (Err (Conflict ''range checkpoint is locked by another download''), fs, locks)
                          else (Ok dir, fs, dir # locks))))"

section \<open>One range\<close>

definition part_name :: "download_range \<Rightarrow> string" where
  "part_name rng = ''part-'' @ show_nat (unat (dr_number rng)) @ ''.bin''"

definition receipt_name :: "download_range \<Rightarrow> string" where
  "receipt_name rng = ''part-'' @ show_nat (unat (dr_number rng)) @ ''.json''"

definition receipt_valid :: "receipt \<Rightarrow> download_range \<Rightarrow> bool" where
  "receipt_valid r rng \<longleftrightarrow>
     rc_version r = 1 \<and> rc_number r = dr_number rng \<and> rc_offset r = dr_offset rng
     \<and> rc_size r = dr_size rng \<and> length (rc_sha256 r) = 64
     \<and> list_all is_ascii_hexdigit (rc_sha256 r)"

definition checkpoint_receipt ::
  "codec \<Rightarrow> safe_dir \<Rightarrow> download_range \<Rightarrow> file_tree \<Rightarrow> (receipt option, cli_error) result" where
  "checkpoint_receipt cx dir rng fs =
     try_in (map_err Io (ordinary dir (part_name rng) fs)) (\<lambda>has_part.
     try_in (map_err Io (ordinary dir (receipt_name rng) fs)) (\<lambda>has_receipt.
       if \<not> has_part \<or> \<not> has_receipt then Ok None
       else try_in (map_err Io (read_leaf dir (receipt_name rng) fs)) (\<lambda>content.
         let bytes = take (max_receipt_bytes + 1) content
         in if length bytes > max_receipt_bytes then Ok None
            else case cx_read_receipt cx bytes of
                   None \<Rightarrow> Ok None
                 | Some r \<Rightarrow> Ok (if receipt_valid r rng then Some r else None))))"

definition discard_name ::
  "safe_dir \<Rightarrow> string \<Rightarrow> file_tree \<Rightarrow> (unit, cli_error) result \<times> file_tree" where
  "discard_name dir name fs =
     st_try (map_err Io (ordinary dir name fs), fs) (\<lambda>is_present fs.
       if is_present then io_step (remove_leaf dir name fs) else (Ok (), fs))"

definition discard ::
  "safe_dir \<Rightarrow> download_range \<Rightarrow> file_tree \<Rightarrow> (unit, cli_error) result \<times> file_tree" where
  "discard dir rng fs = st_each (discard_name dir) [part_name rng, receipt_name rng] fs"

definition checkpoint_clear :: "safe_dir \<Rightarrow> u64 \<Rightarrow> file_tree \<Rightarrow> (unit, cli_error) result \<times> file_tree" where
  "checkpoint_clear dir bytes fs =
     (case plan_new bytes of
        Err e \<Rightarrow> (Err e, fs)
      | Ok plan \<Rightarrow> st_each (discard dir) (plan_collect plan) fs)"

definition checkpoint_stage ::
  "string \<Rightarrow> safe_dir \<Rightarrow> download_range \<Rightarrow> file_tree \<Rightarrow> (staged_file, cli_error) result \<times> file_tree" where
  "checkpoint_stage ulid dir rng fs = io_step (staged_new ulid dir (part_name rng) fs)"

text \<open>The environments are those of the two publications, the identifier that of the receipt's file.\<close>

definition checkpoint_complete ::
  "codec \<Rightarrow> publish_env \<Rightarrow> publish_env \<Rightarrow> string \<Rightarrow> safe_dir \<Rightarrow> download_range \<Rightarrow> staged_file \<Rightarrow> string \<Rightarrow>
   file_tree \<Rightarrow> (unit, cli_error) result \<times> file_tree" where
  "checkpoint_complete cx part_env receipt_env ulid dir rng staged digest fs =
     st_try (io_step (publish part_env staged False fs)) (\<lambda>_ fs.
       let r = \<lparr>rc_version = 1, rc_number = dr_number rng, rc_offset = dr_offset rng,
                rc_size = dr_size rng, rc_sha256 = digest\<rparr>
       in st_try (io_step (staged_new ulid dir (receipt_name rng) fs)) (\<lambda>staged fs.
            io_step (publish receipt_env staged True
              (update_file (staged_key staged) (\<lambda>b. b @ cx_receipt cx r) fs))))"

definition open_completed ::
  "codec \<Rightarrow> safe_dir \<Rightarrow> download_range \<Rightarrow> file_tree \<Rightarrow>
   ((string \<times> string) option, cli_error) result \<times> file_tree" where
  "open_completed cx dir rng fs =
     st_try (checkpoint_receipt cx dir rng fs, fs) (\<lambda>found fs.
       case found of
         None \<Rightarrow> st_try (discard dir rng fs) (\<lambda>_ fs. (Ok None, fs))
       | Some r \<Rightarrow>
           st_try (map_err Io (read_leaf dir (part_name rng) fs), fs) (\<lambda>content fs.
             if length content \<noteq> unat (dr_size rng)
             then st_try (discard dir rng fs) (\<lambda>_ fs. (Ok None, fs))
             else (Ok (Some (content, rc_sha256 r)), fs)))"

text \<open>Reading a file through a buffer of 64 KiB: the chunks, then the loop of \<open>hash_file\<close>.\<close>

function chunks_of :: "nat \<Rightarrow> 'a list \<Rightarrow> 'a list list" where
  "chunks_of n xs = (if n = 0 \<or> xs = [] then [] else take n xs # chunks_of n (drop n xs))"
  by pat_completeness auto
termination by (relation "measure (\<lambda>(n, xs). length xs)") auto

declare chunks_of.simps [simp del]

definition buffer_size :: nat where
  "buffer_size = 65536"

fun hash_loop :: "codec \<Rightarrow> u64 \<Rightarrow> string list \<Rightarrow> string \<Rightarrow> u64 \<Rightarrow> string" where
  "hash_loop cx expected [] hashed len = (if len = expected then cx_sha256 cx hashed else [])"
| "hash_loop cx expected (chunk # rest) hashed len =
     (let len = saturating_add len (of_nat (length chunk))
      in if len > expected then [] else hash_loop cx expected rest (hashed @ chunk) len)"

definition hash_file :: "codec \<Rightarrow> string \<Rightarrow> u64 \<Rightarrow> string" where
  "hash_file cx content expected = hash_loop cx expected (chunks_of buffer_size content) [] 0"

definition checkpoint_restore ::
  "codec \<Rightarrow> safe_dir \<Rightarrow> download_range \<Rightarrow> file_tree \<Rightarrow>
   ((string \<times> string) option, cli_error) result \<times> file_tree" where
  "checkpoint_restore cx dir rng fs =
     st_try (open_completed cx dir rng fs) (\<lambda>found fs.
       case found of
         None \<Rightarrow> (Ok None, fs)
       | Some (content, digest) \<Rightarrow>
           if hash_file cx content (dr_size rng) \<noteq> digest
           then st_try (discard dir rng fs) (\<lambda>_ fs. (Ok None, fs))
           else (Ok (Some (content, digest)), fs))"

section \<open>Lemmas: reading in chunks\<close>

lemma concat_chunks_of: "0 < n \<Longrightarrow> concat (chunks_of n xs) = xs"
proof (induction n xs rule: chunks_of.induct)
  case (1 n xs)
  then show ?case by (subst chunks_of.simps) auto
qed

lemma hash_loop_exact:
  "unat len + length (concat chunks) = unat expected \<Longrightarrow>
   hash_loop cx expected chunks hashed len = cx_sha256 cx (hashed @ concat chunks)"
proof (induction chunks arbitrary: hashed len)
  case Nil
  then show ?case by (simp add: word_unat_eq_iff)
next
  case (Cons chunk rest)
  have "unat expected \<le> u64_max" by simp
  then have bound: "length chunk \<le> u64_max" "unat len + length chunk \<le> u64_max"
    using Cons.prems by (simp_all del: unat_u64_le)
  let ?len = "saturating_add len (of_nat (length chunk))"
  have len: "unat ?len = unat len + length chunk"
    using bound by (simp add: unat_of_nat_u64)
  then have "\<not> ?len > expected" using Cons.prems by (simp add: word_less_nat_alt)
  then show ?case using Cons.IH [of ?len "hashed @ chunk"] Cons.prems len by (simp add: Let_def)
qed

lemma hash_file_exact:
  "length content = unat expected \<Longrightarrow> hash_file cx content expected = cx_sha256 cx content"
  by (simp add: hash_file_def hash_loop_exact concat_chunks_of buffer_size_def)

section \<open>Lemmas: names\<close>

lemma part_receipt_names [simp]:
  "part_name q \<noteq> receipt_name r" "receipt_name q \<noteq> part_name r"
  by (auto simp: part_name_def receipt_name_def dest!: arg_cong [where f = last])

lemma part_name_inj [simp]: "part_name q = part_name r \<longleftrightarrow> dr_number q = dr_number r"
  by (auto simp: part_name_def show_nat_inj word_unat_eq_iff)

lemma receipt_name_inj [simp]: "receipt_name q = receipt_name r \<longleftrightarrow> dr_number q = dr_number r"
  by (auto simp: receipt_name_def show_nat_inj word_unat_eq_iff)

lemma digits_no_slash: "slash \<notin> set (show_nat n)"
  using show_nat_digits [of slash n] by (auto simp: is_ascii_digit_def)

lemma names_no_slash: "slash \<notin> set (part_name r)" "slash \<notin> set (receipt_name r)"
  using digits_no_slash by (auto simp: part_name_def receipt_name_def)

definition temp_name :: "string \<Rightarrow> string" where
  "temp_name ulid = ''.adrive-share-'' @ ulid @ ''.partial''"

lemma temp_name_other [simp]:
  "temp_name u \<noteq> part_name r" "temp_name u \<noteq> receipt_name r"
  "part_name r \<noteq> temp_name u" "receipt_name r \<noteq> temp_name u"
  by (simp_all add: temp_name_def part_name_def receipt_name_def)

lemma staged_new_leaf:
  assumes "slash \<notin> set name" and "staged_new ulid dir name fs = (Ok st, fs')"
  shows "st = \<lparr>sf_directory = dir, sf_name = temp_name ulid, sf_target = name\<rparr>
    \<and> fs (dir @ [temp_name ulid]) = None \<and> fs' = fs(dir @ [temp_name ulid] \<mapsto> RegularFile [])"
proof -
  have n: "rsplit_once slash name = None" using assms(1) by (simp add: rsplit_once_None)
  show ?thesis
    using assms(2)
    by (auto simp: staged_new_def safe_parent_def n exclusive_def st_try_Ok_iff Let_def temp_name_def
        split: if_splits option.splits)
qed

lemma staged_new_leaf_Err:
  assumes "slash \<notin> set name" and "staged_new ulid dir name fs = (Err e, fs')"
  shows "fs' = fs"
proof -
  have n: "rsplit_once slash name = None" using assms(1) by (simp add: rsplit_once_None)
  show ?thesis
    using assms(2)
    by (auto simp: staged_new_def safe_parent_def n exclusive_def Let_def
        split: if_splits option.splits)
qed

section \<open>Lemmas: discarding\<close>

lemma discard_name_cases:
  assumes "discard_name dir name fs = (r, fs')"
  shows "k \<noteq> dir @ [name] \<Longrightarrow> fs' k = fs k" and "r = Ok u \<Longrightarrow> fs' (dir @ [name]) = None"
    and "fs' (dir @ [name]) = fs (dir @ [name]) \<or> fs' (dir @ [name]) = None"
  using assms
  by (auto simp: discard_name_def ordinary_def remove_leaf_def io_step_def
      split: option.splits node.splits)

lemma discard_cases:
  assumes "discard dir r fs = (x, fs')"
  shows "k \<noteq> dir @ [part_name r] \<Longrightarrow> k \<noteq> dir @ [receipt_name r] \<Longrightarrow> fs' k = fs k"
    and "x = Ok u \<Longrightarrow> fs' (dir @ [part_name r]) = None \<and> fs' (dir @ [receipt_name r]) = None"
    and "fs' k = fs k \<or> fs' k = None"
proof -
  obtain x1 fs1 where one: "discard_name dir (part_name r) fs = (x1, fs1)" by fastforce
  obtain x2 fs2 where two: "discard_name dir (receipt_name r) fs1 = (x2, fs2)" by fastforce
  note c = discard_name_cases [OF one] and d = discard_name_cases [OF two]
  have run: "(x, fs') = (case x1 of Ok _ \<Rightarrow> (x2, fs2) | Err e \<Rightarrow> (Err e, fs1))"
    using assms one two by (cases x1; cases x2) (auto simp: discard_def)
  show "k \<noteq> dir @ [part_name r] \<Longrightarrow> k \<noteq> dir @ [receipt_name r] \<Longrightarrow> fs' k = fs k"
    using run c(1) d(1) by (auto split: result.splits)
  show "x = Ok u \<Longrightarrow> fs' (dir @ [part_name r]) = None \<and> fs' (dir @ [receipt_name r]) = None"
    using run c(2) d(1,2) by (auto split: result.splits)
  show "fs' k = fs k \<or> fs' k = None"
  proof -
    have "fs1 k = fs k \<or> fs1 k = None" using c(1) [of k] c(3) by metis
    moreover have "fs2 k = fs1 k \<or> fs2 k = None" using d(1) [of k] d(3) by metis
    moreover have "fs' = fs1 \<or> fs' = fs2" using run by (cases x1) auto
    ultimately show ?thesis by auto
  qed
qed

section \<open>Lemmas: what a checkpoint records\<close>

definition recorded :: "codec \<Rightarrow> safe_dir \<Rightarrow> download_range \<Rightarrow> file_tree \<Rightarrow> string \<Rightarrow> string \<Rightarrow> bool" where
  "recorded cx dir r fs content digest \<longleftrightarrow>
     fs (dir @ [part_name r]) = Some (RegularFile content) \<and> length content = unat (dr_size r)
     \<and> (\<exists>bytes rc. fs (dir @ [receipt_name r]) = Some (RegularFile bytes)
          \<and> length bytes \<le> max_receipt_bytes \<and> cx_read_receipt cx bytes = Some rc
          \<and> receipt_valid rc r \<and> rc_sha256 rc = digest)"

lemma checkpoint_receipt_Some:
  "checkpoint_receipt cx dir r fs = Ok (Some rc) \<longleftrightarrow>
     (\<exists>content bytes. fs (dir @ [part_name r]) = Some (RegularFile content)
        \<and> fs (dir @ [receipt_name r]) = Some (RegularFile bytes)
        \<and> length bytes \<le> max_receipt_bytes \<and> cx_read_receipt cx bytes = Some rc
        \<and> receipt_valid rc r)"
  (is "_ = ?rhs")
proof -
  have bounded: "(let bytes = take (max_receipt_bytes + 1) content in
      if length bytes > max_receipt_bytes then A else f bytes)
    = (if length content > max_receipt_bytes then A else f content)" for content A and f :: "string \<Rightarrow> 'a"
    by (auto simp: Let_def)
  show ?thesis
  proof (cases "\<exists>content bytes. fs (dir @ [part_name r]) = Some (RegularFile content)
      \<and> fs (dir @ [receipt_name r]) = Some (RegularFile bytes)")
    case True
    then obtain content bytes where "fs (dir @ [part_name r]) = Some (RegularFile content)"
      "fs (dir @ [receipt_name r]) = Some (RegularFile bytes)" by blast
    then show ?thesis
      by (simp add: checkpoint_receipt_def ordinary_def read_leaf_def bounded split: option.split)
        (metis not_le)
  next
    case False
    then have "checkpoint_receipt cx dir r fs \<noteq> Ok (Some rc)"
      by (simp add: checkpoint_receipt_def ordinary_def split: option.split node.split) blast
    then show ?thesis using False by blast
  qed
qed

lemma open_completed_Some:
  "open_completed cx dir r fs = (Ok (Some (content, digest)), fs') \<longleftrightarrow>
     fs' = fs \<and> recorded cx dir r fs content digest"
proof
  assume "open_completed cx dir r fs = (Ok (Some (content, digest)), fs')"
  then obtain rc where rc: "checkpoint_receipt cx dir r fs = Ok (Some rc)"
    and rest: "st_try (map_err Io (read_leaf dir (part_name r) fs), fs) (\<lambda>content fs.
             if length content \<noteq> unat (dr_size r)
             then st_try (discard dir r fs) (\<lambda>_ fs. (Ok None, fs))
             else (Ok (Some (content, rc_sha256 rc)), fs)) = (Ok (Some (content, digest)), fs')"
    by (auto simp: open_completed_def st_try_Ok_iff split: option.splits)
  then show "fs' = fs \<and> recorded cx dir r fs content digest"
    unfolding checkpoint_receipt_Some recorded_def
    by (auto simp: read_leaf_def ordinary_def st_try_Ok_iff split: if_splits)
next
  assume "fs' = fs \<and> recorded cx dir r fs content digest"
  then obtain bytes rc where rc: "fs (dir @ [part_name r]) = Some (RegularFile content)"
    "length content = unat (dr_size r)" "fs' = fs" "rc_sha256 rc = digest"
    "checkpoint_receipt cx dir r fs = Ok (Some rc)"
    unfolding recorded_def checkpoint_receipt_Some by blast
  then show "open_completed cx dir r fs = (Ok (Some (content, digest)), fs')"
    by (simp add: open_completed_def read_leaf_def ordinary_def)
qed

lemma restore_Some:
  "checkpoint_restore cx dir r fs = (Ok (Some (content, digest)), fs') \<longleftrightarrow>
     fs' = fs \<and> recorded cx dir r fs content digest \<and> cx_sha256 cx content = digest"
  (is "?run \<longleftrightarrow> ?rhs")
proof -
  have "?run \<longleftrightarrow> open_completed cx dir r fs = (Ok (Some (content, digest)), fs')
      \<and> hash_file cx content (dr_size r) = digest"
    by (auto simp: checkpoint_restore_def st_try_Ok_iff split: option.splits if_splits)
  also have "\<dots> \<longleftrightarrow> ?rhs"
    unfolding open_completed_Some recorded_def by (auto simp: hash_file_exact)
  finally show ?thesis .
qed

definition spares :: "safe_dir \<Rightarrow> download_range \<Rightarrow> file_tree \<Rightarrow> file_tree \<Rightarrow> bool" where
  "spares dir r fs fs' \<longleftrightarrow>
     (\<forall>k. fs' k = fs k \<or> (fs' k = None \<and> (k = dir @ [part_name r] \<or> k = dir @ [receipt_name r])))"

lemma spares_refl [simp]: "spares dir r fs fs"
  by (simp add: spares_def)

lemma spares_trans: "spares dir r fs fs1 \<Longrightarrow> spares dir r fs1 fs2 \<Longrightarrow> spares dir r fs fs2"
  unfolding spares_def by metis

lemma spares_other:
  "spares dir r fs fs' \<Longrightarrow> k \<noteq> dir @ [part_name r] \<Longrightarrow> k \<noteq> dir @ [receipt_name r] \<Longrightarrow> fs' k = fs k"
  unfolding spares_def by blast

lemma discard_spares: "discard dir r fs = (x, fs') \<Longrightarrow> spares dir r fs fs'"
  unfolding spares_def using discard_cases by metis

definition gone :: "safe_dir \<Rightarrow> download_range \<Rightarrow> file_tree \<Rightarrow> bool" where
  "gone dir r fs \<longleftrightarrow> fs (dir @ [part_name r]) = None \<and> fs (dir @ [receipt_name r]) = None"

lemma discard_then_none:
  assumes "st_try (discard dir r fs) (\<lambda>_ fs. (Ok None, fs)) = (x, fs')"
  shows "spares dir r fs fs'" and "x = Ok v \<Longrightarrow> v = None \<and> gone dir r fs'"
proof -
  obtain y fs1 where d: "discard dir r fs = (y, fs1)" by fastforce
  have run: "fs' = fs1" "x = (case y of Ok _ \<Rightarrow> Ok None | Err e \<Rightarrow> Err e)"
    using assms d by (cases y; auto)+
  show "spares dir r fs fs'" using discard_spares [OF d] run by simp
  show "x = Ok v \<Longrightarrow> v = None \<and> gone dir r fs'"
    using run discard_cases(2) [OF d] by (auto simp: gone_def split: result.splits)
qed

abbreviation discard_none ::
  "safe_dir \<Rightarrow> download_range \<Rightarrow> file_tree \<Rightarrow> ('a option, cli_error) result \<times> file_tree" where
  "discard_none dir r fs \<equiv> st_try (discard dir r fs) (\<lambda>_ fs. (Ok None, fs))"

lemma open_completed_discards:
  "open_completed cx dir r fs = discard_none dir r fs
     \<or> (\<exists>x. open_completed cx dir r fs = (x, fs) \<and> x \<noteq> Ok None)"
  by (cases "checkpoint_receipt cx dir r fs"; cases "read_leaf dir (part_name r) fs")
    (auto simp: open_completed_def split: option.split)

lemma open_completed_effect:
  assumes "open_completed cx dir r fs = (x, fs')"
  shows "spares dir r fs fs'" and "x = Ok None \<Longrightarrow> gone dir r fs'"
  using open_completed_discards [of cx dir r fs] discard_then_none [of dir r fs x fs'] assms by auto

lemma restore_discards:
  assumes "open_completed cx dir r fs = (y, fs1)"
  shows "checkpoint_restore cx dir r fs = discard_none dir r fs1
     \<or> (\<exists>x. checkpoint_restore cx dir r fs = (x, fs1) \<and> (x = Ok None \<longrightarrow> y = Ok None))"
  using assms by (cases y) (auto simp: checkpoint_restore_def split: option.split)

lemma restore_effect:
  assumes "checkpoint_restore cx dir r fs = (x, fs')"
  shows "spares dir r fs fs'" and "x = Ok None \<Longrightarrow> gone dir r fs'"
proof -
  obtain y fs1 where o: "open_completed cx dir r fs = (y, fs1)" by fastforce
  note e = open_completed_effect [OF o] and d = discard_then_none [of dir r fs1 x fs']
  show "spares dir r fs fs'"
    using restore_discards [OF o] assms e(1) d(1) spares_trans [OF e(1)] by auto
  show "x = Ok None \<Longrightarrow> gone dir r fs'"
    using restore_discards [OF o] assms e(2) d(2) by auto
qed

section \<open>Lemmas: completing a range\<close>

definition receipt_of :: "download_range \<Rightarrow> string \<Rightarrow> receipt" where
  "receipt_of r digest =
     \<lparr>rc_version = 1, rc_number = dr_number r, rc_offset = dr_offset r, rc_size = dr_size r,
      rc_sha256 = digest\<rparr>"

text \<open>Writing the receipt: afterwards the receipt is as before or complete, the part untouched.\<close>

lemma write_receipt_cases:
  assumes "st_try (io_step (staged_new ulid dir (receipt_name r) fs)) (\<lambda>staged fs.
      io_step (publish env staged True
        (update_file (staged_key staged) (\<lambda>b. b @ bytes) fs))) = (x, fs')"
  shows "k \<noteq> dir @ [receipt_name r] \<Longrightarrow> k \<noteq> dir @ [temp_name ulid] \<Longrightarrow> fs' k = fs k"
    and "fs' (dir @ [receipt_name r]) = fs (dir @ [receipt_name r])
      \<or> fs' (dir @ [receipt_name r]) = Some (RegularFile bytes)"
    and "is_ok x \<Longrightarrow> fs' (dir @ [receipt_name r]) = Some (RegularFile bytes)"
    and "fs' (dir @ [temp_name ulid]) \<noteq> fs (dir @ [temp_name ulid]) \<Longrightarrow> fs (dir @ [temp_name ulid]) = None"
proof -
  obtain y fs1 where new: "staged_new ulid dir (receipt_name r) fs = (y, fs1)" by fastforce
  have "(k \<noteq> dir @ [receipt_name r] \<longrightarrow> k \<noteq> dir @ [temp_name ulid] \<longrightarrow> fs' k = fs k)
    \<and> (fs' (dir @ [receipt_name r]) = fs (dir @ [receipt_name r])
      \<or> fs' (dir @ [receipt_name r]) = Some (RegularFile bytes))
    \<and> (is_ok x \<longrightarrow> fs' (dir @ [receipt_name r]) = Some (RegularFile bytes))
    \<and> (fs' (dir @ [temp_name ulid]) \<noteq> fs (dir @ [temp_name ulid]) \<longrightarrow> fs (dir @ [temp_name ulid]) = None)" for k
  proof (cases y)
    case (Err e)
    have "fs1 = fs" by (rule staged_new_leaf_Err [OF names_no_slash(2) new [unfolded Err]])
    then show ?thesis using assms new Err by (auto simp: io_step_def)
  next
    case (Ok st)
    let ?temp = "dir @ [temp_name ulid]"
    note leaf = staged_new_leaf [OF names_no_slash(2) new [unfolded Ok]]
    have key: "staged_key st = ?temp" "target_key st = dir @ [receipt_name r]"
      "sf_name st \<noteq> sf_target st"
      using leaf by (auto simp: staged_key_def target_key_def)
    let ?fs2 = "update_file (staged_key st) (\<lambda>b. b @ bytes) fs1"
    have fs2: "?fs2 = fs(?temp \<mapsto> RegularFile bytes)" using leaf key by (simp add: update_file_def)
    obtain z where pub: "publish env st True ?fs2 = (z, fs')" and x: "x = map_err Io z"
      using assms new Ok by (auto simp: io_step_def prod_eq_iff)
    have "?fs2 (staged_key st) = Some (RegularFile bytes)" using fs2 key by simp
    note c = publish_cases [OF this key(3) pub]
    show ?thesis using c(1-3) x leaf unfolding fs2 unfolding key by (cases z) auto
  qed
  then show "k \<noteq> dir @ [receipt_name r] \<Longrightarrow> k \<noteq> dir @ [temp_name ulid] \<Longrightarrow> fs' k = fs k"
    and "fs' (dir @ [receipt_name r]) = fs (dir @ [receipt_name r])
      \<or> fs' (dir @ [receipt_name r]) = Some (RegularFile bytes)"
    and "is_ok x \<Longrightarrow> fs' (dir @ [receipt_name r]) = Some (RegularFile bytes)"
    and "fs' (dir @ [temp_name ulid]) \<noteq> fs (dir @ [temp_name ulid]) \<Longrightarrow> fs (dir @ [temp_name ulid]) = None"
    by auto
qed

lemma complete_cases:
  assumes st: "st = \<lparr>sf_directory = dir, sf_name = temp_name u, sf_target = part_name r\<rparr>"
    and fs: "fs (dir @ [temp_name u]) = Some (RegularFile content)"
    and run: "checkpoint_complete cx part_env receipt_env ulid dir r st digest fs = (x, fs')"
  shows "k \<notin> {dir @ [part_name r], dir @ [receipt_name r], dir @ [temp_name u], dir @ [temp_name ulid]}
      \<Longrightarrow> fs' k = fs k"
    and "fs' (dir @ [part_name r]) = fs (dir @ [part_name r])
        \<and> fs' (dir @ [receipt_name r]) = fs (dir @ [receipt_name r])
      \<or> fs' (dir @ [part_name r]) = Some (RegularFile content)
        \<and> (fs' (dir @ [receipt_name r]) = fs (dir @ [receipt_name r])
           \<or> fs' (dir @ [receipt_name r]) = Some (RegularFile (cx_receipt cx (receipt_of r digest))))"
    and "is_ok x \<Longrightarrow> fs' (dir @ [part_name r]) = Some (RegularFile content)
        \<and> fs' (dir @ [receipt_name r]) = Some (RegularFile (cx_receipt cx (receipt_of r digest)))"
    and "temp_name ulid \<noteq> temp_name u \<Longrightarrow> fs' (dir @ [temp_name ulid]) \<noteq> fs (dir @ [temp_name ulid])
      \<Longrightarrow> fs (dir @ [temp_name ulid]) = None"
proof -
  let ?part = "dir @ [part_name r]" and ?receipt = "dir @ [receipt_name r]"
  obtain y fs1 where pub: "publish part_env st False fs = (y, fs1)" by fastforce
  have key: "staged_key st = dir @ [temp_name u]" "target_key st = ?part" "sf_name st \<noteq> sf_target st"
    using st by (auto simp: staged_key_def target_key_def)
  have "fs (staged_key st) = Some (RegularFile content)" using key fs by simp
  note c = publish_cases [OF this key(3) pub, unfolded key]
  have rec: "fs1 ?receipt = fs ?receipt" using c(1) [of ?receipt] by simp
  have "(k \<notin> {?part, ?receipt, dir @ [temp_name u], dir @ [temp_name ulid]} \<longrightarrow> fs' k = fs k)
    \<and> (fs' ?part = fs ?part \<and> fs' ?receipt = fs ?receipt
      \<or> fs' ?part = Some (RegularFile content) \<and> (fs' ?receipt = fs ?receipt
         \<or> fs' ?receipt = Some (RegularFile (cx_receipt cx (receipt_of r digest)))))
    \<and> (is_ok x \<longrightarrow> fs' ?part = Some (RegularFile content)
        \<and> fs' ?receipt = Some (RegularFile (cx_receipt cx (receipt_of r digest))))
    \<and> (temp_name ulid \<noteq> temp_name u \<longrightarrow> fs' (dir @ [temp_name ulid]) \<noteq> fs (dir @ [temp_name ulid])
      \<longrightarrow> fs (dir @ [temp_name ulid]) = None)" for k
  proof (cases y)
    case (Err e)
    then have "fs' = fs1" "\<not> is_ok x" using run pub by (auto simp: checkpoint_complete_def io_step_def)
    then show ?thesis using c(1,2) rec c(1) [of "dir @ [temp_name ulid]"] by auto
  next
    case (Ok v)
    then have "st_try (io_step (staged_new ulid dir (receipt_name r) fs1)) (\<lambda>staged fs.
        io_step (publish receipt_env staged True
          (update_file (staged_key staged) (\<lambda>b. b @ cx_receipt cx (receipt_of r digest)) fs)))
      = (x, fs')"
      using run pub by (simp add: checkpoint_complete_def io_step_def receipt_of_def Let_def)
    note w = write_receipt_cases [OF this]
    have "fs1 ?part = Some (RegularFile content)" using c(3) Ok by simp
    moreover have "temp_name ulid \<noteq> temp_name u \<Longrightarrow> fs1 (dir @ [temp_name ulid]) = fs (dir @ [temp_name ulid])"
      using c(1) [of "dir @ [temp_name ulid]"] by simp
    ultimately show ?thesis using w(2,3,4) w(1) [of k] w(1) [of ?part] c(1) [of k] rec by auto
  qed
  then show "k \<notin> {?part, ?receipt, dir @ [temp_name u], dir @ [temp_name ulid]} \<Longrightarrow> fs' k = fs k"
    and "fs' ?part = fs ?part \<and> fs' ?receipt = fs ?receipt
      \<or> fs' ?part = Some (RegularFile content) \<and> (fs' ?receipt = fs ?receipt
         \<or> fs' ?receipt = Some (RegularFile (cx_receipt cx (receipt_of r digest))))"
    and "is_ok x \<Longrightarrow> fs' ?part = Some (RegularFile content)
        \<and> fs' ?receipt = Some (RegularFile (cx_receipt cx (receipt_of r digest)))"
    and "temp_name ulid \<noteq> temp_name u \<Longrightarrow> fs' (dir @ [temp_name ulid]) \<noteq> fs (dir @ [temp_name ulid])
      \<Longrightarrow> fs (dir @ [temp_name ulid]) = None"
    by auto
qed

section \<open>A concrete coding\<close>

text \<open>For the witnesses: fixed-width fields as the receipt's text, a length as the hash.\<close>

definition demo_hash :: "string \<Rightarrow> string" where
  "demo_hash b = replicate 63 (CHR ''0'') @ [digit_char (length b mod 10)]"

definition demo_codec :: codec where
  "demo_codec =
     \<lparr>cx_receipt = (\<lambda>r. le_bytes 4 (unat (rc_version r)) @ le_bytes 4 (unat (rc_number r))
        @ le_bytes 8 (unat (rc_offset r)) @ le_bytes 8 (unat (rc_size r)) @ rc_sha256 r),
      cx_read_receipt = (\<lambda>s. Some
        \<lparr>rc_version = of_nat (le_value (take 4 s)), rc_number = of_nat (le_value (take 4 (drop 4 s))),
         rc_offset = of_nat (le_value (take 8 (drop 8 s))),
         rc_size = of_nat (le_value (take 8 (drop 16 s))), rc_sha256 = drop 24 s\<rparr>),
      cx_sha256 = demo_hash, cx_identity = (\<lambda>remote local. rf_path remote @ [slash] @ local),
      cx_crc64 = (\<lambda>b. of_nat (length b))\<rparr>"

lemma le_value_words [simp]:
  "le_value (le_bytes 4 (unat (w :: u32))) = unat w" "le_value (le_bytes 8 (unat (v :: u64))) = unat v"
  using unsigned_less [of w] unsigned_less [of v] by (auto intro!: le_value_bytes)

lemma digit_char_hex: "d < 10 \<Longrightarrow> is_ascii_hexdigit (digit_char d)"
  by (auto simp: is_ascii_hexdigit_def is_ascii_digit_def digit_char_def)

lemma demo_codec_ok: "codec_ok demo_codec"
proof -
  have "\<forall>r. cx_read_receipt demo_codec (cx_receipt demo_codec r) = Some r"
    by (simp add: demo_codec_def)
  moreover have "\<forall>r. length (rc_sha256 r) = 64 \<longrightarrow>
      length (cx_receipt demo_codec r) \<le> max_receipt_bytes"
    by (simp add: demo_codec_def max_receipt_bytes_def)
  moreover have "is_ascii_hexdigit (CHR ''0'')" by (simp add: is_ascii_hexdigit_def is_ascii_digit_def)
  then have "\<forall>b. length (cx_sha256 demo_codec b) = 64
      \<and> list_all is_ascii_hexdigit (cx_sha256 demo_codec b)"
    by (auto simp: demo_codec_def demo_hash_def digit_char_hex list_all_iff)
  ultimately show ?thesis unfolding codec_ok_def by blast
qed

section \<open>Properties\<close>



text \<open>
  C25: completing a range survives a crash or a failure of any of its system calls. Whatever
  call fails, the next restore returns exactly the completed bytes and their digest, or
  discards the range; when the completion reported success it returns them.
\<close>

theorem range_recovery:
  assumes "codec_ok cx"
    and "st = \<lparr>sf_directory = dir, sf_name = temp_name u, sf_target = part_name r\<rparr>"
    and "fs (dir @ [temp_name u]) = Some (RegularFile content)"
    and "length content = unat (dr_size r)"
    and "fs (dir @ [part_name r]) = None" and "fs (dir @ [receipt_name r]) = None"
    and "checkpoint_complete cx part_env receipt_env ulid dir r st (cx_sha256 cx content) fs = (x, fs1)"
    and "checkpoint_restore cx dir r fs1 = (y, fs2)"
  shows "y = Ok (Some (content, cx_sha256 cx content))
      \<or> (y = Ok None \<and> \<not> is_ok x
         \<and> fs2 (dir @ [part_name r]) = None \<and> fs2 (dir @ [receipt_name r]) = None)"
proof -
  let ?part = "dir @ [part_name r]" and ?receipt = "dir @ [receipt_name r]"
  let ?digest = "cx_sha256 cx content"
  let ?bytes = "cx_receipt cx (receipt_of r ?digest)"
  note c = complete_cases [OF assms(2,3,7)]
  show ?thesis
  proof (cases "fs1 ?part = Some (RegularFile content) \<and> fs1 ?receipt = Some (RegularFile ?bytes)")
    case True
    have "receipt_valid (receipt_of r ?digest) r" "length ?bytes \<le> max_receipt_bytes"
      "cx_read_receipt cx ?bytes = Some (receipt_of r ?digest)" "rc_sha256 (receipt_of r ?digest) = ?digest"
      using assms(1) by (auto simp: codec_ok_def receipt_valid_def receipt_of_def)
    then have "recorded cx dir r fs1 content ?digest" using True assms(4) by (auto simp: recorded_def)
    then have "checkpoint_restore cx dir r fs1 = (Ok (Some (content, ?digest)), fs1)"
      unfolding restore_Some by simp
    then show ?thesis using assms(8) by simp
  next
    case False
    then have nx: "\<not> is_ok x" and rec: "fs1 ?receipt = None"
      and part: "fs1 ?part = None \<or> fs1 ?part = Some (RegularFile content)"
      using c(2,3) assms(5,6) by auto
    then have "checkpoint_receipt cx dir r fs1 = Ok None"
      by (auto simp: checkpoint_receipt_def ordinary_def)
    moreover have "\<exists>fs3. discard dir r fs1 = (Ok (), fs3)"
      using rec part by (auto simp: discard_def discard_name_def ordinary_def remove_leaf_def io_step_def)
    ultimately have "y = Ok None"
      using assms(8) by (auto simp: checkpoint_restore_def open_completed_def)
    then show ?thesis using nx restore_effect(2) [OF assms(8)] by (simp add: gone_def)
  qed
qed

theorem range_recovery_witness:
  "let r = \<lparr>dr_number = 1, dr_offset = 0, dr_size = 3\<rparr>;
       st = \<lparr>sf_directory = [''d''], sf_name = temp_name ''1'', sf_target = part_name r\<rparr>;
       fs = (\<lambda>_. None)([''d'', temp_name ''1''] \<mapsto> RegularFile ''abc'');
       quiet = \<lparr>pv_fault = None, pv_cleanup = True\<rparr>;
       broken = \<lparr>pv_fault = Some (AtRename, native_exists), pv_cleanup = False\<rparr>;
       fs1 = snd (checkpoint_complete demo_codec quiet broken ''2'' [''d''] r st (demo_hash ''abc'') fs)
   in fst (checkpoint_restore demo_codec [''d''] r fs1) \<in> {Ok (Some (''abc'', demo_hash ''abc'')), Ok None}"
proof -
  let ?r = "\<lparr>dr_number = 1, dr_offset = 0, dr_size = 3\<rparr>"
  let ?st = "\<lparr>sf_directory = [''d''], sf_name = temp_name ''1'', sf_target = part_name ?r\<rparr>"
  let ?fs = "(\<lambda>_. None)([''d'', temp_name ''1''] \<mapsto> RegularFile ''abc'')"
  let ?quiet = "\<lparr>pv_fault = None, pv_cleanup = True\<rparr>"
  let ?broken = "\<lparr>pv_fault = Some (AtRename, native_exists), pv_cleanup = False\<rparr>"
  have hash: "cx_sha256 demo_codec ''abc'' = demo_hash ''abc''" by (simp add: demo_codec_def)
  obtain x fs1 where run: "checkpoint_complete demo_codec ?quiet ?broken ''2'' [''d''] ?r ?st
      (cx_sha256 demo_codec ''abc'') ?fs = (x, fs1)" by fastforce
  obtain y fs2 where restore: "checkpoint_restore demo_codec [''d''] ?r fs1 = (y, fs2)" by fastforce
  have "y = Ok (Some (''abc'', demo_hash ''abc'')) \<or> y = Ok None"
    using range_recovery [where content = "''abc''" and fs = ?fs and u = "''1''",
        OF demo_codec_ok refl _ _ _ _ run restore] hash by auto
  then show ?thesis using run restore hash by (auto simp: Let_def)
qed

text \<open>
  Two downloads never hold one checkpoint at the same time. When a second checkpoint opens
  while the first is still locked, the two belong to different remote identities or local
  paths.
\<close>

theorem checkpoint_exclusive:
  assumes "checkpoint_open cx root a la (fs1, locks1) = (Ok dir1, fs2, locks2)"
    and "checkpoint_open cx root b lb (fs3, locks3) = (Ok dir2, fs4, locks4)"
    and "set locks2 \<subseteq> set locks3"
  shows "cx_identity cx a la \<noteq> cx_identity cx b lb \<and> dir1 \<noteq> dir2"
proof -
  have opened: "dir \<notin> set locks \<and> dir \<in> set locks' \<and> dir = root @ split_on slash (cx_sha256 cx (cx_identity cx r l))"
    if run: "checkpoint_open cx root r l (fs, locks) = (Ok dir, fs', locks')" for r l fs locks dir fs' locks'
  proof -
    let ?name = "cx_sha256 cx (cx_identity cx r l)"
    obtain d fsd where sd: "safe_directory root ?name True fs = (Ok d, fsd)"
      and "dir = d" "dir \<notin> set locks" "locks' = dir # locks"
      using run
      by (cases "safe_directory root ?name True fs"; cases "fst (safe_directory root ?name True fs)")
        (auto simp: checkpoint_open_def io_step_def Let_def split: if_splits result.splits prod.splits)
    moreover have "d = root @ split_on slash ?name"
      using sd descend_Ok by (auto simp: safe_directory_def split: if_splits)
    ultimately show ?thesis by simp
  qed
  show ?thesis using opened [OF assms(1)] opened [OF assms(2)] assms(3) by auto
qed

theorem checkpoint_exclusive_witness:
  "let remote = (\<lambda>p. \<lparr>rf_path = p, rf_size = 3, rf_etag = ''v1'', rf_crc64 = 0, rf_updated_at = 0\<rparr>);
       cx = demo_codec\<lparr>cx_sha256 := filter (\<lambda>c. c \<noteq> slash)\<rparr>;
       (r1, fs, locks) = checkpoint_open cx [''d''] (remote ''a'') ''a'' ((\<lambda>_. None), []);
       (r2, _, _) = checkpoint_open cx [''d''] (remote ''b'') ''b'' (fs, locks)
   in r1 = Ok [''d'', ''aa''] \<and> r2 = Ok [''d'', ''bb''] \<and> cx_identity cx (remote ''a'') ''a'' \<noteq> cx_identity cx (remote ''b'') ''b''"
proof -
  let ?remote = "\<lambda>p. \<lparr>rf_path = p, rf_size = 3, rf_etag = ''v1'', rf_crc64 = 0, rf_updated_at = 0\<rparr>"
  let ?cx = "demo_codec\<lparr>cx_sha256 := filter (\<lambda>c. c \<noteq> slash)\<rparr>"
  let ?one = "checkpoint_open ?cx [''d''] (?remote ''a'') ''a'' ((\<lambda>_. None), [])"
  let ?two = "checkpoint_open ?cx [''d''] (?remote ''b'') ''b'' (snd ?one)"
  have "is_ok (validate_relative ''a'')" "is_ok (validate_relative ''b'')"
    "is_ok (validate_relative ''aa'')" "is_ok (validate_relative ''bb'')" by code_simp+
  then have valid: "validate_relative ''a'' = Ok ()" "validate_relative ''b'' = Ok ()"
    "validate_relative ''aa'' = Ok ()" "validate_relative ''bb'' = Ok ()" by (simp_all add: is_ok_unit)
  have one: "fst ?one = Ok [''d'', ''aa''] \<and> snd (snd ?one) = [[''d'', ''aa'']]" 
    by (simp add: checkpoint_open_def has_identity_def demo_codec_def io_step_def safe_directory_def
        child_def exclusive_def valid Let_def starts_with_iff)
  have two: "fst ?two = Ok [''d'', ''bb'']"
    by (simp add: checkpoint_open_def has_identity_def demo_codec_def io_step_def safe_directory_def
        child_def exclusive_def valid Let_def starts_with_iff)
  obtain fs locks where s1: "?one = (Ok [''d'', ''aa''], fs, locks)" using one by (metis prod.collapse)
  then obtain fs' locks' where s2: "checkpoint_open ?cx [''d''] (?remote ''b'') ''b'' (fs, locks)
      = (Ok [''d'', ''bb''], fs', locks')" using two by (metis prod.collapse snd_conv)
  show ?thesis using checkpoint_exclusive [OF s1 s2] s1 s2 by (simp add: Let_def)
qed

end
