(* ===== verification/Transfer_Policy.thy ===== *)
theory Transfer_Policy
  imports Cli_Error
begin

text \<open>
  The policies of a transfer: \<open>crates/tos-core/src/infra/retry.rs\<close> (which responses are
  retried and after which delay), \<open>crates/adrive/src/domain/rate_limiter.rs\<close> with its
  callers, and the command-wide \<open>BandwidthLimiter\<close> and the sizes of
  \<open>crates/adrive/src/handler/share_content.rs\<close> and \<open>high_level.rs\<close>. Instants and
  durations are numbers, of milliseconds or nanoseconds as stated.
\<close>

section \<open>Retrying storage requests\<close>

definition max_retry_after_secs :: nat where
  "max_retry_after_secs = 600"

definition is_server_error :: "nat \<Rightarrow> bool" where
  "is_server_error status \<longleftrightarrow> 500 \<le> status \<and> status < 600"

definition should_retry_storage_status :: "nat \<Rightarrow> bool \<Rightarrow> bool" where
  "should_retry_storage_status status is_idempotent \<longleftrightarrow>
     status = 429 \<or> is_server_error status \<or> (is_idempotent \<and> status = 408)"

text \<open>In milliseconds.\<close>

definition storage_backoff_delay :: "u32 \<Rightarrow> u64" where
  "storage_backoff_delay attempt =
     (let shift = min attempt 5 in saturating_mul 200 (push_bit (unat shift) 1))"

text \<open>
  In nanoseconds. \<open>header\<close> is the value of \<open>Retry-After\<close> when it is present and
  printable; \<open>parse_http_date\<close> is that of the \<open>httpdate\<close> crate, an instant in
  nanoseconds since the epoch like \<open>now\<close>.
\<close>

definition storage_retry_after_delay ::
  "(string \<Rightarrow> nat option) \<Rightarrow> nat \<Rightarrow> string option \<Rightarrow> nat \<Rightarrow> nat option" where
  "storage_retry_after_delay parse_http_date status header now =
     (if status \<noteq> 429 \<and> \<not> is_server_error status then None
      else Option.bind header (\<lambda>raw.
        let value = trim raw
        in Option.bind
             (case parse_unsigned u64_max value of
                Some secs \<Rightarrow> Some (secs * 1000000000)
              | None \<Rightarrow> map_option (\<lambda>retry_at. retry_at - now) (parse_http_date value))
             (\<lambda>delay. Some (min delay (max_retry_after_secs * 1000000000)))))"

section \<open>The token bucket of the ADrive client\<close>

text \<open>Instants in milliseconds.\<close>

record rate_limiter =
  rl_capacity :: u64
  rl_rate :: u64
  rl_tokens :: u64
  rl_checkpoint :: nat

definition limiter_new :: "int \<Rightarrow> int \<Rightarrow> nat \<Rightarrow> rate_limiter" where
  "limiter_new capacity rate now =
     (let rate = of_int (max rate 0);
          capacity = of_int (max capacity 0);
          capacity = (if capacity < rate then rate else capacity)
      in \<lparr>rl_capacity = capacity, rl_rate = rate, rl_tokens = 0, rl_checkpoint = now\<rparr>)"

definition is_unlimited :: "rate_limiter \<Rightarrow> bool" where
  "is_unlimited l \<longleftrightarrow> rl_capacity l = 0 \<or> rl_rate l = 0"

definition refilled :: "nat \<Rightarrow> rate_limiter \<Rightarrow> u64" where
  "refilled now l =
     (let elapsed_ms = (of_nat (now - rl_checkpoint l) :: u64);
          delta = saturating_mul elapsed_ms (rl_rate l) div 1000 + 1
      in min (saturating_add (rl_tokens l) delta) (rl_capacity l))"

text \<open>\<open>acquire\<close>: granted or not, the wait in milliseconds, and the limiter afterwards.\<close>

definition acquire :: "nat \<Rightarrow> nat \<Rightarrow> rate_limiter \<Rightarrow> (bool \<times> u64 option) \<times> rate_limiter" where
  "acquire now bytes l =
     (if is_unlimited l \<or> bytes = 0 then ((True, None), l)
      else let want = min (of_nat bytes) (rl_capacity l);
               tokens = refilled now l
           in if want \<le> tokens
              then ((True, None), l\<lparr>rl_tokens := tokens - want, rl_checkpoint := now\<rparr>)
              else let missing = want - tokens;
                       wait_ms = max (saturating_add (saturating_mul missing 1000) (rl_rate l - 1)
                                        div rl_rate l) 10
                   in ((False, Some wait_ms), l\<lparr>rl_tokens := tokens, rl_checkpoint := now\<rparr>))"

text \<open>
  \<open>throttle_body\<close>: one call of \<open>acquire\<close>, one sleep when it is refused; the bytes are
  sent at the instant that is returned.
\<close>

definition throttle_body :: "rate_limiter option \<Rightarrow> nat \<Rightarrow> nat \<Rightarrow> rate_limiter option \<times> nat" where
  "throttle_body limiter bytes now =
     (case limiter of
        None \<Rightarrow> (None, now)
      | Some l \<Rightarrow>
          (case acquire now bytes l of
             ((True, _), l) \<Rightarrow> (Some l, now)
           | ((False, Some wait), l) \<Rightarrow> (Some l, now + unat wait)
           | ((False, None), l) \<Rightarrow> (Some l, now)))"

section \<open>Sizes\<close>

fun take_digits :: "string \<Rightarrow> string" where
  "take_digits [] = []"
| "take_digits (c # s) = (if is_ascii_digit c then c # take_digits s else [])"

definition parse_size_bytes :: "string \<Rightarrow> u64 option" where
  "parse_size_bytes value =
     (let trimmed = trim value;
          digits_len = length (take_digits trimmed)
      in Option.bind (parse_unsigned u64_max (take digits_len trimmed)) (\<lambda>number.
           let u = to_ascii_lowercase (trim (drop digits_len trimmed));
               multiplier =
                 (if u = '''' \<or> u = ''b'' then Some 1
                  else if u = ''k'' \<or> u = ''kb'' \<or> u = ''kib'' then Some (2 ^ 10)
                  else if u = ''m'' \<or> u = ''mb'' \<or> u = ''mib'' then Some (2 ^ 20)
                  else if u = ''g'' \<or> u = ''gb'' \<or> u = ''gib'' then Some (2 ^ 30)
                  else if u = ''t'' \<or> u = ''tb'' \<or> u = ''tib'' then Some (2 ^ 40)
                  else None)
           in Option.bind multiplier (\<lambda>m. checked_mul (of_nat number) m)))"

definition rate_limiter_from_limit ::
  "string option \<Rightarrow> nat \<Rightarrow> (rate_limiter option, cli_error) result" where
  "rate_limiter_from_limit limit_text now =
     (case limit_text of
        None \<Rightarrow> Ok None
      | Some l \<Rightarrow>
          (case parse_size_bytes l of
             None \<Rightarrow> Err (ValidationError (''invalid bandwidth limit '' @ [CHR 0x27] @ l @ [CHR 0x27]
                 @ '': expected <number>[B|KB|MB|GB|TB]''))
           | Some bytes_per_second \<Rightarrow>
               (let capped = min (uint bytes_per_second) (2 ^ 63 - 1)
                in Ok (Some (limiter_new capped capped now)))))"

section \<open>The command-wide bandwidth budget\<close>

text \<open>Instants and durations in nanoseconds; \<open>instant_max\<close> is the last instant of the clock.\<close>

record bandwidth_limiter =
  bw_bytes_per_second :: u64
  bw_next_available :: nat

definition bandwidth_new :: "u64 \<Rightarrow> nat \<Rightarrow> bandwidth_limiter" where
  "bandwidth_new bytes_per_second now =
     \<lparr>bw_bytes_per_second = bytes_per_second, bw_next_available = now\<rparr>"

definition bandwidth_from_limit ::
  "string option \<Rightarrow> nat \<Rightarrow> (bandwidth_limiter option, cli_error) result" where
  "bandwidth_from_limit limit_text now =
     (case limit_text of
        None \<Rightarrow> Ok None
      | Some l \<Rightarrow>
          (case parse_size_bytes l of
             None \<Rightarrow> Err (ValidationError
               ''bandwidth-limit must be a valid size, for example 100MB'')
           | Some bytes_per_second \<Rightarrow>
               Ok (if bytes_per_second \<noteq> 0 then Some (bandwidth_new bytes_per_second now) else None)))"

definition reservation_nanos :: "nat \<Rightarrow> u64 \<Rightarrow> nat" where
  "reservation_nanos bytes bytes_per_second =
     (let rate = unat bytes_per_second
      in bytes div rate * 1000000000 + (bytes mod rate * 1000000000 + (rate - 1)) div rate)"

text \<open>\<open>consume\<close>: the instant until which it sleeps, or the error of an overflowing clock.\<close>

definition consume ::
  "nat \<Rightarrow> nat \<Rightarrow> nat \<Rightarrow> bandwidth_limiter \<Rightarrow> (nat, cli_error) result \<times> bandwidth_limiter" where
  "consume instant_max now bytes l =
     (let deadline = max (bw_next_available l) now + reservation_nanos bytes (bw_bytes_per_second l)
      in if deadline \<le> instant_max then (Ok deadline, l\<lparr>bw_next_available := deadline\<rparr>)
         else (Err (TransferFailed ''bandwidth reservation exceeds supported duration''), l))"

section \<open>Lemmas: delays\<close>

lemma backoff_value: "unat (storage_backoff_delay attempt) = 200 * 2 ^ min (unat attempt) 5"
proof -
  have "unat (min attempt 5) = min (unat attempt) 5"
    by (auto simp: min_def word_le_nat_alt)
  moreover have "unat (push_bit k (1 :: u64)) = 2 ^ k" if "k \<le> 5" for k
  proof -
    have "k \<in> {0, 1, 2, 3, 4, 5}" using that by auto
    then show ?thesis by (auto simp: push_bit_eq_mult)
  qed
  moreover have "(200 :: nat) * 2 ^ min (unat attempt) 5 \<le> u64_max"
  proof -
    have "(2 :: nat) ^ min (unat attempt) 5 \<le> 2 ^ 5" by (rule power_increasing) auto
    then show ?thesis by (simp add: u64_max_def)
  qed
  ultimately show ?thesis by (simp add: storage_backoff_delay_def Let_def)
qed

section \<open>Lemmas: the token bucket\<close>

definition limiter_wf :: "rate_limiter \<Rightarrow> bool" where
  "limiter_wf l \<longleftrightarrow> rl_rate l \<le> rl_capacity l \<and> rl_tokens l \<le> rl_capacity l"

lemma limiter_new_wf: "limiter_wf (limiter_new capacity rate now)"
  by (auto simp: limiter_wf_def limiter_new_def Let_def not_less)

text \<open>What one call grants is paid from the tokens, the elapsed time and one token more.\<close>

definition granted :: "rate_limiter \<Rightarrow> nat \<Rightarrow> bool \<Rightarrow> nat" where
  "granted l bytes is_granted = (if is_granted then min bytes (unat (rl_capacity l)) else 0)"

lemma unat_min: "unat (min a b) = min (unat a) (unat b)"
  by (simp add: min_def word_le_nat_alt)

lemma unat_refill:
  "unat (refilled now l)
     \<le> unat (rl_tokens l) + (now - rl_checkpoint l) * unat (rl_rate l) div 1000 + 1"
proof -
  let ?elapsed = "now - rl_checkpoint l" and ?rate = "rl_rate l"
  let ?m = "saturating_mul (of_nat ?elapsed) ?rate"
  have "unat ?m \<le> ?elapsed * unat ?rate"
  proof -
    have "unat (of_nat ?elapsed :: u64) \<le> ?elapsed" by (simp add: unat_of_nat)
    then have "unat (of_nat ?elapsed :: u64) * unat ?rate \<le> ?elapsed * unat ?rate" by (rule mult_le_mono1)
    then show ?thesis unfolding unat_saturating_mul by (rule order_trans [OF min.cobounded1])
  qed
  then have "unat (?m div 1000) \<le> ?elapsed * unat ?rate div 1000" by (simp add: unat_div div_le_mono)
  moreover have "unat (?m div 1000 + 1) \<le> unat (?m div 1000) + 1"
    by (simp add: unat_word_ariths)
  ultimately have "unat (rl_tokens l) + unat (?m div 1000 + 1)
      \<le> unat (rl_tokens l) + ?elapsed * unat ?rate div 1000 + 1" by linarith
  then show ?thesis
    unfolding refilled_def Let_def unat_min unat_saturating_add
    by (rule order_trans [OF min.cobounded1 order_trans [OF min.cobounded1]])
qed

lemma refilled_le: "unat (refilled now l) \<le> unat (rl_capacity l)"
  by (simp add: refilled_def Let_def unat_min)

lemma acquire_refused:
  assumes "acquire now bytes l = ((False, wait), l')"
  shows "\<not> is_unlimited l" and "bytes \<noteq> 0"
    and "refilled now l < min (of_nat bytes) (rl_capacity l)"
    and "l' = l\<lparr>rl_tokens := refilled now l, rl_checkpoint := now\<rparr>"
    and "wait = Some (max (saturating_add
        (saturating_mul (min (of_nat bytes) (rl_capacity l) - refilled now l) 1000) (rl_rate l - 1)
          div rl_rate l) 10)"
  using assms unfolding acquire_def Let_def
  by (simp_all only: not_le prod.inject simp_thms split: if_split_asm) auto

lemma acquire_step:
  assumes "acquire now bytes l = ((ok, wait), l')" and "\<not> is_unlimited l" and "bytes \<le> u64_max"
    and "limiter_wf l" and "rl_checkpoint l \<le> now"
  shows "limiter_wf l' \<and> rl_rate l' = rl_rate l \<and> rl_capacity l' = rl_capacity l
    \<and> rl_checkpoint l \<le> rl_checkpoint l' \<and> rl_checkpoint l' \<le> now
    \<and> 1000 * (unat (rl_tokens l') + granted l bytes ok)
      \<le> 1000 * unat (rl_tokens l) + (rl_checkpoint l' - rl_checkpoint l) * unat (rl_rate l) + 1000"
proof (cases "bytes = 0")
  case True
  then show ?thesis using assms by (auto simp: acquire_def granted_def)
next
  case False
  let ?want = "min (of_nat bytes) (rl_capacity l)"
  let ?elapsed = "now - rl_checkpoint l"
  let ?tokens = "refilled now l"
  have want: "unat ?want = min bytes (unat (rl_capacity l))"
    using assms(3) by (simp add: unat_min unat_of_nat_u64)
  have "unat ?tokens \<le> unat (rl_tokens l) + ?elapsed * unat (rl_rate l) div 1000 + 1"
    by (rule unat_refill)
  then have refill: "1000 * unat ?tokens \<le> 1000 * unat (rl_tokens l) + ?elapsed * unat (rl_rate l) + 1000"
    by linarith
  show ?thesis
  proof (cases "?want \<le> ?tokens")
    case True
    then have "l' = l\<lparr>rl_tokens := ?tokens - ?want, rl_checkpoint := now\<rparr>" "ok"
      using assms(1,2) False by (auto simp: acquire_def Let_def)
    moreover have "unat (?tokens - ?want) + unat ?want = unat ?tokens"
      using True by (simp add: unat_sub_u64 word_le_nat_alt)
    moreover have "?tokens - ?want \<le> rl_capacity l"
    proof -
      show ?thesis using calculation(3) refilled_le [of now l] by (simp only: word_le_nat_alt)
    qed
    ultimately show ?thesis
      using refill want assms(4,5) by (simp add: limiter_wf_def granted_def)
  next
    case False2: False
    then have "l' = l\<lparr>rl_tokens := ?tokens, rl_checkpoint := now\<rparr>" "\<not> ok"
      using assms(1,2) False by (auto simp: acquire_def Let_def)
    then show ?thesis
      using refill refilled_le [of now l] assms(4,5)
      by (simp add: limiter_wf_def granted_def word_le_nat_alt)
  qed
qed

text \<open>A run of calls at the given instants, and the bytes it grants.\<close>

fun acquire_all :: "(nat \<times> nat) list \<Rightarrow> rate_limiter \<Rightarrow> nat \<times> rate_limiter" where
  "acquire_all [] l = (0, l)"
| "acquire_all ((now, bytes) # calls) l =
     (let ((ok, _), l1) = acquire now bytes l;
          (rest, l2) = acquire_all calls l1
      in (granted l bytes ok + rest, l2))"

lemma acquire_all_bound:
  assumes "sorted (map fst calls)" and "\<forall>c \<in> set calls. rl_checkpoint l \<le> fst c \<and> snd c \<le> u64_max"
    and "\<forall>c \<in> set calls. fst c \<le> stop" and "rl_checkpoint l \<le> stop"
    and "\<not> is_unlimited l" and "limiter_wf l" and "acquire_all calls l = (sent, l')"
  shows "limiter_wf l' \<and> 1000 * (unat (rl_tokens l') + sent)
    \<le> 1000 * unat (rl_tokens l) + (stop - rl_checkpoint l) * unat (rl_rate l) + 1000 * length calls"
  using assms
proof (induction calls arbitrary: l sent)
  case Nil
  then show ?case by simp
next
  case (Cons c calls)
  obtain now bytes where c: "c = (now, bytes)" by (cases c)
  obtain ok wait l1 where one: "acquire now bytes l = ((ok, wait), l1)"
    by (metis prod.collapse)
  obtain rest l2 where run: "acquire_all calls l1 = (rest, l2)" by fastforce
  have res: "sent = granted l bytes ok + rest" "l' = l2"
    using Cons.prems(7) c one run by (auto simp: Let_def)
  note step = acquire_step [OF one Cons.prems(5) _ Cons.prems(6)]
  have step: "limiter_wf l1" "rl_rate l1 = rl_rate l" "rl_capacity l1 = rl_capacity l"
    "rl_checkpoint l \<le> rl_checkpoint l1" "rl_checkpoint l1 \<le> now"
    "1000 * (unat (rl_tokens l1) + granted l bytes ok)
      \<le> 1000 * unat (rl_tokens l) + (rl_checkpoint l1 - rl_checkpoint l) * unat (rl_rate l) + 1000"
    using step Cons.prems(2) c by auto
  have "rl_checkpoint l1 \<le> stop" using step(5) Cons.prems(3) c by auto
  moreover have "\<forall>c \<in> set calls. rl_checkpoint l1 \<le> fst c \<and> snd c \<le> u64_max"
    using Cons.prems(1,2) c step(5) by auto
  moreover have "\<not> is_unlimited l1" using Cons.prems(5) step(2,3) by (simp add: is_unlimited_def)
  ultimately have IH: "limiter_wf l'" "1000 * (unat (rl_tokens l') + rest)
      \<le> 1000 * unat (rl_tokens l1) + (stop - rl_checkpoint l1) * unat (rl_rate l) + 1000 * length calls"
    using Cons.IH [of l1 rest] Cons.prems(1,3) run res step(1,2) by auto
  have "(stop - rl_checkpoint l) * unat (rl_rate l)
      = (stop - rl_checkpoint l1) * unat (rl_rate l) + (rl_checkpoint l1 - rl_checkpoint l) * unat (rl_rate l)"
    using step(4) \<open>rl_checkpoint l1 \<le> stop\<close> by (simp flip: add_mult_distrib)
  then show ?case using IH step(6) res by simp
qed

section \<open>Lemmas: the bandwidth budget\<close>

lemma reservation_covers:
  assumes "0 < unat rate"
  shows "bytes * 1000000000 \<le> reservation_nanos bytes rate * unat rate"
proof -
  let ?r = "unat rate" and ?g = "1000000000 :: nat"
  let ?x = "bytes mod ?r * ?g"
  have up: "?x \<le> (?x + (?r - 1)) div ?r * ?r"
  proof -
    have "?x + (?r - 1) < (?x + (?r - 1)) div ?r * ?r + ?r"
      using assms by (metis dividend_less_div_times add.commute)
    then show ?thesis using assms by linarith
  qed
  have "bytes * ?g = bytes div ?r * ?g * ?r + ?x"
  proof -
    have "bytes * ?g = (bytes div ?r * ?r + bytes mod ?r) * ?g" by simp
    then show ?thesis by (simp only: add_mult_distrib ac_simps)
  qed
  also have "\<dots> \<le> bytes div ?r * ?g * ?r + (?x + (?r - 1)) div ?r * ?r" using up by simp
  also have "\<dots> = reservation_nanos bytes rate * ?r"
    by (simp add: reservation_nanos_def Let_def add_mult_distrib)
  finally show ?thesis .
qed

text \<open>Reservations made one after another, at their instants; the last deadline.\<close>

fun consume_all ::
  "nat \<Rightarrow> (nat \<times> nat) list \<Rightarrow> bandwidth_limiter \<Rightarrow> (unit, cli_error) result \<times> bandwidth_limiter" where
  "consume_all instant_max [] l = (Ok (), l)"
| "consume_all instant_max ((now, bytes) # calls) l =
     st_try (consume instant_max now bytes l) (\<lambda>_ l. consume_all instant_max calls l)"

lemma consume_all_bound:
  assumes "consume_all instant_max calls l = (Ok (), l')" and "0 < unat (bw_bytes_per_second l)"
  shows "bw_bytes_per_second l' = bw_bytes_per_second l \<and> bw_next_available l \<le> bw_next_available l'
    \<and> sum_list (map snd calls) * 1000000000
      \<le> (bw_next_available l' - bw_next_available l) * unat (bw_bytes_per_second l)"
  using assms
proof (induction calls arbitrary: l)
  case Nil
  then show ?case by simp
next
  case (Cons c calls)
  obtain now bytes where c: "c = (now, bytes)" by (cases c)
  let ?rate = "bw_bytes_per_second l"
  let ?deadline = "max (bw_next_available l) now + reservation_nanos bytes ?rate"
  obtain d l1 where one: "consume instant_max now bytes l = (Ok d, l1)"
    and run: "consume_all instant_max calls l1 = (Ok (), l')"
    using Cons.prems(1) c by (auto simp: st_try_Ok_iff)
  have l1: "l1 = l\<lparr>bw_next_available := ?deadline\<rparr>"
    using one by (auto simp: consume_def Let_def split: if_splits)
  have IH: "bw_bytes_per_second l' = ?rate" "?deadline \<le> bw_next_available l'"
    "sum_list (map snd calls) * 1000000000 \<le> (bw_next_available l' - ?deadline) * unat ?rate"
    using Cons.IH [OF run] Cons.prems(2) l1 by auto
  have "(bw_next_available l' - ?deadline) * unat ?rate + reservation_nanos bytes ?rate * unat ?rate
      \<le> (bw_next_available l' - bw_next_available l) * unat ?rate"
    unfolding add_mult_distrib [symmetric] using IH(2) by (intro mult_le_mono1) linarith
  then show ?case
    using IH reservation_covers [OF Cons.prems(2), of bytes] c by (simp add: add_mult_distrib)
qed

section \<open>Properties\<close>

text \<open>
  The delays between attempts are bounded. The backoff of attempt \<open>n\<close> is 200 ms doubled
  at most five times, never more than 6.4 s and never overflowing; a delay taken from
  \<open>Retry-After\<close> is at most ten minutes and only used for a 429 or 5xx response.
\<close>

theorem retry_delays_bounded:
  "unat (storage_backoff_delay attempt) = 200 * 2 ^ min (unat attempt) 5
   \<and> unat (storage_backoff_delay attempt) \<le> 6400
   \<and> (case storage_retry_after_delay parse_http_date status header now of
        None \<Rightarrow> True
      | Some delay \<Rightarrow> delay \<le> 600 * 1000000000 \<and> should_retry_storage_status status False)"
proof -
  have "(2 :: nat) ^ min (unat attempt) 5 \<le> 2 ^ 5" by (rule power_increasing) auto
  then have "unat (storage_backoff_delay attempt) \<le> 6400" unfolding backoff_value by simp
  then show ?thesis
    by (auto simp: backoff_value storage_retry_after_delay_def should_retry_storage_status_def
        max_retry_after_secs_def Let_def bind_eq_Some_conv split: option.split)
qed

text \<open>
  The token bucket grants no more than its rate. Over any run of calls at nondecreasing
  instants, the bytes of the granted calls are covered by the tokens at the start, the rate
  times the elapsed time, and one token per call; the tokens never exceed the capacity.
\<close>

theorem token_bucket_bound:
  assumes "sorted (map fst calls)" and "\<forall>c \<in> set calls. rl_checkpoint l \<le> fst c \<and> snd c \<le> u64_max"
    and "\<forall>c \<in> set calls. fst c \<le> stop" and "rl_checkpoint l \<le> stop"
    and "\<not> is_unlimited l" and "limiter_wf l" and "acquire_all calls l = (sent, l')"
  shows "limiter_wf l' \<and> 1000 * (unat (rl_tokens l') + sent)
    \<le> 1000 * unat (rl_tokens l) + (stop - rl_checkpoint l) * unat (rl_rate l) + 1000 * length calls"
  by (rule acquire_all_bound [OF assms])

theorem token_bucket_bound_witness:
  "let l = limiter_new 1000 1000 0 in
   let (sent, l') = acquire_all [(0, 1), (500, 400), (700, 900)] l in sent = 401
     \<and> 1000 * (unat (rl_tokens l') + sent) \<le> 700 * 1000 + 3000"
proof -
  let ?l = "limiter_new 1000 1000 0"
  let ?calls = "[(0, 1), (500, 400), (700, 900)] :: (nat \<times> nat) list"
  have l: "\<not> is_unlimited ?l" "rl_checkpoint ?l = 0" "rl_tokens ?l = 0" "rl_rate ?l = 1000"
    by (simp_all add: is_unlimited_def limiter_new_def Let_def)
  obtain sent l' where run: "acquire_all ?calls ?l = (sent, l')" by fastforce
  have bounds: "\<forall>c \<in> set ?calls. rl_checkpoint ?l \<le> fst c \<and> snd c \<le> u64_max"
    "\<forall>c \<in> set ?calls. fst c \<le> 700" "sorted (map fst ?calls)"
    by (simp_all add: l u64_max_def)
  have "fst (acquire_all ?calls ?l) = 401"
    by code_simp
  moreover have "1000 * (unat (rl_tokens l') + sent) \<le> 700 * 1000 + 3000"
    using token_bucket_bound [OF bounds(3,1,2) _ l(1) limiter_new_wf run] l by simp
  ultimately show ?thesis using run by (simp add: Let_def)
qed

lemma wait_covers_missing:
  assumes wait: "wait = max (saturating_add (saturating_mul missing 1000) (rate - 1) div rate) 10"
    and r: "0 < unat rate" and room: "unat missing * 1000 + unat rate \<le> u64_max"
  shows "unat missing * 1000 \<le> unat wait * unat rate"
proof -
  let ?m = "unat missing" and ?r = "unat rate"
  have r1: "unat (rate - 1) = ?r - 1" using r by (simp add: unat_minus_one unat_gt_0)
  have "?m * 1000 + (?r - 1) \<le> u64_max" using room by linarith
  then have "unat (saturating_add (saturating_mul missing 1000) (rate - 1)) = ?m * 1000 + (?r - 1)"
    using r1 by simp
  then have "(?m * 1000 + (?r - 1)) div ?r
      = unat (saturating_add (saturating_mul missing 1000) (rate - 1) div rate)"
    by (simp only: unat_div)
  also have "\<dots> \<le> unat wait" unfolding wait word_le_nat_alt [symmetric] by (rule max.cobounded1)
  finally have w: "(?m * 1000 + (?r - 1)) div ?r \<le> unat wait" .
  have "?m * 1000 + (?r - 1) < (?m * 1000 + (?r - 1)) div ?r * ?r + ?r"
    using r by (metis dividend_less_div_times add.commute)
  then have "?m * 1000 \<le> (?m * 1000 + (?r - 1)) div ?r * ?r" using r by linarith
  also have "\<dots> \<le> unat wait * ?r" using w by (rule mult_le_mono1)
  finally show ?thesis .
qed



text \<open>
  The bandwidth limit of an upload delays a body by at most one second, however large it
  is. \<open>rate_limiter_from_limit\<close> makes capacity and rate equal, \<open>acquire\<close> asks for at most
  the capacity, and \<open>throttle_body\<close> asks once: a part many times the limit is sent after at
  most 1000 ms.
\<close>

theorem throttle_at_most_a_second:
  assumes "rl_capacity l = rl_rate l"
  shows "snd (throttle_body (Some l) bytes now) \<le> now + 1000"
proof -
  obtain ok wait l' where run: "acquire now bytes l = ((ok, wait), l')" by (metis prod.collapse)
  have short: "unat w \<le> 1000" if ok: "ok = False" and w: "wait = Some w" for w
  proof -
    let ?want = "min (of_nat bytes) (rl_capacity l)"
    let ?r = "unat (rl_rate l)"
    let ?missing = "?want - refilled now l"
    note refused = acquire_refused [OF run [simplified ok]]
    have wm: "w = max (saturating_add (saturating_mul ?missing 1000) (rl_rate l - 1) div rl_rate l) 10"
      using refused(5) w by (simp only: option.inject)
    have r: "rl_rate l \<noteq> 0" using refused(1) by (simp add: is_unlimited_def)
    then have "0 < ?r" by (simp add: unat_gt_0)
    moreover have "unat ?missing \<le> ?r"
      using unat_sub_u64 [OF less_imp_le [OF refused(3)]] assms by (simp add: unat_min)
    ultimately have "unat ?missing * 1000 + (?r - 1) < 1001 * ?r" by linarith
    moreover have r1: "unat (rl_rate l - 1) = ?r - 1" using r by (simp add: unat_minus_one)
    have "min (min (unat ?missing * unat (1000 :: u64)) u64_max + (?r - 1)) u64_max
        \<le> unat ?missing * 1000 + (?r - 1)"
      by (rule order_trans [OF min.cobounded1]) simp
    then have "unat (saturating_add (saturating_mul ?missing 1000) (rl_rate l - 1))
        \<le> unat ?missing * 1000 + (?r - 1)"
      unfolding unat_saturating_add unat_saturating_mul r1 .
    ultimately have "unat (saturating_add (saturating_mul ?missing 1000) (rl_rate l - 1)) < 1001 * ?r"
      by (rule order_le_less_trans [rotated])
    then have "unat (saturating_add (saturating_mul ?missing 1000) (rl_rate l - 1)) div ?r < 1001"
      by (simp add: less_mult_imp_div_less)
    then show ?thesis unfolding wm by (simp add: max_def word_le_nat_alt unat_div)
  qed
  then show ?thesis using run
    by (cases ok; cases wait) (auto simp: throttle_body_def)
qed

theorem throttle_at_most_a_second_witness:
  "rate_limiter_from_limit (Some ''1MB'') 0 = Ok (Some (limiter_new 1048576 1048576 0))
   \<and> snd (throttle_body (Some (limiter_new 1048576 1048576 0)) (20 * 1048576) 0) \<le> 1000"
proof -
  have "trim ''1MB'' = ''1MB''" "trim ''MB'' = ''MB''" "to_ascii_lowercase ''MB'' = ''mb''"
    "take_digits ''1MB'' = ''1''" by code_simp+
  moreover have "parse_unsigned u64_max ''1'' = Some 1"
    by (simp add: parse_unsigned_def digit_val_def is_ascii_digit_def u64_max_def)
  ultimately have "parse_size_bytes ''1MB'' = Some 1048576"
    by (simp add: parse_size_bytes_def Let_def checked_mul_def u64_max_def)
  then have "rate_limiter_from_limit (Some ''1MB'') 0 = Ok (Some (limiter_new 1048576 1048576 0))"
    by (simp add: rate_limiter_from_limit_def Let_def)
  then show ?thesis
    using throttle_at_most_a_second [of "limiter_new 1048576 1048576 0" "20 * 1048576" 0]
    by (simp add: limiter_new_def Let_def)
qed

text \<open>
  C29: the bandwidth budget of a share download is never exceeded. When a run of reservations
  succeeds, the bytes released by the last deadline are at most the rate times the time since
  the budget was free, at every granularity down to a nanosecond; the clock never goes back.
\<close>

theorem bandwidth_budget_bound:
  assumes "consume_all instant_max calls l = (Ok (), l')" and "0 < unat (bw_bytes_per_second l)"
  shows "bw_next_available l \<le> bw_next_available l'
    \<and> sum_list (map snd calls) * 1000000000
      \<le> (bw_next_available l' - bw_next_available l) * unat (bw_bytes_per_second l)"
  using consume_all_bound [OF assms] by blast

theorem bandwidth_budget_bound_witness:
  "let (r, l) = consume_all 1000000000000 [(0, 5), (0, 5), (70000000, 7)] (bandwidth_new 100 0)
   in r = Ok () \<and> 17 * 1000000000 \<le> bw_next_available l * 100"
proof -
  let ?run = "consume_all 1000000000000 [(0, 5), (0, 5), (70000000, 7)] (bandwidth_new 100 0)"
  have "fst ?run = Ok ()"
    by (simp add: consume_def reservation_nanos_def bandwidth_new_def Let_def)
  then obtain l where run: "?run = (Ok (), l)" by (metis prod.collapse)
  have "17 * 1000000000 \<le> bw_next_available l * 100"
    using bandwidth_budget_bound [OF run] by (simp add: bandwidth_new_def)
  then show ?thesis unfolding run by simp
qed

end
