(* ===== verification/Content_Transfer.thy ===== *)
theory Content_Transfer
  imports Range_Checkpoint Transfer_Policy
begin

text \<open>
  \<open>crates/adrive/src/handler/share_content.rs\<close> and \<open>share_content_ranges.rs\<close>: the transfer
  of one file's content, by a single request or by concurrent ranges, with or without a
  recovery directory, up to the verified staged file. The network, the clock, the identifiers
  and the faults of writes and publications are the environment; the state is the local tree,
  the held locks, the request traces, the bandwidth budget and the counters that index the
  environment. Range transfers are atomic steps in the order of a schedule.
\<close>

section \<open>Environment and state\<close>

record http_response =
  hr_status :: nat
  hr_header :: "string \<Rightarrow> string option"
  hr_content_length :: "u64 option"
  hr_chunks :: "string list"
  hr_is_interrupted :: bool

datatype send_outcome = SendFailed | Responded http_response

record content_request =
  cr_range :: "string option"
  cr_is_identity :: bool
  cr_if_match :: "string option"

record transfer_env =
  te_net :: "nat \<Rightarrow> content_request \<Rightarrow> send_outcome"
  te_trace :: nat
  te_ulid :: "nat \<Rightarrow> string"
  te_clock :: "nat \<Rightarrow> nat"
  te_instant_max :: nat
  te_write :: "nat \<Rightarrow> (nat \<times> io_error) option"
  te_publish :: "nat \<Rightarrow> publish_env"

record transfer_state =
  ts_tree :: file_tree
  ts_locks :: "safe_dir list"
  ts_sent :: nat
  ts_traces :: trace_store
  ts_fresh :: nat
  ts_ulids :: nat
  ts_steps :: nat
  ts_limiter :: "bandwidth_limiter option"

record range_download =
  rd_remote :: remote_file
  rd_directory :: safe_dir
  rd_local :: string
  rd_concurrency :: nat
  rd_checkpoint_directory :: "safe_dir option"

definition tick :: "transfer_state \<Rightarrow> transfer_state" where
  "tick st = st\<lparr>ts_steps := Suc (ts_steps st)\<rparr>"

definition with_tree ::
  "(file_tree \<Rightarrow> ('a, 'e) result \<times> file_tree) \<Rightarrow> transfer_state \<Rightarrow> ('a, 'e) result \<times> transfer_state" where
  "with_tree f st = (let (r, fs) = f (ts_tree st) in (r, st\<lparr>ts_tree := fs\<rparr>))"

definition next_ulid :: "transfer_env \<Rightarrow> transfer_state \<Rightarrow> string \<times> transfer_state" where
  "next_ulid env st = (te_ulid env (ts_ulids st), st\<lparr>ts_ulids := Suc (ts_ulids st)\<rparr>)"

definition drop_file :: "transfer_env \<Rightarrow> staged_file \<Rightarrow> transfer_state \<Rightarrow> transfer_state" where
  "drop_file env staged st =
     tick (st\<lparr>ts_tree := drop_staged (pv_cleanup (te_publish env (ts_steps st))) staged (ts_tree st)\<rparr>)"

section \<open>Requests and responses\<close>

abbreviation double_quote :: char where
  "double_quote \<equiv> CHR 0x22"

definition if_match_header :: "remote_file \<Rightarrow> string option" where
  "if_match_header remote =
     (if rf_etag remote \<noteq> [] \<and> \<not> starts_with ''W/'' (rf_etag remote)
      then Some ([double_quote] @ trim_of double_quote (rf_etag remote) @ [double_quote]) else None)"

definition content_request_id :: "http_response \<Rightarrow> string option" where
  "content_request_id response =
     (case List.find (\<lambda>name. Option.bind (hr_header response name) sanitize_request_id \<noteq> None)
        [''x-tos-request-id'', ''x-ids-request-id'', ''x-request-id''] of
        None \<Rightarrow> None
      | Some name \<Rightarrow> Option.bind (hr_header response name) sanitize_request_id)"

definition is_success :: "nat \<Rightarrow> bool" where
  "is_success status \<longleftrightarrow> 200 \<le> status \<and> status < 300"

definition record_content_response ::
  "transfer_env \<Rightarrow> nat list \<Rightarrow> http_response \<Rightarrow> transfer_state \<Rightarrow> transfer_state" where
  "record_content_response env scopes response st =
     st\<lparr>ts_traces := record_response (te_trace env) scopes (content_request_id response)
          (is_success (hr_status response)) (ts_traces st)\<rparr>"

definition validate_etag :: "http_response \<Rightarrow> remote_file \<Rightarrow> (unit, cli_error) result" where
  "validate_etag response remote =
     (if rf_etag remote \<noteq> [] \<and> \<not> starts_with ''W/'' (rf_etag remote)
      then (case hr_header response ''etag'' of
              None \<Rightarrow> Err (failed ''content ETag differs from manifest'')
            | Some etag \<Rightarrow>
                if trim_of double_quote etag \<noteq> trim_of double_quote (rf_etag remote)
                then Err (failed ''content ETag differs from manifest'') else Ok ())
      else Ok ())"

definition validate_response :: "http_response \<Rightarrow> remote_file \<Rightarrow> (unit, cli_error) result" where
  "validate_response response remote =
     (if (case hr_content_length response of None \<Rightarrow> False | Some len \<Rightarrow> len \<noteq> rf_size remote)
      then Err (failed ''content length differs from manifest'')
      else validate_etag response remote)"

text \<open>
  One request: the answer, recorded in the traces of the operation. The address is that of the
  network; \<open>cr_is_identity\<close> is the \<open>Accept-Encoding\<close> header.
\<close>

definition send_request ::
  "transfer_env \<Rightarrow> nat list \<Rightarrow> content_request \<Rightarrow> string \<Rightarrow> transfer_state \<Rightarrow>
   (http_response, cli_error \<times> bool) result \<times> transfer_state" where
  "send_request env scopes request problem st =
     (let outcome = te_net env (ts_sent st) request;
          st = st\<lparr>ts_sent := Suc (ts_sent st)\<rparr>
      in case outcome of
           SendFailed \<Rightarrow>
             (Err (failed problem, True),
              st\<lparr>ts_traces := record_no_response (te_trace env) scopes (ts_traces st)\<rparr>)
         | Responded response \<Rightarrow> (Ok response, record_content_response env scopes response st))"

section \<open>Writing\<close>

definition overlay :: "nat \<Rightarrow> string \<Rightarrow> string \<Rightarrow> string" where
  "overlay offset bytes content =
     (let padded = content @ replicate (offset - length content) (CHR 0x00)
      in take offset padded @ bytes @ drop (offset + length bytes) padded)"

definition set_len :: "nat \<Rightarrow> string \<Rightarrow> string" where
  "set_len n content = take n content @ replicate (n - length content) (CHR 0x00)"

text \<open>\<open>write_at\<close> and \<open>write_all\<close>: all bytes, or a fault after the first \<open>n\<close>.\<close>

definition write_at ::
  "transfer_env \<Rightarrow> string list \<Rightarrow> nat \<Rightarrow> string \<Rightarrow> transfer_state \<Rightarrow> (unit, io_error) result \<times> transfer_state" where
  "write_at env key offset bytes st =
     (if bytes = [] then (Ok (), st)
      else case te_write env (ts_steps st) of
             None \<Rightarrow> (Ok (), tick (st\<lparr>ts_tree := update_file key (overlay offset bytes) (ts_tree st)\<rparr>))
           | Some (n, e) \<Rightarrow>
               (Err e, tick (st\<lparr>ts_tree := update_file key (overlay offset (take n bytes)) (ts_tree st)\<rparr>)))"

definition reserve :: "transfer_env \<Rightarrow> nat \<Rightarrow> transfer_state \<Rightarrow> (unit, cli_error) result \<times> transfer_state" where
  "reserve env bytes st =
     (case ts_limiter st of
        None \<Rightarrow> (Ok (), st)
      | Some l \<Rightarrow>
          (case consume (te_instant_max env) (te_clock env (ts_steps st)) bytes l of
             (r, l) \<Rightarrow> (case r of Ok _ \<Rightarrow> Ok () | Err e \<Rightarrow> Err e, tick (st\<lparr>ts_limiter := Some l\<rparr>))))"

text \<open>An error that must not be retried, or may be.\<close>

definition fatal :: "('a, cli_error) result \<times> 's \<Rightarrow> ('a, cli_error \<times> bool) result \<times> 's" where
  "fatal p = (map_err (\<lambda>e. (e, False)) (fst p), snd p)"

section \<open>One range\<close>

fun receive_range ::
  "codec \<Rightarrow> transfer_env \<Rightarrow> string list \<Rightarrow> nat \<Rightarrow> download_range \<Rightarrow> bool \<Rightarrow> string list \<Rightarrow> nat \<Rightarrow> string \<Rightarrow>
   transfer_state \<Rightarrow> (string, cli_error \<times> bool) result \<times> transfer_state" where
  "receive_range cx env key offset rng is_interrupted [] written hashed st =
     (if is_interrupted then (Err (failed ''range stream interrupted'', True), st)
      else if written \<noteq> unat (dr_size rng) then (Err (failed ''range body is incomplete'', True), st)
      else (Ok (cx_sha256 cx hashed), st))"
| "receive_range cx env key offset rng is_interrupted (chunk # rest) written hashed st =
     (if length chunk > unat (dr_size rng) - written
      then (Err (failed ''range exceeds planned length'', False), st)
      else st_try (fatal (reserve env (length chunk) st)) (\<lambda>_ st.
           st_try (fatal (io_step (write_at env key (offset + written) chunk st))) (\<lambda>_ st.
             receive_range cx env key offset rng is_interrupted rest
               (written + length chunk) (hashed @ chunk) st)))"

definition attempt_range ::
  "codec \<Rightarrow> transfer_env \<Rightarrow> nat list \<Rightarrow> remote_file \<Rightarrow> string list \<Rightarrow> nat \<Rightarrow> download_range \<Rightarrow>
   transfer_state \<Rightarrow> (string, cli_error \<times> bool) result \<times> transfer_state" where
  "attempt_range cx env scopes remote key offset rng st =
     st_try (send_request env scopes
         \<lparr>cr_range = Some (range_header rng), cr_is_identity = True, cr_if_match = if_match_header remote\<rparr>
         ''range connection failed'' st) (\<lambda>response st.
       let status = hr_status response
       in if status = 408 \<or> status = 429 \<or> is_server_error status
          then (Err (failed (''range request returned HTTP '' @ show_nat status), True), st)
          else st_try (fatal (range_validate rng status (hr_header response ''content-range'')
                         (rf_size remote), st)) (\<lambda>_ st.
               st_try (fatal (validate_etag response remote, st)) (\<lambda>_ st.
                 if (case hr_content_length response of None \<Rightarrow> False | Some len \<Rightarrow> len \<noteq> dr_size rng)
                 then (Err (failed ''range content length differs from planned range'', False), st)
                 else receive_range cx env key offset rng (hr_is_interrupted response)
                        (hr_chunks response) 0 [] st)))"

text \<open>The loop \<open>for attempt in 0..3\<close>.\<close>

fun retrying ::
  "('s \<Rightarrow> ('a, cli_error \<times> bool) result \<times> 's) \<Rightarrow> string \<Rightarrow> nat list \<Rightarrow> 's \<Rightarrow> ('a, cli_error) result \<times> 's" where
  "retrying attempt exhausted [] st = (Err (failed exhausted), st)"
| "retrying attempt exhausted (n # rest) st =
     (case attempt st of
        (Ok x, st) \<Rightarrow> (Ok x, st)
      | (Err (e, may_retry), st) \<Rightarrow>
          if may_retry \<and> n < 2 then retrying attempt exhausted rest st else (Err e, st))"

definition transfer_range ::
  "codec \<Rightarrow> transfer_env \<Rightarrow> nat list \<Rightarrow> remote_file \<Rightarrow> string list \<Rightarrow> nat \<Rightarrow> download_range \<Rightarrow>
   transfer_state \<Rightarrow> (string, cli_error) result \<times> transfer_state" where
  "transfer_range cx env scopes remote key offset rng st =
     retrying (attempt_range cx env scopes remote key offset rng) ''range retry budget exhausted'' [0, 1, 2] st"

definition download_part ::
  "codec \<Rightarrow> transfer_env \<Rightarrow> nat list \<Rightarrow> remote_file \<Rightarrow> safe_dir \<Rightarrow> download_range \<Rightarrow>
   transfer_state \<Rightarrow> (unit, cli_error) result \<times> transfer_state" where
  "download_part cx env scopes remote dir rng st =
     st_try (with_tree (checkpoint_restore cx dir rng) st) (\<lambda>found st.
       case found of
         Some _ \<Rightarrow> (Ok (), st)
       | None \<Rightarrow>
           (let (ulid, st) = next_ulid env st
            in st_try (with_tree (checkpoint_stage ulid dir rng) st) (\<lambda>staged st.
                 case transfer_range cx env scopes remote (staged_key staged) 0 rng st of
                   (Err e, st) \<Rightarrow> (Err e, drop_file env staged st)
                 | (Ok digest, st) \<Rightarrow>
                     (let (ulid, st) = next_ulid env st;
                          n = ts_steps st
                      in with_tree (checkpoint_complete cx (te_publish env n) (te_publish env (Suc n))
                             ulid dir rng staged digest) (tick (tick st))))))"

definition run_range ::
  "codec \<Rightarrow> transfer_env \<Rightarrow> nat list \<Rightarrow> remote_file \<Rightarrow> safe_dir option \<Rightarrow> string list \<Rightarrow> download_range \<Rightarrow>
   transfer_state \<Rightarrow> (unit, cli_error) result \<times> transfer_state" where
  "run_range cx env scopes remote checkpoint key rng st =
     (let fresh = ts_fresh st;
          (inner, traces) = capture_scope fresh scopes (ts_traces st);
          st = st\<lparr>ts_fresh := Suc fresh, ts_traces := traces\<rparr>;
          (r, st) = (case checkpoint of
              Some dir \<Rightarrow> download_part cx env inner remote dir rng st
            | None \<Rightarrow> st_try (transfer_range cx env inner remote key (unat (dr_offset rng)) rng st)
                        (\<lambda>_ st. (Ok (), st)));
          request_id = tr_terminal_response_request_id (ts_traces st fresh)
      in case r of
           Err e \<Rightarrow> (Err e, st\<lparr>ts_traces :=
             preserve_operation_failure_request_id scopes request_id (ts_traces st)\<rparr>)
         | Ok _ \<Rightarrow> (Ok (), st))"

section \<open>Assembly and verification\<close>

text \<open>The copy of one part to the cursor of the output, hashed again on the way.\<close>

fun copy_part ::
  "codec \<Rightarrow> transfer_env \<Rightarrow> string list \<Rightarrow> download_range \<Rightarrow> string \<Rightarrow> string list \<Rightarrow> u64 \<Rightarrow> string \<Rightarrow> nat \<Rightarrow>
   transfer_state \<Rightarrow> (nat, cli_error) result \<times> transfer_state" where
  "copy_part cx env key rng expected [] len hashed cursor st =
     (if len \<noteq> dr_size rng \<or> cx_sha256 cx hashed \<noteq> expected
      then (Err (failed ''verified range changed during assembly''), st)
      else (Ok cursor, st))"
| "copy_part cx env key rng expected (chunk # rest) len hashed cursor st =
     (let len = saturating_add len (of_nat (length chunk))
      in if len > dr_size rng then (Err (failed ''verified range changed during assembly''), st)
         else st_try (io_step (write_at env key cursor chunk st)) (\<lambda>_ st.
                copy_part cx env key rng expected rest len (hashed @ chunk) (cursor + length chunk) st))"

fun assemble_ranges ::
  "codec \<Rightarrow> transfer_env \<Rightarrow> safe_dir \<Rightarrow> string list \<Rightarrow> download_range list \<Rightarrow> nat \<Rightarrow>
   transfer_state \<Rightarrow> (unit, cli_error) result \<times> transfer_state" where
  "assemble_ranges cx env dir key [] cursor st = (Ok (), st)"
| "assemble_ranges cx env dir key (rng # rest) cursor st =
     st_try (with_tree (open_completed cx dir rng) st) (\<lambda>found st.
       case found of
         None \<Rightarrow> (Err (failed ''verified range is missing during assembly''), st)
       | Some (content, expected) \<Rightarrow>
           st_try (copy_part cx env key rng expected (chunks_of buffer_size content) 0 [] cursor st)
             (\<lambda>cursor st. assemble_ranges cx env dir key rest cursor st))"

definition assemble ::
  "codec \<Rightarrow> transfer_env \<Rightarrow> safe_dir \<Rightarrow> string list \<Rightarrow> u64 \<Rightarrow> transfer_state \<Rightarrow>
   (unit, cli_error) result \<times> transfer_state" where
  "assemble cx env dir key bytes st =
     (case plan_new bytes of
        Err e \<Rightarrow> (Err e, st)
      | Ok plan \<Rightarrow> assemble_ranges cx env dir key (plan_collect plan) 0 st)"

definition verify_content :: "codec \<Rightarrow> remote_file \<Rightarrow> string \<Rightarrow> (string, cli_error) result" where
  "verify_content cx remote content =
     (if length content \<noteq> unat (rf_size remote)
         \<or> (rf_crc64 remote \<noteq> 0 \<and> cx_crc64 cx content \<noteq> rf_crc64 remote)
      then Err (failed ''content size or CRC64 integrity check failed'')
      else Ok (cx_sha256 cx content))"

text \<open>\<open>verify_file\<close> reads the whole staged file in chunks.\<close>

definition verify_file ::
  "codec \<Rightarrow> remote_file \<Rightarrow> string list \<Rightarrow> transfer_state \<Rightarrow> (string, cli_error) result" where
  "verify_file cx remote key st =
     (case ts_tree st key of
        Some (RegularFile content) \<Rightarrow>
          verify_content cx remote (concat (chunks_of buffer_size content))
      | _ \<Rightarrow> Err (Io native_not_found))"

section \<open>The download of one file by ranges\<close>

definition open_checkpoint ::
  "codec \<Rightarrow> range_download \<Rightarrow> transfer_state \<Rightarrow> (safe_dir option, cli_error) result \<times> transfer_state" where
  "open_checkpoint cx request st =
     (case rd_checkpoint_directory request of
        None \<Rightarrow> (Ok None, st)
      | Some root \<Rightarrow>
          (let (r, fs, locks) = checkpoint_open cx root (rd_remote request) (rd_local request)
                 (ts_tree st, ts_locks st);
               st = st\<lparr>ts_tree := fs, ts_locks := locks\<rparr>
           in case r of Err e \<Rightarrow> (Err e, st) | Ok dir \<Rightarrow> (Ok (Some dir), st)))"

definition release :: "safe_dir option \<Rightarrow> transfer_state \<Rightarrow> transfer_state" where
  "release checkpoint st =
     (case checkpoint of None \<Rightarrow> st | Some dir \<Rightarrow> st\<lparr>ts_locks := remove1 dir (ts_locks st)\<rparr>)"

text \<open>
  After the ranges: assembly, verification, and the removal of the recorded ranges when the
  whole file fails its integrity check.
\<close>

definition finish_ranges ::
  "codec \<Rightarrow> transfer_env \<Rightarrow> remote_file \<Rightarrow> safe_dir option \<Rightarrow> string list \<Rightarrow> transfer_state \<Rightarrow>
   (string, cli_error) result \<times> transfer_state" where
  "finish_ranges cx env remote checkpoint key st =
     st_try (case checkpoint of
               None \<Rightarrow> (Ok (), st)
             | Some dir \<Rightarrow> assemble cx env dir key (rf_size remote) st) (\<lambda>_ st.
       let verification = verify_file cx remote key st
       in st_try (case (verification, checkpoint) of
                    (Err (TransferFailed _), Some dir) \<Rightarrow>
                      with_tree (checkpoint_clear dir (rf_size remote)) st
                  | _ \<Rightarrow> (Ok (), st)) (\<lambda>_ st. (verification, st)))"

text \<open>\<open>None\<close> when the schedule ends before the transfers do.\<close>

definition ranged_download ::
  "codec \<Rightarrow> transfer_env \<Rightarrow> nat list \<Rightarrow> range_download \<Rightarrow> nat list \<Rightarrow> transfer_state \<Rightarrow>
   ((staged_file \<times> string, cli_error) result \<times> transfer_state) option" where
  "ranged_download cx env scopes request schedule st =
     (let remote = rd_remote request
      in case plan_new (rf_size remote) of
           Err e \<Rightarrow> Some (Err e, st)
         | Ok plan \<Rightarrow>
             (case open_checkpoint cx request st of
                (Err e, st) \<Rightarrow> Some (Err e, st)
              | (Ok checkpoint, st) \<Rightarrow>
                  (let (ulid, st) = next_ulid env st
                   in case io_step (with_tree (staged_new ulid (rd_directory request) (rd_local request)) st) of
                        (Err e, st) \<Rightarrow> Some (Err e, release checkpoint st)
                      | (Ok staged, st) \<Rightarrow>
                          (let key = staged_key staged;
                               st = st\<lparr>ts_tree := update_file key (set_len (unat (rf_size remote))) (ts_tree st)\<rparr>
                           in map_option (\<lambda>(r, st).
                                case st_try (r, st) (\<lambda>_ st. finish_ranges cx env remote checkpoint key st) of
                                  (Err e, st) \<Rightarrow> (Err e, release checkpoint (drop_file env staged st))
                                | (Ok digest, st) \<Rightarrow> (Ok (staged, digest), release checkpoint st))
                              (run_ranges (plan_collect plan) (rd_concurrency request)
                                (run_range cx env scopes remote checkpoint key) schedule st)))))"

section \<open>The download of one file by a single request\<close>

text \<open>\<open>receive\<close>: appends to the fresh staged file and checks length and CRC-64 at the end.\<close>

fun receive ::
  "codec \<Rightarrow> transfer_env \<Rightarrow> string list \<Rightarrow> remote_file \<Rightarrow> bool \<Rightarrow> string list \<Rightarrow> string \<Rightarrow>
   transfer_state \<Rightarrow> (string, cli_error \<times> bool) result \<times> transfer_state" where
  "receive cx env key remote is_interrupted [] hashed st =
     (if is_interrupted then (Err (failed ''content stream interrupted'', True), st)
      else fatal (verify_content cx remote hashed, st))"
| "receive cx env key remote is_interrupted (chunk # rest) hashed st =
     (if length hashed + length chunk > u64_max then (Err (failed ''content length overflow'', False), st)
      else if length hashed + length chunk > unat (rf_size remote)
      then (Err (failed ''content exceeds manifest size'', False), st)
      else st_try (fatal (reserve env (length chunk) st)) (\<lambda>_ st.
           st_try (fatal (io_step (write_at env key (length hashed) chunk st))) (\<lambda>_ st.
             receive cx env key remote is_interrupted rest (hashed @ chunk) st)))"

definition attempt ::
  "codec \<Rightarrow> transfer_env \<Rightarrow> nat list \<Rightarrow> range_download \<Rightarrow> transfer_state \<Rightarrow>
   (staged_file \<times> string, cli_error \<times> bool) result \<times> transfer_state" where
  "attempt cx env scopes request st =
     (let remote = rd_remote request
      in st_try (send_request env scopes \<lparr>cr_range = None, cr_is_identity = False, cr_if_match = if_match_header remote\<rparr>
             ''content connection failed'' st) (\<lambda>response st.
         let status = hr_status response
         in if \<not> is_success status
            then (Err (failed (''content request returned HTTP '' @ show_nat status),
                    is_server_error status \<or> status = 429), st)
            else st_try (fatal (validate_response response remote, st)) (\<lambda>_ st.
                 let (ulid, st) = next_ulid env st
                 in st_try (fatal (io_step (with_tree
                         (staged_new ulid (rd_directory request) (rd_local request)) st))) (\<lambda>staged st.
                      case receive cx env (staged_key staged) remote (hr_is_interrupted response)
                             (hr_chunks response) [] st of
                        (Err e, st) \<Rightarrow> (Err e, drop_file env staged st)
                      | (Ok digest, st) \<Rightarrow> (Ok (staged, digest), st)))))"

definition download_single ::
  "codec \<Rightarrow> transfer_env \<Rightarrow> nat list \<Rightarrow> range_download \<Rightarrow> transfer_state \<Rightarrow>
   (staged_file \<times> string, cli_error) result \<times> transfer_state" where
  "download_single cx env scopes request st =
     retrying (attempt cx env scopes request) ''content retry budget exhausted'' [0, 1, 2] st"

text \<open>\<open>ContentClient::download\<close>: ranges only for a large file with a pinned identity.\<close>

definition content_download ::
  "codec \<Rightarrow> transfer_env \<Rightarrow> nat list \<Rightarrow> u64 \<Rightarrow> range_download \<Rightarrow> nat list \<Rightarrow> transfer_state \<Rightarrow>
   ((staged_file \<times> string, cli_error) result \<times> transfer_state) option" where
  "content_download cx env scopes threshold request schedule st =
     (if rf_size (rd_remote request) \<ge> threshold \<and> has_identity (rd_remote request)
      then ranged_download cx env scopes request schedule st
      else Some (download_single cx env scopes request st))"

definition clear_completed_ranges ::
  "codec \<Rightarrow> u64 \<Rightarrow> range_download \<Rightarrow> transfer_state \<Rightarrow> (unit, cli_error) result \<times> transfer_state" where
  "clear_completed_ranges cx threshold request st =
     (if rf_size (rd_remote request) < threshold \<or> \<not> has_identity (rd_remote request) then (Ok (), st)
      else st_try (open_checkpoint cx request st) (\<lambda>checkpoint st.
        case checkpoint of
          None \<Rightarrow> (Ok (), st)
        | Some dir \<Rightarrow>
            (let (r, st) = with_tree (checkpoint_clear dir (rf_size (rd_remote request))) st
             in (r, release checkpoint st))))"

section \<open>Transfer controls and local digests\<close>

definition default_multipart_concurrency :: nat where
  "default_multipart_concurrency = 4"

definition default_transfer_checkpoint_threshold :: string where
  "default_transfer_checkpoint_threshold = ''20MB''"

record content_runtime =
  ct_threshold :: u64
  ct_concurrency :: nat
  ct_limiter :: "bandwidth_limiter option"

text \<open>\<open>expect\<close> on the built-in threshold: \<open>None\<close> would be a panic.\<close>

definition default_runtime :: "content_runtime option" where
  "default_runtime =
     map_option (\<lambda>threshold. \<lparr>ct_threshold = threshold,
       ct_concurrency = default_multipart_concurrency, ct_limiter = None\<rparr>)
       (parse_size_bytes default_transfer_checkpoint_threshold)"

text \<open>The arguments are the explicit threshold, concurrency and bandwidth limit, and the clock.\<close>

definition runtime_for_args ::
  "content_runtime \<Rightarrow> string option \<Rightarrow> nat option \<Rightarrow> string option \<Rightarrow> nat \<Rightarrow>
   (content_runtime, cli_error) result" where
  "runtime_for_args builtin checkpoint_threshold multipart_concurrency bandwidth_limit now =
     (let threshold = (case checkpoint_threshold of
            Some s \<Rightarrow> parse_size_bytes s | None \<Rightarrow> Some (ct_threshold builtin));
          threshold = Option.bind threshold (\<lambda>bytes. if bytes > 0 then Some bytes else None)
      in case threshold of
           None \<Rightarrow> Err (ValidationError
             ''checkpoint-threshold must be a positive size, for example 20MB'')
         | Some threshold \<Rightarrow>
             (let concurrency = case_option (ct_concurrency builtin) id multipart_concurrency
              in if concurrency = 0
                 then Err (ValidationError ''multipart-concurrency must be positive'')
                 else try_in (bandwidth_from_limit bandwidth_limit now) (\<lambda>limiter.
                   Ok \<lparr>ct_threshold = threshold, ct_concurrency = concurrency, ct_limiter = limiter\<rparr>)))"

fun digest_loop ::
  "codec \<Rightarrow> u64 \<Rightarrow> string list \<Rightarrow> nat \<Rightarrow> string \<Rightarrow> (nat \<times> string, cli_error) result" where
  "digest_loop cx expected_size [] len hashed = Ok (len, cx_sha256 cx hashed)"
| "digest_loop cx expected_size (chunk # rest) len hashed =
     (let len = len + length chunk
      in if len > u64_max then Err (failed ''local size overflow'')
         else if len > unat expected_size
         then Err (Conflict ''completed local file changed since checkpoint'')
         else digest_loop cx expected_size rest len (hashed @ chunk))"

definition local_digest ::
  "codec \<Rightarrow> safe_dir \<Rightarrow> string \<Rightarrow> u64 \<Rightarrow> file_tree \<Rightarrow> (nat \<times> string, cli_error) result" where
  "local_digest cx directory local expected_size fs =
     try_in (map_err Io (fst (safe_parent directory local False fs))) (\<lambda>(parent, name).
     try_in (map_err Io (read_leaf parent name fs)) (\<lambda>content.
       digest_loop cx expected_size (chunks_of buffer_size content) 0 []))"

section \<open>Lemmas: the steps\<close>

named_theorems step_simps \<open>inversion of successful steps\<close>

lemma fatal_Ok [step_simps]: "fatal p = (Ok x, s) \<longleftrightarrow> p = (Ok x, s)"
  by (cases p) (auto simp: fatal_def)

lemma io_step_Ok [step_simps]: "io_step p = (Ok x, s) \<longleftrightarrow> p = (Ok x, s)"
  by (cases p) (auto simp: io_step_def)

lemma with_tree_Ok [step_simps]:
  "with_tree f st = (Ok x, st') \<longleftrightarrow> (\<exists>fs. f (ts_tree st) = (Ok x, fs) \<and> st' = st\<lparr>ts_tree := fs\<rparr>)"
  by (auto simp: with_tree_def split: prod.splits)

lemma with_tree_eq:
  "with_tree f st = (r, st') \<Longrightarrow> \<exists>fs. f (ts_tree st) = (r, fs) \<and> st' = st\<lparr>ts_tree := fs\<rparr>"
  by (auto simp: with_tree_def split: prod.splits)

lemma fatal_eq: "fatal p = (r, s) \<Longrightarrow> \<exists>r'. p = (r', s)"
  by (cases p) (auto simp: fatal_def)

lemma io_step_eq: "io_step p = (r, s) \<Longrightarrow> \<exists>r'. p = (r', s)"
  by (cases p) (auto simp: io_step_def)

lemma tick_simps [simp]:
  "ts_tree (tick st) = ts_tree st" "ts_sent (tick st) = ts_sent st"
  "ts_fresh (tick st) = ts_fresh st" "ts_traces (tick st) = ts_traces st"
  by (simp_all add: tick_def)

lemma release_simps [simp]:
  "ts_tree (release c st) = ts_tree st" "ts_sent (release c st) = ts_sent st"
  by (simp_all add: release_def split: option.split)

lemma next_ulid_simps:
  assumes "next_ulid env st = (ulid, st')"
  shows "ts_tree st' = ts_tree st" and "ts_sent st' = ts_sent st"
  using assms by (auto simp: next_ulid_def)

lemma drop_file_sent [simp]: "ts_sent (drop_file env staged st) = ts_sent st"
  by (simp add: drop_file_def)

lemma reserve_keeps:
  assumes "reserve env bytes st = (r, st')"
  shows "ts_tree st' = ts_tree st" and "ts_sent st' = ts_sent st"
  using assms by (auto simp: reserve_def split: option.splits prod.splits)

lemma write_at_sent: "write_at env key offset bytes st = (r, st') \<Longrightarrow> ts_sent st' = ts_sent st"
  by (auto simp: write_at_def split: if_splits option.splits)

lemma send_request_keeps:
  assumes "send_request env scopes request problem st = (r, st')"
  shows "ts_tree st' = ts_tree st" and "ts_sent st' = Suc (ts_sent st)"
    and "r = Ok response \<Longrightarrow> te_net env (ts_sent st) request = Responded response"
  using assms
  by (auto simp: send_request_def record_content_response_def Let_def split: send_outcome.splits)

section \<open>Lemmas: writes\<close>

lemma overlay_in: "offset \<le> length c \<Longrightarrow> overlay offset bytes c = take offset c @ bytes @ drop (offset + length bytes) c"
  by (simp add: overlay_def)

lemma overlay_Nil: "offset \<le> length c \<Longrightarrow> overlay offset [] c = c"
  by (simp add: overlay_in)

lemma overlay_append:
  "offset \<le> length c \<Longrightarrow> overlay (offset + length a) b (overlay offset a c) = overlay offset (a @ b) c"
  by (simp add: overlay_in add.assoc drop_take [symmetric] add.commute [of "length b"])

lemma length_overlay:
  "offset \<le> length c \<Longrightarrow> length (overlay offset bytes c) = max (length c) (offset + length bytes)"
  by (simp add: overlay_in)

lemma overlay_whole: "length c \<le> length bytes \<Longrightarrow> overlay 0 bytes c = bytes"
  by (simp add: overlay_in)

lemma nth_overlay:
  assumes "offset \<le> length c" and "i < length (overlay offset bytes c)"
  shows "overlay offset bytes c ! i =
    (if offset \<le> i \<and> i < offset + length bytes then bytes ! (i - offset) else c ! i)"
  using assms by (auto simp: overlay_in nth_append min_def)

lemma write_at_effect:
  assumes "write_at env key offset bytes st = (r, st')"
    and "ts_tree st key = Some (RegularFile c)" and "offset \<le> length c"
  shows "\<exists>n \<le> length bytes. ts_tree st' = (ts_tree st)(key \<mapsto> RegularFile (overlay offset (take n bytes) c))
    \<and> (r = Ok u \<longrightarrow> n = length bytes)"
proof (cases "bytes = []")
  case True
  then have "ts_tree st' = (ts_tree st)(key \<mapsto> RegularFile (overlay offset [] c))"
    using assms by (auto simp: write_at_def overlay_Nil)
  then show ?thesis using True by simp
next
  case False
  then show ?thesis
  proof (cases "te_write env (ts_steps st)")
    case None
    then have "ts_tree st' = (ts_tree st)(key \<mapsto> RegularFile (overlay offset (take (length bytes) bytes) c))"
      using assms False by (auto simp: write_at_def update_file_def)
    then show ?thesis by blast
  next
    case (Some p)
    obtain n e where p: "p = (n, e)" by (cases p)
    have "ts_tree st' = (ts_tree st)(key \<mapsto> RegularFile (overlay offset (take (min n (length bytes)) bytes) c))"
      and "r = Err e"
      using assms False Some p by (auto simp: write_at_def update_file_def min_def)
    then show ?thesis by (intro exI [of _ "min n (length bytes)"]) simp
  qed
qed

lemma receive_range_effect:
  assumes "receive_range cx env key offset rng intr chunks written hashed st = (x, st')"
    and "ts_tree st key = Some (RegularFile c)" and "offset + written \<le> length c"
    and "written \<le> unat (dr_size rng)"
  shows "\<exists>bs. length bs \<le> unat (dr_size rng) - written
    \<and> ts_tree st' = (ts_tree st)(key \<mapsto> RegularFile (overlay (offset + written) bs c))
    \<and> (\<forall>d. x = Ok d \<longrightarrow> bs = concat chunks \<and> length bs = unat (dr_size rng) - written
          \<and> d = cx_sha256 cx (hashed @ bs))"
  using assms
proof (induction chunks arbitrary: written hashed st c)
  case Nil
  have same: "(ts_tree st)(key \<mapsto> RegularFile (overlay (offset + written) [] c)) = ts_tree st"
    using Nil.prems(2,3) by (auto simp: overlay_Nil)
  show ?case
    by (rule exI [of _ "[]"]) (use Nil.prems same in \<open>auto split: if_splits\<close>)
next
  case (Cons chunk rest)
  let ?size = "unat (dr_size rng)"
  have none: ?case if "ts_tree st' = ts_tree st" "\<forall>d. x \<noteq> Ok d"
    by (rule exI [of _ "[]"]) (use Cons.prems(2,3) that in \<open>auto simp: overlay_Nil\<close>)
  show ?case
  proof (cases "length chunk > ?size - written")
    case True
    then show ?thesis using none Cons.prems(1) by auto
  next
    case False
    obtain r1 st1 where one: "reserve env (length chunk) st = (r1, st1)" by fastforce
    note keep = reserve_keeps(1) [OF one]
    show ?thesis
    proof (cases r1)
      case (Err e)
      then show ?thesis using none Cons.prems(1) False one keep by (auto simp: fatal_def)
    next
      case (Ok u1)
      obtain r2 st2 where two: "write_at env key (offset + written) chunk st1 = (r2, st2)" by fastforce
      have "ts_tree st1 key = Some (RegularFile c)" using keep Cons.prems(2) by simp
      from write_at_effect [OF two this Cons.prems(3)]
      obtain n where n: "n \<le> length chunk" "r2 = Ok () \<longrightarrow> n = length chunk"
        "ts_tree st2 = (ts_tree st)(key \<mapsto> RegularFile (overlay (offset + written) (take n chunk) c))"
        unfolding keep by blast
      show ?thesis
      proof (cases r2)
        case (Err e)
        then have "x = Err (Io e, False)" "st' = st2"
          using Cons.prems(1) False one Ok two by (auto simp: fatal_def io_step_def)
        then show ?thesis using n False
          by (intro exI [of _ "take n chunk"]) auto
      next
        case ok2: (Ok u2)
        let ?c = "overlay (offset + written) chunk c"
        have run: "receive_range cx env key offset rng intr rest (written + length chunk)
            (hashed @ chunk) st2 = (x, st')"
          using Cons.prems(1) False one Ok two ok2 by (simp add: fatal_def io_step_def)
        have tree2: "ts_tree st2 = (ts_tree st)(key \<mapsto> RegularFile ?c)" using n ok2 by simp
        then have "ts_tree st2 key = Some (RegularFile ?c)" by simp
        moreover have "offset + (written + length chunk) \<le> length ?c"
          using Cons.prems(3) by (simp add: length_overlay)
        moreover have "written + length chunk \<le> ?size" using False Cons.prems(4) by linarith
        ultimately obtain bs where bs: "length bs \<le> ?size - (written + length chunk)"
          "ts_tree st' = (ts_tree st2)(key \<mapsto> RegularFile (overlay (offset + (written + length chunk)) bs ?c))"
          "\<forall>d. x = Ok d \<longrightarrow> bs = concat rest \<and> length bs = ?size - (written + length chunk)
            \<and> d = cx_sha256 cx ((hashed @ chunk) @ bs)"
          using Cons.IH [OF run] by blast
        have "overlay (offset + (written + length chunk)) bs ?c = overlay (offset + written) (chunk @ bs) c"
          using overlay_append [OF Cons.prems(3), of chunk bs] by (simp add: add.assoc)
        then show ?thesis using bs tree2 False Cons.prems(4) by (intro exI [of _ "chunk @ bs"]) auto
      qed
    qed
  qed
qed

text \<open>An update confined to the bytes from an offset on.\<close>

definition within :: "nat \<Rightarrow> nat \<Rightarrow> string \<Rightarrow> string \<Rightarrow> bool" where
  "within offset n c c' \<longleftrightarrow>
     length c \<le> length c' \<and> length c' \<le> max (length c) (offset + n)
     \<and> (\<forall>i < length c. i < offset \<or> offset + n \<le> i \<longrightarrow> c' ! i = c ! i)"

lemma within_refl [simp]: "within offset n c c"
  by (simp add: within_def)

lemma within_trans:
  assumes "within offset n a b" and "within offset n b c"
  shows "within offset n a c"
proof -
  have len: "length a \<le> length b" "length b \<le> length c"
    "length b \<le> max (length a) (offset + n)" "length c \<le> max (length b) (offset + n)"
    using assms by (simp_all add: within_def)
  have "c ! i = a ! i" if "i < length a" "i < offset \<or> offset + n \<le> i" for i
  proof -
    have "i < length b" using that(1) len(1) by simp
    then have "c ! i = b ! i" using assms(2) that(2) unfolding within_def by blast
    also have "\<dots> = a ! i" using assms(1) that unfolding within_def by blast
    finally show ?thesis .
  qed
  moreover have "length c \<le> max (length a) (offset + n)" using len(3,4) by linarith
  ultimately show ?thesis using len(1,2) by (simp add: within_def)
qed

lemma within_overlay: "offset \<le> length c \<Longrightarrow> length bs \<le> n \<Longrightarrow> within offset n c (overlay offset bs c)"
  unfolding within_def by (auto simp: length_overlay nth_overlay)

abbreviation range_request :: "remote_file \<Rightarrow> download_range \<Rightarrow> content_request" where
  "range_request remote rng \<equiv>
     \<lparr>cr_range = Some (range_header rng), cr_is_identity = True, cr_if_match = if_match_header remote\<rparr>"

text \<open>The body that an accepted response of the network gave for a range.\<close>

definition answered :: "transfer_env \<Rightarrow> remote_file \<Rightarrow> download_range \<Rightarrow> string \<Rightarrow> bool" where
  "answered env remote rng body \<longleftrightarrow>
     (\<exists>i response. te_net env i (range_request remote rng) = Responded response
        \<and> hr_status response = 206 \<and> concat (hr_chunks response) = body
        \<and> length body = unat (dr_size rng))"

lemma attempt_range_effect:
  assumes "attempt_range cx env scopes remote key offset rng st = (x, st')"
    and "ts_tree st key = Some (RegularFile c)" and "offset \<le> length c"
  shows "\<exists>c'. ts_tree st' = (ts_tree st)(key \<mapsto> RegularFile c')
    \<and> within offset (unat (dr_size rng)) c c'
    \<and> (\<forall>d. x = Ok d \<longrightarrow> (\<exists>body. answered env remote rng body \<and> c' = overlay offset body c
          \<and> d = cx_sha256 cx body))"
proof -
  obtain r1 st1 where one: "send_request env scopes (range_request remote rng)
      ''range connection failed'' st = (r1, st1)" by fastforce
  note keep = send_request_keeps(1) [OF one]
  have same: ?thesis if "ts_tree st' = ts_tree st" "\<forall>d. x \<noteq> Ok d"
    using that assms(2) by (intro exI [of _ c]) auto
  show ?thesis
  proof (cases r1)
    case (Err e)
    then show ?thesis using same assms(1) one keep by (auto simp: attempt_range_def)
  next
    case (Ok response)
    note net = send_request_keeps(3) [OF one Ok]
    let ?valid = "range_validate rng (hr_status response) (hr_header response ''content-range'') (rf_size remote)"
    show ?thesis
    proof (cases "is_ok ?valid \<and> is_ok (validate_etag response remote)
        \<and> receive_range cx env key offset rng (hr_is_interrupted response) (hr_chunks response) 0 [] st1 = (x, st')")
      case True
      then have status: "hr_status response = 206" by (auto simp: range_validate_def Let_def split: if_splits)
      have "ts_tree st1 key = Some (RegularFile c)" using keep assms(2) by simp
      with receive_range_effect [OF True [THEN conjunct2, THEN conjunct2] this] assms(3)
      obtain bs where bs: "length bs \<le> unat (dr_size rng)"
        "ts_tree st' = (ts_tree st)(key \<mapsto> RegularFile (overlay offset bs c))"
        "\<forall>d. x = Ok d \<longrightarrow> bs = concat (hr_chunks response) \<and> length bs = unat (dr_size rng)
          \<and> d = cx_sha256 cx bs"
        unfolding keep by auto
      have "within offset (unat (dr_size rng)) c (overlay offset bs c)"
        using within_overlay [OF assms(3) bs(1)] .
      then show ?thesis using bs(2,3) net status unfolding answered_def by blast
    next
      case False
      have "ts_tree st' = ts_tree st \<and> (\<forall>d. x \<noteq> Ok d)"
        using False assms(1) one Ok keep
        by (cases ?valid; cases "validate_etag response remote")
          (auto simp: attempt_range_def Let_def fatal_def split: if_splits)
      then show ?thesis using same by blast
    qed
  qed
qed

lemma attempt_range_sent:
  "attempt_range cx env scopes remote key offset rng st = (x, st') \<Longrightarrow> ts_sent st' = Suc (ts_sent st)"
proof -
  have recv: "receive_range cx env key offset rng intr chunks written hashed st = (x, st')
      \<Longrightarrow> ts_sent st' = ts_sent st" for intr chunks written hashed st x st'
  proof (induction chunks arbitrary: written hashed st)
    case Nil
    then show ?case by (auto split: if_splits)
  next
    case (Cons chunk rest)
    then show ?case
      by (auto simp: st_try_iff step_simps split: if_splits
          dest!: fatal_eq io_step_eq reserve_keeps(2) write_at_sent)
  qed
  assume "attempt_range cx env scopes remote key offset rng st = (x, st')"
  then show ?thesis
    by (auto simp: attempt_range_def st_try_iff step_simps Let_def split: if_splits
        dest!: recv fatal_eq dest: send_request_keeps(2))
qed

text \<open>What holds after one more attempt holds after the retry loop.\<close>

lemma retrying_invariant:
  assumes "retrying step exhausted ns st = (x, st')" and "I st"
    and "\<And>st r st1. I st \<Longrightarrow> step st = (r, st1) \<Longrightarrow> I st1 \<and> (\<forall>d. r = Ok d \<longrightarrow> Q d st1)"
  shows "I st' \<and> (\<forall>d. x = Ok d \<longrightarrow> Q d st')"
  using assms(1,2)
proof (induction ns arbitrary: st)
  case Nil
  then show ?case by auto
next
  case (Cons n ns)
  obtain r st1 where one: "step st = (r, st1)" by fastforce
  have after: "I st1" "\<forall>d. r = Ok d \<longrightarrow> Q d st1" using assms(3) [OF Cons.prems(2) one] by auto
  show ?case
    using Cons.prems(1) Cons.IH [of st1] one after
    by (auto split: result.splits prod.splits if_splits)
qed

lemma retrying_sent:
  assumes "retrying step exhausted ns st = (x, st')"
    and "\<And>st r st1. step st = (r, st1) \<Longrightarrow> ts_sent st1 \<le> Suc (ts_sent st)"
  shows "ts_sent st' \<le> ts_sent st + length ns"
  using assms(1)
proof (induction ns arbitrary: st)
  case Nil
  then show ?case by simp
next
  case (Cons n ns)
  obtain r st1 where one: "step st = (r, st1)" by fastforce
  note after = assms(2) [OF one]
  show ?case
    using Cons.prems Cons.IH [of st1] one after
    by (fastforce split: result.splits prod.splits if_splits)
qed

lemma transfer_range_effect:
  assumes "transfer_range cx env scopes remote key offset rng st = (x, st')"
    and "ts_tree st key = Some (RegularFile c)" and "offset \<le> length c"
  shows "\<exists>c'. ts_tree st' = (ts_tree st)(key \<mapsto> RegularFile c')
    \<and> within offset (unat (dr_size rng)) c c'
    \<and> (\<forall>d. x = Ok d \<longrightarrow> (\<exists>body. answered env remote rng body
          \<and> offset + unat (dr_size rng) \<le> length c'
          \<and> take (unat (dr_size rng)) (drop offset c') = body \<and> d = cx_sha256 cx body))"
proof -
  let ?n = "unat (dr_size rng)"
  let ?at = "\<lambda>c' s. ts_tree s = (ts_tree st)(key \<mapsto> RegularFile c') \<and> within offset ?n c c'"
  let ?I = "\<lambda>s. \<exists>c'. ?at c' s"
  let ?Q = "\<lambda>d s. \<exists>c' body. ?at c' s \<and> answered env remote rng body \<and> offset + ?n \<le> length c'
    \<and> take ?n (drop offset c') = body \<and> d = cx_sha256 cx body"
  have step: "?I s1 \<and> (\<forall>d. r = Ok d \<longrightarrow> ?Q d s1)"
    if I: "?I s" and run: "attempt_range cx env scopes remote key offset rng s = (r, s1)" for s r s1
  proof -
    obtain c1 where c1: "?at c1 s" using I by blast
    then have "ts_tree s key = Some (RegularFile c1)" "offset \<le> length c1"
      using assms(3) by (auto simp: within_def)
    then obtain c2 where c2: "ts_tree s1 = (ts_tree s)(key \<mapsto> RegularFile c2)"
      "within offset ?n c1 c2"
      "\<forall>d. r = Ok d \<longrightarrow> (\<exists>body. answered env remote rng body \<and> c2 = overlay offset body c1
          \<and> d = cx_sha256 cx body)"
      using attempt_range_effect [OF run] by blast
    have at: "?at c2 s1" using c1 c2(1,2) within_trans by auto
    have "?Q d s1" if d: "r = Ok d" for d
    proof -
      obtain body where b: "answered env remote rng body" "c2 = overlay offset body c1"
        "d = cx_sha256 cx body" using c2(3) d by blast
      have "length body = ?n" using b(1) by (auto simp: answered_def)
      then have "offset + ?n \<le> length c2" "take ?n (drop offset c2) = body"
        using b(2) \<open>offset \<le> length c1\<close> by (auto simp: overlay_in)
      then show ?thesis using at b by blast
    qed
    then show ?thesis using at by blast
  qed
  have "?I st" using assms(2) by (intro exI [of _ c]) auto
  note inv = retrying_invariant [where I = ?I and Q = ?Q, OF assms(1) [unfolded transfer_range_def] this step]
  show ?thesis
  proof (cases x)
    case (Ok d)
    then show ?thesis using inv by fastforce
  next
    case (Err e)
    then show ?thesis using inv by fastforce
  qed
qed

lemma transfer_range_sent:
  "transfer_range cx env scopes remote key offset rng st = (x, st') \<Longrightarrow> ts_sent st' \<le> ts_sent st + 3"
  unfolding transfer_range_def
  by (drule retrying_sent) (auto dest: attempt_range_sent)

lemma download_part_sent:
  assumes "download_part cx env scopes remote dir rng st = (x, st')"
  shows "ts_sent st' \<le> ts_sent st + 3"
proof -
  obtain r1 st1 where one: "with_tree (checkpoint_restore cx dir rng) st = (r1, st1)" by fastforce
  have s1: "ts_sent st1 = ts_sent st" using with_tree_eq [OF one] by auto
  show ?thesis
  proof (cases "r1 = Ok None")
    case False
    then have "r1 = Ok (Some p) \<Longrightarrow> st' = st1" "r1 = Err e \<Longrightarrow> st' = st1" for p e
      using assms one by (auto simp: download_part_def)
    then have "st' = st1" using False by (metis option.exhaust result.exhaust)
    then show ?thesis using s1 by simp
  next
    case True
    obtain u st2 where two: "next_ulid env st1 = (u, st2)" by fastforce
    obtain r3 st3 where three: "with_tree (checkpoint_stage u dir rng) st2 = (r3, st3)" by fastforce
    have s3: "ts_sent st3 = ts_sent st"
      using next_ulid_simps(2) [OF two] with_tree_eq [OF three] s1 by auto
    show ?thesis
    proof (cases r3)
      case (Err e)
      then show ?thesis using assms one two three True s3 by (simp add: download_part_def)
    next
      case (Ok staged)
      obtain r4 st4 where four: "transfer_range cx env scopes remote (staged_key staged) 0 rng st3 = (r4, st4)"
        by fastforce
      note s4 = transfer_range_sent [OF four]
      show ?thesis
        using assms one two three four True Ok s3 s4
        by (cases r4) (auto simp: download_part_def Let_def next_ulid_def with_tree_def split: prod.splits)
    qed
  qed
qed

lemma run_range_inner:
  assumes "run_range cx env scopes remote checkpoint key rng st = (x, st')"
  obtains st1 st2 r where "ts_tree st1 = ts_tree st" and "ts_sent st1 = ts_sent st"
    and "(case checkpoint of
            Some dir \<Rightarrow> download_part cx env (scopes @ [ts_fresh st]) remote dir rng st1
          | None \<Rightarrow> st_try (transfer_range cx env (scopes @ [ts_fresh st]) remote key (unat (dr_offset rng)) rng st1)
                      (\<lambda>_ st. (Ok (), st))) = (r, st2)"
    and "ts_tree st' = ts_tree st2" and "ts_sent st' = ts_sent st2" and "is_ok x = is_ok r"
proof -
  let ?st1 = "st\<lparr>ts_fresh := Suc (ts_fresh st), ts_traces := (ts_traces st)(ts_fresh st := with_limit 0)\<rparr>"
  obtain r st2 where inner: "(case checkpoint of
            Some dir \<Rightarrow> download_part cx env (scopes @ [ts_fresh st]) remote dir rng ?st1
          | None \<Rightarrow> st_try (transfer_range cx env (scopes @ [ts_fresh st]) remote key (unat (dr_offset rng)) rng ?st1)
                      (\<lambda>_ st. (Ok (), st))) = (r, st2)" by fastforce
  have "ts_tree st' = ts_tree st2 \<and> ts_sent st' = ts_sent st2 \<and> is_ok x = is_ok r"
    using assms inner by (cases r) (auto simp: run_range_def capture_scope_def)
  then show thesis using that [of ?st1 r st2] inner by simp
qed

lemma run_range_sent:
  assumes "run_range cx env scopes remote checkpoint key rng st = (x, st')"
  shows "ts_sent st' \<le> ts_sent st + 3"
  by (rule run_range_inner [OF assms])
    (auto simp: st_try_iff split: option.splits dest: download_part_sent transfer_range_sent)

lemma run_loop_sent:
  assumes "\<And>r s x s'. transfer r s = (x, s') \<Longrightarrow> ts_sent s' \<le> ts_sent s + 3"
    and "run_loop transfer c schedule pending queue st = Some (x, st')"
  shows "ts_sent st' \<le> ts_sent st + 3 * (length pending + length queue)"
  using assms(2)
proof (induction schedule arbitrary: pending queue st)
  case Nil
  then show ?case by (auto simp: run_loop.simps [of _ _ "[]"] Let_def split: prod.splits if_splits)
next
  case (Cons choice rest)
  obtain p q where pq: "fill c pending queue = (p, q)" by fastforce
  have len: "length p + length q = length pending + length queue"
    using fill_append [OF pq] by (metis length_append)
  show ?case
  proof (cases "p = []")
    case True
    then show ?thesis using Cons.prems pq by (auto simp: run_loop.simps [of _ _ "_ # _"] Let_def)
  next
    case False
    let ?i = "choice mod length p"
    have i: "?i < length p" using False by simp
    obtain y st1 where one: "transfer (p ! ?i) st = (y, st1)" by fastforce
    note s1 = assms(1) [OF one]
    show ?thesis
    proof (cases y)
      case (Err e)
      then show ?thesis using Cons.prems pq False one s1 len
        by (cases p) (auto simp: run_loop.simps [of _ _ "_ # _"] Let_def)
    next
      case (Ok u)
      then have "run_loop transfer c rest (remove_at ?i p) q st1 = Some (x, st')"
        using Cons.prems pq False one by (simp add: run_loop.simps [of _ _ "_ # _"] Let_def)
      moreover have "Suc (length (remove_at ?i p)) = length p" using i by (simp add: remove_at_def)
      ultimately show ?thesis using Cons.IH s1 len by fastforce
    qed
  qed
qed

section \<open>Lemmas: the staged file\<close>

lemma staged_new_effect:
  assumes "staged_new ulid dir path fs = (Ok st, fs')"
  shows "target_key st = dir @ split_on slash path" and "sf_name st = temp_name ulid"
    and "fs' (staged_key st) = Some (RegularFile [])"
    and "fs' k \<noteq> fs k \<Longrightarrow> k = staged_key st \<or> fs' k = Some Folder"
    and "grows fs fs'"
proof -
  obtain parent target fs1 where par: "safe_parent dir path True fs = (Ok (parent, target), fs1)"
    and st: "st = \<lparr>sf_directory = parent, sf_name = temp_name ulid, sf_target = target\<rparr>"
    and free: "fs1 (parent @ [temp_name ulid]) = None"
    and fs': "fs' = fs1(parent @ [temp_name ulid] \<mapsto> RegularFile [])"
    using assms
    by (auto simp: staged_new_def st_try_Ok_iff exclusive_def Let_def temp_name_def split: option.splits)
  have par': "parent @ [target] = dir @ split_on slash path \<and> grows fs fs1
      \<and> (\<forall>k. fs1 k \<noteq> fs k \<longrightarrow> fs1 k = Some Folder)"
  proof (cases "rsplit_once slash path")
    case None
    then have "slash \<notin> set path" by (simp add: rsplit_once_None)
    then show ?thesis using par None by (auto simp: safe_parent_def split: if_splits)
  next
    case (Some p)
    obtain a b where ab: "p = (a, b)" by (cases p)
    then have path: "path = a @ slash # b" "slash \<notin> set b"
      using Some by (auto simp: rsplit_once_Some)
    have "safe_directory dir a True fs = (Ok parent, fs1)" "target = b"
      using par Some ab by (auto simp: safe_parent_def st_try_Ok_iff split: if_splits)
    then have d: "descend dir (split_on slash a) True fs = (Ok parent, fs1)"
      by (simp add: safe_directory_def split: if_splits)
    have "split_on slash path = split_on slash a @ [b]" using path by (simp add: split_on_mid)
    then show ?thesis
      using descend_Ok [OF d] descend_grows [OF d] descend_new [OF d] \<open>target = b\<close> by simp
  qed
  show "target_key st = dir @ split_on slash path" using par' st by (simp add: target_key_def)
  show "sf_name st = temp_name ulid" using st by simp
  show "fs' (staged_key st) = Some (RegularFile [])" using fs' st by (simp add: staged_key_def)
  show "fs' k \<noteq> fs k \<Longrightarrow> k = staged_key st \<or> fs' k = Some Folder"
    using fs' st par' by (auto simp: staged_key_def split: if_splits)
  show "grows fs fs'" using par' free fs' by (auto simp: grows_def)
qed

lemma verify_file_Ok:
  assumes "verify_file cx remote key st = Ok digest"
  shows "\<exists>content. ts_tree st key = Some (RegularFile content)
    \<and> length content = unat (rf_size remote)
    \<and> (rf_crc64 remote \<noteq> 0 \<longrightarrow> cx_crc64 cx content = rf_crc64 remote)
    \<and> digest = cx_sha256 cx content"
  using assms
  by (auto simp: verify_file_def verify_content_def concat_chunks_of buffer_size_def
      split: option.splits node.splits if_splits)

lemma finish_ranges_Ok:
  assumes "finish_ranges cx env remote checkpoint key st = (Ok digest, st')"
  obtains st1 where "(case checkpoint of
        None \<Rightarrow> (Ok (), st)
      | Some dir \<Rightarrow> assemble cx env dir key (rf_size remote) st) = (Ok (), st1)"
    and "verify_file cx remote key st1 = Ok digest" and "st' = st1"
proof -
  obtain st1 where a: "(case checkpoint of
        None \<Rightarrow> (Ok (), st)
      | Some dir \<Rightarrow> assemble cx env dir key (rf_size remote) st) = (Ok (), st1)"
    and rest: "st_try (case (verify_file cx remote key st1, checkpoint) of
                    (Err (TransferFailed _), Some dir) \<Rightarrow>
                      with_tree (checkpoint_clear dir (rf_size remote)) st1
                  | _ \<Rightarrow> (Ok (), st1)) (\<lambda>_ st. (verify_file cx remote key st1, st)) = (Ok digest, st')"
    using assms by (auto simp: finish_ranges_def st_try_Ok_iff Let_def)
  then have "verify_file cx remote key st1 = Ok digest" by (auto simp: st_try_Ok_iff)
  moreover have "st' = st1" using rest unfolding calculation by simp
  ultimately show thesis using a that by blast
qed

text \<open>The course of a ranged download that succeeds.\<close>

lemma ranged_download_Ok:
  assumes "ranged_download cx env scopes request schedule st = Some (Ok (staged, digest), st')"
  obtains plan checkpoint st1 ulid st2 st3 st5 st6 where
    "plan_new (rf_size (rd_remote request)) = Ok plan"
    and "open_checkpoint cx request st = (Ok checkpoint, st1)"
    and "next_ulid env st1 = (ulid, st2)"
    and "with_tree (staged_new ulid (rd_directory request) (rd_local request)) st2 = (Ok staged, st3)"
    and "run_ranges (plan_collect plan) (rd_concurrency request)
          (run_range cx env scopes (rd_remote request) checkpoint (staged_key staged)) schedule
          (st3\<lparr>ts_tree := update_file (staged_key staged)
            (set_len (unat (rf_size (rd_remote request)))) (ts_tree st3)\<rparr>)
        = Some (Ok (), st5)"
    and "finish_ranges cx env (rd_remote request) checkpoint (staged_key staged) st5 = (Ok digest, st6)"
    and "st' = release checkpoint st6"
proof -
  let ?remote = "rd_remote request"
  obtain plan where plan: "plan_new (rf_size ?remote) = Ok plan"
    using assms by (cases "plan_new (rf_size ?remote)") (auto simp: ranged_download_def)
  obtain r1 st1 where one: "open_checkpoint cx request st = (r1, st1)" by fastforce
  obtain checkpoint where r1: "r1 = Ok checkpoint"
    using assms plan one by (cases r1) (auto simp: ranged_download_def)
  obtain ulid st2 where two: "next_ulid env st1 = (ulid, st2)" by fastforce
  obtain r3 st3 where three: "with_tree (staged_new ulid (rd_directory request) (rd_local request)) st2 = (r3, st3)"
    by fastforce
  obtain s where r3: "r3 = Ok s"
    using assms plan one r1 two three by (cases r3) (auto simp: ranged_download_def io_step_def)
  let ?st4 = "st3\<lparr>ts_tree := update_file (staged_key s) (set_len (unat (rf_size ?remote))) (ts_tree st3)\<rparr>"
  let ?run = "run_ranges (plan_collect plan) (rd_concurrency request)
    (run_range cx env scopes ?remote checkpoint (staged_key s)) schedule ?st4"
  have "map_option (\<lambda>(r, st).
      case st_try (r, st) (\<lambda>_ st. finish_ranges cx env ?remote checkpoint (staged_key s) st) of
        (Err e, st) \<Rightarrow> (Err e, release checkpoint (drop_file env s st))
      | (Ok digest, st) \<Rightarrow> (Ok (s, digest), release checkpoint st)) ?run = Some (Ok (staged, digest), st')"
    using assms plan one r1 two three r3 by (simp add: ranged_download_def io_step_def Let_def)
  then obtain r5 st5 where run: "?run = Some (r5, st5)"
    and rest: "(case st_try (r5, st5) (\<lambda>_ st. finish_ranges cx env ?remote checkpoint (staged_key s) st) of
        (Err e, st) \<Rightarrow> (Err e, release checkpoint (drop_file env s st))
      | (Ok digest, st) \<Rightarrow> (Ok (s, digest), release checkpoint st)) = (Ok (staged, digest), st')"
    by (auto simp: map_option_eq_Some)
  obtain u where r5: "r5 = Ok u" using rest by (cases r5) auto
  obtain r6 st6 where fin: "finish_ranges cx env ?remote checkpoint (staged_key s) st5 = (r6, st6)"
    by fastforce
  have "r6 = Ok digest" "s = staged" "st' = release checkpoint st6"
    using rest r5 fin by (cases r6; auto)+
  then show thesis using that [OF plan one [unfolded r1] two] three r3 run r5 fin by simp
qed

section \<open>Lemmas: the single request\<close>

lemma receive_effect:
  assumes "receive cx env key remote intr chunks hashed st = (x, st')"
    and "ts_tree st key = Some (RegularFile hashed)"
  shows "x = Ok d \<Longrightarrow> ts_tree st' = (ts_tree st)(key \<mapsto> RegularFile (hashed @ concat chunks))
    \<and> verify_content cx remote (hashed @ concat chunks) = Ok d"
  using assms
proof (induction chunks arbitrary: hashed st)
  case Nil
  then have "ts_tree st' = ts_tree st" by (auto simp: fatal_def split: if_splits)
  moreover have "verify_content cx remote hashed = Ok d"
    using Nil by (auto simp: step_simps split: if_splits)
  ultimately show ?case using Nil.prems(3) by auto
next
  case (Cons chunk rest)
  obtain st1 st2 where one: "reserve env (length chunk) st = (Ok (), st1)"
    and two: "write_at env key (length hashed) chunk st1 = (Ok (), st2)"
    and run: "receive cx env key remote intr rest (hashed @ chunk) st2 = (x, st')"
    using Cons.prems(1,2) by (auto simp: st_try_Ok_iff step_simps split: if_splits)
  have "ts_tree st1 key = Some (RegularFile hashed)"
    using reserve_keeps(1) [OF one] Cons.prems(3) by simp
  then have t2: "ts_tree st2 = (ts_tree st)(key \<mapsto> RegularFile (hashed @ chunk))"
    using write_at_effect [OF two] reserve_keeps(1) [OF one] by (fastforce simp: overlay_in)
  then show ?case using Cons.IH [OF Cons.prems(1) run] by (simp add: fun_eq_iff)
qed

text \<open>What the success of one attempt means for the state it leaves.\<close>

definition single_done ::
  "codec \<Rightarrow> transfer_env \<Rightarrow> range_download \<Rightarrow> staged_file \<times> string \<Rightarrow> transfer_state \<Rightarrow> bool" where
  "single_done cx env request p st \<longleftrightarrow>
     (\<exists>ulid fs fs1 i response.
        staged_new ulid (rd_directory request) (rd_local request) fs = (Ok (fst p), fs1)
        \<and> ts_tree st = fs1(staged_key (fst p) \<mapsto> RegularFile (concat (hr_chunks response)))
        \<and> verify_content cx (rd_remote request) (concat (hr_chunks response)) = Ok (snd p)
        \<and> te_net env i \<lparr>cr_range = None, cr_is_identity = False, cr_if_match = if_match_header (rd_remote request)\<rparr>
            = Responded response
        \<and> is_success (hr_status response))"

lemma attempt_done:
  assumes "attempt cx env scopes request st = (Ok p, st')"
  shows "single_done cx env request p st'"
proof -
  let ?remote = "rd_remote request"
  obtain response st1 where one: "send_request env scopes
      \<lparr>cr_range = None, cr_is_identity = False, cr_if_match = if_match_header ?remote\<rparr> ''content connection failed'' st
      = (Ok response, st1)" and succ: "is_success (hr_status response)"
    and rest: "st_try (fatal (validate_response response ?remote, st1)) (\<lambda>_ st.
        let (ulid, st) = next_ulid env st
        in st_try (fatal (io_step (with_tree (staged_new ulid (rd_directory request) (rd_local request)) st)))
             (\<lambda>staged st. case receive cx env (staged_key staged) ?remote (hr_is_interrupted response)
                     (hr_chunks response) [] st of
                (Err e, st) \<Rightarrow> (Err e, drop_file env staged st)
              | (Ok digest, st) \<Rightarrow> (Ok (staged, digest), st))) = (Ok p, st')"
    using assms by (auto simp: attempt_def st_try_Ok_iff Let_def split: if_splits)
  obtain ulid st2 where u: "next_ulid env st1 = (ulid, st2)" by fastforce
  obtain staged fs where new: "staged_new ulid (rd_directory request) (rd_local request) (ts_tree st2) = (Ok staged, fs)"
    and recv: "(case receive cx env (staged_key staged) ?remote (hr_is_interrupted response)
                     (hr_chunks response) [] (st2\<lparr>ts_tree := fs\<rparr>) of
                (Err e, st) \<Rightarrow> (Err e, drop_file env staged st)
              | (Ok digest, st) \<Rightarrow> (Ok (staged, digest), st)) = (Ok p, st')"
    using rest u by (auto simp: st_try_Ok_iff step_simps)
  then obtain digest where p: "p = (staged, digest)"
    and r: "receive cx env (staged_key staged) ?remote (hr_is_interrupted response)
        (hr_chunks response) [] (st2\<lparr>ts_tree := fs\<rparr>) = (Ok digest, st')"
    by (auto split: prod.splits result.splits)
  have "ts_tree (st2\<lparr>ts_tree := fs\<rparr>) (staged_key staged) = Some (RegularFile [])"
    using staged_new_effect(3) [OF new] by simp
  from receive_effect [OF r this refl]
  have "ts_tree st' = fs(staged_key staged \<mapsto> RegularFile (concat (hr_chunks response)))"
    "verify_content cx ?remote (concat (hr_chunks response)) = Ok digest" by simp_all
  moreover have "te_net env (ts_sent st) \<lparr>cr_range = None, cr_is_identity = False, cr_if_match = if_match_header ?remote\<rparr>
      = Responded response" using send_request_keeps(3) [OF one] by blast
  ultimately show ?thesis
    using new p succ unfolding single_done_def fst_conv snd_conv p by blast
qed

lemma download_single_done:
  assumes "download_single cx env scopes request st = (Ok p, st')"
  shows "single_done cx env request p st'"
  using retrying_invariant [where I = "\<lambda>_. True" and Q = "single_done cx env request",
      OF assms [unfolded download_single_def]] attempt_done by blast

lemma verify_content_Ok:
  "verify_content cx remote content = Ok digest \<longleftrightarrow>
     length content = unat (rf_size remote)
     \<and> (rf_crc64 remote \<noteq> 0 \<longrightarrow> cx_crc64 cx content = rf_crc64 remote) \<and> digest = cx_sha256 cx content"
  by (auto simp: verify_content_def)

lemma attempt_sent: "attempt cx env scopes request st = (x, st') \<Longrightarrow> ts_sent st' \<le> Suc (ts_sent st)"
proof -
  have recv: "receive cx env key remote intr chunks hashed st = (x, st') \<Longrightarrow> ts_sent st' = ts_sent st"
    for key remote intr chunks hashed st x st'
  proof (induction chunks arbitrary: hashed st)
    case Nil
    then show ?case by (auto simp: fatal_def split: if_splits)
  next
    case (Cons chunk rest)
    then show ?case
      by (auto simp: st_try_iff step_simps split: if_splits
          dest!: fatal_eq io_step_eq reserve_keeps(2) write_at_sent)
  qed
  have last: "ts_sent st' = ts_sent st"
    if "(case receive cx env key remote intr chunks [] st of
          (Err e, st) \<Rightarrow> (Err e, drop_file env staged st)
        | (Ok digest, st) \<Rightarrow> (Ok (staged, digest), st)) = (x, st')"
    for key remote intr chunks staged st and x :: "(staged_file \<times> string, cli_error \<times> bool) result" and st'
  proof -
    obtain r s where run: "receive cx env key remote intr chunks [] st = (r, s)" by fastforce
    then show ?thesis using that recv [OF run] by (cases r) auto
  qed
  assume "attempt cx env scopes request st = (x, st')"
  then show ?thesis
    by (auto simp: attempt_def st_try_iff step_simps Let_def next_ulid_def split: if_splits
        dest!: last fatal_eq io_step_eq with_tree_eq dest: send_request_keeps(2))
qed

section \<open>Lemmas: planned ranges\<close>

definition planned :: "u64 \<Rightarrow> download_range \<Rightarrow> bool" where
  "planned bytes r \<longleftrightarrow> part_count bytes \<le> u32_max \<and> (\<exists>i < part_count bytes. r = nth_range bytes i)"

lemma planned_bound: "planned bytes r \<Longrightarrow> unat (dr_offset r) + unat (dr_size r) \<le> unat bytes"
  using nth_range_bounds(4) by (auto simp: planned_def)

lemma planned_index_less:
  assumes "i < j" and "j < part_count bytes"
  shows "unat (dr_offset (nth_range bytes i)) + unat (dr_size (nth_range bytes i))
    \<le> unat (dr_offset (nth_range bytes j))"
proof -
  have "i < part_count bytes" using assms by simp
  have "Suc i * 16777216 \<le> j * 16777216" using assms(1) by (intro mult_le_mono1) simp
  then show ?thesis
    using nth_range_bounds(1,2) [OF \<open>i < part_count bytes\<close>] nth_range_bounds(1) [OF assms(2)] by simp
qed

lemma planned_disjoint:
  assumes "planned bytes q" and "planned bytes r" and "q \<noteq> r"
  shows "unat (dr_offset q) + unat (dr_size q) \<le> unat (dr_offset r)
    \<or> unat (dr_offset r) + unat (dr_size r) \<le> unat (dr_offset q)"
proof -
  obtain i j where "i < part_count bytes" "q = nth_range bytes i" "j < part_count bytes"
    "r = nth_range bytes j" using assms(1,2) by (auto simp: planned_def)
  then show ?thesis using planned_index_less [of i j bytes] planned_index_less [of j i bytes] assms(3)
    by (metis linorder_neqE_nat)
qed

lemma planned_number:
  assumes "planned bytes q" and "planned bytes r" and "dr_number q = dr_number r"
  shows "q = r"
proof -
  obtain i j where ij: "i < part_count bytes" "q = nth_range bytes i" "j < part_count bytes"
    "r = nth_range bytes j" "part_count bytes \<le> u32_max"
    using assms(1,2) by (auto simp: planned_def)
  have "unat (of_nat (Suc i) :: u32) = Suc i" "unat (of_nat (Suc j) :: u32) = Suc j"
    using ij by (simp_all add: unat_of_nat u32_max_def del: of_nat_Suc)
  moreover have "(of_nat (Suc i) :: u32) = of_nat (Suc j)"
    using assms(3) ij(2,4) by (simp add: nth_range_def)
  ultimately have "Suc i = Suc j" by metis
  then show ?thesis using ij(2,4) by simp
qed

lemma plan_planned:
  assumes "plan_new bytes = Ok plan"
  shows "\<forall>r \<in> set (plan_collect plan). planned bytes r" and "distinct (plan_collect plan)"
proof -
  have c: "plan_collect plan = map (nth_range bytes) [0..<part_count bytes]"
    and le: "part_count bytes \<le> u32_max" using plan_collect_new [OF assms] by auto
  show "\<forall>r \<in> set (plan_collect plan). planned bytes r" using c le by (auto simp: planned_def)
  have ne: "nth_range bytes i \<noteq> nth_range bytes j" if "i < j" "j < part_count bytes" for i j
  proof
    assume "nth_range bytes i = nth_range bytes j"
    moreover have "0 < unat (dr_size (nth_range bytes i))" using nth_range_bounds(3) that by simp
    ultimately show False using planned_index_less [OF that] by simp
  qed
  have "inj_on (nth_range bytes) {0..<part_count bytes}"
  proof (rule inj_onI)
    fix i j
    assume "i \<in> {0..<part_count bytes}" "j \<in> {0..<part_count bytes}" "nth_range bytes i = nth_range bytes j"
    then show "i = j" using ne [of i j] ne [of j i] by (cases i j rule: linorder_cases) auto
  qed
  then show "distinct (plan_collect plan)" unfolding c by (simp add: distinct_map)
qed

definition range_slice :: "string \<Rightarrow> download_range \<Rightarrow> string" where
  "range_slice source r = take (unat (dr_size r)) (drop (unat (dr_offset r)) source)"

lemma slices_concat:
  assumes "plan_new bytes = Ok plan" and "length source = unat bytes"
  shows "concat (map (range_slice source) (plan_collect plan)) = source"
proof -
  have "range_slice source r = map ((!) source) (range_bytes r)" if "r \<in> set (plan_collect plan)" for r
  proof -
    have "unat (dr_offset r) + unat (dr_size r) \<le> length source"
      using plan_planned(1) [OF assms(1)] that planned_bound assms(2) by simp
    then show ?thesis by (auto simp: range_slice_def range_bytes_def intro: nth_equalityI)
  qed
  then have "concat (map (range_slice source) (plan_collect plan))
      = map ((!) source) (concat (map range_bytes (plan_collect plan)))"
    by (simp add: map_concat cong: map_cong)
  also have "\<dots> = source" unfolding plan_partition [OF assms(1)] assms(2) [symmetric] by (rule map_nth)
  finally show ?thesis .
qed

section \<open>A network that serves one pinned object\<close>

text \<open>
  What HTTP promises of a request pinned by \<open>If-Match\<close>: the body of a 206 answer to a range
  is the object's range, that of a successful answer to a plain request the object, and an
  interrupted body is a prefix of it.
\<close>

definition serves :: "transfer_env \<Rightarrow> remote_file \<Rightarrow> string \<Rightarrow> bool" where
  "serves env remote source \<longleftrightarrow>
     (\<forall>i rng response. te_net env i (range_request remote rng) = Responded response
        \<and> hr_status response = 206 \<longrightarrow> (\<exists>rest. concat (hr_chunks response) @ rest = range_slice source rng))
     \<and> (\<forall>i response. te_net env i \<lparr>cr_range = None, cr_is_identity = False, cr_if_match = if_match_header remote\<rparr>
            = Responded response \<and> is_success (hr_status response)
        \<longrightarrow> (\<exists>rest. concat (hr_chunks response) @ rest = source))"

lemma answered_slice:
  assumes "serves env remote source" and "answered env remote rng body"
  shows "body = range_slice source rng"
proof -
  obtain i response where net: "te_net env i (range_request remote rng) = Responded response"
    "hr_status response = 206" "concat (hr_chunks response) = body" "length body = unat (dr_size rng)"
    using assms(2) unfolding answered_def by blast
  then obtain rest where rest: "body @ rest = range_slice source rng" and len: "length body = unat (dr_size rng)"
    using assms(1) unfolding serves_def by blast
  have "length (range_slice source rng) \<le> unat (dr_size rng)" by (simp add: range_slice_def)
  then have "rest = []" using len by (metis add_le_same_cancel1 le_zero_eq length_0_conv length_append rest)
  then show ?thesis using rest by simp
qed

section \<open>The workers\<close>

text \<open>Without a recovery directory a range is stored in place in the staged file.\<close>

definition in_place :: "codec \<Rightarrow> transfer_env \<Rightarrow> remote_file \<Rightarrow> string \<Rightarrow> string list \<Rightarrow> transfer_state \<Rightarrow> bool" where
  "in_place cx env remote source key st \<longleftrightarrow>
     serves env remote source \<and> length source = unat (rf_size remote)
     \<and> (\<exists>c. ts_tree st key = Some (RegularFile c) \<and> length c = unat (rf_size remote))"

definition stored_in_place :: "string \<Rightarrow> string list \<Rightarrow> download_range \<Rightarrow> transfer_state \<Rightarrow> bool" where
  "stored_in_place source key r st \<longleftrightarrow>
     (\<exists>c. ts_tree st key = Some (RegularFile c) \<and> range_slice c r = range_slice source r)"

lemma run_range_in_place:
  assumes "run_range cx env scopes remote None key r st = (x, st')"
    and "ts_tree st key = Some (RegularFile c)" and "unat (dr_offset r) + unat (dr_size r) \<le> length c"
  shows "\<exists>c'. ts_tree st' = (ts_tree st)(key \<mapsto> RegularFile c') \<and> length c' = length c
    \<and> (\<forall>i < length c. i < unat (dr_offset r) \<or> unat (dr_offset r) + unat (dr_size r) \<le> i \<longrightarrow> c' ! i = c ! i)
    \<and> (is_ok x \<longrightarrow> answered env remote r (range_slice c' r))"
proof -
  obtain st1 st2 y where t1: "ts_tree st1 = ts_tree st"
    and inner: "st_try (transfer_range cx env (scopes @ [ts_fresh st]) remote key (unat (dr_offset r)) r st1)
        (\<lambda>_ st. (Ok (), st)) = (y, st2)"
    and t2: "ts_tree st' = ts_tree st2" "is_ok x = is_ok y"
    by (rule run_range_inner [OF assms(1)]) auto
  obtain z st3 where z: "transfer_range cx env (scopes @ [ts_fresh st]) remote key (unat (dr_offset r)) r st1
      = (z, st3)" by fastforce
  have st3: "st2 = st3" "is_ok y = is_ok z" using inner z by (cases z; auto)+
  have "ts_tree st1 key = Some (RegularFile c)" using t1 assms(2) by simp
  moreover have "unat (dr_offset r) \<le> length c" using assms(3) by simp
  ultimately obtain c' where c': "ts_tree st3 = (ts_tree st1)(key \<mapsto> RegularFile c')"
    "within (unat (dr_offset r)) (unat (dr_size r)) c c'"
    "\<forall>d. z = Ok d \<longrightarrow> answered env remote r (range_slice c' r)"
    using transfer_range_effect [OF z] unfolding range_slice_def by blast
  have "length c' = length c" using c'(2) assms(3) by (simp add: within_def)
  moreover have "is_ok x \<longrightarrow> answered env remote r (range_slice c' r)"
    using c'(3) t2(2) st3(2) by (cases z) auto
  ultimately show ?thesis using c'(1,2) t1 t2(1) st3(1) by (auto simp: within_def)
qed

lemma slice_same:
  assumes "length c' = length c"
    and "\<forall>i < length c. i < lo \<or> hi \<le> i \<longrightarrow> c' ! i = c ! i"
    and "unat (dr_offset q) + unat (dr_size q) \<le> lo \<or> hi \<le> unat (dr_offset q)"
  shows "range_slice c' q = range_slice c q"
  unfolding range_slice_def using assms by (intro nth_equalityI) auto

interpretation direct: range_worker
  "run_range cx env scopes remote None key" "in_place cx env remote source key"
  "stored_in_place source key" "planned (rf_size remote)"
  for cx :: codec and env :: transfer_env and scopes :: "nat list" and remote :: remote_file
    and key :: "string list" and source :: string
proof
  fix r s s' and x :: "(unit, cli_error) result"
  assume part: "planned (rf_size remote) r" and inv: "in_place cx env remote source key s"
    and run: "run_range cx env scopes remote None key r s = (x, s')"
  obtain c where c: "ts_tree s key = Some (RegularFile c)" "length c = unat (rf_size remote)"
    using inv by (auto simp: in_place_def)
  then obtain c' where c': "ts_tree s' = (ts_tree s)(key \<mapsto> RegularFile c')" "length c' = length c"
    using run_range_in_place [OF run c(1)] planned_bound [OF part] by auto
  show "in_place cx env remote source key s'" using inv c c' by (auto simp: in_place_def)
next
  fix r s s'
  assume part: "planned (rf_size remote) r" and inv: "in_place cx env remote source key s"
    and run: "run_range cx env scopes remote None key r s = (Ok (), s')"
  obtain c where c: "ts_tree s key = Some (RegularFile c)" "length c = unat (rf_size remote)"
    using inv by (auto simp: in_place_def)
  then obtain c' where "ts_tree s' = (ts_tree s)(key \<mapsto> RegularFile c')"
    "answered env remote r (range_slice c' r)"
    using run_range_in_place [OF run c(1)] planned_bound [OF part] by auto
  then show "stored_in_place source key r s'"
    using answered_slice inv by (auto simp: stored_in_place_def in_place_def)
next
  fix r q s s' and x :: "(unit, cli_error) result"
  assume part: "planned (rf_size remote) r" "planned (rf_size remote) q" "q \<noteq> r"
    and inv: "in_place cx env remote source key s" and q: "stored_in_place source key q s"
    and run: "run_range cx env scopes remote None key r s = (x, s')"
  obtain c where c: "ts_tree s key = Some (RegularFile c)" "length c = unat (rf_size remote)"
    using inv by (auto simp: in_place_def)
  then obtain c' where c': "ts_tree s' = (ts_tree s)(key \<mapsto> RegularFile c')" "length c' = length c"
    "\<forall>i < length c. i < unat (dr_offset r) \<or> unat (dr_offset r) + unat (dr_size r) \<le> i \<longrightarrow> c' ! i = c ! i"
    using run_range_in_place [OF run c(1)] planned_bound [OF part(1)] by auto
  have "range_slice c' q = range_slice c q"
    by (rule slice_same [OF c'(2,3)]) (use planned_disjoint [OF part(2,1,3)] in auto)
  then show "stored_in_place source key q s'"
    using q c(1) c'(1) by (auto simp: stored_in_place_def)
qed

text \<open>With a recovery directory a range is stored as a part and its receipt.\<close>

lemma recorded_spares:
  assumes "spares dir r fs fs'" and "recorded cx dir q fs' c d"
  shows "recorded cx dir q fs c d"
proof -
  have "fs' k = Some n \<Longrightarrow> fs k = Some n" for k n
    using assms(1) unfolding spares_def by (metis option.distinct(1))
  then show ?thesis using assms(2) unfolding recorded_def by blast
qed

lemma recorded_cong:
  assumes "fs' (dir @ [part_name r]) = fs (dir @ [part_name r])"
    and "fs' (dir @ [receipt_name r]) = fs (dir @ [receipt_name r])"
  shows "recorded cx dir r fs' c d \<longleftrightarrow> recorded cx dir r fs c d"
  using assms by (simp add: recorded_def)

lemma part_not_temp: "dir @ [part_name r] \<noteq> dir' @ [temp_name u]" "dir @ [receipt_name r] \<noteq> dir' @ [temp_name u]"
  by auto

text \<open>Everything that may change is the part, the receipt and temporary files that were not there.\<close>

definition touches_range :: "safe_dir \<Rightarrow> download_range \<Rightarrow> file_tree \<Rightarrow> file_tree \<Rightarrow> bool" where
  "touches_range dir r fs fs' \<longleftrightarrow>
     (\<forall>k. k \<noteq> dir @ [part_name r] \<and> k \<noteq> dir @ [receipt_name r] \<and> fs' k \<noteq> fs k \<longrightarrow>
        fs k = None \<and> (\<exists>u. k = dir @ [temp_name u]))"

lemma spares_touches: "spares dir r fs fs' \<Longrightarrow> touches_range dir r fs fs'"
  unfolding spares_def touches_range_def by blast

lemma drop_staged_cases: "drop_staged c st fs = fs \<or> drop_staged c st fs = fs(staged_key st := None)"
  by (auto simp: drop_staged_def remove_leaf_def staged_key_def split: option.splits node.splits)

text \<open>The part that is transferred because nothing valid is recorded.\<close>

lemma fresh_part_effect:
  assumes gone: "gone dir r fs1"
    and new: "staged_new u dir (part_name r) fs1 = (Ok staged, fs2)"
    and t3: "ts_tree st3 = fs2"
    and run: "transfer_range cx env scopes remote (staged_key staged) 0 r st3 = (y, st4)"
  shows "ts_tree st4 = fs1(dir @ [temp_name u] \<mapsto> RegularFile c) \<Longrightarrow> y = Ok digest \<Longrightarrow>
      answered env remote r c \<and> digest = cx_sha256 cx c"
    and "\<exists>c. ts_tree st4 = fs1(dir @ [temp_name u] \<mapsto> RegularFile c)"
proof -
  note leaf = staged_new_leaf [OF names_no_slash(1) new]
  have key: "staged_key staged = dir @ [temp_name u]" using leaf by (simp add: staged_key_def)
  have "ts_tree st3 (staged_key staged) = Some (RegularFile [])" using leaf key t3 by simp
  from transfer_range_effect [OF run this] obtain c' where
    c': "ts_tree st4 = fs2(dir @ [temp_name u] \<mapsto> RegularFile c')"
    "within 0 (unat (dr_size r)) [] c'"
    "\<forall>d. y = Ok d \<longrightarrow> (\<exists>body. answered env remote r body \<and> unat (dr_size r) \<le> length c'
        \<and> take (unat (dr_size r)) c' = body \<and> d = cx_sha256 cx body)"
    unfolding key t3 by auto
  have tree: "ts_tree st4 = fs1(dir @ [temp_name u] \<mapsto> RegularFile c')"
    using c'(1) leaf by (simp add: fun_eq_iff)
  then show "\<exists>c. ts_tree st4 = fs1(dir @ [temp_name u] \<mapsto> RegularFile c)" by blast
  show "ts_tree st4 = fs1(dir @ [temp_name u] \<mapsto> RegularFile c) \<Longrightarrow> y = Ok digest \<Longrightarrow>
      answered env remote r c \<and> digest = cx_sha256 cx c"
  proof -
    assume at: "ts_tree st4 = fs1(dir @ [temp_name u] \<mapsto> RegularFile c)" and ok: "y = Ok digest"
    have "c = c'" using at tree by (metis fun_upd_same node.inject option.inject)
    moreover have "length c' \<le> unat (dr_size r)" using c'(2) by (simp add: within_def)
    ultimately show ?thesis using c'(3) ok by auto
  qed
qed

lemma download_part_effect:
  assumes "download_part cx env scopes remote dir r st = (x, st')"
  shows "touches_range dir r (ts_tree st) (ts_tree st')"
    and "recorded cx dir r (ts_tree st') c (cx_sha256 cx c) \<Longrightarrow>
      recorded cx dir r (ts_tree st) c (cx_sha256 cx c) \<or> answered env remote r c"
    and "x = Ok v \<Longrightarrow> codec_ok cx \<Longrightarrow> \<exists>c d. recorded cx dir r (ts_tree st') c d"
proof -
  let ?fs = "ts_tree st"
  obtain r1 st1 where one: "with_tree (checkpoint_restore cx dir r) st = (r1, st1)" by fastforce
  then have res: "checkpoint_restore cx dir r ?fs = (r1, ts_tree st1)" by (auto dest: with_tree_eq)
  note sp = restore_effect(1) [OF res]
  have goal: "touches_range dir r ?fs (ts_tree st')
    \<and> (recorded cx dir r (ts_tree st') c (cx_sha256 cx c) \<longrightarrow>
        recorded cx dir r ?fs c (cx_sha256 cx c) \<or> answered env remote r c)
    \<and> (x = Ok v \<longrightarrow> codec_ok cx \<longrightarrow> (\<exists>c d. recorded cx dir r (ts_tree st') c d))" for c v
  proof (cases "r1 = Ok None")
    case False
    then have st': "st' = st1" and x: "x = Ok v \<Longrightarrow> \<exists>p. r1 = Ok (Some p)"
      using assms one by (cases r1; auto simp: download_part_def split: option.splits)+
    have "\<exists>c d. recorded cx dir r (ts_tree st1) c d" if success: "x = Ok v"
    proof -
      obtain a d where "r1 = Ok (Some (a, d))" using x [OF success] by auto
      then have "recorded cx dir r (ts_tree st1) a d" using res by (simp add: restore_Some)
      then show ?thesis by blast
    qed
    then show ?thesis unfolding st' using spares_touches [OF sp] recorded_spares [OF sp] by blast
  next
    case True
    have gone: "gone dir r (ts_tree st1)" using restore_effect(2) [OF res True] .
    obtain u st2 where two: "next_ulid env st1 = (u, st2)" by fastforce
    obtain r3 st3 where three: "with_tree (checkpoint_stage u dir r) st2 = (r3, st3)" by fastforce
    obtain r3' where new: "staged_new u dir (part_name r) (ts_tree st1) = (r3', ts_tree st3)"
      "r3 = map_err Io r3'"
      using with_tree_eq [OF three] next_ulid_simps(1) [OF two]
      by (auto simp: checkpoint_stage_def io_step_def prod_eq_iff)
    show ?thesis
    proof (cases r3')
      case (Err e)
      then have "st' = st3" "x = Err (Io e)" using assms one two three True new by (auto simp: download_part_def)
      moreover have "ts_tree st3 = ts_tree st1"
        using staged_new_leaf_Err [OF names_no_slash(1)] new(1) Err by blast
      ultimately show ?thesis using spares_touches [OF sp] recorded_spares [OF sp] by auto
    next
      case (Ok staged)
      note new = new [unfolded Ok]
      note leaf = staged_new_leaf [OF names_no_slash(1) new(1)]
      let ?temp = "dir @ [temp_name u]"
      obtain y st4 where four: "transfer_range cx env scopes remote (staged_key staged) 0 r st3 = (y, st4)"
        by fastforce
      note part = fresh_part_effect [OF gone new(1) refl four]
      obtain body where body: "ts_tree st4 = (ts_tree st1)(?temp \<mapsto> RegularFile body)" using part(2) by blast
      have temp: "?fs ?temp = None"
        using leaf sp spares_other [OF sp, of ?temp] by simp
      have absent: "(ts_tree st4) (dir @ [part_name r]) = None" "(ts_tree st4) (dir @ [receipt_name r]) = None"
        using gone body by (auto simp: gone_def)
      show ?thesis
      proof (cases y)
        case (Err e)
        have "x = Err e" "st' = drop_file env staged st4"
          using assms one two three True new four Err by (simp_all add: download_part_def)
        then have "x = Err e" "ts_tree st' = ts_tree st4 \<or> ts_tree st' = (ts_tree st4)(?temp := None)"
          using drop_staged_cases [of _ staged "ts_tree st4"] leaf
          by (auto simp: drop_file_def staged_key_def)
        moreover have "touches_range dir r ?fs (ts_tree st')"
          using calculation(2) body temp spares_touches [OF sp] unfolding touches_range_def
          by (auto split: if_splits)
        ultimately show ?thesis using absent by (auto simp: recorded_def)
      next
        case ok: (Ok digest)
        obtain u2 st5 where five: "next_ulid env st4 = (u2, st5)" by fastforce
        have "with_tree (checkpoint_complete cx (te_publish env (ts_steps st5))
            (te_publish env (Suc (ts_steps st5))) u2 dir r staged digest) (tick (tick st5)) = (x, st')"
          using assms one two three True new four ok five by (simp add: download_part_def Let_def)
        then have comp: "checkpoint_complete cx (te_publish env (ts_steps st5))
            (te_publish env (Suc (ts_steps st5))) u2 dir r staged digest (ts_tree st4) = (x, ts_tree st')"
          using next_ulid_simps(1) [OF five] by (auto dest: with_tree_eq)
        have st: "staged = \<lparr>sf_directory = dir, sf_name = temp_name u, sf_target = part_name r\<rparr>"
          using leaf by blast
        have "ts_tree st4 ?temp = Some (RegularFile body)" using body by simp
        note c = complete_cases [OF st this comp]
        have ans: "answered env remote r body" "digest = cx_sha256 cx body"
          using part(1) [OF body ok] by auto
        have "touches_range dir r ?fs (ts_tree st')"
          unfolding touches_range_def
        proof (intro allI impI)
          fix k assume k: "k \<noteq> dir @ [part_name r] \<and> k \<noteq> dir @ [receipt_name r] \<and> ts_tree st' k \<noteq> ?fs k"
          show "?fs k = None \<and> (\<exists>u. k = dir @ [temp_name u])"
          proof (cases "ts_tree st' k = ts_tree st4 k")
            case True
            then show ?thesis using k body temp spares_other [OF sp] by (auto split: if_splits)
          next
            case False
            then have "k = ?temp \<or> k = dir @ [temp_name u2]" using c(1) [of k] k by blast
            then consider "k = ?temp" | "k = dir @ [temp_name u2]" "temp_name u2 \<noteq> temp_name u"
              by auto
            then show ?thesis
            proof cases
              case 1
              then show ?thesis using temp by blast
            next
              case 2
              then have "ts_tree st4 k = None" using c(4) False by auto
              then have "?fs k = None" using 2 body spares_other [OF sp, of k] by auto
              then show ?thesis using 2 by blast
            qed
          qed
        qed
        moreover have "c = body" if "recorded cx dir r (ts_tree st') c d" for c d
          using that c(2) absent by (auto simp: recorded_def)
        moreover have "recorded cx dir r (ts_tree st') body digest" if "x = Ok v" "codec_ok cx"
        proof -
          have "receipt_valid (receipt_of r digest) r" "rc_sha256 (receipt_of r digest) = digest"
            "length (cx_receipt cx (receipt_of r digest)) \<le> max_receipt_bytes"
            "cx_read_receipt cx (cx_receipt cx (receipt_of r digest)) = Some (receipt_of r digest)"
            using that(2) ans(2) by (auto simp: codec_ok_def receipt_valid_def receipt_of_def)
          moreover have "length body = unat (dr_size r)" using ans(1) by (auto simp: answered_def)
          ultimately show ?thesis using c(3) that(1) unfolding recorded_def by auto
        qed
        ultimately show ?thesis using ans(1) by blast
      qed
    qed
  qed
  then show "touches_range dir r (ts_tree st) (ts_tree st')"
    and "recorded cx dir r (ts_tree st') c (cx_sha256 cx c) \<Longrightarrow>
      recorded cx dir r (ts_tree st) c (cx_sha256 cx c) \<or> answered env remote r c"
    and "x = Ok v \<Longrightarrow> codec_ok cx \<Longrightarrow> \<exists>c d. recorded cx dir r (ts_tree st') c d"
    by blast+
qed

lemma touches_other_range:
  assumes "touches_range dir r fs fs'" and "dr_number q \<noteq> dr_number r"
  shows "recorded cx dir q fs' c d \<longleftrightarrow> recorded cx dir q fs c d"
proof (rule recorded_cong)
  have other: "part_name q \<noteq> part_name r" "receipt_name q \<noteq> receipt_name r"
    "part_name q \<noteq> receipt_name r" "receipt_name q \<noteq> part_name r" using assms(2) by auto
  have keep: "fs' (dir @ [n]) = fs (dir @ [n])"
    if "n \<noteq> part_name r" "n \<noteq> receipt_name r" "\<And>u. n \<noteq> temp_name u" for n
    using assms(1) that unfolding touches_range_def by (metis append_eq_append_conv list.inject)
  show "fs' (dir @ [part_name q]) = fs (dir @ [part_name q])"
    by (rule keep [OF other(1,3)]) simp
  show "fs' (dir @ [receipt_name q]) = fs (dir @ [receipt_name q])"
    by (rule keep [OF other(4,2)]) simp
qed

lemma touches_existing:
  assumes "touches_range dir r fs fs'" and "fs key = Some n" and "key = d @ [temp_name u]"
  shows "fs' key = Some n"
proof -
  have "key \<noteq> dir @ [part_name r]" "key \<noteq> dir @ [receipt_name r]" using assms(3) by auto
  then show ?thesis using assms(1,2) unfolding touches_range_def by (metis option.distinct(1))
qed

text \<open>Every recorded range that passes its hash is the object's.\<close>

definition trusted :: "codec \<Rightarrow> u64 \<Rightarrow> string \<Rightarrow> safe_dir \<Rightarrow> file_tree \<Rightarrow> bool" where
  "trusted cx bytes source dir fs \<longleftrightarrow>
     (\<forall>r c. planned bytes r \<and> recorded cx dir r fs c (cx_sha256 cx c) \<longrightarrow> c = range_slice source r)"

definition kept_parts ::
  "codec \<Rightarrow> transfer_env \<Rightarrow> remote_file \<Rightarrow> string \<Rightarrow> safe_dir \<Rightarrow> string list \<Rightarrow> transfer_state \<Rightarrow> bool" where
  "kept_parts cx env remote source dir key st \<longleftrightarrow>
     codec_ok cx \<and> serves env remote source \<and> (\<exists>u d. key = d @ [temp_name u])
     \<and> (\<exists>c. ts_tree st key = Some (RegularFile c) \<and> length c = unat (rf_size remote))
     \<and> trusted cx (rf_size remote) source dir (ts_tree st)"

lemma run_range_part:
  assumes "run_range cx env scopes remote (Some dir) key r st = (x, st')"
  shows "touches_range dir r (ts_tree st) (ts_tree st')"
    and "recorded cx dir r (ts_tree st') c (cx_sha256 cx c) \<Longrightarrow>
      recorded cx dir r (ts_tree st) c (cx_sha256 cx c) \<or> answered env remote r c"
    and "is_ok x \<Longrightarrow> codec_ok cx \<Longrightarrow> \<exists>c d. recorded cx dir r (ts_tree st') c d"
proof -
  obtain st1 st2 y where t1: "ts_tree st1 = ts_tree st"
    and inner: "download_part cx env (scopes @ [ts_fresh st]) remote dir r st1 = (y, st2)"
    and t2: "ts_tree st' = ts_tree st2" "is_ok x = is_ok y"
    by (rule run_range_inner [OF assms]) auto
  note e = download_part_effect [OF inner]
  show "touches_range dir r (ts_tree st) (ts_tree st')" using e(1) t1 t2 by simp
  show "recorded cx dir r (ts_tree st') c (cx_sha256 cx c) \<Longrightarrow>
      recorded cx dir r (ts_tree st) c (cx_sha256 cx c) \<or> answered env remote r c"
    using e(2) t1 t2 by simp
  show "is_ok x \<Longrightarrow> codec_ok cx \<Longrightarrow> \<exists>c d. recorded cx dir r (ts_tree st') c d"
    using e(3) t2 by (cases y) auto
qed

lemma kept_parts_step:
  assumes part: "planned (rf_size remote) r" and inv: "kept_parts cx env remote source dir key s"
    and run: "run_range cx env scopes remote (Some dir) key r s = (x, s')"
  shows "kept_parts cx env remote source dir key s'"
proof -
  note e = run_range_part [OF run]
  obtain u d where key: "key = d @ [temp_name u]" using inv by (auto simp: kept_parts_def)
  obtain c where c: "ts_tree s key = Some (RegularFile c)" "length c = unat (rf_size remote)"
    using inv by (auto simp: kept_parts_def)
  have "ts_tree s' key = Some (RegularFile c)" by (rule touches_existing [OF e(1) c(1) key])
  moreover have "trusted cx (rf_size remote) source dir (ts_tree s')"
    unfolding trusted_def
  proof (intro allI impI)
    fix q body assume q: "planned (rf_size remote) q \<and> recorded cx dir q (ts_tree s') body (cx_sha256 cx body)"
    have old: "recorded cx dir q (ts_tree s) body (cx_sha256 cx body) \<Longrightarrow> body = range_slice source q"
      using inv q unfolding kept_parts_def trusted_def by blast
    show "body = range_slice source q"
    proof (cases "q = r")
      case True
      then show ?thesis
        using e(2) [of body] q old answered_slice inv unfolding kept_parts_def by blast
    next
      case False
      then have "dr_number q \<noteq> dr_number r" using planned_number part q by blast
      then show ?thesis using touches_other_range [OF e(1)] q old by blast
    qed
  qed
  ultimately show ?thesis using inv key c(2) unfolding kept_parts_def by blast
qed

interpretation recovering: range_worker
  "run_range cx env scopes remote (Some dir) key" "kept_parts cx env remote source dir key"
  "\<lambda>r st. \<exists>c d. recorded cx dir r (ts_tree st) c d" "planned (rf_size remote)"
  for cx :: codec and env :: transfer_env and scopes :: "nat list" and remote :: remote_file
    and dir :: safe_dir and key :: "string list" and source :: string
proof
  fix r s s' and x :: "(unit, cli_error) result"
  assume "planned (rf_size remote) r" "kept_parts cx env remote source dir key s"
    "run_range cx env scopes remote (Some dir) key r s = (x, s')"
  then show "kept_parts cx env remote source dir key s'" by (rule kept_parts_step)
next
  fix r s s'
  assume "kept_parts cx env remote source dir key s"
    "run_range cx env scopes remote (Some dir) key r s = (Ok (), s')"
  then show "\<exists>c d. recorded cx dir r (ts_tree s') c d"
    using run_range_part(3) by (auto simp: kept_parts_def)
next
  fix r q s s' and x :: "(unit, cli_error) result"
  assume part: "planned (rf_size remote) r" "planned (rf_size remote) q" "q \<noteq> r"
    and q: "\<exists>c d. recorded cx dir q (ts_tree s) c d"
    and run: "run_range cx env scopes remote (Some dir) key r s = (x, s')"
  have "dr_number q \<noteq> dr_number r" using planned_number part by blast
  then show "\<exists>c d. recorded cx dir q (ts_tree s') c d"
    using touches_other_range [OF run_range_part(1) [OF run]] q by blast
qed

section \<open>Lemmas: assembly\<close>

lemma copy_part_Ok:
  assumes "copy_part cx env key r expected chunks len hashed cursor st = (Ok cursor', st')"
    and "ts_tree st key = Some (RegularFile c)" and "cursor \<le> length c"
  shows "cursor' = cursor + length (concat chunks)
    \<and> ts_tree st' = (ts_tree st)(key \<mapsto> RegularFile (overlay cursor (concat chunks) c))
    \<and> cx_sha256 cx (hashed @ concat chunks) = expected"
  using assms
proof (induction chunks arbitrary: len hashed cursor st c)
  case Nil
  then have "cursor' = cursor" "st' = st" "cx_sha256 cx hashed = expected" by (auto split: if_splits)
  then show ?case using Nil.prems(2,3) by (auto simp: overlay_Nil)
next
  case (Cons chunk rest)
  obtain st1 len' where one: "write_at env key cursor chunk st = (Ok (), st1)"
    and run: "copy_part cx env key r expected rest len' (hashed @ chunk) (cursor + length chunk) st1
      = (Ok cursor', st')"
    using Cons.prems(1) by (auto simp: Let_def st_try_Ok_iff step_simps split: if_splits)
  let ?c = "overlay cursor chunk c"
  have t1: "ts_tree st1 = (ts_tree st)(key \<mapsto> RegularFile ?c)"
    using write_at_effect [OF one Cons.prems(2,3)] by auto
  then have "ts_tree st1 key = Some (RegularFile ?c)" by simp
  moreover have "cursor + length chunk \<le> length ?c" using Cons.prems(3) by (simp add: length_overlay)
  moreover have "overlay (cursor + length chunk) (concat rest) ?c = overlay cursor (chunk @ concat rest) c"
    by (rule overlay_append [OF Cons.prems(3)])
  ultimately show ?case using Cons.IH [OF run] t1 by (simp add: fun_eq_iff)
qed

lemma assemble_ranges_Ok:
  assumes "assemble_ranges cx env dir key rs cursor st = (Ok (), st')"
    and "ts_tree st key = Some (RegularFile c)" and "cursor \<le> length c"
    and "trusted cx bytes source dir (ts_tree st)" and "\<forall>r \<in> set rs. planned bytes r"
    and "key = d @ [temp_name u]"
  shows "ts_tree st' key = Some (RegularFile (overlay cursor (concat (map (range_slice source) rs)) c))"
  using assms(1-5)
proof (induction rs arbitrary: cursor st c)
  case Nil
  then show ?case by (simp add: overlay_Nil)
next
  case (Cons r rs)
  obtain content expected where oc: "open_completed cx dir r (ts_tree st) = (Ok (Some (content, expected)), ts_tree st)"
    and rest: "st_try (copy_part cx env key r expected (chunks_of buffer_size content) 0 [] cursor st)
        (\<lambda>cursor st. assemble_ranges cx env dir key rs cursor st) = (Ok (), st')"
  proof -
    obtain found s where f: "with_tree (open_completed cx dir r) st = (Ok found, s)"
      and k: "(case found of None \<Rightarrow> (Err (failed ''verified range is missing during assembly''), s)
       | Some (content, expected) \<Rightarrow>
           st_try (copy_part cx env key r expected (chunks_of buffer_size content) 0 [] cursor s)
             (\<lambda>cursor st. assemble_ranges cx env dir key rs cursor st)) = (Ok (), st')"
      using Cons.prems(1) by (auto simp: st_try_Ok_iff)
    obtain p where p: "found = Some p" using k by (cases found) auto
    obtain a b where ab: "p = (a, b)" by (cases p)
    obtain fs where "open_completed cx dir r (ts_tree st) = (Ok (Some (a, b)), fs)" "s = st\<lparr>ts_tree := fs\<rparr>"
      using f p ab by (auto simp: step_simps)
    then have "fs = ts_tree st" "s = st" by (simp_all add: open_completed_Some)
    then show thesis using that [of a b] k p ab \<open>open_completed cx dir r (ts_tree st) = _\<close> by simp
  qed
  obtain cursor1 st1 where copy: "copy_part cx env key r expected (chunks_of buffer_size content) 0 [] cursor st
      = (Ok cursor1, st1)" and run: "assemble_ranges cx env dir key rs cursor1 st1 = (Ok (), st')"
    using rest by (auto simp: st_try_Ok_iff)
  have cat: "concat (chunks_of buffer_size content) = content" by (simp add: concat_chunks_of buffer_size_def)
  note cp = copy_part_Ok [OF copy Cons.prems(2,3), unfolded cat append_Nil]
  have "recorded cx dir r (ts_tree st) content (cx_sha256 cx content)"
    using oc cp by (simp add: open_completed_Some)
  then have content: "content = range_slice source r"
    using Cons.prems(4,5) unfolding trusted_def by auto
  let ?c = "overlay cursor content c"
  have "ts_tree st1 key = Some (RegularFile ?c)" using cp by simp
  moreover have "cursor1 \<le> length ?c" using cp Cons.prems(3) by (simp add: length_overlay)
  moreover have "trusted cx bytes source dir (ts_tree st1)"
  proof -
    have "recorded cx dir q (ts_tree st1) a b \<longleftrightarrow> recorded cx dir q (ts_tree st) a b" for q a b
      by (rule recorded_cong) (use cp assms(6) part_not_temp in auto)
    then show ?thesis using Cons.prems(4) by (simp add: trusted_def)
  qed
  ultimately have "ts_tree st' key
      = Some (RegularFile (overlay cursor1 (concat (map (range_slice source) rs)) ?c))"
    using Cons.IH [OF run] Cons.prems(5) by simp
  moreover have "overlay cursor1 (concat (map (range_slice source) rs)) ?c
      = overlay cursor (content @ concat (map (range_slice source) rs)) c"
    using cp overlay_append [OF Cons.prems(3)] by simp
  ultimately show ?case using content by simp
qed

section \<open>Lemmas: preparing a ranged download\<close>

lemma checkpoint_open_effect:
  assumes "checkpoint_open cx root remote local (fs, locks) = (Ok dir, fs', locks')"
  shows "dir = root @ split_on slash (cx_sha256 cx (cx_identity cx remote local))"
    and "fs' k \<noteq> fs k \<Longrightarrow> fs' k = Some Folder \<or> k = dir @ [''file.lock'']"
proof -
  let ?name = "cx_sha256 cx (cx_identity cx remote local)"
  obtain fs1 where sd: "safe_directory root ?name True fs = (Ok dir, fs1)"
    and lock: "fs' = fs1 \<or> fs' = fs1(dir @ [''file.lock''] \<mapsto> RegularFile [])"
    using assms
    by (cases "safe_directory root ?name True fs"; cases "fst (safe_directory root ?name True fs)")
      (auto simp: checkpoint_open_def io_step_def exclusive_def Let_def
        split: if_splits result.splits prod.splits option.splits)
  then have d: "descend root (split_on slash ?name) True fs = (Ok dir, fs1)"
    by (simp add: safe_directory_def split: if_splits)
  show "dir = root @ split_on slash ?name" using descend_Ok [OF d] by simp
  show "fs' k \<noteq> fs k \<Longrightarrow> fs' k = Some Folder \<or> k = dir @ [''file.lock'']"
    using descend_new [OF d, of k] lock by (auto split: if_splits)
qed

definition prepares :: "file_tree \<Rightarrow> file_tree \<Rightarrow> bool" where
  "prepares fs fs' \<longleftrightarrow> (\<forall>k. fs' k \<noteq> fs k \<longrightarrow>
     fs' k = Some Folder \<or> (\<exists>dir u. k = dir @ [temp_name u]) \<or> (\<exists>dir. k = dir @ [''file.lock'']))"

lemma prepares_refl [simp]: "prepares fs fs"
  by (simp add: prepares_def)

lemma prepares_trans: "prepares fs fs1 \<Longrightarrow> prepares fs1 fs2 \<Longrightarrow> prepares fs fs2"
  unfolding prepares_def by metis

lemma lock_name_other [simp]: "part_name r \<noteq> ''file.lock''" "receipt_name r \<noteq> ''file.lock''"
  by (simp_all add: part_name_def receipt_name_def)

lemma prepares_trusted:
  assumes "prepares fs fs'" and "trusted cx bytes source dir fs"
  shows "trusted cx bytes source dir fs'"
proof -
  have "fs' (dir @ [n]) = fs (dir @ [n])"
    if "fs' (dir @ [n]) = Some (RegularFile c)" "\<And>u. n \<noteq> temp_name u" "n \<noteq> ''file.lock''" for n c
    using assms(1) that unfolding prepares_def by fastforce
  then have "recorded cx dir r fs c d" if "recorded cx dir r fs' c d" for r c d
    using that unfolding recorded_def by (metis lock_name_other temp_name_other(3,4))
  then show ?thesis using assms(2) unfolding trusted_def by blast
qed

lemma open_checkpoint_Ok:
  assumes "open_checkpoint cx request st = (Ok checkpoint, st')"
  shows "prepares (ts_tree st) (ts_tree st')" and "ts_sent st' = ts_sent st"
    and "checkpoint = map_option (\<lambda>root. root @ split_on slash
        (cx_sha256 cx (cx_identity cx (rd_remote request) (rd_local request)))) (rd_checkpoint_directory request)"
proof -
  have "prepares (ts_tree st) (ts_tree st') \<and> ts_sent st' = ts_sent st
    \<and> checkpoint = map_option (\<lambda>root. root @ split_on slash
        (cx_sha256 cx (cx_identity cx (rd_remote request) (rd_local request)))) (rd_checkpoint_directory request)"
  proof (cases "rd_checkpoint_directory request")
    case None
    then show ?thesis using assms by (auto simp: open_checkpoint_def)
  next
    case (Some root)
    obtain r fs locks where o: "checkpoint_open cx root (rd_remote request) (rd_local request)
        (ts_tree st, ts_locks st) = (r, fs, locks)" by (metis prod.collapse)
    then obtain dir where r: "r = Ok dir" "checkpoint = Some dir" "ts_tree st' = fs" "ts_sent st' = ts_sent st"
      using assms Some by (cases r) (auto simp: open_checkpoint_def)
    note e = checkpoint_open_effect [OF o [unfolded r(1)]]
    have "prepares (ts_tree st) (ts_tree st')" using e(2) r(3) unfolding prepares_def by blast
    then show ?thesis using e(1) r Some by simp
  qed
  then show "prepares (ts_tree st) (ts_tree st')" "ts_sent st' = ts_sent st"
    "checkpoint = map_option (\<lambda>root. root @ split_on slash
        (cx_sha256 cx (cx_identity cx (rd_remote request) (rd_local request)))) (rd_checkpoint_directory request)"
    by blast+
qed

lemma staged_prepares:
  assumes "staged_new ulid dir path fs = (Ok staged, fs')"
  shows "prepares fs (update_file (staged_key staged) f fs')"
    and "update_file (staged_key staged) f fs' (staged_key staged) = Some (RegularFile (f []))"
    and "\<exists>d. staged_key staged = d @ [temp_name ulid]"
proof -
  note e = staged_new_effect [OF assms]
  show key: "\<exists>d. staged_key staged = d @ [temp_name ulid]" using e(2) by (auto simp: staged_key_def)
  show "update_file (staged_key staged) f fs' (staged_key staged) = Some (RegularFile (f []))"
    using e(3) by (simp add: update_file_def)
  show "prepares fs (update_file (staged_key staged) f fs')"
    using key e(3) e(4) unfolding prepares_def by (auto simp: update_file_def)
qed

lemma length_set_len [simp]: "length (set_len n []) = n"
  by (simp add: set_len_def)

text \<open>The recovery directory of a request: the root's child named by the identity's hash.\<close>

definition recovery_directory :: "codec \<Rightarrow> range_download \<Rightarrow> safe_dir option" where
  "recovery_directory cx request =
     map_option (\<lambda>root. root @ split_on slash
       (cx_sha256 cx (cx_identity cx (rd_remote request) (rd_local request))))
       (rd_checkpoint_directory request)"

lemma ranged_download_exact:
  assumes run: "ranged_download cx env scopes request schedule st = Some (Ok (staged, digest), st')"
    and ok: "codec_ok cx" and net: "serves env (rd_remote request) source"
    and len: "length source = unat (rf_size (rd_remote request))"
    and trust: "\<And>dir. recovery_directory cx request = Some dir \<Longrightarrow>
      trusted cx (rf_size (rd_remote request)) source dir (ts_tree st)"
  shows "ts_tree st' (staged_key staged) = Some (RegularFile source)"
proof -
  let ?remote = "rd_remote request" and ?key = "staged_key staged"
  from run obtain plan checkpoint st1 ulid st2 st3 st5 st6 where
    plan: "plan_new (rf_size ?remote) = Ok plan"
    and one: "open_checkpoint cx request st = (Ok checkpoint, st1)"
    and two: "next_ulid env st1 = (ulid, st2)"
    and three: "with_tree (staged_new ulid (rd_directory request) (rd_local request)) st2 = (Ok staged, st3)"
    and ranges: "run_ranges (plan_collect plan) (rd_concurrency request)
          (run_range cx env scopes ?remote checkpoint ?key) schedule
          (st3\<lparr>ts_tree := update_file ?key (set_len (unat (rf_size ?remote))) (ts_tree st3)\<rparr>)
        = Some (Ok (), st5)"
    and fin: "finish_ranges cx env ?remote checkpoint ?key st5 = (Ok digest, st6)"
    and st': "st' = release checkpoint st6"
    by (rule ranged_download_Ok)
  let ?st4 = "st3\<lparr>ts_tree := update_file ?key (set_len (unat (rf_size ?remote))) (ts_tree st3)\<rparr>"
  have new: "staged_new ulid (rd_directory request) (rd_local request) (ts_tree st1) = (Ok staged, ts_tree st3)"
    using three next_ulid_simps(1) [OF two] by (auto simp: step_simps)
  note s = staged_prepares(1,2) [OF new, where f = "set_len (unat (rf_size ?remote))"] staged_prepares(3) [OF new]
  obtain c where c: "ts_tree ?st4 ?key = Some (RegularFile c)" "length c = unat (rf_size ?remote)"
    using s(2) by simp
  from fin obtain st7 where asm: "(case checkpoint of
        None \<Rightarrow> (Ok (), st5)
      | Some dir \<Rightarrow> assemble cx env dir ?key (rf_size ?remote) st5) = (Ok (), st7)"
    and "st6 = st7" by (rule finish_ranges_Ok)
  then have tree: "ts_tree st' = ts_tree st7" using st' by simp
  note pl = plan_planned [OF plan]
  show ?thesis
  proof (cases checkpoint)
    case None
    have "in_place cx env ?remote source ?key ?st4" using c net len by (auto simp: in_place_def)
    from direct.run_stores [OF ranges [unfolded None] this pl(2,1)]
    obtain b where b: "ts_tree st5 ?key = Some (RegularFile b)" "length b = unat (rf_size ?remote)"
      and sl: "\<forall>r \<in> set (plan_collect plan). range_slice b r = range_slice source r"
      by (auto simp: in_place_def stored_in_place_def)
    have "b = concat (map (range_slice b) (plan_collect plan))"
      using slices_concat [OF plan b(2)] by simp
    also have "\<dots> = concat (map (range_slice source) (plan_collect plan))" using sl by (simp cong: map_cong)
    also have "\<dots> = source" by (rule slices_concat [OF plan len])
    finally show ?thesis using b(1) asm None tree by simp
  next
    case (Some dir)
    note o = open_checkpoint_Ok [OF one]
    have "recovery_directory cx request = Some dir" using o(3) Some by (simp add: recovery_directory_def)
    then have "trusted cx (rf_size ?remote) source dir (ts_tree st)" by (rule trust)
    then have tr: "trusted cx (rf_size ?remote) source dir (ts_tree ?st4)"
      using prepares_trusted [OF o(1)] prepares_trusted [OF s(1)] by simp
    then have "kept_parts cx env ?remote source dir ?key ?st4"
      using c net ok s(3) unfolding kept_parts_def by blast
    from recovering.run_stores [OF ranges [unfolded Some] this pl(2,1)]
    have kept: "kept_parts cx env ?remote source dir ?key st5" by blast
    obtain b u d where b: "ts_tree st5 ?key = Some (RegularFile b)" "length b = unat (rf_size ?remote)"
      and key: "?key = d @ [temp_name u]"
      and tr5: "trusted cx (rf_size ?remote) source dir (ts_tree st5)"
      using kept unfolding kept_parts_def by blast
    have "assemble_ranges cx env dir ?key (plan_collect plan) 0 st5 = (Ok (), st7)"
      using asm Some plan by (simp add: assemble_def)
    from assemble_ranges_Ok [OF this b(1) _ tr5 pl(1) key]
    have "ts_tree st7 ?key = Some (RegularFile (overlay 0 source b))"
      using slices_concat [OF plan len] by simp
    then show ?thesis using b(2) len tree by (simp add: overlay_whole)
  qed
qed

lemma single_exact:
  assumes "single_done cx env request (staged, digest) st"
    and "serves env (rd_remote request) source" and "length source = unat (rf_size (rd_remote request))"
  shows "ts_tree st (staged_key staged) = Some (RegularFile source)"
proof -
  obtain fs1 i response where
    tree: "ts_tree st = fs1(staged_key staged \<mapsto> RegularFile (concat (hr_chunks response)))"
    and ver: "verify_content cx (rd_remote request) (concat (hr_chunks response)) = Ok digest"
    and net: "te_net env i \<lparr>cr_range = None, cr_is_identity = False, cr_if_match = if_match_header (rd_remote request)\<rparr> = Responded response"
    and succ: "is_success (hr_status response)"
    using assms(1) unfolding single_done_def fst_conv snd_conv by blast
  obtain rest where rest: "concat (hr_chunks response) @ rest = source"
    using assms(2) net succ unfolding serves_def by blast
  have "length (concat (hr_chunks response)) = length source"
    using ver assms(3) unfolding verify_content_Ok by simp
  then have "rest = []" using rest by (metis append_Nil2 append_eq_append_conv)
  then show ?thesis using rest tree by simp
qed

lemma copy_part_sent:
  "copy_part cx env key r expected chunks len hashed cursor st = (x, st') \<Longrightarrow> ts_sent st' = ts_sent st"
proof (induction chunks arbitrary: len hashed cursor st)
  case Nil
  then show ?case by (auto split: if_splits)
next
  case (Cons chunk rest)
  then show ?case
    by (auto simp: st_try_iff step_simps Let_def split: if_splits dest!: io_step_eq write_at_sent)
qed

lemma assemble_ranges_sent:
  "assemble_ranges cx env dir key rs cursor st = (x, st') \<Longrightarrow> ts_sent st' = ts_sent st"
proof (induction rs arbitrary: cursor st)
  case Nil
  then show ?case by simp
next
  case (Cons r rs)
  then show ?case
    by (auto simp: st_try_iff step_simps split: option.splits
        dest!: with_tree_eq copy_part_sent)
qed

lemma finish_ranges_sent:
  assumes "finish_ranges cx env remote checkpoint key st = (x, st')"
  shows "ts_sent st' = ts_sent st"
proof -
  obtain y st1 where a: "(case checkpoint of
        None \<Rightarrow> (Ok (), st)
      | Some dir \<Rightarrow> assemble cx env dir key (rf_size remote) st) = (y, st1)" by fastforce
  have s1: "ts_sent st1 = ts_sent st"
    using a by (auto simp: assemble_def split: option.splits result.splits dest: assemble_ranges_sent)
  have "ts_sent st' = ts_sent st1"
    using assms a
    by (cases y; cases "verify_file cx remote key st1"; cases checkpoint)
      (auto simp: finish_ranges_def Let_def st_try_iff split: cli_error.splits dest!: with_tree_eq)
  then show ?thesis using s1 by simp
qed

lemma content_download_cases:
  assumes "content_download cx env scopes threshold request schedule st = Some (x, st')"
  obtains "ranged_download cx env scopes request schedule st = Some (x, st')"
  | "download_single cx env scopes request st = (x, st')"
  using assms by (auto simp: content_download_def split: if_splits)

lemma download_sent:
  assumes "content_download cx env scopes threshold request schedule st = Some (x, st')"
    and "plan_new (rf_size (rd_remote request)) = Ok plan"
  shows "ts_sent st' \<le> ts_sent st + 3 * max 1 (length (plan_collect plan))"
  using assms(1)
proof (cases rule: content_download_cases)
  case 2
  then have "ts_sent st' \<le> ts_sent st + 3"
    unfolding download_single_def by (drule_tac retrying_sent) (auto dest: attempt_sent)
  then show ?thesis by simp
next
  case 1
  let ?remote = "rd_remote request"
  obtain r1 st1 where one: "open_checkpoint cx request st = (r1, st1)" by fastforce
  have s1: "ts_sent st1 = ts_sent st"
    using one by (auto simp: open_checkpoint_def Let_def split: option.splits prod.splits result.splits)
  show ?thesis
  proof (cases r1)
    case (Err e)
    then show ?thesis using 1 one s1 assms(2) by (simp add: ranged_download_def)
  next
    case (Ok checkpoint)
    obtain ulid st2 where two: "next_ulid env st1 = (ulid, st2)" by fastforce
    obtain r3 st3 where three: "with_tree (staged_new ulid (rd_directory request) (rd_local request)) st2 = (r3, st3)"
      by fastforce
    have s3: "ts_sent st3 = ts_sent st"
      using with_tree_eq [OF three] next_ulid_simps(2) [OF two] s1 by auto
    show ?thesis
    proof (cases r3)
      case (Err e)
      then show ?thesis using 1 one Ok two three s3 assms(2) by (auto simp: ranged_download_def io_step_def)
    next
      case ok3: (Ok staged)
      let ?key = "staged_key staged"
      let ?st4 = "st3\<lparr>ts_tree := update_file ?key (set_len (unat (rf_size ?remote))) (ts_tree st3)\<rparr>"
      obtain r5 st5 where run: "run_ranges (plan_collect plan) (rd_concurrency request)
          (run_range cx env scopes ?remote checkpoint ?key) schedule ?st4 = Some (r5, st5)"
        and rest: "(case st_try (r5, st5) (\<lambda>_ st. finish_ranges cx env ?remote checkpoint ?key st) of
            (Err e, st) \<Rightarrow> (Err e, release checkpoint (drop_file env staged st))
          | (Ok digest, st) \<Rightarrow> (Ok (staged, digest), release checkpoint st)) = (x, st')"
        using 1 one Ok two three ok3 assms(2)
        by (auto simp: ranged_download_def io_step_def Let_def map_option_eq_Some)
      have "ts_sent st5 \<le> ts_sent st + 3 * length (plan_collect plan)"
        using run run_loop_sent [OF run_range_sent] s3
        by (fastforce simp: run_ranges_def split: if_splits)
      moreover have "ts_sent st' = ts_sent st5"
      proof (cases r5)
        case (Err e)
        then show ?thesis using rest by auto
      next
        case ok5: (Ok u)
        obtain r6 st6 where fin: "finish_ranges cx env ?remote checkpoint ?key st5 = (r6, st6)" by fastforce
        then have "ts_sent st' = ts_sent st6" using rest ok5 by (cases r6) auto
        then show ?thesis using finish_ranges_sent [OF fin] by simp
      qed
      ultimately show ?thesis by simp
    qed
  qed
qed

section \<open>Lemmas: what a download leaves alone\<close>

text \<open>Outside one key and the files of the recovery directory nothing changes.\<close>

definition confined :: "string list \<Rightarrow> safe_dir option \<Rightarrow> file_tree \<Rightarrow> file_tree \<Rightarrow> bool" where
  "confined key checkpoint fs fs' \<longleftrightarrow>
     (\<forall>k. k \<noteq> key \<and> (\<forall>dir name. checkpoint = Some dir \<longrightarrow> k \<noteq> dir @ [name]) \<longrightarrow> fs' k = fs k)"

lemma confined_refl [simp]: "confined key checkpoint fs fs"
  by (simp add: confined_def)

lemma confined_trans: "confined key c fs fs1 \<Longrightarrow> confined key c fs1 fs2 \<Longrightarrow> confined key c fs fs2"
  by (simp add: confined_def)

lemma confined_weaken: "confined key None fs fs' \<Longrightarrow> confined key c fs fs'"
  by (simp add: confined_def)

lemma confined_elsewhere: "confined key (Some dir) fs fs' \<Longrightarrow> key = dir @ [name] \<Longrightarrow> confined other (Some dir) fs fs'"
  by (auto simp: confined_def)

lemma write_at_confined:
  "write_at env key offset bytes st = (r, st') \<Longrightarrow> confined key None (ts_tree st) (ts_tree st')"
  by (auto simp: write_at_def confined_def update_file_def split: if_splits option.splits node.splits)

lemma receive_range_confined:
  "receive_range cx env key offset rng intr chunks written hashed st = (x, st') \<Longrightarrow>
   confined key None (ts_tree st) (ts_tree st')"
proof (induction chunks arbitrary: written hashed st)
  case Nil
  then show ?case by (auto split: if_splits)
next
  case (Cons chunk rest)
  show ?case
  proof (cases "length chunk > unat (dr_size rng) - written")
    case True
    then show ?thesis using Cons.prems by auto
  next
    case False
    obtain r1 st1 where one: "reserve env (length chunk) st = (r1, st1)" by fastforce
    obtain r2 st2 where two: "write_at env key (offset + written) chunk st1 = (r2, st2)" by fastforce
    note k = reserve_keeps(1) [OF one] write_at_confined [OF two]
    show ?thesis
      using Cons.prems False one two k Cons.IH [of "written + length chunk" "hashed @ chunk" st2]
        confined_trans
      by (cases r1; cases r2) (auto simp: fatal_def io_step_def)
  qed
qed

lemma attempt_range_confined:
  assumes "attempt_range cx env scopes remote key offset rng st = (x, st')"
  shows "confined key None (ts_tree st) (ts_tree st')"
  using assms
  by (auto simp: attempt_range_def st_try_iff step_simps Let_def split: if_splits
      dest!: receive_range_confined fatal_eq dest: send_request_keeps(1))

lemma transfer_range_confined:
  assumes "transfer_range cx env scopes remote key offset rng st = (x, st')"
  shows "confined key None (ts_tree st) (ts_tree st')"
proof -
  let ?I = "\<lambda>s. confined key None (ts_tree st) (ts_tree s)"
  have step: "?I s1 \<and> (\<forall>d. r = Ok d \<longrightarrow> True)"
    if "?I s" "attempt_range cx env scopes remote key offset rng s = (r, s1)" for s r s1
    using that(1) attempt_range_confined [OF that(2)] confined_trans by blast
  note inv = retrying_invariant [where I = ?I and Q = "\<lambda>_ _. True", OF assms [unfolded transfer_range_def]]
  have "?I st' \<and> (\<forall>d. x = Ok d \<longrightarrow> True)" by (rule inv) (use step in auto)
  then show ?thesis by blast
qed

lemma touches_confined: "touches_range dir r fs fs' \<Longrightarrow> confined key (Some dir) fs fs'"
  unfolding touches_range_def confined_def by blast

lemma run_range_confined:
  assumes "run_range cx env scopes remote checkpoint key r st = (x, st')"
  shows "confined key checkpoint (ts_tree st) (ts_tree st')"
proof (cases checkpoint)
  case (Some dir)
  then show ?thesis using run_range_part(1) assms touches_confined by blast
next
  case None
  show ?thesis
    by (rule run_range_inner [OF assms]) (auto simp: None st_try_iff dest!: transfer_range_confined)
qed

lemma run_loop_invariant:
  assumes "run_loop transfer c schedule pending queue st = Some (x, st')" and "I st"
    and "\<And>r s x s'. I s \<Longrightarrow> transfer r s = (x, s') \<Longrightarrow> I s'"
  shows "I st'"
  using assms(1,2)
proof (induction schedule arbitrary: pending queue st)
  case Nil
  then show ?case by (auto simp: run_loop.simps [of _ _ "[]"] Let_def split: prod.splits if_splits)
next
  case (Cons choice rest)
  obtain p q where pq: "fill c pending queue = (p, q)" by fastforce
  show ?case
  proof (cases "p = []")
    case True
    then show ?thesis using Cons.prems pq by (auto simp: run_loop.simps [of _ _ "_ # _"] Let_def)
  next
    case False
    let ?i = "choice mod length p"
    obtain y st1 where one: "transfer (p ! ?i) st = (y, st1)" by fastforce
    have "I st1" by (rule assms(3) [OF Cons.prems(2) one])
    then show ?thesis using Cons.prems(1) Cons.IH [of "remove_at ?i p" q st1] pq False one
      by (cases y) (auto simp: run_loop.simps [of _ _ "_ # _"] Let_def)
  qed
qed

lemma run_ranges_invariant:
  assumes "run_ranges ranges c transfer schedule st = Some (x, st')" and "I st"
    and "\<And>r s x s'. I s \<Longrightarrow> transfer r s = (x, s') \<Longrightarrow> I s'"
  shows "I st'"
  using assms(1,2) run_loop_invariant [where I = I, OF _ _ assms(3)]
  by (auto simp: run_ranges_def split: if_splits)

lemma copy_part_confined:
  "copy_part cx env key r expected chunks len hashed cursor st = (x, st') \<Longrightarrow>
   confined key None (ts_tree st) (ts_tree st')"
proof (induction chunks arbitrary: len hashed cursor st)
  case Nil
  then show ?case by (auto split: if_splits)
next
  case (Cons chunk rest)
  obtain r1 st1 where one: "write_at env key cursor chunk st = (r1, st1)" by fastforce
  show ?case
    using Cons.prems one write_at_confined [OF one] confined_trans
      Cons.IH [of "saturating_add len (of_nat (length chunk))" "hashed @ chunk" "cursor + length chunk" st1]
    by (cases r1) (auto simp: Let_def io_step_def split: if_splits)
qed

lemma spares_confined: "spares dir r fs fs' \<Longrightarrow> confined key (Some dir) fs fs'"
  by (rule touches_confined [OF spares_touches])

lemma assemble_ranges_confined:
  "assemble_ranges cx env dir key rs cursor st = (x, st') \<Longrightarrow>
   confined key (Some dir) (ts_tree st) (ts_tree st')"
proof (induction rs arbitrary: cursor st)
  case Nil
  then show ?case by simp
next
  case (Cons r rs)
  obtain y st1 where one: "with_tree (open_completed cx dir r) st = (y, st1)" by fastforce
  have c1: "confined key (Some dir) (ts_tree st) (ts_tree st1)"
    using with_tree_eq [OF one] open_completed_effect(1) spares_confined by fastforce
  show ?case
  proof (cases "\<exists>content expected. y = Ok (Some (content, expected))")
    case False
    then have "st' = st1" using Cons.prems one by (cases y) (auto split: option.splits)
    then show ?thesis using c1 by simp
  next
    case True
    then obtain content expected where y: "y = Ok (Some (content, expected))" by blast
    obtain z st2 where two: "copy_part cx env key r expected (chunks_of buffer_size content) 0 [] cursor st1
      = (z, st2)" by fastforce
    have c2: "confined key (Some dir) (ts_tree st) (ts_tree st2)"
      using c1 confined_weaken [OF copy_part_confined [OF two]] confined_trans by blast
    show ?thesis
      using Cons.prems one y two c2 confined_trans Cons.IH [where st = st2] by (cases z) auto
  qed
qed

lemma clear_confined:
  assumes "checkpoint_clear dir bytes fs = (x, fs')"
  shows "confined key (Some dir) fs fs'"
proof (cases "plan_new bytes")
  case (Err e)
  then show ?thesis using assms by (simp add: checkpoint_clear_def)
next
  case (Ok plan)
  have each: "st_each (discard dir) rs fs1 = (x, fs') \<Longrightarrow> confined key (Some dir) fs fs1 \<Longrightarrow>
    confined key (Some dir) fs fs'" for rs fs1
    using st_each_invariant [where I = "confined key (Some dir) fs"]
      confined_trans spares_confined [OF discard_spares] by blast
  show ?thesis using assms Ok each confined_refl by (simp add: checkpoint_clear_def)
qed

lemma finish_ranges_confined:
  assumes "finish_ranges cx env remote checkpoint key st = (x, st')"
  shows "confined key checkpoint (ts_tree st) (ts_tree st')"
proof -
  obtain y st1 where a: "(case checkpoint of
        None \<Rightarrow> (Ok (), st)
      | Some dir \<Rightarrow> assemble cx env dir key (rf_size remote) st) = (y, st1)" by fastforce
  have c1: "confined key checkpoint (ts_tree st) (ts_tree st1)"
    using a by (auto simp: assemble_def split: option.splits result.splits dest: assemble_ranges_confined)
  have "confined key checkpoint (ts_tree st1) (ts_tree st')"
    using assms a
    by (cases y; cases "verify_file cx remote key st1"; cases checkpoint)
      (auto simp: finish_ranges_def Let_def st_try_iff split: cli_error.splits
        dest!: with_tree_eq clear_confined)
  then show ?thesis using c1 confined_trans by blast
qed

text \<open>Nothing that existed at \<open>k\<close> changes.\<close>

lemma safe_parent_grows: "safe_parent dir path True fs = (r, fs1) \<Longrightarrow> grows fs fs1"
  using descend_grows
  by (fastforce simp: safe_parent_def safe_directory_def st_try_iff split: if_splits option.splits)

lemma staged_new_grows:
  assumes "staged_new ulid dir path fs = (x, fs')"
  shows "grows fs fs'"
proof (cases x)
  case (Ok staged)
  then show ?thesis using staged_new_effect(5) assms by blast
next
  case (Err e)
  obtain r fs1 where par: "safe_parent dir path True fs = (r, fs1)" by fastforce
  note safe_parent_grows [OF par]
  moreover have "fs' = fs1"
    using assms par Err
    by (cases r) (auto simp: staged_new_def exclusive_def Let_def split: option.splits)
  ultimately show ?thesis by simp
qed

lemma checkpoint_open_grows:
  assumes "checkpoint_open cx root remote local (fs, locks) = (x, fs', locks')"
  shows "grows fs fs'"
proof -
  let ?name = "cx_sha256 cx (cx_identity cx remote local)"
  obtain r fs1 where sd: "safe_directory root ?name True fs = (r, fs1)" by fastforce
  have g: "grows fs fs1"
    using sd descend_grows by (auto simp: safe_directory_def split: if_splits)
  have "fs' = fs \<or> fs' = fs1 \<or> (\<exists>d. fs1 (d @ [''file.lock'']) = None
      \<and> fs' = fs1(d @ [''file.lock''] \<mapsto> RegularFile []))"
    using assms sd
    by (cases r) (auto simp: checkpoint_open_def io_step_def exclusive_def Let_def
        split: if_splits result.splits prod.splits option.splits)
  then show ?thesis using g by (auto simp: grows_def)
qed

lemma open_checkpoint_grows:
  assumes "open_checkpoint cx request st = (x, st')"
  shows "grows (ts_tree st) (ts_tree st')"
  using assms checkpoint_open_grows
  by (auto simp: open_checkpoint_def Let_def split: option.splits prod.splits result.splits)

lemma drop_file_tree:
  assumes "k \<noteq> staged_key staged"
  shows "ts_tree (drop_file env staged st) k = ts_tree st k"
proof -
  have "drop_staged c staged (ts_tree st) k = ts_tree st k" for c
    using drop_staged_cases [of c staged "ts_tree st"] assms by auto
  then show ?thesis by (simp add: drop_file_def)
qed

text \<open>The key of the staged file was not there.\<close>

lemma staged_fresh:
  assumes "staged_new ulid dir path fs = (Ok staged, fs')"
  shows "fs (staged_key staged) = None"
proof -
  obtain parent target fs1 where par: "safe_parent dir path True fs = (Ok (parent, target), fs1)"
    and st: "staged_key staged = parent @ [temp_name ulid]"
    and free: "fs1 (parent @ [temp_name ulid]) = None"
    using assms
    by (auto simp: staged_new_def st_try_Ok_iff exclusive_def Let_def temp_name_def staged_key_def
        split: option.splits)
  have "grows fs fs1" using safe_parent_grows [OF par] .
  then show ?thesis using st free by (auto simp: grows_def)
qed

lemma update_file_other: "k \<noteq> key \<Longrightarrow> update_file key f fs k = fs k"
  by (auto simp: update_file_def split: option.splits node.splits)

lemma receive_confined:
  "receive cx env key remote intr chunks hashed st = (x, st') \<Longrightarrow> confined key None (ts_tree st) (ts_tree st')"
proof (induction chunks arbitrary: hashed st)
  case Nil
  then show ?case by (auto simp: fatal_def split: if_splits)
next
  case (Cons chunk rest)
  show ?case
  proof (cases "length hashed + length chunk > u64_max \<or> length hashed + length chunk > unat (rf_size remote)")
    case True
    then show ?thesis using Cons.prems by (auto split: if_splits)
  next
    case False
    obtain r1 st1 where one: "reserve env (length chunk) st = (r1, st1)" by fastforce
    obtain r2 st2 where two: "write_at env key (length hashed) chunk st1 = (r2, st2)" by fastforce
    note k = reserve_keeps(1) [OF one] write_at_confined [OF two]
    show ?thesis
      using Cons.prems False one two k Cons.IH [of "hashed @ chunk" st2] confined_trans
      by (cases r1; cases r2) (auto simp: fatal_def io_step_def)
  qed
qed

lemma attempt_keeps:
  assumes "attempt cx env scopes request st = (x, st')" and "ts_tree st k = Some n"
  shows "ts_tree st' k = Some n"
proof -
  let ?remote = "rd_remote request"
  have last: "ts_tree st3 k = Some n"
    if run: "(case receive cx env (staged_key staged) ?remote intr chunks [] st2 of
          (Err e, st) \<Rightarrow> (Err e, drop_file env staged st)
        | (Ok digest, st) \<Rightarrow> (Ok (staged, digest), st)) = (y, st3)"
      and st2: "ts_tree st2 k = Some n" and key: "k \<noteq> staged_key staged"
    for intr chunks staged st2 st3 and y :: "(staged_file \<times> string, cli_error \<times> bool) result"
  proof -
    obtain r s where recv: "receive cx env (staged_key staged) ?remote intr chunks [] st2 = (r, s)" by fastforce
    have "ts_tree s k = Some n" using receive_confined [OF recv] st2 key by (simp add: confined_def)
    then show ?thesis using run recv drop_file_tree [OF key] by (cases r) auto
  qed
  obtain r1 st1 where one: "send_request env scopes
      \<lparr>cr_range = None, cr_is_identity = False, cr_if_match = if_match_header ?remote\<rparr> ''content connection failed'' st = (r1, st1)"
    by fastforce
  have t1: "ts_tree st1 k = Some n" using send_request_keeps(1) [OF one] assms(2) by simp
  show ?thesis
  proof (cases "\<exists>response. r1 = Ok response \<and> is_success (hr_status response)
      \<and> is_ok (validate_response response ?remote)")
    case False
    have "st' = st1"
    proof (cases r1)
      case (Ok response)
      then show ?thesis using False assms(1) one
        by (cases "validate_response response ?remote")
          (auto simp: attempt_def Let_def fatal_def split: if_splits)
    qed (use assms(1) one in \<open>simp add: attempt_def\<close>)
    then show ?thesis using t1 by simp
  next
    case True
    then obtain response where r1: "r1 = Ok response" "is_success (hr_status response)"
      "validate_response response ?remote = Ok ()" by (auto simp: is_ok_unit)
    obtain ulid st2 where two: "next_ulid env st1 = (ulid, st2)" by fastforce
    have t2: "ts_tree st2 k = Some n" using next_ulid_simps(1) [OF two] t1 by simp
    obtain r3 fs where three: "staged_new ulid (rd_directory request) (rd_local request) (ts_tree st2) = (r3, fs)"
      by fastforce
    have t3: "fs k = Some n" using grows_keep [OF staged_new_grows [OF three] t2] .
    show ?thesis
    proof (cases r3)
      case (Err e)
      then show ?thesis
        using assms(1) one r1 two three t3
        by (simp add: attempt_def Let_def fatal_def io_step_def with_tree_def) auto
    next
      case (Ok staged)
      have "k \<noteq> staged_key staged" using staged_fresh [OF three [unfolded Ok]] t2 by auto
      then show ?thesis
        using assms(1) one r1 two three t3 Ok last [of staged]
        by (simp add: attempt_def Let_def fatal_def io_step_def with_tree_def)
    qed
  qed
qed

lemma ranged_download_keeps:
  assumes run: "ranged_download cx env scopes request schedule st = Some (x, st')"
    and k: "ts_tree st k = Some n"
    and away: "\<forall>dir name. recovery_directory cx request = Some dir \<longrightarrow> k \<noteq> dir @ [name]"
  shows "ts_tree st' k = Some n"
proof -
  let ?remote = "rd_remote request"
  obtain r1 st1 where one: "open_checkpoint cx request st = (r1, st1)" by fastforce
  have t1: "ts_tree st1 k = Some n" using grows_keep [OF open_checkpoint_grows [OF one] k] .
  obtain ulid st2 where two: "next_ulid env st1 = (ulid, st2)" by fastforce
  obtain r3 fs where three: "staged_new ulid (rd_directory request) (rd_local request) (ts_tree st2) = (r3, fs)"
    by fastforce
  have t2: "ts_tree st2 k = Some n" using next_ulid_simps(1) [OF two] t1 by simp
  have t3: "fs k = Some n" using grows_keep [OF staged_new_grows [OF three] t2] .
  show ?thesis
  proof (cases "plan_new (rf_size ?remote)")
    case (Err e)
    then show ?thesis using run k by (simp add: ranged_download_def)
  next
    case plan: (Ok plan)
    show ?thesis
    proof (cases r1)
      case (Err e)
      then show ?thesis using run one plan t1 by (simp add: ranged_download_def)
    next
      case (Ok checkpoint)
      have away: "\<forall>dir name. checkpoint = Some dir \<longrightarrow> k \<noteq> dir @ [name]"
        using open_checkpoint_Ok(3) [OF one [unfolded Ok]] away by (simp add: recovery_directory_def)
      show ?thesis
      proof (cases r3)
        case (Err e)
        then show ?thesis using run one plan Ok two three t3
          by (auto simp: ranged_download_def io_step_def with_tree_def)
      next
        case ok3: (Ok staged)
        let ?key = "staged_key staged"
        let ?st4 = "st2\<lparr>ts_tree := update_file ?key (set_len (unat (rf_size ?remote))) fs\<rparr>"
        have key: "k \<noteq> ?key" using staged_fresh [OF three [unfolded ok3]] t2 by auto
        have keeps: "fs' k = Some n" if "confined ?key checkpoint fs1 fs'" "fs1 k = Some n" for fs1 fs'
          using that key away unfolding confined_def by metis
        obtain r5 st5 where loop: "run_ranges (plan_collect plan) (rd_concurrency request)
            (run_range cx env scopes ?remote checkpoint ?key) schedule ?st4 = Some (r5, st5)"
          and rest: "(case st_try (r5, st5) (\<lambda>_ st. finish_ranges cx env ?remote checkpoint ?key st) of
              (Err e, st) \<Rightarrow> (Err e, release checkpoint (drop_file env staged st))
            | (Ok digest, st) \<Rightarrow> (Ok (staged, digest), release checkpoint st)) = (x, st')"
          using run one plan Ok two three ok3
          by (auto simp: ranged_download_def io_step_def with_tree_def Let_def map_option_eq_Some)
        have "ts_tree ?st4 k = Some n" using t3 key by (simp add: update_file_other)
        moreover have "ts_tree s' k = Some n" if "ts_tree s k = Some n"
          "run_range cx env scopes ?remote checkpoint ?key r s = (y, s')" for r s y s'
          by (rule keeps [OF run_range_confined [OF that(2)] that(1)])
        ultimately have t5: "ts_tree st5 k = Some n"
          by (rule_tac I = "\<lambda>s. ts_tree s k = Some n" in run_ranges_invariant [OF loop])
        show ?thesis
        proof (cases r5)
          case (Err e)
          then show ?thesis using rest t5 drop_file_tree [OF key] by auto
        next
          case ok5: (Ok u)
          obtain r6 st6 where fin: "finish_ranges cx env ?remote checkpoint ?key st5 = (r6, st6)" by fastforce
          have "ts_tree st6 k = Some n" by (rule keeps [OF finish_ranges_confined [OF fin] t5])
          then show ?thesis using rest fin ok5 drop_file_tree [OF key] by (cases r6) auto
        qed
      qed
    qed
  qed
qed

lemma content_download_verified:
  assumes "content_download cx env scopes threshold request schedule st = Some (Ok (staged, digest), st')"
  shows "target_key staged = rd_directory request @ split_on slash (rd_local request)
    \<and> (\<exists>content. ts_tree st' (staged_key staged) = Some (RegularFile content)
        \<and> length content = unat (rf_size (rd_remote request))
        \<and> rf_crc64 (rd_remote request) \<in> {0, cx_crc64 cx content}
        \<and> digest = cx_sha256 cx content)"
  using assms
proof (cases rule: content_download_cases)
  case 1
  then obtain plan checkpoint st1 ulid st2 st3 st5 st6 where
    new: "with_tree (staged_new ulid (rd_directory request) (rd_local request)) st2 = (Ok staged, st3)"
    and fin: "finish_ranges cx env (rd_remote request) checkpoint (staged_key staged) st5 = (Ok digest, st6)"
    and st': "st' = release checkpoint st6"
    by (rule ranged_download_Ok)
  from fin have "verify_file cx (rd_remote request) (staged_key staged) st6 = Ok digest"
    by (rule finish_ranges_Ok) simp
  from verify_file_Ok [OF this] show ?thesis
    using staged_new_effect(1) new st' by (auto simp: step_simps)
next
  case 2
  then have "single_done cx env request (staged, digest) st'" by (rule download_single_done)
  then show ?thesis
    unfolding single_done_def fst_conv snd_conv verify_content_Ok using staged_new_effect(1) by fastforce
qed

lemma content_download_keeps:
  assumes "content_download cx env scopes threshold request schedule st = Some (x, st')"
    and "ts_tree st k = Some n"
    and "\<forall>dir name. recovery_directory cx request = Some dir \<longrightarrow> k \<noteq> dir @ [name]"
  shows "ts_tree st' k = Some n"
  using assms(1)
proof (cases rule: content_download_cases)
  case 1
  then show ?thesis by (rule ranged_download_keeps [OF _ assms(2,3)])
next
  case 2
  then have "retrying (attempt cx env scopes request) ''content retry budget exhausted'' [0, 1, 2] st = (x, st')"
    by (simp add: download_single_def)
  from retrying_invariant [where I = "\<lambda>s. ts_tree s k = Some n" and Q = "\<lambda>_ _. True", OF this assms(2)]
  show ?thesis using attempt_keeps by blast
qed

lemma range_header_inj: "range_header r = range_header q \<Longrightarrow> dr_offset r = dr_offset q \<and> dr_size r = dr_size q"
proof -
  have "content_range p 0 = ''bytes '' @ drop 6 (range_header p) @ ''/'' @ show_nat 0" for p
    by (simp add: content_range_def range_header_def)
  then show "range_header r = range_header q \<Longrightarrow> dr_offset r = dr_offset q \<and> dr_size r = dr_size q"
    using content_range_inj [of r 0 q 0] by simp
qed

section \<open>A concrete network\<close>

text \<open>For the witnesses: a three-byte object served in two chunks.\<close>

definition demo_env :: transfer_env where
  "demo_env =
     \<lparr>te_net = (\<lambda>n request.
        let response = \<lparr>hr_status = 206, hr_header = (\<lambda>name. if name = ''etag'' then Some ''v1''
              else if name = ''content-range'' then Some ''bytes 0-2/3'' else None),
            hr_content_length = Some 3, hr_chunks = [''ab'', ''c''], hr_is_interrupted = False\<rparr>
        in case cr_range request of
             Some h \<Rightarrow> if h = ''bytes=0-2'' then Responded response else SendFailed
           | None \<Rightarrow> Responded (response\<lparr>hr_status := 200\<rparr>)),
      te_trace = 0, te_ulid = (\<lambda>n. ''1''), te_clock = (\<lambda>n. n), te_instant_max = 100,
      te_write = (\<lambda>n. None), te_publish = (\<lambda>n. \<lparr>pv_fault = None, pv_cleanup = True\<rparr>)\<rparr>"

definition demo_remote :: remote_file where
  "demo_remote = \<lparr>rf_path = ''f'', rf_size = 3, rf_etag = ''v1'', rf_crc64 = 0, rf_updated_at = 0\<rparr>"

definition demo_request :: range_download where
  "demo_request = \<lparr>rd_remote = demo_remote, rd_directory = [''d''], rd_local = ''f'',
     rd_concurrency = 2, rd_checkpoint_directory = None\<rparr>"

definition demo_state :: transfer_state where
  "demo_state = \<lparr>ts_tree = [[''d'', ''g''] \<mapsto> RegularFile ''old''], ts_locks = [], ts_sent = 0, ts_traces = (\<lambda>_. default_trace),
     ts_fresh = 1, ts_ulids = 0, ts_steps = 0, ts_limiter = None\<rparr>"

lemma demo_serves: "serves demo_env demo_remote ''abc''"
proof -
  let ?r = "\<lparr>dr_number = 1, dr_offset = 0, dr_size = 3\<rparr>"
  have "range_header ?r = ''bytes=0-2''" by code_simp
  then have "range_slice ''abc'' r = ''abc''" if "range_header r = ''bytes=0-2''" for r
    using range_header_inj [of r ?r] that by (simp add: range_slice_def)
  then show ?thesis unfolding serves_def by (auto simp: demo_env_def Let_def)
qed

lemma demo_download:
  "\<exists>st. content_download demo_codec demo_env [] 1 demo_request [0] demo_state
     = Some (Ok (\<lparr>sf_directory = [''d''], sf_name = temp_name ''1'', sf_target = ''f''\<rparr>, demo_hash ''abc''), st)"
proof -
  let ?r = "\<lparr>dr_number = 1, dr_offset = 0, dr_size = 3\<rparr>"
  let ?plan = "\<lparr>rp_size = 3, rp_offset = 0, rp_next_number = 1\<rparr>"
  have plan: "plan_new 3 = Ok ?plan"
    by (simp add: plan_new_def u64_div_ceil_def part_size_unat u32_max_def)
  have ranges: "plan_collect ?plan = [?r]"
    using plan_collect_new [OF plan]
    by (simp add: part_count_def u64_div_ceil_def part_size_unat nth_range_def download_part_size_def)
  have "is_ok (validate_relative ''f'')" by code_simp
  then have valid: "validate_relative ''f'' = Ok ()" by (simp add: is_ok_unit)
  have hdr: "range_header ?r = ''bytes=0-2''" "content_range ?r 3 = ''bytes 0-2/3''"
    "trim ''bytes 0-2/3'' = ''bytes 0-2/3''" by code_simp+
  have crc: "buffer_size = 65536" by (simp add: buffer_size_def)
  have chunks: "concat (chunks_of buffer_size ''abc'') = ''abc''"
    by (simp add: concat_chunks_of buffer_size_def)
  show ?thesis
    by (simp add: content_download_def ranged_download_def demo_request_def demo_remote_def has_identity_def
        starts_with_iff plan ranges open_checkpoint_def Let_def next_ulid_def demo_env_def demo_state_def
        staged_new_def safe_parent_def valid rsplit_once_def exclusive_def with_tree_def io_step_def temp_name_def
        staged_key_def update_file_def set_len_def run_ranges_def run_loop.simps remove_at_def
        run_range_def capture_scope_def transfer_range_def attempt_range_def send_request_def hdr fatal_def
        range_validate_def validate_etag_def record_content_response_def is_server_error_def
        reserve_def write_at_def overlay_def tick_def finish_ranges_def verify_file_def verify_content_def chunks
        release_def demo_codec_def)
qed

section \<open>Properties\<close>

text \<open>
  C24: a successful download hands over a verified file. It is staged in the destination
  directory for exactly the mapped local path, its length is the size of the manifest, its
  CRC-64 is that of the manifest when the manifest has one, and the returned digest is the
  SHA-256 of its bytes.
\<close>

theorem download_verified:
  assumes "content_download cx env scopes threshold request schedule st = Some (Ok (staged, digest), st')"
  shows "target_key staged = rd_directory request @ split_on slash (rd_local request)
    \<and> (\<exists>content. ts_tree st' (staged_key staged) = Some (RegularFile content)
        \<and> length content = unat (rf_size (rd_remote request))
        \<and> rf_crc64 (rd_remote request) \<in> {0, cx_crc64 cx content}
        \<and> digest = cx_sha256 cx content)"
  by (rule content_download_verified [OF assms])

theorem download_verified_witness:
  "\<exists>staged digest st. content_download demo_codec demo_env [] 1 demo_request [0] demo_state
       = Some (Ok (staged, digest), st)
     \<and> target_key staged = [''d''] @ split_on slash ''f''"
proof -
  obtain st where run: "content_download demo_codec demo_env [] 1 demo_request [0] demo_state
      = Some (Ok (\<lparr>sf_directory = [''d''], sf_name = temp_name ''1'', sf_target = ''f''\<rparr>, demo_hash ''abc''), st)"
    using demo_download by blast
  show ?thesis using download_verified [OF run] run by (auto simp: demo_request_def)
qed

text \<open>
  C4: a download returns the object that the server pins, and nothing else. When the answers
  follow HTTP for the pinned object and the recorded ranges of an earlier run are the object's,
  a download that succeeds has staged exactly the object's bytes: by one request or by ranges,
  with or without a recovery directory, whatever the concurrency, the order of completion, the
  retries and the write faults on the way.
\<close>

theorem download_exact:
  assumes "content_download cx env scopes threshold request schedule st = Some (Ok (staged, digest), st')"
    and "codec_ok cx" and "serves env (rd_remote request) source"
    and "length source = unat (rf_size (rd_remote request))"
    and "\<And>dir. recovery_directory cx request = Some dir \<Longrightarrow>
      trusted cx (rf_size (rd_remote request)) source dir (ts_tree st)"
  shows "ts_tree st' (staged_key staged) = Some (RegularFile source)"
  using assms(1)
proof (cases rule: content_download_cases)
  case 1
  then show ?thesis by (rule ranged_download_exact [OF _ assms(2-5)])
next
  case 2
  then show ?thesis by (rule single_exact [OF download_single_done assms(3,4)])
qed

theorem download_exact_witness:
  "\<exists>staged digest st. content_download demo_codec demo_env [] 1 demo_request [0] demo_state
       = Some (Ok (staged, digest), st)
     \<and> ts_tree st (staged_key staged) = Some (RegularFile ''abc'')"
proof -
  obtain st where run: "content_download demo_codec demo_env [] 1 demo_request [0] demo_state
      = Some (Ok (\<lparr>sf_directory = [''d''], sf_name = temp_name ''1'', sf_target = ''f''\<rparr>, demo_hash ''abc''), st)"
    using demo_download by blast
  have "serves demo_env (rd_remote demo_request) ''abc''"
    "length ''abc'' = unat (rf_size (rd_remote demo_request))" "recovery_directory demo_codec demo_request = None"
    using demo_serves by (simp_all add: demo_request_def demo_remote_def recovery_directory_def)
  then show ?thesis using download_exact [OF run demo_codec_ok] run by auto
qed

text \<open>
  C26: a download overwrites nothing. Whether it succeeds, fails or is interrupted by write
  faults, everything that existed before and is not a file of its recovery directory is still
  there and unchanged; the target appears only by the later publication.
\<close>

theorem download_keeps_existing:
  assumes "content_download cx env scopes threshold request schedule st = Some (x, st')"
    and "ts_tree st k = Some n"
    and "\<forall>dir name. recovery_directory cx request = Some dir \<longrightarrow> k \<noteq> dir @ [name]"
  shows "ts_tree st' k = Some n"
  by (rule content_download_keeps [OF assms])

theorem download_keeps_existing_witness:
  "\<exists>x st. content_download demo_codec demo_env [] 1 demo_request [0] demo_state = Some (x, st)
     \<and> ts_tree st [''d'', ''g''] = Some (RegularFile ''old'')"
proof -
  obtain x st where run: "content_download demo_codec demo_env [] 1 demo_request [0] demo_state = Some (x, st)"
    using demo_download by blast
  have "ts_tree demo_state [''d'', ''g''] = Some (RegularFile ''old'')" by (simp add: demo_state_def)
  from download_keeps_existing [OF run this] run show ?thesis
    by (simp add: recovery_directory_def demo_request_def)
qed

text \<open>
  The number of requests is bounded. A download sends at most three requests for each
  planned range, and at most three when it is a single request, whatever the server answers.
\<close>

theorem requests_bounded:
  assumes "content_download cx env scopes threshold request schedule st = Some (x, st')"
    and "plan_new (rf_size (rd_remote request)) = Ok plan"
  shows "ts_sent st' \<le> ts_sent st + 3 * max 1 (length (plan_collect plan))"
  by (rule download_sent [OF assms])

theorem requests_bounded_witness:
  "\<exists>x st. content_download demo_codec demo_env [] 1 demo_request [0] demo_state = Some (x, st)
     \<and> ts_sent st \<le> 3"
proof -
  obtain x st where run: "content_download demo_codec demo_env [] 1 demo_request [0] demo_state = Some (x, st)"
    using demo_download by blast
  let ?plan = "\<lparr>rp_size = 3, rp_offset = 0, rp_next_number = 1\<rparr>"
  have plan: "plan_new 3 = Ok ?plan"
    by (simp add: plan_new_def u64_div_ceil_def part_size_unat u32_max_def)
  have "length (plan_collect ?plan) = 1"
    using plan_collect_new [OF plan] by (simp add: part_count_def u64_div_ceil_def part_size_unat)
  moreover have "plan_new (rf_size (rd_remote demo_request)) = Ok ?plan"
    using plan by (simp add: demo_request_def demo_remote_def)
  ultimately show ?thesis
    using requests_bounded [OF run, of ?plan] run by (auto simp: demo_state_def)
qed

end
