(* ===== verification/Csv_Report.thy ===== *)
theory Csv_Report
  imports Content_Transfer Request_Trace
begin

text \<open>
  \<open>crates/adrive/src/handler/share_artifacts.rs\<close> and the CSV coding of \<open>high_level.rs\<close>: the
  report of a download, one row per outcome, in volumes that are staged and published one by
  one. The state is the writer with the local files; the environment is that of the transfers.
\<close>

section \<open>Coding\<close>

abbreviation comma :: char where
  "comma \<equiv> CHR '',''"

abbreviation newline :: char where
  "newline \<equiv> CHR 0x0A"

abbreviation carriage_return :: char where
  "carriage_return \<equiv> CHR 0x0D"

fun double_quotes :: "string \<Rightarrow> string" where
  "double_quotes [] = []"
| "double_quotes (c # s) = (if c = double_quote then [c, c] else [c]) @ double_quotes s"

definition csv_escape :: "string \<Rightarrow> string" where
  "csv_escape v =
     (if comma \<in> set v \<or> double_quote \<in> set v \<or> newline \<in> set v \<or> carriage_return \<in> set v
      then [double_quote] @ double_quotes v @ [double_quote] else v)"

definition csv_record :: "string list \<Rightarrow> string" where
  "csv_record values = join_with comma (map csv_escape values) @ [newline]"

section \<open>Volumes\<close>

text \<open>\<open>Path::file_stem\<close> of a file name.\<close>

definition file_stem :: "string \<Rightarrow> string" where
  "file_stem name =
     (case rsplit_once (CHR ''.'') name of
        Some (stem, _) \<Rightarrow> if stem = [] then name else stem
      | None \<Rightarrow> name)"

definition zero_padded :: "nat \<Rightarrow> nat \<Rightarrow> string" where
  "zero_padded width n = replicate (width - length (show_nat n)) (CHR ''0'') @ show_nat n"

definition rolled_csv_path :: "string \<Rightarrow> nat \<Rightarrow> string" where
  "rolled_csv_path base part =
     (if part = 1 then base
      else (let stem = file_stem base; stem = (if stem = [] then ''report'' else stem)
            in stem @ ''.part-'' @ zero_padded 4 part @ ''.csv''))"

definition batch_file_rollover_bytes :: u64 where
  "batch_file_rollover_bytes = 50 * 1024 * 1024"

record csv_writer =
  cw_directory :: safe_dir
  cw_base_leaf :: string
  cw_header_line :: string
  cw_current :: "staged_file option"
  cw_current_part :: nat
  cw_current_bytes :: u64

type_synonym csv_state = "csv_writer \<times> transfer_state"

text \<open>\<open>write_all\<close> at the end of a staged file: all bytes, or a fault after the first \<open>n\<close>.\<close>

definition write_all ::
  "transfer_env \<Rightarrow> string list \<Rightarrow> string \<Rightarrow> transfer_state \<Rightarrow> (unit, io_error) result \<times> transfer_state" where
  "write_all env key bytes st =
     (case te_write env (ts_steps st) of
        None \<Rightarrow> (Ok (), tick (st\<lparr>ts_tree := update_file key (\<lambda>b. b @ bytes) (ts_tree st)\<rparr>))
      | Some (n, e) \<Rightarrow>
          (Err e, tick (st\<lparr>ts_tree := update_file key (\<lambda>b. b @ take n bytes) (ts_tree st)\<rparr>)))"

definition start_volume :: "transfer_env \<Rightarrow> csv_state \<Rightarrow> (unit, cli_error) result \<times> csv_state" where
  "start_volume env s =
     (let (w, st) = s;
          leaf = rolled_csv_path (cw_base_leaf w) (cw_current_part w);
          (ulid, st) = next_ulid env st
      in case io_step (with_tree (staged_new ulid (cw_directory w) leaf) st) of
           (Err e, st) \<Rightarrow> (Err e, w, st)
         | (Ok staged, st) \<Rightarrow>
             (case io_step (write_all env (staged_key staged) (cw_header_line w) st) of
                (Err e, st) \<Rightarrow> (Err e, w, drop_file env staged st)
              | (Ok _, st) \<Rightarrow>
                  (Ok (), w\<lparr>cw_current := Some staged,
                            cw_current_bytes := of_nat (length (cw_header_line w))\<rparr>, st)))"

definition csv_new ::
  "transfer_env \<Rightarrow> safe_dir \<Rightarrow> string \<Rightarrow> string list \<Rightarrow> transfer_state \<Rightarrow> (unit, cli_error) result \<times> csv_state" where
  "csv_new env dir leaf headers st =
     start_volume env
       (\<lparr>cw_directory = dir, cw_base_leaf = leaf, cw_header_line = csv_record headers,
         cw_current = None, cw_current_part = 1, cw_current_bytes = 0\<rparr>, st)"

definition csv_finish :: "transfer_env \<Rightarrow> csv_state \<Rightarrow> (unit, cli_error) result \<times> csv_state" where
  "csv_finish env s =
     (let (w, st) = s
      in case cw_current w of
           None \<Rightarrow> (Ok (), w, st)
         | Some staged \<Rightarrow>
             (let (r, st) = io_step (with_tree (publish (te_publish env (ts_steps st)) staged True) (tick st))
              in (r, w\<lparr>cw_current := None\<rparr>, st)))"

definition next_volume :: "transfer_env \<Rightarrow> csv_state \<Rightarrow> (unit, cli_error) result \<times> csv_state" where
  "next_volume env s =
     st_try (csv_finish env s) (\<lambda>_ (w, st).
       if cw_current_part w \<ge> u64_max then (Err (invalid ''CSV volume count overflow''), w, st)
       else start_volume env (w\<lparr>cw_current_part := Suc (cw_current_part w)\<rparr>, st))"

definition csv_write_record ::
  "transfer_env \<Rightarrow> string list \<Rightarrow> csv_state \<Rightarrow> (unit, cli_error) result \<times> csv_state" where
  "csv_write_record env values s =
     (let line = csv_record values;
          bytes = of_nat (length line);
          (w, st) = s
      in st_try (if cw_current_bytes w > of_nat (length (cw_header_line w))
                    \<and> saturating_add (cw_current_bytes w) bytes > batch_file_rollover_bytes
                 then next_volume env (w, st) else (Ok (), w, st)) (\<lambda>_ (w, st).
           case cw_current w of
             None \<Rightarrow> (Err (invalid ''CSV writer is already finished''), w, st)
           | Some staged \<Rightarrow>
               (case io_step (write_all env (staged_key staged) line st) of
                  (Err e, st) \<Rightarrow> (Err e, w\<lparr>cw_current := None\<rparr>, drop_file env staged st)
                | (Ok _, st) \<Rightarrow>
                    (Ok (), w\<lparr>cw_current_bytes := saturating_add (cw_current_bytes w) bytes\<rparr>, st))))"

section \<open>The report of a download\<close>

record report_row =
  rr_source :: string
  rr_destination :: string
  rr_status :: string
  rr_error :: "string option"
  rr_request_id :: "string option"

definition report_columns :: "string list" where
  "report_columns =
     [''command'', ''operation'', ''source'', ''destination'', ''status'', ''error'', ''request_id'']"

definition report_fields :: "report_row \<Rightarrow> string list" where
  "report_fields r =
     [''ve-adrive-cli share download'',
      if ends_with ''/'' (rr_source r) then ''mkdir'' else ''download'',
      rr_source r, rr_destination r, rr_status r,
      case_option [] id (rr_error r),
      case_option [] id (Option.bind (rr_request_id r) sanitize_request_id)]"

record artifacts =
  ar_writer :: csv_writer
  ar_is_failures_only :: bool

definition artifacts_record ::
  "transfer_env \<Rightarrow> report_row \<Rightarrow> artifacts \<times> transfer_state \<Rightarrow>
   (unit, cli_error) result \<times> artifacts \<times> transfer_state" where
  "artifacts_record env r s =
     (let (a, st) = s
      in case validate_relative (without_suffix ''/'' (rr_source r)) of
           Err e \<Rightarrow> (Err e, a, st)
         | Ok _ \<Rightarrow>
             if rr_status r \<notin> {''succeeded'', ''failed'', ''skipped''}
             then (Err (invalid ''invalid download report status''), a, st)
             else if ar_is_failures_only a \<and> rr_status r \<noteq> ''failed'' then (Ok (), a, st)
             else (let (x, w, st) = csv_write_record env (report_fields r) (ar_writer a, st)
                   in (x, a\<lparr>ar_writer := w\<rparr>, st)))"

definition artifacts_finish ::
  "transfer_env \<Rightarrow> artifacts \<times> transfer_state \<Rightarrow> (unit, cli_error) result \<times> artifacts \<times> transfer_state" where
  "artifacts_finish env s =
     (let (a, st) = s; (x, w, st) = csv_finish env (ar_writer a, st)
      in (x, a\<lparr>ar_writer := w\<rparr>, st))"

section \<open>Lemmas: the coding\<close>

text \<open>A reader of CSV records, for the statement.\<close>

fun quoted_field :: "string \<Rightarrow> (string \<times> string) option" where
  "quoted_field [] = None"
| "quoted_field (c # s) =
     (if c = double_quote then
        (case s of d # t \<Rightarrow>
           if d = double_quote then map_option (\<lambda>(f, rest). (d # f, rest)) (quoted_field t) else Some ([], s)
         | [] \<Rightarrow> Some ([], s))
      else map_option (\<lambda>(f, rest). (c # f, rest)) (quoted_field s))"

definition ends_field :: "char \<Rightarrow> bool" where
  "ends_field c \<longleftrightarrow> c = comma \<or> c = newline"

definition csv_field :: "string \<Rightarrow> (string \<times> string) option" where
  "csv_field s =
     (case s of
        c # t \<Rightarrow> if c = double_quote then quoted_field t
                 else Some (takeWhile (\<lambda>c. \<not> ends_field c) s, dropWhile (\<lambda>c. \<not> ends_field c) s)
      | [] \<Rightarrow> Some ([], []))"

lemma quoted_field_shorter: "quoted_field s = Some (f, rest) \<Longrightarrow> length rest < length s"
proof (induction s arbitrary: f rest rule: quoted_field.induct)
  case 1
  then show ?case by simp
next
  case (2 c s)
  then show ?case by (fastforce split: if_splits list.splits)
qed

lemma csv_field_shorter: "csv_field s = Some (f, rest) \<Longrightarrow> length rest \<le> length s"
  by (auto simp: csv_field_def length_dropWhile_le le_Suc_eq split: list.splits if_splits
      dest!: quoted_field_shorter)

function csv_row :: "string \<Rightarrow> (string list \<times> string) option" where
  "csv_row s =
     (case csv_field s of
        Some (f, c # rest) \<Rightarrow>
          if c = comma then map_option (\<lambda>(fs, rest). (f # fs, rest)) (csv_row rest)
          else if c = newline then Some ([f], rest) else None
      | _ \<Rightarrow> None)"
  by pat_completeness auto
termination by (relation "measure length") (auto dest: csv_field_shorter)

declare csv_row.simps [simp del]

lemma csv_row_shorter: "csv_row s = Some (row, rest) \<Longrightarrow> length rest < length s"
proof (induction s arbitrary: row rest rule: csv_row.induct)
  case (1 s)
  then show ?case
    by (subst (asm) (2) csv_row.simps)
      (fastforce split: option.splits prod.splits list.splits if_splits dest: csv_field_shorter)
qed

function csv_rows :: "string \<Rightarrow> string list list option" where
  "csv_rows s =
     (if s = [] then Some []
      else case csv_row s of
             None \<Rightarrow> None
           | Some (row, rest) \<Rightarrow> map_option (Cons row) (csv_rows rest))"
  by pat_completeness auto
termination by (relation "measure length") (auto dest: csv_row_shorter)

declare csv_rows.simps [simp del]

lemma quoted_field_escape:
  "c \<noteq> double_quote \<Longrightarrow> quoted_field (double_quotes v @ double_quote # c # rest) = Some (v, c # rest)"
  by (induction v) (auto split: list.split)

lemma csv_field_escape:
  assumes "ends_field c"
  shows "csv_field (csv_escape v @ c # rest) = Some (v, c # rest)"
proof (cases "comma \<in> set v \<or> double_quote \<in> set v \<or> newline \<in> set v \<or> carriage_return \<in> set v")
  case True
  have "c \<noteq> double_quote" using assms by (auto simp: ends_field_def)
  then show ?thesis using True quoted_field_escape by (simp add: csv_field_def csv_escape_def)
next
  case False
  then have plain: "\<And>x. x \<in> set v \<Longrightarrow> \<not> ends_field x" by (auto simp: ends_field_def)
  have "takeWhile (\<lambda>c. \<not> ends_field c) (v @ c # rest) = v"
    "dropWhile (\<lambda>c. \<not> ends_field c) (v @ c # rest) = c # rest"
    using plain assms by (simp_all add: takeWhile_append2 dropWhile_append2)
  then show ?thesis using False assms
    by (cases v) (auto simp: csv_field_def csv_escape_def ends_field_def)
qed

lemma csv_row_record:
  "values \<noteq> [] \<Longrightarrow> csv_row (csv_record values @ rest) = Some (values, rest)"
proof (induction "values")
  case Nil
  then show ?case by simp
next
  case (Cons v vs)
  show ?case
  proof (cases vs)
    case Nil
    have "csv_field (csv_escape v @ newline # rest) = Some (v, newline # rest)"
      by (rule csv_field_escape) (simp add: ends_field_def)
    then show ?thesis using Nil by (subst csv_row.simps) (simp add: csv_record_def)
  next
    case (Cons u us)
    have "csv_record (v # vs) @ rest = csv_escape v @ comma # (csv_record vs @ rest)"
      using Cons by (simp add: csv_record_def)
    moreover have "csv_field (csv_escape v @ comma # (csv_record vs @ rest)) = Some (v, comma # (csv_record vs @ rest))"
      by (rule csv_field_escape) (simp add: ends_field_def)
    moreover have "csv_row (csv_record vs @ rest) = Some (vs, rest)" using Cons.IH Cons by simp
    ultimately show ?thesis by (subst csv_row.simps) simp
  qed
qed

lemma csv_rows_records:
  "list_all (\<lambda>r. r \<noteq> []) rows \<Longrightarrow> csv_rows (concat (map csv_record rows)) = Some rows"
proof (induction rows)
  case Nil
  then show ?case by (simp add: csv_rows.simps)
next
  case (Cons r rows)
  have "csv_record r @ concat (map csv_record rows) \<noteq> []" by (simp add: csv_record_def)
  then show ?case using Cons csv_row_record [of r] by (subst csv_rows.simps) simp
qed

section \<open>Lemmas: volume names\<close>

lemma file_stem_split:
  assumes "CHR ''.'' \<in> set name" and "file_stem name \<noteq> name"
  obtains ext where "name = file_stem name @ CHR ''.'' # ext" and "CHR ''.'' \<notin> set ext"
  using assms
  by (auto simp: file_stem_def rsplit_once_Some split: option.splits if_splits)

lemma zero_padded_digits: "c \<in> set (zero_padded w n) \<Longrightarrow> is_ascii_digit c"
  using show_nat_digits by (auto simp: zero_padded_def is_ascii_digit_def)

lemma parse_zeros: "parse_digits 0 (replicate k (CHR ''0'') @ s) = parse_digits 0 s"
  by (induction k) (auto simp: digit_val_def is_ascii_digit_def)

lemma zero_padded_inj: "zero_padded w m = zero_padded w n \<Longrightarrow> m = n"
  unfolding zero_padded_def using parse_zeros parse_digits_show by (metis option.inject)

lemma rolled_inj:
  assumes "rolled_csv_path base p = rolled_csv_path base q"
  shows "p = q"
proof -
  let ?stem = "if file_stem base = [] then ''report'' else file_stem base"
  have other: False if "rolled_csv_path base 1 = rolled_csv_path base r" "r \<noteq> 1" for r
  proof -
    define stem where "stem = ?stem"
    have b: "base = stem @ ''.part-'' @ zero_padded 4 r @ ''.csv''"
      using that by (simp add: rolled_csv_path_def Let_def stem_def)
    have "rsplit_once (CHR ''.'') base = Some (stem @ ''.part-'' @ zero_padded 4 r, ''csv'')"
      by (subst b) (simp add: rsplit_once_Some)
    then have "file_stem base = stem @ ''.part-'' @ zero_padded 4 r" by (simp add: file_stem_def)
    moreover from this have "file_stem base \<noteq> []" by (metis append_is_Nil_conv list.distinct(1))
    ultimately show False by (simp add: stem_def)
  qed
  consider "p = 1" "q = 1" | "p = 1" "q \<noteq> 1" | "p \<noteq> 1" "q = 1" | "p \<noteq> 1" "q \<noteq> 1" by blast
  then show ?thesis
  proof cases
    case 4
    then have "zero_padded 4 p = zero_padded 4 q"
      using assms by (auto simp: rolled_csv_path_def Let_def split: if_splits)
    then show ?thesis by (rule zero_padded_inj)
  next
    case 3
    then show ?thesis using assms other [of p] by simp
  qed (use assms other in auto)
qed

text \<open>A leaf that no temporary file has.\<close>

definition plain_leaf :: "string \<Rightarrow> bool" where
  "plain_leaf base \<longleftrightarrow> slash \<notin> set base \<and> (\<forall>u. base \<noteq> temp_name u)"

lemma rolled_plain:
  assumes "plain_leaf base"
  shows "slash \<notin> set (rolled_csv_path base p)" and "rolled_csv_path base p \<noteq> temp_name u"
proof -
  have "set (file_stem base) \<subseteq> set base"
    by (auto simp: file_stem_def rsplit_once_Some split: option.splits if_splits)
  moreover have "slash \<notin> set (zero_padded 4 p)"
    using zero_padded_digits [of slash 4 p] by (auto simp: is_ascii_digit_def)
  ultimately show "slash \<notin> set (rolled_csv_path base p)"
    using assms by (auto simp: rolled_csv_path_def Let_def plain_leaf_def)
  show "rolled_csv_path base p \<noteq> temp_name u"
  proof (cases "p = 1")
    case True
    then show ?thesis using assms by (simp add: rolled_csv_path_def plain_leaf_def)
  next
    case False
    then have "last (rolled_csv_path base p) = CHR ''v''" by (simp add: rolled_csv_path_def Let_def)
    moreover have "last (temp_name u) = CHR ''l''" by (simp add: temp_name_def)
    ultimately show ?thesis by auto
  qed
qed

section \<open>Lemmas: the volumes of a report\<close>

lemma write_all_Ok:
  assumes "write_all env key bytes st = (Ok u, st')" and "ts_tree st key = Some (RegularFile c)"
  shows "ts_tree st' = (ts_tree st)(key \<mapsto> RegularFile (c @ bytes))"
  using assms by (auto simp: write_all_def update_file_def split: option.splits)

lemma start_volume_Ok:
  assumes run: "start_volume env (w, st) = (Ok u, w', st')" and plain: "plain_leaf (cw_base_leaf w)"
  obtains ulid where
    "w' = w\<lparr>cw_current := Some \<lparr>sf_directory = cw_directory w, sf_name = temp_name ulid,
        sf_target = rolled_csv_path (cw_base_leaf w) (cw_current_part w)\<rparr>,
      cw_current_bytes := of_nat (length (cw_header_line w))\<rparr>"
    and "ts_tree st (cw_directory w @ [temp_name ulid]) = None"
    and "ts_tree st' = (ts_tree st)(cw_directory w @ [temp_name ulid] \<mapsto> RegularFile (cw_header_line w))"
proof -
  let ?leaf = "rolled_csv_path (cw_base_leaf w) (cw_current_part w)"
  obtain ulid st1 where u: "next_ulid env st = (ulid, st1)" by fastforce
  obtain r st2 where new: "with_tree (staged_new ulid (cw_directory w) ?leaf) st1 = (r, st2)" by fastforce
  obtain staged where r: "r = Ok staged"
    using run u new by (cases r) (auto simp: start_volume_def io_step_def)
  have "staged_new ulid (cw_directory w) ?leaf (ts_tree st) = (Ok staged, ts_tree st2)"
    using new r next_ulid_simps(1) [OF u] by (auto simp: step_simps)
  note leaf = staged_new_leaf [OF rolled_plain(1) [OF plain] this]
  obtain v st3 where wr: "write_all env (staged_key staged) (cw_header_line w) st2 = (v, st3)" by fastforce
  obtain x where v: "v = Ok x"
    using run u new r wr by (cases v) (auto simp: start_volume_def io_step_def)
  have key: "staged_key staged = cw_directory w @ [temp_name ulid]" using leaf by (simp add: staged_key_def)
  have "ts_tree st2 (staged_key staged) = Some (RegularFile [])" using leaf key by simp
  from write_all_Ok [OF wr [unfolded v] this]
  have "ts_tree st3 = (ts_tree st)(cw_directory w @ [temp_name ulid] \<mapsto> RegularFile (cw_header_line w))"
    using leaf key by (simp add: fun_eq_iff)
  moreover have "st' = st3" "w' = w\<lparr>cw_current := Some staged,
      cw_current_bytes := of_nat (length (cw_header_line w))\<rparr>"
    using run u new r wr v by (auto simp: start_volume_def io_step_def)
  ultimately show thesis using that leaf by blast
qed

text \<open>The volumes published so far and the rows of the current one.\<close>

definition volume_fits :: "string \<Rightarrow> string list \<Rightarrow> bool" where
  "volume_fits header recs \<longleftrightarrow>
     length recs \<le> 1 \<or> length header + length (concat recs) \<le> unat batch_file_rollover_bytes"

definition published_volumes ::
  "safe_dir \<Rightarrow> string \<Rightarrow> string \<Rightarrow> string list list \<Rightarrow> file_tree \<Rightarrow> bool" where
  "published_volumes dir base header groups fs \<longleftrightarrow>
     (\<forall>i < length groups. fs (dir @ [rolled_csv_path base (Suc i)])
        = Some (RegularFile (header @ concat (groups ! i))) \<and> volume_fits header (groups ! i))"

definition writing ::
  "safe_dir \<Rightarrow> string \<Rightarrow> string \<Rightarrow> string list list \<Rightarrow> string list \<Rightarrow> csv_state \<Rightarrow> bool" where
  "writing dir base header groups recs s \<longleftrightarrow>
     (case s of (w, st) \<Rightarrow>
        cw_directory w = dir \<and> cw_base_leaf w = base \<and> cw_header_line w = header
        \<and> cw_current_part w = Suc (length groups)
        \<and> (\<exists>u. cw_current w = Some \<lparr>sf_directory = dir, sf_name = temp_name u,
                sf_target = rolled_csv_path base (Suc (length groups))\<rparr>
             \<and> ts_tree st (dir @ [temp_name u]) = Some (RegularFile (header @ concat recs)))
        \<and> unat (cw_current_bytes w) = min u64_max (length header + length (concat recs))
        \<and> [] \<notin> set recs
        \<and> volume_fits header recs \<and> published_volumes dir base header groups (ts_tree st))"

lemma published_keep:
  assumes "published_volumes dir base header groups fs"
    and "\<And>i. i < length groups \<Longrightarrow> fs' (dir @ [rolled_csv_path base (Suc i)]) = fs (dir @ [rolled_csv_path base (Suc i)])"
  shows "published_volumes dir base header groups fs'"
  using assms by (simp add: published_volumes_def)

lemma csv_new_writing:
  assumes run: "csv_new env dir base headers st = (Ok u, s)" and plain: "plain_leaf base"
    and len: "length (csv_record headers) \<le> u64_max"
  shows "writing dir base (csv_record headers) [] [] s"
proof -
  obtain w st' where s: "s = (w, st')" by (cases s)
  let ?w = "\<lparr>cw_directory = dir, cw_base_leaf = base, cw_header_line = csv_record headers,
      cw_current = None, cw_current_part = 1, cw_current_bytes = 0\<rparr>"
  have start: "start_volume env (?w, st) = (Ok u, w, st')" using run s by (simp add: csv_new_def)
  obtain ulid where
    "w = ?w\<lparr>cw_current := Some \<lparr>sf_directory = dir, sf_name = temp_name ulid,
        sf_target = rolled_csv_path base 1\<rparr>, cw_current_bytes := of_nat (length (csv_record headers))\<rparr>"
    "ts_tree st' = (ts_tree st)(dir @ [temp_name ulid] \<mapsto> RegularFile (csv_record headers))"
    by (rule start_volume_Ok [OF start]) (use plain in auto)
  then show ?thesis unfolding writing_def s
    using len by (auto simp: published_volumes_def volume_fits_def unat_of_nat_u64)
qed

lemma csv_finish_published:
  assumes run: "csv_finish env s = (Ok u, w', st')" and inv: "writing dir base header groups recs s"
    and plain: "plain_leaf base"
  shows "published_volumes dir base header (groups @ [recs]) (ts_tree st')"
    and "w' = (fst s)\<lparr>cw_current := None\<rparr>"
proof -
  obtain w st where s: "s = (w, st)" by (cases s)
  obtain ulid where cur: "cw_current w = Some \<lparr>sf_directory = dir, sf_name = temp_name ulid,
        sf_target = rolled_csv_path base (Suc (length groups))\<rparr>"
    and body: "ts_tree st (dir @ [temp_name ulid]) = Some (RegularFile (header @ concat recs))"
    and fit: "volume_fits header recs" and old: "published_volumes dir base header groups (ts_tree st)"
    using inv unfolding writing_def s by auto
  let ?staged = "\<lparr>sf_directory = dir, sf_name = temp_name ulid,
        sf_target = rolled_csv_path base (Suc (length groups))\<rparr>"
  have keys: "staged_key ?staged = dir @ [temp_name ulid]"
    "target_key ?staged = dir @ [rolled_csv_path base (Suc (length groups))]"
    by (simp_all add: staged_key_def target_key_def)
  obtain r fs where pub: "publish (te_publish env (ts_steps st)) ?staged True (ts_tree st) = (r, fs)" by fastforce
  have r: "r = Ok ()" and st': "ts_tree st' = fs"
    using run s cur pub
    by (cases r; auto simp: csv_finish_def with_tree_def io_step_def Let_def)+
  show "w' = (fst s)\<lparr>cw_current := None\<rparr>"
    using run s cur by (auto simp: csv_finish_def Let_def split: prod.splits)
  have ne: "sf_name ?staged \<noteq> sf_target ?staged" using rolled_plain(2) [OF plain] by (metis staged_file.select_convs(2,3))
  have "ts_tree st (staged_key ?staged) = Some (RegularFile (header @ concat recs))" using body keys by simp
  note c = publish_cases [OF this ne pub]
  have "published_volumes dir base header groups fs"
  proof (rule published_keep [OF old])
    fix i assume "i < length groups"
    then have "dir @ [rolled_csv_path base (Suc i)] \<noteq> target_key ?staged" 
      using keys rolled_inj [of base "Suc i" "Suc (length groups)"] by auto
    moreover have "dir @ [rolled_csv_path base (Suc i)] \<noteq> staged_key ?staged"
      using keys rolled_plain(2) [OF plain] by auto
    ultimately show "fs (dir @ [rolled_csv_path base (Suc i)]) = ts_tree st (dir @ [rolled_csv_path base (Suc i)])"
      using c(1) by blast
  qed
  moreover have "fs (dir @ [rolled_csv_path base (Suc (length groups))]) = Some (RegularFile (header @ concat recs))"
    using c(3) r keys by simp
  ultimately show "published_volumes dir base header (groups @ [recs]) (ts_tree st')"
    using fit unfolding published_volumes_def st' by (simp add: nth_append less_Suc_eq)
qed

lemma next_volume_writing:
  assumes run: "next_volume env s = (Ok u, s')" and inv: "writing dir base header groups recs s"
    and plain: "plain_leaf base" and len: "length header \<le> u64_max"
  shows "writing dir base header (groups @ [recs]) [] s'"
proof -
  obtain w st where s: "s = (w, st)" by (cases s)
  obtain w' st' where s': "s' = (w', st')" by (cases s')
  have w: "cw_directory w = dir" "cw_base_leaf w = base" "cw_header_line w = header"
    "cw_current_part w = Suc (length groups)" using inv unfolding writing_def s by auto
  obtain x w1 st1 where fin: "csv_finish env (w, st) = (x, w1, st1)" by (metis prod.collapse)
  obtain v where x: "x = Ok v" using run s fin by (cases x) (auto simp: next_volume_def)
  note pub = csv_finish_published [OF fin [unfolded x] inv [unfolded s] plain, unfolded fst_conv]
  let ?w = "w1\<lparr>cw_current_part := Suc (cw_current_part w1)\<rparr>"
  have start: "start_volume env (?w, st1) = (Ok u, w', st')"
    using run s fin x s' by (auto simp: next_volume_def split: if_splits)
  have w1: "cw_directory ?w = dir" "cw_base_leaf ?w = base" "cw_header_line ?w = header"
    "cw_current_part ?w = Suc (Suc (length groups))" using w pub(2) by simp_all
  have "plain_leaf (cw_base_leaf ?w)" using plain w1 by simp
  from start this obtain ulid where
    w': "w' = ?w\<lparr>cw_current := Some \<lparr>sf_directory = dir, sf_name = temp_name ulid,
        sf_target = rolled_csv_path base (Suc (Suc (length groups)))\<rparr>,
      cw_current_bytes := of_nat (length header)\<rparr>"
    and t: "ts_tree st' = (ts_tree st1)(dir @ [temp_name ulid] \<mapsto> RegularFile header)"
    unfolding w1 [symmetric] by (rule start_volume_Ok)
  have "published_volumes dir base header (groups @ [recs]) (ts_tree st')"
    by (rule published_keep [OF pub(1)]) (use t rolled_plain(2) [OF plain] in auto)
  then show ?thesis unfolding writing_def s'
    using w1 w' t len by (auto simp: volume_fits_def unat_of_nat_u64)
qed

lemma write_record_writing:
  assumes run: "csv_write_record env values s = (Ok u, s')" and inv: "writing dir base header groups recs s"
    and plain: "plain_leaf base" and len: "length header < u64_max" "length (csv_record values) \<le> u64_max"
  shows "\<exists>groups' recs'. writing dir base header groups' recs' s'
    \<and> concat groups' @ recs' = concat groups @ recs @ [csv_record values]"
proof -
  let ?line = "csv_record values"
  obtain w st where s: "s = (w, st)" by (cases s)
  have w: "cw_header_line w = header" "unat (cw_current_bytes w) = min u64_max (length header + length (concat recs))"
    using inv unfolding writing_def s by auto
  let ?rolls = "cw_current_bytes w > of_nat (length header)
      \<and> saturating_add (cw_current_bytes w) (of_nat (length ?line)) > batch_file_rollover_bytes"
  obtain x s1 where first: "(if ?rolls then next_volume env (w, st) else (Ok (), w, st)) = (x, s1)" by (metis surj_pair)
  obtain y where x: "x = Ok y" using run s first w(1) by (cases x) (auto simp: csv_write_record_def Let_def)
  obtain w1 st1 where s1: "s1 = (w1, st1)" by (cases s1)
  have "\<exists>groups1 recs1. writing dir base header groups1 recs1 s1
      \<and> concat groups1 @ recs1 = concat groups @ recs \<and> volume_fits header (recs1 @ [?line])"
  proof (cases ?rolls)
    case True
    then have "next_volume env s = (Ok y, s1)" using first x s by simp
    from next_volume_writing [OF this inv plain] len(1) show ?thesis
      by (intro exI [of _ "groups @ [recs]"] exI [of _ "[]"]) (simp add: volume_fits_def)
  next
    case False
    have "volume_fits header (recs @ [?line])"
    proof (cases "cw_current_bytes w > of_nat (length header)")
      case True
      have roll: "unat batch_file_rollover_bytes = 52428800" by (simp add: batch_file_rollover_bytes_def)
      have "unat (saturating_add (cw_current_bytes w) (of_nat (length ?line))) \<le> unat batch_file_rollover_bytes"
        using False True by (simp add: word_le_nat_alt not_less)
      then have "min (min u64_max (length header + length (concat recs)) + length ?line) u64_max \<le> 52428800"
        using w(2) len(2) roll by (simp add: unat_of_nat_u64)
      then have "length header + length (concat recs) + length ?line \<le> 52428800"
        by (auto simp: min_def u64_max_def split: if_splits)
      then show ?thesis using roll by (simp add: volume_fits_def)
    next
      case False
      then have "unat (cw_current_bytes w) \<le> unat (of_nat (length header) :: u64)"
        by (simp only: word_less_nat_alt not_less)
      then have "min u64_max (length header + length (concat recs)) \<le> length header"
        unfolding w(2) unat_of_nat_u64 [OF less_imp_le [OF len(1)]] .
      then have "concat recs = []" using len(1) by (auto simp: min_def split: if_splits)
      moreover have "[] \<notin> set recs" using inv by (auto simp: writing_def)
      ultimately have "recs = []" by (cases recs) auto
      then show ?thesis by (simp add: volume_fits_def)
    qed
    then show ?thesis using inv first x s False by auto
  qed
  then obtain groups1 recs1 where inv1: "writing dir base header groups1 recs1 (w1, st1)"
    and cat: "concat groups1 @ recs1 = concat groups @ recs" and fit: "volume_fits header (recs1 @ [?line])"
    unfolding s1 by blast
  obtain ulid where cur: "cw_current w1 = Some \<lparr>sf_directory = dir, sf_name = temp_name ulid,
        sf_target = rolled_csv_path base (Suc (length groups1))\<rparr>"
    and body: "ts_tree st1 (dir @ [temp_name ulid]) = Some (RegularFile (header @ concat recs1))"
    using inv1 unfolding writing_def by auto
  let ?key = "dir @ [temp_name ulid]"
  obtain v st2 where wr: "write_all env ?key ?line st1 = (v, st2)" by fastforce
  have rest: "(case io_step (write_all env ?key ?line st1) of
                (Err e, st) \<Rightarrow> (Err e, w1\<lparr>cw_current := None\<rparr>, drop_file env \<lparr>sf_directory = dir, sf_name = temp_name ulid,
        sf_target = rolled_csv_path base (Suc (length groups1))\<rparr> st)
              | (Ok _, st) \<Rightarrow>
                  (Ok (), w1\<lparr>cw_current_bytes := saturating_add (cw_current_bytes w1) (of_nat (length ?line))\<rparr>, st))
     = (Ok u, s')"
    using run s first w(1) x s1 cur by (simp add: csv_write_record_def Let_def staged_key_def)
  obtain z where v: "v = Ok z" using rest wr by (cases v) (auto simp: io_step_def)
  have s': "s' = (w1\<lparr>cw_current_bytes := saturating_add (cw_current_bytes w1) (of_nat (length ?line))\<rparr>, st2)"
    using rest wr v by (simp add: io_step_def)
  have t2: "ts_tree st2 = (ts_tree st1)(?key \<mapsto> RegularFile ((header @ concat recs1) @ ?line))"
    by (rule write_all_Ok [OF wr [unfolded v] body])
  have "published_volumes dir base header groups1 (ts_tree st2)"
    by (rule published_keep [where fs = "ts_tree st1"])
      (use inv1 t2 rolled_plain(2) [OF plain] in \<open>auto simp: writing_def\<close>)
  moreover have "unat (saturating_add (cw_current_bytes w1) (of_nat (length ?line)))
      = min u64_max (length header + length (concat (recs1 @ [?line])))"
    using inv1 len(2) by (auto simp: writing_def unat_of_nat_u64 min_def)
  moreover have "[] \<notin> set (recs1 @ [?line])" using inv1 by (auto simp: writing_def csv_record_def)
  ultimately have "writing dir base header groups1 (recs1 @ [?line]) s'"
    using inv1 cur t2 fit unfolding writing_def s' by auto
  then show ?thesis using cat by (intro exI [of _ groups1] exI [of _ "recs1 @ [?line]"]) simp
qed


lemma write_records_writing:
  assumes "st_each (csv_write_record env) rows s = (Ok u, s')" and "writing dir base header groups recs s"
    and "plain_leaf base" and "length header < u64_max" and "\<forall>r \<in> set rows. length (csv_record r) \<le> u64_max"
  shows "\<exists>groups' recs'. writing dir base header groups' recs' s'
    \<and> concat groups' @ recs' = concat groups @ recs @ map csv_record rows"
  using assms(1,2,5)
proof (induction rows arbitrary: s groups recs)
  case Nil
  then show ?case by auto
next
  case (Cons r rows)
  obtain s1 where one: "csv_write_record env r s = (Ok (), s1)"
    and rest: "st_each (csv_write_record env) rows s1 = (Ok u, s')"
    using Cons.prems(1) by (auto simp: st_try_Ok_iff)
  obtain groups1 recs1 where inv: "writing dir base header groups1 recs1 s1"
    and cat: "concat groups1 @ recs1 = concat groups @ recs @ [csv_record r]"
    using write_record_writing [OF one Cons.prems(2) assms(3,4)] Cons.prems(3) by auto
  obtain groups' recs' where inv': "writing dir base header groups' recs' s'"
    and "concat groups' @ recs' = concat groups1 @ recs1 @ map csv_record rows"
    using Cons.IH [OF rest inv] Cons.prems(3) by auto
  then have "concat groups' @ recs' = (concat groups1 @ recs1) @ map csv_record rows" by simp
  then show ?case using inv' unfolding cat by auto
qed

section \<open>Properties\<close>

text \<open>
  A report can be read back. Whatever the texts of its fields, commas, quotes and line
  breaks included, the records written to a volume parse as exactly the rows.
\<close>

theorem csv_roundtrip:
  assumes "list_all (\<lambda>row. row \<noteq> []) rows"
  shows "csv_rows (concat (map csv_record rows)) = Some rows"
  by (rule csv_rows_records [OF assms])

theorem csv_roundtrip_witness:
  "csv_record [''a,b'', ''say \"x\"'', [newline]] = ''\"a,b\",\"say \"\"x\"\"\",\"'' @ [newline] @ ''\"'' @ [newline]
   \<and> csv_rows (csv_record [''a,b'', ''say \"x\"'', [newline]]) = Some [[''a,b'', ''say \"x\"'', [newline]]]"
proof -
  let ?row = "[''a,b'', ''say \"x\"'', [newline]]"
  have "csv_rows (concat (map csv_record [?row])) = Some [?row]" by (rule csv_roundtrip) simp
  then show ?thesis by (simp add: csv_record_def csv_escape_def)
qed

text \<open>
  A finished report is complete. When every record and the finish succeed, the volumes
  published under the names of the report, in the order of their numbers, hold the header and
  then exactly the records, in order and each once; a volume with more than one record is at
  most 50 MiB long.
\<close>

theorem report_complete:
  assumes "csv_new env dir base headers st = (Ok u, s)"
    and "st_each (csv_write_record env) rows s = (Ok v, s1)"
    and "csv_finish env s1 = (Ok x, w, st')"
    and "plain_leaf base" and "length (csv_record headers) < u64_max"
    and "\<forall>row \<in> set rows. length (csv_record row) \<le> u64_max"
  shows "\<exists>volumes. concat volumes = map csv_record rows
    \<and> (\<forall>i < length volumes. ts_tree st' (dir @ [rolled_csv_path base (Suc i)])
          = Some (RegularFile (csv_record headers @ concat (volumes ! i)))
        \<and> (length (volumes ! i) \<le> 1
           \<or> length (csv_record headers) + length (concat (volumes ! i)) \<le> 52428800))"
proof -
  have "writing dir base (csv_record headers) [] [] s"
    using csv_new_writing [OF assms(1,4)] assms(5) by simp
  from write_records_writing [OF assms(2) this assms(4,5,6)]
  obtain groups recs where inv: "writing dir base (csv_record headers) groups recs s1"
    and cat: "concat groups @ recs = map csv_record rows" by auto
  have "published_volumes dir base (csv_record headers) (groups @ [recs]) (ts_tree st')"
    by (rule csv_finish_published(1) [OF assms(3) inv assms(4)])
  moreover have "unat batch_file_rollover_bytes = 52428800" by (simp add: batch_file_rollover_bytes_def)
  ultimately show ?thesis
    using cat unfolding published_volumes_def volume_fits_def
    by (intro exI [of _ "groups @ [recs]"]) simp
qed

theorem report_complete_witness:
  "\<exists>volumes (st :: transfer_state). concat volumes = [''ab'' @ [newline]]
     \<and> (\<forall>i < length volumes. ts_tree st ([''r''] @ [rolled_csv_path ''x.csv'' (Suc i)])
          = Some (RegularFile (csv_record [''h'', ''k''] @ concat (volumes ! i))))"
proof -
  have plain: "plain_leaf ''x.csv''" by (auto simp: plain_leaf_def temp_name_def)
  have "is_ok (validate_relative ''x.csv'')" by code_simp
  then have valid: "validate_relative ''x.csv'' = Ok ()" by (simp add: is_ok_unit)
  let ?init = "csv_new demo_env [''r''] ''x.csv'' [''h'', ''k''] demo_state"
  note eval = csv_new_def start_volume_def demo_env_def demo_state_def rolled_csv_path_def
        next_ulid_def with_tree_def staged_new_def safe_parent_def valid rsplit_once_def exclusive_def
        io_step_def write_all_def Let_def csv_write_record_def csv_finish_def publish_def calling_def fault_at_def
        replace_leaf_def ordinary_def rename_leaf_def update_file_def tick_def staged_key_def
  have new: "fst ?init = Ok ()" by (simp add: eval)
  then obtain s where s: "?init = (Ok (), s)" by (metis prod.collapse)
  have "fst (st_each (csv_write_record demo_env) [[''ab'']] (snd ?init)) = Ok ()" by (simp add: eval)
  then obtain s1 where s1: "st_each (csv_write_record demo_env) [[''ab'']] s = (Ok (), s1)"
    using s by (metis prod.collapse snd_conv)
  have "fst (csv_finish demo_env (snd (st_each (csv_write_record demo_env) [[''ab'']] (snd ?init)))) = Ok ()"
    by (simp add: eval)
  then obtain w st where fin: "csv_finish demo_env s1 = (Ok (), w, st)"
    using s s1 by (metis prod.collapse snd_conv)
  have "length (csv_record [''h'', ''k'']) < u64_max"
    "\<forall>row \<in> set [[''ab'']]. length (csv_record row) \<le> u64_max"
    by (simp_all add: csv_record_def csv_escape_def u64_max_def)
  from report_complete [OF s s1 fin plain this] obtain volumes where
    "concat volumes = map csv_record [[''ab'']]"
    "\<forall>i < length volumes. ts_tree st ([''r''] @ [rolled_csv_path ''x.csv'' (Suc i)])
        = Some (RegularFile (csv_record [''h'', ''k''] @ concat (volumes ! i)))" by blast
  then show ?thesis
    by (intro exI [of _ volumes] exI [of _ st]) (simp add: csv_record_def csv_escape_def)
qed

end
