(* ===== verification/Share_Checkpoint.thy ===== *)
theory Share_Checkpoint
  imports Share_Manifest
begin

text \<open>
  \<open>crates/adrive/src/handler/share_checkpoint.rs\<close>: the task identity of a resumable share
  download and the recovery journal that is validated against it. The derivation of the API
  origin from the page origin (\<open>derive_share_api_origin\<close>) is the parameter \<open>derive\<close>.
\<close>

section \<open>Policies and identities\<close>

datatype overwrite_strategy = Force | NoClobber | Newer

record selection_policy =
  sp_is_include_parent :: bool
  sp_include :: "string option"
  sp_exclude :: "string option"
  sp_overwrite :: string

definition selection_policy_from_args ::
  "download_args \<Rightarrow> overwrite_strategy option \<Rightarrow> selection_policy" where
  "selection_policy_from_args args strategy =
     \<lparr>sp_is_include_parent = da_is_include_parent args, sp_include = da_include args,
      sp_exclude = da_exclude args,
      sp_overwrite = (case (case strategy of None \<Rightarrow> Force | Some s \<Rightarrow> s) of
        Force \<Rightarrow> ''force'' | NoClobber \<Rightarrow> ''no-clobber'' | Newer \<Rightarrow> ''newer'')\<rparr>"

record receiver_context =
  rc_api_origin :: string
  rc_profile :: string
  rc_user_id :: "string option"

record identity =
  id_origin :: string
  id_share_id :: string
  id_selection :: "string option"
  id_destination :: string
  id_is_recursive :: bool
  id_is_overwrite :: bool
  id_selection_policy :: "selection_policy option"
  id_api_origin :: "string option"
  id_recipient :: "receiver_context option"

text \<open>The legacy policies a recorded identity without one may stand for.\<close>

definition legacy_policy_allowed :: "identity \<Rightarrow> selection_policy \<Rightarrow> bool" where
  "legacy_policy_allowed recorded policy \<longleftrightarrow>
     (\<not> id_is_recursive recorded \<or> sp_is_include_parent policy)
     \<and> sp_include policy = None \<and> sp_exclude policy = None
     \<and> sp_overwrite policy = (if id_is_overwrite recorded then ''force'' else ''no-clobber'')"

definition matches_expected ::
  "(string \<Rightarrow> (string, client_error) result) \<Rightarrow> identity \<Rightarrow> identity \<Rightarrow> (bool, cli_error) result" where
  "matches_expected derive self expected =
     (let recd = self;
          recd = (if id_selection_policy recd = None then
              (case id_selection_policy expected of
                 None \<Rightarrow> recd
               | Some policy \<Rightarrow>
                   if legacy_policy_allowed recd policy
                   then recd\<lparr>id_selection_policy := Some policy\<rparr> else recd)
            else recd)
      in if id_api_origin recd = None \<and> id_recipient recd = None \<and> id_api_origin expected \<noteq> None
         then try_in (map_err map_ids_error (derive (id_origin recd))) (\<lambda>origin.
                Ok (recd\<lparr>id_api_origin := Some origin\<rparr> = expected))
         else Ok (recd = expected))"

section \<open>The journal\<close>

record journal =
  jn_version :: u32
  jn_identity :: identity
  jn_manifest :: manifest
  jn_completed :: "string option list"

definition bad_digest :: "string \<Rightarrow> bool" where
  "bad_digest digest \<longleftrightarrow> length digest \<noteq> 64 \<or> \<not> list_all is_ascii_hexdigit digest"

definition journal_validate ::
  "(string \<Rightarrow> (string, client_error) result) \<Rightarrow> (string \<Rightarrow> string) \<Rightarrow> journal \<Rightarrow> identity \<Rightarrow>
   (unit, cli_error) result" where
  "journal_validate derive fold_path j ident =
     try_in (if jn_version j \<noteq> 1 then Ok True
             else try_in (matches_expected derive (jn_identity j) ident) (\<lambda>matching. Ok (\<not> matching)))
       (\<lambda>differs.
     if differs then Err (invalid ''checkpoint version or task identity/policy differs'')
     else try_in (manifest_validate fold_path (jn_manifest j)) (\<lambda>_.
     if length (jn_completed j) \<noteq> length (mf_files (jn_manifest j))
        \<or> list_ex (\<lambda>c. case c of None \<Rightarrow> False | Some digest \<Rightarrow> bad_digest digest) (jn_completed j)
     then Err (invalid ''invalid checkpoint completion records'')
     else try_in (validate_selection (jn_manifest j) (id_selection ident) (id_is_recursive ident)) (\<lambda>_.
     (case id_selection_policy (jn_identity j) of
        None \<Rightarrow> Ok ()
      | Some policy \<Rightarrow>
          manifest_validate_options (jn_manifest j) (sp_is_include_parent policy)
            (sp_include policy) (sp_exclude policy)))))"

section \<open>Properties\<close>

text \<open>
  A checkpoint resumes only the task it was written for. A recorded identity matches the
  expected one exactly when origin, share, selection, destination, flags and recipient are
  equal, the selection policy is equal or the unrecorded legacy one it stands for, and the
  API origin is equal or, for an unrecorded anonymous one, derived from the page origin.
\<close>

theorem identity_match_exact:
  "matches_expected derive self expected = Ok True \<longleftrightarrow>
     id_origin self = id_origin expected \<and> id_share_id self = id_share_id expected
     \<and> id_selection self = id_selection expected \<and> id_destination self = id_destination expected
     \<and> id_is_recursive self = id_is_recursive expected
     \<and> id_is_overwrite self = id_is_overwrite expected \<and> id_recipient self = id_recipient expected
     \<and> (id_selection_policy self = id_selection_policy expected
        \<or> (id_selection_policy self = None
           \<and> (\<exists>p. id_selection_policy expected = Some p \<and> legacy_policy_allowed self p)))
     \<and> (id_api_origin self = id_api_origin expected
        \<or> (id_api_origin self = None \<and> id_recipient self = None
           \<and> (\<exists>origin. derive (id_origin self) = Ok origin \<and> id_api_origin expected = Some origin)))"
proof -
  have eq: "a = b \<longleftrightarrow> id_origin a = id_origin b \<and> id_share_id a = id_share_id b
     \<and> id_selection a = id_selection b \<and> id_destination a = id_destination b
     \<and> id_is_recursive a = id_is_recursive b \<and> id_is_overwrite a = id_is_overwrite b
     \<and> id_selection_policy a = id_selection_policy b \<and> id_api_origin a = id_api_origin b
     \<and> id_recipient a = id_recipient b" for a b :: identity
    by (cases a; cases b) auto
  show ?thesis
    unfolding matches_expected_def Let_def
    by (cases "derive (id_origin self)"; cases "id_selection_policy self";
        cases "id_selection_policy expected"; cases "id_api_origin self"; cases "id_api_origin expected")
       (auto simp: eq)
qed

end
