(* ===== verification/Completion_Ledger.thy ===== *)
theory Completion_Ledger
  imports Share_Checkpoint
begin

text \<open>
  \<open>crates/adrive/src/handler/share_completion_ledger.rs\<close>: the immutable snapshot of a share
  download and the append-only ledger of its completions, a 40-byte header followed by
  checksummed 72-byte records. SHA-256, the hexadecimal coding and the serialisations that
  are hashed come from other crates and are the parameter \<open>hashing\<close>; what the code relies
  on of them is \<open>hashing_ok\<close>. The disk is the published snapshot and the bytes of the
  ledger; the outcome of each write (done, failed before or after the bytes reached the
  disk, torn) is chosen by the environment.
\<close>

section \<open>Hashing\<close>

record hashing =
  h_sha256 :: "string \<Rightarrow> string"
  h_journal :: "journal \<Rightarrow> string"
  h_immutable :: "u32 \<times> identity \<times> manifest \<Rightarrow> string"
  h_entry :: "entry \<Rightarrow> string"
  h_encode :: "string \<Rightarrow> string"
  h_decode :: "string \<Rightarrow> string option"

definition hashing_ok :: "hashing \<Rightarrow> bool" where
  "hashing_ok h \<longleftrightarrow>
     (\<forall>x. length (h_sha256 h x) = 32) \<and> (\<forall>j. length (h_journal h j) = 32)
     \<and> (\<forall>b. length b = 32 \<longrightarrow> h_decode h (h_encode h b) = Some b)
     \<and> (\<forall>b. to_ascii_lowercase (h_encode h b) = h_encode h b)
     \<and> (\<forall>s b. h_decode h s = Some b \<longrightarrow> to_ascii_lowercase s = h_encode h b)"

definition digest_bytes :: "hashing \<Rightarrow> string \<Rightarrow> (string, cli_error) result" where
  "digest_bytes h digest =
     (case h_decode h digest of
        None \<Rightarrow> Err (invalid ''invalid completion digest'')
      | Some bytes \<Rightarrow> if length bytes = 32 then Ok bytes else Err (invalid ''invalid completion digest''))"

definition digest_option :: "hashing \<Rightarrow> string option \<Rightarrow> (string option, cli_error) result" where
  "digest_option h c =
     (case c of None \<Rightarrow> Ok None | Some digest \<Rightarrow> try_in (digest_bytes h digest) (\<lambda>b. Ok (Some b)))"

definition completions :: "hashing \<Rightarrow> journal \<Rightarrow> (string option list, cli_error) result" where
  "completions h j = try_map (digest_option h) (jn_completed j)"

section \<open>The disk and the environment\<close>

record ledger_disk =
  ld_snapshot :: "(journal \<times> string option) option"
  ld_ledger :: "string option"

text \<open>Publishing a staged file; a failure may come before or after the rename took effect.\<close>

datatype publish_outcome = Published | PublishFailed bool cli_error

text \<open>Appending a record: done; refused because the file was replaced; failed after \<open>n\<close> bytes.\<close>

datatype append_outcome = Appended | Replaced | AppendFailed nat cli_error

record save_env =
  se_create :: publish_outcome
  se_publish :: publish_outcome
  se_append :: "nat \<Rightarrow> append_outcome"

section \<open>Records\<close>

definition magic :: string where
  "magic = ''ADRCMP01''"

definition ledger_record :: "hashing \<Rightarrow> string \<Rightarrow> nat \<Rightarrow> string \<Rightarrow> string" where
  "ledger_record h binding index digest =
     (let body = le_bytes 8 index @ digest in body @ h_sha256 h (binding @ body))"

section \<open>The writer\<close>

record ledger_writer =
  lw_binding :: string
  lw_is_poisoned :: bool

record ledger_state =
  ls_identity :: identity
  ls_immutable :: string
  ls_entry_fingerprints :: "string list"
  ls_durable_completions :: "string option list"
  ls_binding :: string
  ls_is_snapshot_pending :: bool
  ls_writer :: "ledger_writer option"

definition state_new ::
  "hashing \<Rightarrow> journal \<Rightarrow> string \<Rightarrow> bool \<Rightarrow> (ledger_state, cli_error) result" where
  "state_new h j binding is_snapshot_pending =
     try_in (completions h j) (\<lambda>durable.
       Ok \<lparr>ls_identity = jn_identity j,
           ls_immutable = h_immutable h (jn_version j, jn_identity j, jn_manifest j),
           ls_entry_fingerprints = map (h_entry h) (mf_files (jn_manifest j)),
           ls_durable_completions = durable, ls_binding = binding,
           ls_is_snapshot_pending = is_snapshot_pending, ls_writer = None\<rparr>)"

definition state_fresh ::
  "hashing \<Rightarrow> (string \<Rightarrow> (string, client_error) result) \<Rightarrow> (string \<Rightarrow> string) \<Rightarrow> journal \<Rightarrow>
   (ledger_state, cli_error) result" where
  "state_fresh h derive fold_path j =
     try_in (journal_validate derive fold_path j (jn_identity j)) (\<lambda>_.
       state_new h j (h_journal h j) True)"

definition publish_ledger :: "publish_outcome \<Rightarrow> string \<Rightarrow> ledger_disk \<Rightarrow> (unit, cli_error) result \<times> ledger_disk" where
  "publish_ledger outcome bytes disk =
     (case outcome of
        Published \<Rightarrow> (Ok (), disk\<lparr>ld_ledger := Some bytes\<rparr>)
      | PublishFailed done e \<Rightarrow> (Err e, if done then disk\<lparr>ld_ledger := Some bytes\<rparr> else disk))"

definition durable_records :: "string option list \<Rightarrow> (nat \<times> string) list" where
  "durable_records durable =
     concat (map (\<lambda>(index, c). case c of None \<Rightarrow> [] | Some digest \<Rightarrow> [(index, digest)])
       (zip [0..<length durable] durable))"

definition ledger_bytes :: "hashing \<Rightarrow> string \<Rightarrow> (nat \<times> string) list \<Rightarrow> string" where
  "ledger_bytes h binding recs =
     magic @ binding @ concat (map (\<lambda>(index, digest). ledger_record h binding index digest) recs)"

definition writer_create ::
  "hashing \<Rightarrow> ledger_state \<Rightarrow> bool \<Rightarrow> publish_outcome \<Rightarrow> ledger_disk \<Rightarrow>
   (ledger_writer, cli_error) result \<times> ledger_disk" where
  "writer_create h st is_fresh outcome disk =
     (if is_fresh \<and> ld_ledger disk \<noteq> None
      then (Err (invalid ''completion ledger already exists; choose another checkpoint''), disk)
      else let bytes = ledger_bytes h (ls_binding st)
                 (durable_records (ls_durable_completions st));
               (r, disk) = publish_ledger outcome bytes disk
           in (try_in r (\<lambda>_. Ok \<lparr>lw_binding = ls_binding st, lw_is_poisoned = False\<rparr>), disk))"

definition ensure_usable :: "ledger_writer \<Rightarrow> (unit, cli_error) result" where
  "ensure_usable w =
     (if lw_is_poisoned w
      then Err (invalid ''completion ledger requires resume after a failed append'') else Ok ())"

text \<open>Extend the ledger on disk; it exists whenever a writer does.\<close>

definition extend_ledger :: "string \<Rightarrow> ledger_disk \<Rightarrow> ledger_disk" where
  "extend_ledger bytes disk = disk\<lparr>ld_ledger := map_option (\<lambda>b. b @ bytes) (ld_ledger disk)\<rparr>"

definition writer_append ::
  "hashing \<Rightarrow> nat \<Rightarrow> string \<Rightarrow> append_outcome \<Rightarrow> ledger_writer \<Rightarrow> ledger_disk \<Rightarrow>
   (unit, cli_error) result \<times> ledger_writer \<times> ledger_disk" where
  "writer_append h index digest outcome w disk =
     (case ensure_usable w of
        Err e \<Rightarrow> (Err e, w, disk)
      | Ok _ \<Rightarrow>
          (let w = w\<lparr>lw_is_poisoned := True\<rparr>;
               bytes = ledger_record h (lw_binding w) index digest
           in case outcome of
                Replaced \<Rightarrow>
                  (Err (invalid ''completion ledger was removed, replaced or hard-linked''), w, disk)
              | AppendFailed n e \<Rightarrow> (Err e, w, extend_ledger (take n bytes) disk)
              | Appended \<Rightarrow> (Ok (), w\<lparr>lw_is_poisoned := False\<rparr>, extend_ledger bytes disk)))"

section \<open>The state\<close>

definition check_completion :: "hashing \<Rightarrow> string option \<times> string option \<Rightarrow> (unit, cli_error) result" where
  "check_completion h pair =
     (let (saved, current) = pair
      in try_in (digest_option h current) (\<lambda>current.
           if saved \<noteq> None \<and> saved \<noteq> current
           then Err (invalid ''a durable completion cannot be cleared or changed'') else Ok ()))"

definition check_completions :: "hashing \<Rightarrow> ledger_state \<Rightarrow> journal \<Rightarrow> (unit, cli_error) result" where
  "check_completions h st j =
     (if length (jn_completed j) \<noteq> length (ls_durable_completions st)
      then Err (invalid ''checkpoint completion count changed'')
      else try_each (check_completion h) (zip (ls_durable_completions st) (jn_completed j)))"

definition prepare_writer ::
  "hashing \<Rightarrow> journal \<Rightarrow> bool \<Rightarrow> publish_outcome \<Rightarrow> ledger_state \<Rightarrow> ledger_disk \<Rightarrow>
   (unit, cli_error) result \<times> ledger_state \<times> ledger_disk" where
  "prepare_writer h j is_fresh outcome st disk =
     (case ls_writer st of
        Some w \<Rightarrow>
          (case ensure_usable w of
             Err e \<Rightarrow> (Err e, st, disk)
           | Ok _ \<Rightarrow>
               if ls_is_snapshot_pending st \<and> ls_binding st \<noteq> h_journal h j
               then (Err (invalid ''prepared checkpoint snapshot changed after publication failure''), st, disk)
               else (Ok (), st, disk))
      | None \<Rightarrow>
          (case (if ls_is_snapshot_pending st
                 then (case completions h j of
                         Err e \<Rightarrow> (Err e, st\<lparr>ls_binding := h_journal h j\<rparr>)
                       | Ok durable \<Rightarrow>
                           (Ok (), st\<lparr>ls_binding := h_journal h j, ls_durable_completions := durable\<rparr>))
                 else (Ok (), st)) of
             (Err e, st) \<Rightarrow> (Err e, st, disk)
           | (Ok _, st) \<Rightarrow>
               (case writer_create h st is_fresh outcome disk of
                  (Err e, disk) \<Rightarrow> (Err e, st, disk)
                | (Ok w, disk) \<Rightarrow> (Ok (), st\<lparr>ls_writer := Some w\<rparr>, disk))))"

text \<open>The checks of \<open>save_completion\<close> up to the append, with the decoded digest.\<close>

definition completion_digest ::
  "hashing \<Rightarrow> journal \<Rightarrow> nat \<Rightarrow> ledger_state \<Rightarrow> (ledger_writer \<times> string, cli_error) result" where
  "completion_digest h j index st =
     (if ls_is_snapshot_pending st
      then Err (invalid ''snapshot must be durably saved before completion records'')
      else try_in (ok_or (invalid ''save snapshot before appending completions'') (ls_writer st)) (\<lambda>w.
        try_in (ensure_usable w) (\<lambda>_.
        if jn_version j \<noteq> 1 \<or> jn_identity j \<noteq> ls_identity st
           \<or> length (jn_completed j) \<noteq> length (ls_durable_completions st)
           \<or> length (mf_files (jn_manifest j)) \<noteq> length (ls_entry_fingerprints st)
        then Err (invalid ''checkpoint completion task identity or size differs'')
        else if index \<ge> length (mf_files (jn_manifest j))
        then Err (invalid ''completion index is outside snapshot'')
        else if h_entry h (mf_files (jn_manifest j) ! index) \<noteq> ls_entry_fingerprints st ! index
        then Err (invalid ''completed file fingerprint differs from snapshot'')
        else try_in (ok_or (invalid ''completion digest is missing'') (jn_completed j ! index)) (\<lambda>digest.
          try_in (digest_bytes h digest) (\<lambda>digest. Ok (w, digest))))))"

definition save_completion ::
  "hashing \<Rightarrow> journal \<Rightarrow> nat \<Rightarrow> append_outcome \<Rightarrow> ledger_state \<Rightarrow> ledger_disk \<Rightarrow>
   (unit, cli_error) result \<times> ledger_state \<times> ledger_disk" where
  "save_completion h j index outcome st disk =
     (case completion_digest h j index st of
        Err e \<Rightarrow> (Err e, st, disk)
      | Ok (w, digest) \<Rightarrow>
          (case ls_durable_completions st ! index of
             Some saved \<Rightarrow>
               (if saved = digest then Ok () else Err (invalid ''a durable completion digest changed''),
                st, disk)
           | None \<Rightarrow>
               (case writer_append h index digest outcome w disk of
                  (Err e, w, disk) \<Rightarrow> (Err e, st\<lparr>ls_writer := Some w\<rparr>, disk)
                | (Ok _, w, disk) \<Rightarrow>
                    (Ok (), st\<lparr>ls_writer := Some w,
                               ls_durable_completions := (ls_durable_completions st)[index := Some digest]\<rparr>,
                     disk))))"

fun save_all ::
  "hashing \<Rightarrow> journal \<Rightarrow> (nat \<Rightarrow> append_outcome) \<Rightarrow> nat list \<Rightarrow> ledger_state \<Rightarrow> ledger_disk \<Rightarrow>
   (unit, cli_error) result \<times> ledger_state \<times> ledger_disk" where
  "save_all h j outcomes [] st disk = (Ok (), st, disk)"
| "save_all h j outcomes (index # rest) st disk =
     (if jn_completed j ! index \<noteq> None
      then case save_completion h j index (outcomes index) st disk of
             (Err e, st, disk) \<Rightarrow> (Err e, st, disk)
           | (Ok _, st, disk) \<Rightarrow> save_all h j outcomes rest st disk
      else save_all h j outcomes rest st disk)"

definition publish_snapshot ::
  "hashing \<Rightarrow> journal \<Rightarrow> publish_outcome \<Rightarrow> ledger_state \<Rightarrow> ledger_disk \<Rightarrow>
   (unit, cli_error) result \<times> ledger_state \<times> ledger_disk" where
  "publish_snapshot h j outcome st disk =
     (if ls_is_snapshot_pending st then
        (let snapshot = Some (j, Some (h_encode h (ls_binding st)))
         in case outcome of
              PublishFailed done e \<Rightarrow>
                (Err e, st, if done then disk\<lparr>ld_snapshot := snapshot\<rparr> else disk)
            | Published \<Rightarrow> (Ok (), st\<lparr>ls_is_snapshot_pending := False\<rparr>, disk\<lparr>ld_snapshot := snapshot\<rparr>))
      else (Ok (), st, disk))"

definition ledger_save ::
  "hashing \<Rightarrow> journal \<Rightarrow> bool \<Rightarrow> save_env \<Rightarrow> ledger_state \<Rightarrow> ledger_disk \<Rightarrow>
   (unit, cli_error) result \<times> ledger_state \<times> ledger_disk" where
  "ledger_save h j is_fresh env st disk =
     (if ls_immutable st \<noteq> h_immutable h (jn_version j, jn_identity j, jn_manifest j)
      then (Err (invalid ''checkpoint snapshot metadata changed after initialization''), st, disk)
      else case check_completions h st j of
        Err e \<Rightarrow> (Err e, st, disk)
      | Ok _ \<Rightarrow>
          (case prepare_writer h j is_fresh (se_create env) st disk of
             (Err e, st, disk) \<Rightarrow> (Err e, st, disk)
           | (Ok _, st, disk) \<Rightarrow>
               (case publish_snapshot h j (se_publish env) st disk of
                  (Err e, st, disk) \<Rightarrow> (Err e, st, disk)
                | (Ok _, st, disk) \<Rightarrow>
                    save_all h j (se_append env) [0..<length (jn_completed j)] st disk)))"

section \<open>Loading\<close>

definition merge_record ::
  "hashing \<Rightarrow> string \<Rightarrow> string \<Rightarrow> string option list \<times> bool list \<Rightarrow>
   (string option list \<times> bool list, cli_error) result" where
  "merge_record h bytes binding st =
     (let (completed, seen) = st;
          index = le_value (take 8 bytes);
          digest = take 32 (drop 8 bytes)
      in if index \<ge> length completed \<or> seen ! index \<or> ledger_record h binding index digest \<noteq> bytes
         then Err (invalid ''invalid completion ledger record'')
         else let digest = h_encode h digest
              in if (case completed ! index of
                       None \<Rightarrow> False | Some saved \<Rightarrow> to_ascii_lowercase saved \<noteq> digest)
                 then Err (invalid ''completion ledger conflicts with base snapshot'')
                 else Ok (completed[index := Some digest], seen[index := True]))"

text \<open>The record loop: a final piece shorter than a record ends it and is not credited.\<close>

function merge_loop ::
  "hashing \<Rightarrow> string \<Rightarrow> string \<Rightarrow> string option list \<times> bool list \<Rightarrow> (string option list, cli_error) result" where
  "merge_loop h bytes binding st =
     (if length bytes < 72 then Ok (fst st)
      else try_in (merge_record h (take 72 bytes) binding st) (\<lambda>st.
        merge_loop h (drop 72 bytes) binding st))"
  by pat_completeness auto
termination by (relation "measure (\<lambda>(h, bytes, binding, st). length bytes)") auto

declare merge_loop.simps [simp del]

definition ledger_limit :: "nat \<Rightarrow> nat" where
  "ledger_limit n = min u64_max (min u64_max (40 + min u64_max (n * 72)) + 71)"

definition merge ::
  "hashing \<Rightarrow> string \<Rightarrow> string \<Rightarrow> string option \<Rightarrow> string option list \<Rightarrow>
   (string option list, cli_error) result" where
  "merge h bytes binding migration_binding completed =
     (if length bytes > ledger_limit (length completed)
      then Err (invalid ''completion ledger exceeds its snapshot record bound'')
      else if length bytes < 40 then Err (invalid ''incomplete completion ledger header'')
      else let recorded_binding = drop 8 (take 40 bytes)
           in if take 8 bytes \<noteq> magic
                 \<or> (recorded_binding \<noteq> binding \<and> migration_binding \<noteq> Some recorded_binding)
              then Err (invalid ''completion ledger belongs to a different snapshot'')
              else merge_loop h (drop 40 bytes) recorded_binding
                     (completed, replicate (length completed) False))"

definition normalize_identity :: "journal \<Rightarrow> identity \<Rightarrow> journal" where
  "normalize_identity j expected =
     (if id_selection_policy (jn_identity j) \<noteq> None then j\<lparr>jn_identity := expected\<rparr>
      else if id_api_origin (jn_identity j) = None
      then j\<lparr>jn_identity := (jn_identity j)\<lparr>id_api_origin := id_api_origin expected\<rparr>\<rparr>
      else j)"

text \<open>
  Loading reads the ledger on disk; a writer of this process that holds it open reads the same
  bytes, after the check that it is still the same file.
\<close>

definition ledger_load ::
  "hashing \<Rightarrow> (string \<Rightarrow> (string, client_error) result) \<Rightarrow> (string \<Rightarrow> string) \<Rightarrow> identity \<Rightarrow>
   ledger_disk \<Rightarrow> (journal \<times> ledger_state, cli_error) result" where
  "ledger_load h derive fold_path ident disk =
     try_in (ok_or (invalid ''invalid checkpoint JSON/schema'') (ld_snapshot disk)) (\<lambda>(j, marker).
     try_in (journal_validate derive fold_path j ident) (\<lambda>_.
     let binding = h_journal h j
     in if (case marker of None \<Rightarrow> False | Some m \<Rightarrow> m \<noteq> h_encode h binding)
        then Err (invalid ''completion ledger snapshot binding differs'')
        else let j = normalize_identity j ident;
                 migration_binding = (if marker = None then Some (h_journal h j) else None)
             in try_in (case ld_ledger disk of
                    Some bytes \<Rightarrow> merge h bytes binding migration_binding (jn_completed j)
                  | None \<Rightarrow> if marker \<noteq> None
                            then Err (invalid ''checkpoint completion ledger is missing'')
                            else Ok (jn_completed j)) (\<lambda>completed.
                let j = j\<lparr>jn_completed := completed\<rparr>
                in try_in (state_new h j binding (marker = None)) (\<lambda>st. Ok (j, st)))))"

section \<open>Lemmas: records\<close>

lemma length_record:
  assumes "hashing_ok h" and "length digest = 32"
  shows "length (ledger_record h binding index digest) = 72"
  using assms by (simp add: ledger_record_def Let_def hashing_ok_def)

lemma record_fields:
  assumes "length digest = 32" and "index < 256 ^ 8"
  shows "le_value (take 8 (ledger_record h binding index digest)) = index"
    and "take 32 (drop 8 (ledger_record h binding index digest)) = digest"
  using le_value_bytes [OF assms(2)] assms(1) by (simp_all add: ledger_record_def Let_def)

definition credit :: "hashing \<Rightarrow> (nat \<times> string) list \<Rightarrow> string option list \<Rightarrow> string option list" where
  "credit h recs completed = fold (\<lambda>(i, d) c. c[i := Some (h_encode h d)]) recs completed"

lemma length_credit [simp]: "length (credit h recs completed) = length completed"
  unfolding credit_def by (induction recs arbitrary: completed) auto

lemma credit_nth:
  "distinct (map fst recs) \<Longrightarrow> i < length completed \<Longrightarrow>
   credit h recs completed ! i =
     (case map_of recs i of None \<Rightarrow> completed ! i | Some d \<Rightarrow> Some (h_encode h d))"
proof (induction recs arbitrary: completed)
  case Nil
  then show ?case by (simp add: credit_def)
next
  case (Cons r recs)
  obtain j d where r: "r = (j, d)" by (cases r)
  have "credit h (r # recs) completed ! i = credit h recs (completed[j := Some (h_encode h d)]) ! i"
    by (simp add: credit_def r)
  also have "\<dots> = (case map_of recs i of None \<Rightarrow> completed[j := Some (h_encode h d)] ! i
      | Some d \<Rightarrow> Some (h_encode h d))" using Cons.prems by (intro Cons.IH) (simp_all add: r)
  finally have step: "credit h (r # recs) completed ! i =
      (case map_of recs i of None \<Rightarrow> completed[j := Some (h_encode h d)] ! i
       | Some d \<Rightarrow> Some (h_encode h d))" .
  show ?case
  proof (cases "i = j")
    case True
    then have "map_of recs i = None" using Cons.prems(1) r by (auto simp: map_of_eq_None_iff)
    then show ?thesis unfolding step using True r Cons.prems(2) by simp
  next
    case False
    then show ?thesis unfolding step using r by (auto split: option.split)
  qed
qed

definition record_fits :: "hashing \<Rightarrow> string option list \<Rightarrow> nat \<times> string \<Rightarrow> bool" where
  "record_fits h completed rc \<longleftrightarrow> (case rc of (i, d) \<Rightarrow>
     i < length completed \<and> length d = 32
     \<and> (case completed ! i of None \<Rightarrow> True | Some s \<Rightarrow> to_ascii_lowercase s = h_encode h d))"

lemma merge_genuine:
  assumes "hashing_ok h" and "length completed \<le> u64_max" and "record_fits h completed (i, d)" and "\<not> seen ! i"
  shows "merge_record h (ledger_record h binding i d) binding (completed, seen) =
    Ok (completed[i := Some (h_encode h d)], seen[i := True])"
proof -
  have d: "length d = 32" and i: "i < length completed" using assms(3) by (auto simp: record_fits_def)
  have "i < 256 ^ 8" using i assms(2) by (simp add: u64_max_def)
  note f = record_fields [OF d this]
  show ?thesis using assms(3,4) i
    by (auto simp: merge_record_def Let_def f record_fits_def split: option.splits)
qed

lemma merge_loop_records:
  assumes h: "hashing_ok h" and "length tail < 72"
  shows "length completed \<le> u64_max \<Longrightarrow> length seen = length completed \<Longrightarrow> distinct (map fst recs) \<Longrightarrow>
    list_all (record_fits h completed) recs \<Longrightarrow> list_all (\<lambda>(i, d). \<not> seen ! i) recs \<Longrightarrow>
    merge_loop h (concat (map (\<lambda>(i, d). ledger_record h binding i d) recs) @ tail) binding (completed, seen)
      = Ok (credit h recs completed)"
proof (induction recs arbitrary: completed seen)
  case Nil
  then show ?case using assms(2) by (simp add: merge_loop.simps credit_def)
next
  case (Cons r recs)
  obtain i d where r: "r = (i, d)" by (cases r)
  let ?rec = "ledger_record h binding i d"
  let ?rest = "concat (map (\<lambda>(i, d). ledger_record h binding i d) recs) @ tail"
  let ?c = "completed[i := Some (h_encode h d)]" and ?s = "seen[i := True]"
  have fit: "record_fits h completed (i, d)" and ns: "\<not> seen ! i" using Cons.prems r by auto
  have d: "length d = 32" and i: "i < length completed" using fit by (auto simp: record_fits_def)
  have len: "length ?rec = 72" by (rule length_record [OF h d])
  have other: "j \<noteq> i" if "(j, e) \<in> set recs" for j e
    using Cons.prems(3) r that by (force simp: rev_image_eqI)
  have "list_all (record_fits h ?c) recs" "list_all (\<lambda>(j, e). \<not> ?s ! j) recs"
    using Cons.prems(4,5) other by (fastforce simp: list_all_iff record_fits_def)+
  then have IH: "merge_loop h ?rest binding (?c, ?s) = Ok (credit h recs ?c)"
    using Cons.prems by (intro Cons.IH) auto
  have "merge_loop h (?rec @ ?rest) binding (completed, seen) =
      try_in (merge_record h ?rec binding (completed, seen)) (\<lambda>st. merge_loop h ?rest binding st)"
    using len by (subst merge_loop.simps) simp
  also have "\<dots> = Ok (credit h recs ?c)"
    using merge_genuine [OF h Cons.prems(1) fit ns] IH by simp
  finally show ?case by (simp add: r credit_def)
qed

lemma merge_records:
  assumes h: "hashing_ok h" and tail: "length tail < 72" and b: "length binding = 32"
    and small: "111 + 72 * length completed \<le> u64_max"
    and recs: "distinct (map fst recs)" "list_all (record_fits h completed) recs"
  shows "merge h (ledger_bytes h binding recs @ tail) binding mig completed = Ok (credit h recs completed)"
proof -
  let ?bytes = "ledger_bytes h binding recs @ tail"
  let ?body = "concat (map (\<lambda>(i, d). ledger_record h binding i d) recs)"
  have m: "length magic = 8" by (simp add: magic_def)
  have body: "length ?body = 72 * length recs"
    using recs(2) length_record [OF h]
    by (induction recs) (auto simp: record_fits_def algebra_simps split: prod.splits)
  have "set (map fst recs) \<subseteq> {..<length completed}"
    using recs(2) by (auto simp: list_all_iff record_fits_def)
  then have "card (set (map fst recs)) \<le> length completed"
    using card_mono [of "{..<length completed}"] by fastforce
  then have n: "length recs \<le> length completed" using distinct_card [OF recs(1)] by simp
  have len: "length ?bytes = 40 + 72 * length recs + length tail"
    using m b body by (simp add: ledger_bytes_def)
  have "length ?bytes \<le> ledger_limit (length completed)"
    using len n tail small by (simp add: ledger_limit_def min_def)
  moreover have "\<not> length ?bytes < 40" using len by simp
  moreover have "take 8 ?bytes = magic" and "drop 8 (take 40 ?bytes) = binding"
    and "drop 40 ?bytes = ?body @ tail"
    using m b by (simp_all add: ledger_bytes_def)
  moreover have "merge_loop h (?body @ tail) binding (completed, replicate (length completed) False)
      = Ok (credit h recs completed)"
    by (rule merge_loop_records [OF h tail])
       (use small recs in \<open>auto simp: list_all_iff record_fits_def\<close>)
  ultimately show ?thesis by (simp add: merge_def Let_def)
qed

section \<open>Lemmas: the invariant of an open ledger\<close>

text \<open>
  Every durable completion has its record; beyond these, and only once the writer is
  poisoned, there is at most one further record and a torn tail.
\<close>

definition ledger_holds ::
  "hashing \<Rightarrow> string option list \<Rightarrow> ledger_state \<Rightarrow> ledger_disk \<Rightarrow> ledger_writer \<Rightarrow>
   (nat \<times> string) list \<Rightarrow> string \<Rightarrow> nat \<Rightarrow> bool" where
  "ledger_holds h base st disk w recs tail extra \<longleftrightarrow>
     ls_writer st = Some w \<and> lw_binding w = ls_binding st \<and> length (ls_binding st) = 32
     \<and> length (ls_durable_completions st) = length base
     \<and> length (ls_entry_fingerprints st) = length base
     \<and> ld_ledger disk = Some (ledger_bytes h (ls_binding st) recs @ tail) \<and> length tail < 72
     \<and> distinct (map fst recs) \<and> list_all (record_fits h base) recs
     \<and> (\<forall>i < length base. \<forall>d. ls_durable_completions st ! i = Some d \<longrightarrow> (i, d) \<in> set recs)
     \<and> (\<forall>i d. (i, d) \<in> set recs \<longrightarrow>
          ls_durable_completions st ! i = Some d \<or> (lw_is_poisoned w \<and> i = extra))
     \<and> (\<forall>i < length base. base ! i \<noteq> None \<longrightarrow> ls_durable_completions st ! i \<noteq> None)
     \<and> (\<not> lw_is_poisoned w \<longrightarrow> tail = [])"

lemma ledger_holdsI:
  assumes "length b = 32" and "length D = length base" and "length fp = length base"
    and "ld_ledger disk = Some (ledger_bytes h b recs @ tail)" and "length tail < 72"
    and "distinct (map fst recs)" and "list_all (record_fits h base) recs"
    and "\<And>i d. i < length base \<Longrightarrow> D ! i = Some d \<Longrightarrow> (i, d) \<in> set recs"
    and "\<And>i d. (i, d) \<in> set recs \<Longrightarrow> D ! i = Some d \<or> (p \<and> i = extra)"
    and "\<And>i. i < length base \<Longrightarrow> base ! i \<noteq> None \<Longrightarrow> D ! i \<noteq> None"
    and "p \<or> tail = []"
    and "ls_writer st = Some w" and "lw_binding w = b" and "lw_is_poisoned w = p"
    and "ls_binding st = b" and "ls_durable_completions st = D" and "ls_entry_fingerprints st = fp"
  shows "ledger_holds h base st disk w recs tail extra"
  unfolding ledger_holds_def assms(12-17) using assms(1-11) assms(13,14) by blast

definition ledger_inv :: "hashing \<Rightarrow> string option list \<Rightarrow> ledger_state \<Rightarrow> ledger_disk \<Rightarrow> bool" where
  "ledger_inv h base st disk \<longleftrightarrow> (\<exists>w recs tail extra. ledger_holds h base st disk w recs tail extra)"

lemma ledger_bytes_snoc:
  "ledger_bytes h binding (recs @ [(i, d)]) = ledger_bytes h binding recs @ ledger_record h binding i d"
  by (simp add: ledger_bytes_def)

lemma digest_bytes_Ok:
  "digest_bytes h s = Ok d \<longleftrightarrow> h_decode h s = Some d \<and> length d = 32"
  by (auto simp: digest_bytes_def split: option.splits)

lemma completion_digest_Ok:
  assumes "completion_digest h j index st = Ok (w, d)"
  shows "\<not> ls_is_snapshot_pending st \<and> ls_writer st = Some w \<and> \<not> lw_is_poisoned w
    \<and> length (jn_completed j) = length (ls_durable_completions st)
    \<and> index < length (ls_entry_fingerprints st)
    \<and> (\<exists>s. jn_completed j ! index = Some s \<and> digest_bytes h s = Ok d)"
  using assms
  by (auto simp: completion_digest_def try_in_Ok_iff ensure_usable_def split: if_splits)

lemma append_holds:
  assumes h: "hashing_ok h"
    and inv: "ledger_holds h base st disk w recs tail extra" and use: "\<not> lw_is_poisoned w"
    and i: "index < length base" and d: "length d = 32"
    and new: "ls_durable_completions st ! index = None"
  shows "case writer_append h index d outcome w disk of
      (Ok _, w', disk') \<Rightarrow> ledger_inv h base (st\<lparr>ls_writer := Some w',
         ls_durable_completions := (ls_durable_completions st)[index := Some d]\<rparr>) disk'
    | (Err _, w', disk') \<Rightarrow> ledger_inv h base (st\<lparr>ls_writer := Some w'\<rparr>) disk'"
proof -
  let ?b = "ls_binding st" and ?D = "ls_durable_completions st"
  let ?rec = "ledger_record h ?b index d"
  have wb: "lw_binding w = ?b" and tail: "tail = []"
    and led: "ld_ledger disk = Some (ledger_bytes h ?b recs)"
    using inv use by (auto simp: ledger_holds_def)
  have len: "length ?rec = 72" by (rule length_record [OF h d])
  have D: "length ?D = length base"
    and rec_of: "\<And>j e. j < length base \<Longrightarrow> ?D ! j = Some e \<Longrightarrow> (j, e) \<in> set recs"
    and of_rec: "\<And>j e. (j, e) \<in> set recs \<Longrightarrow> ?D ! j = Some e"
    and base: "\<And>j. j < length base \<Longrightarrow> base ! j \<noteq> None \<Longrightarrow> ?D ! j \<noteq> None"
    using inv use unfolding ledger_holds_def by blast+
  have fresh: "index \<notin> fst ` set recs" using of_rec new by fastforce
  have fit: "record_fits h base (index, d)"
    using base [OF i] i d new by (auto simp: record_fits_def split: option.split)
  have rec_of': "(j, e) \<in> set (recs @ [(index, d)])"
    if "j < length base" "?D[index := Some d] ! j = Some e" for j e
    using that rec_of D i by (cases "j = index") auto
  have of_rec': "?D[index := Some d] ! j = Some e" if je: "(j, e) \<in> set (recs @ [(index, d)])" for j e
  proof (cases "(j, e) \<in> set recs")
    case True
    then have "j \<noteq> index" using fresh by force
    then show ?thesis using of_rec [OF True] by simp
  next
    case False
    then show ?thesis using je D i by simp
  qed
  have base': "?D[index := Some d] ! j \<noteq> None" if "j < length base" "base ! j \<noteq> None" for j
    using base [OF that] D i by (cases "j = index") auto
  have inv_dist: "distinct (map fst recs)" and inv_fit: "list_all (record_fits h base) recs"
    and len32: "length ?b = 32" and fps: "length (ls_entry_fingerprints st) = length base"
    using inv unfolding ledger_holds_def by blast+
  have dist: "distinct (map fst (recs @ [(index, d)]))" using inv_dist fresh by simp
  have fits: "list_all (record_fits h base) (recs @ [(index, d)])" using inv_fit fit by simp
  let ?w = "w\<lparr>lw_is_poisoned := True\<rparr>"
  have grown: "ld_ledger (extend_ledger ?rec disk) = Some (ledger_bytes h ?b (recs @ [(index, d)]) @ [])"
    by (simp add: extend_ledger_def led ledger_bytes_snoc)
  have cut: "ld_ledger (extend_ledger (take n ?rec) disk) = Some (ledger_bytes h ?b recs @ take n ?rec)" for n
    by (simp add: extend_ledger_def led)
  have D': "length (?D[index := Some d]) = length base" using D by simp
  have credited: "?D ! j = Some e \<or> False \<and> j = extra" if "(j, e) \<in> set recs" for j e
    using of_rec [OF that] by simp
  have credited': "?D[index := Some d] ! j = Some e \<or> False \<and> j = extra"
    if "(j, e) \<in> set (recs @ [(index, d)])" for j e using of_rec' [OF that] by simp
  have one_more: "?D ! j = Some e \<or> True \<and> j = x"
    if "(j, e) \<in> set (recs @ [(index, d)])" and "x = index" for j e x
    using that of_rec by auto
  have more: "(j, e) \<in> set (recs @ [(index, d)])" if "j < length base" "?D ! j = Some e" for j e
    using rec_of [OF that] by simp
  have ok: "ledger_holds h base (st\<lparr>ls_writer := Some w, ls_durable_completions := ?D[index := Some d]\<rparr>)
      (extend_ledger ?rec disk) w (recs @ [(index, d)]) [] extra"
    by (rule ledger_holdsI [OF len32 D' fps grown _ dist fits rec_of' credited' base'])
       (use wb use in simp_all)
  have led': "ld_ledger disk = Some (ledger_bytes h ?b recs @ [])" using led by simp
  have kept: "ledger_holds h base (st\<lparr>ls_writer := Some ?w\<rparr>) disk ?w recs [] extra"
    by (rule ledger_holdsI [where p = True, OF len32 D fps led' _ inv_dist inv_fit rec_of _ base])
       (use wb of_rec in simp_all)
  have torn: "ledger_holds h base (st\<lparr>ls_writer := Some ?w\<rparr>) (extend_ledger (take n ?rec) disk) ?w
      recs (take n ?rec) extra" if "n < 72" for n
    by (rule ledger_holdsI [where p = True, OF len32 D fps cut _ inv_dist inv_fit rec_of _ base])
       (use wb of_rec len that in simp_all)
  have whole: "ledger_holds h base (st\<lparr>ls_writer := Some ?w\<rparr>) (extend_ledger ?rec disk) ?w
      (recs @ [(index, d)]) [] index"
    by (rule ledger_holdsI [OF len32 D fps grown _ dist fits more one_more base])
       (use wb in simp_all)
  have torn_or_whole: "ledger_inv h base (st\<lparr>ls_writer := Some (w\<lparr>lw_is_poisoned := True\<rparr>)\<rparr>)
      (extend_ledger (take n ?rec) disk)" for n
  proof (cases "n < 72")
    case True
    then show ?thesis using torn unfolding ledger_inv_def by blast
  next
    case False
    then have "take n ?rec = ?rec" using len by simp
    then show ?thesis using whole unfolding ledger_inv_def by metis
  qed
  have inv_ok: "ledger_inv h base (st\<lparr>ls_writer := Some w, ls_durable_completions := ?D[index := Some d]\<rparr>)
      (extend_ledger ?rec disk)" using ok unfolding ledger_inv_def by blast
  show ?thesis
  proof (cases outcome)
    case Appended
    then have "writer_append h index d outcome w disk = (Ok (), w, extend_ledger ?rec disk)"
      using use wb by (cases w) (simp add: writer_append_def ensure_usable_def Let_def)
    then show ?thesis using inv_ok by simp
  next
    case Replaced
    then show ?thesis using use kept
      by (auto simp: writer_append_def ensure_usable_def wb ledger_inv_def Let_def)
  next
    case (AppendFailed n e)
    then show ?thesis using use torn_or_whole
      by (simp add: writer_append_def ensure_usable_def wb Let_def)
  qed
qed

lemma save_completion_inv:
  assumes h: "hashing_ok h" and inv: "ledger_inv h base st disk"
    and run: "save_completion h j index outcome st disk = (r, st', disk')"
  shows "ledger_inv h base st' disk'"
proof (cases "completion_digest h j index st")
  case (Err e)
  then show ?thesis using run inv by (simp add: save_completion_def)
next
  case (Ok wd)
  obtain w d where wd: "wd = (w, d)" by (cases wd)
  note facts = completion_digest_Ok [OF Ok [unfolded wd]]
  obtain w0 recs tail extra where holds: "ledger_holds h base st disk w0 recs tail extra"
    using inv by (auto simp: ledger_inv_def)
  have w0: "w0 = w" using holds facts by (simp add: ledger_holds_def)
  have i: "index < length base" using holds facts by (simp add: ledger_holds_def)
  have d: "length d = 32" using facts by (auto simp: digest_bytes_Ok)
  show ?thesis
  proof (cases "ls_durable_completions st ! index")
    case (Some saved)
    then show ?thesis using run inv Ok wd by (simp add: save_completion_def)
  next
    case None
    have use: "\<not> lw_is_poisoned w" using facts by blast
    obtain r1 w1 d1 where a: "writer_append h index d outcome w disk = (r1, w1, d1)"
      by (cases "writer_append h index d outcome w disk") auto
    show ?thesis
      using append_holds [OF h holds [unfolded w0] use i d None, of outcome] run Ok wd None a
      by (cases r1) (auto simp: save_completion_def)
  qed
qed

lemma writer_append_snapshot:
  "writer_append h index d outcome w disk = (r, w', disk') \<Longrightarrow> ld_snapshot disk' = ld_snapshot disk"
  by (auto simp: writer_append_def extend_ledger_def Let_def split: result.splits append_outcome.splits)

lemma save_completion_frame:
  assumes "save_completion h j index outcome st disk = (r, st', disk')"
  shows "ld_snapshot disk' = ld_snapshot disk \<and> ls_binding st' = ls_binding st
    \<and> ls_identity st' = ls_identity st \<and> ls_is_snapshot_pending st' = ls_is_snapshot_pending st
    \<and> length (ls_durable_completions st') = length (ls_durable_completions st)
    \<and> (\<forall>i d. i < length (ls_durable_completions st) \<longrightarrow> ls_durable_completions st ! i = Some d \<longrightarrow>
          ls_durable_completions st' ! i = Some d)"
proof -
  have keep: "D[index := Some d] ! i = Some e" if "D ! index = None" "D ! i = Some e" for D :: "string option list" and d e i
    using that by (metis nth_list_update_neq option.distinct(1))
  show ?thesis
    using assms keep
    by (auto simp: save_completion_def split: result.splits option.splits prod.splits
        dest: writer_append_snapshot)
qed

text \<open>Any sequence of attempts to save completions, each with its outcome.\<close>

fun run_completions ::
  "hashing \<Rightarrow> (journal \<times> nat \<times> append_outcome) list \<Rightarrow> ledger_state \<Rightarrow> ledger_disk \<Rightarrow>
   ledger_state \<times> ledger_disk" where
  "run_completions h [] st disk = (st, disk)"
| "run_completions h ((j, index, outcome) # ops) st disk =
     (case save_completion h j index outcome st disk of (r, st, disk) \<Rightarrow> run_completions h ops st disk)"

lemma run_completions_inv:
  "run_completions h ops st disk = (st', disk') \<Longrightarrow> hashing_ok h \<Longrightarrow> ledger_inv h base st disk \<Longrightarrow>
   ledger_inv h base st' disk' \<and> ld_snapshot disk' = ld_snapshot disk \<and> ls_binding st' = ls_binding st"
proof (induction ops arbitrary: st disk)
  case Nil
  then show ?case by simp
next
  case (Cons op ops)
  obtain j index outcome where op: "op = (j, index, outcome)" by (cases op) auto
  obtain r st1 disk1 where s: "save_completion h j index outcome st disk = (r, st1, disk1)"
    by (cases "save_completion h j index outcome st disk") auto
  have "run_completions h ops st1 disk1 = (st', disk')" using Cons.prems(1) op s by simp
  then show ?case
    using Cons.IH [of st1 disk1] save_completion_inv [OF Cons.prems(2,3) s] save_completion_frame [OF s]
      Cons.prems(2) by simp
qed

lemma ledger_inv_merge:
  assumes h: "hashing_ok h" and inv: "ledger_inv h base st disk"
    and small: "111 + 72 * length base \<le> u64_max"
  shows "\<exists>bytes c extra. ld_ledger disk = Some bytes \<and> (\<forall>mig. merge h bytes (ls_binding st) mig base = Ok c)
    \<and> length c = length base
    \<and> (\<forall>i d. i < length base \<longrightarrow> ls_durable_completions st ! i = Some d \<longrightarrow> c ! i = Some (h_encode h d))
    \<and> (\<forall>i. i < length base \<longrightarrow> i \<noteq> extra \<longrightarrow> ls_durable_completions st ! i = None \<longrightarrow> c ! i = None)
    \<and> (\<forall>i s. i < length base \<longrightarrow> c ! i = Some s \<longrightarrow> (\<exists>d. length d = 32 \<and> s = h_encode h d))"
proof -
  obtain w recs tail extra where holds: "ledger_holds h base st disk w recs tail extra"
    using inv by (auto simp: ledger_inv_def)
  let ?c = "credit h recs base"
  have b: "length (ls_binding st) = 32" and t: "length tail < 72" and dis: "distinct (map fst recs)"
    and fit: "list_all (record_fits h base) recs"
    and led: "ld_ledger disk = Some (ledger_bytes h (ls_binding st) recs @ tail)"
    using holds by (auto simp: ledger_holds_def)
  have nth: "?c ! i = (case map_of recs i of None \<Rightarrow> base ! i | Some d \<Rightarrow> Some (h_encode h d))"
    if "i < length base" for i by (rule credit_nth [OF dis that])
  have durable: "?c ! i = Some (h_encode h d)"
    if "i < length base" "ls_durable_completions st ! i = Some d" for i d
    using holds that nth [OF that(1)] map_of_is_SomeI [OF dis, of i d] by (auto simp: ledger_holds_def)
  have base: "base ! i = None" if "i < length base" "ls_durable_completions st ! i = None" for i
    using holds that by (auto simp: ledger_holds_def)
  have other: "?c ! i = None"
    if i: "i < length base" "i \<noteq> extra" "ls_durable_completions st ! i = None" for i
  proof -
    have "(i, e) \<notin> set recs" for e using holds i unfolding ledger_holds_def by fastforce
    then have "map_of recs i = None" by (auto simp: map_of_eq_None_iff)
    then show ?thesis using nth [OF i(1)] base [OF i(1,3)] by simp
  qed
  have coded: "\<exists>d. length d = 32 \<and> s = h_encode h d" if i: "i < length base" "?c ! i = Some s" for i s
  proof (cases "map_of recs i")
    case (Some d)
    then have "(i, d) \<in> set recs" by (rule map_of_SomeD)
    then have "length d = 32" using fit by (auto simp: list_all_iff record_fits_def)
    then show ?thesis using nth [OF i(1)] i(2) Some by auto
  next
    case None
    then have bi: "base ! i = Some s" using nth [OF i(1)] i(2) by simp
    then have "ls_durable_completions st ! i \<noteq> None" using base [OF i(1)] by fastforce
    then obtain d where "(i, d) \<in> set recs" using holds i(1) by (auto simp: ledger_holds_def)
    then have False using None by (auto simp: map_of_eq_None_iff image_iff)
    then show ?thesis ..
  qed
  have "merge h (ledger_bytes h (ls_binding st) recs @ tail) (ls_binding st) mig base = Ok ?c" for mig
    by (rule merge_records [OF h t b small dis fit])
  then show ?thesis using led durable other coded length_credit by blast
qed

section \<open>Lemmas: from a fresh journal to a recovered one\<close>

lemma durable_records_snoc:
  "durable_records (D @ [c]) =
     durable_records D @ (case c of None \<Rightarrow> [] | Some d \<Rightarrow> [(length D, d)])"
  by (simp add: durable_records_def split: option.split)

lemma set_durable_records: "(i, d) \<in> set (durable_records D) \<longleftrightarrow> i < length D \<and> D ! i = Some d"
proof (induction D rule: rev_induct)
  case Nil
  then show ?case by (simp add: durable_records_def)
next
  case (snoc c D)
  then show ?case
    by (cases c) (auto simp: durable_records_snoc nth_append less_Suc_eq)
qed

lemma distinct_durable_records: "distinct (map fst (durable_records D))"
proof (induction D rule: rev_induct)
  case Nil
  then show ?case by (simp add: durable_records_def)
next
  case (snoc c D)
  have "length D \<notin> fst ` set (durable_records D)" by (auto simp: set_durable_records)
  then show ?case using snoc by (cases c) (auto simp: durable_records_snoc)
qed

lemma digest_option_Ok:
  "digest_option h c = Ok e \<longleftrightarrow>
     (c = None \<and> e = None) \<or> (\<exists>s d. c = Some s \<and> e = Some d \<and> h_decode h s = Some d \<and> length d = 32)"
  by (cases c) (auto simp: digest_option_def try_in_Ok_iff digest_bytes_Ok)

lemma completions_nth:
  assumes "completions h j = Ok D"
  shows "length D = length (jn_completed j)"
    and "i < length D \<Longrightarrow> digest_option h (jn_completed j ! i) = Ok (D ! i)"
  using assms by (auto simp: completions_def try_map_Ok_iff list_all2_conv_all_nth)

lemma save_all_inv:
  "save_all h j outcomes is st disk = (r, st', disk') \<Longrightarrow> hashing_ok h \<Longrightarrow> ledger_inv h base st disk \<Longrightarrow>
   ledger_inv h base st' disk' \<and> ld_snapshot disk' = ld_snapshot disk \<and> ls_binding st' = ls_binding st"
proof (induction "is" arbitrary: st disk)
  case Nil
  then show ?case by simp
next
  case (Cons i rest)
  show ?case
  proof (cases "jn_completed j ! i")
    case None
    then show ?thesis using Cons by simp
  next
    case (Some c)
    obtain r1 st1 disk1 where s: "save_completion h j i (outcomes i) st disk = (r1, st1, disk1)"
      by (cases "save_completion h j i (outcomes i) st disk") auto
    note inv = save_completion_inv [OF Cons.prems(2,3) s] and frame = save_completion_frame [OF s]
    show ?thesis
    proof (cases r1)
      case (Err e)
      then show ?thesis using Cons.prems(1) s Some inv frame by simp
    next
      case (Ok u)
      then have "save_all h j outcomes rest st1 disk1 = (r, st', disk')" using Cons.prems(1) s Some by simp
      then show ?thesis using Cons.IH [OF _ Cons.prems(2) inv] frame by simp
    qed
  qed
qed

lemma created_inv:
  assumes h: "hashing_ok h" and D: "completions h j = Ok D"
    and files: "length (jn_completed j) = length (ls_entry_fingerprints st)"
    and st: "ls_binding st = h_journal h j" "ls_durable_completions st = D"
    and created: "writer_create h st True outcome disk = (Ok w, disk')"
  shows "ledger_inv h (jn_completed j) (st\<lparr>ls_writer := Some w\<rparr>) disk'
    \<and> ld_snapshot disk' = ld_snapshot disk"
proof -
  let ?b = "h_journal h j" and ?base = "jn_completed j"
  note nth = completions_nth [OF D]
  have b: "length ?b = 32" using h by (simp add: hashing_ok_def)
  have w: "w = \<lparr>lw_binding = ?b, lw_is_poisoned = False\<rparr>"
    and disk': "ld_ledger disk' = Some (ledger_bytes h ?b (durable_records D) @ [])"
      "ld_snapshot disk' = ld_snapshot disk"
    using created st
    by (auto simp: writer_create_def Let_def publish_ledger_def
        split: if_splits publish_outcome.splits)
  have entry: "digest_option h (?base ! i) = Ok (D ! i)" if "i < length ?base" for i
    using nth that by simp
  have fits: "list_all (record_fits h ?base) (durable_records D)"
    unfolding list_all_iff
  proof
    fix x assume x: "x \<in> set (durable_records D)"
    obtain i d where xd: "x = (i, d)" by (cases x)
    then have "i < length ?base" "D ! i = Some d" using x set_durable_records nth(1) by auto
    then show "record_fits h ?base x"
      using entry [of i] h by (auto simp: digest_option_Ok record_fits_def xd hashing_ok_def)
  qed
  have rec_of: "(i, d) \<in> set (durable_records D)" if "i < length ?base" "D ! i = Some d" for i d
    using that nth(1) by (simp add: set_durable_records)
  have of_rec: "D ! i = Some d \<or> False \<and> i = extra" if "(i, d) \<in> set (durable_records D)" for i d extra
    using that by (simp add: set_durable_records)
  have base: "D ! i \<noteq> None" if "i < length ?base" "?base ! i \<noteq> None" for i
    using entry [OF that(1)] that(2) by (auto simp: digest_option_Ok)
  have "ledger_holds h ?base (st\<lparr>ls_writer := Some w\<rparr>) disk' w (durable_records D) [] 0"
    by (rule ledger_holdsI [OF b nth(1) files [symmetric] disk'(1) _ distinct_durable_records fits rec_of of_rec base])
       (use st w in simp_all)
  then show ?thesis using disk'(2) unfolding ledger_inv_def by blast
qed

lemma first_save:
  assumes h: "hashing_ok h" and fresh: "state_fresh h derive fold_path j = Ok st0"
    and saved: "ledger_save h j True env st0 disk0 = (Ok (), st1, disk1)"
  shows "ledger_inv h (jn_completed j) st1 disk1
    \<and> ld_snapshot disk1 = Some (j, Some (h_encode h (h_journal h j))) \<and> ls_binding st1 = h_journal h j"
proof -
  let ?b = "h_journal h j"
  obtain D where valid: "journal_validate derive fold_path j (jn_identity j) = Ok ()" and D: "completions h j = Ok D"
    and st0: "ls_writer st0 = None" "ls_is_snapshot_pending st0"
      "ls_entry_fingerprints st0 = map (h_entry h) (mf_files (jn_manifest j))"
    using fresh by (auto simp: state_fresh_def state_new_def try_in_Ok_iff)
  have len: "length (jn_completed j) = length (mf_files (jn_manifest j))"
    using valid by (auto simp: journal_validate_def try_in_Ok_iff split: if_splits)
  let ?st = "st0\<lparr>ls_binding := ?b, ls_durable_completions := D\<rparr>"
  obtain st2 disk2 where p: "prepare_writer h j True (se_create env) st0 disk0 = (Ok (), st2, disk2)"
    and pub: "(case publish_snapshot h j (se_publish env) st2 disk2 of
        (Err e, st, disk) \<Rightarrow> (Err e, st, disk)
      | (Ok _, st, disk) \<Rightarrow> save_all h j (se_append env) [0..<length (jn_completed j)] st disk) = (Ok (), st1, disk1)"
    using saved by (auto simp: ledger_save_def split: if_splits result.splits prod.splits)
  obtain w where c: "writer_create h ?st True (se_create env) disk0 = (Ok w, disk2)"
    and st2: "st2 = ?st\<lparr>ls_writer := Some w\<rparr>"
    using p st0 D by (auto simp: prepare_writer_def split: result.splits prod.splits)
  have inv2: "ledger_inv h (jn_completed j) st2 disk2" "ld_snapshot disk2 = ld_snapshot disk0"
    unfolding st2 using created_inv [OF h D _ _ _ c] st0(3) len by simp_all
  have pend: "ls_is_snapshot_pending st2" "ls_binding st2 = ?b" using st2 st0 by simp_all
  let ?st3 = "st2\<lparr>ls_is_snapshot_pending := False\<rparr>"
  let ?disk3 = "disk2\<lparr>ld_snapshot := Some (j, Some (h_encode h ?b))\<rparr>"
  have s: "save_all h j (se_append env) [0..<length (jn_completed j)] ?st3 ?disk3 = (Ok (), st1, disk1)"
    using pub pend
    by (auto simp: publish_snapshot_def Let_def split: publish_outcome.splits)
  have "ledger_inv h (jn_completed j) ?st3 ?disk3"
    using inv2(1) by (simp add: ledger_inv_def ledger_holds_def)
  from save_all_inv [OF s h this] show ?thesis using pend by simp
qed

lemma normalize_same: "normalize_identity j (jn_identity j) = j"
  by (simp add: normalize_identity_def)

lemma completions_encoded:
  assumes h: "hashing_ok h"
    and c: "\<And>i s. i < length c \<Longrightarrow> c ! i = Some s \<Longrightarrow> \<exists>d. length d = 32 \<and> s = h_encode h d"
  shows "\<exists>D. completions h (j\<lparr>jn_completed := c\<rparr>) = Ok D"
proof -
  have "\<exists>e. digest_option h x = Ok e" if x: "x \<in> set c" for x
  proof -
    obtain i where "i < length c" "x = c ! i" using x by (metis in_set_conv_nth)
    show ?thesis
    proof (cases x)
      case None
      then show ?thesis by (simp add: digest_option_def)
    next
      case (Some s)
      then obtain d where "length d = 32" "s = h_encode h d"
        using c [of i s] \<open>i < length c\<close> \<open>x = c ! i\<close> by auto
      then have "digest_option h x = Ok (Some d)"
        using h Some by (auto simp: digest_option_Ok hashing_ok_def)
      then show ?thesis by blast
    qed
  qed
  then have "\<exists>D. list_all2 (\<lambda>x e. digest_option h x = Ok e) c D"
  proof (induction c)
    case Nil
    then show ?case by (intro exI [of _ "[]"]) simp
  next
    case (Cons x c)
    then obtain e D where "digest_option h x = Ok e" "list_all2 (\<lambda>x e. digest_option h x = Ok e) c D"
      by (meson list.set_intros)
    then show ?case by (intro exI [of _ "e # D"]) simp
  qed
  then show ?thesis by (simp add: completions_def try_map_Ok_iff)
qed

section \<open>Properties\<close>


text \<open>A concrete hashing for the witness: hexadecimal coding and a toy digest.\<close>

definition demo_nibble :: "nat \<Rightarrow> char" where
  "demo_nibble n = (if n < 10 then char_of (48 + n) else char_of (87 + n))"

definition demo_hex_value :: "char \<Rightarrow> nat option" where
  "demo_hex_value c =
     (if 48 \<le> byte c \<and> byte c \<le> 57 then Some (byte c - 48)
      else if 97 \<le> byte c \<and> byte c \<le> 102 then Some (byte c - 87)
      else if 65 \<le> byte c \<and> byte c \<le> 70 then Some (byte c - 55) else None)"

fun demo_encode :: "string \<Rightarrow> string" where
  "demo_encode [] = []"
| "demo_encode (c # s) = demo_nibble (byte c div 16) # demo_nibble (byte c mod 16) # demo_encode s"

fun demo_decode :: "string \<Rightarrow> string option" where
  "demo_decode [] = Some []"
| "demo_decode [c] = None"
| "demo_decode (c # d # s) =
     (case (demo_hex_value c, demo_hex_value d, demo_decode s) of
        (Some a, Some b, Some r) \<Rightarrow> Some (char_of (16 * a + b) # r)
      | _ \<Rightarrow> None)"

lemma byte_char_of: "n < 256 \<Longrightarrow> byte (char_of n) = n"
  by simp

lemma demo_nibble_value: "n < 16 \<Longrightarrow> demo_hex_value (demo_nibble n) = Some n"
  by (auto simp: demo_hex_value_def demo_nibble_def)

lemma demo_nibble_lower: "n < 16 \<Longrightarrow> lower_byte (demo_nibble n) = demo_nibble n"
  by (auto simp: demo_nibble_def lower_byte_def is_ascii_upper_def)

lemma demo_value_lower:
  assumes "demo_hex_value c = Some n"
  shows "n < 16 \<and> lower_byte c = demo_nibble n"
proof -
  consider "48 \<le> byte c" "byte c \<le> 57" "n = byte c - 48" | "97 \<le> byte c" "byte c \<le> 102" "n = byte c - 87"
    | "65 \<le> byte c" "byte c \<le> 70" "n = byte c - 55"
    using assms by (auto simp: demo_hex_value_def split: if_splits)
  then show ?thesis
    by cases (auto simp: demo_nibble_def lower_byte_def is_ascii_upper_def)
qed

lemma demo_decode_encode: "demo_decode (demo_encode s) = Some s"
proof (induction s)
  case Nil
  then show ?case by simp
next
  case (Cons c s)
  have "byte c div 16 < 16" using byte_less [of c] by (simp add: less_mult_imp_div_less)
  then show ?case using Cons by (simp add: demo_nibble_value)
qed

lemma demo_encode_lower: "to_ascii_lowercase (demo_encode s) = demo_encode s"
proof (induction s)
  case Nil
  then show ?case by (simp add: to_ascii_lowercase_def)
next
  case (Cons c s)
  have "byte c div 16 < 16" using byte_less [of c] by (simp add: less_mult_imp_div_less)
  then show ?case using Cons by (simp add: to_ascii_lowercase_def demo_nibble_lower)
qed

lemma demo_decode_lower: "demo_decode s = Some b \<Longrightarrow> to_ascii_lowercase s = demo_encode b"
proof (induction s arbitrary: b rule: demo_decode.induct)
  case 1
  then show ?case by (simp add: to_ascii_lowercase_def)
next
  case (2 c)
  then show ?case by simp
next
  case (3 c d s)
  then obtain x y r where v: "demo_hex_value c = Some x" "demo_hex_value d = Some y"
    and r: "demo_decode s = Some r" and b: "b = char_of (16 * x + y) # r"
    by (auto split: option.splits)
  have x: "x < 16" "lower_byte c = demo_nibble x" and y: "y < 16" "lower_byte d = demo_nibble y"
    using demo_value_lower v by auto
  then have "byte (char_of (16 * x + y)) = 16 * x + y" by (intro byte_char_of) simp
  then show ?case using "3.IH" [OF r] x y b by (simp add: to_ascii_lowercase_def)
qed

definition demo_hashing :: hashing where
  "demo_hashing = \<lparr>h_sha256 = (\<lambda>x. replicate 31 (CHR ''h'') @ [char_of (length x)]),
     h_journal = (\<lambda>j. replicate 31 (CHR ''j'') @ [char_of (length (jn_completed j))]),
     h_immutable = (\<lambda>_. ''meta''), h_entry = (\<lambda>e. en_local e),
     h_encode = demo_encode, h_decode = demo_decode\<rparr>"

lemma demo_hashing_ok: "hashing_ok demo_hashing"
  by (simp add: hashing_ok_def demo_hashing_def demo_decode_encode demo_encode_lower demo_decode_lower)

definition demo_journal :: "string option \<Rightarrow> journal" where
  "demo_journal c = \<lparr>jn_version = 1,
     jn_identity = \<lparr>id_origin = ''o'', id_share_id = ''s'', id_selection = None, id_destination = ''/d'',
       id_is_recursive = True, id_is_overwrite = False, id_selection_policy = None,
       id_api_origin = None, id_recipient = None\<rparr>,
     jn_manifest = \<lparr>mf_roots = [''a''], mf_files = [\<lparr>en_local = ''a'', en_remote = \<lparr>rf_path = ''a'',
       rf_size = 3, rf_etag = ''e'', rf_crc64 = 0, rf_updated_at = 0\<rparr>\<rparr>], mf_directories = [],
       mf_remote_directories = [], mf_policy = Cp False None None\<rparr>,
     jn_completed = [c]\<rparr>"

definition demo_ops :: "(journal \<times> nat \<times> append_outcome) list" where
  "demo_ops = [(demo_journal (Some (demo_encode (replicate 32 (CHR ''x'')))), 0, Appended),
     (demo_journal (Some (demo_encode (replicate 32 (CHR ''y'')))), 0, AppendFailed 5 (Unknown ''io''))]"


end
