(* ===== verification/Download_Jobs.thy ===== *)
theory Download_Jobs
  imports Csv_Report Completion_Ledger Cli_Error
begin

text \<open>
  \<open>crates/adrive/src/handler/share_download.rs\<close> and \<open>share_download/jobs.rs\<close>: the driver of a
  share download, which issues an address for each file, transfers the content, publishes it,
  records the completion and reports the outcome. A file's job is one step, taken when it
  completes; the order of completion is a schedule, and a schedule that ends first is the
  interruption of the command. The recovery journal lives on its own disk.
\<close>

section \<open>The checkpoint\<close>

text \<open>\<open>Checkpoint\<close> of \<open>share_checkpoint.rs\<close>: the persistence state and the flag of the first save.\<close>

record checkpoint =
  ck_has_saved :: bool
  ck_persistence :: "ledger_state option"
  ck_disk :: ledger_disk

record coding =
  cd_hashing :: hashing
  cd_derive :: "string \<Rightarrow> (string, client_error) result"
  cd_fold_path :: "string \<Rightarrow> string"

definition checkpoint_persistence :: "coding \<Rightarrow> journal \<Rightarrow> checkpoint \<Rightarrow> (ledger_state, cli_error) result" where
  "checkpoint_persistence cd j ck =
     (case ck_persistence ck of
        Some s \<Rightarrow> Ok s
      | None \<Rightarrow>
          if ck_has_saved ck
          then try_in (ledger_load (cd_hashing cd) (cd_derive cd) (cd_fold_path cd) (jn_identity j) (ck_disk ck))
                 (\<lambda>(_, s). Ok s)
          else state_fresh (cd_hashing cd) (cd_derive cd) (cd_fold_path cd) j)"

definition checkpoint_save ::
  "coding \<Rightarrow> journal \<Rightarrow> save_env \<Rightarrow> checkpoint \<Rightarrow> (unit, cli_error) result \<times> checkpoint" where
  "checkpoint_save cd j env ck =
     (case checkpoint_persistence cd j ck of
        Err e \<Rightarrow> (Err e, ck)
      | Ok s \<Rightarrow>
          (let (r, s, disk) = ledger_save (cd_hashing cd) j (\<not> ck_has_saved ck) env s (ck_disk ck);
               ck = ck\<lparr>ck_persistence := Some s, ck_disk := disk\<rparr>
           in case r of Err e \<Rightarrow> (Err e, ck) | Ok _ \<Rightarrow> (Ok (), ck\<lparr>ck_has_saved := True\<rparr>)))"

definition checkpoint_save_completion ::
  "coding \<Rightarrow> journal \<Rightarrow> nat \<Rightarrow> save_env \<Rightarrow> append_outcome \<Rightarrow> checkpoint \<Rightarrow>
   (unit, cli_error) result \<times> checkpoint" where
  "checkpoint_save_completion cd j index env outcome ck =
     st_try (if (case ck_persistence ck of None \<Rightarrow> True | Some s \<Rightarrow> ls_writer s = None)
             then checkpoint_save cd j env ck else (Ok (), ck)) (\<lambda>_ ck.
       case ck_persistence ck of
         None \<Rightarrow> (Err (invalid ''unreachable''), ck)
       | Some s \<Rightarrow>
           (let (r, s, disk) = save_completion (cd_hashing cd) j index outcome s (ck_disk ck)
            in (r, ck\<lparr>ck_persistence := Some s, ck_disk := disk\<rparr>)))"

section \<open>Environment and state\<close>

record job_env =
  je_content :: "string \<Rightarrow> transfer_env"
  je_local :: transfer_env
  je_codec :: codec
  je_coding :: coding
  je_session :: "nat \<Rightarrow> (unit, cli_error) result"
  je_issue :: "nat list \<Rightarrow> string \<Rightarrow> (string, client_error) result"
  je_issue_events :: "nat list \<Rightarrow> trace_event list"
  je_is_valid_url :: "string \<Rightarrow> bool"
  je_modified :: "nat \<Rightarrow> string list \<Rightarrow> (nat, cli_error) result"
  je_save :: "nat \<Rightarrow> save_env"
  je_append :: "nat \<Rightarrow> append_outcome"
  je_last_request_id :: "string option"

record driver =
  dv_strategy :: "overwrite_strategy option"
  dv_directory :: safe_dir
  dv_threshold :: u64
  dv_concurrency :: nat
  dv_recovery :: "safe_dir option"
  dv_batch_concurrency :: "nat option"

record file_failure =
  ff_message :: string
  ff_request_id :: "string option"
  ff_code :: string

record progress =
  pr_journal :: "journal option"
  pr_checkpoint :: "checkpoint option"
  pr_is_checkpoint_durable :: bool
  pr_active :: "nat option"
  pr_is_issuing :: bool
  pr_failure_status_code :: "nat option"
  pr_failure_request_id :: "string option"
  pr_skipped :: nat
  pr_is_resuming :: bool
  pr_verified :: "bool list"
  pr_states :: "nat list"
  pr_failures :: "(nat, file_failure) btree_map"
  pr_skipped_files :: "nat list"
  pr_request_ids :: "(nat, string option) btree_map"
  pr_artifacts :: "artifacts option"
  pr_cleanup_warning :: bool
  pr_is_tracking_failure :: bool
  pr_directory_failures :: "(string, string \<times> string) btree_map"

text \<open>\<open>jb_issued\<close> is the history of address issuances, on which the service's answers may depend.\<close>

record job_state =
  jb_progress :: progress
  jb_local :: transfer_state
  jb_issued :: "nat list"

record job_outcome =
  oc_index :: nat
  oc_result :: "(staged_file \<times> string, cli_error) result"
  oc_request_id :: "string option"
  oc_is_unknown :: bool

datatype job_error = JobFile cli_error | JobTracking cli_error

abbreviation with_progress :: "(progress \<Rightarrow> progress) \<Rightarrow> job_state \<Rightarrow> job_state" where
  "with_progress f s \<equiv> s\<lparr>jb_progress := f (jb_progress s)\<rparr>"

definition set_state :: "nat \<Rightarrow> nat \<Rightarrow> progress \<Rightarrow> progress" where
  "set_state index value p = p\<lparr>pr_states := (pr_states p)[index := value]\<rparr>"

text \<open>A step on the local files and traces.\<close>

definition locally ::
  "(transfer_state \<Rightarrow> ('a, 'e) result \<times> transfer_state) \<Rightarrow> job_state \<Rightarrow> ('a, 'e) result \<times> job_state" where
  "locally f s = (let (r, st) = f (jb_local s) in (r, s\<lparr>jb_local := st\<rparr>))"

definition tracking :: "('a, cli_error) result \<times> 's \<Rightarrow> ('a, job_error) result \<times> 's" where
  "tracking p = (map_err JobTracking (fst p), snd p)"

section \<open>Rows and failures\<close>

definition path_join :: "string \<Rightarrow> string \<Rightarrow> string" where
  "path_join base path =
     (if base = [] \<or> ends_with [slash] base then base @ path else base @ [slash] @ path)"

definition job_entry :: "progress \<Rightarrow> nat \<Rightarrow> (entry, cli_error) result" where
  "job_entry p index =
     (case pr_journal p of
        None \<Rightarrow> Err (invalid ''missing manifest entry'')
      | Some j \<Rightarrow>
          if index < length (mf_files (jn_manifest j)) then Ok (mf_files (jn_manifest j) ! index)
          else Err (invalid ''missing manifest entry''))"

definition record_outcome ::
  "job_env \<Rightarrow> nat \<Rightarrow> string \<Rightarrow> string option \<Rightarrow> string option \<Rightarrow> job_state \<Rightarrow>
   (unit, cli_error) result \<times> job_state" where
  "record_outcome env index status error request_id s =
     (let p = jb_progress s
      in case pr_journal p of
           None \<Rightarrow> (Err (invalid ''missing manifest''), s)
         | Some j \<Rightarrow>
             (case job_entry p index of
                Err e \<Rightarrow> (Err e, s)
              | Ok selected \<Rightarrow>
                  (case pr_artifacts p of
                     None \<Rightarrow> (Ok (), s)
                   | Some artifacts \<Rightarrow>
                       (let row = \<lparr>rr_source = rf_path (en_remote selected),
                              rr_destination = path_join (id_destination (jn_identity j)) (en_local selected),
                              rr_status = status, rr_error = error, rr_request_id = request_id\<rparr>;
                            (r, a, st) = artifacts_record (je_local env) row (artifacts, jb_local s)
                        in (r, s\<lparr>jb_progress := p\<lparr>pr_artifacts := Some a\<rparr>, jb_local := st\<rparr>)))))"

definition mark_skipped :: "job_env \<Rightarrow> nat \<Rightarrow> job_state \<Rightarrow> (unit, cli_error) result \<times> job_state" where
  "mark_skipped env index s =
     record_outcome env index ''skipped'' None None
       (with_progress (\<lambda>p. set_state index 7 (p\<lparr>pr_skipped := Suc (pr_skipped p),
          pr_skipped_files := bset_put index (pr_skipped_files p)\<rparr>)) s)"

definition note_failure ::
  "nat \<Rightarrow> agent_error_semantics \<Rightarrow> string option \<Rightarrow> progress \<Rightarrow> progress" where
  "note_failure index semantics request_id p =
     (let p = (if pr_failures p = [] \<and> \<not> pr_is_tracking_failure p
               then p\<lparr>pr_failure_status_code := sem_status_code semantics,
                      pr_failure_request_id := request_id\<rparr> else p)
      in set_state index 5 (p\<lparr>pr_failures := bt_put index
           \<lparr>ff_message = sem_message semantics, ff_request_id = request_id, ff_code = sem_code semantics\<rparr>
           (pr_failures p)\<rparr>))"

definition fail_file ::
  "job_env \<Rightarrow> nat \<Rightarrow> cli_error \<Rightarrow> string option \<Rightarrow> job_state \<Rightarrow> job_error \<times> job_state" where
  "fail_file env index error request_id s =
     (let semantics = agent_semantics (je_last_request_id env) error;
          (r, s) = record_outcome env index ''failed'' (Some (sem_message semantics)) request_id
            (with_progress (note_failure index semantics request_id) s)
      in (case r of Ok _ \<Rightarrow> JobFile error | Err e \<Rightarrow> JobTracking e, s))"

text \<open>The first file error, or the latest tracking error, and whether new jobs may start.\<close>

fun track_error ::
  "job_error \<Rightarrow> cli_error option \<times> bool \<Rightarrow> job_state \<Rightarrow> (cli_error option \<times> bool) \<times> job_state" where
  "track_error (JobFile e) (first, is_stopped) s =
     ((case first of None \<Rightarrow> Some e | Some f \<Rightarrow> Some f, is_stopped), s)"
| "track_error (JobTracking e) (first, is_stopped) s =
     ((Some e, True),
      with_progress (\<lambda>p. p\<lparr>pr_failure_status_code := None, pr_failure_request_id := None,
        pr_is_tracking_failure := True\<rparr>) s)"

section \<open>Skipping\<close>

definition skip_existing ::
  "overwrite_strategy option \<Rightarrow> i64 \<Rightarrow> (nat, cli_error) result \<Rightarrow> (bool, cli_error) result" where
  "skip_existing strategy source_millis modified =
     (case case_option Force id strategy of
        Force \<Rightarrow> Ok False
      | NoClobber \<Rightarrow> Ok True
      | Newer \<Rightarrow> try_in modified (\<lambda>modified.
          Ok (sint source_millis \<le> 0 \<or> sint source_millis \<le> int modified)))"

definition should_skip ::
  "job_env \<Rightarrow> driver \<Rightarrow> entry \<Rightarrow> transfer_state \<Rightarrow> (bool, cli_error) result \<times> transfer_state" where
  "should_skip env drv e st =
     st_try (io_step (with_tree (safe_parent (dv_directory drv) (en_local e) True) st)) (\<lambda>(parent, name) st.
       (try_in (map_err Io (ordinary parent name (ts_tree st))) (\<lambda>is_present.
          if \<not> is_present then Ok False
          else try_in (map_err Io (read_leaf parent name (ts_tree st))) (\<lambda>_.
            skip_existing (dv_strategy drv) (rf_updated_at (en_remote e))
              (je_modified env (ts_steps st) (parent @ [name])))), st))"

definition is_completed :: "progress \<Rightarrow> nat \<Rightarrow> bool" where
  "is_completed p index \<longleftrightarrow>
     (case pr_journal p of None \<Rightarrow> False | Some j \<Rightarrow> jn_completed j ! index \<noteq> None)"

definition prepare_skip ::
  "job_env \<Rightarrow> driver \<Rightarrow> nat \<Rightarrow> job_state \<Rightarrow> (bool, job_error) result \<times> job_state" where
  "prepare_skip env drv index s =
     (if is_completed (jb_progress s) index
      then st_try (tracking (record_outcome env index ''skipped'' None None s)) (\<lambda>_ s. (Ok True, s))
      else case (case job_entry (jb_progress s) index of
                   Err e \<Rightarrow> (Err e, s)
                 | Ok e \<Rightarrow> locally (should_skip env drv e) s) of
             (Ok False, s) \<Rightarrow> (Ok False, s)
           | (Ok True, s) \<Rightarrow> st_try (tracking (mark_skipped env index s)) (\<lambda>_ s. (Ok True, s))
           | (Err e, s) \<Rightarrow> (case fail_file env index e None s of (failure, s) \<Rightarrow> (Err failure, s)))"

section \<open>A job\<close>

definition is_known_issuance :: "client_error \<Rightarrow> bool" where
  "is_known_issuance e =
     (case e of
        ClientServer server \<Rightarrow>
          (case ids_status_code server of Some status \<Rightarrow> status < 500 \<and> status \<noteq> 408 | None \<Rightarrow> False)
      | ClientError _ \<Rightarrow> True | ClientCli _ \<Rightarrow> True | ClientUnifiedCredential _ \<Rightarrow> True
      | _ \<Rightarrow> False)"

definition unknown_issuance :: cli_error where
  "unknown_issuance = TransferFailed
     ''[share_download_url_result_unknown] download URL issuance failed; outcome may be unknown; not replayed''"

definition unusable_address :: cli_error where
  "unusable_address = TransferFailed
     ''[share_download_url_result_unknown] unusable download address; issuance was not replayed''"

text \<open>\<open>map_issuance\<close> on the state of the job, which is 2 while the outcome is unknown.\<close>

definition map_issuance :: "client_error \<Rightarrow> nat \<Rightarrow> cli_error \<times> nat" where
  "map_issuance e state =
     (if is_known_issuance e then (map_ids_error e, 4) else (unknown_issuance, state))"

text \<open>The issuance under its own capture scope: the address or the error, the id, the job's state.\<close>

definition issue_address ::
  "job_env \<Rightarrow> nat \<Rightarrow> entry \<Rightarrow> job_state \<Rightarrow>
   (string, cli_error) result \<times> string option \<times> nat \<times> job_state" where
  "issue_address env index e s =
     (let st = jb_local s;
          fresh = ts_fresh st;
          (scopes, traces) = capture_scope fresh [] (ts_traces st);
          (r, state, issued) =
            (case je_session env index of
               Err e \<Rightarrow> (Err e, pr_states (jb_progress s) ! index, jb_issued s)
             | Ok _ \<Rightarrow>
                 (case je_issue env (jb_issued s) (rf_path (en_remote e)) of
                    Ok address \<Rightarrow> (Ok address, 2, jb_issued s @ [index])
                  | Err error \<Rightarrow>
                      (case map_issuance error 2 of (error, state) \<Rightarrow> (Err error, state, jb_issued s @ [index]))));
          traces = trace_run (map (\<lambda>event. (scopes, event)) (je_issue_events env (jb_issued s))) traces;
          st = st\<lparr>ts_fresh := Suc fresh, ts_traces := traces\<rparr>
      in (r, tr_terminal_response_request_id (traces fresh), state,
          (with_progress (set_state index state) s)\<lparr>jb_local := st, jb_issued := issued\<rparr>))"

definition job_request :: "driver \<Rightarrow> entry \<Rightarrow> range_download" where
  "job_request drv e =
     \<lparr>rd_remote = en_remote e, rd_directory = dv_directory drv, rd_local = en_local e,
      rd_concurrency = dv_concurrency drv, rd_checkpoint_directory = dv_recovery drv\<rparr>"

definition run_job ::
  "job_env \<Rightarrow> driver \<Rightarrow> nat \<Rightarrow> entry \<Rightarrow> nat list \<Rightarrow> job_state \<Rightarrow> (job_outcome \<times> job_state) option" where
  "run_job env drv index e schedule s =
     (case issue_address env index e s of
        (Err error, issue_id, state, s) \<Rightarrow>
          Some (\<lparr>oc_index = index, oc_result = Err error, oc_request_id = issue_id,
                 oc_is_unknown = (state = 2)\<rparr>, s)
      | (Ok address, issue_id, state, s) \<Rightarrow>
          if \<not> je_is_valid_url env address
          then Some (\<lparr>oc_index = index, oc_result = Err unusable_address, oc_request_id = issue_id,
                      oc_is_unknown = True\<rparr>, s)
          else (let st = jb_local s;
                    fresh = ts_fresh st;
                    (scopes, traces) = capture_scope fresh [] (ts_traces st)
                in map_option (\<lambda>(r, st).
                     (\<lparr>oc_index = index, oc_result = r,
                       oc_request_id = tr_terminal_response_request_id (ts_traces st fresh),
                       oc_is_unknown = False\<rparr>,
                      (with_progress (set_state index 4) s)\<lparr>jb_local := st\<rparr>))
                   (content_download (je_codec env) (je_content env address) scopes (dv_threshold drv)
                     (job_request drv e) schedule
                     (st\<lparr>ts_fresh := Suc fresh, ts_traces := traces\<rparr>))))"

section \<open>Publication\<close>

definition save_completion_progress :: "job_env \<Rightarrow> nat \<Rightarrow> job_state \<Rightarrow> (unit, cli_error) result \<times> job_state" where
  "save_completion_progress env index s =
     (let p = jb_progress s
      in case (pr_checkpoint p, pr_journal p) of
           (Some ck, Some j) \<Rightarrow>
             (let n = ts_steps (jb_local s);
                  (r, ck) = checkpoint_save_completion (je_coding env) j index (je_save env n) (je_append env n) ck;
                  s = s\<lparr>jb_local := tick (jb_local s)\<rparr>
              in (r, with_progress (\<lambda>p. p\<lparr>pr_checkpoint := Some ck,
                       pr_is_checkpoint_durable := is_ok r\<rparr>) s))
         | _ \<Rightarrow> (Ok (), s))"

definition complete_entry :: "nat \<Rightarrow> string \<Rightarrow> string option \<Rightarrow> journal \<Rightarrow> progress \<Rightarrow> progress" where
  "complete_entry index digest request_id j p =
     set_state index 6 (p\<lparr>pr_journal := Some (j\<lparr>jn_completed := (jn_completed j)[index := Some digest]\<rparr>),
       pr_verified := (pr_verified p)[index := True],
       pr_request_ids := bt_put index request_id (pr_request_ids p)\<rparr>)"

text \<open>\<open>finish_file\<close> after the publication: completion, row, and removal of the recorded ranges.\<close>

definition finish_published ::
  "job_env \<Rightarrow> driver \<Rightarrow> nat \<Rightarrow> entry \<Rightarrow> string \<Rightarrow> string option \<Rightarrow> job_state \<Rightarrow>
   (unit, job_error) result \<times> job_state" where
  "finish_published env drv index e digest request_id s =
     (case pr_journal (jb_progress s) of
        None \<Rightarrow> (Err (JobTracking (invalid ''missing manifest'')), s)
      | Some j \<Rightarrow>
          (let s = with_progress (complete_entry index digest request_id j) s;
               (saved, s) = save_completion_progress env index s;
               (reported, s) = record_outcome env index ''succeeded'' None request_id s
           in case try_in saved (\<lambda>_. reported) of
                Err error \<Rightarrow> (Err (JobTracking error), s)
              | Ok _ \<Rightarrow>
                  (case locally (clear_completed_ranges (je_codec env) (dv_threshold drv) (job_request drv e)) s of
                     (Ok _, s) \<Rightarrow> (Ok (), s)
                   | (Err _, s) \<Rightarrow> (Ok (), with_progress (\<lambda>p. p\<lparr>pr_cleanup_warning := True\<rparr>) s))))"

definition discard_staged :: "job_env \<Rightarrow> staged_file \<Rightarrow> job_state \<Rightarrow> job_state" where
  "discard_staged env staged s = s\<lparr>jb_local := drop_file (je_local env) staged (jb_local s)\<rparr>"

definition publish_staged ::
  "job_env \<Rightarrow> driver \<Rightarrow> staged_file \<Rightarrow> transfer_state \<Rightarrow> (unit, io_error) result \<times> transfer_state" where
  "publish_staged env drv staged st =
     with_tree (publish (te_publish (je_local env) (ts_steps st)) staged (dv_strategy drv \<noteq> Some NoClobber))
       (tick st)"

definition finish_file ::
  "job_env \<Rightarrow> driver \<Rightarrow> nat \<Rightarrow> staged_file \<times> string \<Rightarrow> string option \<Rightarrow> job_state \<Rightarrow>
   (unit, job_error) result \<times> job_state" where
  "finish_file env drv index prepared request_id s =
     (let (staged, digest) = prepared
      in case job_entry (jb_progress s) index of
           Err e \<Rightarrow> (Err (JobTracking e), discard_staged env staged s)
         | Ok e \<Rightarrow>
             (case locally (should_skip env drv e) s of
                (Ok True, s) \<Rightarrow>
                  (case tracking (mark_skipped env index s) of (r, s) \<Rightarrow> (r, discard_staged env staged s))
              | (Err error, s) \<Rightarrow>
                  (case fail_file env index error None s of
                     (failure, s) \<Rightarrow> (Err failure, discard_staged env staged s))
              | (Ok False, s) \<Rightarrow>
                  (case locally (publish_staged env drv staged) s of
                     (Err error, s) \<Rightarrow>
                       (case fail_file env index (Io error) None s of (failure, s) \<Rightarrow> (Err failure, s))
                   | (Ok _, s) \<Rightarrow> finish_published env drv index e digest request_id s)))"

definition accept_outcome ::
  "job_env \<Rightarrow> driver \<Rightarrow> job_outcome \<Rightarrow> job_state \<Rightarrow> (unit, job_error) result \<times> job_state" where
  "accept_outcome env drv outcome s =
     (case oc_result outcome of
        Ok prepared \<Rightarrow> finish_file env drv (oc_index outcome) prepared (oc_request_id outcome) s
      | Err error \<Rightarrow>
          (case fail_file env (oc_index outcome) error (oc_request_id outcome) s of
             (failure, s) \<Rightarrow> (Err failure, s)))"

section \<open>The driver\<close>

text \<open>Starting jobs: the next index, the pending jobs, and the error so far.\<close>

type_synonym queue_state = "nat \<times> (nat \<times> entry) list \<times> cli_error option \<times> bool"

function start_jobs ::
  "job_env \<Rightarrow> driver \<Rightarrow> nat \<Rightarrow> nat \<Rightarrow> (nat \<times> entry) list \<Rightarrow> cli_error option \<times> bool \<Rightarrow> job_state \<Rightarrow>
   (queue_state, cli_error) result \<times> job_state" where
  "start_jobs env drv count_all index pending err s =
     (if index < count_all \<and> length pending < case_option 16 id (dv_batch_concurrency drv) \<and> \<not> snd err
      then case prepare_skip env drv index s of
             (Ok True, s) \<Rightarrow> start_jobs env drv count_all (Suc index) pending err s
           | (Err failure, s) \<Rightarrow>
               (case track_error failure err s of
                  (err, s) \<Rightarrow> start_jobs env drv count_all (Suc index) pending err s)
           | (Ok False, s) \<Rightarrow>
               (case job_entry (jb_progress s) index of
                  Err e \<Rightarrow> (Err e, s)
                | Ok e \<Rightarrow> start_jobs env drv count_all (Suc index) (pending @ [(index, e)]) err
                           (with_progress (set_state index 1) s))
      else (Ok (index, pending, err), s))"
  by pat_completeness auto
termination by (relation "measure (\<lambda>(env, drv, count_all, index, rest). count_all - index)") auto

declare start_jobs.simps [simp del]

datatype run_status = Interrupted | Returned "(unit, cli_error) result"

text \<open>
  A schedule gives, for each completion, which pending job completes and the order of its
  ranges.
\<close>

fun transfer_loop ::
  "job_env \<Rightarrow> driver \<Rightarrow> nat \<Rightarrow> (nat \<times> nat list) list \<Rightarrow> queue_state \<Rightarrow> job_state \<Rightarrow> run_status \<times> job_state" where
  "transfer_loop env drv count_all schedule (index, pending, err) s =
     (case start_jobs env drv count_all index pending err s of
        (Err e, s) \<Rightarrow> (Returned (Err e), s)
      | (Ok (index, pending, first, is_stopped), s) \<Rightarrow>
          if pending = [] then (Returned (case first of None \<Rightarrow> Ok () | Some e \<Rightarrow> Err e), s)
          else case schedule of
                 [] \<Rightarrow> (Interrupted, s)
               | (choice, ranges) # rest \<Rightarrow>
                   (let i = choice mod length pending; (job, e) = pending ! i
                    in case run_job env drv job e ranges s of
                         None \<Rightarrow> (Interrupted, s)
                       | Some (outcome, s) \<Rightarrow>
                           (let s = (if oc_is_unknown outcome
                                     then with_progress (\<lambda>p. p\<lparr>pr_is_issuing := True\<rparr>) s else s);
                                is_stopped = (is_stopped \<or> oc_is_unknown outcome)
                            in case accept_outcome env drv outcome s of
                                 (Ok _, s) \<Rightarrow>
                                   transfer_loop env drv count_all rest
                                     (index, remove_at i pending, first, is_stopped) s
                               | (Err failure, s) \<Rightarrow>
                                   (case track_error failure (first, is_stopped) s of
                                      (err, s) \<Rightarrow>
                                        transfer_loop env drv count_all rest
                                          (index, remove_at i pending, err) s))))"

declare transfer_loop.simps [simp del]

definition transfer_files ::
  "job_env \<Rightarrow> driver \<Rightarrow> (nat \<times> nat list) list \<Rightarrow> job_state \<Rightarrow> run_status \<times> job_state" where
  "transfer_files env drv schedule s =
     (case pr_journal (jb_progress s) of
        None \<Rightarrow> (Returned (Err (invalid ''missing manifest'')), s)
      | Some j \<Rightarrow>
          (let count_all = length (mf_files (jn_manifest j))
           in transfer_loop env drv count_all schedule (0, [], None, False)
                (with_progress (\<lambda>p. p\<lparr>pr_states := replicate count_all 0\<rparr>) s)))"

section \<open>The end of the command\<close>

definition interrupted_message :: string where
  "interrupted_message = ''download interrupted; completed files retained''"

definition incomplete_files :: "progress \<Rightarrow> nat list" where
  "incomplete_files p = filter (\<lambda>i. pr_states p ! i \<in> {1..4}) [0..<length (pr_states p)]"

fun fail_all :: "job_env \<Rightarrow> string \<Rightarrow> nat list \<Rightarrow> cli_error option \<Rightarrow> job_state \<Rightarrow> cli_error option \<times> job_state" where
  "fail_all env message [] failure s = (failure, s)"
| "fail_all env message (index # rest) failure s =
     (case fail_file env index (TransferFailed message) None s of
        (JobTracking e, s) \<Rightarrow> fail_all env message rest (Some e) s
      | (JobFile _, s) \<Rightarrow> fail_all env message rest failure s)"

definition finalize ::
  "job_env \<Rightarrow> cli_error option \<Rightarrow> job_state \<Rightarrow> (unit, cli_error) result \<times> job_state" where
  "finalize env error s =
     (let message = (case error of
            Some e \<Rightarrow> sem_message (agent_semantics (je_last_request_id env) e)
          | None \<Rightarrow> interrupted_message);
          (failure, s) = fail_all env message (incomplete_files (jb_progress s)) None s
      in case pr_artifacts (jb_progress s) of
           None \<Rightarrow> (case failure of None \<Rightarrow> Ok () | Some e \<Rightarrow> Err e, s)
         | Some a \<Rightarrow>
             (let (r, a, st) = artifacts_finish (je_local env) (a, jb_local s);
                  s = (with_progress (\<lambda>p. p\<lparr>pr_artifacts := Some a\<rparr>) s)\<lparr>jb_local := st\<rparr>;
                  failure = (case r of Err e \<Rightarrow> Some e | Ok _ \<Rightarrow> failure)
              in (case failure of None \<Rightarrow> Ok () | Some e \<Rightarrow> Err e, s)))"

definition finalize_execution ::
  "job_env \<Rightarrow> (unit, cli_error) result \<Rightarrow> bool \<Rightarrow> job_state \<Rightarrow> (unit, cli_error) result \<times> job_state" where
  "finalize_execution env result is_interrupted s =
     (let s = with_progress (\<lambda>p. p\<lparr>pr_is_issuing := (pr_is_issuing p \<or> 2 \<in> set (pr_states p))\<rparr>) s;
          s = (if is_interrupted
               then with_progress (\<lambda>p. p\<lparr>pr_failure_status_code := None, pr_failure_request_id := None\<rparr>) s
               else s)
      in case finalize env (case result of Err e \<Rightarrow> Some e | Ok _ \<Rightarrow> None) s of
           (Ok _, s) \<Rightarrow> (result, s)
         | (Err e, s) \<Rightarrow>
             (Err e, with_progress (\<lambda>p. p\<lparr>pr_failure_status_code := None,
                       pr_failure_request_id := None\<rparr>) s))"

datatype file_status = Completed | Skipped | Failed | Pending

definition file_payload_digest :: "progress \<Rightarrow> journal \<Rightarrow> nat \<Rightarrow> string option" where
  "file_payload_digest p j index =
     (if \<not> pr_is_resuming p \<or> (index < length (pr_verified p) \<and> pr_verified p ! index)
      then jn_completed j ! index else None)"

definition file_payload_status :: "progress \<Rightarrow> journal \<Rightarrow> nat \<Rightarrow> file_status" where
  "file_payload_status p j index =
     (let is_active = (index < length (pr_states p) \<and> pr_states p ! index \<in> {1..4})
      in if file_payload_digest p j index \<noteq> None then Completed
         else if index \<in> set (pr_skipped_files p) then Skipped
         else if bt_get (pr_failures p) index \<noteq> None \<or> pr_active p = Some index \<or> is_active then Failed
         else Pending)"

record aggregate_summary =
  as_is_complete :: bool
  as_is_plan_complete :: bool
  as_is_checkpoint_available :: bool
  as_is_issuance_unknown :: bool
  as_total :: nat
  as_completed :: nat
  as_failed :: nat
  as_pending :: nat
  as_skipped :: nat
  as_files :: "file_status list"

definition aggregate :: "progress \<Rightarrow> cli_error option \<Rightarrow> aggregate_summary" where
  "aggregate p error =
     (let files = (case pr_journal p of
            None \<Rightarrow> []
          | Some j \<Rightarrow> map (file_payload_status p j) [0..<length (mf_files (jn_manifest j))]);
          completed = length (filter (\<lambda>f. f = Completed \<or> f = Skipped) files);
          failed = length (filter (\<lambda>f. f = Failed) files)
      in \<lparr>as_is_complete = (error = None), as_is_plan_complete = (pr_journal p \<noteq> None),
          as_is_checkpoint_available = pr_is_checkpoint_durable p,
          as_is_issuance_unknown = pr_is_issuing p, as_total = length files,
          as_completed = completed, as_failed = failed,
          as_pending = length files - completed - failed, as_skipped = pr_skipped p,
          as_files = files\<rparr>)"

section \<open>Lemmas: progress only grows\<close>

definition later :: "progress \<Rightarrow> progress \<Rightarrow> bool" where
  "later p p' \<longleftrightarrow>
     (case pr_journal p of
        None \<Rightarrow> pr_journal p' = None
      | Some j \<Rightarrow> \<exists>c. pr_journal p' = Some (j\<lparr>jn_completed := c\<rparr>) \<and> length c = length (jn_completed j)
          \<and> (\<forall>i. jn_completed j ! i \<noteq> None \<longrightarrow> c ! i \<noteq> None))
     \<and> set (pr_skipped_files p) \<subseteq> set (pr_skipped_files p')"

lemma later_same:
  "pr_journal p' = pr_journal p \<Longrightarrow> set (pr_skipped_files p) \<subseteq> set (pr_skipped_files p') \<Longrightarrow> later p p'"
  unfolding later_def by (auto split: option.split intro: exI [of _ "jn_completed (the (pr_journal p))"])

lemma later_refl [simp]: "later p p"
  by (rule later_same) simp_all

lemma later_trans: "later p q \<Longrightarrow> later q r \<Longrightarrow> later p r"
  unfolding later_def by (auto split: option.splits)

definition settled :: "progress \<Rightarrow> nat \<Rightarrow> bool" where
  "settled p i \<longleftrightarrow> is_completed p i \<or> i \<in> set (pr_skipped_files p)"

lemma later_settled: "later p q \<Longrightarrow> settled p i \<Longrightarrow> settled q i"
  unfolding later_def settled_def is_completed_def by (auto split: option.splits)

lemma later_entry: "later p q \<Longrightarrow> job_entry q i = job_entry p i"
  unfolding later_def job_entry_def by (auto split: option.splits)

text \<open>\<open>goes_on\<close>: the progress grows and nothing is issued.\<close>

definition goes_on :: "job_state \<Rightarrow> job_state \<Rightarrow> bool" where
  "goes_on s s' \<longleftrightarrow> later (jb_progress s) (jb_progress s') \<and> jb_issued s' = jb_issued s"

lemma goes_on_refl [simp]: "goes_on s s"
  by (simp add: goes_on_def)

lemma goes_on_trans: "goes_on s s1 \<Longrightarrow> goes_on s1 s2 \<Longrightarrow> goes_on s s2"
  unfolding goes_on_def using later_trans by metis

lemma goes_on_progress:
  "pr_journal (f (jb_progress s)) = pr_journal (jb_progress s) \<Longrightarrow>
   set (pr_skipped_files (jb_progress s)) \<subseteq> set (pr_skipped_files (f (jb_progress s))) \<Longrightarrow>
   goes_on s (with_progress f s)"
  by (simp add: goes_on_def later_same)

lemma goes_on_local [simp]: "goes_on s (s\<lparr>jb_local := st\<rparr>)"
  by (simp add: goes_on_def)

lemma set_state_simps [simp]:
  "pr_journal (set_state i v p) = pr_journal p" "pr_skipped_files (set_state i v p) = pr_skipped_files p"
  by (simp_all add: set_state_def)

lemma locally_goes_on: "locally f s = (r, s') \<Longrightarrow> goes_on s s' \<and> jb_progress s' = jb_progress s"
  by (auto simp: locally_def split: prod.splits)

lemma record_outcome_progress:
  assumes "record_outcome env index status error request_id s = (r, s')"
  shows "\<exists>a. jb_progress s' = (jb_progress s)\<lparr>pr_artifacts := a\<rparr>" and "jb_issued s' = jb_issued s"
  using assms
  by (auto simp: record_outcome_def Let_def split: option.splits result.splits prod.splits
      intro: exI [of _ "pr_artifacts (jb_progress s)"])

lemma record_outcome_goes_on: "record_outcome env index status error request_id s = (r, s') \<Longrightarrow> goes_on s s'"
  using record_outcome_progress by (fastforce simp: goes_on_def intro!: later_same)

lemma mark_skipped_goes_on:
  assumes "mark_skipped env index s = (r, s')"
  shows "goes_on s s'" and "settled (jb_progress s') index"
proof -
  let ?f = "\<lambda>p. set_state index 7 (p\<lparr>pr_skipped := Suc (pr_skipped p),
      pr_skipped_files := bset_put index (pr_skipped_files p)\<rparr>)"
  let ?s1 = "with_progress ?f s"
  have rec: "goes_on ?s1 s'"
    using record_outcome_goes_on assms unfolding mark_skipped_def by blast
  have one: "goes_on s ?s1" by (rule goes_on_progress) auto
  show "goes_on s s'" by (rule goes_on_trans [OF one rec])
  have "settled (jb_progress ?s1) index" by (simp add: settled_def)
  then show "settled (jb_progress s') index" using rec later_settled by (auto simp: goes_on_def)
qed

lemma fail_file_goes_on:
  assumes "fail_file env index error request_id s = (failure, s')"
  shows "goes_on s s'"
proof -
  let ?f = "note_failure index (agent_semantics (je_last_request_id env) error) request_id"
  have "goes_on s (with_progress ?f s)" by (rule goes_on_progress) (simp_all add: note_failure_def Let_def)
  moreover have "\<exists>m r. record_outcome env index ''failed'' m request_id (with_progress ?f s) = (r, s')"
    using assms by (auto simp: fail_file_def Let_def split: prod.splits)
  ultimately show ?thesis using record_outcome_goes_on goes_on_trans by blast
qed

lemma track_error_goes_on:
  assumes "track_error failure err s = (err', s')"
  shows "goes_on s s'" and "fst err' \<noteq> None" and "snd err \<Longrightarrow> snd err'"
  using assms by (cases failure; cases err; auto split: option.splits intro!: goes_on_progress)+

lemma save_completion_goes_on: "save_completion_progress env index s = (r, s') \<Longrightarrow> goes_on s s'"
  by (auto simp: save_completion_progress_def Let_def goes_on_def split: option.splits prod.splits
      intro!: later_same)

lemma prepare_skip_goes_on:
  assumes "prepare_skip env drv index s = (r, s')"
  shows "goes_on s s'" and "r = Ok True \<Longrightarrow> settled (jb_progress s') index"
proof -
  have "goes_on s s' \<and> (r = Ok True \<longrightarrow> settled (jb_progress s') index)"
  proof (cases "is_completed (jb_progress s) index")
    case True
    obtain x s1 where rec: "record_outcome env index ''skipped'' None None s = (x, s1)" by fastforce
    then have "s' = s1" using assms True by (cases x) (auto simp: prepare_skip_def tracking_def)
    moreover have "settled (jb_progress s) index" using True by (simp add: settled_def)
    ultimately show ?thesis
      using record_outcome_goes_on [OF rec] later_settled by (auto simp: goes_on_def)
  next
    case False
    obtain x s1 where one: "(case job_entry (jb_progress s) index of
                   Err e \<Rightarrow> (Err e, s)
                 | Ok e \<Rightarrow> locally (should_skip env drv e) s) = (x, s1)" by fastforce
    have g1: "goes_on s s1" using one locally_goes_on by (auto split: result.splits)
    show ?thesis
    proof (cases x)
      case (Err e)
      obtain failure s2 where "fail_file env index e None s1 = (failure, s2)" by fastforce
      then show ?thesis
        using assms False one Err goes_on_trans [OF g1 fail_file_goes_on]
        by (auto simp: prepare_skip_def)
    next
      case (Ok b)
      show ?thesis
      proof (cases b)
        case True
        obtain y s2 where skip: "mark_skipped env index s1 = (y, s2)" by fastforce
        then have "s' = s2" using assms False one Ok True
          by (cases y) (auto simp: prepare_skip_def tracking_def)
        then show ?thesis using mark_skipped_goes_on [OF skip] goes_on_trans [OF g1] by blast
      next
        case nb: False
        then show ?thesis using assms False one Ok g1 by (auto simp: prepare_skip_def)
      qed
    qed
  qed
  then show "goes_on s s'" and "r = Ok True \<Longrightarrow> settled (jb_progress s') index" by blast+
qed

lemma complete_entry_later:
  assumes "pr_journal p = Some j"
  shows "later p (complete_entry index digest request_id j p)"
proof -
  have "(jn_completed j)[index := Some digest] ! k \<noteq> None" if "jn_completed j ! k \<noteq> None" for k
    using that by (cases "k = index"; cases "index < length (jn_completed j)") (auto simp: list_update_beyond)
  then show ?thesis
    using assms unfolding later_def complete_entry_def
    by (auto intro!: exI [of _ "(jn_completed j)[index := Some digest]"])
qed

lemma complete_entry_settled:
  "index < length (jn_completed j) \<Longrightarrow> settled (complete_entry index digest request_id j p) index"
  by (simp add: settled_def is_completed_def complete_entry_def)

text \<open>A well-formed journal has one completion slot per file.\<close>

definition slots_ok :: "progress \<Rightarrow> bool" where
  "slots_ok p \<longleftrightarrow>
     (\<forall>j. pr_journal p = Some j \<longrightarrow> length (jn_completed j) = length (mf_files (jn_manifest j)))"

lemma later_slots: "later p q \<Longrightarrow> slots_ok p \<Longrightarrow> slots_ok q"
  unfolding later_def slots_ok_def by (auto split: option.splits)

lemma entry_slot:
  assumes "job_entry p index = Ok e" and "slots_ok p" and "pr_journal p = Some j"
  shows "index < length (jn_completed j)"
  using assms by (auto simp: job_entry_def slots_ok_def split: if_splits)

lemma discard_staged_goes_on [simp]: "goes_on s (discard_staged env staged s)"
  by (simp add: discard_staged_def)

lemma finish_published_goes_on:
  assumes "finish_published env drv index e digest request_id s = (r, s')"
  shows "goes_on s s'"
    and "r = Ok () \<Longrightarrow> slots_ok (jb_progress s) \<Longrightarrow> job_entry (jb_progress s) index = Ok e' \<Longrightarrow>
      settled (jb_progress s') index"
proof -
  have "goes_on s s' \<and> (r = Ok () \<longrightarrow> slots_ok (jb_progress s) \<longrightarrow> job_entry (jb_progress s) index = Ok e' \<longrightarrow>
      settled (jb_progress s') index)"
  proof (cases "pr_journal (jb_progress s)")
    case None
    then show ?thesis using assms by (auto simp: finish_published_def)
  next
    case (Some j)
    let ?s3 = "with_progress (complete_entry index digest request_id j) s"
    obtain saved s4 where save: "save_completion_progress env index ?s3 = (saved, s4)" by fastforce
    obtain reported s5 where rep: "record_outcome env index ''succeeded'' None request_id s4 = (reported, s5)"
      by fastforce
    have g3: "goes_on s ?s3" using complete_entry_later [OF Some] by (simp add: goes_on_def)
    note g5 = goes_on_trans [OF save_completion_goes_on [OF save] record_outcome_goes_on [OF rep]]
    obtain z s6 where clear: "locally (clear_completed_ranges (je_codec env) (dv_threshold drv)
        (job_request drv e)) s5 = (z, s6)" by fastforce
    have warn: "goes_on s6 (with_progress (\<lambda>p. p\<lparr>pr_cleanup_warning := True\<rparr>) s6)"
      by (rule goes_on_progress) simp_all
    note g6 = conjunct1 [OF locally_goes_on [OF clear]]
    have "goes_on s5 s'"
    proof (cases "try_in saved (\<lambda>_. reported)")
      case (Err error)
      then show ?thesis using assms by (simp add: finish_published_def Some save rep)
    next
      case (Ok u)
      then show ?thesis using assms g6 goes_on_trans [OF g6 warn]
        by (cases z) (auto simp: finish_published_def Some save rep clear)
    qed
    then have g: "goes_on ?s3 s'" using goes_on_trans [OF g5] by blast
    have "settled (jb_progress s') index"
      if slots: "slots_ok (jb_progress s)" and entry: "job_entry (jb_progress s) index = Ok e'"
    proof -
      have "settled (jb_progress ?s3) index"
        using complete_entry_settled [OF entry_slot [OF entry slots Some]] by simp
      then show ?thesis using g later_settled by (auto simp: goes_on_def)
    qed
    then show ?thesis using goes_on_trans [OF g3 g] by blast
  qed
  then show "goes_on s s'"
    and "r = Ok () \<Longrightarrow> slots_ok (jb_progress s) \<Longrightarrow> job_entry (jb_progress s) index = Ok e' \<Longrightarrow>
      settled (jb_progress s') index" by blast+
qed

text \<open>The course of \<open>finish_file\<close>.\<close>

lemma finish_file_cases:
  assumes "finish_file env drv index (staged, digest) request_id s = (r, s')"
  obtains (no_entry) "s' = discard_staged env staged s" and "r \<noteq> Ok ()"
  | (skipped) e s1 y s2 where "job_entry (jb_progress s) index = Ok e"
      and "locally (should_skip env drv e) s = (Ok True, s1)"
      and "mark_skipped env index s1 = (y, s2)" and "s' = discard_staged env staged s2"
  | (unclear) e error s1 failure s2 where "job_entry (jb_progress s) index = Ok e"
      and "locally (should_skip env drv e) s = (Err error, s1)"
      and "fail_file env index error None s1 = (failure, s2)" and "s' = discard_staged env staged s2"
      and "r = Err failure"
  | (unpublished) e s1 error s2 failure where "job_entry (jb_progress s) index = Ok e"
      and "locally (should_skip env drv e) s = (Ok False, s1)"
      and "locally (publish_staged env drv staged) s1 = (Err error, s2)"
      and "fail_file env index (Io error) None s2 = (failure, s')" and "r = Err failure"
  | (published) e s1 s2 where "job_entry (jb_progress s) index = Ok e"
      and "locally (should_skip env drv e) s = (Ok False, s1)"
      and "locally (publish_staged env drv staged) s1 = (Ok (), s2)"
      and "finish_published env drv index e digest request_id s2 = (r, s')"
proof (cases "job_entry (jb_progress s) index")
  case (Err e)
  then show thesis using assms no_entry by (auto simp: finish_file_def)
next
  case entry: (Ok e)
  obtain x s1 where one: "locally (should_skip env drv e) s = (x, s1)" by fastforce
  show thesis
  proof (cases x)
    case (Err error)
    obtain failure s2 where "fail_file env index error None s1 = (failure, s2)" by fastforce
    then show thesis using unclear assms entry one Err by (auto simp: finish_file_def)
  next
    case (Ok b)
    show thesis
    proof (cases b)
      case True
      obtain y s2 where "mark_skipped env index s1 = (y, s2)" by fastforce
      then show thesis using skipped assms entry one Ok True by (auto simp: finish_file_def tracking_def)
    next
      case False
      obtain y s2 where pub: "locally (publish_staged env drv staged) s1 = (y, s2)" by fastforce
      show thesis
      proof (cases y)
        case (Err error)
        obtain failure s3 where "fail_file env index (Io error) None s2 = (failure, s3)" by fastforce
        then show thesis using unpublished assms entry one Ok False pub Err by (auto simp: finish_file_def)
      next
        case ok: (Ok u)
        then show thesis using published assms entry one Ok False pub by (auto simp: finish_file_def)
      qed
    qed
  qed
qed

lemma finish_file_goes_on:
  assumes "finish_file env drv index prepared request_id s = (r, s')"
  shows "goes_on s s'" and "r = Ok () \<Longrightarrow> slots_ok (jb_progress s) \<Longrightarrow> settled (jb_progress s') index"
proof -
  obtain staged digest where prep: "prepared = (staged, digest)" by (cases prepared)
  from assms [unfolded prep]
  have "goes_on s s' \<and> (r = Ok () \<longrightarrow> slots_ok (jb_progress s) \<longrightarrow> settled (jb_progress s') index)"
  proof (cases rule: finish_file_cases)
    case no_entry
    then show ?thesis by simp
  next
    case (skipped e s1 y s2)
    then have "goes_on s s2" using locally_goes_on mark_skipped_goes_on goes_on_trans by blast
    then show ?thesis
      using skipped(4) mark_skipped_goes_on(2) [OF skipped(3)] by (simp add: discard_staged_def goes_on_def)
  next
    case (unclear e error s1 failure s2)
    then have "goes_on s s2" using locally_goes_on fail_file_goes_on goes_on_trans by blast
    then show ?thesis using unclear(4,5) by (simp add: discard_staged_def goes_on_def)
  next
    case (unpublished e s1 error s2 failure)
    note g = conjunct1 [OF locally_goes_on [OF unpublished(2)]] conjunct1 [OF locally_goes_on [OF unpublished(3)]]
    show ?thesis
      using goes_on_trans [OF goes_on_trans [OF g] fail_file_goes_on [OF unpublished(4)]] unpublished(5) by simp
  next
    case (published e s1 s2)
    note g = goes_on_trans [OF conjunct1 [OF locally_goes_on [OF published(2)]]
        conjunct1 [OF locally_goes_on [OF published(3)]]]
    then have "job_entry (jb_progress s2) index = Ok e" "slots_ok (jb_progress s) \<Longrightarrow> slots_ok (jb_progress s2)"
      using published(1) later_entry later_slots by (auto simp: goes_on_def)
    then show ?thesis using finish_published_goes_on [OF published(4)] goes_on_trans [OF g] by blast
  qed
  then show "goes_on s s'" and "r = Ok () \<Longrightarrow> slots_ok (jb_progress s) \<Longrightarrow> settled (jb_progress s') index"
    by blast+
qed

lemma accept_goes_on:
  assumes "accept_outcome env drv outcome s = (r, s')"
  shows "goes_on s s'"
    and "r = Ok () \<Longrightarrow> slots_ok (jb_progress s) \<Longrightarrow> settled (jb_progress s') (oc_index outcome)"
  using assms finish_file_goes_on fail_file_goes_on
  by (auto simp: accept_outcome_def split: result.splits prod.splits)

lemma issue_effect:
  assumes "issue_address env index e s = (r, rid, state, s')"
  shows "later (jb_progress s) (jb_progress s')" and "jb_issued s' \<in> {jb_issued s, jb_issued s @ [index]}"
    and "state = 2 \<Longrightarrow> \<not> is_ok r \<Longrightarrow> pr_states (jb_progress s) ! index \<noteq> 2 \<Longrightarrow> jb_issued s' = jb_issued s @ [index]"
  using assms
  by (auto simp: issue_address_def capture_scope_def Let_def map_issuance_def intro!: later_same
      split: result.splits if_splits)

lemma run_job_effect:
  assumes "run_job env drv index e ranges s = Some (outcome, s')"
  shows "oc_index outcome = index" and "later (jb_progress s) (jb_progress s')"
    and "jb_issued s' \<in> {jb_issued s, jb_issued s @ [index]}"
    and "oc_is_unknown outcome \<Longrightarrow> \<not> is_ok (oc_result outcome)"
proof -
  obtain r rid state s1 where one: "issue_address env index e s = (r, rid, state, s1)" by (metis prod.collapse)
  note i = issue_effect [OF one]
  have "oc_index outcome = index \<and> later (jb_progress s1) (jb_progress s') \<and> jb_issued s' = jb_issued s1
    \<and> (oc_is_unknown outcome \<longrightarrow> \<not> is_ok (oc_result outcome))"
    using assms one
    by (auto simp: run_job_def capture_scope_def Let_def intro!: later_same split: result.splits if_splits)
  then show "oc_index outcome = index" and "later (jb_progress s) (jb_progress s')"
    and "jb_issued s' \<in> {jb_issued s, jb_issued s @ [index]}"
    and "oc_is_unknown outcome \<Longrightarrow> \<not> is_ok (oc_result outcome)"
    using i(2) later_trans [OF i(1)] by auto
qed

section \<open>Lemmas: the driver\<close>

definition queue_ok :: "progress \<Rightarrow> queue_state \<Rightarrow> job_state \<Rightarrow> bool" where
  "queue_ok p0 q s \<longleftrightarrow>
     (case q of (index, pending, first, is_stopped) \<Rightarrow>
        distinct (map fst pending) \<and> (\<forall>(i, e) \<in> set pending. i < index \<and> job_entry (jb_progress s) i = Ok e)
        \<and> distinct (jb_issued s) \<and> (\<forall>i \<in> set (jb_issued s). i < index \<and> i \<notin> fst ` set pending)
        \<and> (\<forall>i \<in> set (jb_issued s) \<union> fst ` set pending. \<not> is_completed p0 i)
        \<and> slots_ok (jb_progress s) \<and> later p0 (jb_progress s)
        \<and> (first = None \<longrightarrow>
             \<not> is_stopped \<and> (\<forall>i < index. i \<in> fst ` set pending \<or> settled (jb_progress s) i)))"

lemma later_not_completed: "later p q \<Longrightarrow> \<not> is_completed q i \<Longrightarrow> \<not> is_completed p i"
  unfolding later_def is_completed_def by (auto split: option.splits)

lemma queue_goes_on:
  assumes "queue_ok p0 (index, pending, first, is_stopped) s" and "goes_on s s'"
  shows "queue_ok p0 (index, pending, first, is_stopped) s'"
proof -
  have l: "later (jb_progress s) (jb_progress s')" "jb_issued s' = jb_issued s"
    using assms(2) by (simp_all add: goes_on_def)
  have "later p0 (jb_progress s')" using assms(1) later_trans l(1) unfolding queue_ok_def by auto
  moreover have "slots_ok (jb_progress s')" using assms(1) later_slots l(1) unfolding queue_ok_def by auto
  ultimately show ?thesis
    using assms(1) l(2) later_entry [OF l(1)] later_settled [OF l(1)] unfolding queue_ok_def by auto
qed

lemma queue_next_settled:
  assumes "queue_ok p0 (index, pending, first, is_stopped) s" and "settled (jb_progress s) index"
  shows "queue_ok p0 (Suc index, pending, first, is_stopped) s"
  using assms unfolding queue_ok_def by (auto simp: less_Suc_eq)

lemma queue_next_failed:
  assumes "queue_ok p0 (index, pending, first, is_stopped) s" and "first' \<noteq> None"
  shows "queue_ok p0 (Suc index, pending, first', is_stopped') s"
  using assms unfolding queue_ok_def by (auto simp: less_Suc_eq)

lemma queue_next_pending:
  assumes "queue_ok p0 (index, pending, first, is_stopped) s" and "job_entry (jb_progress s) index = Ok e"
    and "\<not> is_completed (jb_progress s) index"
  shows "queue_ok p0 (Suc index, pending @ [(index, e)], first, is_stopped) s"
proof -
  have "index \<notin> fst ` set pending" "index \<notin> set (jb_issued s)" using assms(1) unfolding queue_ok_def by auto
  moreover have "\<not> is_completed p0 index"
    using assms later_not_completed unfolding queue_ok_def by auto
  ultimately show ?thesis using assms(1,2) unfolding queue_ok_def by (auto simp: less_Suc_eq)
qed

lemma prepare_skip_False:
  assumes "prepare_skip env drv index s = (Ok False, s')"
  shows "\<not> is_completed (jb_progress s') index"
proof -
  have nc: "\<not> is_completed (jb_progress s) index"
    using assms by (auto simp: prepare_skip_def st_try_Ok_iff split: if_splits)
  obtain x s1 where one: "(case job_entry (jb_progress s) index of
                   Err e \<Rightarrow> (Err e, s)
                 | Ok e \<Rightarrow> locally (should_skip env drv e) s) = (x, s1)" by fastforce
  have "x = Ok False \<and> s' = s1"
    using assms nc one
    by (auto simp: prepare_skip_def st_try_Ok_iff split: result.splits bool.splits prod.splits)
  then have "jb_progress s' = jb_progress s" using one locally_goes_on by (auto split: result.splits)
  then show ?thesis using nc by simp
qed

lemma start_jobs_ok:
  assumes "start_jobs env drv n index pending err s = (r, s')"
    and "queue_ok p0 (index, pending, err) s"
  shows "goes_on s s'"
    and "r = Ok (index', pending', err') \<Longrightarrow> queue_ok p0 (index', pending', err') s'
      \<and> (n \<le> index' \<or> case_option 16 id (dv_batch_concurrency drv) \<le> length pending' \<or> snd err')"
proof -
  have "goes_on s s' \<and> (\<forall>index' pending' err'. r = Ok (index', pending', err') \<longrightarrow>
      queue_ok p0 (index', pending', err') s'
      \<and> (n \<le> index' \<or> case_option 16 id (dv_batch_concurrency drv) \<le> length pending' \<or> snd err'))"
    using assms
  proof (induction env drv n index pending err s rule: start_jobs.induct)
    case (1 env drv n index pending err s)
    let ?more = "index < n \<and> length pending < case_option 16 id (dv_batch_concurrency drv) \<and> \<not> snd err"
    obtain first is_stopped where err: "err = (first, is_stopped)" by (cases err)
    show ?case
    proof (cases ?more)
      case False
      then show ?thesis using "1.prems" by (auto simp: start_jobs.simps not_less)
    next
      case more: True
      obtain x s1 where one: "prepare_skip env drv index s = (x, s1)" by fastforce
      note g1 = prepare_skip_goes_on(1) [OF one]
      have q1: "queue_ok p0 (index, pending, first, is_stopped) s1"
        using queue_goes_on "1.prems"(2) g1 unfolding err by blast
      show ?thesis
      proof (cases x)
        case (Err failure)
        obtain err2 s2 where two: "track_error failure err s1 = (err2, s2)" by fastforce
        note t = track_error_goes_on [OF two]
        have "queue_ok p0 (Suc index, pending, err2) s2"
          using queue_next_failed [OF queue_goes_on [OF q1 t(1)], of "fst err2" "snd err2"] t(2) by simp
        moreover have "start_jobs env drv n (Suc index) pending err2 s2 = (r, s')"
          using "1.prems"(1) more one Err two by (subst (asm) start_jobs.simps) simp
        ultimately show ?thesis
          using "1.IH"(3) [OF more one [symmetric] Err two [symmetric]] goes_on_trans [OF goes_on_trans [OF g1 t(1)]]
          by blast
      next
        case (Ok b)
        show ?thesis
        proof (cases b)
          case True
          have "settled (jb_progress s1) index" using prepare_skip_goes_on(2) [OF one] Ok True by simp
          then have "queue_ok p0 (Suc index, pending, err) s1" using queue_next_settled [OF q1] err by simp
          moreover have "start_jobs env drv n (Suc index) pending err s1 = (r, s')"
            using "1.prems"(1) more one Ok True by (subst (asm) start_jobs.simps) simp
          ultimately show ?thesis
            using "1.IH"(1) [OF more one [symmetric] Ok] True goes_on_trans [OF g1] by auto
        next
          case b: False
          show ?thesis
          proof (cases "job_entry (jb_progress s1) index")
            case (Err e)
            then show ?thesis using "1.prems"(1) more one Ok b g1 by (subst (asm) start_jobs.simps) auto
          next
            case entry: (Ok e)
            let ?s2 = "with_progress (set_state index 1) s1"
            have g2: "goes_on s1 ?s2" by (rule goes_on_progress) simp_all
            have nc: "\<not> is_completed (jb_progress s1) index" using prepare_skip_False one Ok b by simp
            have "queue_ok p0 (Suc index, pending @ [(index, e)], err) ?s2"
              using queue_goes_on [OF queue_next_pending [OF q1 entry nc] g2] err by simp
            moreover have "start_jobs env drv n (Suc index) (pending @ [(index, e)]) err ?s2 = (r, s')"
              using "1.prems"(1) more one Ok b entry by (subst (asm) start_jobs.simps) simp
            ultimately show ?thesis
              using "1.IH"(2) [OF more one [symmetric] Ok] b entry goes_on_trans [OF goes_on_trans [OF g1 g2]] by auto
          qed
        qed
      qed
    qed
  qed
  then show "goes_on s s'"
    and "r = Ok (index', pending', err') \<Longrightarrow> queue_ok p0 (index', pending', err') s'
      \<and> (n \<le> index' \<or> case_option 16 id (dv_batch_concurrency drv) \<le> length pending' \<or> snd err')"
    by blast+
qed

text \<open>One completed job.\<close>

definition note_unknown :: "job_outcome \<Rightarrow> job_state \<Rightarrow> job_state" where
  "note_unknown outcome s =
     (if oc_is_unknown outcome then with_progress (\<lambda>p. p\<lparr>pr_is_issuing := True\<rparr>) s else s)"

lemma note_unknown_goes_on [simp]: "goes_on s (note_unknown outcome s)"
  unfolding note_unknown_def by (auto intro!: goes_on_progress)

lemma remove_at_keys:
  assumes "distinct (map fst pending)" and "i < length pending"
  shows "distinct (map fst (remove_at i pending))"
    and "fst ` set (remove_at i pending) = fst ` set pending - {fst (pending ! i)}"
    and "set (remove_at i pending) \<subseteq> set pending"
proof -
  have m: "map fst (remove_at i pending) = remove_at i (map fst pending)"
    by (simp add: remove_at_def take_map drop_map)
  note r = remove_at_distinct [of "map fst pending" i]
  show "distinct (map fst (remove_at i pending))" using r(2) assms m by simp
  show "fst ` set (remove_at i pending) = fst ` set pending - {fst (pending ! i)}"
    using r(1) assms m by (metis length_map list.set_map nth_map)
  show "set (remove_at i pending) \<subseteq> set pending"
    by (auto simp: remove_at_def dest: in_set_takeD in_set_dropD)
qed

lemma queue_job_done:
  assumes "queue_ok p0 (index, pending, first, is_stopped) s" and "i < length pending"
    and "pending ! i = (job, e)" and "later (jb_progress s) (jb_progress s')"
    and "jb_issued s' \<in> {jb_issued s, jb_issued s @ [job]}"
    and "first' = None \<longrightarrow> first = None \<and> \<not> is_stopped' \<and> settled (jb_progress s') job"
  shows "queue_ok p0 (index, remove_at i pending, first', is_stopped') s'"
proof -
  have q: "distinct (map fst pending)" "\<forall>(i, e) \<in> set pending. i < index \<and> job_entry (jb_progress s) i = Ok e"
    "distinct (jb_issued s)" "\<forall>i \<in> set (jb_issued s). i < index \<and> i \<notin> fst ` set pending"
    "\<forall>i \<in> set (jb_issued s) \<union> fst ` set pending. \<not> is_completed p0 i"
    "slots_ok (jb_progress s)" "later p0 (jb_progress s)"
    "first = None \<longrightarrow> (\<forall>i < index. i \<in> fst ` set pending \<or> settled (jb_progress s) i)"
    using assms(1) unfolding queue_ok_def by auto
  have job: "(job, e) \<in> set pending" using assms(2,3) nth_mem by metis
  then have jk: "job \<in> fst ` set pending" "job < index" using q(2) by force+
  note r = remove_at_keys [OF q(1) assms(2), unfolded assms(3) fst_conv]
  have "\<forall>(i, e) \<in> set (remove_at i pending). i < index \<and> job_entry (jb_progress s') i = Ok e"
    using q(2) r(3) later_entry [OF assms(4)] by fastforce
  moreover have "distinct (jb_issued s')" using assms(5) q(3,4) jk by auto
  moreover have "\<forall>k \<in> set (jb_issued s'). k < index \<and> k \<notin> fst ` set (remove_at i pending)"
    using assms(5) q(4) jk r(2) by auto
  moreover have "\<forall>k \<in> set (jb_issued s') \<union> fst ` set (remove_at i pending). \<not> is_completed p0 k"
  proof -
    have "\<not> is_completed p0 job" using q(5) jk(1) by blast
    then show ?thesis using assms(5) q(5) r(2) by auto
  qed
  moreover have "first' = None \<longrightarrow> \<not> is_stopped' \<and>
      (\<forall>k < index. k \<in> fst ` set (remove_at i pending) \<or> settled (jb_progress s') k)"
    using assms(6) q(8) r(2) later_settled [OF assms(4)] by auto
  moreover have "later p0 (jb_progress s')" "slots_ok (jb_progress s')"
    using later_trans [OF q(7) assms(4)] later_slots [OF assms(4) q(6)] by blast+
  ultimately show ?thesis using r(1) unfolding queue_ok_def by auto
qed

text \<open>How one turn of the loop goes on.\<close>

lemma transfer_loop_turn:
  assumes "transfer_loop env drv n schedule (index, pending, err) s = (status, s')"
  obtains (broken) e where "start_jobs env drv n index pending err s = (Err e, s')" and "status = Returned (Err e)"
  | (ended) index' first is_stopped where
      "start_jobs env drv n index pending err s = (Ok (index', [], first, is_stopped), s')"
      and "status = Returned (case first of None \<Rightarrow> Ok () | Some e \<Rightarrow> Err e)"
  | (cut) q where "start_jobs env drv n index pending err s = (Ok q, s')" and "status = Interrupted"
  | (turn) index' pending' first is_stopped s1 choice ranges rest i job e outcome s2 r s3 err' s4 where
      "start_jobs env drv n index pending err s = (Ok (index', pending', first, is_stopped), s1)"
      and "schedule = (choice, ranges) # rest" and "i < length pending'" and "i = choice mod length pending'"
      and "pending' ! i = (job, e)"
      and "run_job env drv job e ranges s1 = Some (outcome, s2)"
      and "accept_outcome env drv outcome (note_unknown outcome s2) = (r, s3)"
      and "(case r of Ok _ \<Rightarrow> ((first, is_stopped \<or> oc_is_unknown outcome), s3)
            | Err failure \<Rightarrow> track_error failure (first, is_stopped \<or> oc_is_unknown outcome) s3) = (err', s4)"
      and "transfer_loop env drv n rest (index', remove_at i pending', err') s4 = (status, s')"
proof -
  obtain x s1 where one: "start_jobs env drv n index pending err s = (x, s1)" by fastforce
  show thesis
  proof (cases x)
    case (Err e)
    then show thesis using broken assms one by (subst (asm) transfer_loop.simps) simp
  next
    case (Ok q)
    obtain index' pending' first is_stopped where q: "q = (index', pending', first, is_stopped)" by (cases q)
    show thesis
    proof (cases "pending' = []")
      case True
      then show thesis using ended assms one Ok q by (subst (asm) transfer_loop.simps) simp
    next
      case np: False
      show thesis
      proof (cases schedule)
        case Nil
        then show thesis using cut assms one Ok q np by (subst (asm) transfer_loop.simps) simp
      next
        case (Cons c rest)
        obtain choice ranges where c: "c = (choice, ranges)" by (cases c)
        let ?i = "choice mod length pending'"
        obtain job e where job: "pending' ! ?i = (job, e)" by (cases "pending' ! ?i")
        show thesis
        proof (cases "run_job env drv job e ranges s1")
          case None
          then show thesis using cut assms one Ok q np Cons c job by (subst (asm) transfer_loop.simps) simp
        next
          case (Some p)
          obtain outcome s2 where p: "p = (outcome, s2)" by (cases p)
          obtain r s3 where acc: "accept_outcome env drv outcome (note_unknown outcome s2) = (r, s3)" by fastforce
          obtain err' s4 where trk: "(case r of Ok _ \<Rightarrow> ((first, is_stopped \<or> oc_is_unknown outcome), s3)
            | Err failure \<Rightarrow> track_error failure (first, is_stopped \<or> oc_is_unknown outcome) s3) = (err', s4)"
            by (metis surj_pair)
          have "transfer_loop env drv n rest (index', remove_at ?i pending', err') s4 = (status, s')"
            using assms one Ok q np Cons c job Some p acc trk
            by (cases r) (simp_all add: transfer_loop.simps [of _ _ _ "_ # _"] note_unknown_def [symmetric])
          then show thesis using turn [of index' pending' first is_stopped s1 choice ranges rest ?i] one Ok q Cons c job
              Some p acc trk np by simp
        qed
      qed
    qed
  qed
qed

text \<open>What a turn does to the queue.\<close>

lemma turn_queue_ok:
  assumes ok: "queue_ok p0 (index', pending', first, is_stopped) s1" and i: "i < length pending'"
    and pick: "pending' ! i = (job, e)" and run: "run_job env drv job e ranges s1 = Some (outcome, s2)"
    and acc: "accept_outcome env drv outcome (note_unknown outcome s2) = (r, s3)"
    and trk: "(case r of Ok _ \<Rightarrow> ((first, is_stopped \<or> oc_is_unknown outcome), s3)
      | Err failure \<Rightarrow> track_error failure (first, is_stopped \<or> oc_is_unknown outcome) s3) = (err', s4)"
  shows "queue_ok p0 (index', remove_at i pending', err') s4"
proof -
  note job = run_job_effect [OF run] and acc' = accept_goes_on [OF acc]
  have g: "goes_on s2 s3" by (rule goes_on_trans [OF note_unknown_goes_on acc'(1)])
  obtain first' stopped' where err': "err' = (first', stopped')" by (cases err')
  have track: "goes_on s3 s4 \<and> (first' = None \<longrightarrow> r = Ok () \<and> first = None \<and> \<not> stopped'
      \<and> settled (jb_progress s3) job)"
  proof (cases r)
    case (Err failure)
    then show ?thesis using trk track_error_goes_on [of failure _ s3 err' s4] err' by auto
  next
    case (Ok u)
    have "slots_ok (jb_progress (note_unknown outcome s2))"
      using ok later_slots [OF job(2)] by (auto simp: queue_ok_def note_unknown_def slots_ok_def)
    then have "settled (jb_progress s3) job" using acc'(2) Ok job(1) by simp
    moreover have "\<not> oc_is_unknown outcome"
    proof
      assume "oc_is_unknown outcome"
      then obtain error where "oc_result outcome = Err error" using job(4) by (cases "oc_result outcome") auto
      then show False using acc Ok by (auto simp: accept_outcome_def split: prod.splits)
    qed
    moreover have "first = None \<longrightarrow> \<not> is_stopped" using ok by (auto simp: queue_ok_def)
    ultimately show ?thesis using trk Ok err' by auto
  qed
  have l: "later (jb_progress s1) (jb_progress s4)" "later (jb_progress s3) (jb_progress s4)"
    using later_trans [OF job(2)] later_trans g track unfolding goes_on_def by blast+
  have issued: "jb_issued s4 \<in> {jb_issued s1, jb_issued s1 @ [job]}"
    using job(3) g track by (auto simp: goes_on_def)
  show ?thesis
    unfolding err'
    by (rule queue_job_done [OF ok i pick l(1) issued]) (use track later_settled [OF l(2)] in auto)
qed

text \<open>The loop: what holds of the queue holds at the end.\<close>

lemma transfer_loop_end:
  assumes "transfer_loop env drv n schedule (index, pending, err) s = (status, s')"
    and "queue_ok p0 (index, pending, err) s"
  shows "\<exists>index' pending' err'. queue_ok p0 (index', pending', err') s'
    \<and> (status = Returned (Ok ()) \<longrightarrow> pending' = [] \<and> fst err' = None
        \<and> (n \<le> index' \<or> dv_batch_concurrency drv = Some 0))"
  using assms
proof (induction schedule arbitrary: index pending err s rule: measure_induct_rule [where f = length])
  case (less schedule)
  let ?post = "\<exists>index' pending' err'. queue_ok p0 (index', pending', err') s'
    \<and> (status = Returned (Ok ()) \<longrightarrow> pending' = [] \<and> fst err' = None
        \<and> (n \<le> index' \<or> dv_batch_concurrency drv = Some 0))"
  obtain f0 b0 where err: "err = (f0, b0)" by (cases err)
  have same: ?post if "queue_ok p0 (i, p, f, b) s'" "status = Returned (Ok ()) \<Longrightarrow> p = [] \<and> f = None
      \<and> (n \<le> i \<or> dv_batch_concurrency drv = Some 0)" for i p f b
    using that by (intro exI [of _ i] exI [of _ p] exI [of _ "(f, b)"]) auto
  from less.prems(1) show ?case
  proof (cases rule: transfer_loop_turn)
    case (broken e)
    then have "queue_ok p0 (index, pending, f0, b0) s'"
      using queue_goes_on [OF _ start_jobs_ok(1)] less.prems(2) unfolding err by blast
    then show ?thesis using same broken(2) by blast
  next
    case (ended index' first is_stopped)
    note ok = start_jobs_ok(2) [OF ended(1) less.prems(2) refl]
    have "\<not> is_stopped" if "first = None" using ok that unfolding queue_ok_def by auto
    then have "status = Returned (Ok ()) \<Longrightarrow> first = None \<and> (n \<le> index' \<or> dv_batch_concurrency drv = Some 0)"
      using ended(2) ok by (auto split: option.splits)
    then show ?thesis using same ok by blast
  next
    case (cut q)
    obtain i p f b where q: "q = (i, p, f, b)" by (cases q)
    have "queue_ok p0 (i, p, f, b) s'" using start_jobs_ok(2) [OF cut(1) less.prems(2)] q by blast
    then show ?thesis using same cut(2) by blast
  next
    case (turn index' pending' first is_stopped s1 choice ranges rest i job e outcome s2 r s3 err' s4)
    note ok = conjunct1 [OF start_jobs_ok(2) [OF turn(1) less.prems(2) refl]]
    obtain first' stopped' where err': "err' = (first', stopped')" by (cases err')
    have "queue_ok p0 (index', remove_at i pending', first', stopped') s4"
      using turn_queue_ok [OF ok turn(3,5-8)] err' by simp
    then show ?thesis using less.IH [OF _ turn(9)] turn(2) err' by simp
  qed
qed

section \<open>A concrete run\<close>

text \<open>
  For the witnesses: two files, the first completed by an earlier run, the second to be issued
  by a service whose answer is lost.
\<close>

definition demo_job_env :: job_env where
  "demo_job_env =
     \<lparr>je_content = (\<lambda>_. demo_env), je_local = demo_env, je_codec = demo_codec,
      je_coding = \<lparr>cd_hashing = demo_hashing, cd_derive = (\<lambda>_. Ok []), cd_fold_path = id\<rparr>,
      je_session = (\<lambda>_. Ok ()), je_issue = (\<lambda>_ _. Err (ClientHttp ''timeout'')),
      je_issue_events = (\<lambda>_. []), je_is_valid_url = (\<lambda>_. True), je_modified = (\<lambda>_ _. Ok 0),
      je_save = (\<lambda>_. \<lparr>se_create = Published, se_publish = Published, se_append = (\<lambda>_. Appended)\<rparr>),
      je_append = (\<lambda>_. Appended), je_last_request_id = None\<rparr>"

definition demo_driver :: "overwrite_strategy \<Rightarrow> driver" where
  "demo_driver strategy =
     \<lparr>dv_strategy = Some strategy, dv_directory = [''d''], dv_threshold = 1, dv_concurrency = 1,
      dv_recovery = None, dv_batch_concurrency = Some 1\<rparr>"

definition demo_file :: "string \<Rightarrow> entry" where
  "demo_file name = \<lparr>en_local = name, en_remote = demo_remote\<lparr>rf_path := name\<rparr>\<rparr>"

definition demo_jobs :: job_state where
  "demo_jobs =
     \<lparr>jb_progress =
        \<lparr>pr_journal = Some ((demo_journal None)\<lparr>
             jn_manifest := (jn_manifest (demo_journal None))\<lparr>mf_files := [demo_file ''f'', demo_file ''g'']\<rparr>,
             jn_completed := [Some ''x'', None]\<rparr>),
         pr_checkpoint = None, pr_is_checkpoint_durable = False, pr_active = None, pr_is_issuing = False,
         pr_failure_status_code = None, pr_failure_request_id = None, pr_skipped = 0,
         pr_is_resuming = True, pr_verified = [True, False], pr_states = [], pr_failures = [],
         pr_skipped_files = [], pr_request_ids = [], pr_artifacts = None, pr_cleanup_warning = False,
         pr_is_tracking_failure = False, pr_directory_failures = []\<rparr>,
      jb_local = demo_state, jb_issued = []\<rparr>"

lemma demo_relative: "validate_relative ''g'' = Ok ()"
proof -
  have "is_ok (validate_relative ''g'')" by code_simp
  then show ?thesis by (simp add: is_ok_unit)
qed

lemmas demo_job_defs = demo_job_env_def demo_driver_def demo_file_def demo_jobs_def demo_journal_def
  demo_remote_def demo_state_def demo_env_def

section \<open>Properties\<close>

lemma queue_start:
  assumes "pr_journal (jb_progress s) = Some j"
    and "length (jn_completed j) = length (mf_files (jn_manifest j))" and "jb_issued s = []"
  shows "queue_ok (jb_progress s) (0, [], None, False)
    (with_progress (\<lambda>p. p\<lparr>pr_states := replicate n 0\<rparr>) s)"
  using assms by (auto simp: queue_ok_def slots_ok_def intro!: later_same)

text \<open>
  A download that reports success left nothing out. When the transfers return without an
  error, every file of the manifest is completed, before or by this run, or was skipped by the
  overwrite policy.
\<close>

theorem success_is_complete:
  assumes "transfer_files env drv schedule s = (Returned (Ok ()), s')"
    and "pr_journal (jb_progress s) = Some j"
    and "length (jn_completed j) = length (mf_files (jn_manifest j))"
    and "jb_issued s = []" and "dv_batch_concurrency drv \<noteq> Some 0"
  shows "i < length (mf_files (jn_manifest j)) \<Longrightarrow>
    is_completed (jb_progress s') i \<or> i \<in> set (pr_skipped_files (jb_progress s'))"
proof -
  have "transfer_loop env drv (length (mf_files (jn_manifest j))) schedule (0, [], None, False)
      (with_progress (\<lambda>p. p\<lparr>pr_states := replicate (length (mf_files (jn_manifest j))) 0\<rparr>) s)
    = (Returned (Ok ()), s')"
    using assms(1,2) by (simp add: transfer_files_def Let_def)
  from transfer_loop_end [OF this queue_start [OF assms(2-4)]] assms(5)
  obtain index' err' where "queue_ok (jb_progress s) (index', [], err') s'" "fst err' = None"
    "length (mf_files (jn_manifest j)) \<le> index'" by auto
  then show "i < length (mf_files (jn_manifest j)) \<Longrightarrow>
      is_completed (jb_progress s') i \<or> i \<in> set (pr_skipped_files (jb_progress s'))"
    unfolding queue_ok_def settled_def by (cases err') auto
qed

theorem success_is_complete_witness:
  "\<exists>s'. transfer_files demo_job_env (demo_driver NoClobber) [] demo_jobs = (Returned (Ok ()), s')
     \<and> (is_completed (jb_progress s') 1 \<or> 1 \<in> set (pr_skipped_files (jb_progress s')))"
proof -
  have "fst (transfer_files demo_job_env (demo_driver NoClobber) [] demo_jobs) = Returned (Ok ())"
    by (simp add: transfer_files_def transfer_loop.simps start_jobs.simps demo_job_defs prepare_skip_def
        is_completed_def record_outcome_def job_entry_def tracking_def locally_def should_skip_def io_step_def
        with_tree_def safe_parent_def rsplit_once_def demo_relative ordinary_def read_leaf_def skip_existing_def
        mark_skipped_def set_state_def Let_def)
  then obtain s' where run: "transfer_files demo_job_env (demo_driver NoClobber) [] demo_jobs = (Returned (Ok ()), s')"
    by (metis surj_pair fst_conv)
  then show ?thesis
    using success_is_complete [OF run, of _ 1] by (simp add: demo_jobs_def demo_driver_def)
qed

text \<open>
  C6: no address is issued twice. Whatever the outcomes, the order of completion and the point
  of interruption, a run asks for the download address of a file at most once, and never for a
  file that was completed before; an issuance whose outcome is unknown is not replayed.
\<close>

theorem issuance_not_replayed:
  assumes "transfer_files env drv schedule s = (status, s')"
    and "pr_journal (jb_progress s) = Some j"
    and "length (jn_completed j) = length (mf_files (jn_manifest j))"
    and "jb_issued s = []"
  shows "distinct (jb_issued s') \<and> (\<forall>i \<in> set (jb_issued s'). jn_completed j ! i = None)"
proof -
  have "transfer_loop env drv (length (mf_files (jn_manifest j))) schedule (0, [], None, False)
      (with_progress (\<lambda>p. p\<lparr>pr_states := replicate (length (mf_files (jn_manifest j))) 0\<rparr>) s)
    = (status, s')"
    using assms(1,2) by (simp add: transfer_files_def Let_def)
  from transfer_loop_end [OF this queue_start [OF assms(2-4)]]
  show ?thesis using assms(2) unfolding queue_ok_def by (auto simp: is_completed_def)
qed

theorem issuance_not_replayed_witness:
  "\<exists>status s'. transfer_files demo_job_env (demo_driver Force) [(0, [])] demo_jobs = (status, s')
     \<and> jb_issued s' = [1] \<and> distinct (jb_issued s')"
proof -
  have issued: "jb_issued (snd (transfer_files demo_job_env (demo_driver Force) [(0, [])] demo_jobs)) = [1]"
    by (simp add: transfer_files_def transfer_loop.simps start_jobs.simps demo_job_defs prepare_skip_def
        is_completed_def record_outcome_def job_entry_def tracking_def locally_def should_skip_def io_step_def
        with_tree_def safe_parent_def rsplit_once_def demo_relative ordinary_def read_leaf_def skip_existing_def
        set_state_def Let_def run_job_def issue_address_def capture_scope_def map_issuance_def
        is_known_issuance_def accept_outcome_def fail_file_def note_failure_def remove_at_def unknown_issuance_def)
  obtain status s' where run: "transfer_files demo_job_env (demo_driver Force) [(0, [])] demo_jobs = (status, s')"
    by fastforce
  then show ?thesis
    using issuance_not_replayed [OF run] issued by (simp add: demo_jobs_def)
qed

end
