(* ===== verification/Download_Command.thy ===== *)
theory Download_Command
  imports Download_Jobs
begin

text \<open>
  \<open>crates/adrive/src/handler/share_download.rs\<close>: the command around the driver. A plan is
  enumerated or loaded from the checkpoint, checked against the local file system and, on a
  resume, against the service; then the files are transferred, and the outcome is finalized and
  aggregated. \<open>share_artifacts.rs\<close> gives the report and the manifest file it opens.
\<close>

section \<open>Parameters\<close>

text \<open>
  \<open>cm_fold\<close> is the decomposition and upper-casing of \<open>folded\<close>, the services answer for the file
  of an index, and \<open>cm_check_paths\<close> is \<open>Paths::validate_against_manifest\<close>.
\<close>

record command_env =
  cm_job :: job_env
  cm_fold :: "string \<Rightarrow> string"
  cm_session :: "nat \<Rightarrow> (unit, cli_error) result"
  cm_get_file :: "nat \<Rightarrow> string \<Rightarrow> (file_info, client_error) result"
  cm_check_paths :: "journal \<Rightarrow> (unit, cli_error) result"

record artifact_paths =
  ap_report :: "safe_dir \<times> string"
  ap_manifest :: "(safe_dir \<times> string) option"
  ap_is_failures_only :: bool

record command =
  co_driver :: driver
  co_is_resume :: bool
  co_identity :: identity
  co_paths :: artifact_paths
  co_checkpoint_path :: "string option"

section \<open>Reserved names\<close>

definition folded :: "(string \<Rightarrow> string) \<Rightarrow> string \<Rightarrow> string" where
  "folded fold_case path = fold_case (map (\<lambda>c. if c = CHR 0x5C then slash else c) path)"

definition protected_paths :: "string \<Rightarrow> string list" where
  "protected_paths ck = [ck, ck @ ''.lock'', ck @ ''.parts'', ck @ ''.completed'']"

definition overlapping :: "string \<Rightarrow> string \<Rightarrow> bool" where
  "overlapping target protected \<longleftrightarrow>
     target = protected \<or> starts_with (target @ [slash]) protected \<or> starts_with (protected @ [slash]) target"

definition check_reserved :: "(string \<Rightarrow> string) \<Rightarrow> journal \<Rightarrow> string option \<Rightarrow> (unit, cli_error) result" where
  "check_reserved fold_case j checkpoint_path =
     try_each (\<lambda>relative.
       if list_ex (starts_with ''.adrive-share-'') (split_on slash relative)
       then Err (invalid ''manifest uses a reserved temporary filename'')
       else case checkpoint_path of
              None \<Rightarrow> Ok ()
            | Some ck \<Rightarrow>
                (let target = folded fold_case (path_join (id_destination (jn_identity j)) relative)
                 in if list_ex (\<lambda>p. overlapping target (folded fold_case p)) (protected_paths ck)
                    then Err (invalid ''checkpoint/lock collides with download mapping'') else Ok ()))
       (mf_directories (jn_manifest j) @ map en_local (mf_files (jn_manifest j)))"

section \<open>The plan\<close>

definition checkpoint_load ::
  "coding \<Rightarrow> identity \<Rightarrow> checkpoint \<Rightarrow> (journal, cli_error) result \<times> checkpoint" where
  "checkpoint_load cd ident ck =
     (case ledger_load (cd_hashing cd) (cd_derive cd) (cd_fold_path cd) ident (ck_disk ck) of
        Err e \<Rightarrow> (Err e, ck)
      | Ok (j, s) \<Rightarrow> (Ok j, ck\<lparr>ck_persistence := Some s\<rparr>))"

text \<open>The enumeration of a fresh plan is \<open>enumerate_share\<close>; its result is the argument \<open>scanned\<close>.\<close>

definition load_or_enumerate ::
  "command_env \<Rightarrow> command \<Rightarrow> (manifest, cli_error) result \<Rightarrow> progress \<Rightarrow> (journal, cli_error) result \<times> progress" where
  "load_or_enumerate env cmd scanned p =
     (if co_is_resume cmd
      then case pr_checkpoint p of
             None \<Rightarrow> (Err (invalid ''--resume requires --checkpoint''), p)
           | Some ck \<Rightarrow>
               (let (r, ck) = checkpoint_load (je_coding (cm_job env)) (co_identity cmd) ck
                in (r, p\<lparr>pr_checkpoint := Some ck\<rparr>))
      else (try_in scanned (\<lambda>m. Ok \<lparr>jn_version = 1, jn_identity = co_identity cmd, jn_manifest = m,
              jn_completed = replicate (length (mf_files m)) None\<rparr>), p))"

definition preflight_directory ::
  "safe_dir \<Rightarrow> string \<times> string \<Rightarrow> job_state \<Rightarrow> (unit, cli_error) result \<times> job_state" where
  "preflight_directory dir names s =
     (let (relative, remote) = names
      in case locally (with_tree (safe_directory dir relative True)) s of
           (Ok _, s) \<Rightarrow> (Ok (), s)
         | (Err e, s) \<Rightarrow>
             (Ok (), with_progress (\<lambda>p. p\<lparr>pr_directory_failures :=
                bt_put relative (remote, io_text e) (pr_directory_failures p)\<rparr>) s))"

definition preflight :: "driver \<Rightarrow> job_state \<Rightarrow> (unit, cli_error) result \<times> job_state" where
  "preflight drv s =
     (case pr_journal (jb_progress s) of
        None \<Rightarrow> (Err (invalid ''missing manifest''), s)
      | Some j \<Rightarrow>
          st_each (preflight_directory (dv_directory drv))
            (zip (mf_directories (jn_manifest j)) (mf_remote_directories (jn_manifest j))) s)"

section \<open>Resumption\<close>

definition missing_completed :: cli_error where
  "missing_completed = Conflict ''completed local file missing since checkpoint''"

definition validate_resume_local :: "safe_dir \<Rightarrow> string \<Rightarrow> bool \<Rightarrow> file_tree \<Rightarrow> (unit, cli_error) result" where
  "validate_resume_local dir local is_complete fs =
     (case fst (safe_parent dir local False fs) of
        Err e \<Rightarrow>
          if io_kind e = IoNotFound then (if is_complete then Err missing_completed else Ok ()) else Err (Io e)
      | Ok (parent, name) \<Rightarrow>
          try_in (map_err Io (ordinary parent name fs)) (\<lambda>is_present.
            if \<not> is_present \<and> is_complete then Err missing_completed else Ok ()))"

definition verify_resume_entry ::
  "command_env \<Rightarrow> nat \<Rightarrow> safe_dir option \<Rightarrow> entry \<Rightarrow> string option \<Rightarrow> file_tree \<Rightarrow>
   (bool, cli_error) result" where
  "verify_resume_entry env index dir e expected fs =
     (if \<not> has_identity (en_remote e)
      then Err (invalid ''resume requires a strong ETag or CRC64 remote identity'')
      else
        try_in (case dir of
            None \<Rightarrow> Ok ()
          | Some dir \<Rightarrow> validate_resume_local dir (en_local e) (expected \<noteq> None) fs) (\<lambda>_.
        try_in (cm_session env index) (\<lambda>_.
        try_in (map_err map_ids_error (cm_get_file env index (rf_path (en_remote e)))) (\<lambda>current.
        try_in (from_info current) (\<lambda>current.
          if current \<noteq> en_remote e then Err (Conflict ''remote file changed since checkpoint'')
          else case expected of
                 None \<Rightarrow> Ok False
               | Some expected \<Rightarrow>
                   (case dir of
                      None \<Rightarrow> Err missing_completed
                    | Some dir \<Rightarrow>
                        try_in (map_err (\<lambda>e. case e of
                              Io i \<Rightarrow> if io_kind i = IoNotFound then missing_completed else e
                            | _ \<Rightarrow> e)
                            (local_digest (je_codec (cm_job env)) dir (en_local e) (rf_size (en_remote e)) fs))
                          (\<lambda>(bytes, digest).
                            if bytes \<noteq> unat (rf_size (en_remote e)) \<or> digest \<noteq> expected
                            then Err (Conflict ''completed local file changed since checkpoint'')
                            else Ok True)))))))"

definition resume_entry ::
  "command_env \<Rightarrow> driver \<Rightarrow> journal \<Rightarrow> nat \<Rightarrow> job_state \<Rightarrow> (unit, cli_error) result \<times> job_state" where
  "resume_entry env drv j index s =
     (let s = with_progress (\<lambda>p. p\<lparr>pr_active := Some index\<rparr>) s
      in case verify_resume_entry env index (Some (dv_directory drv)) (mf_files (jn_manifest j) ! index)
             (jn_completed j ! index) (ts_tree (jb_local s)) of
           Err e \<Rightarrow> (Err e, s)
         | Ok is_complete \<Rightarrow>
             (Ok (), with_progress (\<lambda>p. p\<lparr>pr_skipped := (if is_complete then Suc (pr_skipped p) else pr_skipped p),
                pr_verified := (pr_verified p)[index := True], pr_active := None\<rparr>) s))"

definition validate_resume :: "command_env \<Rightarrow> driver \<Rightarrow> job_state \<Rightarrow> (unit, cli_error) result \<times> job_state" where
  "validate_resume env drv s =
     (case pr_journal (jb_progress s) of
        None \<Rightarrow> (Err (invalid ''missing manifest''), s)
      | Some j \<Rightarrow> st_each (resume_entry env drv j) [0..<length (mf_files (jn_manifest j))] s)"

definition save_progress :: "job_env \<Rightarrow> job_state \<Rightarrow> (unit, cli_error) result \<times> job_state" where
  "save_progress env s =
     (let p = jb_progress s
      in case (pr_checkpoint p, pr_journal p) of
           (Some ck, Some j) \<Rightarrow>
             (let (r, ck) = checkpoint_save (je_coding env) j (je_save env (ts_steps (jb_local s))) ck;
                  s = s\<lparr>jb_local := tick (jb_local s)\<rparr>
              in (r, with_progress (\<lambda>p. p\<lparr>pr_checkpoint := Some ck, pr_is_checkpoint_durable := is_ok r\<rparr>) s))
         | _ \<Rightarrow> (Ok (), s))"

definition begin_transfer :: "progress \<Rightarrow> progress" where
  "begin_transfer p =
     (case pr_journal p of
        None \<Rightarrow> p
      | Some j \<Rightarrow> p\<lparr>pr_skipped := length (filter (\<lambda>digest. digest \<noteq> None) (jn_completed j))\<rparr>)"

section \<open>The artifacts of a command\<close>

definition manifest_columns :: "string list" where
  "manifest_columns =
     [''command'', ''operation'', ''source'', ''destination'', ''size'', ''etag'', ''crc64'']"

definition manifest_fields :: "string \<Rightarrow> entry \<Rightarrow> string list" where
  "manifest_fields destination e =
     [''ve-adrive-cli share download'', ''download'', rf_path (en_remote e),
      path_join destination (en_local e), show_nat (unat (rf_size (en_remote e))), rf_etag (en_remote e),
      if rf_crc64 (en_remote e) \<noteq> 0 then show_nat (unat (rf_crc64 (en_remote e))) else []]"

definition drop_writer :: "transfer_env \<Rightarrow> csv_state \<Rightarrow> transfer_state" where
  "drop_writer env s =
     (case cw_current (fst s) of None \<Rightarrow> snd s | Some staged \<Rightarrow> drop_file env staged (snd s))"

definition write_manifest_entry ::
  "transfer_env \<Rightarrow> string \<Rightarrow> entry \<Rightarrow> csv_state \<Rightarrow> (unit, cli_error) result \<times> csv_state" where
  "write_manifest_entry env destination e s =
     (case try_in (validate_relative (rf_path (en_remote e))) (\<lambda>_. validate_relative (en_local e)) of
        Err error \<Rightarrow> (Err error, s)
      | Ok _ \<Rightarrow> csv_write_record env (manifest_fields destination e) s)"

definition write_manifest ::
  "transfer_env \<Rightarrow> (safe_dir \<times> string) option \<Rightarrow> manifest \<Rightarrow> string \<Rightarrow> transfer_state \<Rightarrow>
   (unit, cli_error) result \<times> transfer_state" where
  "write_manifest env path m destination st =
     (case path of
        None \<Rightarrow> (Ok (), st)
      | Some (dir, leaf) \<Rightarrow>
          (case st_try (csv_new env dir leaf manifest_columns st) (\<lambda>_.
                  st_each (write_manifest_entry env destination) (mf_files m)) of
             (Err e, s) \<Rightarrow> (Err e, drop_writer env s)
           | (Ok _, s) \<Rightarrow> (let (r, w, st) = csv_finish env s in (r, st))))"

definition report_directory ::
  "job_env \<Rightarrow> string \<Rightarrow> string \<times> string \<times> string \<Rightarrow> job_state \<Rightarrow> (unit, cli_error) result \<times> job_state" where
  "report_directory env destination failure s =
     (let (path, remote, message) = failure
      in case pr_artifacts (jb_progress s) of
           None \<Rightarrow> (Ok (), s)
         | Some a \<Rightarrow>
             (let row = \<lparr>rr_source = remote, rr_destination = path_join destination path,
                    rr_status = ''failed'', rr_error = Some message, rr_request_id = None\<rparr>;
                  (r, a, st) = artifacts_record (je_local env) row (a, jb_local s)
              in (r, (with_progress (\<lambda>p. p\<lparr>pr_artifacts := Some a\<rparr>) s)\<lparr>jb_local := st\<rparr>)))"

definition driver_open ::
  "command_env \<Rightarrow> artifact_paths \<Rightarrow> job_state \<Rightarrow> (unit, cli_error) result \<times> job_state" where
  "driver_open env paths s =
     (case pr_journal (jb_progress s) of
        None \<Rightarrow> (Err (invalid ''missing manifest''), s)
      | Some j \<Rightarrow>
          (let job = cm_job env; destination = id_destination (jn_identity j)
           in case cm_check_paths env j of
                Err e \<Rightarrow> (Err e, s)
              | Ok _ \<Rightarrow>
                  (case csv_new (je_local job) (fst (ap_report paths)) (snd (ap_report paths)) report_columns
                          (jb_local s) of
                     (Err e, w, st) \<Rightarrow> (Err e, s\<lparr>jb_local := st\<rparr>)
                   | (Ok _, w, st) \<Rightarrow>
                       (let a = \<lparr>ar_writer = w, ar_is_failures_only = ap_is_failures_only paths\<rparr>;
                            s = (with_progress (\<lambda>p. p\<lparr>pr_artifacts := Some a\<rparr>) s)\<lparr>jb_local := st\<rparr>
                        in st_try (locally (write_manifest (je_local job) (ap_manifest paths) (jn_manifest j)
                               destination) s) (\<lambda>_ s.
                             st_each (report_directory job destination) (pr_directory_failures (jb_progress s)) s)))))"

section \<open>The command\<close>

text \<open>Everything of \<open>execute_with_auth\<close> and \<open>Driver::open\<close> before the first job.\<close>

definition prepare_command ::
  "command_env \<Rightarrow> command \<Rightarrow> (manifest, cli_error) result \<Rightarrow> job_state \<Rightarrow> (unit, cli_error) result \<times> job_state" where
  "prepare_command env cmd scanned s =
     (let drv = co_driver cmd; cd = je_coding (cm_job env);
          (r, p) = load_or_enumerate env cmd scanned ((jb_progress s)\<lparr>pr_is_resuming := co_is_resume cmd\<rparr>);
          s = s\<lparr>jb_progress := p\<rparr>
      in case r of
           Err e \<Rightarrow> (Err e, s)
         | Ok j \<Rightarrow>
             (case journal_validate (cd_derive cd) (cd_fold_path cd) j (jn_identity j) of
                Err e \<Rightarrow> (Err e, s)
              | Ok _ \<Rightarrow>
                  (let s = with_progress (\<lambda>p. p\<lparr>pr_verified := replicate (length (mf_files (jn_manifest j)))
                         (\<not> co_is_resume cmd), pr_journal := Some j\<rparr>) s
                   in case check_reserved (cm_fold env) j (co_checkpoint_path cmd) of
                        Err e \<Rightarrow> (Err e, s)
                      | Ok _ \<Rightarrow>
                          st_try (preflight drv s) (\<lambda>_ s.
                          st_try (if co_is_resume cmd then validate_resume env drv s else (Ok (), s)) (\<lambda>_ s.
                          st_try (save_progress (cm_job env) s) (\<lambda>_ s.
                            driver_open env (co_paths cmd) (with_progress begin_transfer s)))))))"

definition directory_result :: "progress \<Rightarrow> (unit, cli_error) result" where
  "directory_result p =
     (case pr_directory_failures p of
        [] \<Rightarrow> Ok ()
      | (path, _, message) # _ \<Rightarrow>
          Err (Conflict (''[share_local_path_conflict] cannot create download directory '' @ path @ '': '' @ message)))"

definition execute ::
  "command_env \<Rightarrow> command \<Rightarrow> (manifest, cli_error) result \<Rightarrow> (nat \<times> nat list) list \<Rightarrow> job_state \<Rightarrow>
   run_status \<times> job_state" where
  "execute env cmd scanned schedule s =
     (case prepare_command env cmd scanned s of
        (Err e, s) \<Rightarrow> (Returned (Err e), s)
      | (Ok _, s) \<Rightarrow>
          (case transfer_files (cm_job env) (co_driver cmd) schedule s of
             (Returned (Ok _), s) \<Rightarrow> (Returned (directory_result (jb_progress s)), s)
           | (status, s) \<Rightarrow> (status, s)))"

text \<open>The command up to its aggregate: the error that is reported, the summary and the state.\<close>

definition download ::
  "command_env \<Rightarrow> command \<Rightarrow> (manifest, cli_error) result \<Rightarrow> (nat \<times> nat list) list \<Rightarrow> job_state \<Rightarrow>
   cli_error option \<times> aggregate_summary \<times> job_state" where
  "download env cmd scanned schedule s =
     (let (status, s) = execute env cmd scanned schedule s;
          (result, is_interrupted) = (case status of
              Interrupted \<Rightarrow> (Err (TransferFailed interrupted_message), True)
            | Returned r \<Rightarrow> (r, False));
          (result, s) = finalize_execution (cm_job env) result is_interrupted s;
          error = (case result of Ok _ \<Rightarrow> None | Err e \<Rightarrow> Some e)
      in (error, aggregate (jb_progress s) error, s))"

end
