(* ===== verification/Download_Integrity.thy ===== *)
theory Download_Integrity
  imports Download_Command
begin

text \<open>
  What a share download does to the local file system as a whole. Every step, from the plan to
  the last report volume, leaves alone whatever is not a target of the manifest, a report
  volume, a temporary file or part of the recovery directory; and a file that is recorded as
  completed is on disk with the recorded digest, from its publication to the end of the command.
\<close>

section \<open>Kept files\<close>

definition kept :: "string list \<Rightarrow> file_tree \<Rightarrow> file_tree \<Rightarrow> bool" where
  "kept k fs fs' \<longleftrightarrow> (\<forall>n. fs k = Some n \<longrightarrow> fs' k = Some n)"

lemma kept_refl [simp]: "kept k fs fs"
  by (simp add: kept_def)

lemma kept_trans: "kept k fs fs1 \<Longrightarrow> kept k fs1 fs2 \<Longrightarrow> kept k fs fs2"
  by (simp add: kept_def)

lemma kept_same: "fs' k = fs k \<Longrightarrow> kept k fs fs'"
  by (simp add: kept_def)

lemma kept_grows: "grows fs fs' \<Longrightarrow> kept k fs fs'"
  by (auto simp: kept_def grows_def)

section \<open>Report volumes\<close>

type_synonym home = "safe_dir \<times> string"

definition volume_key :: "home \<Rightarrow> nat \<Rightarrow> string list" where
  "volume_key home part = fst home @ split_on slash (rolled_csv_path (snd home) part)"

definition not_temporary :: "string list \<Rightarrow> bool" where
  "not_temporary k \<longleftrightarrow> k \<noteq> [] \<and> (\<forall>u. last k \<noteq> temp_name u)"

definition apart :: "home \<Rightarrow> string list \<Rightarrow> bool" where
  "apart home k \<longleftrightarrow> not_temporary k \<and> (\<forall>part. k \<noteq> volume_key home part)"

definition writer_at :: "home \<Rightarrow> csv_writer \<Rightarrow> bool" where
  "writer_at home w \<longleftrightarrow>
     cw_directory w = fst home \<and> cw_base_leaf w = snd home
     \<and> (\<forall>staged. cw_current w = Some staged \<longrightarrow>
          (\<exists>u. sf_name staged = temp_name u) \<and> (\<exists>part. target_key staged = volume_key home part))"

definition csv_fine :: "home \<Rightarrow> csv_state \<Rightarrow> csv_state \<Rightarrow> bool" where
  "csv_fine home s s' \<longleftrightarrow>
     (writer_at home (fst s) \<longrightarrow>
        writer_at home (fst s') \<and> (\<forall>k. apart home k \<longrightarrow> kept k (ts_tree (snd s)) (ts_tree (snd s'))))"

lemma csv_fine_refl [simp]: "csv_fine home s s"
  by (simp add: csv_fine_def)

lemma csv_fine_trans: "csv_fine home s s1 \<Longrightarrow> csv_fine home s1 s2 \<Longrightarrow> csv_fine home s s2"
  unfolding csv_fine_def using kept_trans by blast

lemma temporary_key: "not_temporary k \<Longrightarrow> sf_name staged = temp_name u \<Longrightarrow> k \<noteq> staged_key staged"
  by (auto simp: not_temporary_def staged_key_def)

lemma apart_staged:
  assumes "apart home k" and "writer_at home w" and "cw_current w = Some staged"
  shows "k \<noteq> staged_key staged" and "k \<noteq> target_key staged"
  using assms temporary_key unfolding apart_def writer_at_def by metis+

lemma write_all_tree:
  "write_all env key bytes st = (r, st') \<Longrightarrow> k \<noteq> key \<Longrightarrow> ts_tree st' k = ts_tree st k"
  by (auto simp: write_all_def update_file_other split: option.splits)

lemma start_volume_fine:
  assumes "start_volume env (w, st) = (r, w', st')"
  shows "csv_fine home (w, st) (w', st')"
proof -
  let ?leaf = "rolled_csv_path (cw_base_leaf w) (cw_current_part w)"
  obtain ulid st1 where u: "next_ulid env st = (ulid, st1)" by fastforce
  obtain x fs where new: "staged_new ulid (cw_directory w) ?leaf (ts_tree st1) = (x, fs)" by fastforce
  have g: "grows (ts_tree st) fs" using staged_new_grows [OF new] next_ulid_simps(1) [OF u] by simp
  show ?thesis
  proof (cases x)
    case (Err e)
    then have "w' = w" "ts_tree st' = fs"
      using assms u new by (auto simp: start_volume_def io_step_def with_tree_def)
    then show ?thesis using g by (simp add: csv_fine_def kept_grows)
  next
    case (Ok staged)
    note eff = staged_new_effect(1,2) [OF new [unfolded Ok]]
    obtain y st3 where wr: "write_all env (staged_key staged) (cw_header_line w) (st1\<lparr>ts_tree := fs\<rparr>) = (y, st3)"
      by fastforce
    have t3: "ts_tree st3 k = fs k" if "not_temporary k" for k
      using write_all_tree [OF wr, of k] temporary_key [OF that eff(2)] by simp
    have t': "ts_tree st' k = fs k" if "not_temporary k" for k
      using assms u new Ok wr t3 [OF that] drop_file_tree [OF temporary_key [OF that eff(2)], of env st3]
      by (cases y) (auto simp: start_volume_def io_step_def with_tree_def)
    have "writer_at home w'" if "writer_at home w"
      using assms u new Ok wr that eff
      by (cases y) (auto simp: start_volume_def io_step_def with_tree_def writer_at_def volume_key_def)
    then show ?thesis
      using kept_trans [OF kept_grows [OF g] kept_same] t' by (simp add: csv_fine_def apart_def)
  qed
qed

lemma csv_finish_fine:
  assumes "csv_finish env (w, st) = (r, w', st')"
  shows "csv_fine home (w, st) (w', st')"
proof (cases "cw_current w")
  case None
  then show ?thesis using assms by (simp add: csv_finish_def)
next
  case (Some staged)
  obtain x fs where pub: "publish (te_publish env (ts_steps st)) staged True (ts_tree (tick st)) = (x, fs)" by fastforce
  then have s': "w' = w\<lparr>cw_current := None\<rparr>" "ts_tree st' = fs"
    using assms Some by (auto simp: csv_finish_def io_step_def with_tree_def)
  have "fs k = ts_tree st k" if "apart home k" "writer_at home w" for k
    using publish_other [OF pub apart_staged [OF that Some]] by simp
  then show ?thesis using s' by (auto simp: csv_fine_def writer_at_def intro: kept_same)
qed

lemma next_volume_fine:
  assumes "next_volume env (w, st) = (r, w', st')"
  shows "csv_fine home (w, st) (w', st')"
proof -
  obtain x w1 st1 where one: "csv_finish env (w, st) = (x, w1, st1)" by (metis prod.collapse)
  note f = csv_finish_fine [OF one, of home]
  show ?thesis
  proof (cases x)
    case (Err e)
    then show ?thesis using assms one f by (simp add: next_volume_def)
  next
    case (Ok u)
    show ?thesis
    proof (cases "cw_current_part w1 \<ge> u64_max")
      case True
      then show ?thesis using assms one f Ok by (simp add: next_volume_def)
    next
      case False
      let ?w = "w1\<lparr>cw_current_part := Suc (cw_current_part w1)\<rparr>"
      have "start_volume env (?w, st1) = (r, w', st')" using assms one Ok False by (simp add: next_volume_def)
      from start_volume_fine [OF this, of home]
      have "csv_fine home (?w, st1) (w', st')" .
      moreover have "csv_fine home (w1, st1) (?w, st1)" by (simp add: csv_fine_def writer_at_def)
      ultimately show ?thesis using f csv_fine_trans by blast
    qed
  qed
qed

lemma csv_write_record_fine:
  assumes "csv_write_record env values (w, st) = (r, w', st')"
  shows "csv_fine home (w, st) (w', st')"
proof -
  let ?bytes = "of_nat (length (csv_record values)) :: u64"
  obtain x w1 st1 where one: "(if cw_current_bytes w > of_nat (length (cw_header_line w))
        \<and> saturating_add (cw_current_bytes w) ?bytes > batch_file_rollover_bytes
      then next_volume env (w, st) else (Ok (), w, st)) = (x, w1, st1)"
    by (metis prod.collapse)
  have f: "csv_fine home (w, st) (w1, st1)" using one next_volume_fine by (auto split: if_splits)
  show ?thesis
  proof (cases x)
    case (Err e)
    then show ?thesis using assms one f by (simp add: csv_write_record_def Let_def)
  next
    case (Ok u)
    show ?thesis
    proof (cases "cw_current w1")
      case None
      then show ?thesis using assms one f Ok by (simp add: csv_write_record_def Let_def)
    next
      case (Some staged)
      obtain y st2 where wr: "write_all env (staged_key staged) (csv_record values) st1 = (y, st2)" by fastforce
      have "ts_tree st' k = ts_tree st1 k \<and> writer_at home w'" if "apart home k" "writer_at home w1" for k
      proof -
        note ne = apart_staged(1) [OF that Some]
        show ?thesis
          using assms one Ok Some wr write_all_tree [OF wr ne] drop_file_tree [OF ne, of env st2] that(2)
          by (cases y) (auto simp: csv_write_record_def Let_def io_step_def writer_at_def)
      qed
      moreover have "writer_at home w'" if "writer_at home w1"
        using assms one Ok Some wr that
        by (cases y) (auto simp: csv_write_record_def Let_def io_step_def writer_at_def)
      ultimately have "csv_fine home (w1, st1) (w', st')" by (auto simp: csv_fine_def intro: kept_same)
      then show ?thesis using f csv_fine_trans by blast
    qed
  qed
qed

lemma csv_new_fine:
  assumes "csv_new env dir leaf headers st = (r, w', st')"
  shows "writer_at (dir, leaf) w'" and "apart (dir, leaf) k \<Longrightarrow> kept k (ts_tree st) (ts_tree st')"
  using start_volume_fine [OF assms [unfolded csv_new_def], of "(dir, leaf)"]
  by (simp_all add: csv_fine_def writer_at_def)

section \<open>The plan and the files on disk\<close>

text \<open>The key of a file below the destination.\<close>

definition target_of :: "driver \<Rightarrow> entry \<Rightarrow> string list" where
  "target_of drv e = dv_directory drv @ split_on slash (en_local e)"

text \<open>Keys that no report, temporary file or recovery state has.\<close>

definition away :: "artifact_paths \<Rightarrow> driver \<Rightarrow> string list \<Rightarrow> bool" where
  "away paths drv k \<longleftrightarrow>
     not_temporary k \<and> (\<forall>root rest. dv_recovery drv = Some root \<longrightarrow> k \<noteq> root @ rest)
     \<and> (\<forall>home part. home = ap_report paths \<or> ap_manifest paths = Some home \<longrightarrow> k \<noteq> volume_key home part)"

definition plan_ok :: "artifact_paths \<Rightarrow> driver \<Rightarrow> progress \<Rightarrow> bool" where
  "plan_ok paths drv p \<longleftrightarrow>
     (\<forall>j. pr_journal p = Some j \<longrightarrow>
        distinct (map (target_of drv) (mf_files (jn_manifest j)))
        \<and> (\<forall>e \<in> set (mf_files (jn_manifest j)). away paths drv (target_of drv e)))"

definition targets :: "driver \<Rightarrow> progress \<Rightarrow> string list set" where
  "targets drv p =
     (case pr_journal p of None \<Rightarrow> {} | Some j \<Rightarrow> target_of drv ` set (mf_files (jn_manifest j)))"

definition on_disk :: "codec \<Rightarrow> driver \<Rightarrow> file_tree \<Rightarrow> entry \<Rightarrow> string \<Rightarrow> bool" where
  "on_disk cx drv fs e digest \<longleftrightarrow>
     (\<exists>content. fs (target_of drv e) = Some (RegularFile content)
        \<and> length content = unat (rf_size (en_remote e)) \<and> digest = cx_sha256 cx content)"

definition all_on_disk :: "codec \<Rightarrow> driver \<Rightarrow> job_state \<Rightarrow> bool" where
  "all_on_disk cx drv s \<longleftrightarrow>
     (\<forall>j i digest. pr_journal (jb_progress s) = Some j \<longrightarrow> i < length (mf_files (jn_manifest j)) \<longrightarrow>
        file_payload_digest (jb_progress s) j i = Some digest \<longrightarrow>
        on_disk cx drv (ts_tree (jb_local s)) (mf_files (jn_manifest j) ! i) digest)"

text \<open>A recorded completion is believed when it was made or verified by this run.\<close>

definition believed :: "progress \<Rightarrow> nat \<Rightarrow> bool" where
  "believed p i \<longleftrightarrow> \<not> pr_is_resuming p \<or> (i < length (pr_verified p) \<and> pr_verified p ! i)"

lemma payload_digest_iff: "file_payload_digest p j i = Some d \<longleftrightarrow> believed p i \<and> jn_completed j ! i = Some d"
  by (auto simp: file_payload_digest_def believed_def)

definition reports_ok :: "artifact_paths \<Rightarrow> job_state \<Rightarrow> bool" where
  "reports_ok paths s \<longleftrightarrow>
     (\<forall>a. pr_artifacts (jb_progress s) = Some a \<longrightarrow> writer_at (ap_report paths) (ar_writer a))"

definition sound :: "codec \<Rightarrow> artifact_paths \<Rightarrow> driver \<Rightarrow> job_state \<Rightarrow> bool" where
  "sound cx paths drv s \<longleftrightarrow>
     plan_ok paths drv (jb_progress s) \<and> slots_ok (jb_progress s) \<and> reports_ok paths s \<and> all_on_disk cx drv s"

text \<open>A step of the command: it stays sound and keeps what is not a target.\<close>

definition advances :: "codec \<Rightarrow> artifact_paths \<Rightarrow> driver \<Rightarrow> job_state \<Rightarrow> job_state \<Rightarrow> bool" where
  "advances cx paths drv s s' \<longleftrightarrow>
     (sound cx paths drv s \<longrightarrow>
        sound cx paths drv s' \<and> targets drv (jb_progress s') = targets drv (jb_progress s)
        \<and> (\<forall>i. believed (jb_progress s) i \<longrightarrow> believed (jb_progress s') i)
        \<and> (\<forall>k. away paths drv k \<longrightarrow> k \<notin> targets drv (jb_progress s) \<longrightarrow>
             kept k (ts_tree (jb_local s)) (ts_tree (jb_local s'))))"

lemma advances_refl [simp]: "advances cx paths drv s s"
  by (simp add: advances_def)

lemma advances_trans: "advances cx paths drv s s1 \<Longrightarrow> advances cx paths drv s1 s2 \<Longrightarrow> advances cx paths drv s s2"
  unfolding advances_def using kept_trans by metis

lemma advances_if: "(sound cx paths drv s \<Longrightarrow> advances cx paths drv s s') \<Longrightarrow> advances cx paths drv s s'"
  by (simp add: advances_def)

text \<open>A step that changes neither the plan nor a target.\<close>

definition quiet :: "artifact_paths \<Rightarrow> driver \<Rightarrow> job_state \<Rightarrow> job_state \<Rightarrow> bool" where
  "quiet paths drv s s' \<longleftrightarrow>
     pr_journal (jb_progress s') = pr_journal (jb_progress s)
     \<and> pr_verified (jb_progress s') = pr_verified (jb_progress s)
     \<and> pr_is_resuming (jb_progress s') = pr_is_resuming (jb_progress s)
     \<and> (reports_ok paths s \<longrightarrow>
          reports_ok paths s' \<and> (\<forall>k. away paths drv k \<longrightarrow> kept k (ts_tree (jb_local s)) (ts_tree (jb_local s'))))"

lemma quiet_refl [simp]: "quiet paths drv s s"
  by (simp add: quiet_def)

lemma quiet_trans: "quiet paths drv s s1 \<Longrightarrow> quiet paths drv s1 s2 \<Longrightarrow> quiet paths drv s s2"
  unfolding quiet_def using kept_trans by metis

lemma away_apart: "away paths drv k \<Longrightarrow> apart (ap_report paths) k"
  unfolding away_def apart_def by blast

lemma on_disk_kept: "kept (target_of drv e) fs fs' \<Longrightarrow> on_disk cx drv fs e digest \<Longrightarrow> on_disk cx drv fs' e digest"
  by (auto simp: on_disk_def kept_def)

lemma quiet_advances:
  assumes "quiet paths drv s s'"
  shows "advances cx paths drv s s'"
proof -
  have j: "pr_journal (jb_progress s') = pr_journal (jb_progress s)" using assms by (simp add: quiet_def)
  have b: "believed (jb_progress s') i = believed (jb_progress s) i" for i
    using assms by (simp add: quiet_def believed_def)
  have keep: "kept k (ts_tree (jb_local s)) (ts_tree (jb_local s'))"
    if "sound cx paths drv s" "away paths drv k" for k
    using assms that by (simp add: quiet_def sound_def)
  have "all_on_disk cx drv s'" if snd: "sound cx paths drv s"
    unfolding all_on_disk_def j
  proof (intro allI impI)
    fix j' i digest
    assume a: "pr_journal (jb_progress s) = Some j'" "i < length (mf_files (jn_manifest j'))"
      "file_payload_digest (jb_progress s') j' i = Some digest"
    then have "away paths drv (target_of drv (mf_files (jn_manifest j') ! i))"
      using snd by (simp add: sound_def plan_ok_def)
    moreover have "on_disk cx drv (ts_tree (jb_local s)) (mf_files (jn_manifest j') ! i) digest"
      using snd a b by (simp add: sound_def all_on_disk_def payload_digest_iff)
    ultimately show "on_disk cx drv (ts_tree (jb_local s')) (mf_files (jn_manifest j') ! i) digest"
      using on_disk_kept [OF keep [OF snd]] by blast
  qed
  then show ?thesis
    using assms j keep b by (simp add: advances_def sound_def quiet_def plan_ok_def slots_ok_def targets_def)
qed

lemma quiet_progress:
  "pr_journal (f (jb_progress s)) = pr_journal (jb_progress s) \<Longrightarrow>
   pr_verified (f (jb_progress s)) = pr_verified (jb_progress s) \<Longrightarrow>
   pr_is_resuming (f (jb_progress s)) = pr_is_resuming (jb_progress s) \<Longrightarrow>
   pr_artifacts (f (jb_progress s)) = pr_artifacts (jb_progress s) \<Longrightarrow> quiet paths drv s (with_progress f s)"
  by (simp add: quiet_def reports_ok_def)

lemma quiet_local:
  "(\<And>k. away paths drv k \<Longrightarrow> kept k (ts_tree (jb_local s)) (ts_tree st)) \<Longrightarrow> quiet paths drv s (s\<lparr>jb_local := st\<rparr>)"
  by (simp add: quiet_def reports_ok_def)

lemma quiet_locally:
  assumes "locally f s = (r, s')"
    and "\<And>st' k. f (jb_local s) = (r, st') \<Longrightarrow> away paths drv k \<Longrightarrow> kept k (ts_tree (jb_local s)) (ts_tree st')"
  shows "quiet paths drv s s'"
proof -
  obtain st where f: "f (jb_local s) = (r, st)" and s': "s' = s\<lparr>jb_local := st\<rparr>"
    using assms(1) by (auto simp: locally_def split: prod.splits)
  show ?thesis unfolding s' by (rule quiet_local) (rule assms(2) [OF f])
qed

section \<open>The steps are quiet\<close>

lemma artifacts_record_fine:
  assumes "artifacts_record env row (a, st) = (r, a', st')" and "writer_at home (ar_writer a)"
  shows "writer_at home (ar_writer a')" and "apart home k \<Longrightarrow> kept k (ts_tree st) (ts_tree st')"
proof -
  have "writer_at home (ar_writer a') \<and> (apart home k \<longrightarrow> kept k (ts_tree st) (ts_tree st'))"
    using assms csv_write_record_fine [of env "report_fields row" "ar_writer a" st _ _ _ home]
    by (auto simp: artifacts_record_def csv_fine_def split: result.splits if_splits prod.splits)
  then show "writer_at home (ar_writer a')" and "apart home k \<Longrightarrow> kept k (ts_tree st) (ts_tree st')" by blast+
qed

lemma quiet_record:
  assumes "artifacts_record env row (a, jb_local s) = (r, a', st)" and "pr_artifacts (jb_progress s) = Some a"
  shows "quiet paths drv s (s\<lparr>jb_progress := (jb_progress s)\<lparr>pr_artifacts := Some a'\<rparr>, jb_local := st\<rparr>)"
  using artifacts_record_fine [OF assms(1), of "ap_report paths"] assms(2) away_apart
  by (auto simp: quiet_def reports_ok_def)

lemma record_outcome_quiet:
  assumes "record_outcome env index status error request_id s = (r, s')"
  shows "quiet paths drv s s'"
proof (cases "s' = s")
  case False
  then obtain row a a' st where "pr_artifacts (jb_progress s) = Some a"
    "artifacts_record (je_local env) row (a, jb_local s) = (r, a', st)"
    "s' = s\<lparr>jb_progress := (jb_progress s)\<lparr>pr_artifacts := Some a'\<rparr>, jb_local := st\<rparr>"
    using assms by (auto simp: record_outcome_def Let_def split: option.splits result.splits prod.splits)
  then show ?thesis using quiet_record by metis
qed simp

lemma mark_skipped_quiet:
  assumes "mark_skipped env index s = (r, s')"
  shows "quiet paths drv s s'"
proof -
  let ?f = "\<lambda>p. set_state index 7 (p\<lparr>pr_skipped := Suc (pr_skipped p),
      pr_skipped_files := bset_put index (pr_skipped_files p)\<rparr>)"
  have "quiet paths drv s (with_progress ?f s)" by (rule quiet_progress) (simp_all add: set_state_def)
  moreover have "record_outcome env index ''skipped'' None None (with_progress ?f s) = (r, s')"
    using assms by (simp add: mark_skipped_def)
  ultimately show ?thesis using record_outcome_quiet quiet_trans by blast
qed

lemma fail_file_quiet:
  assumes "fail_file env index error request_id s = (failure, s')"
  shows "quiet paths drv s s'"
proof -
  let ?f = "note_failure index (agent_semantics (je_last_request_id env) error) request_id"
  have "quiet paths drv s (with_progress ?f s)"
    by (rule quiet_progress) (simp_all add: note_failure_def Let_def set_state_def)
  moreover have "\<exists>m r. record_outcome env index ''failed'' m request_id (with_progress ?f s) = (r, s')"
    using assms by (auto simp: fail_file_def Let_def split: prod.splits)
  ultimately show ?thesis using record_outcome_quiet quiet_trans by blast
qed

lemma track_error_quiet:
  "track_error failure err s = (err', s') \<Longrightarrow> quiet paths drv s s'"
  by (cases failure; cases err) (auto split: option.splits intro!: quiet_progress)

lemma should_skip_kept:
  assumes "should_skip env drv e st = (r, st')"
  shows "grows (ts_tree st) (ts_tree st')"
proof -
  obtain x fs where "safe_parent (dv_directory drv) (en_local e) True (ts_tree st) = (x, fs)" by fastforce
  then show ?thesis
    using assms safe_parent_grows
    by (cases x) (auto simp: should_skip_def io_step_def with_tree_def)
qed

lemma should_skip_quiet:
  assumes "locally (should_skip env drv e) s = (r, s')"
  shows "quiet paths drv s s'"
  by (rule quiet_locally [OF assms]) (rule kept_grows, rule should_skip_kept)

lemma prepare_skip_quiet:
  assumes "prepare_skip env drv index s = (r, s')"
  shows "quiet paths drv s s'"
proof (cases "is_completed (jb_progress s) index")
  case True
  obtain x s1 where rec: "record_outcome env index ''skipped'' None None s = (x, s1)" by fastforce
  then have "s' = s1" using assms True by (cases x) (auto simp: prepare_skip_def tracking_def)
  then show ?thesis using record_outcome_quiet [OF rec] by simp
next
  case False
  obtain x s1 where one: "(case job_entry (jb_progress s) index of
                 Err e \<Rightarrow> (Err e, s)
               | Ok e \<Rightarrow> locally (should_skip env drv e) s) = (x, s1)" by fastforce
  have g1: "quiet paths drv s s1" using one should_skip_quiet by (auto split: result.splits)
  obtain y s2 where skip: "mark_skipped env index s1 = (y, s2)" by fastforce
  show ?thesis
  proof (cases x)
    case (Err e)
    obtain failure s3 where fail: "fail_file env index e None s1 = (failure, s3)" by fastforce
    then have "s' = s3" using assms False one Err by (simp add: prepare_skip_def)
    then show ?thesis using quiet_trans [OF g1 fail_file_quiet [OF fail]] by simp
  next
    case (Ok b)
    have "s' = s1 \<or> s' = s2"
      using assms False one Ok skip by (cases b; cases y) (auto simp: prepare_skip_def tracking_def)
    then show ?thesis using g1 quiet_trans [OF g1 mark_skipped_quiet [OF skip]] by auto
  qed
qed

lemma quiet_completed: "quiet paths drv s s' \<Longrightarrow> is_completed (jb_progress s') i = is_completed (jb_progress s) i"
  by (simp add: quiet_def is_completed_def)

text \<open>What is pending is not completed.\<close>

definition pending_open :: "(nat \<times> entry) list \<Rightarrow> job_state \<Rightarrow> bool" where
  "pending_open pending s \<longleftrightarrow> (\<forall>x \<in> set pending. \<not> is_completed (jb_progress s) (fst x))"

lemma pending_quiet: "quiet paths drv s s' \<Longrightarrow> pending_open pending s \<Longrightarrow> pending_open pending s'"
  by (simp add: pending_open_def quiet_completed)

lemma start_jobs_quiet:
  "start_jobs env drv n index pending err s = (r, s') \<Longrightarrow>
   quiet paths drv s s'
   \<and> (\<forall>index' pending' err'. r = Ok (index', pending', err') \<longrightarrow> pending_open pending s \<longrightarrow> pending_open pending' s')"
proof (induction env drv n index pending err s rule: start_jobs.induct)
  case (1 env drv n index pending err s)
  let ?more = "index < n \<and> length pending < case_option 16 id (dv_batch_concurrency drv) \<and> \<not> snd err"
  show ?case
  proof (cases ?more)
    case False
    then show ?thesis using "1.prems" by (auto simp: start_jobs.simps)
  next
    case more: True
    obtain x s1 where one: "prepare_skip env drv index s = (x, s1)" by fastforce
    note g1 = prepare_skip_quiet [OF one, of paths] and p1 = pending_quiet [OF prepare_skip_quiet [OF one]]
    show ?thesis
    proof (cases x)
      case (Err failure)
      obtain err2 s2 where two: "track_error failure err s1 = (err2, s2)" by fastforce
      note g2 = quiet_trans [OF g1 track_error_quiet [OF two]]
      have "start_jobs env drv n (Suc index) pending err2 s2 = (r, s')"
        using "1.prems" more one Err two by (subst (asm) start_jobs.simps) simp
      from "1.IH"(3) [OF more one [symmetric] Err two [symmetric] this]
      show ?thesis using quiet_trans [OF g2] pending_quiet [OF g2] by blast
    next
      case (Ok b)
      show ?thesis
      proof (cases b)
        case True
        have "start_jobs env drv n (Suc index) pending err s1 = (r, s')"
          using "1.prems" more one Ok True by (subst (asm) start_jobs.simps) simp
        from "1.IH"(1) [OF more one [symmetric] Ok _ this] show ?thesis using True quiet_trans [OF g1] p1 by blast
      next
        case b: False
        show ?thesis
        proof (cases "job_entry (jb_progress s1) index")
          case (Err e)
          have "(r, s') = (Err e, s1)"
            using "1.prems" more one Ok b Err by (subst (asm) start_jobs.simps) simp
          then show ?thesis using g1 by simp
        next
          case entry: (Ok e)
          let ?s2 = "with_progress (set_state index 1) s1"
          have "start_jobs env drv n (Suc index) (pending @ [(index, e)]) err ?s2 = (r, s')"
            using "1.prems" more one Ok b entry by (subst (asm) start_jobs.simps) simp
          note ih = "1.IH"(2) [OF more one [symmetric] Ok _ entry this]
          have q2: "quiet paths drv s1 ?s2" by (rule quiet_progress) (simp_all add: set_state_def)
          have "\<not> is_completed (jb_progress s1) index" using prepare_skip_False one Ok b by simp
          then have "pending_open pending s \<Longrightarrow> pending_open (pending @ [(index, e)]) ?s2"
            using pending_quiet [OF quiet_trans [OF g1 q2]] quiet_completed [OF q2]
            by (auto simp: pending_open_def)
          then show ?thesis using ih b quiet_trans [OF quiet_trans [OF g1 q2]] by blast
        qed
      qed
    qed
  qed
qed

lemma away_recovery:
  "away paths drv k \<Longrightarrow> recovery_directory cx (job_request drv e) = Some dir \<Longrightarrow> k \<noteq> dir @ [name]"
  by (auto simp: away_def recovery_directory_def job_request_def)

lemma clear_ranges_quiet:
  assumes "locally (clear_completed_ranges cx threshold (job_request drv e)) s = (r, s')"
  shows "quiet paths drv s s'"
proof (rule quiet_locally [OF assms])
  fix st' k
  let ?request = "job_request drv e"
  assume run: "clear_completed_ranges cx threshold ?request (jb_local s) = (r, st')" and k: "away paths drv k"
  obtain x st1 where one: "open_checkpoint cx ?request (jb_local s) = (x, st1)" by fastforce
  note g = kept_grows [OF open_checkpoint_grows [OF one], of k]
  show "kept k (ts_tree (jb_local s)) (ts_tree st')"
  proof (cases "rf_size (rd_remote ?request) < threshold \<or> \<not> has_identity (rd_remote ?request) \<or> \<not> is_ok x
      \<or> x = Ok None")
    case True
    then have "ts_tree st' = ts_tree (jb_local s) \<or> ts_tree st' = ts_tree st1"
      using run one by (cases x) (auto simp: clear_completed_ranges_def split: if_splits)
    then show ?thesis using g by auto
  next
    case False
    then obtain dir where x: "x = Ok (Some dir)" by (cases x) auto
    then have rec: "recovery_directory cx ?request = Some dir"
      using open_checkpoint_Ok(3) [OF one [unfolded x]] by (simp add: recovery_directory_def)
    obtain y fs where clr: "checkpoint_clear dir (rf_size (rd_remote ?request)) (ts_tree st1) = (y, fs)" by fastforce
    have "fs k = ts_tree st1 k"
      using clear_confined [OF clr, of "[]"] away_recovery [OF k rec] k
      by (auto simp: confined_def away_def not_temporary_def)
    moreover have "ts_tree st' = fs"
      using run one x False clr by (auto simp: clear_completed_ranges_def with_tree_def split: if_splits)
    ultimately show ?thesis using kept_trans [OF g kept_same] by simp
  qed
qed

section \<open>The steps advance\<close>

lemma quiet_entry: "quiet paths drv s s' \<Longrightarrow> job_entry (jb_progress s') i = job_entry (jb_progress s) i"
  by (simp add: quiet_def job_entry_def)

lemma save_completion_quiet: "save_completion_progress env index s = (r, s') \<Longrightarrow> quiet paths drv s s'"
  by (auto simp: save_completion_progress_def Let_def quiet_def reports_ok_def split: option.splits prod.splits)

definition prepared_ok :: "codec \<Rightarrow> driver \<Rightarrow> entry \<Rightarrow> staged_file \<times> string \<Rightarrow> file_tree \<Rightarrow> bool" where
  "prepared_ok cx drv e prepared fs \<longleftrightarrow>
     (case prepared of (staged, digest) \<Rightarrow>
        target_key staged = target_of drv e \<and> (\<exists>u. sf_name staged = temp_name u)
        \<and> (\<exists>content. fs (staged_key staged) = Some (RegularFile content)
             \<and> length content = unat (rf_size (en_remote e)) \<and> digest = cx_sha256 cx content))"

lemma prepared_grows: "prepared_ok cx drv e prepared fs \<Longrightarrow> grows fs fs' \<Longrightarrow> prepared_ok cx drv e prepared fs'"
  by (auto simp: prepared_ok_def dest: grows_keep)

lemma discard_staged_quiet:
  assumes "prepared_ok cx drv e (staged, digest) fs"
  shows "quiet paths drv s (discard_staged env staged s)"
  unfolding discard_staged_def
proof (rule quiet_local)
  fix k assume "away paths drv k"
  then have "k \<noteq> staged_key staged"
    using assms temporary_key by (auto simp: prepared_ok_def away_def)
  then show "kept k (ts_tree (jb_local s)) (ts_tree (drop_file (je_local env) staged (jb_local s)))"
    by (rule kept_same [OF drop_file_tree])
qed

text \<open>The publication: the other targets stay, and success puts the verified bytes in place.\<close>

lemma publish_advances:
  assumes run: "locally (publish_staged env drv staged) s = (r, s')"
    and entry: "job_entry (jb_progress s) index = Ok e" and incomplete: "\<not> is_completed (jb_progress s) index"
    and prep: "prepared_ok cx drv e (staged, digest) (ts_tree (jb_local s))"
  shows "advances cx paths drv s s'" and "jb_progress s' = jb_progress s"
    and "sound cx paths drv s \<Longrightarrow> r = Ok () \<Longrightarrow> on_disk cx drv (ts_tree (jb_local s')) e digest"
proof -
  let ?fs = "ts_tree (jb_local s)"
  obtain fs where pub: "publish (te_publish (je_local env) (ts_steps (jb_local s))) staged
      (dv_strategy drv \<noteq> Some NoClobber) ?fs = (r, fs)" and s': "ts_tree (jb_local s') = fs"
    using run by (auto simp: locally_def publish_staged_def with_tree_def split: prod.splits)
  show p: "jb_progress s' = jb_progress s" using locally_goes_on [OF run] by simp
  obtain content u where c: "target_key staged = target_of drv e" "sf_name staged = temp_name u"
    "?fs (staged_key staged) = Some (RegularFile content)"
    "length content = unat (rf_size (en_remote e))" "digest = cx_sha256 cx content"
    using prep by (auto simp: prepared_ok_def)
  obtain j where j: "pr_journal (jb_progress s) = Some j" "index < length (mf_files (jn_manifest j))"
    "mf_files (jn_manifest j) ! index = e"
    using entry by (auto simp: job_entry_def split: option.splits if_splits)
  have same: "fs k = ?fs k" if "away paths drv k" "k \<noteq> target_of drv e" for k
    using publish_other [OF pub] temporary_key [OF _ c(2)] that c(1) by (auto simp: away_def)
  have all: "all_on_disk cx drv s'" if snd: "sound cx paths drv s"
    unfolding all_on_disk_def p
  proof (intro allI impI)
    fix j' i d
    assume a: "pr_journal (jb_progress s) = Some j'" "i < length (mf_files (jn_manifest j'))"
      "file_payload_digest (jb_progress s) j' i = Some d"
    let ?k = "target_of drv (mf_files (jn_manifest j') ! i)"
    have "i \<noteq> index" using a incomplete by (auto simp: is_completed_def payload_digest_iff)
    then have "?k \<noteq> target_of drv e"
      using snd j a by (auto simp: sound_def plan_ok_def distinct_conv_nth)
    moreover have "away paths drv ?k" using snd a by (simp add: sound_def plan_ok_def)
    ultimately have "kept ?k ?fs (ts_tree (jb_local s'))" using kept_same same s' by metis
    then show "on_disk cx drv (ts_tree (jb_local s')) (mf_files (jn_manifest j') ! i) d"
      using snd a on_disk_kept by (simp add: sound_def all_on_disk_def)
  qed
  have "kept k ?fs (ts_tree (jb_local s'))" if "away paths drv k" "k \<notin> targets drv (jb_progress s)" for k
  proof -
    have "k \<noteq> target_of drv e" using that j by (auto simp: targets_def)
    then show ?thesis using kept_same same that(1) s' by metis
  qed
  then show "advances cx paths drv s s'"
    using all p by (simp add: advances_def sound_def reports_ok_def)
  assume snd: "sound cx paths drv s" and ok: "r = Ok ()"
  have "away paths drv (target_of drv e)" using snd j by (auto simp: sound_def plan_ok_def)
  then have "sf_name staged \<noteq> sf_target staged"
    using c(1,2) by (auto simp: away_def not_temporary_def target_key_def split: if_splits)
      (metis last_snoc)
  from publish_cases(3) [OF c(3) this pub] ok
  show "on_disk cx drv (ts_tree (jb_local s')) e digest" using c s' by (simp add: on_disk_def)
qed

lemma believed_entry: "i \<noteq> index \<Longrightarrow> believed (complete_entry index digest request_id j p) i = believed p i"
  by (simp add: believed_def complete_entry_def set_state_def)

lemma complete_advances:
  assumes entry: "job_entry (jb_progress s) index = Ok e" and j: "pr_journal (jb_progress s) = Some j"
    and disk: "on_disk cx drv (ts_tree (jb_local s)) e digest"
  shows "advances cx paths drv s (with_progress (complete_entry index digest request_id j) s)"
proof -
  have e: "index < length (mf_files (jn_manifest j))" "mf_files (jn_manifest j) ! index = e"
    using entry j by (auto simp: job_entry_def split: if_splits)
  let ?s = "with_progress (complete_entry index digest request_id j) s"
  have j': "pr_journal (jb_progress ?s) = Some (j\<lparr>jn_completed := (jn_completed j)[index := Some digest]\<rparr>)"
    by (simp add: complete_entry_def)
  have "all_on_disk cx drv ?s" if snd: "sound cx paths drv s"
    unfolding all_on_disk_def j'
  proof (intro allI impI)
    fix j2 i d
    assume a: "Some (j\<lparr>jn_completed := (jn_completed j)[index := Some digest]\<rparr>) = Some j2"
      "i < length (mf_files (jn_manifest j2))" "file_payload_digest (jb_progress ?s) j2 i = Some d"
    show "on_disk cx drv (ts_tree (jb_local ?s)) (mf_files (jn_manifest j2) ! i) d"
    proof (cases "i = index")
      case True
      have "index < length (jn_completed j)" using snd e j by (simp add: sound_def slots_ok_def)
      then show ?thesis using a True e disk by (auto simp: payload_digest_iff)
    next
      case False
      then show ?thesis
        using a snd j by (auto simp: sound_def all_on_disk_def payload_digest_iff believed_entry)
    qed
  qed
  moreover have "believed (jb_progress s) i \<Longrightarrow> believed (jb_progress ?s) i" for i
    by (cases "i = index") (auto simp: believed_def complete_entry_def set_state_def)
  ultimately show ?thesis
    using j j' by (auto simp: advances_def sound_def plan_ok_def slots_ok_def targets_def reports_ok_def
        complete_entry_def set_state_def)
qed

text \<open>After the publication only the journal entry of the file changes.\<close>

lemma finish_published_quiet:
  assumes run: "finish_published env drv index e digest request_id s = (r, s')"
    and j: "pr_journal (jb_progress s) = Some j"
  shows "quiet paths drv (with_progress (complete_entry index digest request_id j) s) s'"
proof -
  let ?s3 = "with_progress (complete_entry index digest request_id j) s"
  obtain saved s4 where save: "save_completion_progress env index ?s3 = (saved, s4)" by fastforce
  obtain reported s5 where rep: "record_outcome env index ''succeeded'' None request_id s4 = (reported, s5)"
    by fastforce
  obtain z s6 where clear: "locally (clear_completed_ranges (je_codec env) (dv_threshold drv)
      (job_request drv e)) s5 = (z, s6)" by fastforce
  have q5: "quiet paths drv ?s3 s5"
    by (rule quiet_trans [OF save_completion_quiet [OF save] record_outcome_quiet [OF rep]])
  have q6: "quiet paths drv ?s3 s6" by (rule quiet_trans [OF q5 clear_ranges_quiet [OF clear]])
  have warn: "quiet paths drv s6 (with_progress (\<lambda>p. p\<lparr>pr_cleanup_warning := True\<rparr>) s6)"
    by (rule quiet_progress) simp_all
  have "s' = s5 \<or> s' = s6 \<or> s' = with_progress (\<lambda>p. p\<lparr>pr_cleanup_warning := True\<rparr>) s6"
  proof (cases "try_in saved (\<lambda>_. reported)")
    case (Err error)
    then show ?thesis using run by (simp add: finish_published_def j save rep)
  next
    case (Ok u)
    then show ?thesis using run by (cases z) (simp_all add: finish_published_def j save rep clear)
  qed
  then show ?thesis using q5 q6 quiet_trans [OF q6 warn] by auto
qed

lemma finish_published_advances:
  assumes run: "finish_published env drv index e digest request_id s = (r, s')"
    and entry: "job_entry (jb_progress s) index = Ok e"
    and disk: "on_disk cx drv (ts_tree (jb_local s)) e digest"
  shows "advances cx paths drv s s'"
proof -
  obtain j where j: "pr_journal (jb_progress s) = Some j"
    using entry by (auto simp: job_entry_def split: option.splits)
  show ?thesis
    by (rule advances_trans [OF complete_advances [OF entry j disk] quiet_advances [OF finish_published_quiet [OF run j]]])
qed

lemma finish_published_completed:
  assumes run: "finish_published env drv index e digest request_id s = (r, s')"
    and entry: "job_entry (jb_progress s) index = Ok e" and "i \<noteq> index"
  shows "is_completed (jb_progress s') i = is_completed (jb_progress s) i"
proof -
  obtain j where j: "pr_journal (jb_progress s) = Some j"
    using entry by (auto simp: job_entry_def split: option.splits)
  show ?thesis
    using quiet_completed [OF finish_published_quiet [OF run j], of i] assms(3) j
    by (simp add: is_completed_def complete_entry_def)
qed

lemma finish_file_sound:
  assumes run: "finish_file env drv index (staged, digest) request_id s = (r, s')"
    and entry: "job_entry (jb_progress s) index = Ok e" and incomplete: "\<not> is_completed (jb_progress s) index"
    and prep: "prepared_ok cx drv e (staged, digest) (ts_tree (jb_local s))"
  shows "advances cx paths drv s s' \<and> (\<forall>i. i \<noteq> index \<longrightarrow> is_completed (jb_progress s') i = is_completed (jb_progress s) i)"
proof -
  have quiet: "quiet paths drv s s' \<Longrightarrow> ?thesis" using quiet_advances quiet_completed by blast
  note discard = discard_staged_quiet [OF prep]
  from run show ?thesis
  proof (cases rule: finish_file_cases)
    case no_entry
    then show ?thesis using quiet discard by simp
  next
    case (skipped e' s1 y s2)
    show ?thesis
      unfolding skipped(4)
      by (rule quiet [unfolded skipped(4)]) (rule quiet_trans [OF quiet_trans [OF should_skip_quiet [OF skipped(2)] mark_skipped_quiet [OF skipped(3)]] discard])
  next
    case (unclear e' error s1 failure s2)
    show ?thesis
      unfolding unclear(4)
      by (rule quiet [unfolded unclear(4)]) (rule quiet_trans [OF quiet_trans [OF should_skip_quiet [OF unclear(2)] fail_file_quiet [OF unclear(3)]] discard])
  next
    case (unpublished e' s1 error s2 failure)
    note q1 = should_skip_quiet [OF unpublished(2), of paths]
    have grow: "grows (ts_tree (jb_local s)) (ts_tree (jb_local s1))"
      using unpublished(2) should_skip_kept by (auto simp: locally_def split: prod.splits)
    have e1: "job_entry (jb_progress s1) index = Ok e" "\<not> is_completed (jb_progress s1) index"
      using entry incomplete quiet_entry [OF q1] quiet_completed [OF q1] by simp_all
    note pub = publish_advances [OF unpublished(3) e1 prepared_grows [OF prep grow]]
    note q3 = fail_file_quiet [OF unpublished(4), of paths drv]
    have "advances cx paths drv s s'"
      by (rule advances_trans [OF quiet_advances [OF q1] advances_trans [OF pub(1) quiet_advances [OF q3]]])
    then show ?thesis using quiet_completed [OF q1] quiet_completed [OF q3] pub(2) by simp
  next
    case (published e' s1 s2)
    note q1 = should_skip_quiet [OF published(2), of paths]
    have grow: "grows (ts_tree (jb_local s)) (ts_tree (jb_local s1))"
      using published(2) should_skip_kept by (auto simp: locally_def split: prod.splits)
    have e1: "job_entry (jb_progress s1) index = Ok e" "\<not> is_completed (jb_progress s1) index"
      using entry incomplete quiet_entry [OF q1] quiet_completed [OF q1] by simp_all
    note pub = publish_advances [OF published(3) e1 prepared_grows [OF prep grow]]
    have e': "e' = e" using published(1) entry by simp
    have adv: "advances cx paths drv s s2" by (rule advances_trans [OF quiet_advances [OF q1] pub(1)])
    have entry2: "job_entry (jb_progress s2) index = Ok e" using e1 pub(2) by simp
    note run2 = published(4) [unfolded e']
    have "advances cx paths drv s s'"
    proof (rule advances_if)
      assume "sound cx paths drv s"
      then have "sound cx paths drv s1" using quiet_advances [OF q1] by (simp add: advances_def)
      then have "on_disk cx drv (ts_tree (jb_local s2)) e digest" by (rule pub(3)) simp
      then show "advances cx paths drv s s'"
        using advances_trans [OF adv] finish_published_advances [OF run2 entry2] by blast
    qed
    then show ?thesis
      using finish_published_completed [OF run2 entry2] pub(2) quiet_completed [OF q1] by simp
  qed
qed

section \<open>A job and the loop\<close>

lemma content_download_staged:
  assumes "content_download cx env scopes threshold request schedule st = Some (Ok (staged, digest), st')"
  shows "\<exists>u. sf_name staged = temp_name u"
  using assms
proof (cases rule: content_download_cases)
  case 1
  then show ?thesis
    by (rule ranged_download_Ok) (auto simp: step_simps dest: staged_new_effect(2))
next
  case 2
  then have "single_done cx env request (staged, digest) st'" by (rule download_single_done)
  then show ?thesis unfolding single_done_def fst_conv using staged_new_effect(2) by blast
qed

lemma download_prepared:
  assumes "content_download cx env scopes threshold (job_request drv e) schedule st = Some (Ok prepared, st')"
  shows "prepared_ok cx drv e prepared (ts_tree st')"
proof -
  obtain staged digest where p: "prepared = (staged, digest)" by (cases prepared)
  note run = assms [unfolded p]
  show ?thesis
    using content_download_verified [OF run] content_download_staged [OF run]
    by (auto simp: prepared_ok_def p target_of_def job_request_def)
qed

lemma issue_quiet:
  assumes "issue_address env index e s = (r, rid, state, s1)"
  shows "quiet paths drv s s1" and "ts_tree (jb_local s1) = ts_tree (jb_local s)"
  using assms
  by (auto simp: issue_address_def capture_scope_def Let_def quiet_def reports_ok_def set_state_def
      split: prod.splits)

lemma run_job_sound:
  assumes "run_job env drv index e ranges s = Some (outcome, s')"
  shows "quiet paths drv s s'"
    and "oc_result outcome = Ok prepared \<Longrightarrow> prepared_ok (je_codec env) drv e prepared (ts_tree (jb_local s'))"
proof -
  obtain r rid state s1 where one: "issue_address env index e s = (r, rid, state, s1)" by (metis prod.collapse)
  note i = issue_quiet(1) [OF one, of paths drv]
  have "quiet paths drv s s' \<and> (oc_result outcome = Ok prepared \<longrightarrow>
      prepared_ok (je_codec env) drv e prepared (ts_tree (jb_local s')))"
  proof (cases "\<exists>address. r = Ok address \<and> je_is_valid_url env address")
    case False
    then have "s' = s1" "\<not> is_ok (oc_result outcome)"
      using assms one by (auto simp: run_job_def split: result.splits if_splits)
    then show ?thesis using i by auto
  next
    case True
    then obtain address where a: "r = Ok address" "je_is_valid_url env address" by blast
    obtain scopes traces where cap: "capture_scope (ts_fresh (jb_local s1)) [] (ts_traces (jb_local s1)) = (scopes, traces)"
      by fastforce
    let ?st = "(jb_local s1)\<lparr>ts_fresh := Suc (ts_fresh (jb_local s1)), ts_traces := traces\<rparr>"
    obtain x st where run: "content_download (je_codec env) (je_content env address) scopes (dv_threshold drv)
        (job_request drv e) ranges ?st = Some (x, st)"
      and out: "oc_result outcome = x" "s' = (with_progress (set_state index 4) s1)\<lparr>jb_local := st\<rparr>"
      using assms one a cap by (auto simp: run_job_def Let_def)
    have "kept k (ts_tree (jb_local s1)) (ts_tree st)" if "away paths drv k" for k
      using content_download_keeps [OF run] away_recovery [OF that] by (simp add: kept_def)
    then have "quiet paths drv s1 s'"
      unfolding out by (simp add: quiet_def reports_ok_def set_state_def)
    moreover have "prepared_ok (je_codec env) drv e prepared (ts_tree st)" if "x = Ok prepared"
      by (rule download_prepared [OF run [unfolded that]])
    ultimately show ?thesis using quiet_trans [OF i] out by simp
  qed
  then show "quiet paths drv s s'"
    and "oc_result outcome = Ok prepared \<Longrightarrow> prepared_ok (je_codec env) drv e prepared (ts_tree (jb_local s'))"
    by blast+
qed

lemma note_unknown_quiet: "quiet paths drv s (note_unknown outcome s)"
  unfolding note_unknown_def by (auto intro!: quiet_progress)

lemma accept_sound:
  assumes run: "accept_outcome env drv outcome s = (r, s')"
    and entry: "job_entry (jb_progress s) (oc_index outcome) = Ok e"
    and incomplete: "\<not> is_completed (jb_progress s) (oc_index outcome)"
    and prep: "\<And>prepared. oc_result outcome = Ok prepared \<Longrightarrow> prepared_ok cx drv e prepared (ts_tree (jb_local s))"
  shows "advances cx paths drv s s' \<and> (\<forall>i. i \<noteq> oc_index outcome \<longrightarrow>
    is_completed (jb_progress s') i = is_completed (jb_progress s) i)"
proof (cases "oc_result outcome")
  case (Err error)
  obtain failure s1 where fail: "fail_file env (oc_index outcome) error (oc_request_id outcome) s = (failure, s1)"
    by fastforce
  then have "s' = s1" using run Err by (simp add: accept_outcome_def)
  then show ?thesis using quiet_advances [OF fail_file_quiet [OF fail]] quiet_completed [OF fail_file_quiet [OF fail]] by auto
next
  case (Ok prepared)
  obtain staged digest where p: "prepared = (staged, digest)" by (cases prepared)
  have "finish_file env drv (oc_index outcome) (staged, digest) (oc_request_id outcome) s = (r, s')"
    using run Ok p by (simp add: accept_outcome_def)
  then show ?thesis using finish_file_sound entry incomplete prep [OF Ok] p by blast
qed

lemma transfer_loop_advances:
  assumes "transfer_loop env drv n schedule (index, pending, err) s = (status, s')"
    and "queue_ok p0 (index, pending, err) s" and "pending_open pending s"
  shows "advances (je_codec env) paths drv s s'"
  using assms
proof (induction schedule arbitrary: index pending err s rule: measure_induct_rule [where f = length])
  case (less schedule)
  obtain f0 b0 where err: "err = (f0, b0)" by (cases err)
  from less.prems(1) show ?case
  proof (cases rule: transfer_loop_turn)
    case (broken e)
    then show ?thesis using start_jobs_quiet quiet_advances by blast
  next
    case (ended index' first is_stopped)
    then show ?thesis using start_jobs_quiet quiet_advances by blast
  next
    case (cut q)
    then show ?thesis using start_jobs_quiet quiet_advances by blast
  next
    case (turn index' pending' first is_stopped s1 choice ranges rest i job e outcome s2 r s3 err' s4)
    note ok = conjunct1 [OF start_jobs_ok(2) [OF turn(1) less.prems(2) refl]]
    have start: "quiet paths drv s s1" "pending_open pending' s1"
      using start_jobs_quiet [OF turn(1), of paths] less.prems(3) by blast+
    have mem: "(job, e) \<in> set pending'" using turn(3,5) nth_mem by metis
    have entry: "job_entry (jb_progress s1) job = Ok e" and dist: "distinct (map fst pending')"
      using ok mem unfolding queue_ok_def by auto
    have nc: "\<not> is_completed (jb_progress s1) job" using start(2) mem by (force simp: pending_open_def)
    note run = run_job_sound [OF turn(6)] and idx = run_job_effect(1) [OF turn(6)]
    let ?s2 = "note_unknown outcome s2"
    have q2: "quiet paths drv s1 ?s2" by (rule quiet_trans [OF run(1) note_unknown_quiet])
    have tree: "ts_tree (jb_local ?s2) = ts_tree (jb_local s2)" by (simp add: note_unknown_def)
    have acc: "advances (je_codec env) paths drv ?s2 s3
        \<and> (\<forall>i. i \<noteq> job \<longrightarrow> is_completed (jb_progress s3) i = is_completed (jb_progress ?s2) i)"
      using accept_sound [OF turn(7), of e "je_codec env" paths] idx entry nc
        quiet_entry [OF q2] quiet_completed [OF q2] run(2) tree by simp
    have q4: "quiet paths drv s3 s4"
      using turn(8) track_error_quiet by (auto split: result.splits)
    have adv: "advances (je_codec env) paths drv s s4"
      by (rule advances_trans [OF quiet_advances [OF quiet_trans [OF start(1) q2]]
            advances_trans [OF conjunct1 [OF acc] quiet_advances [OF q4]]])
    have comp: "is_completed (jb_progress s4) k = is_completed (jb_progress s1) k" if "k \<noteq> job" for k
      using acc that quiet_completed [OF q2] quiet_completed [OF q4] by simp
    have "pending_open (remove_at i pending') s4"
      unfolding pending_open_def
    proof
      fix x assume x: "x \<in> set (remove_at i pending')"
      then have "fst x \<noteq> job" using remove_at_keys(2) [OF dist turn(3)] turn(5) by auto
      moreover have "x \<in> set pending'" using x remove_at_keys(3) [OF dist turn(3)] by blast
      ultimately show "\<not> is_completed (jb_progress s4) (fst x)" using comp start(2) by (simp add: pending_open_def)
    qed
    moreover have "queue_ok p0 (index', remove_at i pending', err') s4"
      by (rule turn_queue_ok [OF ok turn(3,5-8)])
    ultimately have "advances (je_codec env) paths drv s4 s'"
      using less.IH [OF _ turn(9)] turn(2) by simp
    then show ?thesis using adv advances_trans by blast
  qed
qed

section \<open>The plan of a command\<close>

lemma distinct_sorted: "sorted_wrt (\<noteq>) xs \<longleftrightarrow> distinct xs"
  by (induction xs) auto

text \<open>No two files of a validated manifest have the same local path.\<close>

lemma validated_locals_distinct:
  assumes "manifest_validate fold_path m = Ok u"
  shows "distinct (map en_local (mf_files m))"
proof -
  have "sorted_wrt (compatible fold_path) (map (\<lambda>e. (en_local e, False)) (mf_files m))"
    using assms manifest_validate_ok [of fold_path m]
    by (simp add: manifest_spec_def collision_free_def local_items_def sorted_wrt_append)
  then have "sorted_wrt (\<lambda>d e. en_local d \<noteq> en_local e) (mf_files m)"
    unfolding sorted_wrt_map
    by (rule sorted_wrt_mono_rel [rotated]) (auto simp: path_in_ancestors)
  then show ?thesis by (simp add: distinct_sorted [symmetric] sorted_wrt_map)
qed

lemma split_on_inj: "split_on c s = split_on c t \<Longrightarrow> s = t"
  by (metis join_split)

lemma target_distinct:
  "distinct (map en_local files) \<Longrightarrow> distinct (map (target_of drv) files)"
  by (auto simp: target_of_def distinct_map inj_on_def dest: split_on_inj)

text \<open>A name that passed \<open>check_reserved\<close> is not a temporary one.\<close>

lemma reserved_not_temporary:
  assumes "check_reserved fold_case j ck = Ok u" and "e \<in> set (mf_files (jn_manifest j))"
  shows "not_temporary (target_of drv e)"
proof -
  let ?parts = "split_on slash (en_local e)"
  have "\<not> starts_with ''.adrive-share-'' p" if "p \<in> set ?parts" for p
    using assms that by (auto simp: check_reserved_def try_each_Ok_iff list_ex_iff split: if_splits)
  moreover have "starts_with ''.adrive-share-'' (temp_name u)" for u
    by (simp add: starts_with_iff temp_name_def)
  ultimately have "last ?parts \<noteq> temp_name u" for u
    using last_in_set [of ?parts] by (metis split_on_not_Nil)
  then show ?thesis by (simp add: not_temporary_def target_of_def)
qed

text \<open>
  The steps before the report is opened: nothing is staged, the local files only gain folders,
  and a completion is believed only when its file has been verified.
\<close>

definition idle :: "codec \<Rightarrow> driver \<Rightarrow> job_state \<Rightarrow> job_state \<Rightarrow> bool" where
  "idle cx drv s0 s \<longleftrightarrow>
     pr_artifacts (jb_progress s) = None \<and> pr_states (jb_progress s) = [] \<and> all_on_disk cx drv s
     \<and> grows (ts_tree (jb_local s0)) (ts_tree (jb_local s)) \<and> jb_issued s = jb_issued s0"

definition stays :: "job_state \<Rightarrow> job_state \<Rightarrow> bool" where
  "stays s s' \<longleftrightarrow>
     pr_journal (jb_progress s') = pr_journal (jb_progress s)
     \<and> pr_verified (jb_progress s') = pr_verified (jb_progress s)
     \<and> pr_is_resuming (jb_progress s') = pr_is_resuming (jb_progress s)
     \<and> pr_artifacts (jb_progress s') = pr_artifacts (jb_progress s)
     \<and> pr_states (jb_progress s') = pr_states (jb_progress s)
     \<and> grows (ts_tree (jb_local s)) (ts_tree (jb_local s')) \<and> jb_issued s' = jb_issued s"

lemma stays_refl [simp]: "stays s s"
  by (simp add: stays_def)

lemma stays_trans: "stays s s1 \<Longrightarrow> stays s1 s2 \<Longrightarrow> stays s s2"
  unfolding stays_def using grows_trans by auto

lemma stays_believed: "stays s s' \<Longrightarrow> believed (jb_progress s') i = believed (jb_progress s) i"
  by (simp add: stays_def believed_def)

lemma stays_idle:
  assumes "stays s s'" and "idle cx drv s0 s"
  shows "idle cx drv s0 s'"
proof -
  have "all_on_disk cx drv s'"
    unfolding all_on_disk_def
  proof (intro allI impI)
    fix j i d
    assume a: "pr_journal (jb_progress s') = Some j" "i < length (mf_files (jn_manifest j))"
      "file_payload_digest (jb_progress s') j i = Some d"
    then have "on_disk cx drv (ts_tree (jb_local s)) (mf_files (jn_manifest j) ! i) d"
      using assms stays_believed [OF assms(1)]
      by (simp add: idle_def all_on_disk_def payload_digest_iff stays_def)
    then show "on_disk cx drv (ts_tree (jb_local s')) (mf_files (jn_manifest j) ! i) d"
      by (rule on_disk_kept [rotated]) (use assms(1) in \<open>simp add: stays_def kept_grows\<close>)
  qed
  then show ?thesis using assms unfolding idle_def stays_def using grows_trans by auto
qed

lemma preflight_stays:
  assumes "preflight drv s = (r, s')"
  shows "stays s s'"
proof (cases "pr_journal (jb_progress s)")
  case None
  then show ?thesis using assms by (simp add: preflight_def)
next
  case (Some j)
  have one: "stays s1 s2"
    if run: "preflight_directory (dv_directory drv) names s1 = (r1, s2)" for names s1 r1 s2
  proof -
    obtain relative remote where n: "names = (relative, remote)" by (cases names)
    obtain x fs where dir: "safe_directory (dv_directory drv) relative True (ts_tree (jb_local s1)) = (x, fs)"
      by fastforce
    have "grows (ts_tree (jb_local s1)) fs"
      using dir descend_grows by (auto simp: safe_directory_def split: if_splits)
    then show ?thesis
      using run dir n
      by (cases x) (auto simp: preflight_directory_def locally_def with_tree_def stays_def)
  qed
  have "st_each (preflight_directory (dv_directory drv))
      (zip (mf_directories (jn_manifest j)) (mf_remote_directories (jn_manifest j))) s = (r, s')"
    using assms Some by (simp add: preflight_def)
  from st_each_invariant [where I = "stays s", OF this stays_refl]
  show ?thesis using one stays_trans by blast
qed

lemma save_progress_stays: "save_progress env s = (r, s') \<Longrightarrow> stays s s'"
  by (auto simp: save_progress_def Let_def stays_def split: option.splits prod.splits)

lemma begin_transfer_stays: "stays s (with_progress begin_transfer s)"
  by (simp add: stays_def begin_transfer_def split: option.split)

text \<open>A verified completion is on disk.\<close>

lemma digest_loop_Ok:
  "digest_loop cx n chunks len hashed = Ok (bytes, digest) \<Longrightarrow>
   bytes = len + length (concat chunks) \<and> digest = cx_sha256 cx (hashed @ concat chunks)"
  by (induction cx n chunks len hashed rule: digest_loop.induct) (auto simp: Let_def split: if_splits)

lemma safe_parent_key:
  assumes "safe_parent dir path c fs = (Ok (parent, name), fs')"
  shows "parent @ [name] = dir @ split_on slash path"
proof (cases "rsplit_once slash path")
  case None
  then have "slash \<notin> set path" by (simp add: rsplit_once_None)
  then show ?thesis using assms None by (auto simp: safe_parent_def split: if_splits)
next
  case (Some p)
  obtain a b where ab: "p = (a, b)" by (cases p)
  then have path: "path = a @ slash # b" "slash \<notin> set b"
    using Some by (auto simp: rsplit_once_Some)
  have "safe_directory dir a c fs = (Ok parent, fs')" "name = b"
    using assms Some ab by (auto simp: safe_parent_def st_try_Ok_iff split: if_splits)
  then have d: "descend dir (split_on slash a) c fs = (Ok parent, fs')"
    by (simp add: safe_directory_def split: if_splits)
  show ?thesis using descend_Ok [OF d] path \<open>name = b\<close> by (simp add: split_on_mid)
qed

lemma local_digest_on_disk:
  assumes "local_digest cx (dv_directory drv) (en_local e) bytes fs = Ok (unat (rf_size (en_remote e)), digest)"
  shows "on_disk cx drv fs e digest"
proof -
  obtain parent name where par: "fst (safe_parent (dv_directory drv) (en_local e) False fs) = Ok (parent, name)"
    using assms by (auto simp: local_digest_def try_in_Ok_iff)
  then have key: "parent @ [name] = target_of drv e"
    using safe_parent_key by (metis prod.collapse target_of_def)
  obtain content where "read_leaf parent name fs = Ok content"
    and "digest_loop cx bytes (chunks_of buffer_size content) 0 [] = Ok (unat (rf_size (en_remote e)), digest)"
    using assms par by (auto simp: local_digest_def try_in_Ok_iff)
  then show ?thesis
    using digest_loop_Ok key
    by (fastforce simp: on_disk_def read_leaf_def ordinary_def concat_chunks_of buffer_size_def
        split: option.splits node.splits)
qed

lemma verify_resume_on_disk:
  assumes "verify_resume_entry env index (Some (dv_directory drv)) e (Some digest) fs = Ok b"
  shows "on_disk (je_codec (cm_job env)) drv fs e digest"
proof -
  have "local_digest (je_codec (cm_job env)) (dv_directory drv) (en_local e) (rf_size (en_remote e)) fs
      = Ok (unat (rf_size (en_remote e)), digest)"
    using assms by (auto simp: verify_resume_entry_def try_in_Ok_iff split: if_splits prod.splits)
  then show ?thesis by (rule local_digest_on_disk)
qed

text \<open>The loop over the files of a resumed plan.\<close>

lemma resume_entry_cases:
  assumes "resume_entry env drv j index s = (r, s')"
  obtains (refused) e where "r = Err e" and "stays s s'"
  | (verified) b where "r = Ok ()"
      and "verify_resume_entry env index (Some (dv_directory drv)) (mf_files (jn_manifest j) ! index)
        (jn_completed j ! index) (ts_tree (jb_local s)) = Ok b"
      and "jb_local s' = jb_local s" and "jb_issued s' = jb_issued s"
      and "pr_verified (jb_progress s') = (pr_verified (jb_progress s))[index := True]"
      and "pr_journal (jb_progress s') = pr_journal (jb_progress s)"
      and "pr_is_resuming (jb_progress s') = pr_is_resuming (jb_progress s)"
      and "pr_artifacts (jb_progress s') = pr_artifacts (jb_progress s)"
      and "pr_states (jb_progress s') = pr_states (jb_progress s)"
proof (cases "verify_resume_entry env index (Some (dv_directory drv)) (mf_files (jn_manifest j) ! index)
      (jn_completed j ! index) (ts_tree (jb_local s))")
  case (Err e)
  then show thesis using assms refused by (auto simp: resume_entry_def stays_def Let_def)
next
  case (Ok b)
  then show thesis using assms verified by (auto simp: resume_entry_def Let_def)
qed

definition resuming :: "codec \<Rightarrow> driver \<Rightarrow> job_state \<Rightarrow> journal \<Rightarrow> job_state \<Rightarrow> bool" where
  "resuming cx drv s0 j s \<longleftrightarrow>
     idle cx drv s0 s \<and> pr_journal (jb_progress s) = Some j
     \<and> length (pr_verified (jb_progress s)) = length (mf_files (jn_manifest j))"

lemma resume_entry_resuming:
  assumes run: "resume_entry env drv j index s = (r, s')" and inv: "resuming (je_codec (cm_job env)) drv s0 j s"
  shows "resuming (je_codec (cm_job env)) drv s0 j s'"
    and "believed (jb_progress s) i \<Longrightarrow> believed (jb_progress s') i"
    and "r = Ok () \<Longrightarrow> index < length (mf_files (jn_manifest j)) \<Longrightarrow> believed (jb_progress s') index"
proof -
  let ?cx = "je_codec (cm_job env)"
  have "resuming ?cx drv s0 j s' \<and> (\<forall>i. believed (jb_progress s) i \<longrightarrow> believed (jb_progress s') i)
    \<and> (r = Ok () \<longrightarrow> index < length (mf_files (jn_manifest j)) \<longrightarrow> believed (jb_progress s') index)"
    using run
  proof (cases rule: resume_entry_cases)
    case (refused e)
    then have "pr_journal (jb_progress s') = pr_journal (jb_progress s)"
      "pr_verified (jb_progress s') = pr_verified (jb_progress s)" by (simp_all add: stays_def)
    then show ?thesis
      using inv refused(1) stays_idle [OF refused(2)] stays_believed [OF refused(2)] by (simp add: resuming_def)
  next
    case (verified b)
    have b: "believed (jb_progress s') i \<longleftrightarrow> believed (jb_progress s) i
        \<or> (i = index \<and> i < length (pr_verified (jb_progress s)))" for i
      using verified by (cases "i = index") (auto simp: believed_def)
    have "on_disk ?cx drv (ts_tree (jb_local s')) (mf_files (jn_manifest j) ! i) d"
      if i: "i < length (mf_files (jn_manifest j))" and d: "file_payload_digest (jb_progress s') j i = Some d" for i d
    proof (cases "i = index")
      case True
      then have "jn_completed j ! index = Some d" using d by (simp add: payload_digest_iff)
      then show ?thesis using verify_resume_on_disk verified(2,3) True by metis
    next
      case False
      then have "file_payload_digest (jb_progress s) j i = Some d" using d b by (simp add: payload_digest_iff)
      then show ?thesis using inv i verified(3) by (simp add: resuming_def idle_def all_on_disk_def)
    qed
    then have "all_on_disk ?cx drv s'" using inv verified(6) by (simp add: all_on_disk_def resuming_def)
    then have "idle ?cx drv s0 s'" using inv verified by (simp add: resuming_def idle_def)
    then show ?thesis using inv verified b by (simp add: resuming_def)
  qed
  then show "resuming ?cx drv s0 j s'" and "believed (jb_progress s) i \<Longrightarrow> believed (jb_progress s') i"
    and "r = Ok () \<Longrightarrow> index < length (mf_files (jn_manifest j)) \<Longrightarrow> believed (jb_progress s') index"
    by blast+
qed

lemma resume_all:
  assumes "st_each (resume_entry env drv j) is s = (r, s')" and "resuming (je_codec (cm_job env)) drv s0 j s"
    and "\<forall>i \<in> set is. i < length (mf_files (jn_manifest j))"
  shows "resuming (je_codec (cm_job env)) drv s0 j s'
    \<and> (\<forall>i. believed (jb_progress s) i \<longrightarrow> believed (jb_progress s') i)
    \<and> (r = Ok () \<longrightarrow> (\<forall>i \<in> set is. believed (jb_progress s') i))"
  using assms
proof (induction "is" arbitrary: s)
  case Nil
  then show ?case by simp
next
  case (Cons index rest)
  obtain x s1 where one: "resume_entry env drv j index s = (x, s1)" by fastforce
  note step = resume_entry_resuming [OF one Cons.prems(2)]
  show ?case
  proof (cases x)
    case (Err e)
    then show ?thesis using Cons.prems(1) one step(1,2) by auto
  next
    case (Ok u)
    then have "st_each (resume_entry env drv j) rest s1 = (r, s')" using Cons.prems(1) one by simp
    from Cons.IH [OF this step(1)] Cons.prems(3) show ?thesis using step(2,3) Ok by auto
  qed
qed

text \<open>Opening the report.\<close>

lemma quiet_grows: "grows (ts_tree (jb_local s)) (ts_tree st) \<Longrightarrow> quiet paths drv s (s\<lparr>jb_local := st\<rparr>)"
  by (rule quiet_local) (rule kept_grows)

lemma write_manifest_kept:
  assumes run: "write_manifest env path m destination st = (r, st')" and path: "path = ap_manifest paths"
    and k: "away paths drv k"
  shows "kept k (ts_tree st) (ts_tree st')"
proof (cases path)
  case None
  then show ?thesis using run by (simp add: write_manifest_def)
next
  case (Some home)
  obtain dir leaf where home: "home = (dir, leaf)" by (cases home)
  have ap: "apart home k" using k Some path unfolding away_def apart_def by metis
  obtain x w1 st1 where new: "csv_new env dir leaf manifest_columns st = (x, w1, st1)" by (metis prod.collapse)
  note n = csv_new_fine [OF new, folded home]
  obtain y w2 st2 where all: "st_try (x, w1, st1) (\<lambda>_. st_each (write_manifest_entry env destination) (mf_files m))
      = (y, w2, st2)" by (metis prod.collapse)
  have one: "csv_fine home s1 s2" if "write_manifest_entry env destination e s1 = (z, s2)" for e s1 z s2
  proof -
    obtain w st where s1: "s1 = (w, st)" by (cases s1)
    obtain w' st' where s2: "s2 = (w', st')" by (cases s2)
    show ?thesis
      using that csv_write_record_fine [of env _ w st z w' st' home] unfolding s1 s2
      by (auto simp: write_manifest_entry_def split: result.splits)
  qed
  have f2: "csv_fine home (w1, st1) (w2, st2)"
  proof (cases x)
    case (Err e)
    then show ?thesis using all by simp
  next
    case (Ok u)
    then have "st_each (write_manifest_entry env destination) (mf_files m) (w1, st1) = (y, w2, st2)" using all by simp
    from st_each_invariant [where I = "csv_fine home (w1, st1)", OF this csv_fine_refl]
    show ?thesis using one csv_fine_trans by blast
  qed
  have w2: "writer_at home w2" using f2 n(1) by (simp add: csv_fine_def)
  have k2: "kept k (ts_tree st) (ts_tree st2)"
    by (rule kept_trans [OF n(2) [OF ap]]) (use f2 n(1) ap in \<open>simp add: csv_fine_def\<close>)
  obtain z w3 st3 where fin: "csv_finish env (w2, st2) = (z, w3, st3)" by (metis prod.collapse)
  have k3: "kept k (ts_tree st2) (ts_tree st3)"
    using csv_finish_fine [OF fin, of home] w2 ap by (simp add: csv_fine_def)
  have k4: "kept k (ts_tree st2) (ts_tree (drop_writer env (w2, st2)))"
  proof (cases "cw_current w2")
    case None
    then show ?thesis by (simp add: drop_writer_def)
  next
    case (Some staged)
    have "ts_tree (drop_file env staged st2) k = ts_tree st2 k"
      by (rule drop_file_tree [OF apart_staged(1) [OF ap w2 Some]])
    then show ?thesis using Some by (simp add: drop_writer_def kept_def)
  qed
  have "st' = st3 \<or> st' = drop_writer env (w2, st2)"
    using run Some home new all fin by (cases y) (auto simp: write_manifest_def)
  then show ?thesis using k2 k3 k4 kept_trans by blast
qed

lemma report_directory_quiet:
  assumes "report_directory env destination failure s = (r, s')"
  shows "quiet paths drv s s'"
proof (cases "pr_artifacts (jb_progress s)")
  case None
  then show ?thesis using assms by (auto simp: report_directory_def split: prod.splits)
next
  case (Some a)
  then obtain row a' st where "artifacts_record (je_local env) row (a, jb_local s) = (r, a', st)"
    "s' = s\<lparr>jb_progress := (jb_progress s)\<lparr>pr_artifacts := Some a'\<rparr>, jb_local := st\<rparr>"
    using assms by (auto simp: report_directory_def Let_def split: prod.splits)
  then show ?thesis using quiet_record Some by metis
qed

text \<open>What the check of the report paths promises, and where the recovery directory is.\<close>

definition paths_apart :: "command_env \<Rightarrow> command \<Rightarrow> bool" where
  "paths_apart env cmd \<longleftrightarrow>
     (\<forall>j e. cm_check_paths env j = Ok () \<longrightarrow> e \<in> set (mf_files (jn_manifest j)) \<longrightarrow>
        (\<forall>root rest. dv_recovery (co_driver cmd) = Some root \<longrightarrow> target_of (co_driver cmd) e \<noteq> root @ rest)
        \<and> (\<forall>home part. home = ap_report (co_paths cmd) \<or> ap_manifest (co_paths cmd) = Some home \<longrightarrow>
             target_of (co_driver cmd) e \<noteq> volume_key home part))"

lemma driver_open_cases:
  assumes run: "driver_open env paths s = (r, s')" and j: "pr_journal (jb_progress s) = Some j"
  obtains (refused) e where "r = Err e" and "s' = s"
  | (opened) "cm_check_paths env j = Ok ()"
      and "pr_artifacts (jb_progress s) = None \<Longrightarrow> quiet paths drv s s'"
proof (cases "cm_check_paths env j")
  case (Err e)
  then have "r = Err e" "s' = s" using run j by (auto simp: driver_open_def)
  then show thesis by (rule refused)
next
  case (Ok u)
  let ?job = "cm_job env" and ?dest = "id_destination (jn_identity j)"
  obtain dir leaf where home: "ap_report paths = (dir, leaf)" by (cases "ap_report paths")
  obtain x w st where new: "csv_new (je_local ?job) dir leaf report_columns (jb_local s) = (x, w, st)"
    by (metis prod.collapse)
  note n = csv_new_fine [OF new, folded home]
  have keep: "kept k (ts_tree (jb_local s)) (ts_tree st)" if "away paths drv k" for k
    by (rule n(2) [OF away_apart [OF that]])
  have "quiet paths drv s s'" if none: "pr_artifacts (jb_progress s) = None"
  proof (cases x)
    case (Err e)
    then have "s' = s\<lparr>jb_local := st\<rparr>" using run j Ok home new by (simp add: driver_open_def)
    then show ?thesis using quiet_local [OF keep] by simp
  next
    case ok: (Ok v)
    let ?a = "\<lparr>ar_writer = w, ar_is_failures_only = ap_is_failures_only paths\<rparr>"
    let ?s1 = "(with_progress (\<lambda>p. p\<lparr>pr_artifacts := Some ?a\<rparr>) s)\<lparr>jb_local := st\<rparr>"
    have q1: "quiet paths drv s ?s1" using keep n(1) by (simp add: quiet_def reports_ok_def)
    obtain y s2 where two: "locally (write_manifest (je_local ?job) (ap_manifest paths) (jn_manifest j) ?dest) ?s1
        = (y, s2)" by fastforce
    have q2: "quiet paths drv ?s1 s2"
      by (rule quiet_locally [OF two]) (rule write_manifest_kept [OF _ refl])
    have rest: "st_try (y, s2) (\<lambda>_ s. st_each (report_directory ?job ?dest) (pr_directory_failures (jb_progress s)) s)
        = (r, s')"
      using run j Ok home new ok two by (simp add: driver_open_def Let_def)
    have "quiet paths drv s2 s'"
    proof (cases y)
      case (Err e)
      then show ?thesis using rest by simp
    next
      case okk: (Ok v')
      then have "st_each (report_directory ?job ?dest) (pr_directory_failures (jb_progress s2)) s2 = (r, s')"
        using rest by simp
      from st_each_invariant [where I = "quiet paths drv s2", OF this quiet_refl]
      show ?thesis using report_directory_quiet quiet_trans by blast
    qed
    then show ?thesis using quiet_trans [OF quiet_trans [OF q1 q2]] by blast
  qed
  then show thesis using opened Ok by simp
qed

text \<open>The preparation either ends with nothing opened, or leaves a sound state.\<close>

definition planned_from :: "command_env \<Rightarrow> command \<Rightarrow> job_state \<Rightarrow> job_state \<Rightarrow> bool" where
  "planned_from env cmd s0 s \<longleftrightarrow>
     (\<exists>s1. idle (je_codec (cm_job env)) (co_driver cmd) s0 s1
        \<and> sound (je_codec (cm_job env)) (co_paths cmd) (co_driver cmd) s1
        \<and> advances (je_codec (cm_job env)) (co_paths cmd) (co_driver cmd) s1 s)"

lemma load_effect:
  assumes "load_or_enumerate env cmd scanned p = (r, p')"
  shows "pr_journal p' = pr_journal p" "pr_artifacts p' = pr_artifacts p" "pr_states p' = pr_states p"
    "pr_is_resuming p' = pr_is_resuming p" "pr_verified p' = pr_verified p"
    and "r = Ok j \<Longrightarrow> \<not> co_is_resume cmd \<Longrightarrow> jn_completed j = replicate (length (mf_files (jn_manifest j))) None"
  using assms by (auto simp: load_or_enumerate_def try_in_Ok_iff Let_def split: if_splits option.splits prod.splits)

lemma plan_ready:
  assumes idle: "idle cx drv s0 s" and j: "pr_journal (jb_progress s) = Some j"
    and valid: "journal_validate derive fold_path j (jn_identity j) = Ok ()"
    and reserved: "check_reserved fold_case j ck = Ok ()"
    and apart: "\<And>e. e \<in> set (mf_files (jn_manifest j)) \<Longrightarrow>
        (\<forall>root rest. dv_recovery drv = Some root \<longrightarrow> target_of drv e \<noteq> root @ rest)
        \<and> (\<forall>home part. home = ap_report paths \<or> ap_manifest paths = Some home \<longrightarrow>
             target_of drv e \<noteq> volume_key home part)"
  shows "sound cx paths drv s"
proof -
  have "manifest_validate fold_path (jn_manifest j) = Ok ()"
    and slots: "length (jn_completed j) = length (mf_files (jn_manifest j))"
    using valid by (auto simp: journal_validate_def try_in_Ok_iff split: if_splits)
  then have "distinct (map (target_of drv) (mf_files (jn_manifest j)))"
    using target_distinct validated_locals_distinct by blast
  moreover have "away paths drv (target_of drv e)" if "e \<in> set (mf_files (jn_manifest j))" for e
    using reserved_not_temporary [OF reserved that] apart [OF that] unfolding away_def by blast
  ultimately show ?thesis
    using idle j slots by (simp add: sound_def plan_ok_def slots_ok_def reports_ok_def idle_def)
qed

lemma prepare_course:
  assumes run: "prepare_command env cmd scanned s = (r, s')"
    and fresh: "pr_artifacts (jb_progress s) = None" "pr_states (jb_progress s) = []"
      "pr_journal (jb_progress s) = None"
    and apart: "paths_apart env cmd"
  shows "(idle (je_codec (cm_job env)) (co_driver cmd) s s' \<and> r \<noteq> Ok ()) \<or> planned_from env cmd s s'"
    and "r = Ok () \<Longrightarrow> pr_journal (jb_progress s') = Some j \<Longrightarrow> i < length (mf_files (jn_manifest j)) \<Longrightarrow>
      believed (jb_progress s') i"
proof -
  let ?cx = "je_codec (cm_job env)" and ?drv = "co_driver cmd" and ?cd = "je_coding (cm_job env)"
  let ?goal = "((idle ?cx ?drv s s' \<and> r \<noteq> Ok ()) \<or> planned_from env cmd s s')
    \<and> (r = Ok () \<longrightarrow> (\<forall>j i. pr_journal (jb_progress s') = Some j \<longrightarrow> i < length (mf_files (jn_manifest j)) \<longrightarrow>
         believed (jb_progress s') i))"
  let ?p = "(jb_progress s)\<lparr>pr_is_resuming := co_is_resume cmd\<rparr>"
  obtain x p where load: "load_or_enumerate env cmd scanned ?p = (x, p)" by fastforce
  note l = load_effect [OF load]
  let ?s1 = "s\<lparr>jb_progress := p\<rparr>"
  have idle1: "idle ?cx ?drv s ?s1"
    using l fresh by (simp add: idle_def all_on_disk_def)
  have ?goal
  proof (cases x)
    case (Err e)
    then show ?thesis using run load idle1 by (auto simp: prepare_command_def)
  next
    case ok: (Ok j)
    show ?thesis
    proof (cases "journal_validate (cd_derive ?cd) (cd_fold_path ?cd) j (jn_identity j)")
      case (Err e)
      then show ?thesis using run load idle1 ok by (auto simp: prepare_command_def)
    next
      case valid: (Ok u)
      let ?n = "length (mf_files (jn_manifest j))"
      let ?s2 = "with_progress (\<lambda>p. p\<lparr>pr_verified := replicate ?n (\<not> co_is_resume cmd), pr_journal := Some j\<rparr>) ?s1"
      have none: "file_payload_digest (jb_progress ?s2) j i \<noteq> Some d" if "i < ?n" for i d
        using that l ok by (auto simp: payload_digest_iff believed_def)
      then have idle2: "idle ?cx ?drv s ?s2" using l fresh by (auto simp: idle_def all_on_disk_def)
      show ?thesis
      proof (cases "check_reserved (cm_fold env) j (co_checkpoint_path cmd)")
        case (Err e)
        then show ?thesis using run load idle2 ok valid by (auto simp: prepare_command_def Let_def)
      next
        case reserved: (Ok u')
        obtain r3 s3 where pre: "preflight ?drv ?s2 = (r3, s3)" by fastforce
        note st3 = preflight_stays [OF pre]
        note idle3 = stays_idle [OF st3 idle2]
        have j3: "pr_journal (jb_progress s3) = Some j" using st3 by (simp add: stays_def)
        obtain r4 s4 where res: "(if co_is_resume cmd then validate_resume env ?drv s3 else (Ok (), s3)) = (r4, s4)"
          by fastforce
        have four: "resuming ?cx ?drv s j s4 \<and> (r4 = Ok () \<longrightarrow> (\<forall>i < ?n. believed (jb_progress s4) i))"
        proof -
          have r3: "resuming ?cx ?drv s j s3"
            using idle3 j3 st3 by (simp add: resuming_def stays_def)
          show ?thesis
          proof (cases "co_is_resume cmd")
            case True
            then have "st_each (resume_entry env ?drv j) [0..<?n] s3 = (r4, s4)"
              using res j3 by (simp add: validate_resume_def)
            from resume_all [OF this r3] show ?thesis by simp
          next
            case False
            then have "believed (jb_progress s3) i" for i
              using st3 l(4) by (simp add: stays_def believed_def)
            then show ?thesis using False res r3 by simp
          qed
        qed
        obtain r5 s5 where sav: "save_progress (cm_job env) s4 = (r5, s5)" by fastforce
        note st5 = save_progress_stays [OF sav]
        let ?s6 = "with_progress begin_transfer s5"
        have st6: "stays s4 ?s6" by (rule stays_trans [OF st5 begin_transfer_stays])
        obtain r7 s7 where opn: "driver_open env (co_paths cmd) ?s6 = (r7, s7)" by fastforce
        have idle4: "idle ?cx ?drv s s4" "pr_journal (jb_progress s4) = Some j" using four by (simp_all add: resuming_def)
        have chain: "(r3 = Ok () \<and> r4 = Ok () \<and> r5 = Ok () \<and> r = r7 \<and> s' = s7)
            \<or> (r \<noteq> Ok () \<and> s' \<in> {s3, s4, s5})"
          using run load ok valid reserved pre res sav opn
          by (cases r3; cases r4; cases r5) (auto simp: prepare_command_def Let_def)
        show ?thesis
        proof (cases "r3 = Ok () \<and> r4 = Ok () \<and> r5 = Ok () \<and> r = r7 \<and> s' = s7")
          case False
          then have "r \<noteq> Ok ()" "s' \<in> {s3, s4, s5}" using chain by blast+
          then show ?thesis using idle3 idle4(1) stays_idle [OF st5 idle4(1)] by auto
        next
          case True
          have idle6: "idle ?cx ?drv s ?s6" by (rule stays_idle [OF st6 idle4(1)])
          have j6: "pr_journal (jb_progress ?s6) = Some j" using st6 idle4(2) by (simp add: stays_def)
          have b6: "believed (jb_progress ?s6) i" if "i < ?n" for i
            using stays_believed [OF st6] four True that by simp
          from opn j6 show ?thesis
          proof (cases rule: driver_open_cases [where drv = ?drv])
            case (refused e)
            then show ?thesis using True idle6 by simp
          next
            case opened
            have art: "pr_artifacts (jb_progress ?s6) = None" using idle6 by (simp add: idle_def)
            note q = opened(2) [OF art]
            have "sound ?cx (co_paths cmd) ?drv ?s6"
              by (rule plan_ready [OF idle6 j6]) (use valid reserved apart opened(1) in \<open>simp_all add: paths_apart_def\<close>)
            then have "planned_from env cmd s s7"
              using idle6 quiet_advances [OF q] unfolding planned_from_def by blast
            moreover have "pr_journal (jb_progress s7) = Some j" "\<And>i. believed (jb_progress s7) i = believed (jb_progress ?s6) i"
              using q j6 by (simp_all add: quiet_def believed_def)
            ultimately show ?thesis using True b6 by auto
          qed
        qed
      qed
    qed
  qed
  then show "(idle ?cx ?drv s s' \<and> r \<noteq> Ok ()) \<or> planned_from env cmd s s'"
    and "r = Ok () \<Longrightarrow> pr_journal (jb_progress s') = Some j \<Longrightarrow> i < length (mf_files (jn_manifest j)) \<Longrightarrow>
      believed (jb_progress s') i" by blast+
qed

section \<open>The transfers and the end of the command\<close>

lemma driver_open_issued:
  assumes "driver_open env paths s = (r, s')"
  shows "jb_issued s' = jb_issued s"
proof -
  have each: "jb_issued t = jb_issued u"
    if "st_each (report_directory job dest) fs u = (x, t)" for job dest fs u x t
    by (rule st_each_invariant [where I = "\<lambda>v. jb_issued v = jb_issued u", OF that refl])
      (auto simp: report_directory_def Let_def split: option.splits prod.splits)
  show ?thesis
    using assms
    by (auto simp: driver_open_def Let_def st_try_iff locally_def split: option.splits result.splits prod.splits
        dest!: each)
qed

lemma transfer_files_advances:
  assumes run: "transfer_files env drv schedule s = (status, s')" and "sound (je_codec env) paths drv s"
    and "jb_issued s = []"
  shows "advances (je_codec env) paths drv s s'"
proof (cases "pr_journal (jb_progress s)")
  case None
  then show ?thesis using run by (simp add: transfer_files_def)
next
  case (Some j)
  let ?s1 = "with_progress (\<lambda>p. p\<lparr>pr_states := replicate (length (mf_files (jn_manifest j))) 0\<rparr>) s"
  have loop: "transfer_loop env drv (length (mf_files (jn_manifest j))) schedule (0, [], None, False) ?s1 = (status, s')"
    using run Some by (simp add: transfer_files_def Let_def)
  have "length (jn_completed j) = length (mf_files (jn_manifest j))"
    using assms(2) Some by (simp add: sound_def slots_ok_def)
  note q = queue_start [OF Some this assms(3)]
  have "quiet paths drv s ?s1" by (rule quiet_progress) simp_all
  then show ?thesis
    using advances_trans [OF quiet_advances] transfer_loop_advances [OF loop q] by (simp add: pending_open_def)
qed

lemma fail_all_steps:
  "fail_all env message indices failure s = (r, s') \<Longrightarrow> quiet paths drv s s' \<and> goes_on s s'"
proof (induction indices arbitrary: failure s)
  case Nil
  then show ?case by simp
next
  case (Cons index rest)
  obtain x s1 where one: "fail_file env index (TransferFailed message) None s = (x, s1)" by fastforce
  obtain failure' where "fail_all env message rest failure' s1 = (r, s')"
    using Cons.prems one by (cases x) auto
  from Cons.IH [OF this] show ?case
    using quiet_trans [OF fail_file_quiet [OF one]] goes_on_trans [OF fail_file_goes_on [OF one]] by blast
qed

lemma finalize_steps:
  assumes "finalize env error s = (r, s')"
  shows "quiet paths drv s s'" and "goes_on s s'"
proof -
  obtain message where "message = (case error of
        Some e \<Rightarrow> sem_message (agent_semantics (je_last_request_id env) e) | None \<Rightarrow> interrupted_message)" by simp
  then obtain failure s1 where one: "fail_all env message (incomplete_files (jb_progress s)) None s = (failure, s1)"
    and rest: "(case pr_artifacts (jb_progress s1) of
           None \<Rightarrow> (case failure of None \<Rightarrow> Ok () | Some e \<Rightarrow> Err e, s1)
         | Some a \<Rightarrow>
             (let (r, a, st) = artifacts_finish (je_local env) (a, jb_local s1);
                  s = (with_progress (\<lambda>p. p\<lparr>pr_artifacts := Some a\<rparr>) s1)\<lparr>jb_local := st\<rparr>;
                  failure = (case r of Err e \<Rightarrow> Some e | Ok _ \<Rightarrow> failure)
              in (case failure of None \<Rightarrow> Ok () | Some e \<Rightarrow> Err e, s))) = (r, s')"
    using assms by (auto simp: finalize_def Let_def split: prod.splits)
  note f = fail_all_steps [OF one, of paths drv]
  have "quiet paths drv s1 s' \<and> goes_on s1 s'"
  proof (cases "pr_artifacts (jb_progress s1)")
    case None
    then show ?thesis using rest by simp
  next
    case (Some a)
    obtain x w st where fin: "csv_finish (je_local env) (ar_writer a, jb_local s1) = (x, w, st)" by (metis prod.collapse)
    have s': "s' = s1\<lparr>jb_progress := (jb_progress s1)\<lparr>pr_artifacts := Some (a\<lparr>ar_writer := w\<rparr>)\<rparr>, jb_local := st\<rparr>"
      using rest Some fin by (auto simp: artifacts_finish_def Let_def)
    have "quiet paths drv s1 s'"
      using csv_finish_fine [OF fin, of "ap_report paths"] Some away_apart
      unfolding s' by (auto simp: quiet_def reports_ok_def csv_fine_def)
    moreover have "goes_on s1 s'" unfolding s' by (auto simp: goes_on_def intro!: later_same)
    ultimately show ?thesis by blast
  qed
  then show "quiet paths drv s s'" and "goes_on s s'"
    using f quiet_trans goes_on_trans by blast+
qed

lemma finalize_idle:
  assumes "finalize env error s = (r, s')" and "pr_states (jb_progress s) = []"
    and "pr_artifacts (jb_progress s) = None"
  shows "s' = s"
  using assms by (auto simp: finalize_def incomplete_files_def Let_def)

text \<open>The last step changes flags, and what \<open>finalize\<close> does.\<close>

lemma finalize_execution_steps:
  assumes "finalize_execution env result is_interrupted s = (r, s')"
  shows "quiet paths drv s s'" and "goes_on s s'" and "r = Ok () \<Longrightarrow> result = Ok ()"
    and "pr_states (jb_progress s) = [] \<Longrightarrow> pr_artifacts (jb_progress s) = None \<Longrightarrow> stays s s'"
proof -
  let ?f = "\<lambda>p. p\<lparr>pr_is_issuing := (pr_is_issuing p \<or> 2 \<in> set (pr_states p))\<rparr>"
  let ?g = "\<lambda>p. p\<lparr>pr_failure_status_code := None, pr_failure_request_id := None\<rparr>"
  let ?s1 = "if is_interrupted then with_progress ?g (with_progress ?f s) else with_progress ?f s"
  obtain x s2 where two: "finalize env (case result of Err e \<Rightarrow> Some e | Ok _ \<Rightarrow> None) ?s1 = (x, s2)" by fastforce
  have s': "s' = s2 \<and> r = result \<and> is_ok x \<or> s' = with_progress ?g s2 \<and> \<not> is_ok r"
    using assms two by (cases x) (auto simp: finalize_execution_def Let_def split: if_splits)
  have one: "stays s ?s1" "goes_on s ?s1" "stays s2 (with_progress ?g s2)" "goes_on s2 (with_progress ?g s2)"
    by (auto simp: stays_def goes_on_def intro!: later_same)
  have stay_quiet: "stays s a \<Longrightarrow> quiet paths drv s a" for s a
    by (simp add: stays_def quiet_def reports_ok_def kept_grows)
  have q: "quiet paths drv s s2" "goes_on s s2"
    using finalize_steps [OF two] quiet_trans [OF stay_quiet [OF one(1)]] goes_on_trans [OF one(2)] by blast+
  show "quiet paths drv s s'" "goes_on s s'"
    using s' q quiet_trans [OF q(1) stay_quiet [OF one(3)]] goes_on_trans [OF q(2) one(4)] by auto
  show "r = Ok () \<Longrightarrow> result = Ok ()" using s' by auto
  show "stays s s'" if "pr_states (jb_progress s) = []" "pr_artifacts (jb_progress s) = None"
  proof -
    have "s2 = ?s1" by (rule finalize_idle [OF two]) (use that in auto)
    then show ?thesis using s' one(1) stays_trans [OF one(1)] one(3) by auto
  qed
qed

text \<open>The whole course: at the end the believed completions are on disk and the rest is kept.\<close>

lemma prepare_issued:
  assumes "prepare_command env cmd scanned s = (r, s')"
  shows "jb_issued s' = jb_issued s"
proof -
  let ?s = "\<lambda>p. s\<lparr>jb_progress := p\<rparr>"
  have "jb_issued t = jb_issued u" if "validate_resume env drv u = (x, t)" for drv u x t
    using that st_each_invariant [where I = "\<lambda>v. jb_issued v = jb_issued u"]
    by (fastforce simp: validate_resume_def resume_entry_def Let_def split: option.splits result.splits)
  moreover have "jb_issued t = jb_issued u" if "preflight drv u = (x, t)" for drv u x t
    using preflight_stays [OF that] by (simp add: stays_def)
  moreover have "jb_issued t = jb_issued u" if "save_progress e u = (x, t)" for e u x t
    using save_progress_stays [OF that] by (simp add: stays_def)
  moreover note driver_open_issued
  ultimately show ?thesis
    using assms
    by (fastforce simp: prepare_command_def Let_def st_try_iff split: prod.splits result.splits if_splits)
qed

definition course :: "command_env \<Rightarrow> command \<Rightarrow> job_state \<Rightarrow> job_state \<Rightarrow> bool" where
  "course env cmd s0 s \<longleftrightarrow>
     all_on_disk (je_codec (cm_job env)) (co_driver cmd) s
     \<and> (\<forall>k. away (co_paths cmd) (co_driver cmd) k \<longrightarrow> k \<notin> targets (co_driver cmd) (jb_progress s) \<longrightarrow>
          kept k (ts_tree (jb_local s0)) (ts_tree (jb_local s)))"

lemma planned_course: "planned_from env cmd s0 s \<Longrightarrow> course env cmd s0 s"
  unfolding planned_from_def course_def idle_def advances_def sound_def
  using kept_trans [OF kept_grows] by metis

lemma idle_course: "idle (je_codec (cm_job env)) (co_driver cmd) s0 s \<Longrightarrow> course env cmd s0 s"
  by (simp add: idle_def course_def kept_grows)

lemma planned_advances:
  assumes "planned_from env cmd s0 s"
    and "sound (je_codec (cm_job env)) (co_paths cmd) (co_driver cmd) s \<Longrightarrow>
      advances (je_codec (cm_job env)) (co_paths cmd) (co_driver cmd) s s'"
  shows "planned_from env cmd s0 s'"
    and "believed (jb_progress s) i \<Longrightarrow> believed (jb_progress s') i"
proof -
  obtain s1 where s1: "idle (je_codec (cm_job env)) (co_driver cmd) s0 s1"
    "sound (je_codec (cm_job env)) (co_paths cmd) (co_driver cmd) s1"
    "advances (je_codec (cm_job env)) (co_paths cmd) (co_driver cmd) s1 s"
    using assms(1) by (auto simp: planned_from_def)
  then have snd: "sound (je_codec (cm_job env)) (co_paths cmd) (co_driver cmd) s" by (simp add: advances_def)
  show "planned_from env cmd s0 s'"
    using s1 assms(2) [OF snd] advances_trans unfolding planned_from_def by blast
  show "believed (jb_progress s) i \<Longrightarrow> believed (jb_progress s') i"
    using assms(2) [OF snd] snd by (simp add: advances_def)
qed

lemma execute_course:
  assumes run: "execute env cmd scanned schedule s = (status, s')"
    and fresh: "pr_artifacts (jb_progress s) = None" "pr_states (jb_progress s) = []"
      "pr_journal (jb_progress s) = None" "jb_issued s = []"
    and apart: "paths_apart env cmd"
  shows "(idle (je_codec (cm_job env)) (co_driver cmd) s s' \<and> status \<noteq> Returned (Ok ())) \<or> planned_from env cmd s s'"
    and "status = Returned (Ok ()) \<Longrightarrow> dv_batch_concurrency (co_driver cmd) \<noteq> Some 0 \<Longrightarrow>
      pr_journal (jb_progress s') = Some j \<Longrightarrow> i < length (mf_files (jn_manifest j)) \<Longrightarrow>
      believed (jb_progress s') i \<and> settled (jb_progress s') i"
proof -
  obtain r s1 where prep: "prepare_command env cmd scanned s = (r, s1)" by fastforce
  note course1 = prepare_course [OF prep fresh(1-3) apart]
  have "((idle (je_codec (cm_job env)) (co_driver cmd) s s' \<and> status \<noteq> Returned (Ok ())) \<or> planned_from env cmd s s')
    \<and> (status = Returned (Ok ()) \<longrightarrow> dv_batch_concurrency (co_driver cmd) \<noteq> Some 0 \<longrightarrow>
        (\<forall>j i. pr_journal (jb_progress s') = Some j \<longrightarrow> i < length (mf_files (jn_manifest j)) \<longrightarrow>
          believed (jb_progress s') i \<and> settled (jb_progress s') i))"
  proof (cases r)
    case (Err e)
    then have "s' = s1" "status = Returned (Err e)" using run prep by (auto simp: execute_def)
    then show ?thesis using course1(1) by auto
  next
    case (Ok u)
    then have plan: "planned_from env cmd s s1" using course1(1) by simp
    obtain st2 s2 where trans: "transfer_files (cm_job env) (co_driver cmd) schedule s1 = (st2, s2)" by fastforce
    have s': "s' = s2" and ret: "status = Returned (Ok ()) \<longrightarrow> st2 = Returned (Ok ())"
      using run prep Ok trans by (auto simp: execute_def split: run_status.splits result.splits)
    have issued: "jb_issued s1 = []" using prepare_issued [OF prep] fresh(4) by simp
    note adv = transfer_files_advances [OF trans _ issued]
    have "believed (jb_progress s2) i \<and> settled (jb_progress s2) i"
      if ok: "st2 = Returned (Ok ())" and conc: "dv_batch_concurrency (co_driver cmd) \<noteq> Some 0"
        and j: "pr_journal (jb_progress s2) = Some j" and i: "i < length (mf_files (jn_manifest j))" for j i
    proof -
      obtain j1 where j1: "pr_journal (jb_progress s1) = Some j1"
        using trans ok by (cases "pr_journal (jb_progress s1)") (auto simp: transfer_files_def)
      have "sound (je_codec (cm_job env)) (co_paths cmd) (co_driver cmd) s1"
        using plan by (auto simp: planned_from_def advances_def)
      then have slots: "length (jn_completed j1) = length (mf_files (jn_manifest j1))"
        using j1 by (simp add: sound_def slots_ok_def)
      have "transfer_loop (cm_job env) (co_driver cmd) (length (mf_files (jn_manifest j1))) schedule
          (0, [], None, False)
          (with_progress (\<lambda>p. p\<lparr>pr_states := replicate (length (mf_files (jn_manifest j1))) 0\<rparr>) s1)
        = (st2, s2)" using trans j1 by (simp add: transfer_files_def Let_def)
      from transfer_loop_end [OF this queue_start [OF j1 slots issued]] ok conc
      obtain index' err' where q: "queue_ok (jb_progress s1) (index', [], err') s2" "fst err' = None"
        "length (mf_files (jn_manifest j1)) \<le> index'" by auto
      then have same: "jn_manifest j = jn_manifest j1"
        using j1 j by (cases err') (auto simp: queue_ok_def later_def)
      have "settled (jb_progress s2) i"
        using q i same by (cases err') (auto simp: queue_ok_def settled_def)
      moreover have "believed (jb_progress s2) i"
        using planned_advances(2) [OF plan adv] course1(2) Ok j1 i same by simp
      ultimately show ?thesis by blast
    qed
    then show ?thesis using planned_advances(1) [OF plan adv] s' ret by blast
  qed
  then show "(idle (je_codec (cm_job env)) (co_driver cmd) s s' \<and> status \<noteq> Returned (Ok ())) \<or> planned_from env cmd s s'"
    and "status = Returned (Ok ()) \<Longrightarrow> dv_batch_concurrency (co_driver cmd) \<noteq> Some 0 \<Longrightarrow>
      pr_journal (jb_progress s') = Some j \<Longrightarrow> i < length (mf_files (jn_manifest j)) \<Longrightarrow>
      believed (jb_progress s') i \<and> settled (jb_progress s') i" by blast+
qed

lemma download_course:
  assumes run: "download env cmd scanned schedule s = (error, summary, s')"
    and fresh: "pr_artifacts (jb_progress s) = None" "pr_states (jb_progress s) = []"
      "pr_journal (jb_progress s) = None" "jb_issued s = []"
    and apart: "paths_apart env cmd"
  shows "course env cmd s s'"
    and "error = None \<Longrightarrow> dv_batch_concurrency (co_driver cmd) \<noteq> Some 0 \<Longrightarrow>
      pr_journal (jb_progress s') = Some j \<Longrightarrow> i < length (mf_files (jn_manifest j)) \<Longrightarrow>
      believed (jb_progress s') i \<and> settled (jb_progress s') i"
    and "summary = aggregate (jb_progress s') error"
proof -
  obtain status s1 where ex: "execute env cmd scanned schedule s = (status, s1)" by fastforce
  note c = execute_course [OF ex fresh apart]
  let ?result = "case status of Interrupted \<Rightarrow> Err (TransferFailed interrupted_message) | Returned r \<Rightarrow> r"
  obtain b r where fin: "finalize_execution (cm_job env) ?result b s1 = (r, s')"
    and err: "error = (case r of Ok _ \<Rightarrow> None | Err e \<Rightarrow> Some e)" "summary = aggregate (jb_progress s') error"
    using run ex by (cases status) (auto simp: download_def Let_def split: prod.splits)
  note f = finalize_execution_steps [OF fin]
  show "summary = aggregate (jb_progress s') error" by (rule err)
  show "course env cmd s s'"
    using c(1)
  proof
    assume idle: "idle (je_codec (cm_job env)) (co_driver cmd) s s1 \<and> status \<noteq> Returned (Ok ())"
    then have "stays s1 s'" by (intro f(4)) (simp_all add: idle_def)
    then show ?thesis using idle_course stays_idle idle by blast
  next
    assume "planned_from env cmd s s1"
    from planned_advances(1) [OF this] show ?thesis using planned_course quiet_advances [OF f(1)] by blast
  qed
  assume ok: "error = None" "dv_batch_concurrency (co_driver cmd) \<noteq> Some 0"
    and j: "pr_journal (jb_progress s') = Some j" "i < length (mf_files (jn_manifest j))"
  then have "status = Returned (Ok ())" using err f(3) by (auto split: result.splits run_status.splits)
  moreover have "pr_journal (jb_progress s1) = Some j" using j f(1) by (simp add: quiet_def)
  ultimately have "believed (jb_progress s1) i \<and> settled (jb_progress s1) i" using c(2) ok j by blast
  then show "believed (jb_progress s') i \<and> settled (jb_progress s') i"
    using f(1) [of "co_paths cmd" "co_driver cmd"] f(2) later_settled by (auto simp: quiet_def believed_def goes_on_def)
qed

section \<open>A concrete command\<close>

text \<open>
  For the witnesses: a resumed command whose checkpoint records one of two files as completed;
  the other file is there and is not overwritten.
\<close>

definition demo_plan :: journal where
  "demo_plan = \<lparr>jn_version = 1, jn_identity = jn_identity (demo_journal None),
     jn_manifest = \<lparr>mf_roots = [''f'', ''g''], mf_files = [demo_file ''f'', demo_file ''g''],
       mf_directories = [], mf_remote_directories = [], mf_policy = Cp False None None\<rparr>,
     jn_completed = [Some (demo_hash ''abc''), None]\<rparr>"

definition demo_command_env :: command_env where
  "demo_command_env = \<lparr>cm_job = demo_job_env, cm_fold = id, cm_session = (\<lambda>_. Ok ()),
     cm_get_file = (\<lambda>_ path. Ok \<lparr>fi_instance_id = [], fi_space_id = [], fi_file_path = path,
       fi_file_type = ''file'', fi_storage_class = [], fi_meta = [], fi_hash_crc64_ecma = 0, fi_size = 3,
       fi_etag = ''v1'', fi_created_at = 0, fi_updated_at = 0\<rparr>),
     cm_check_paths = (\<lambda>_. Ok ())\<rparr>"

definition demo_command :: command where
  "demo_command = \<lparr>co_driver = demo_driver NoClobber, co_is_resume = True,
     co_identity = jn_identity (demo_journal None),
     co_paths = \<lparr>ap_report = ([''r''], ''report.csv''), ap_manifest = None, ap_is_failures_only = True\<rparr>,
     co_checkpoint_path = None\<rparr>"

definition demo_start :: job_state where
  "demo_start = demo_jobs\<lparr>jb_progress := (jb_progress demo_jobs)\<lparr>pr_journal := None,
       pr_checkpoint := Some \<lparr>ck_has_saved = True, ck_persistence = None,
         ck_disk = \<lparr>ld_snapshot = Some (demo_plan, None), ld_ledger = None\<rparr>\<rparr>, pr_verified := []\<rparr>,
     jb_local := demo_state\<lparr>ts_tree := [[''d'', ''f''] \<mapsto> RegularFile ''abc'', [''d'', ''g''] \<mapsto> RegularFile ''old'', [''d'', ''h''] \<mapsto> RegularFile ''mine'']\<rparr>\<rparr>"

lemma demo_load:
  "\<exists>st. ledger_load demo_hashing (\<lambda>_. Ok []) id (jn_identity (demo_journal None))
      \<lparr>ld_snapshot = Some (demo_plan, None), ld_ledger = None\<rparr> = Ok (demo_plan, st)
    \<and> is_ok (fst (ledger_save demo_hashing demo_plan False
        \<lparr>se_create = Published, se_publish = Published, se_append = (\<lambda>_. Appended)\<rparr> st
        \<lparr>ld_snapshot = Some (demo_plan, None), ld_ledger = None\<rparr>))"
proof -
  have "(case ledger_load demo_hashing (\<lambda>_. Ok []) id (jn_identity (demo_journal None))
      \<lparr>ld_snapshot = Some (demo_plan, None), ld_ledger = None\<rparr> of
      Ok (j, st) \<Rightarrow> j = demo_plan | Err _ \<Rightarrow> False)"
    by code_simp
  moreover have "(case ledger_load demo_hashing (\<lambda>_. Ok []) id (jn_identity (demo_journal None))
      \<lparr>ld_snapshot = Some (demo_plan, None), ld_ledger = None\<rparr> of
      Ok (j, st) \<Rightarrow> is_ok (fst (ledger_save demo_hashing demo_plan False
        \<lparr>se_create = Published, se_publish = Published, se_append = (\<lambda>_. Appended)\<rparr> st
        \<lparr>ld_snapshot = Some (demo_plan, None), ld_ledger = None\<rparr>)) | Err _ \<Rightarrow> False)"
    by code_simp
  ultimately show ?thesis by (auto split: result.splits)
qed

lemma demo_valid: "journal_validate (\<lambda>_. Ok []) id demo_plan (jn_identity demo_plan) = Ok ()"
proof -
  have "is_ok (journal_validate (\<lambda>_. Ok []) id demo_plan (jn_identity demo_plan))" by code_simp
  then show ?thesis by (simp add: is_ok_unit)
qed

lemma demo_reserved: "check_reserved id demo_plan None = Ok ()"
proof -
  have "is_ok (check_reserved id demo_plan None)" by code_simp
  then show ?thesis by (simp add: is_ok_unit)
qed

lemma demo_verify:
  "verify_resume_entry demo_command_env 0 (Some [''d'']) (demo_file ''f'') (Some (demo_hash ''abc''))
     [[''d'', ''f''] \<mapsto> RegularFile ''abc'', [''d'', ''g''] \<mapsto> RegularFile ''old'', [''d'', ''h''] \<mapsto> RegularFile ''mine''] = Ok True"
  "verify_resume_entry demo_command_env (Suc 0) (Some [''d'']) (demo_file ''g'') None
     [[''d'', ''f''] \<mapsto> RegularFile ''abc'', [''d'', ''g''] \<mapsto> RegularFile ''old'', [''d'', ''h''] \<mapsto> RegularFile ''mine''] = Ok False"
proof -
  have "is_ok (validate_relative ''f'')" by code_simp
  then have f: "validate_relative ''f'' = Ok ()" by (simp add: is_ok_unit)
  have chunks: "chunks_of buffer_size ''abc'' = [''abc'']" by (simp add: buffer_size_def chunks_of.simps)
  show "verify_resume_entry demo_command_env 0 (Some [''d'']) (demo_file ''f'') (Some (demo_hash ''abc''))
     [[''d'', ''f''] \<mapsto> RegularFile ''abc'', [''d'', ''g''] \<mapsto> RegularFile ''old'', [''d'', ''h''] \<mapsto> RegularFile ''mine''] = Ok True"
    by (simp add: verify_resume_entry_def demo_command_env_def demo_file_def demo_remote_def has_identity_def
        starts_with_iff validate_resume_local_def safe_parent_def f rsplit_once_def ordinary_def from_info_def
        local_digest_def read_leaf_def chunks u64_max_def demo_job_env_def demo_codec_def etag_bad_def is_ascii_control_def)
  show "verify_resume_entry demo_command_env (Suc 0) (Some [''d'']) (demo_file ''g'') None
     [[''d'', ''f''] \<mapsto> RegularFile ''abc'', [''d'', ''g''] \<mapsto> RegularFile ''old'', [''d'', ''h''] \<mapsto> RegularFile ''mine''] = Ok False"
    by (simp add: verify_resume_entry_def demo_command_env_def demo_file_def demo_remote_def has_identity_def
        starts_with_iff validate_resume_local_def safe_parent_def demo_relative rsplit_once_def ordinary_def from_info_def
        etag_bad_def is_ascii_control_def)
qed


lemma demo_env_simps [simp]:
  "cm_job demo_command_env = demo_job_env" "cm_fold demo_command_env = id"
  "cm_check_paths demo_command_env j = Ok ()"
  "je_coding demo_job_env = \<lparr>cd_hashing = demo_hashing, cd_derive = (\<lambda>_. Ok []), cd_fold_path = id\<rparr>"
  "je_local demo_job_env = demo_env" "je_codec demo_job_env = demo_codec"
  "je_save demo_job_env n = \<lparr>se_create = Published, se_publish = Published, se_append = (\<lambda>_. Appended)\<rparr>"
  "co_driver demo_command = demo_driver NoClobber" "co_is_resume demo_command" "co_identity demo_command = jn_identity (demo_journal None)"
  "co_paths demo_command = \<lparr>ap_report = ([''r''], ''report.csv''), ap_manifest = None, ap_is_failures_only = True\<rparr>"
  "co_checkpoint_path demo_command = None"
  "mf_files (jn_manifest demo_plan) = [demo_file ''f'', demo_file ''g'']" "mf_directories (jn_manifest demo_plan) = []"
  "id_destination (jn_identity demo_plan) = ''/d''"
  "jn_completed demo_plan = [Some (demo_hash ''abc''), None]"
  "dv_directory (demo_driver x) = [''d'']"
  "dv_strategy (demo_driver x) = Some x" "dv_batch_concurrency (demo_driver x) = Some 1"
  "en_local (demo_file name) = name" "rf_path (en_remote (demo_file name)) = name" "rf_updated_at (en_remote (demo_file name)) = 0"
  by (simp_all add: demo_file_def demo_remote_def demo_command_env_def demo_job_env_def demo_command_def demo_plan_def demo_driver_def demo_journal_def)

definition demo_progress :: "checkpoint \<Rightarrow> artifacts \<Rightarrow> progress" where
  "demo_progress ck a =
     \<lparr>pr_journal = Some demo_plan, pr_checkpoint = Some ck, pr_is_checkpoint_durable = True,
      pr_active = None, pr_is_issuing = False, pr_failure_status_code = None, pr_failure_request_id = None,
      pr_skipped = 1, pr_is_resuming = True, pr_verified = [True, True], pr_states = [], pr_failures = [],
      pr_skipped_files = [], pr_request_ids = [], pr_artifacts = Some a, pr_cleanup_warning = False,
      pr_is_tracking_failure = False, pr_directory_failures = []\<rparr>"

lemma demo_ready:
  "\<exists>ck w st. prepare_command demo_command_env demo_command scanned demo_start =
       (Ok (), \<lparr>jb_progress = demo_progress ck \<lparr>ar_writer = w, ar_is_failures_only = True\<rparr>, jb_local = st, jb_issued = []\<rparr>)
     \<and> ts_tree st = [[''d'', ''f''] \<mapsto> RegularFile ''abc'', [''d'', ''g''] \<mapsto> RegularFile ''old'', [''d'', ''h''] \<mapsto> RegularFile ''mine'',
         [''r'', temp_name ''1''] \<mapsto> RegularFile (csv_record report_columns)]
     \<and> cw_current w = Some \<lparr>sf_directory = [''r''], sf_name = temp_name ''1'', sf_target = ''report.csv''\<rparr>"
proof -
  obtain st where load: "ledger_load demo_hashing (\<lambda>_. Ok []) id (jn_identity (demo_journal None))
      \<lparr>ld_snapshot = Some (demo_plan, None), ld_ledger = None\<rparr> = Ok (demo_plan, st)"
    and sav: "is_ok (fst (ledger_save demo_hashing demo_plan False
        \<lparr>se_create = Published, se_publish = Published, se_append = (\<lambda>_. Appended)\<rparr> st
        \<lparr>ld_snapshot = Some (demo_plan, None), ld_ledger = None\<rparr>))" using demo_load by blast
  obtain x st2 disk2 where save: "ledger_save demo_hashing demo_plan False
        \<lparr>se_create = Published, se_publish = Published, se_append = (\<lambda>_. Appended)\<rparr> st
        \<lparr>ld_snapshot = Some (demo_plan, None), ld_ledger = None\<rparr> = (Ok x, st2, disk2)"
    using sav by (cases "ledger_save demo_hashing demo_plan False
        \<lparr>se_create = Published, se_publish = Published, se_append = (\<lambda>_. Appended)\<rparr> st
        \<lparr>ld_snapshot = Some (demo_plan, None), ld_ledger = None\<rparr>") (auto simp: is_ok_iff)
  have "is_ok (validate_relative ''f'')" by code_simp
  then have validf: "validate_relative ''f'' = Ok ()" by (simp add: is_ok_unit)
  have "is_ok (validate_relative ''report.csv'')" by code_simp
  then have csv: "validate_relative ''report.csv'' = Ok ()" by (simp add: is_ok_unit)
  show ?thesis
    by (simp add: prepare_command_def load_or_enumerate_def checkpoint_load_def demo_start_def load
      demo_jobs_def demo_state_def demo_valid demo_reserved preflight_def validate_resume_def resume_entry_def demo_verify
      save_progress_def checkpoint_save_def checkpoint_persistence_def save driver_open_def csv_new_def
      start_volume_def demo_env_def rolled_csv_path_def next_ulid_def staged_new_def safe_parent_def csv rsplit_once_def
      exclusive_def with_tree_def io_step_def write_all_def update_file_def staged_key_def temp_name_def tick_def demo_progress_def
      write_manifest_def locally_def begin_transfer_def upt_rec
     Let_def)
qed

lemma demo_transfers:
  assumes tree: "ts_tree st = [[''d'', ''f''] \<mapsto> RegularFile ''abc'', [''d'', ''g''] \<mapsto> RegularFile ''old'', [''d'', ''h''] \<mapsto> RegularFile ''mine'',
         [''r'', temp_name ''1''] \<mapsto> RegularFile (csv_record report_columns)]"
  shows "transfer_files demo_job_env (demo_driver NoClobber) []
      \<lparr>jb_progress = demo_progress ck \<lparr>ar_writer = w, ar_is_failures_only = True\<rparr>, jb_local = st, jb_issued = []\<rparr>
    = (Returned (Ok ()),
      \<lparr>jb_progress = (demo_progress ck \<lparr>ar_writer = w, ar_is_failures_only = True\<rparr>)
         \<lparr>pr_states := [0, 7], pr_skipped := 2, pr_skipped_files := [1]\<rparr>, jb_local = st, jb_issued = []\<rparr>)"
proof -
  have "is_ok (validate_relative ''f'')" by code_simp
  then have valid: "validate_relative ''f'' = Ok ()" by (simp add: is_ok_unit)
  have strip: "without_suffix ''/'' ''f'' = ''f''" "without_suffix ''/'' ''g'' = ''g''" by code_simp+
  show ?thesis
    by (cases st) (use tree in simp, simp add: transfer_files_def transfer_loop.simps start_jobs.simps demo_progress_def
      prepare_skip_def is_completed_def record_outcome_def job_entry_def tracking_def should_skip_def demo_relative
      ordinary_def read_leaf_def skip_existing_def mark_skipped_def set_state_def artifacts_record_def valid
      safe_parent_def rsplit_once_def with_tree_def io_step_def locally_def tree bset_put_def strip
      Let_def)
qed

lemma demo_command_run:
  "\<exists>summary s'. download demo_command_env demo_command scanned [] demo_start = (None, summary, s')
     \<and> pr_journal (jb_progress s') = Some demo_plan \<and> as_files summary = [Completed, Skipped]"
proof -
  obtain ck w st where ready: "prepare_command demo_command_env demo_command scanned demo_start =
       (Ok (), \<lparr>jb_progress = demo_progress ck \<lparr>ar_writer = w, ar_is_failures_only = True\<rparr>, jb_local = st, jb_issued = []\<rparr>)"
    and tree: "ts_tree st = [[''d'', ''f''] \<mapsto> RegularFile ''abc'', [''d'', ''g''] \<mapsto> RegularFile ''old'', [''d'', ''h''] \<mapsto> RegularFile ''mine'',
         [''r'', temp_name ''1''] \<mapsto> RegularFile (csv_record report_columns)]"
    and w: "cw_current w = Some \<lparr>sf_directory = [''r''], sf_name = temp_name ''1'', sf_target = ''report.csv''\<rparr>"
    using demo_ready by blast
  let ?p = "(demo_progress ck \<lparr>ar_writer = w, ar_is_failures_only = True\<rparr>)
         \<lparr>pr_states := [0, 7], pr_skipped := 2, pr_skipped_files := [1]\<rparr>"
  have ex: "execute demo_command_env demo_command scanned [] demo_start
      = (Returned (Ok ()), \<lparr>jb_progress = ?p, jb_local = st, jb_issued = []\<rparr>)"
    using ready demo_transfers [OF tree] by (simp add: execute_def directory_result_def demo_progress_def)
  have ne: "temp_name ''1'' \<noteq> ''report.csv''" by (simp add: temp_name_def)
  have "fst (csv_finish demo_env (w, st)) = Ok ()"
    by (simp add: csv_finish_def w demo_env_def io_step_def with_tree_def tick_def publish_def calling_def fault_at_def
        replace_leaf_def ordinary_def tree rename_leaf_def ne)
  then obtain w' st' where fin: "csv_finish demo_env (w, st) = (Ok (), w', st')" by (metis prod.collapse)
  have "finalize_execution demo_job_env (Ok ()) False \<lparr>jb_progress = ?p, jb_local = st, jb_issued = []\<rparr>
      = (Ok (), \<lparr>jb_progress = ?p\<lparr>pr_artifacts := Some \<lparr>ar_writer = w', ar_is_failures_only = True\<rparr>\<rparr>,
          jb_local = st', jb_issued = []\<rparr>)"
    by (simp add: finalize_execution_def finalize_def incomplete_files_def artifacts_finish_def fin demo_progress_def
        Let_def)
  then show ?thesis
    using ex by (simp add: download_def aggregate_def file_payload_status_def file_payload_digest_def
        demo_progress_def Let_def)
qed

lemma demo_apart: "paths_apart demo_command_env demo_command"
  by (auto simp: paths_apart_def target_of_def volume_key_def demo_driver_def)

lemma demo_fresh:
  "pr_artifacts (jb_progress demo_start) = None" "pr_states (jb_progress demo_start) = []"
  "pr_journal (jb_progress demo_start) = None" "jb_issued demo_start = []"
  by (simp_all add: demo_start_def demo_jobs_def)

section \<open>Properties\<close>

text \<open>
  C1: what the command reports as completed is on disk. Whatever the outcome of the command, an
  interruption included, and whatever a resumed checkpoint claims, each file that the summary
  lists as completed is a file at its mapped path below the destination, of exactly the size in
  the manifest, whose SHA-256 is the recorded digest.
\<close>

theorem completed_on_disk:
  assumes "download env cmd scanned schedule s = (error, summary, s')"
    and "pr_artifacts (jb_progress s) = None" and "pr_states (jb_progress s) = []"
    and "pr_journal (jb_progress s) = None" and "jb_issued s = []" and "paths_apart env cmd"
    and "pr_journal (jb_progress s') = Some j" and "i < length (mf_files (jn_manifest j))"
    and "as_files summary ! i = Completed"
  shows "\<exists>content. ts_tree (jb_local s')
        (dv_directory (co_driver cmd) @ split_on slash (en_local (mf_files (jn_manifest j) ! i)))
      = Some (RegularFile content)
    \<and> length content = unat (rf_size (en_remote (mf_files (jn_manifest j) ! i)))
    \<and> jn_completed j ! i = Some (cx_sha256 (je_codec (cm_job env)) content)"
proof -
  note c = download_course [OF assms(1-6)]
  have "file_payload_status (jb_progress s') j i = Completed"
    using assms(7-9) c(3) by (simp add: aggregate_def Let_def)
  then obtain d where d: "file_payload_digest (jb_progress s') j i = Some d"
    by (auto simp: file_payload_status_def Let_def split: if_splits)
  then show ?thesis
    using c(1) assms(7,8) by (auto simp: course_def all_on_disk_def on_disk_def target_of_def payload_digest_iff)
qed

theorem completed_on_disk_witness:
  "\<exists>summary s' content. download demo_command_env demo_command (Err (invalid [])) [] demo_start = (None, summary, s')
     \<and> ts_tree (jb_local s') [''d'', ''f''] = Some (RegularFile content) \<and> length content = 3"
proof -
  obtain summary s' where run: "download demo_command_env demo_command (Err (invalid [])) [] demo_start = (None, summary, s')"
    and j: "pr_journal (jb_progress s') = Some demo_plan" and c: "as_files summary = [Completed, Skipped]"
    using demo_command_run by blast
  have "split_on slash ''f'' = [''f'']" by code_simp
  then show ?thesis
    using completed_on_disk [OF run demo_fresh demo_apart j, of 0] run c by (auto simp: demo_file_def demo_remote_def)
qed

text \<open>
  C2: a command that reports no error is complete. Every file of the manifest is listed as
  completed or as skipped by the overwrite policy, so that the count of completed files is the
  total.
\<close>

theorem success_is_total:
  assumes "download env cmd scanned schedule s = (None, summary, s')"
    and "pr_artifacts (jb_progress s) = None" and "pr_states (jb_progress s) = []"
    and "pr_journal (jb_progress s) = None" and "jb_issued s = []" and "paths_apart env cmd"
    and "dv_batch_concurrency (co_driver cmd) \<noteq> Some 0"
  shows "as_completed summary = as_total summary \<and> set (as_files summary) \<subseteq> {Completed, Skipped}"
proof -
  note c = download_course [OF assms(1-6)]
  have sub: "set (as_files summary) \<subseteq> {Completed, Skipped}"
  proof (cases "pr_journal (jb_progress s')")
    case None
    then show ?thesis using c(3) by (simp add: aggregate_def Let_def)
  next
    case (Some j)
    have st: "file_payload_status (jb_progress s') j i \<in> {Completed, Skipped}"
      if "i < length (mf_files (jn_manifest j))" for i
      using c(2) [OF refl assms(7) Some that] Some
      by (auto simp: file_payload_status_def Let_def settled_def is_completed_def payload_digest_iff)
    have "as_files summary = map (file_payload_status (jb_progress s') j) [0..<length (mf_files (jn_manifest j))]"
      using c(3) Some by (simp add: aggregate_def Let_def)
    then show ?thesis using st by (simp add: image_subset_iff)
  qed
  have "as_completed summary = length (filter (\<lambda>f. f = Completed \<or> f = Skipped) (as_files summary))"
    "as_total summary = length (as_files summary)"
    using c(3) by (simp_all add: aggregate_def Let_def)
  moreover have "filter (\<lambda>f. f = Completed \<or> f = Skipped) (as_files summary) = as_files summary"
    using sub by (auto simp: filter_id_conv)
  ultimately show ?thesis using sub by simp
qed

theorem success_is_total_witness:
  "\<exists>summary s'. download demo_command_env demo_command (Err (invalid [])) [] demo_start = (None, summary, s')
     \<and> as_completed summary = as_total summary"
proof -
  obtain summary s' where run: "download demo_command_env demo_command (Err (invalid [])) [] demo_start = (None, summary, s')"
    using demo_command_run by blast
  show ?thesis using success_is_total [OF run demo_fresh demo_apart] run by simp
qed



end
