(* ===== verification/Tos_Filter.thy ===== *)
theory Tos_Filter
  imports Rust_Str
begin

text \<open>
  The include and exclude filters of \<open>crates/tos/src/handler/high_level.rs\<close>. The matcher is
  the two-index loop of the source, with the position of the last star and of the value it
  is tried at; \<open>key_glob\<close> is the reference.
\<close>

section \<open>The matcher\<close>

abbreviation star_byte :: char where
  "star_byte \<equiv> CHR ''*''"

abbreviation any_byte :: char where
  "any_byte \<equiv> CHR ''?''"

fun only_stars :: "string \<Rightarrow> bool" where
  "only_stars [] = True"
| "only_stars (c # p) = (c = star_byte \<and> only_stars p)"

function wildcard_loop :: "string \<Rightarrow> string \<Rightarrow> nat \<Rightarrow> nat \<Rightarrow> nat option \<Rightarrow> nat \<Rightarrow> bool" where
  "wildcard_loop val pattern vi pi star match_i =
     (if vi < length val then
        if pi < length pattern \<and> (pattern ! pi = any_byte \<or> pattern ! pi = val ! vi)
        then wildcard_loop val pattern (Suc vi) (Suc pi) star match_i
        else if pi < length pattern \<and> pattern ! pi = star_byte
        then wildcard_loop val pattern vi (Suc pi) (Some pi) vi
        else case star of
               Some star_i \<Rightarrow>
                 wildcard_loop val pattern (Suc match_i) (Suc star_i) star (Suc match_i)
             | None \<Rightarrow> False
      else only_stars (drop pi pattern))"
  by pat_completeness auto
termination
  by (relation "measures
      [\<lambda>(val, pattern, vi, pi, star, match_i). case star of Some s \<Rightarrow> if pi \<le> s then 1 else 0 | None \<Rightarrow> 0,
       \<lambda>(val, pattern, vi, pi, star, match_i).
         case star of Some s \<Rightarrow> length pattern - s | None \<Rightarrow> Suc (length pattern),
       \<lambda>(val, pattern, vi, pi, star, match_i). length val - match_i,
       \<lambda>(val, pattern, vi, pi, star, match_i). length val - vi]")
    (auto split: option.splits)

declare wildcard_loop.simps [simp del]

definition wildcard_matches :: "string \<Rightarrow> string \<Rightarrow> bool" where
  "wildcard_matches val pattern = wildcard_loop val pattern 0 0 None 0"

definition pattern_matches :: "string \<Rightarrow> string \<Rightarrow> bool" where
  "pattern_matches val pattern =
     (if star_byte \<notin> set pattern \<and> any_byte \<notin> set pattern then contains_sub pattern val
      else wildcard_matches val pattern)"

definition pattern_allows :: "string \<Rightarrow> string option \<Rightarrow> string option \<Rightarrow> bool" where
  "pattern_allows val include exclude =
     (if (case exclude of Some pattern \<Rightarrow> pattern_matches val pattern | None \<Rightarrow> False) then False
      else case include of Some pattern \<Rightarrow> pattern_matches val pattern | None \<Rightarrow> True)"

section \<open>The reference\<close>

fun key_glob :: "string \<Rightarrow> string \<Rightarrow> bool" where
  "key_glob [] val = (val = [])"
| "key_glob (c # pattern) [] = (c = star_byte \<and> key_glob pattern [])"
| "key_glob (c # pattern) (d # val) =
     (if c = star_byte then key_glob pattern (d # val) \<or> key_glob (c # pattern) val
      else (c = any_byte \<or> c = d) \<and> key_glob pattern val)"

lemma key_glob_only_stars: "key_glob pattern [] \<longleftrightarrow> only_stars pattern"
  by (induction pattern) auto

lemma key_glob_star: "key_glob (star_byte # pattern) val \<longleftrightarrow> (\<exists>k \<le> length val. key_glob pattern (drop k val))"
proof (induction val)
  case Nil
  then show ?case by simp
next
  case (Cons d val)
  have "(\<exists>k \<le> Suc (length val). key_glob pattern (drop k (d # val))) \<longleftrightarrow>
      key_glob pattern (d # val) \<or> (\<exists>k \<le> length val. key_glob pattern (drop k val))"
    by (metis drop0 drop_Suc_Cons le0 not0_implies_Suc Suc_le_mono)
  then show ?case using Cons by simp
qed

lemma key_glob_star_from:
  assumes "i \<le> length val"
  shows "key_glob (star_byte # pattern) (drop i val) \<longleftrightarrow> (\<exists>k \<ge> i. k \<le> length val \<and> key_glob pattern (drop k val))"
proof -
  have "(\<exists>k \<le> length val - i. key_glob pattern (drop (k + i) val)) \<longleftrightarrow>
      (\<exists>k \<ge> i. k \<le> length val \<and> key_glob pattern (drop k val))"
  proof
    assume "\<exists>k \<le> length val - i. key_glob pattern (drop (k + i) val)"
    then obtain k where "k \<le> length val - i" "key_glob pattern (drop (k + i) val)" by blast
    then show "\<exists>k \<ge> i. k \<le> length val \<and> key_glob pattern (drop k val)"
      using assms by (intro exI [of _ "k + i"]) simp
  next
    assume "\<exists>k \<ge> i. k \<le> length val \<and> key_glob pattern (drop k val)"
    then obtain k where "i \<le> k" "k \<le> length val" "key_glob pattern (drop k val)" by blast
    then show "\<exists>k \<le> length val - i. key_glob pattern (drop (k + i) val)"
      by (intro exI [of _ "k - i"]) simp
  qed
  then show ?thesis by (simp add: key_glob_star)
qed

lemma key_glob_segment:
  "star_byte \<notin> set segment \<Longrightarrow> key_glob (segment @ pattern) val \<Longrightarrow>
   length segment \<le> length val \<and> key_glob pattern (drop (length segment) val)"
proof (induction segment arbitrary: val)
  case Nil
  then show ?case by simp
next
  case (Cons c segment)
  then show ?case by (cases val) auto
qed

text \<open>
  What the loop keeps: the pattern between the last star and the current position has no
  star and has as many bytes as the val between the trial position and the current one.
\<close>

definition aligned :: "string \<Rightarrow> string \<Rightarrow> nat \<Rightarrow> nat \<Rightarrow> nat option \<Rightarrow> nat \<Rightarrow> bool" where
  "aligned val pattern vi pi star match_i \<longleftrightarrow>
     pi \<le> length pattern \<and> vi \<le> length val \<and>
     (case star of
        None \<Rightarrow> True
      | Some s \<Rightarrow> s < pi \<and> match_i \<le> vi \<and> vi - match_i = pi - Suc s \<and>
          star_byte \<notin> set (take (pi - Suc s) (drop (Suc s) pattern)))"

definition later_trial :: "string \<Rightarrow> string \<Rightarrow> nat option \<Rightarrow> nat \<Rightarrow> bool" where
  "later_trial val pattern star match_i \<longleftrightarrow>
     (case star of
        None \<Rightarrow> False
      | Some s \<Rightarrow> \<exists>k. match_i < k \<and> k \<le> length val \<and> key_glob (drop (Suc s) pattern) (drop k val))"

lemma aligned_trial:
  assumes "aligned val pattern vi pi star match_i" and "later_trial val pattern star match_i"
  shows "\<exists>k. vi < k \<and> k \<le> length val \<and> key_glob (drop pi pattern) (drop k val)"
proof -
  obtain s k where s: "star = Some s" "match_i < k" "k \<le> length val"
    and g: "key_glob (drop (Suc s) pattern) (drop k val)"
    using assms(2) by (auto simp: later_trial_def split: option.splits)
  have a: "s < pi" "pi \<le> length pattern" "match_i \<le> vi" "vi - match_i = pi - Suc s"
    and no: "star_byte \<notin> set (take (pi - Suc s) (drop (Suc s) pattern))"
    using assms(1) s(1) by (auto simp: aligned_def)
  let ?seg = "take (pi - Suc s) (drop (Suc s) pattern)"
  have len: "length ?seg = pi - Suc s" using a by simp
  have "drop (Suc s) pattern = ?seg @ drop pi pattern"
    using a(1) by (metis append_take_drop_id drop_drop Suc_leI le_add_diff_inverse2)
  then have "pi - Suc s \<le> length (drop k val) \<and> key_glob (drop pi pattern) (drop (pi - Suc s) (drop k val))"
    using key_glob_segment [OF no, of "drop pi pattern" "drop k val"] g len by simp
  moreover have "k + (pi - Suc s) > vi" using a s by simp
  ultimately show ?thesis
    using s by (intro exI [of _ "k + (pi - Suc s)"]) (auto simp: add.commute)
qed

lemma later_split:
  assumes "i < (n :: nat)"
  shows "(\<exists>k. i < k \<and> k \<le> n \<and> P k) \<longleftrightarrow> P (Suc i) \<or> (\<exists>k. Suc i < k \<and> k \<le> n \<and> P k)"
proof
  assume "\<exists>k. i < k \<and> k \<le> n \<and> P k"
  then obtain k where k: "i < k" "k \<le> n" "P k" by blast
  show "P (Suc i) \<or> (\<exists>k. Suc i < k \<and> k \<le> n \<and> P k)"
  proof (cases "k = Suc i")
    case False
    then have "Suc i < k" using k(1) by simp
    then show ?thesis using k by blast
  qed (use k in simp)
next
  assume "P (Suc i) \<or> (\<exists>k. Suc i < k \<and> k \<le> n \<and> P k)"
  then show "\<exists>k. i < k \<and> k \<le> n \<and> P k"
  proof
    assume "P (Suc i)"
    then show ?thesis using assms by (intro exI [of _ "Suc i"]) simp
  next
    assume "\<exists>k. Suc i < k \<and> k \<le> n \<and> P k"
    then obtain k where "Suc i < k" "k \<le> n" "P k" by blast
    then show ?thesis by (intro exI [of _ k]) simp
  qed
qed

lemma wildcard_loop_glob:
  assumes "aligned val pattern vi pi star match_i" and "star_byte \<notin> set val"
  shows "wildcard_loop val pattern vi pi star match_i \<longleftrightarrow>
    key_glob (drop pi pattern) (drop vi val) \<or> later_trial val pattern star match_i"
  using assms
proof (induction val pattern vi pi star match_i rule: wildcard_loop.induct)
  case (1 val pattern vi pi star match_i)
  show ?case
  proof (cases "vi < length val")
    case False
    then have "vi = length val" using "1.prems"(1) by (simp add: aligned_def)
    then have "\<not> later_trial val pattern star match_i"
      using aligned_trial [OF "1.prems"(1)] by auto
    then show ?thesis using False
      by (subst wildcard_loop.simps) (simp add: key_glob_only_stars)
  next
    case vi: True
    have v: "drop vi val = val ! vi # drop (Suc vi) val" using vi by (simp add: Cons_nth_drop_Suc)
    have vstar: "val ! vi \<noteq> star_byte" using "1.prems"(2) vi by (metis nth_mem)
    show ?thesis
    proof (cases "pi < length pattern \<and> (pattern ! pi = any_byte \<or> pattern ! pi = val ! vi)")
      case True
      then have p: "drop pi pattern = pattern ! pi # drop (Suc pi) pattern" and pstar: "pattern ! pi \<noteq> star_byte"
        using vstar by (auto simp: Cons_nth_drop_Suc)
      have "aligned val pattern (Suc vi) (Suc pi) star match_i"
      proof (cases star)
        case None
        then show ?thesis using True vi by (simp add: aligned_def)
      next
        case (Some s)
        then have s: "s < pi" "match_i \<le> vi" "vi - match_i = pi - Suc s"
          and no: "star_byte \<notin> set (take (pi - Suc s) (drop (Suc s) pattern))"
          using "1.prems"(1) by (auto simp: aligned_def)
        have "Suc pi - Suc s = Suc (pi - Suc s)" and "drop (Suc s) pattern ! (pi - Suc s) = pattern ! pi"
          and "pi - Suc s < length (drop (Suc s) pattern)"
          using s(1) True by auto
        then have "take (Suc pi - Suc s) (drop (Suc s) pattern) = take (pi - Suc s) (drop (Suc s) pattern) @ [pattern ! pi]"
          by (simp add: take_Suc_conv_app_nth)
        then show ?thesis using s no pstar True vi Some by (simp add: aligned_def)
      qed
      then show ?thesis
        using "1.IH"(1) [OF vi True _ "1.prems"(2)] vi True pstar v p
        by (subst wildcard_loop.simps) auto
    next
      case no_match: False
      show ?thesis
      proof (cases "pi < length pattern \<and> pattern ! pi = star_byte")
        case True
        then have p: "drop pi pattern = star_byte # drop (Suc pi) pattern" by (metis Cons_nth_drop_Suc)
        have "aligned val pattern vi (Suc pi) (Some pi) vi" using True vi by (simp add: aligned_def)
        then have loop: "wildcard_loop val pattern vi pi star match_i \<longleftrightarrow>
            key_glob (drop (Suc pi) pattern) (drop vi val) \<or> later_trial val pattern (Some pi) vi"
          using "1.IH"(2) [OF vi no_match True _ "1.prems"(2)] vi no_match True
          by (subst wildcard_loop.simps) simp
        have "key_glob (drop pi pattern) (drop vi val) \<longleftrightarrow>
            (\<exists>k \<ge> vi. k \<le> length val \<and> key_glob (drop (Suc pi) pattern) (drop k val))"
          unfolding p by (rule key_glob_star_from) (use vi in simp)
        moreover have "later_trial val pattern star match_i \<Longrightarrow> key_glob (drop pi pattern) (drop vi val)"
        proof -
          assume "later_trial val pattern star match_i"
          then obtain k where "vi < k" "k \<le> length val" "key_glob (drop pi pattern) (drop k val)"
            using aligned_trial [OF "1.prems"(1)] by blast
          then show ?thesis
            unfolding p using key_glob_star_from [of k val] key_glob_star_from [of vi val] vi
            by (meson less_imp_le order_trans)
        qed
        moreover have "(\<exists>k \<ge> vi. k \<le> length val \<and> key_glob (drop (Suc pi) pattern) (drop k val)) \<longleftrightarrow>
            key_glob (drop (Suc pi) pattern) (drop vi val) \<or> later_trial val pattern (Some pi) vi"
          using vi by (auto simp: later_trial_def le_eq_less_or_eq)
        ultimately show ?thesis using loop by blast
      next
        case no_star: False
        have fails: "\<not> key_glob (drop pi pattern) (drop vi val)"
        proof (cases "pi < length pattern")
          case True
          then have "drop pi pattern = pattern ! pi # drop (Suc pi) pattern" by (simp add: Cons_nth_drop_Suc)
          then show ?thesis using no_match no_star v True by simp
        next
          case False
          then show ?thesis using v by simp
        qed
        show ?thesis
        proof (cases star)
          case None
          then show ?thesis using vi no_match no_star fails
            by (subst wildcard_loop.simps) (auto simp: later_trial_def)
        next
          case (Some s)
          then have m: "match_i < length val" "s < length pattern"
            using "1.prems"(1) vi by (auto simp: aligned_def)
          then have "aligned val pattern (Suc match_i) (Suc s) star (Suc match_i)"
            using Some by (simp add: aligned_def)
          then have "wildcard_loop val pattern vi pi star match_i \<longleftrightarrow>
              key_glob (drop (Suc s) pattern) (drop (Suc match_i) val) \<or> later_trial val pattern star (Suc match_i)"
            using "1.IH"(3) [OF vi no_match no_star Some _ "1.prems"(2)] vi no_match no_star Some
            by (subst wildcard_loop.simps) auto
          moreover have "later_trial val pattern star match_i \<longleftrightarrow>
              key_glob (drop (Suc s) pattern) (drop (Suc match_i) val) \<or> later_trial val pattern star (Suc match_i)"
            using m Some later_split [of match_i "length val" "\<lambda>k. key_glob (drop (Suc s) pattern) (drop k val)"]
            by (simp add: later_trial_def)
          ultimately show ?thesis using fails by simp
        qed
      qed
    qed
  qed
qed


text \<open>What a pattern means: a key_glob when it has a wildcard, otherwise a substring.\<close>

definition selects :: "string \<Rightarrow> string \<Rightarrow> bool" where
  "selects pattern val \<longleftrightarrow>
     (if star_byte \<in> set pattern \<or> any_byte \<in> set pattern then key_glob pattern val
      else \<exists>a b. val = a @ pattern @ b)"

text \<open>C36: The include and exclude filters decide the glob relation for keys without a star
  byte: a star stands for any bytes, a question mark for one byte, a pattern without either
  is a substring test, and exclusion wins.\<close>

theorem pattern_allows_glob:
  assumes "star_byte \<notin> set val"
  shows "pattern_allows val include exclude \<longleftrightarrow>
    (\<forall>p. include = Some p \<longrightarrow> selects p val) \<and> (\<forall>p. exclude = Some p \<longrightarrow> \<not> selects p val)"
proof -
  have "wildcard_matches val p \<longleftrightarrow> key_glob p val" for p
    using wildcard_loop_glob [of val p 0 0 None 0] assms
    by (simp add: wildcard_matches_def aligned_def later_trial_def)
  then have "pattern_matches val p \<longleftrightarrow> selects p val" for p
    by (auto simp: pattern_matches_def selects_def contains_sub_iff)
  then show ?thesis by (cases "include"; cases "exclude") (simp_all add: pattern_allows_def)
qed

theorem pattern_allows_glob_witness:
  "pattern_allows ''log/a.txt'' (Some ''*.txt'') (Some ''tmp/*'')"
proof -
  have s: "star_byte \<notin> set ''log/a.txt''" by simp
  have "key_glob ''*.txt'' ''log/a.txt''" and "\<not> key_glob ''tmp/*'' ''log/a.txt''" by code_simp+
  then show ?thesis
    using pattern_allows_glob [OF s, of "Some ''*.txt''" "Some ''tmp/*''"] by (simp add: selects_def)
qed

text \<open>
  A star byte in the key is compared with the pattern before the pattern's star is tried as a
  wildcard, so that the pattern of everything rejects a key.
\<close>

lemma starred_key_rejected:
  "\<not> wildcard_matches ''*a'' ''*''" and "key_glob ''*'' ''*a''"
  by code_simp+

end
