(* ===== verification/Tos_Key.thy ===== *)
theory Tos_Key
  imports Share_Path
begin

text \<open>
  The addresses of \<open>crates/tos/src/handler/high_level.rs\<close>: parsing \<open>tos://bucket/key\<close>,
  joining and stripping key prefixes, the destination of a single transfer, the folders that
  \<open>mkdir\<close> creates, the confirmation of paths that leave their directory, the plan of a
  recursive copy from a TOS prefix, and the order in which keys are deleted. Local paths
  follow \<open>std::path\<close> on Unix; whether a local path is a directory is the parameter
  \<open>is_dir\<close>.
\<close>

section \<open>Local paths\<close>

text \<open>\<open>Path::components\<close>, \<open>Path::file_name\<close> and \<open>Path::join\<close>.\<close>

datatype path_component = RootDir | CurDir | ParentDir | Normal string

fun component_of :: "string \<Rightarrow> path_component" where
  "component_of c = (if c = ''..'' then ParentDir else Normal c)"

definition path_components :: "string \<Rightarrow> path_component list" where
  "path_components p =
     (if starts_with [slash] p then [RootDir]
      else if hd (split_on slash p) = ''.'' then [CurDir] else [])
     @ map component_of (List.filter (\<lambda>c. c \<noteq> [] \<and> c \<noteq> ''.'') (split_on slash p))"

definition path_file_name :: "string \<Rightarrow> string option" where
  "path_file_name p =
     (if path_components p = [] then None
      else case last (path_components p) of Normal c \<Rightarrow> Some c | _ \<Rightarrow> None)"

definition local_join :: "string \<Rightarrow> string \<Rightarrow> string" where
  "local_join p q =
     (if starts_with [slash] q then q
      else if p = [] \<or> ends_with [slash] p then p @ q
      else p @ slash # q)"

section \<open>Addresses\<close>

record tos_uri =
  tu_bucket :: string
  tu_key :: "string option"

definition tos_scheme :: string where
  "tos_scheme = ''tos://''"

definition is_tos :: "string \<Rightarrow> bool" where
  "is_tos s = starts_with tos_scheme s"

text \<open>\<open>trim_start_matches\<close> removes the pattern as often as it occurs at the front.\<close>

function trim_start_matches :: "'a list \<Rightarrow> 'a list \<Rightarrow> 'a list" where
  "trim_start_matches p s =
     (if p = [] then s
      else case strip_prefix p s of None \<Rightarrow> s | Some t \<Rightarrow> trim_start_matches p t)"
  by pat_completeness auto
termination
  by (relation "measure (\<lambda>(p, s). length s)") (auto simp: strip_prefix_Some)

declare trim_start_matches.simps [simp del]

text \<open>\<open>splitn(2, '/')\<close>: the part before the first slash and, when there is one, the rest.\<close>

definition parse_tos_uri :: "string \<Rightarrow> bool \<Rightarrow> (tos_uri, cli_error) result" where
  "parse_tos_uri uri allow_bucket_only =
     (if \<not> is_tos uri
      then Err (ValidationError (''invalid TOS URI '' @ quoted uri @ '': expected tos://bucket/key''))
      else
        let rest = trim_start_matches tos_scheme uri;
            bucket = (case split_once slash rest of None \<Rightarrow> rest | Some (b, _) \<Rightarrow> b);
            key = (case split_once slash rest of None \<Rightarrow> None
                   | Some (_, k) \<Rightarrow> if k = [] then None else Some k)
        in if bucket = [] \<or> (\<not> allow_bucket_only \<and> key = None)
           then Err (ValidationError (''invalid TOS URI '' @ quoted uri @ '': expected '' @
                  (if allow_bucket_only then ''tos://bucket or tos://bucket/key'' else ''tos://bucket/key'')))
           else Ok \<lparr>tu_bucket = bucket, tu_key = key\<rparr>)"

definition parse_bucket_target :: "string \<Rightarrow> (string, cli_error) result" where
  "parse_bucket_target input =
     try_in (parse_tos_uri input True) (\<lambda>parsed.
       if tu_key parsed \<noteq> None
       then Err (ValidationError ''bucket target must be tos://bucket; pass object/prefix parameters separately'')
       else Ok (tu_bucket parsed))"

definition parse_tos_uri_or_bucket :: "string \<Rightarrow> (tos_uri, cli_error) result" where
  "parse_tos_uri_or_bucket input =
     (if is_tos input then parse_tos_uri input True
      else if trim input = [] \<or> slash \<in> set input
      then Err (ValidationError ''bucket target must be a bucket name or tos://bucket'')
      else Ok \<lparr>tu_bucket = input, tu_key = None\<rparr>)"

text \<open>\<open>format!("tos://{}/{}", bucket, key)\<close>.\<close>

definition object_uri :: "string \<Rightarrow> string \<Rightarrow> string" where
  "object_uri bucket key = tos_scheme @ bucket @ slash # key"

section \<open>Key prefixes\<close>

definition join_tos_key :: "string \<Rightarrow> string \<Rightarrow> string" where
  "join_tos_key prefix key =
     (if trim_of slash prefix = [] then trim_start_of slash key
      else trim_of slash prefix @ slash # trim_start_of slash key)"

definition strip_tos_prefix :: "string \<Rightarrow> string \<Rightarrow> string" where
  "strip_tos_prefix key prefix =
     trim_start_of slash
       (case strip_prefix (trim_start_of slash prefix) key of None \<Rightarrow> key | Some rest \<Rightarrow> rest)"

definition unwrap_key :: "string option \<Rightarrow> string" where
  "unwrap_key key = (case key of None \<Rightarrow> [] | Some k \<Rightarrow> k)"

definition normalize_recursive_tos_prefix :: "string option \<Rightarrow> string" where
  "normalize_recursive_tos_prefix prefix =
     (let p = trim_start_of slash (unwrap_key prefix)
      in if p = [] \<or> ends_with [slash] p then p else p @ [slash])"

definition normalize_recursive_tos_target :: "tos_uri \<Rightarrow> tos_uri" where
  "normalize_recursive_tos_target target =
     (if tu_key target \<noteq> None
      then target\<lparr>tu_key := Some (normalize_recursive_tos_prefix (tu_key target))\<rparr>
      else target)"

definition recursive_source_parent_prefix ::
  "string \<Rightarrow> bool \<Rightarrow> (string option, cli_error) result" where
  "recursive_source_parent_prefix source include_parent =
     (if \<not> include_parent then Ok None
      else try_in
        (if is_tos source then
           try_in (parse_tos_uri source True) (\<lambda>parsed.
             let name = last_segment slash (trim_of slash (normalize_recursive_tos_prefix (tu_key parsed)))
             in Ok (if name = [] then None else Some name))
         else Ok (case path_file_name source of
                    Some name \<Rightarrow> if name = [] then None else Some name
                  | None \<Rightarrow> None)) (\<lambda>parent_name.
        case parent_name of
          Some name \<Rightarrow> Ok (Some name)
        | None \<Rightarrow> Err (ValidationError
            ''--include-parent requires a source directory or prefix with a final path segment'')))"

definition prepend_parent_prefix :: "string \<Rightarrow> string option \<Rightarrow> string" where
  "prepend_parent_prefix relative_key parent_prefix =
     (case parent_prefix of
        Some parent \<Rightarrow> join_tos_key parent relative_key
      | None \<Rightarrow> relative_key)"

section \<open>The destination of a single transfer\<close>

definition source_file_name_for_tos_transfer :: "string \<Rightarrow> (string, cli_error) result" where
  "source_file_name_for_tos_transfer source =
     (if is_tos source then
        try_in (parse_tos_uri source False) (\<lambda>parsed.
          let name = last_segment slash (trim_end_of slash (unwrap_key (tu_key parsed)))
          in if name = []
             then Err (ValidationError (''source URI '' @ quoted source @ '' does not include a file name''))
             else Ok name)
      else case path_file_name source of
        Some name \<Rightarrow>
          if name = []
          then Err (ValidationError (''source path '' @ quoted source @ '' does not include a valid file name''))
          else Ok name
      | None \<Rightarrow> Err (ValidationError (''source path '' @ quoted source @ '' does not include a valid file name'')))"

definition local_destination_uses_directory_semantics :: "(string \<Rightarrow> bool) \<Rightarrow> string \<Rightarrow> bool" where
  "local_destination_uses_directory_semantics is_dir destination \<longleftrightarrow>
     ends_with [slash] destination \<or> ends_with [CHR 0x5C] destination \<or> is_dir destination"

definition resolve_single_transfer_destination ::
  "(string \<Rightarrow> bool) \<Rightarrow> string \<Rightarrow> string \<Rightarrow> (string, cli_error) result" where
  "resolve_single_transfer_destination is_dir source destination =
     (if \<not> is_tos destination then
        if local_destination_uses_directory_semantics is_dir destination
        then try_in (source_file_name_for_tos_transfer source) (\<lambda>file_name.
               Ok (local_join destination file_name))
        else Ok destination
      else try_in (parse_tos_uri destination True) (\<lambda>target.
        if (case tu_key target of Some key \<Rightarrow> \<not> ends_with [slash] key | None \<Rightarrow> False)
        then Ok destination
        else try_in (source_file_name_for_tos_transfer source) (\<lambda>file_name.
          let key = join_tos_key (unwrap_key (tu_key target)) file_name
          in if is_tos source then
               try_in (parse_tos_uri source False) (\<lambda>source_target.
                 if tu_bucket source_target = tu_bucket target \<and> tu_key source_target = Some key
                 then Err (ValidationError ''source and destination resolve to the same TOS object'')
                 else Ok (object_uri (tu_bucket target) key))
             else Ok (object_uri (tu_bucket target) key))))"

section \<open>Folders\<close>

definition normalize_folder_key :: "string \<Rightarrow> (string, cli_error) result" where
  "normalize_folder_key key =
     (let normalized = trim_start_of slash key
      in if trim normalized = [] \<or> trim_of slash normalized = []
         then Err (ValidationError ''ve-tos mkdir requires a non-empty folder key'')
         else if ends_with [slash] normalized then Ok normalized
         else Ok (normalized @ [slash]))"

text \<open>The loop over the segments keeps the path so far in \<open>current\<close>.\<close>

fun mkdir_keys :: "string list \<Rightarrow> string \<Rightarrow> string list" where
  "mkdir_keys [] current = []"
| "mkdir_keys (segment # segments) current =
     (if segment = [] then mkdir_keys segments current
      else let extended = (if current = [] then segment else current @ slash # segment)
           in (extended @ [slash]) # mkdir_keys segments extended)"

definition folder_keys_for_mkdir :: "string \<Rightarrow> bool \<Rightarrow> string list" where
  "folder_keys_for_mkdir key parents =
     (if \<not> parents then [key]
      else let keys = mkdir_keys (split_on slash (trim_end_of slash key)) []
           in if keys = [] then [key] else keys)"

section \<open>The plan of a recursive copy from a TOS prefix\<close>

record object_entry =
  oe_key :: string
  oe_size :: u64
  oe_last_modified :: "string option"
  oe_etag :: "string option"
  oe_storage_class :: "string option"

record transfer_plan_item =
  tp_relative_key :: string
  tp_source :: string
  tp_destination :: string
  tp_size :: u64
  tp_etag :: "string option"
  tp_crc64 :: "u64 option"
  tp_last_modified :: "string option"

definition tos_source_transfer_item ::
  "tos_uri \<Rightarrow> string \<Rightarrow> string \<Rightarrow> string option \<Rightarrow> tos_uri option \<Rightarrow> object_entry \<Rightarrow> transfer_plan_item" where
  "tos_source_transfer_item source_target source_prefix destination parent_prefix destination_target entry =
     (let relative_key = prepend_parent_prefix (strip_tos_prefix (oe_key entry) source_prefix) parent_prefix
      in \<lparr>tp_relative_key = relative_key,
          tp_source = object_uri (tu_bucket source_target) (oe_key entry),
          tp_destination =
            (case destination_target of
               Some target \<Rightarrow>
                 object_uri (tu_bucket target) (join_tos_key (unwrap_key (tu_key target)) relative_key)
             | None \<Rightarrow> local_join destination relative_key),
          tp_size = oe_size entry,
          tp_etag = oe_etag entry,
          tp_crc64 = None,
          tp_last_modified = oe_last_modified entry\<rparr>)"

definition build_tos_source_transfer_items ::
  "tos_uri \<Rightarrow> string \<Rightarrow> string \<Rightarrow> string option \<Rightarrow> object_entry list \<Rightarrow>
   (transfer_plan_item list, cli_error) result" where
  "build_tos_source_transfer_items source_target source_prefix destination parent_prefix entries =
     (if is_tos destination then
        try_in (parse_tos_uri destination True) (\<lambda>target.
          Ok (map (tos_source_transfer_item source_target source_prefix destination parent_prefix (Some target)) entries))
      else Ok (map (tos_source_transfer_item source_target source_prefix destination parent_prefix None) entries))"

section \<open>Paths that leave their directory\<close>

definition path_contains_parent_dir :: "string \<Rightarrow> bool" where
  "path_contains_parent_dir path \<longleftrightarrow>
     ParentDir \<in> set (path_components path) \<or>
     ''..'' \<in> set (concat (map (split_on (CHR 0x5C)) (split_on slash path)))"

definition tos_key_contains_parent_dir :: "string \<Rightarrow> bool" where
  "tos_key_contains_parent_dir key \<longleftrightarrow>
     ''..'' \<in> set (concat (map (split_on (CHR 0x5C)) (split_on slash key)))"

definition transfer_path_traversal_candidate ::
  "string \<Rightarrow> string \<Rightarrow> string option \<Rightarrow> (string option, cli_error) result" where
  "transfer_path_traversal_candidate source destination resolved_destination =
     (let resolved = (case resolved_destination of None \<Rightarrow> destination | Some r \<Rightarrow> r);
          local_source = (if \<not> is_tos source \<and> path_contains_parent_dir source then [source] else []);
          local_destination =
            (if \<not> is_tos destination \<and> path_contains_parent_dir destination then [resolved] else [])
      in try_in
        (if is_tos source \<and> \<not> is_tos destination
         then try_in (parse_tos_uri source True) (\<lambda>source_target.
           Ok (case tu_key source_target of
                 Some key \<Rightarrow> if tos_key_contains_parent_dir key then [resolved] else []
               | None \<Rightarrow> []))
         else Ok []) (\<lambda>remote_source.
        let risky_targets = local_source @ local_destination @ remote_source
        in case risky_targets of
             [] \<Rightarrow> Ok None
           | [target] \<Rightarrow> Ok (Some target)
           | _ \<Rightarrow> Ok (Some (source @ '' -> '' @ destination))))"

text \<open>
  The confirmation. \<open>can_prompt\<close> says that standard input and error are terminals, and
  \<open>answer\<close> is the line read from the user.
\<close>

definition enforce_path_traversal_confirmation_for_command ::
  "(string, io_error) result \<Rightarrow> string option \<Rightarrow> bool \<Rightarrow> bool \<Rightarrow> string \<Rightarrow> string \<Rightarrow> bool \<Rightarrow>
   (unit, cli_error) result" where
  "enforce_path_traversal_confirmation_for_command answer confirm force requires_force command target can_prompt =
     (if can_prompt then
        if force \<or> requires_force then Ok ()
        else case answer of
          Err e \<Rightarrow> Err (ValidationError (''failed to read confirmation input: '' @ io_text e))
        | Ok input \<Rightarrow>
            if eq_ignore_ascii_case (trim input) ''yes'' \<or> eq_ignore_ascii_case (trim input) ''y''
            then Ok ()
            else Err (ValidationError (''operation cancelled by user (received '' @ quoted (trim input) @ '')''))
      else if \<not> force
      then Err (ValidationError (''path traversal risk for '' @ quoted target @ '' in '' @ command @
             '' requires --force and --confirm '' @ target @ '' in non-interactive execution''))
      else case confirm of
        Some provided \<Rightarrow>
          if provided = target then Ok ()
          else Err (ValidationError (''--confirm '' @ quoted provided @
                 '' does not match the path traversal target '' @ quoted target @ '' for '' @ command))
      | None \<Rightarrow> Err (ValidationError (''path traversal risk for '' @ quoted target @ '' in '' @ command @
             '' requires --confirm '' @ target @ '' in non-interactive execution'')))"

definition transfer_plan_item_has_local_parent_dir :: "transfer_plan_item \<Rightarrow> bool" where
  "transfer_plan_item_has_local_parent_dir item \<longleftrightarrow>
     (\<not> is_tos (tp_source item) \<and> path_contains_parent_dir (tp_source item)) \<or>
     (\<not> is_tos (tp_destination item) \<and> path_contains_parent_dir (tp_destination item))"

definition enforce_transfer_plan_path_traversal ::
  "(string, io_error) result \<Rightarrow> string option \<Rightarrow> bool \<Rightarrow> string \<Rightarrow> bool \<Rightarrow> bool \<Rightarrow> string \<Rightarrow>
   transfer_plan_item list \<Rightarrow> (unit, cli_error) result" where
  "enforce_transfer_plan_path_traversal answer confirm can_prompt command force requires_force target items =
     (if list_ex transfer_plan_item_has_local_parent_dir items
      then enforce_path_traversal_confirmation_for_command answer confirm force requires_force command target can_prompt
      else Ok ())"

section \<open>Recursive moves inside TOS\<close>

definition dotted_key :: "string \<Rightarrow> bool" where
  "dotted_key key \<longleftrightarrow> ''.'' \<in> set (split_on slash key) \<or> ''..'' \<in> set (split_on slash key)"

definition validate_move_path :: "string \<Rightarrow> (unit, cli_error) result" where
  "validate_move_path path =
     (if is_tos path then
        try_in (parse_tos_uri path True) (\<lambda>target.
          if dotted_key (unwrap_key (tu_key target))
          then Err (ValidationError
            (''recursive mv TOS paths must not contain '' @ quoted ''.'' @ '' or '' @ quoted ''..'' @ '' key segments''))
          else Ok ())
      else Ok ())"

definition validate_recursive_tos_move_destination ::
  "string \<Rightarrow> string \<Rightarrow> bool \<Rightarrow> (unit, cli_error) result" where
  "validate_recursive_tos_move_destination source destination include_parent =
     try_in (parse_tos_uri source True) (\<lambda>src.
     try_in (parse_tos_uri destination True) (\<lambda>dst.
     if tu_bucket src \<noteq> tu_bucket dst then Ok ()
     else
       let source_prefix = normalize_recursive_tos_prefix (tu_key src)
       in try_in (recursive_source_parent_prefix source include_parent) (\<lambda>parent.
       let destination_prefix = normalize_recursive_tos_prefix
             (Some (join_tos_key (normalize_recursive_tos_prefix (tu_key dst)) (unwrap_key parent)))
       in if destination_prefix = source_prefix
          then Err (ValidationError ''source and destination resolve to the same TOS prefix'')
          else if starts_with source_prefix destination_prefix
          then Err (ValidationError ''recursive mv destination must not be inside the source prefix'')
          else Ok ())))"

definition validate_recursive_move_destination ::
  "(string \<Rightarrow> string \<Rightarrow> (unit, cli_error) result) \<Rightarrow> string \<Rightarrow> string \<Rightarrow> bool \<Rightarrow> bool \<Rightarrow>
   (unit, cli_error) result" where
  "validate_recursive_move_destination local_move source destination recursive include_parent =
     (if \<not> recursive then Ok ()
      else try_in (try_each validate_move_path [source, destination]) (\<lambda>_.
        if is_tos source \<and> is_tos destination
        then validate_recursive_tos_move_destination source destination include_parent
        else if \<not> is_tos source \<and> \<not> is_tos destination then local_move source destination
        else Ok ()))"

section \<open>Facts about addresses\<close>

lemma trim_start_of_hd: "trim_start_of c s \<noteq> [] \<Longrightarrow> hd (trim_start_of c s) \<noteq> c"
  by (induction s) (auto simp: trim_start_of_def)

lemma trim_start_of_idem [simp]: "trim_start_of c (trim_start_of c s) = trim_start_of c s"
  by (simp add: trim_start_of_def)

lemma trim_start_of_id: "s = [] \<or> hd s \<noteq> c \<Longrightarrow> trim_start_of c s = s"
  by (cases s) (auto simp: trim_start_of_def)

lemma trim_start_of_suffix: "\<exists>a. s = a @ trim_start_of c s"
  unfolding trim_start_of_def by (metis takeWhile_dropWhile_id)

lemma trim_end_of_prefix: "\<exists>b. s = trim_end_of c s @ b"
  using trim_end_of_decomp [of s c] by blast

lemma trim_of_ends:
  assumes "trim_of c s \<noteq> []"
  shows "hd (trim_of c s) \<noteq> c" and "last (trim_of c s) \<noteq> c"
proof -
  obtain b where b: "trim_start_of c s = trim_of c s @ b"
    using trim_end_of_prefix [of "trim_start_of c s" c] by (auto simp: trim_of_def)
  then have "hd (trim_start_of c s) = hd (trim_of c s)" and "trim_start_of c s \<noteq> []"
    using assms by auto
  then show "hd (trim_of c s) \<noteq> c" using trim_start_of_hd [of c s] by metis
  show "last (trim_of c s) \<noteq> c" using assms trim_end_of_last unfolding trim_of_def by metis
qed

lemma trim_of_id: "s = [] \<or> hd s \<noteq> c \<and> last s \<noteq> c \<Longrightarrow> trim_of c s = s"
  by (auto simp: trim_of_def trim_start_of_id trim_end_of_id)

lemma trim_of_sub: "\<exists>a b. s = a @ trim_of c s @ b"
proof -
  obtain a where "s = a @ trim_start_of c s" using trim_start_of_suffix [of s c] by blast
  moreover obtain b where "trim_start_of c s = trim_of c s @ b"
    using trim_end_of_prefix [of "trim_start_of c s" c] unfolding trim_of_def by blast
  ultimately show ?thesis by metis
qed

lemma trim_start_matches_stop: "\<not> starts_with p s \<Longrightarrow> trim_start_matches p s = s"
  by (subst trim_start_matches.simps) (auto simp: starts_with_def)

lemma trim_start_matches_step: "p \<noteq> [] \<Longrightarrow> trim_start_matches p (p @ s) = trim_start_matches p s"
  by (subst trim_start_matches.simps) simp

lemma trim_start_matches_done: "p \<noteq> [] \<Longrightarrow> \<not> starts_with p (trim_start_matches p s)"
proof (induction p s rule: trim_start_matches.induct)
  case (1 p s)
  then show ?case
    by (subst trim_start_matches.simps) (auto simp: starts_with_def split: option.split)
qed

lemma scheme_ne [simp]: "tos_scheme \<noteq> []"
  by (simp add: tos_scheme_def)

lemma is_tos_object_uri [simp]: "is_tos (object_uri b k)"
  by (simp add: is_tos_def object_uri_def starts_with_def)

definition canonical_object :: "string \<Rightarrow> string \<Rightarrow> bool" where
  "canonical_object b k \<longleftrightarrow> b \<noteq> [] \<and> slash \<notin> set b \<and> k \<noteq> [] \<and> (hd k \<noteq> slash \<or> b \<noteq> ''tos:'')"

lemma scheme_in_object:
  assumes "slash \<notin> set b"
  shows "starts_with tos_scheme (b @ slash # k) \<longleftrightarrow> b = ''tos:'' \<and> k \<noteq> [] \<and> hd k = slash"
proof
  assume "starts_with tos_scheme (b @ slash # k)"
  then obtain t where t: "b @ slash # k = ''tos:'' @ slash # slash # t"
    by (auto simp: starts_with_iff tos_scheme_def)
  have "\<And>x. x \<in> set b \<Longrightarrow> x \<noteq> slash" using assms by blast
  then have "takeWhile (\<lambda>x. x \<noteq> slash) (b @ slash # k) = b"
    and "dropWhile (\<lambda>x. x \<noteq> slash) (b @ slash # k) = slash # k"
    by (simp_all add: takeWhile_append2 dropWhile_append2)
  moreover have "takeWhile (\<lambda>x. x \<noteq> slash) (''tos:'' @ slash # slash # t) = ''tos:''"
    and "dropWhile (\<lambda>x. x \<noteq> slash) (''tos:'' @ slash # slash # t) = slash # slash # t"
    by simp_all
  ultimately have "b = ''tos:''" and "k = slash # t" using t by (metis, metis list.inject)
  then show "b = ''tos:'' \<and> k \<noteq> [] \<and> hd k = slash" by simp
next
  assume "b = ''tos:'' \<and> k \<noteq> [] \<and> hd k = slash"
  then show "starts_with tos_scheme (b @ slash # k)"
    by (cases k) (auto simp: starts_with_def tos_scheme_def)
qed

lemma parse_object_uri:
  assumes "canonical_object b k"
  shows "parse_tos_uri (object_uri b k) a = Ok \<lparr>tu_bucket = b, tu_key = Some k\<rparr>"
proof -
  have "\<not> starts_with tos_scheme (b @ slash # k)"
    using assms scheme_in_object [of b k] by (auto simp: canonical_object_def)
  then have "trim_start_matches tos_scheme (object_uri b k) = b @ slash # k"
    by (simp add: object_uri_def trim_start_matches_step trim_start_matches_stop)
  moreover have "split_once slash (b @ slash # k) = Some (b, k)"
    using assms by (simp add: split_once_Some canonical_object_def)
  ultimately show ?thesis using assms by (simp add: parse_tos_uri_def canonical_object_def Let_def)
qed

lemma parse_tos_uri_Ok:
  assumes "parse_tos_uri u a = Ok t"
  shows "is_tos u" and "tu_bucket t \<noteq> []" and "slash \<notin> set (tu_bucket t)"
    and "tu_key t = Some k \<Longrightarrow> canonical_object (tu_bucket t) k"
    and "\<not> a \<Longrightarrow> tu_key t \<noteq> None"
proof -
  let ?r = "trim_start_matches tos_scheme u"
  show "is_tos u" and b: "tu_bucket t \<noteq> []" and "\<not> a \<Longrightarrow> tu_key t \<noteq> None"
    using assms by (auto simp: parse_tos_uri_def Let_def split: if_splits)
  show s: "slash \<notin> set (tu_bucket t)"
    using assms by (auto simp: parse_tos_uri_def Let_def split_once_None split_once_Some
        split: if_splits option.splits)
  assume k: "tu_key t = Some k"
  then have "?r = tu_bucket t @ slash # k \<and> k \<noteq> []"
    using assms by (auto simp: parse_tos_uri_def Let_def split_once_None split_once_Some
        split: if_splits option.splits)
  then show "canonical_object (tu_bucket t) k"
    using b s scheme_in_object [OF s, of k] trim_start_matches_done [of tos_scheme u]
    by (auto simp: canonical_object_def)
qed

lemma parse_tos_uri_bucket:
  "parse_tos_uri u True = Ok t \<Longrightarrow> parse_tos_uri u False = Ok t \<or> tu_key t = None"
  by (auto simp: parse_tos_uri_def Let_def split: if_splits)

lemma last_segment_part: "last_segment c s \<noteq> [] \<Longrightarrow> set (last_segment c s) \<subseteq> set s"
  by (auto simp: last_segment_def rsplit_once_Some split: option.splits)

lemma path_file_name_plain:
  assumes "path_file_name p = Some c"
  shows "c \<noteq> []" and "slash \<notin> set c"
proof -
  have "Normal c \<in> set (path_components p)"
    using assms last_in_set by (fastforce simp: path_file_name_def split: if_splits path_component.splits)
  then have "c \<noteq> [] \<and> c \<in> set (split_on slash p)"
    by (auto simp: path_components_def split: if_splits)
  then show "c \<noteq> []" and "slash \<notin> set c" by (auto dest: split_on_no_sep)
qed

lemma source_file_name_plain:
  assumes "source_file_name_for_tos_transfer source = Ok name"
  shows "name \<noteq> []" and "slash \<notin> set name"
  using assms path_file_name_plain [of source name]
  by (auto simp: source_file_name_for_tos_transfer_def Let_def try_in_Ok_iff last_segment_no_sep
      split: if_splits option.splits)

text \<open>Joining never produces a key that starts with a slash unless the rest does.\<close>

lemma join_tos_key_Nil: "trim_of slash prefix = [] \<Longrightarrow> join_tos_key prefix key = trim_start_of slash key"
  by (simp add: join_tos_key_def)

lemma join_tos_key_hd: "join_tos_key prefix key \<noteq> [] \<Longrightarrow> hd (join_tos_key prefix key) \<noteq> slash"
  using trim_of_ends(1) [of slash prefix] trim_start_of_hd [of slash key]
  by (auto simp: join_tos_key_def hd_append split: if_splits)

lemma join_tos_key_name:
  assumes "name \<noteq> []" and "slash \<notin> set name"
  shows "join_tos_key prefix name \<noteq> []" and "\<not> ends_with [slash] (join_tos_key prefix name)"
proof -
  have "hd name \<noteq> slash" and "last name \<noteq> slash" using assms by (metis hd_in_set, metis last_in_set)
  then show "join_tos_key prefix name \<noteq> []" and "\<not> ends_with [slash] (join_tos_key prefix name)"
    using assms by (auto simp: join_tos_key_def trim_start_of_id ends_with_single)
qed

lemma canonical_join:
  assumes "parse_tos_uri u a = Ok t" and "join_tos_key p k \<noteq> []"
  shows "canonical_object (tu_bucket t) (join_tos_key p k)"
  using parse_tos_uri_Ok(2,3) [OF assms(1)] join_tos_key_hd [OF assms(2)] assms(2)
  by (simp add: canonical_object_def)

lemma resolve_into_directory:
  assumes "resolve_single_transfer_destination is_dir source destination = Ok d"
    and "parse_tos_uri destination True = Ok target"
    and "\<And>k. tu_key target = Some k \<Longrightarrow> ends_with [slash] k"
  obtains name where "source_file_name_for_tos_transfer source = Ok name"
    and "d = object_uri (tu_bucket target) (join_tos_key (unwrap_key (tu_key target)) name)"
    and "is_tos source \<Longrightarrow> parse_tos_uri source False \<noteq>
      Ok \<lparr>tu_bucket = tu_bucket target, tu_key = Some (join_tos_key (unwrap_key (tu_key target)) name)\<rparr>"
proof -
  have "\<not> (case tu_key target of Some key \<Rightarrow> \<not> ends_with [slash] key | None \<Rightarrow> False)"
    using assms(3) by (auto split: option.splits)
  then obtain name where n: "source_file_name_for_tos_transfer source = Ok name"
    and r: "(let key = join_tos_key (unwrap_key (tu_key target)) name
       in if is_tos source then
            try_in (parse_tos_uri source False) (\<lambda>source_target.
              if tu_bucket source_target = tu_bucket target \<and> tu_key source_target = Some key
              then Err (ValidationError ''source and destination resolve to the same TOS object'')
              else Ok (object_uri (tu_bucket target) key))
          else Ok (object_uri (tu_bucket target) key)) = Ok d"
    using assms(1,2) parse_tos_uri_Ok(1) [OF assms(2)]
    by (auto simp: resolve_single_transfer_destination_def try_in_Ok_iff)
  show ?thesis
    by (rule that [OF n]) (use r in \<open>auto simp: Let_def try_in_Ok_iff split: if_splits\<close>)
qed

text \<open>The TOS destination of a single transfer is the given key, or the source's name
  below the given prefix; it parses back to exactly that object, and it is never the source
  object when the name was appended.\<close>

theorem transfer_destination_resolved:
  assumes "resolve_single_transfer_destination is_dir source destination = Ok d"
    and "parse_tos_uri destination True = Ok target"
  shows "\<exists>key. parse_tos_uri d False = Ok \<lparr>tu_bucket = tu_bucket target, tu_key = Some key\<rparr> \<and>
    \<not> ends_with [slash] key \<and>
    (d = destination \<and> tu_key target = Some key \<or>
     (\<exists>name. source_file_name_for_tos_transfer source = Ok name \<and>
        key = join_tos_key (unwrap_key (tu_key target)) name \<and>
        (is_tos source \<longrightarrow> parse_tos_uri source False \<noteq>
           Ok \<lparr>tu_bucket = tu_bucket target, tu_key = Some key\<rparr>)))"
proof (cases "\<exists>k. tu_key target = Some k \<and> \<not> ends_with [slash] k")
  case True
  then obtain k where k: "tu_key target = Some k" "\<not> ends_with [slash] k" by blast
  then have "d = destination"
    using assms parse_tos_uri_Ok(1) [OF assms(2)]
    by (simp add: resolve_single_transfer_destination_def)
  moreover have "parse_tos_uri destination False = Ok target"
    using parse_tos_uri_bucket [OF assms(2)] k by simp
  moreover have "target = \<lparr>tu_bucket = tu_bucket target, tu_key = Some k\<rparr>" using k by simp
  ultimately show ?thesis using k by metis
next
  case False
  obtain name where n: "source_file_name_for_tos_transfer source = Ok name"
    and d: "d = object_uri (tu_bucket target) (join_tos_key (unwrap_key (tu_key target)) name)"
    and src: "is_tos source \<Longrightarrow> parse_tos_uri source False \<noteq>
      Ok \<lparr>tu_bucket = tu_bucket target, tu_key = Some (join_tos_key (unwrap_key (tu_key target)) name)\<rparr>"
    using resolve_into_directory [OF assms] False by metis
  let ?key = "join_tos_key (unwrap_key (tu_key target)) name"
  have key: "?key \<noteq> []" "\<not> ends_with [slash] ?key"
    using join_tos_key_name [OF source_file_name_plain [OF n]] by simp_all
  have "parse_tos_uri d False = Ok \<lparr>tu_bucket = tu_bucket target, tu_key = Some ?key\<rparr>"
    unfolding d by (rule parse_object_uri [OF canonical_join [OF assms(2) key(1)]])
  then show ?thesis using n key(2) src by blast
qed

theorem transfer_destination_resolved_witness:
  "\<exists>key. parse_tos_uri ''tos://b/in/a.txt'' False = Ok \<lparr>tu_bucket = ''b'', tu_key = Some key\<rparr> \<and>
    \<not> ends_with [slash] key"
proof -
  have r: "resolve_single_transfer_destination (\<lambda>_. False) ''tos://b/a.txt'' ''tos://b/in/'' = Ok ''tos://b/in/a.txt''"
    and t: "parse_tos_uri ''tos://b/in/'' True = Ok \<lparr>tu_bucket = ''b'', tu_key = Some ''in/''\<rparr>"
    by code_simp+
  show ?thesis using transfer_destination_resolved [OF r t] by auto
qed

section \<open>Recursive downloads stay below their destination\<close>

lemma walk_append: "walk dir (xs @ ys) = walk (walk dir xs) ys"
  by (induction xs arbitrary: dir) auto

lemma walk_no_parent: "''..'' \<notin> set cs \<Longrightarrow> \<exists>names. walk dir cs = dir @ names"
proof (induction cs arbitrary: dir)
  case Nil
  then show ?case by simp
next
  case (Cons c cs)
  then show ?case by simp (metis append.assoc)
qed

lemma parent_dir_segment: "''..'' \<in> set (split_on slash p) \<Longrightarrow> path_contains_parent_dir p"
proof -
  assume s: "''..'' \<in> set (split_on slash p)"
  moreover have "split_on (CHR 0x5C) ''..'' = [''..'']" by simp
  ultimately have "''..'' \<in> set (concat (map (split_on (CHR 0x5C)) (split_on slash p)))"
    by (auto intro!: bexI [of _ "''..''"])
  then show ?thesis by (simp add: path_contains_parent_dir_def)
qed

lemma split_path_join:
  assumes "rel = [] \<or> hd rel \<noteq> slash"
  shows "\<exists>front. split_on slash (local_join p rel) = front @ split_on slash rel \<and>
    walk dir front = walk dir (split_on slash p)"
proof -
  have rel: "\<not> starts_with [slash] rel" using assms by (auto simp: starts_with_iff)
  consider "p = []" | q where "p = q @ [slash]" | "p \<noteq> []" "\<not> ends_with [slash] p"
    by (auto simp: ends_with_iff)
  then show ?thesis
  proof cases
    case 1
    then show ?thesis using rel by (auto simp: local_join_def)
  next
    case 2
    then have "split_on slash (local_join p rel) = split_on slash q @ split_on slash rel"
      using rel by (simp add: local_join_def ends_with_iff split_on_mid)
    moreover have "split_on slash p = split_on slash q @ [[]]" using 2 by (simp add: split_on_mid)
    ultimately show ?thesis by (auto simp: walk_append)
  next
    case 3
    then show ?thesis using rel by (auto simp: local_join_def split_on_mid)
  qed
qed

lemma relative_key_plain:
  "prepend_parent_prefix (strip_tos_prefix key prefix) parent = [] \<or>
   hd (prepend_parent_prefix (strip_tos_prefix key prefix) parent) \<noteq> slash"
proof (cases parent)
  case None
  then show ?thesis
    using trim_start_of_hd [of slash] unfolding prepend_parent_prefix_def strip_tos_prefix_def
    by (metis option.simps(4))
next
  case (Some p)
  then show ?thesis using join_tos_key_hd by (auto simp: prepend_parent_prefix_def)
qed

lemma local_item_destination:
  assumes "\<not> is_tos destination"
    and "build_tos_source_transfer_items source prefix destination parent entries = Ok items"
    and "item \<in> set items"
  shows "\<exists>entry \<in> set entries.
    tp_relative_key item = prepend_parent_prefix (strip_tos_prefix (oe_key entry) prefix) parent \<and>
    tp_destination item = local_join destination (tp_relative_key item)"
proof -
  obtain entry where "entry \<in> set entries"
    and "item = tos_source_transfer_item source prefix destination parent None entry"
    using assms by (auto simp: build_tos_source_transfer_items_def)
  then show ?thesis by (intro bexI [of _ entry]) (simp_all add: tos_source_transfer_item_def Let_def)
qed

text \<open>A joined path is a TOS address only when the directory itself starts like one.\<close>

lemma local_join_local:
  assumes "\<not> is_tos p" and "p \<noteq> []" and "rel = [] \<or> hd rel \<noteq> slash"
  shows "\<not> is_tos (local_join p rel)"
proof
  assume "is_tos (local_join p rel)"
  moreover have "\<not> starts_with [slash] rel" using assms(3) by (auto simp: starts_with_iff)
  ultimately obtain t where "p @ rel = tos_scheme @ t \<and> ends_with [slash] p \<or>
      p @ slash # rel = tos_scheme @ t \<and> \<not> ends_with [slash] p"
    using assms(2) by (auto simp: is_tos_def local_join_def starts_with_iff split: if_splits)
  then show False
    using assms by (auto simp: is_tos_def tos_scheme_def starts_with_iff ends_with_single append_eq_Cons_conv)
qed

text \<open>C22: without the confirmation that names it, a recursive download in a
  non-interactive session plans no file outside its destination directory, whatever keys the
  bucket holds: every local path resolves to the destination followed by plain names.\<close>

theorem recursive_download_confined:
  assumes "\<not> is_tos destination" and "destination \<noteq> []"
    and "build_tos_source_transfer_items source prefix destination parent entries = Ok items"
    and "enforce_transfer_plan_path_traversal answer confirm False command force requires_force target items = Ok ()"
    and "\<not> (force \<and> confirm = Some target)"
    and "item \<in> set items"
  shows "\<exists>names. walk dir (split_on slash (tp_destination item)) =
    walk dir (split_on slash destination) @ names"
proof -
  obtain entry :: object_entry where rel: "tp_relative_key item = prepend_parent_prefix (strip_tos_prefix (oe_key entry) prefix) parent"
    and dest: "tp_destination item = local_join destination (tp_relative_key item)"
    using local_item_destination [OF assms(1,3,6)] by blast
  have "\<not> is_tos (tp_destination item)"
    unfolding dest by (rule local_join_local [OF assms(1,2)]) (use rel relative_key_plain in metis)
  then have "\<not> path_contains_parent_dir (tp_destination item)"
    using assms(4-6)
    by (auto simp: enforce_transfer_plan_path_traversal_def transfer_plan_item_has_local_parent_dir_def
        enforce_path_traversal_confirmation_for_command_def list_ex_iff split: if_splits option.splits)
  then have no: "''..'' \<notin> set (split_on slash (tp_destination item))"
    using parent_dir_segment by blast
  obtain front where s: "split_on slash (tp_destination item) = front @ split_on slash (tp_relative_key item)"
    and w: "walk dir front = walk dir (split_on slash destination)"
    using split_path_join [of "tp_relative_key item" destination dir] relative_key_plain rel dest by metis
  have "''..'' \<notin> set (split_on slash (tp_relative_key item))" using no s by simp
  then show ?thesis
    using walk_no_parent [of _ "walk dir front"] s w by (simp add: walk_append)
qed

theorem recursive_download_confined_witness:
  "\<exists>names. walk [] (split_on slash ''out/sub/a.txt'') = walk [] (split_on slash ''out'') @ names"
proof -
  let ?entry = "\<lparr>oe_key = ''p/sub/a.txt'', oe_size = 3, oe_last_modified = None, oe_etag = None,
      oe_storage_class = None\<rparr>"
  let ?item = "tos_source_transfer_item \<lparr>tu_bucket = ''b'', tu_key = Some ''p/''\<rparr> ''p/'' ''out'' None None ?entry"
  have i: "build_tos_source_transfer_items \<lparr>tu_bucket = ''b'', tu_key = Some ''p/''\<rparr> ''p/'' ''out'' None [?entry]
      = Ok [?item]" and n: "\<not> is_tos ''out''" and d: "tp_destination ?item = ''out/sub/a.txt''"
    and g: "enforce_transfer_plan_path_traversal (Ok []) None False ''ve-tos cp'' False False ''x'' [?item] = Ok ()"
    by code_simp+
  show ?thesis using recursive_download_confined [OF n _ i g, of ?item "[]"] d by simp
qed

section \<open>Folder creation\<close>

lemma mkdir_keys_map:
  assumes "current = join_with slash done_segs" and "[] \<notin> set done_segs"
  shows "mkdir_keys segs current =
    map (\<lambda>i. join_with slash (done_segs @ take (Suc i) (List.filter (\<lambda>s. s \<noteq> []) segs)) @ [slash])
      [0..<length (List.filter (\<lambda>s. s \<noteq> []) segs)]"
  using assms
proof (induction segs arbitrary: current done_segs)
  case Nil
  then show ?case by simp
next
  case (Cons s segs)
  show ?case
  proof (cases "s = []")
    case True
    then show ?thesis using Cons.IH [OF Cons.prems] by simp
  next
    case False
    have cur: "current = [] \<longleftrightarrow> done_segs = []"
      using Cons.prems by (cases done_segs; cases "tl done_segs") (auto simp: join_with_Cons)
    let ?ext = "if current = [] then s else current @ slash # s"
    have "?ext = join_with slash (done_segs @ [s])"
      using Cons.prems(1) cur by (auto simp: join_with_append)
    moreover have "[] \<notin> set (done_segs @ [s])" using Cons.prems(2) False by auto
    ultimately show ?thesis
      using Cons.IH [of ?ext "done_segs @ [s]"] False
      by (simp add: Let_def map_upt_Suc del: upt_Suc)
  qed
qed

lemma split_trim_end:
  "List.filter (\<lambda>s. s \<noteq> []) (split_on c (trim_end_of c k)) = List.filter (\<lambda>s. s \<noteq> []) (split_on c k)"
proof -
  obtain n where n: "k = trim_end_of c k @ replicate n c" using trim_end_of_decomp [of k c] by blast
  have "List.filter (\<lambda>s. s \<noteq> []) (split_on c (s @ replicate n c)) = List.filter (\<lambda>s. s \<noteq> []) (split_on c s)" for s
  proof (induction n arbitrary: s)
    case (Suc n)
    have "s @ replicate (Suc n) c = (s @ [c]) @ replicate n c" by simp
    then show ?case using Suc [of "s @ [c]"] by (simp add: split_on_mid)
  qed simp
  from this [of "trim_end_of c k"] show ?thesis using n by simp
qed

definition key_segments :: "string \<Rightarrow> string list" where
  "key_segments key = List.filter (\<lambda>s. s \<noteq> []) (split_on slash key)"

lemma key_segments_Nil: "key_segments k = [] \<Longrightarrow> set k \<subseteq> {slash}"
proof (induction k)
  case Nil
  then show ?case by simp
next
  case (Cons x k)
  then show ?case
    by (auto simp: key_segments_def split: if_splits list.splits)
qed

text \<open>\<open>mkdir --parents\<close> creates every folder on the way from the bucket to the requested
  one, each before the ones below it, and nothing else.\<close>

theorem mkdir_creates_ancestors:
  assumes "normalize_folder_key raw = Ok key"
  shows "folder_keys_for_mkdir key True =
      map (\<lambda>i. join_with slash (take (Suc i) (key_segments raw)) @ [slash]) [0..<length (key_segments raw)]"
    and "key_segments raw \<noteq> []"
proof -
  let ?n = "trim_start_of slash raw"
  have n: "trim_of slash ?n \<noteq> []" and k: "key = ?n \<or> key = ?n @ [slash]"
    using assms by (auto simp: normalize_folder_key_def Let_def split: if_splits)
  have "key_segments (trim_start_of slash raw) = key_segments raw"
    unfolding key_segments_def by (induction raw) (auto simp: trim_start_of_def)
  moreover have "key_segments key = key_segments ?n"
    using k by (auto simp: key_segments_def split_on_mid)
  ultimately have seg: "key_segments key = key_segments raw" by simp
  have "\<not> set ?n \<subseteq> {slash}"
  proof
    assume "set ?n \<subseteq> {slash}"
    then have "?n = []" using trim_start_of_hd [of slash raw] by (metis hd_in_set singletonD subsetD)
    then show False using n by (simp add: trim_of_def trim_start_of_id)
  qed
  then have ne: "key_segments ?n \<noteq> []" using key_segments_Nil by blast
  then show "key_segments raw \<noteq> []" using \<open>key_segments ?n = key_segments raw\<close> by simp
  have "mkdir_keys (split_on slash (trim_end_of slash key)) [] =
      map (\<lambda>i. join_with slash (take (Suc i) (key_segments key)) @ [slash]) [0..<length (key_segments key)]"
    using mkdir_keys_map [of "[]" "[]" "split_on slash (trim_end_of slash key)"]
    unfolding key_segments_def by (simp add: split_trim_end)
  then show "folder_keys_for_mkdir key True =
      map (\<lambda>i. join_with slash (take (Suc i) (key_segments raw)) @ [slash]) [0..<length (key_segments raw)]"
    using seg \<open>key_segments raw \<noteq> []\<close> by (simp add: folder_keys_for_mkdir_def Let_def)
qed

theorem mkdir_creates_ancestors_witness:
  "folder_keys_for_mkdir ''a/b/'' True = [''a/'', ''a/b/'']"
proof -
  have r: "normalize_folder_key ''/a/b'' = Ok ''a/b/''" and s: "key_segments ''/a/b'' = [''a'', ''b'']"
    by code_simp+
  show ?thesis
    using mkdir_creates_ancestors(1) [OF r] by (simp add: s upt_rec)
qed

section \<open>Recursive moves keep copies and sources apart\<close>

lemma normalize_prefix_ends:
  "normalize_recursive_tos_prefix p = [] \<or> ends_with [slash] (normalize_recursive_tos_prefix p)"
  by (auto simp: normalize_recursive_tos_prefix_def Let_def ends_with_iff)

lemma trim_normalize: "trim_of slash (normalize_recursive_tos_prefix p) = trim_of slash (unwrap_key p)"
proof -
  let ?q = "trim_start_of slash (unwrap_key p)"
  have "trim_of slash ?q = trim_of slash (unwrap_key p)" by (simp add: trim_of_def)
  moreover have "trim_of slash (?q @ [slash]) = trim_of slash ?q" if "?q \<noteq> []"
    using that trim_start_of_hd [OF that] by (simp add: trim_of_def trim_start_of_id)
  ultimately show ?thesis by (simp add: normalize_recursive_tos_prefix_def Let_def)
qed

lemma trim_start_append: "trim_start_of c a \<noteq> [] \<Longrightarrow> trim_start_of c (a @ b) = trim_start_of c a @ b"
  by (induction a) (auto simp: trim_start_of_def)

lemma normalized_join:
  assumes "key = [] \<or> hd key \<noteq> slash"
    and parent: "\<And>p. parent = Some p \<Longrightarrow> p \<noteq> [] \<and> slash \<notin> set p"
  shows "\<exists>rest. join_tos_key prefix (prepend_parent_prefix key parent) =
    normalize_recursive_tos_prefix (Some (join_tos_key prefix (unwrap_key parent))) @ rest"
proof -
  define P where "P = trim_of slash prefix"
  have P: "P = [] \<or> hd P \<noteq> slash \<and> last P \<noteq> slash"
    using trim_of_ends [of slash prefix] by (auto simp: P_def)
  have key: "trim_start_of slash key = key" using assms(1) by (rule trim_start_of_id)
  show ?thesis
  proof (cases parent)
    case None
    have "join_tos_key prefix (unwrap_key None) = (if P = [] then [] else P @ [slash])"
      by (auto simp: join_tos_key_def P_def unwrap_key_def trim_start_of_def)
    then show ?thesis
      using P key None
      by (auto simp: join_tos_key_def P_def [symmetric] prepend_parent_prefix_def
          normalize_recursive_tos_prefix_def unwrap_key_def Let_def trim_start_of_id ends_with_iff)
  next
    case (Some p)
    have p: "p \<noteq> []" "hd p \<noteq> slash" "last p \<noteq> slash"
      using parent [OF Some] by (auto dest: hd_in_set last_in_set)
    have "trim_of slash p = p" and "\<And>r. trim_start_of slash (p @ r) = p @ r"
      using p by (simp_all add: trim_of_id trim_start_of_id hd_append)
    then show ?thesis
      using P p key Some trim_start_of_id [of p slash]
      by (auto simp: join_tos_key_def P_def [symmetric] prepend_parent_prefix_def
          normalize_recursive_tos_prefix_def unwrap_key_def Let_def trim_start_of_id ends_with_single hd_append)
  qed
qed

lemma parent_prefix_plain:
  assumes "recursive_source_parent_prefix source include_parent = Ok (Some p)"
  shows "p \<noteq> [] \<and> slash \<notin> set p"
  using assms path_file_name_plain [of source p]
  by (auto simp: recursive_source_parent_prefix_def Let_def try_in_Ok_iff last_segment_no_sep
      split: if_splits option.splits)

text \<open>C23: a recursive move inside one bucket that passes validation, and whose source is not
  itself below the destination, writes no key of the source: no copy overwrites an object that
  is still to be moved and no later deletion of a source removes a copy.\<close>

theorem recursive_move_disjoint:
  assumes "validate_recursive_move_destination local_move source destination True include_parent = Ok ()"
    and "parse_tos_uri source True = Ok src" and "parse_tos_uri destination True = Ok dst"
    and "tu_bucket src = tu_bucket dst"
    and "recursive_source_parent_prefix source include_parent = Ok parent"
    and "source_prefix = normalize_recursive_tos_prefix (tu_key src)"
    and "\<not> starts_with (normalize_recursive_tos_prefix
          (Some (join_tos_key (unwrap_key (tu_key dst)) (unwrap_key parent)))) source_prefix"
    and "build_tos_source_transfer_items src source_prefix destination parent entries = Ok items"
    and "item \<in> set items"
  shows "\<exists>key. tp_destination item = object_uri (tu_bucket dst) key \<and> \<not> starts_with source_prefix key"
proof -
  let ?D = "normalize_recursive_tos_prefix (Some (join_tos_key (unwrap_key (tu_key dst)) (unwrap_key parent)))"
  have tos: "is_tos source" "is_tos destination"
    using parse_tos_uri_Ok(1) assms(2,3) by blast+
  have "join_tos_key (normalize_recursive_tos_prefix (tu_key dst)) (unwrap_key parent) =
      join_tos_key (unwrap_key (tu_key dst)) (unwrap_key parent)"
    unfolding join_tos_key_def by (simp only: trim_normalize)
  then have not_below: "\<not> starts_with source_prefix ?D"
    using assms(1-6) tos
    by (auto simp: validate_recursive_move_destination_def validate_recursive_tos_move_destination_def
        try_in_Ok_iff Let_def split: if_splits)
  obtain entry where "entry \<in> set entries"
    and item: "item = tos_source_transfer_item src source_prefix destination parent (Some dst) entry"
    using assms(3,8,9) tos by (auto simp: build_tos_source_transfer_items_def)
  let ?key = "join_tos_key (unwrap_key (tu_key dst))
    (prepend_parent_prefix (strip_tos_prefix (oe_key entry) source_prefix) parent)"
  have "strip_tos_prefix (oe_key entry) source_prefix = [] \<or> hd (strip_tos_prefix (oe_key entry) source_prefix) \<noteq> slash"
    unfolding strip_tos_prefix_def using trim_start_of_hd by metis
  then obtain rest where rest: "?key = ?D @ rest"
    using normalized_join [of _ parent "unwrap_key (tu_key dst)"] parent_prefix_plain assms(5) by metis
  have "\<not> starts_with source_prefix ?key"
  proof
    assume "starts_with source_prefix ?key"
    then obtain t where "?D @ rest = source_prefix @ t" using rest by (auto simp: starts_with_iff)
    then have "starts_with source_prefix ?D \<or> starts_with ?D source_prefix"
      by (auto simp: starts_with_iff append_eq_append_conv2)
    then show False using not_below assms(7) by blast
  qed
  then show ?thesis by (auto simp: item tos_source_transfer_item_def Let_def)
qed

definition demo_entry :: "string \<Rightarrow> object_entry" where
  "demo_entry key = \<lparr>oe_key = key, oe_size = 3, oe_last_modified = None, oe_etag = None, oe_storage_class = None\<rparr>"

definition demo_ok_move :: "string \<Rightarrow> string \<Rightarrow> (unit, cli_error) result" where
  "demo_ok_move source destination = Ok ()"

theorem recursive_move_disjoint_witness:
  "\<not> starts_with ''a/'' ''b/a/x''"
proof -
  let ?src = "\<lparr>tu_bucket = ''k'', tu_key = Some ''a''\<rparr>" and ?dst = "\<lparr>tu_bucket = ''k'', tu_key = Some ''b''\<rparr>"
  let ?item = "tos_source_transfer_item ?src ''a/'' ''tos://k/b'' (Some ''a'') (Some ?dst) (demo_entry ''a/x'')"
  have v: "validate_recursive_move_destination demo_ok_move ''tos://k/a'' ''tos://k/b'' True True = Ok ()"
    and s: "parse_tos_uri ''tos://k/a'' True = Ok ?src" and d: "parse_tos_uri ''tos://k/b'' True = Ok ?dst"
    and p: "recursive_source_parent_prefix ''tos://k/a'' True = Ok (Some ''a'')"
    and n: "''a/'' = normalize_recursive_tos_prefix (tu_key ?src)"
    and nb: "\<not> starts_with (normalize_recursive_tos_prefix
        (Some (join_tos_key (unwrap_key (tu_key ?dst)) (unwrap_key (Some ''a''))))) ''a/''"
    and b: "build_tos_source_transfer_items ?src ''a/'' ''tos://k/b'' (Some ''a'') [demo_entry ''a/x''] = Ok [?item]"
    and t: "tp_destination ?item = object_uri ''k'' ''b/a/x''"
    by code_simp+
  have "\<exists>key. tp_destination ?item = object_uri ''k'' key \<and> \<not> starts_with ''a/'' key"
    using recursive_move_disjoint [OF v s d _ p n nb b, of ?item] by simp
  then show ?thesis using t by (auto simp: object_uri_def)
qed

text \<open>
  Without the side condition the plan can overwrite its own sources. Moving \<open>a/b\<close> up into
  \<open>a\<close> passes validation; when \<open>a/b\<close> holds both \<open>b/x\<close> and \<open>x\<close>, the first item of the
  plan is copied onto the source of the second before that one is read.
\<close>

lemma move_up_overwrites_source:
  defines "src \<equiv> \<lparr>tu_bucket = ''k'', tu_key = Some ''a/b''\<rparr>"
  shows "validate_recursive_move_destination demo_ok_move ''tos://k/a/b'' ''tos://k/a'' True False = Ok ()"
    and "try_in (build_tos_source_transfer_items src ''a/b/'' ''tos://k/a'' None [demo_entry ''a/b/b/x'', demo_entry ''a/b/x''])
        (\<lambda>items. Ok (map (\<lambda>item. (tp_source item, tp_destination item)) items)) =
      Ok [(''tos://k/a/b/b/x'', ''tos://k/a/b/x''), (''tos://k/a/b/x'', ''tos://k/a/x'')]"
  unfolding src_def by code_simp+

end
