(* ===== verification/Tos_Listing.thy ===== *)
theory Tos_Listing
  imports Tos_Key
begin

text \<open>
  Listing a TOS prefix (\<open>crates/tos/src/handler/high_level.rs\<close>): the continuation loop over
  the pages of \<open>ListObjects\<close>, the recursive listing that walks common prefixes with bounded
  concurrency, and the merging of objects and prefixes for \<open>ls\<close>. \<open>fetch\<close> stands for one
  request of the service with its decoded page; a \<open>schedule\<close> of numbers picks the pending
  scan that completes next.
\<close>

section \<open>Pages\<close>

record list_page =
  lp_entries :: "object_entry list"
  lp_prefixes :: "string list"
  lp_is_truncated :: bool
  lp_next_token :: "string option"

type_synonym page_request = "string option \<Rightarrow> (list_page, cli_error) result"

definition missing_token :: cli_error where
  "missing_token = ValidationError ''truncated ListObjects JSON response is missing a continuation token''"

text \<open>The loop ends only when the service stops truncating, so it is a partial function.\<close>

partial_function (option) list_pages ::
  "page_request \<Rightarrow> string option \<Rightarrow> object_entry list \<Rightarrow> string list \<Rightarrow>
   (object_entry list \<times> string list, cli_error) result option" where
  "list_pages fetch token entries prefixes =
     (case fetch token of
        Err e \<Rightarrow> Some (Err e)
      | Ok page \<Rightarrow>
          if \<not> lp_is_truncated page
          then Some (Ok (entries @ lp_entries page, prefixes @ lp_prefixes page))
          else case lp_next_token page of
                 None \<Rightarrow> Some (Err missing_token)
               | Some next_token \<Rightarrow>
                   list_pages fetch (Some next_token) (entries @ lp_entries page) (prefixes @ lp_prefixes page))"

type_synonym list_objects = "string option \<Rightarrow> string option \<Rightarrow> page_request"

definition list_object_entries_with_prefixes ::
  "list_objects \<Rightarrow> string option \<Rightarrow> string option \<Rightarrow>
   (object_entry list \<times> string list, cli_error) result option" where
  "list_object_entries_with_prefixes fetch prefix delimiter =
     (case list_pages (fetch prefix delimiter) None [] [] of
        None \<Rightarrow> None
      | Some (Err e) \<Rightarrow> Some (Err e)
      | Some (Ok (entries, prefixes)) \<Rightarrow> Some (Ok (sort_key oe_key entries, sort prefixes)))"

definition list_object_entries ::
  "list_objects \<Rightarrow> string option \<Rightarrow> string option \<Rightarrow> (object_entry list, cli_error) result option" where
  "list_object_entries fetch prefix delimiter =
     (case list_pages (fetch prefix delimiter) None [] [] of
        None \<Rightarrow> None
      | Some (Err e) \<Rightarrow> Some (Err e)
      | Some (Ok (entries, prefixes)) \<Rightarrow> Some (Ok (sort_key oe_key entries)))"

section \<open>The recursive listing\<close>

text \<open>
  \<open>pending\<close> is the stack of prefixes still to scan, its top first; a prefix popped a second
  time is dropped.
\<close>

fun start_scans ::
  "nat \<Rightarrow> string list \<Rightarrow> string set \<Rightarrow> string list \<Rightarrow> string list \<times> string set \<times> string list" where
  "start_scans limit [] seen in_flight = ([], seen, in_flight)"
| "start_scans limit (p # pending) seen in_flight =
     (if length in_flight < limit then
        if p \<in> seen then start_scans limit pending seen in_flight
        else start_scans limit pending (insert p seen) (in_flight @ [p])
      else (p # pending, seen, in_flight))"

fun scan_prefixes ::
  "(string \<Rightarrow> ('a list \<times> string list, cli_error) result option) \<Rightarrow> nat \<Rightarrow> nat list \<Rightarrow>
   string list \<Rightarrow> string set \<Rightarrow> string list \<Rightarrow> 'a list \<Rightarrow> ('a list, cli_error) result option" where
  "scan_prefixes scan limit schedule pending seen in_flight found =
     (case start_scans limit pending seen in_flight of
        (pending, seen, in_flight) \<Rightarrow>
          if in_flight = [] then Some (Ok found)
          else case schedule of
            [] \<Rightarrow> None
          | choice # rest \<Rightarrow>
              let i = choice mod length in_flight
              in case scan (in_flight ! i) of
                   None \<Rightarrow> None
                 | Some (Err e) \<Rightarrow> Some (Err e)
                 | Some (Ok (entries, child_prefixes)) \<Rightarrow>
                     scan_prefixes scan limit rest
                       (rev (List.filter (\<lambda>c. c \<notin> seen) child_prefixes) @ pending) seen
                       (remove_at i in_flight) (found @ entries))"

declare scan_prefixes.simps [simp del]

text \<open>\<open>dedup_by(|left, right| left.key == right.key)\<close> keeps the first of equal neighbours.\<close>

fun dedup_key :: "('a \<Rightarrow> 'k) \<Rightarrow> 'a list \<Rightarrow> 'a list" where
  "dedup_key f [] = []"
| "dedup_key f [x] = [x]"
| "dedup_key f (x # y # xs) =
     (if f x = f y then dedup_key f (x # xs) else x # dedup_key f (y # xs))"

definition unwrap_or_empty :: "string option \<Rightarrow> string" where
  "unwrap_or_empty s = (case s of None \<Rightarrow> [] | Some x \<Rightarrow> x)"

definition list_object_entries_recursive ::
  "list_objects \<Rightarrow> nat list \<Rightarrow> string option \<Rightarrow> bool \<Rightarrow> nat \<Rightarrow> (object_entry list, cli_error) result option" where
  "list_object_entries_recursive fetch schedule prefix use_hierarchical_listing list_concurrency =
     (if \<not> use_hierarchical_listing then list_object_entries fetch prefix None
      else case scan_prefixes
             (\<lambda>p. list_object_entries_with_prefixes fetch (Some p) (Some [slash]))
             (max 1 list_concurrency) schedule [unwrap_or_empty prefix] {} [] [] of
        None \<Rightarrow> None
      | Some (Err e) \<Rightarrow> Some (Err e)
      | Some (Ok entries) \<Rightarrow> Some (Ok (dedup_key oe_key (sort_key oe_key entries))))"

definition list_object_keys_recursive ::
  "list_objects \<Rightarrow> nat list \<Rightarrow> string option \<Rightarrow> bool \<Rightarrow> nat \<Rightarrow> (string list, cli_error) result option" where
  "list_object_keys_recursive fetch schedule prefix use_hierarchical_listing list_concurrency =
     (case list_object_entries_recursive fetch schedule prefix use_hierarchical_listing list_concurrency of
        None \<Rightarrow> None
      | Some (Err e) \<Rightarrow> Some (Err e)
      | Some (Ok entries) \<Rightarrow> Some (Ok (map oe_key entries)))"

section \<open>Reading every page\<close>

fun listing_chain :: "page_request \<Rightarrow> string option \<Rightarrow> list_page list \<Rightarrow> bool" where
  "listing_chain fetch token [] = False"
| "listing_chain fetch token [page] = (fetch token = Ok page \<and> \<not> lp_is_truncated page)"
| "listing_chain fetch token (page # page' # pages) =
     (fetch token = Ok page \<and> lp_is_truncated page \<and> lp_next_token page \<noteq> None \<and>
      listing_chain fetch (lp_next_token page) (page' # pages))"

lemma list_pages_chain:
  "listing_chain fetch token pages \<Longrightarrow>
   list_pages fetch token entries prefixes =
     Some (Ok (entries @ concat (map lp_entries pages), prefixes @ concat (map lp_prefixes pages)))"
proof (induction fetch token pages arbitrary: entries prefixes rule: listing_chain.induct)
  case (2 fetch token page)
  then show ?case by (subst list_pages.simps) simp
next
  case (3 fetch token page page' pages)
  then obtain t where "lp_next_token page = Some t" by auto
  then show ?case using 3 by (subst list_pages.simps) simp
qed simp

section \<open>The prefixes reached\<close>

definition reach :: "(string \<Rightarrow> string list) \<Rightarrow> string \<Rightarrow> string set" where
  "reach children root = {p. (root, p) \<in> {(p, c). c \<in> set (children p)}\<^sup>*}"

lemma reach_root [simp]: "root \<in> reach children root"
  by (simp add: reach_def)

lemma reach_step: "p \<in> reach children root \<Longrightarrow> c \<in> set (children p) \<Longrightarrow> c \<in> reach children root"
  by (simp add: reach_def rtrancl.rtrancl_into_rtrancl)

lemma reach_least:
  assumes "p \<in> reach children root" and "root \<in> S" and "\<And>p. p \<in> S \<Longrightarrow> set (children p) \<subseteq> S"
  shows "p \<in> S"
proof -
  have "(root, p) \<in> {(p, c). c \<in> set (children p)}\<^sup>*" using assms(1) by (simp add: reach_def)
  then show ?thesis by (induction rule: rtrancl_induct) (use assms(2,3) in auto)
qed

lemma start_scans_facts:
  assumes "start_scans limit pending seen in_flight = (pending', seen', in_flight')"
  shows "seen' \<union> set pending' = seen \<union> set pending" and "seen \<subseteq> seen'"
    and "set in_flight' = set in_flight \<union> (seen' - seen)"
    and "set in_flight \<subseteq> seen \<Longrightarrow> distinct in_flight \<Longrightarrow> distinct in_flight'"
    and "0 < limit \<Longrightarrow> in_flight' = [] \<Longrightarrow> pending' = []"
  using assms
proof (induction limit pending seen in_flight rule: start_scans.induct)
  case (2 limit p pending seen in_flight)
  {
    case 1
    then show ?case using 2 by (auto split: if_splits)
  next
    case 2
    then show ?case using "2.IH" by (auto split: if_splits)
  next
    case 3
    then show ?case using "2.IH" by (auto split: if_splits)
  next
    case 4
    then show ?case using "2.IH" by (auto split: if_splits)
  next
    case 5
    then show ?case using "2.IH" by (auto split: if_splits)
  }
qed auto

text \<open>
  What holds between two completions: every prefix known is reachable, every prefix whose
  scan completed has its children among the known ones, and the rows found are theirs.
\<close>

definition scanning_prefixes ::
  "(string \<Rightarrow> 'a list) \<Rightarrow> (string \<Rightarrow> string list) \<Rightarrow> string \<Rightarrow>
   string list \<Rightarrow> string set \<Rightarrow> string list \<Rightarrow> 'a list \<Rightarrow> bool" where
  "scanning_prefixes rows children root pending seen in_flight found \<longleftrightarrow>
     seen \<union> set pending \<subseteq> reach children root \<and> root \<in> seen \<union> set pending \<and>
     set in_flight \<subseteq> seen \<and> distinct in_flight \<and>
     (\<forall>p \<in> seen - set in_flight. set (children p) \<subseteq> seen \<union> set pending) \<and>
     set found = (\<Union>p \<in> seen - set in_flight. set (rows p))"

lemma scanning_start:
  assumes "scanning_prefixes rows children root pending seen in_flight found"
    and "start_scans limit pending seen in_flight = (pending', seen', in_flight')"
  shows "scanning_prefixes rows children root pending' seen' in_flight' found"
    and "seen' - set in_flight' = seen - set in_flight"
proof -
  note f = start_scans_facts [OF assms(2)]
  show d: "seen' - set in_flight' = seen - set in_flight"
    using f(2,3) assms(1) by (auto simp: scanning_prefixes_def)
  have "set in_flight' \<subseteq> seen'" using f(2,3) assms(1) by (auto simp: scanning_prefixes_def)
  moreover have "distinct in_flight'" using f(4) assms(1) by (simp add: scanning_prefixes_def)
  ultimately show "scanning_prefixes rows children root pending' seen' in_flight' found"
    using assms(1) unfolding scanning_prefixes_def d f(1) by blast
qed

lemma scanning_complete:
  assumes "scanning_prefixes rows children root pending seen in_flight found" and "i < length in_flight"
  shows "scanning_prefixes rows children root
      (rev (List.filter (\<lambda>c. c \<notin> seen) (children (in_flight ! i))) @ pending) seen
      (remove_at i in_flight) (found @ rows (in_flight ! i))"
    and "seen - set (remove_at i in_flight) = insert (in_flight ! i) (seen - set in_flight)"
proof -
  let ?p = "in_flight ! i"
  have inv: "set in_flight \<subseteq> seen" "distinct in_flight" and p: "?p \<in> set in_flight"
    using assms by (auto simp: scanning_prefixes_def)
  note r = remove_at_distinct [OF inv(2) assms(2)]
  show d: "seen - set (remove_at i in_flight) = insert ?p (seen - set in_flight)"
    using r(1) p inv by auto
  have "?p \<in> reach children root" using p inv assms(1) by (auto simp: scanning_prefixes_def)
  then have "set (children ?p) \<subseteq> reach children root" using reach_step by blast
  then show "scanning_prefixes rows children root
      (rev (List.filter (\<lambda>c. c \<notin> seen) (children ?p)) @ pending) seen
      (remove_at i in_flight) (found @ rows ?p)"
    using assms(1) r inv unfolding scanning_prefixes_def d by auto
qed

lemma scan_prefixes_all:
  assumes "scanning_prefixes rows children root pending seen in_flight found"
    and "\<And>p. p \<in> reach children root \<Longrightarrow> scan p = Some (Ok (rows p, children p))"
    and "0 < limit" and "finite (reach children root)"
    and "card (reach children root) \<le> length schedule + card (seen - set in_flight)"
  shows "\<exists>all. scan_prefixes scan limit schedule pending seen in_flight found = Some (Ok all) \<and>
    set all = (\<Union>p \<in> reach children root. set (rows p))"
  using assms(1,5)
proof (induction schedule arbitrary: pending seen in_flight found)
  case Nil
  obtain pending1 seen1 fl1 where s: "start_scans limit pending seen in_flight = (pending1, seen1, fl1)"
    by (cases "start_scans limit pending seen in_flight") auto
  note inv = scanning_start [OF Nil.prems(1) s]
  have "seen - set in_flight \<subseteq> reach children root"
    using Nil.prems(1) by (auto simp: scanning_prefixes_def)
  then have "seen - set in_flight = reach children root"
    using Nil.prems(2) card_seteq [OF assms(4)] by simp
  then have d: "seen1 - set fl1 = reach children root" using inv(2) by simp
  have in_seen: "set fl1 \<subseteq> seen1" and "seen1 \<subseteq> reach children root"
    using inv(1) by (simp_all add: scanning_prefixes_def)
  then have seen: "seen1 = reach children root" using d by blast
  then have "fl1 = []" using d in_seen by (metis Diff_disjoint inf.absorb_iff1 inf_commute set_empty2)
  then have fl: "fl1 = []" "seen1 = reach children root" using seen by simp_all
  then show ?case using s inv(1) by (subst scan_prefixes.simps) (auto simp: scanning_prefixes_def)
next
  case (Cons choice rest)
  obtain pending1 seen1 fl1 where s: "start_scans limit pending seen in_flight = (pending1, seen1, fl1)"
    by (cases "start_scans limit pending seen in_flight") auto
  note inv = scanning_start [OF Cons.prems(1) s]
  show ?case
  proof (cases "fl1 = []")
    case True
    then have "pending1 = []" using start_scans_facts(5) [OF s assms(3)] by simp
    then have closed: "root \<in> seen1" "\<And>p. p \<in> seen1 \<Longrightarrow> set (children p) \<subseteq> seen1" "seen1 \<subseteq> reach children root"
      using inv(1) True by (auto simp: scanning_prefixes_def)
    then have "seen1 = reach children root" using reach_least [of _ children root seen1] by blast
    then show ?thesis using s True inv(1) by (subst scan_prefixes.simps) (auto simp: scanning_prefixes_def)
  next
    case False
    let ?i = "choice mod length fl1"
    have i: "?i < length fl1" using False by simp
    then have "fl1 ! ?i \<in> reach children root"
      using inv(1) nth_mem by (fastforce simp: scanning_prefixes_def)
    note scan = assms(2) [OF this]
    note next_inv = scanning_complete [OF inv(1) i]
    have "finite (seen1 - set fl1)" using inv(1) assms(4) by (auto simp: scanning_prefixes_def intro: finite_subset)
    moreover have "fl1 ! ?i \<notin> seen1 - set fl1" using i by simp
    ultimately have "card (seen1 - set (remove_at ?i fl1)) = Suc (card (seen - set in_flight))"
      using next_inv(2) inv(2) by simp
    then have "card (reach children root) \<le> length rest + card (seen1 - set (remove_at ?i fl1))"
      using Cons.prems(2) by simp
    from Cons.IH [OF next_inv(1) this] show ?thesis
      using s False scan by (subst scan_prefixes.simps) (simp add: Let_def)
  qed
qed

section \<open>A bucket and its listings\<close>

text \<open>What \<open>ListObjects\<close> answers under the delimiter: keys with no further slash, and the
  common prefix of every other key.\<close>

definition under :: "string \<Rightarrow> string \<Rightarrow> bool" where
  "under prefix key \<longleftrightarrow> (\<exists>rest. key = prefix @ rest \<and> slash \<notin> set rest)"

definition rolled_up :: "string \<Rightarrow> string \<Rightarrow> string \<Rightarrow> bool" where
  "rolled_up prefix key common \<longleftrightarrow>
     (\<exists>segment rest. key = prefix @ segment @ slash # rest \<and> slash \<notin> set segment \<and>
        common = prefix @ segment @ [slash])"

definition answers :: "page_request \<Rightarrow> object_entry set \<Rightarrow> string set \<Rightarrow> bool" where
  "answers fetch entries prefixes \<longleftrightarrow>
     (\<exists>pages. listing_chain fetch None pages \<and>
        set (concat (map lp_entries pages)) = entries \<and>
        distinct (concat (map lp_entries pages)) \<and>
        set (concat (map lp_prefixes pages)) = prefixes)"

definition lists_bucket :: "list_objects \<Rightarrow> object_entry list \<Rightarrow> bool" where
  "lists_bucket fetch objects \<longleftrightarrow>
     (\<forall>prefix. answers (fetch prefix None)
        {o1 \<in> set objects. starts_with (unwrap_or_empty prefix) (oe_key o1)} {}) \<and>
     (\<forall>prefix. answers (fetch (Some prefix) (Some [slash]))
        {o1 \<in> set objects. under prefix (oe_key o1)}
        {common. \<exists>o1 \<in> set objects. rolled_up prefix (oe_key o1) common})"

lemma scan_answers:
  assumes "answers (fetch prefix delimiter) entries prefixes"
  shows "\<exists>rows children. list_object_entries_with_prefixes fetch prefix delimiter = Some (Ok (rows, children)) \<and>
    set rows = entries \<and> distinct rows \<and> set children = prefixes"
  using assms list_pages_chain [of "fetch prefix delimiter" None _ "[]" "[]"]
  by (auto simp: answers_def list_object_entries_with_prefixes_def)

lemma key_reached:
  fixes objects :: "object_entry list"
  assumes "\<And>p. set (children p) = {common. \<exists>o1 \<in> set objects. rolled_up p (oe_key o1) common}"
    and "p \<in> reach children root" and "o1 \<in> set objects" and "oe_key o1 = p @ rest"
  shows "\<exists>p' \<in> reach children root. under p' (oe_key o1)"
  using assms(2,4)
proof (induction "length rest" arbitrary: p rest rule: less_induct)
  case less
  show ?case
  proof (cases "slash \<in> set rest")
    case False
    then show ?thesis using less.prems by (auto simp: under_def)
  next
    case True
    then obtain segment tail where r: "rest = segment @ slash # tail" "slash \<notin> set segment"
      by (meson split_list_first)
    then have "rolled_up p (oe_key o1) (p @ segment @ [slash])"
      using less.prems(2) by (auto simp: rolled_up_def)
    then have "p @ segment @ [slash] \<in> reach children root"
      using reach_step [OF less.prems(1)] assms(1,3) by blast
    then show ?thesis
      using less.hyps [of tail "p @ segment @ [slash]"] less.prems(2) r by simp
  qed
qed

lemma reach_bound:
  fixes objects :: "object_entry list"
  assumes "\<And>p. set (children p) = {common. \<exists>o1 \<in> set objects. rolled_up p (oe_key o1) common}"
  shows "finite (reach children root) \<and>
    card (reach children root) \<le> Suc (sum_list (map (\<lambda>o1. length (oe_key o1)) objects))"
proof -
  let ?front = "\<lambda>k :: string. (\<lambda>n. take (Suc n) k) ` {..<length k}"
  let ?S = "insert root (\<Union>o1 \<in> set objects. ?front (oe_key o1))"
  have sub: "reach children root \<subseteq> ?S"
  proof
    fix p assume "p \<in> reach children root"
    then show "p \<in> ?S"
    proof (rule reach_least)
      fix q assume "q \<in> ?S"
      show "set (children q) \<subseteq> ?S"
      proof
        fix c assume "c \<in> set (children q)"
        then obtain o1 segment rest where o1: "o1 \<in> set objects" and k: "oe_key o1 = q @ segment @ slash # rest"
          and c: "c = q @ segment @ [slash]"
          using assms by (auto simp: rolled_up_def)
        have "c = take (Suc (length (q @ segment))) (oe_key o1)" and "length (q @ segment) < length (oe_key o1)"
          using k c by simp_all
        then have "c \<in> ?front (oe_key o1)" by blast
        then show "c \<in> ?S" using o1 by blast
      qed
    qed simp
  qed
  have card: "card (\<Union>o1 \<in> set os. ?front (oe_key o1)) \<le> sum_list (map (\<lambda>o1. length (oe_key o1)) os)"
    for os :: "object_entry list"
  proof (induction os)
    case (Cons o1 os)
    have "card (?front (oe_key o1)) \<le> length (oe_key o1)"
      by (metis card_image_le card_lessThan finite_lessThan)
    then show ?case
      using Cons card_Un_le [of "?front (oe_key o1)" "\<Union>o1 \<in> set os. ?front (oe_key o1)"] by simp
  qed simp
  have fin: "finite (\<Union>o1 \<in> set objects. ?front (oe_key o1))" by simp
  have "card ?S \<le> Suc (card (\<Union>o1 \<in> set objects. ?front (oe_key o1)))" by (rule card_insert_le_m1) simp_all
  then have "card ?S \<le> Suc (sum_list (map (\<lambda>o1. length (oe_key o1)) objects))"
    using card [of objects] by simp
  then show ?thesis using sub fin by (meson card_mono finite.insertI finite_subset order_trans)
qed

lemma scans_bucket:
  assumes "lists_bucket fetch objects" and "0 < limit"
    and "sum_list (map (\<lambda>o1. length (oe_key o1)) objects) < length schedule"
  shows "\<exists>all. scan_prefixes (\<lambda>p. list_object_entries_with_prefixes fetch (Some p) (Some [slash])) limit schedule
      [root] {} [] [] = Some (Ok all) \<and>
    set all = {o1 \<in> set objects. starts_with root (oe_key o1)}"
proof -
  let ?scan = "\<lambda>p. list_object_entries_with_prefixes fetch (Some p) (Some [slash])"
  have "\<forall>p. \<exists>rows children. ?scan p = Some (Ok (rows, children)) \<and>
      set rows = {o1 \<in> set objects. under p (oe_key o1)} \<and>
      set children = {common. \<exists>o1 \<in> set objects. rolled_up p (oe_key o1) common}"
    using assms(1) scan_answers [of fetch "Some _" "Some [slash]"] unfolding lists_bucket_def by meson
  then obtain rows children where scan: "\<And>p. ?scan p = Some (Ok (rows p, children p))"
    and rows: "\<And>p. set (rows p) = {o1 \<in> set objects. under p (oe_key o1)}"
    and children: "\<And>p. set (children p) = {common. \<exists>o1 \<in> set objects. rolled_up p (oe_key o1) common}"
    by metis
  note bound = reach_bound [OF children, of root]
  have start: "scanning_prefixes rows children root [root] {} [] []"
    by (simp add: scanning_prefixes_def)
  obtain all where all: "scan_prefixes ?scan limit schedule [root] {} [] [] = Some (Ok all)"
    and "set all = (\<Union>p \<in> reach children root. set (rows p))"
    using scan_prefixes_all [OF start, of ?scan limit schedule] scan bound assms(2,3) by auto
  moreover have "(\<Union>p \<in> reach children root. set (rows p)) = {o1 \<in> set objects. starts_with root (oe_key o1)}"
  proof (intro set_eqI iffI)
    fix o1 assume "o1 \<in> (\<Union>p \<in> reach children root. set (rows p))"
    then obtain p where p: "p \<in> reach children root" and o1: "o1 \<in> set objects" "under p (oe_key o1)"
      using rows by auto
    have "p \<in> {p. starts_with root p}"
      by (rule reach_least [OF p]) (auto simp: starts_with_iff children rolled_up_def)
    then show "o1 \<in> {o1 \<in> set objects. starts_with root (oe_key o1)}"
      using o1 by (auto simp: under_def starts_with_iff)
  next
    fix o1 assume "o1 \<in> {o1 \<in> set objects. starts_with root (oe_key o1)}"
    then show "o1 \<in> (\<Union>p \<in> reach children root. set (rows p))"
      using key_reached [OF children reach_root] rows by (auto simp: starts_with_iff)
  qed
  ultimately show ?thesis by metis
qed

section \<open>The result\<close>

lemma set_dedup_key: "inj_on f (set xs) \<Longrightarrow> set (dedup_key f xs) = set xs"
proof (induction f xs rule: dedup_key.induct)
  case (3 f x y xs)
  then show ?case
  proof (cases "f x = f y")
    case True
    then have "x = y" using "3.prems" by (auto dest: inj_onD)
    then show ?thesis using 3 True by (auto simp: inj_on_insert)
  next
    case False
    then show ?thesis using 3 by (auto simp: inj_on_insert)
  qed
qed simp_all

lemma dedup_key_hd: "xs \<noteq> [] \<Longrightarrow> dedup_key f xs \<noteq> [] \<and> f (hd (dedup_key f xs)) = f (hd xs)"
  by (induction f xs rule: dedup_key.induct) auto

lemma dedup_key_subset: "set (dedup_key f xs) \<subseteq> set xs"
  by (induction f xs rule: dedup_key.induct) auto

lemma dedup_key_strict:
  "sorted (map f xs) \<Longrightarrow> sorted_wrt (\<lambda>x y. f x < f y) (dedup_key f xs)"
  for f :: "'a \<Rightarrow> 'k :: linorder"
proof (induction f xs rule: dedup_key.induct)
  case (3 f x y xs)
  show ?case
  proof (cases "f x = f y")
    case True
    then show ?thesis using 3 by auto
  next
    case False
    then have "f x < f z" if "z \<in> set (y # xs)" for z using "3.prems" that by (auto simp: less_le_trans)
    then show ?thesis using 3 False dedup_key_subset [of f "y # xs"] by auto
  qed
qed simp_all

lemma sorted_unique:
  fixes f :: "'a \<Rightarrow> 'k :: linorder"
  assumes "inj_on f S" and "set xs = S" "sorted (map f xs)" "distinct xs"
    and "set ys = S" "sorted (map f ys)" "distinct ys"
  shows "xs = ys"
  by (rule map_sorted_distinct_set_unique [of f]) (use assms in \<open>simp_all add: distinct_map\<close>)

lemma strict_sorted_distinct:
  fixes f :: "'a \<Rightarrow> 'k :: linorder"
  assumes "sorted_wrt (\<lambda>x y. f x < f y) xs"
  shows "sorted (map f xs)" and "distinct xs"
  using assms by (induction xs) (auto simp: less_imp_le)

definition objects_below :: "object_entry list \<Rightarrow> string option \<Rightarrow> object_entry list" where
  "objects_below objects prefix =
     sort_key oe_key (List.filter (\<lambda>o1. starts_with (unwrap_or_empty prefix) (oe_key o1)) objects)"

lemma listing_complete:
  assumes "lists_bucket fetch objects" and "distinct (map oe_key objects)"
    and "sum_list (map (\<lambda>o1. length (oe_key o1)) objects) < length schedule"
  shows "list_object_entries_recursive fetch schedule prefix hierarchical concurrency =
    Some (Ok (objects_below objects prefix))"
proof -
  let ?S = "{o1 \<in> set objects. starts_with (unwrap_or_empty prefix) (oe_key o1)}"
  have inj: "inj_on oe_key ?S" using assms(2) by (auto simp: distinct_map inj_on_def)
  have ref: "set (objects_below objects prefix) = ?S" "sorted (map oe_key (objects_below objects prefix))"
    "distinct (objects_below objects prefix)"
    using assms(2) by (auto simp: objects_below_def distinct_map)
  show ?thesis
  proof (cases hierarchical)
    case True
    have "0 < max 1 concurrency" by simp
    then obtain all where all: "scan_prefixes (\<lambda>p. list_object_entries_with_prefixes fetch (Some p) (Some [slash]))
        (max 1 concurrency) schedule [unwrap_or_empty prefix] {} [] [] = Some (Ok all)" and set: "set all = ?S"
      using scans_bucket [OF assms(1) _ assms(3)] by blast
    let ?r = "dedup_key oe_key (sort_key oe_key all)"
    have "set ?r = ?S" using set_dedup_key [of oe_key "sort_key oe_key all"] inj set by simp
    moreover have "sorted_wrt (\<lambda>x y. oe_key x < oe_key y) ?r" by (rule dedup_key_strict) simp
    ultimately have "?r = objects_below objects prefix"
      using sorted_unique [OF inj _ _ _ ref] strict_sorted_distinct by blast
    then show ?thesis using True all by (simp add: list_object_entries_recursive_def)
  next
    case False
    obtain pages where "listing_chain (fetch prefix None) None pages"
      and set: "set (concat (map lp_entries pages)) = ?S" and d: "distinct (concat (map lp_entries pages))"
      using assms(1) unfolding lists_bucket_def answers_def by blast
    then have "list_object_entries fetch prefix None = Some (Ok (sort_key oe_key (concat (map lp_entries pages))))"
      using list_pages_chain [of "fetch prefix None" None pages "[]" "[]"] by (simp add: list_object_entries_def)
    moreover have "sort_key oe_key (concat (map lp_entries pages)) = objects_below objects prefix"
      by (rule sorted_unique [OF inj _ _ _ ref]) (use set d in simp_all)
    ultimately show ?thesis using False by (simp add: list_object_entries_recursive_def)
  qed
qed

text \<open>C19: against a bucket that does not change, a recursive listing ends and returns exactly
  the objects below the prefix in key order, whether it asks for the flat listing or walks
  the common prefixes, for every concurrency limit and completion order.\<close>

theorem recursive_listing_complete:
  assumes "lists_bucket fetch objects" and "distinct (map oe_key objects)"
    and "sum_list (map (\<lambda>o1. length (oe_key o1)) objects) < length schedule"
  shows "list_object_keys_recursive fetch schedule prefix hierarchical concurrency =
    Some (Ok (map oe_key (objects_below objects prefix)))"
  using listing_complete [OF assms] by (simp add: list_object_keys_recursive_def)

definition demo_object :: "string \<Rightarrow> object_entry" where
  "demo_object key = \<lparr>oe_key = key, oe_size = 1, oe_last_modified = None, oe_etag = None, oe_storage_class = None\<rparr>"

definition demo_page :: "object_entry list \<Rightarrow> string list \<Rightarrow> list_page" where
  "demo_page entries prefixes =
     \<lparr>lp_entries = entries, lp_prefixes = prefixes, lp_is_truncated = False, lp_next_token = None\<rparr>"

text \<open>A service that answers from a list of objects on one page.\<close>

definition demo_rolled :: "string \<Rightarrow> string \<Rightarrow> string option" where
  "demo_rolled prefix key =
     (case strip_prefix prefix key of
        None \<Rightarrow> None
      | Some rest \<Rightarrow> map_option (\<lambda>(segment, _). prefix @ segment @ [slash]) (split_once slash rest))"

definition demo_fetch :: "object_entry list \<Rightarrow> list_objects" where
  "demo_fetch objects prefix delimiter token =
     (case delimiter of
        None \<Rightarrow> Ok (demo_page (List.filter (\<lambda>o1. starts_with (unwrap_or_empty prefix) (oe_key o1)) objects) [])
      | Some _ \<Rightarrow> Ok (demo_page
          (List.filter (\<lambda>o1. starts_with (unwrap_or_empty prefix) (oe_key o1) \<and>
             demo_rolled (unwrap_or_empty prefix) (oe_key o1) = None) objects)
          (List.map_filter (\<lambda>o1. demo_rolled (unwrap_or_empty prefix) (oe_key o1)) objects)))"

lemma demo_rolled_up: "demo_rolled prefix key = Some common \<longleftrightarrow> rolled_up prefix key common"
  by (auto simp: demo_rolled_def rolled_up_def strip_prefix_Some split_once_Some split: option.splits)

lemma demo_under: "under prefix key \<longleftrightarrow> starts_with prefix key \<and> demo_rolled prefix key = None"
  by (auto simp: demo_rolled_def under_def starts_with_def strip_prefix_Some split_once_None split: option.splits)

lemma demo_lists: "distinct objects \<Longrightarrow> lists_bucket (demo_fetch objects) objects"
proof -
  assume d: "distinct objects"
  have one: "answers fetch (set es) (set ps)" if "fetch None = Ok (demo_page es ps)" "distinct es" for fetch es ps
    unfolding answers_def by (rule exI [of _ "[demo_page es ps]"]) (use that in \<open>simp add: demo_page_def\<close>)
  show ?thesis
    unfolding lists_bucket_def
  proof (intro conjI allI)
    fix prefix
    show "answers (demo_fetch objects prefix None)
        {o1 \<in> set objects. starts_with (unwrap_or_empty prefix) (oe_key o1)} {}"
      using one [of "demo_fetch objects prefix None"
          "List.filter (\<lambda>o1. starts_with (unwrap_or_empty prefix) (oe_key o1)) objects" "[]"] d
      by (simp add: demo_fetch_def)
  next
    fix prefix
    let ?es = "List.filter (\<lambda>o1. starts_with prefix (oe_key o1) \<and> demo_rolled prefix (oe_key o1) = None) objects"
    let ?ps = "List.map_filter (\<lambda>o1. demo_rolled prefix (oe_key o1)) objects"
    have "set ?es = {o1 \<in> set objects. under prefix (oe_key o1)}" by (auto simp: demo_under)
    moreover have "set ?ps = {common. \<exists>o1 \<in> set objects. rolled_up prefix (oe_key o1) common}"
      by (force simp: List.map_filter_def demo_rolled_up [symmetric])
    moreover have "answers (demo_fetch objects (Some prefix) (Some [slash])) (set ?es) (set ?ps)"
      by (rule one) (use d in \<open>simp_all add: demo_fetch_def unwrap_or_empty_def\<close>)
    ultimately show "answers (demo_fetch objects (Some prefix) (Some [slash]))
        {o1 \<in> set objects. under prefix (oe_key o1)}
        {common. \<exists>o1 \<in> set objects. rolled_up prefix (oe_key o1) common}" by simp
  qed
qed

theorem recursive_listing_complete_witness:
  "list_object_keys_recursive (demo_fetch (map demo_object [''p/b/c'', ''p/a'', ''q'']))
     [1, 0, 0, 0, 0, 0, 0, 0, 0, 0, 0] (Some ''p/'') True 2 = Some (Ok [''p/a'', ''p/b/c''])"
proof -
  let ?os = "map demo_object [''p/b/c'', ''p/a'', ''q'']"
  have l: "lists_bucket (demo_fetch ?os) ?os" by (rule demo_lists) (simp add: demo_object_def)
  have d: "distinct (map oe_key ?os)"
    and n: "sum_list (map (\<lambda>o1. length (oe_key o1)) ?os) < length [1, 0, 0, 0, 0, 0, 0, 0, 0, 0, 0 :: nat]"
    by (simp_all add: demo_object_def)
  have "map oe_key (objects_below ?os (Some ''p/'')) = [''p/a'', ''p/b/c'']" by code_simp
  then show ?thesis using recursive_listing_complete [OF l d n, of "Some ''p/''" True 2] by simp
qed

end
