(* ===== verification/Tos_Delete.thy ===== *)
theory Tos_Delete
  imports Tos_Filter Tos_Listing
begin

text \<open>
  Recursive deletion below a TOS prefix (\<open>crates/tos/src/handler/high_level.rs\<close>): the order
  of the keys, the batches of concurrent requests and the report of their outcomes. The
  service is a state machine \<open>svc\<close>, whose state changes when a request completes; the
  completion order is the choice \<open>pick\<close>; \<open>rows\<close> is the outcome of writing a report row.
\<close>

section \<open>The report\<close>

record batch_item =
  bi_operation :: string
  bi_source :: string
  bi_destination :: "string option"
  bi_error :: "cli_error option"

record batch_report =
  br_planned :: nat
  br_succeeded :: "batch_item list"
  br_failed :: "batch_item list"
  br_skipped :: "batch_item list"

definition batch_report_new :: "nat \<Rightarrow> batch_report" where
  "batch_report_new planned = \<lparr>br_planned = planned, br_succeeded = [], br_failed = [], br_skipped = []\<rparr>"

definition record_success :: "string \<Rightarrow> string \<Rightarrow> string option \<Rightarrow> batch_report \<Rightarrow> batch_report" where
  "record_success operation source destination report =
     report\<lparr>br_succeeded := br_succeeded report @
       [\<lparr>bi_operation = operation, bi_source = source, bi_destination = destination, bi_error = None\<rparr>]\<rparr>"

definition record_failure ::
  "string \<Rightarrow> string \<Rightarrow> string option \<Rightarrow> cli_error \<Rightarrow> batch_report \<Rightarrow> batch_report" where
  "record_failure operation source destination err report =
     report\<lparr>br_failed := br_failed report @
       [\<lparr>bi_operation = operation, bi_source = source, bi_destination = destination, bi_error = Some err\<rparr>]\<rparr>"

definition record_skipped :: "string \<Rightarrow> string \<Rightarrow> string option \<Rightarrow> batch_report \<Rightarrow> batch_report" where
  "record_skipped operation source destination report =
     report\<lparr>br_skipped := br_skipped report @
       [\<lparr>bi_operation = operation, bi_source = source, bi_destination = destination, bi_error = None\<rparr>]\<rparr>"

section \<open>The order of the keys\<close>

definition key_depth :: "string \<Rightarrow> nat" where
  "key_depth key = length (List.filter (\<lambda>s. s \<noteq> []) (split_on slash (trim_end_of slash key)))"

text \<open>Deeper keys first, then longer ones, then by name.\<close>

definition bottom_up_before :: "string \<Rightarrow> string \<Rightarrow> bool" where
  "bottom_up_before left right \<longleftrightarrow>
     key_depth right < key_depth left \<or>
     key_depth right = key_depth left \<and>
       (length right < length left \<or> length right = length left \<and> left \<le> right)"

fun insert_key :: "string \<Rightarrow> string list \<Rightarrow> string list" where
  "insert_key key [] = [key]"
| "insert_key key (k # keys) =
     (if bottom_up_before key k then key # k # keys else k # insert_key key keys)"

definition sort_keys_bottom_up :: "string list \<Rightarrow> string list" where
  "sort_keys_bottom_up keys = remdups_adj (foldr insert_key keys [])"

definition push_unique_key :: "string list \<Rightarrow> string \<Rightarrow> string list" where
  "push_unique_key keys key = (if key \<in> set keys then keys else keys @ [key])"

definition tos_delete_key_is_directory :: "string \<Rightarrow> bool" where
  "tos_delete_key_is_directory key = ends_with [slash] key"

section \<open>Batches\<close>

lemma fill_shrinks:
  assumes "(in_flight1, pending1) = fill c in_flight pending" and "in_flight1 \<noteq> []"
  shows "length (remove_at (k mod length in_flight1) in_flight1) + length pending1 < length in_flight + length pending"
proof -
  have "length in_flight + length pending = length in_flight1 + length pending1"
    using fill_append [OF assms(1) [symmetric]] by (metis length_append)
  moreover have "k mod length in_flight1 < length in_flight1" using assms(2) by simp
  ultimately show ?thesis by (simp add: remove_at_def)
qed

type_synonym 's delete_service = "'s \<Rightarrow> string \<Rightarrow> (unit, cli_error) result \<times> 's"
type_synonym row_writer = "string \<Rightarrow> (unit, cli_error) result \<Rightarrow> (unit, cli_error) result"

definition record_tos_key_delete_result ::
  "row_writer \<Rightarrow> string \<Rightarrow> (unit, cli_error) result \<Rightarrow> batch_report \<Rightarrow>
   (unit, cli_error) result \<times> batch_report" where
  "record_tos_key_delete_result rows uri result report =
     st_try (rows uri result, report) (\<lambda>_ report.
       case result of
         Ok _ \<Rightarrow> (Ok (), record_success ''delete'' uri None report)
       | Err err \<Rightarrow> (Ok (), record_failure ''delete'' uri None err report))"

function delete_tos_key_group ::
  "'s delete_service \<Rightarrow> row_writer \<Rightarrow> string \<Rightarrow> nat \<Rightarrow> (nat \<Rightarrow> nat) \<Rightarrow> nat \<Rightarrow> string list \<Rightarrow> string list \<Rightarrow>
   batch_report \<Rightarrow> 's \<Rightarrow> (nat, cli_error) result \<times> batch_report \<times> 's" where
  "delete_tos_key_group svc rows bucket batch_concurrency pick n in_flight pending report st =
     (case fill (max 1 batch_concurrency) in_flight pending of
        (in_flight1, pending1) \<Rightarrow>
          if in_flight1 = [] then (Ok n, report, st)
          else let i = pick n mod length in_flight1; key = in_flight1 ! i in
            (case svc st key of (result, st1) \<Rightarrow>
               (case record_tos_key_delete_result rows (object_uri bucket key) result report of
                  (Err e, report1) \<Rightarrow> (Err e, report1, st1)
                | (Ok _, report1) \<Rightarrow>
                    delete_tos_key_group svc rows bucket batch_concurrency pick (Suc n)
                      (remove_at i in_flight1) pending1 report1 st1)))"
  by pat_completeness auto
termination
  by (relation "measure (\<lambda>(svc, rows, bucket, c, pick, n, in_flight, pending, report, st).
      length in_flight + length pending)") (auto intro!: fill_shrinks)

declare delete_tos_key_group.simps [simp del]

text \<open>Directories of one depth form one batch; the batches run one after the other.\<close>

function delete_directory_groups ::
  "'s delete_service \<Rightarrow> row_writer \<Rightarrow> string \<Rightarrow> nat \<Rightarrow> (nat \<Rightarrow> nat) \<Rightarrow> nat \<Rightarrow> string list \<Rightarrow>
   batch_report \<Rightarrow> 's \<Rightarrow> (nat, cli_error) result \<times> batch_report \<times> 's" where
  "delete_directory_groups svc rows bucket batch_concurrency pick n [] report st = (Ok n, report, st)"
| "delete_directory_groups svc rows bucket batch_concurrency pick n (key # keys) report st =
     (case delete_tos_key_group svc rows bucket batch_concurrency pick n []
             (key # takeWhile (\<lambda>k. key_depth k = key_depth key) keys) report st of
        (Err e, report1, st1) \<Rightarrow> (Err e, report1, st1)
      | (Ok n1, report1, st1) \<Rightarrow>
          delete_directory_groups svc rows bucket batch_concurrency pick n1
            (dropWhile (\<lambda>k. key_depth k = key_depth key) keys) report1 st1)"
  by pat_completeness auto
termination
  by (relation "measure (\<lambda>(svc, rows, bucket, c, pick, n, keys, report, st). length keys)")
    (auto simp: less_Suc_eq_le length_dropWhile_le)

definition delete_tos_keys_bottom_up ::
  "'s delete_service \<Rightarrow> row_writer \<Rightarrow> string \<Rightarrow> nat \<Rightarrow> (nat \<Rightarrow> nat) \<Rightarrow> nat \<Rightarrow> string list \<Rightarrow>
   batch_report \<Rightarrow> 's \<Rightarrow> (nat, cli_error) result \<times> batch_report \<times> 's" where
  "delete_tos_keys_bottom_up svc rows bucket batch_concurrency pick n keys report st =
     (case delete_tos_key_group svc rows bucket batch_concurrency pick n []
             (List.filter (\<lambda>k. \<not> tos_delete_key_is_directory k) keys) report st of
        (Err e, report1, st1) \<Rightarrow> (Err e, report1, st1)
      | (Ok n1, report1, st1) \<Rightarrow>
          delete_directory_groups svc rows bucket batch_concurrency pick n1
            (sort_keys_bottom_up (List.filter tos_delete_key_is_directory keys)) report1 st1)"

text \<open>Keys that the filters exclude are recorded as skipped before anything is deleted.\<close>

definition skip_filtered ::
  "string \<Rightarrow> string option \<Rightarrow> string option \<Rightarrow> bool \<Rightarrow> string list \<Rightarrow> batch_report \<Rightarrow>
   string list \<times> batch_report" where
  "skip_filtered bucket include exclude increment_planned keys report =
     fold (\<lambda>key (delete_keys, report).
       let report = (if increment_planned then report\<lparr>br_planned := Suc (br_planned report)\<rparr> else report)
       in if \<not> pattern_allows key include exclude
          then (delete_keys, record_skipped ''delete'' (object_uri bucket key) None report)
          else (delete_keys @ [key], report)) keys ([], report)"

definition delete_tos_keys_for_rm ::
  "'s delete_service \<Rightarrow> row_writer \<Rightarrow> string \<Rightarrow> string option \<Rightarrow> string option \<Rightarrow> bool \<Rightarrow> nat \<Rightarrow>
   (nat \<Rightarrow> nat) \<Rightarrow> bool \<Rightarrow> string list \<Rightarrow> batch_report \<Rightarrow> 's \<Rightarrow>
   (unit, cli_error) result \<times> batch_report \<times> 's" where
  "delete_tos_keys_for_rm svc rows bucket include exclude bottom_up batch_concurrency pick increment_planned keys report st =
     (case skip_filtered bucket include exclude increment_planned keys report of
        (delete_keys, report) \<Rightarrow>
          (case (if bottom_up
                 then delete_tos_keys_bottom_up svc rows bucket batch_concurrency pick 0 delete_keys report st
                 else delete_tos_key_group svc rows bucket batch_concurrency pick 0 [] delete_keys report st) of
             (Err e, report, st) \<Rightarrow> (Err e, report, st)
           | (Ok _, report, st) \<Rightarrow> (Ok (), report, st)))"

section \<open>The command\<close>

text \<open>
  \<open>rm --recursive\<close> with a manifest: the target is normalized to a prefix, the keys below it
  are listed, the manifest is written (\<open>manifest\<close>), and the keys are deleted. \<open>list_bucket\<close>
  is the listing of the bucket.
\<close>

record rm_args =
  rm_path :: string
  rm_include :: "string option"
  rm_exclude :: "string option"
  rm_bottom_up :: bool
  rm_hierarchical :: bool
  rm_list_concurrency :: nat
  rm_batch_concurrency :: nat

definition rm_recursive ::
  "list_objects \<Rightarrow> nat list \<Rightarrow> (string list \<Rightarrow> (unit, cli_error) result) \<Rightarrow> 's delete_service \<Rightarrow> row_writer \<Rightarrow>
   (nat \<Rightarrow> nat) \<Rightarrow> rm_args \<Rightarrow> 's \<Rightarrow> ((batch_report, cli_error) result \<times> 's) option" where
  "rm_recursive fetch schedule manifest svc rows pick args st =
     (case parse_tos_uri (rm_path args) True of
        Err e \<Rightarrow> Some (Err e, st)
      | Ok parsed \<Rightarrow>
          let target = normalize_recursive_tos_target parsed; prefix = tu_key target in
          (case list_object_keys_recursive fetch schedule prefix (rm_hierarchical args) (rm_list_concurrency args) of
             None \<Rightarrow> None
           | Some (Err e) \<Rightarrow> Some (Err e, st)
           | Some (Ok listed) \<Rightarrow>
               let keys = (if rm_bottom_up args
                           then sort_keys_bottom_up (case prefix of Some key \<Rightarrow> push_unique_key listed key | None \<Rightarrow> listed)
                           else listed)
               in (case manifest (List.filter (\<lambda>k. pattern_allows k (rm_include args) (rm_exclude args)) keys) of
                     Err e \<Rightarrow> Some (Err e, st)
                   | Ok _ \<Rightarrow>
                       (case delete_tos_keys_for_rm svc rows (tu_bucket target) (rm_include args) (rm_exclude args)
                               (rm_bottom_up args) (rm_batch_concurrency args) pick False keys
                               (batch_report_new (length keys)) st of
                          (Err e, report, st1) \<Rightarrow> Some (Err e, st1)
                        | (Ok _, report, st1) \<Rightarrow> Some (Ok report, st1)))))"

definition rm_exit_code :: "batch_report \<Rightarrow> int" where
  "rm_exit_code report = (if br_failed report = [] then 0 else 1)"

section \<open>Depth and order\<close>

lemma key_depth_segments: "key_depth key = length (key_segments key)"
  by (simp add: key_depth_def key_segments_def split_trim_end)

definition beneath :: "string \<Rightarrow> string \<Rightarrow> bool" where
  "beneath directory key \<longleftrightarrow>
     ends_with [slash] directory \<and> starts_with directory key \<and> key \<noteq> directory"

definition no_empty_segment :: "string \<Rightarrow> bool" where
  "no_empty_segment key \<longleftrightarrow> [] \<notin> set (butlast (split_on slash key))"

lemma beneath_deeper:
  assumes "beneath directory key" and "no_empty_segment key"
  shows "key_depth directory < key_depth key"
proof -
  obtain x where d: "directory = x @ [slash]" using assms(1) by (auto simp: beneath_def ends_with_iff)
  obtain r where k: "key = x @ slash # r" using assms(1) d by (auto simp: beneath_def starts_with_iff)
  have r: "r \<noteq> []" using assms(1) d k by (auto simp: beneath_def)
  have "key_segments r \<noteq> []"
  proof
    assume e: "key_segments r = []"
    then obtain r' where "r = slash # r'"
      using r key_segments_Nil [OF e] by (cases r) auto
    then have "split_on slash key = split_on slash x @ [] # split_on slash r'"
      by (simp add: k split_on_mid)
    then have "[] \<in> set (butlast (split_on slash key))" by (simp add: butlast_append)
    then show False using assms(2) by (simp add: no_empty_segment_def)
  qed
  then show ?thesis by (simp add: key_depth_segments d k key_segments_def split_on_mid)
qed

lemma mset_insert_key: "mset (insert_key k ks) = add_mset k (mset ks)"
  by (induction ks) auto

lemma mset_foldr_insert_key: "mset (foldr insert_key ks []) = mset ks"
  by (induction ks) (auto simp: mset_insert_key)

lemma set_sort_keys [simp]: "set (sort_keys_bottom_up ks) = set ks"
  by (metis mset_foldr_insert_key remdups_adj_set set_mset_mset sort_keys_bottom_up_def)

definition by_depth :: "string list \<Rightarrow> bool" where
  "by_depth keys \<longleftrightarrow> sorted_wrt (\<lambda>a b. key_depth b \<le> key_depth a) keys"

lemma by_depth_insert_key: "by_depth ks \<Longrightarrow> by_depth (insert_key k ks)"
proof (induction ks)
  case Nil
  then show ?case by (simp add: by_depth_def)
next
  case (Cons x ks)
  have "set (insert_key k ks) = insert k (set ks)"
    by (metis mset_insert_key set_mset_add_mset_insert set_mset_mset)
  then show ?case
    using Cons by (auto simp: by_depth_def bottom_up_before_def)
qed

lemma sort_keys_bottom_up_facts:
  assumes "distinct keys"
  shows "set (sort_keys_bottom_up keys) = set keys" and "distinct (sort_keys_bottom_up keys)"
    and "by_depth (sort_keys_bottom_up keys)"
proof -
  have m: "mset (foldr insert_key keys []) = mset keys" by (rule mset_foldr_insert_key)
  then have "distinct (foldr insert_key keys [])" using assms by (metis mset_eq_imp_distinct_iff)
  then have e: "sort_keys_bottom_up keys = foldr insert_key keys []"
    by (simp add: sort_keys_bottom_up_def remdups_adj_distinct)
  show "set (sort_keys_bottom_up keys) = set keys" using m e by (metis set_mset_mset)
  show "distinct (sort_keys_bottom_up keys)" using \<open>distinct (foldr insert_key keys [])\<close> e by simp
  have "by_depth (foldr insert_key keys [])"
    by (induction keys) (simp_all add: by_depth_insert_key, simp add: by_depth_def)
  then show "by_depth (sort_keys_bottom_up keys)" using e by simp
qed

section \<open>A batch whose keys can all be deleted\<close>

text \<open>The contract of a hierarchical bucket: a key is deleted when nothing is stored beneath it.\<close>

definition hns_delete :: "'s delete_service \<Rightarrow> ('s \<Rightarrow> string set) \<Rightarrow> bool" where
  "hns_delete svc stored \<longleftrightarrow>
     (\<forall>st key. key \<in> stored st \<longrightarrow> (\<forall>k \<in> stored st. \<not> beneath key k) \<longrightarrow>
        fst (svc st key) = Ok () \<and> stored (snd (svc st key)) = stored st - {key})"

definition deleted_rows :: "string \<Rightarrow> string list \<Rightarrow> batch_report \<Rightarrow> batch_report \<Rightarrow> bool" where
  "deleted_rows bucket keys report report' \<longleftrightarrow>
     br_planned report' = br_planned report \<and> br_failed report' = br_failed report \<and>
     br_skipped report' = br_skipped report \<and>
     mset (map bi_source (br_succeeded report')) =
       mset (map bi_source (br_succeeded report)) + mset (map (object_uri bucket) keys)"

lemma deleted_rows_Nil: "deleted_rows bucket [] report report"
  by (simp add: deleted_rows_def)

lemma deleted_rows_trans:
  "deleted_rows bucket xs r1 r2 \<Longrightarrow> deleted_rows bucket ys r2 r3 \<Longrightarrow> mset zs = mset xs + mset ys \<Longrightarrow>
   deleted_rows bucket zs r1 r3"
  unfolding deleted_rows_def mset_map by (simp add: ac_simps)

definition no_row_fails :: "row_writer \<Rightarrow> bool" where
  "no_row_fails rows \<longleftrightarrow> (\<forall>uri result. rows uri result = Ok ())"

lemma delete_group_all:
  assumes "hns_delete svc stored" and "no_row_fails rows"
    and "distinct (in_flight @ pending)" and "set (in_flight @ pending) \<subseteq> stored st"
    and "\<And>key k. key \<in> set (in_flight @ pending) \<Longrightarrow> k \<in> stored st \<Longrightarrow> \<not> beneath key k"
  shows "\<exists>n' report' st'.
    delete_tos_key_group svc rows bucket c pick n in_flight pending report st = (Ok n', report', st') \<and>
    stored st' = stored st - set (in_flight @ pending) \<and> deleted_rows bucket (in_flight @ pending) report report'"
  using assms(3-5)
proof (induction "length in_flight + length pending" arbitrary: in_flight pending n report st rule: less_induct)
  case less
  obtain fl pd where f: "fill (max 1 c) in_flight pending = (fl, pd)"
    by (cases "fill (max 1 c) in_flight pending") auto
  have app: "fl @ pd = in_flight @ pending" by (rule fill_append [OF f])
  show ?case
  proof (cases "fl = []")
    case True
    then have "pd = []" using fill_empty [of "max 1 c" in_flight pending pd] f by simp
    then have "in_flight = []" "pending = []" using app True by simp_all
    moreover from this have "delete_tos_key_group svc rows bucket c pick n in_flight pending report st = (Ok n, report, st)"
      using f True by (subst delete_tos_key_group.simps) simp
    ultimately show ?thesis by (simp add: deleted_rows_Nil)
  next
    case False
    define i where "i = pick n mod length fl"
    have i: "i < length fl" using False by (simp add: i_def)
    let ?key = "fl ! i"
    have m: "mset (in_flight @ pending) = add_mset ?key (mset (remove_at i fl @ pd))"
      using mset_remove_at [OF i] by (simp flip: app)
    have key: "?key \<in> set (in_flight @ pending)" using i by (simp flip: app)
    obtain r st1 where svc: "svc st ?key = (r, st1)" by (cases "svc st ?key") auto
    have "?key \<in> stored st" and "\<forall>k \<in> stored st. \<not> beneath ?key k"
      using less.prems(2,3) key by blast+
    then have r: "r = Ok ()" and st1: "stored st1 = stored st - {?key}"
      using assms(1) svc unfolding hns_delete_def by (metis fst_conv snd_conv)+
    let ?rep = "record_success ''delete'' (object_uri bucket ?key) None report"
    have rec: "record_tos_key_delete_result rows (object_uri bucket ?key) r report = (Ok (), ?rep)"
      using assms(2) r by (simp add: record_tos_key_delete_result_def no_row_fails_def)
    have step: "delete_tos_key_group svc rows bucket c pick n in_flight pending report st =
        delete_tos_key_group svc rows bucket c pick (Suc n) (remove_at i fl) pd ?rep st1"
      using f False svc rec by (subst delete_tos_key_group.simps) (simp add: i_def [symmetric] Let_def)
    have dist: "distinct (remove_at i fl @ pd)" and new: "set (in_flight @ pending) = insert ?key (set (remove_at i fl @ pd))"
      and fresh: "?key \<notin> set (remove_at i fl @ pd)"
      using m less.prems(1)
      by (metis mset_eq_imp_distinct_iff distinct.simps(2) mset.simps(2),
          metis set_mset_add_mset_insert set_mset_mset,
          metis mset_eq_imp_distinct_iff distinct.simps(2) mset.simps(2))
    have len: "length (remove_at i fl) + length pd < length in_flight + length pending"
      using fill_shrinks [of fl pd "max 1 c" in_flight pending "pick n"] f False by (simp add: i_def)
    have sub: "set (remove_at i fl @ pd) \<subseteq> stored st1"
      using less.prems(2) new fresh st1 by blast
    have free: "\<And>key k. key \<in> set (remove_at i fl @ pd) \<Longrightarrow> k \<in> stored st1 \<Longrightarrow> \<not> beneath key k"
      using less.prems(3) new st1 by blast
    from less.hyps [OF len dist sub free, of "Suc n" ?rep] step
    obtain n' report' st' where run: "delete_tos_key_group svc rows bucket c pick n in_flight pending report st = (Ok n', report', st')"
      and stored: "stored st' = stored st1 - set (remove_at i fl @ pd)"
      and rows: "deleted_rows bucket (remove_at i fl @ pd) ?rep report'" by auto
    have "deleted_rows bucket [?key] report ?rep" by (simp add: deleted_rows_def record_success_def)
    then have "deleted_rows bucket (in_flight @ pending) report report'"
      using deleted_rows_trans [OF _ rows] m by simp
    moreover have "stored st' = stored st - set (in_flight @ pending)"
      using stored st1 new by blast
    ultimately show ?thesis using run by blast
  qed
qed

definition well_named :: "string set \<Rightarrow> bool" where
  "well_named keys \<longleftrightarrow> (\<forall>k \<in> keys. no_empty_segment k)"

definition closed_below :: "string set \<Rightarrow> string list \<Rightarrow> bool" where
  "closed_below all keys \<longleftrightarrow> (\<forall>key \<in> set keys. \<forall>k \<in> all. beneath key k \<longrightarrow> k \<in> set keys)"

lemma delete_directories_all:
  assumes "hns_delete svc stored" and "no_row_fails rows" and "well_named (stored st)"
    and "distinct keys" and "set keys \<subseteq> stored st" and "by_depth keys"
    and "closed_below (stored st) keys"
  shows "\<exists>n' report' st'.
    delete_directory_groups svc rows bucket c pick n keys report st = (Ok n', report', st') \<and>
    stored st' = stored st - set keys \<and> deleted_rows bucket keys report report'"
  using assms(3-7)
proof (induction "length keys" arbitrary: keys n report st rule: less_induct)
  case less
  show ?case
  proof (cases keys)
    case Nil
    then show ?thesis by (simp add: deleted_rows_Nil)
  next
    case (Cons d ds)
    let ?now = "d # takeWhile (\<lambda>k. key_depth k = key_depth d) ds"
    let ?later = "dropWhile (\<lambda>k. key_depth k = key_depth d) ds"
    have split: "keys = ?now @ ?later" using Cons by simp
    have dist: "distinct ?now" "distinct ?later" "set ?now \<inter> set ?later = {}"
      using less.prems(2) split by (metis distinct_append)+
    have sub: "set ?now \<subseteq> stored st" "set ?later \<subseteq> stored st"
      using less.prems(3) split by (metis le_sup_iff set_append)+
    have deepest: "key_depth k \<le> key_depth d" if "k \<in> set keys" for k
      using less.prems(4) that Cons by (auto simp: by_depth_def)
    have free: "\<not> beneath key k" if "key \<in> set ([] @ ?now)" "k \<in> stored st" for key k
    proof
      assume b: "beneath key k"
      have "key \<in> set keys" and "key_depth key = key_depth d"
        using that(1) split by (auto simp: dest: set_takeWhileD)
      then show False
        using beneath_deeper [OF b] deepest [of k] less.prems(1,5) that(2) b
        by (fastforce simp: well_named_def closed_below_def)
    qed
    obtain n1 report1 st1 where now: "delete_tos_key_group svc rows bucket c pick n [] ?now report st = (Ok n1, report1, st1)"
      and st1: "stored st1 = stored st - set ?now" and rows1: "deleted_rows bucket ?now report report1"
      using delete_group_all [OF assms(1,2), of "[]" ?now st bucket c pick n report] dist(1) sub(1) free by auto
    have len: "length ?later < length keys"
      using length_dropWhile_le [of _ ds] Cons by (simp add: less_Suc_eq_le)
    have wf: "well_named (stored st1)" using less.prems(1) st1 by (simp add: well_named_def)
    have sub1: "set ?later \<subseteq> stored st1" using sub(2) dist(3) st1 by blast
    have depth: "by_depth ?later"
      using less.prems(4) split unfolding by_depth_def by (metis sorted_wrt_append)
    have closed: "closed_below (stored st1) ?later"
      using less.prems(5) st1 split unfolding closed_below_def by (metis Diff_iff Un_iff set_append)
    from less.hyps [OF len wf dist(2) sub1 depth closed, of n1 report1]
    obtain n' report' st' where later: "delete_directory_groups svc rows bucket c pick n1 ?later report1 st1 = (Ok n', report', st')"
      and st': "stored st' = stored st1 - set ?later" and rows2: "deleted_rows bucket ?later report1 report'" by auto
    have "delete_directory_groups svc rows bucket c pick n keys report st = (Ok n', report', st')"
      using Cons now later by simp
    moreover have "deleted_rows bucket keys report report'"
      by (rule deleted_rows_trans [OF rows1 rows2]) (metis mset_append split)
    moreover have "stored st' = stored st - set keys"
    proof -
      have "set keys = set ?now \<union> set ?later" using arg_cong [OF split, of set] by (simp only: set_append)
      then show ?thesis using st' st1 by (simp only: Diff_eq Un_Int_eq Compl_Un Int_assoc)
    qed
    ultimately show ?thesis by blast
  qed
qed

lemma delete_bottom_up_all:
  assumes "hns_delete svc stored" and "no_row_fails rows" and "well_named (stored st)"
    and "distinct keys" and "set keys \<subseteq> stored st"
    and "closed_below (stored st) keys"
  shows "\<exists>n' report' st'.
    delete_tos_keys_bottom_up svc rows bucket c pick n keys report st = (Ok n', report', st') \<and>
    stored st' = stored st - set keys \<and> deleted_rows bucket keys report report'"
proof -
  let ?leaves = "List.filter (\<lambda>k. \<not> tos_delete_key_is_directory k) keys"
  let ?dirs = "List.filter tos_delete_key_is_directory keys"
  have free: "\<not> beneath key k" if "key \<in> set ([] @ ?leaves)" for key k
    using that by (simp add: beneath_def tos_delete_key_is_directory_def)
  obtain n1 report1 st1 where l: "delete_tos_key_group svc rows bucket c pick n [] ?leaves report st = (Ok n1, report1, st1)"
    and st1: "stored st1 = stored st - set ?leaves" and rows1: "deleted_rows bucket ?leaves report report1"
    using delete_group_all [OF assms(1,2), of "[]" ?leaves st bucket c pick n report] assms(4,5) free by auto
  have dd: "distinct ?dirs" using assms(4) by simp
  note s = sort_keys_bottom_up_facts [OF dd]
  have wf: "well_named (stored st1)" using assms(3) st1 by (simp add: well_named_def)
  have sub: "set (sort_keys_bottom_up ?dirs) \<subseteq> stored st1" using s(1) assms(5) st1 by auto
  have closed: "closed_below (stored st1) (sort_keys_bottom_up ?dirs)"
    using assms(6) st1 unfolding closed_below_def s(1) by auto
  obtain n' report' st' where d: "delete_directory_groups svc rows bucket c pick n1 (sort_keys_bottom_up ?dirs) report1 st1
      = (Ok n', report', st')"
    and st': "stored st' = stored st1 - set (sort_keys_bottom_up ?dirs)"
    and rows2: "deleted_rows bucket (sort_keys_bottom_up ?dirs) report1 report'"
    using delete_directories_all [where st = st1, OF assms(1,2) wf s(2) sub s(3) closed] by blast
  have "mset (sort_keys_bottom_up ?dirs) = mset ?dirs"
    using s(1,2) dd by (metis set_eq_iff_mset_eq_distinct)
  then have "mset keys = mset ?leaves + mset (sort_keys_bottom_up ?dirs)"
    by simp
  then have "deleted_rows bucket keys report report'" by (rule deleted_rows_trans [OF rows1 rows2])
  moreover have "stored st' = stored st - set keys" using st' st1 s(1) by auto
  ultimately show ?thesis using l d by (simp add: delete_tos_keys_bottom_up_def)
qed

lemma skip_nothing: "skip_filtered bucket None None False keys report = (keys, report)"
proof -
  have "fold (\<lambda>key (delete_keys, report).
       let report = (if False then report\<lparr>br_planned := Suc (br_planned report)\<rparr> else report)
       in if \<not> pattern_allows key None None
          then (delete_keys, record_skipped ''delete'' (object_uri bucket key) None report)
          else (delete_keys @ [key], report)) keys (front, report) = (front @ keys, report)" for front
    by (induction keys arbitrary: front) (simp_all add: pattern_allows_def)
  then show ?thesis by (simp only: skip_filtered_def append_Nil)
qed


section \<open>What a failing or filtered deletion leaves alone\<close>

text \<open>A request for one key removes at most that key.\<close>

definition deletes_only :: "'s delete_service \<Rightarrow> ('s \<Rightarrow> string set) \<Rightarrow> bool" where
  "deletes_only svc stored \<longleftrightarrow> (\<forall>st key. stored st - {key} \<subseteq> stored (snd (svc st key)))"

lemma delete_group_only:
  assumes "deletes_only svc stored"
    and "delete_tos_key_group svc rows bucket c pick n in_flight pending report st = (r, report', st')"
  shows "stored st - set (in_flight @ pending) \<subseteq> stored st'"
  using assms(2)
proof (induction "length in_flight + length pending" arbitrary: in_flight pending n report st rule: less_induct)
  case less
  obtain fl pd where f: "fill (max 1 c) in_flight pending = (fl, pd)"
    by (cases "fill (max 1 c) in_flight pending") auto
  have app: "fl @ pd = in_flight @ pending" by (rule fill_append [OF f])
  show ?case
  proof (cases "fl = []")
    case True
    then show ?thesis using less.prems f by (subst (asm) delete_tos_key_group.simps) auto
  next
    case False
    define i where "i = pick n mod length fl"
    have i: "i < length fl" using False by (simp add: i_def)
    let ?key = "fl ! i"
    obtain result st1 where svc: "svc st ?key = (result, st1)" by (cases "svc st ?key") auto
    obtain r1 report1 where rec: "record_tos_key_delete_result rows (object_uri bucket ?key) result report = (r1, report1)"
      by (cases "record_tos_key_delete_result rows (object_uri bucket ?key) result report") auto
    have st1: "stored st - {?key} \<subseteq> stored st1" using assms(1) svc unfolding deletes_only_def by (metis snd_conv)
    have key: "?key \<in> set (in_flight @ pending)" using i by (simp flip: app)
    show ?thesis
    proof (cases r1)
      case (Err e)
      then have "st' = st1"
        using less.prems f False svc rec
        by (subst (asm) delete_tos_key_group.simps) (simp add: i_def [symmetric] Let_def)
      then show ?thesis using st1 key by blast
    next
      case (Ok u)
      then have rest: "delete_tos_key_group svc rows bucket c pick (Suc n) (remove_at i fl) pd report1 st1 = (r, report', st')"
        using less.prems f False svc rec
        by (subst (asm) delete_tos_key_group.simps) (simp add: i_def [symmetric] Let_def)
      have "length (remove_at i fl) + length pd < length in_flight + length pending"
        using fill_shrinks [of fl pd "max 1 c" in_flight pending "pick n"] f False by (simp add: i_def)
      from less.hyps [OF this rest] have "stored st1 - set (remove_at i fl @ pd) \<subseteq> stored st'" .
      moreover have "set (remove_at i fl @ pd) \<subseteq> set (fl @ pd)"
        by (auto simp: remove_at_def dest: in_set_takeD in_set_dropD)
      moreover have "set (fl @ pd) = set (in_flight @ pending)" by (simp only: app)
      ultimately show ?thesis using st1 key by blast
    qed
  qed
qed

lemma delete_directories_only:
  assumes "deletes_only svc stored"
    and "delete_directory_groups svc rows bucket c pick n keys report st = (r, report', st')"
  shows "stored st - set keys \<subseteq> stored st'"
  using assms(2)
proof (induction "length keys" arbitrary: keys n report st rule: less_induct)
  case less
  show ?case
  proof (cases keys)
    case Nil
    then show ?thesis using less.prems by simp
  next
    case (Cons d ds)
    let ?now = "d # takeWhile (\<lambda>k. key_depth k = key_depth d) ds"
    let ?later = "dropWhile (\<lambda>k. key_depth k = key_depth d) ds"
    obtain r1 report1 st1 where now: "delete_tos_key_group svc rows bucket c pick n [] ?now report st = (r1, report1, st1)"
      by (cases "delete_tos_key_group svc rows bucket c pick n [] ?now report st") auto
    have "keys = ?now @ ?later" using Cons by simp
    then have keys: "set keys = set ?now \<union> set ?later" by (metis set_append)
    have one: "stored st - set ?now \<subseteq> stored st1" using delete_group_only [OF assms(1) now] by simp
    show ?thesis
    proof (cases r1)
      case (Err e)
      then have "st' = st1" using less.prems Cons now by simp
      then show ?thesis using one keys by blast
    next
      case (Ok n1)
      then have later: "delete_directory_groups svc rows bucket c pick n1 ?later report1 st1 = (r, report', st')"
        using less.prems Cons now by simp
      have "length ?later < length keys" using length_dropWhile_le [of _ ds] Cons by (simp add: less_Suc_eq_le)
      from less.hyps [OF this later] show ?thesis using one keys by blast
    qed
  qed
qed

lemma delete_bottom_up_only:
  assumes "deletes_only svc stored"
    and "delete_tos_keys_bottom_up svc rows bucket c pick n keys report st = (r, report', st')"
  shows "stored st - set keys \<subseteq> stored st'"
proof -
  let ?leaves = "List.filter (\<lambda>k. \<not> tos_delete_key_is_directory k) keys"
  let ?dirs = "sort_keys_bottom_up (List.filter tos_delete_key_is_directory keys)"
  have "set ?dirs \<subseteq> set keys" by auto
  obtain r1 report1 st1 where l: "delete_tos_key_group svc rows bucket c pick n [] ?leaves report st = (r1, report1, st1)"
    by (cases "delete_tos_key_group svc rows bucket c pick n [] ?leaves report st") auto
  have one: "stored st - set ?leaves \<subseteq> stored st1" using delete_group_only [OF assms(1) l] by simp
  show ?thesis
  proof (cases r1)
    case (Err e)
    then have "st' = st1" using assms(2) l by (simp add: delete_tos_keys_bottom_up_def)
    then show ?thesis using one by auto
  next
    case (Ok n1)
    then have "delete_directory_groups svc rows bucket c pick n1 ?dirs report1 st1 = (r, report', st')"
      using assms(2) l by (simp add: delete_tos_keys_bottom_up_def)
    from delete_directories_only [OF assms(1) this] show ?thesis
      using one \<open>set ?dirs \<subseteq> set keys\<close> by auto
  qed
qed

lemma skip_filtered_keys:
  "fst (skip_filtered bucket incl excl increment keys report) = List.filter (\<lambda>k. pattern_allows k incl excl) keys"
proof -
  have "fst (fold (\<lambda>key (delete_keys, report).
       let report = (if increment then report\<lparr>br_planned := Suc (br_planned report)\<rparr> else report)
       in if \<not> pattern_allows key incl excl
          then (delete_keys, record_skipped ''delete'' (object_uri bucket key) None report)
          else (delete_keys @ [key], report)) keys (front, report)) =
      front @ List.filter (\<lambda>k. pattern_allows k incl excl) keys" for front report
    by (induction keys arbitrary: front report) (simp_all add: Let_def)
  then show ?thesis by (simp only: skip_filtered_def append_Nil)
qed

lemma delete_for_rm_only:
  assumes "deletes_only svc stored"
    and "delete_tos_keys_for_rm svc rows bucket incl excl bottom_up c pick increment keys report st = (r, report', st')"
  shows "stored st - {k \<in> set keys. pattern_allows k incl excl} \<subseteq> stored st'"
proof -
  obtain ks rep where s: "skip_filtered bucket incl excl increment keys report = (ks, rep)"
    by (cases "skip_filtered bucket incl excl increment keys report") auto
  then have ks: "set ks = {k \<in> set keys. pattern_allows k incl excl}"
    using skip_filtered_keys [of bucket incl excl increment keys report] by simp
  show ?thesis
  proof (cases bottom_up)
    case True
    then obtain r1 where "delete_tos_keys_bottom_up svc rows bucket c pick 0 ks rep st = (r1, report', st')"
      using assms(2) s by (auto simp: delete_tos_keys_for_rm_def split: prod.splits result.splits)
    from delete_bottom_up_only [OF assms(1) this] show ?thesis using ks by simp
  next
    case False
    then obtain r1 where "delete_tos_key_group svc rows bucket c pick 0 [] ks rep st = (r1, report', st')"
      using assms(2) s by (auto simp: delete_tos_keys_for_rm_def split: prod.splits result.splits)
    from delete_group_only [OF assms(1) this] show ?thesis using ks by simp
  qed
qed

text \<open>C8: whatever requests, report rows or manifest writes fail, \<open>rm --recursive\<close> removes only
  keys below the normalized prefix of its path that its filters select; in particular a path
  \<open>folder\<close> never reaches \<open>folder2\<close>.\<close>

theorem rm_confined:
  assumes "lists_bucket fetch objects" and "distinct (map oe_key objects)"
    and "sum_list (map (\<lambda>o1. length (oe_key o1)) objects) < length schedule"
    and "deletes_only svc stored"
    and "parse_tos_uri (rm_path args) True = Ok target"
    and "rm_recursive fetch schedule manifest svc rows pick args st = Some (r, st')"
    and "k \<in> stored st" and "k \<notin> stored st'"
  shows "starts_with (normalize_recursive_tos_prefix (tu_key target)) k \<and>
    pattern_allows k (rm_include args) (rm_exclude args)"
proof -
  let ?t = "normalize_recursive_tos_target target"
  let ?P = "normalize_recursive_tos_prefix (tu_key target)"
  have P: "unwrap_or_empty (tu_key ?t) = ?P"
    by (cases "tu_key target")
      (simp_all add: normalize_recursive_tos_target_def normalize_recursive_tos_prefix_def unwrap_or_empty_def
        unwrap_key_def trim_start_of_def)
  let ?below = "map oe_key (objects_below objects (tu_key ?t))"
  have below: "set ?below \<subseteq> {k. starts_with ?P k}" by (auto simp: objects_below_def P)
  have listed: "list_object_keys_recursive fetch schedule (tu_key ?t) (rm_hierarchical args) (rm_list_concurrency args)
      = Some (Ok ?below)"
    using listing_complete [OF assms(1-3)] by (simp add: list_object_keys_recursive_def)
  let ?keys = "if rm_bottom_up args
    then sort_keys_bottom_up (case tu_key ?t of Some key \<Rightarrow> push_unique_key ?below key | None \<Rightarrow> ?below) else ?below"
  have "starts_with ?P key" if "tu_key ?t = Some key" for key
    using that P by (simp add: unwrap_or_empty_def starts_with_iff)
  moreover have "x \<in> set ?below \<or> tu_key ?t = Some x" if "x \<in> set ?keys" for x
    using that by (auto simp del: set_map simp: push_unique_key_def split: if_splits option.splits)
  ultimately have keys: "set ?keys \<subseteq> {k. starts_with ?P k}" using below by blast
  have "st' = st \<or> (\<exists>r1 report1. delete_tos_keys_for_rm svc rows (tu_bucket ?t) (rm_include args) (rm_exclude args)
      (rm_bottom_up args) (rm_batch_concurrency args) pick False ?keys (batch_report_new (length ?keys)) st = (r1, report1, st'))"
    using assms(5,6) listed by (auto simp: rm_recursive_def Let_def split: result.splits prod.splits)
  then show ?thesis
    using delete_for_rm_only [OF assms(4)] keys assms(7,8) by blast
qed

section \<open>A concrete bucket\<close>

definition demo_delete :: "string list delete_service" where
  "demo_delete st key =
     (if list_ex (\<lambda>k. ends_with [slash] key \<and> starts_with key k \<and> k \<noteq> key) st
      then (Err (Conflict ''directory is not empty''), st)
      else (Ok (), List.filter (\<lambda>k. k \<noteq> key) st))"

lemma demo_hns: "hns_delete demo_delete set"
  by (auto simp: hns_delete_def demo_delete_def beneath_def list_ex_iff)

lemma demo_deletes_only: "deletes_only demo_delete set"
  by (auto simp: deletes_only_def demo_delete_def)

definition demo_keys :: "string list" where
  "demo_keys = [''p/'', ''p/a'', ''p/b/'', ''p/b/c'', ''p2'']"

definition demo_rm :: rm_args where
  "demo_rm = \<lparr>rm_path = ''tos://k/p'', rm_include = None, rm_exclude = None, rm_bottom_up = True,
     rm_hierarchical = True, rm_list_concurrency = 2, rm_batch_concurrency = 2\<rparr>"

definition demo_schedule :: "nat list" where
  "demo_schedule = replicate 20 1"

lemma demo_bucket:
  "lists_bucket (demo_fetch (map demo_object demo_keys)) (map demo_object demo_keys)"
  "distinct (map oe_key (map demo_object demo_keys))"
  "sum_list (map (\<lambda>o1. length (oe_key o1)) (map demo_object demo_keys)) < length demo_schedule"
  "parse_tos_uri (rm_path demo_rm) True = Ok \<lparr>tu_bucket = ''k'', tu_key = Some ''p''\<rparr>"
proof -
  show "lists_bucket (demo_fetch (map demo_object demo_keys)) (map demo_object demo_keys)"
    by (rule demo_lists) (simp add: demo_keys_def demo_object_def)
  show "distinct (map oe_key (map demo_object demo_keys))"
    "sum_list (map (\<lambda>o1. length (oe_key o1)) (map demo_object demo_keys)) < length demo_schedule"
    by (simp_all add: demo_keys_def demo_object_def demo_schedule_def)
  show "parse_tos_uri (rm_path demo_rm) True = Ok \<lparr>tu_bucket = ''k'', tu_key = Some ''p''\<rparr>" by code_simp
qed


theorem rm_confined_witness:
  "starts_with ''p/'' ''p/a''"
proof -
  let ?listed = "[''p/'', ''p/a'', ''p/b/'', ''p/b/c'']"
  let ?keys = "sort_keys_bottom_up (push_unique_key ?listed ''p/'')"
  let ?run = "delete_tos_keys_for_rm demo_delete (\<lambda>_ _. Ok ()) ''k'' None None True 2 (\<lambda>_. 1) False
      ?keys (batch_report_new (length ?keys)) demo_keys"
  have n: "normalize_recursive_tos_prefix (Some ''p'') = ''p/''" by code_simp
  have below: "map oe_key (objects_below (map demo_object demo_keys) (Some ''p/'')) = ?listed" by code_simp
  have listed: "list_object_keys_recursive (demo_fetch (map demo_object demo_keys)) demo_schedule (Some ''p/'') True 2
      = Some (Ok ?listed)"
    using listing_complete [OF demo_bucket(1-3)] below by (simp add: list_object_keys_recursive_def)
  have final: "snd (snd ?run) = [''p2'']" by code_simp
  obtain r1 report st' where e: "?run = (r1, report, st')" by (metis prod_cases3)
  then obtain r where run: "rm_recursive (demo_fetch (map demo_object demo_keys)) demo_schedule (\<lambda>_. Ok ()) demo_delete
      (\<lambda>_ _. Ok ()) (\<lambda>_. 1) demo_rm demo_keys = Some (r, st')"
    using demo_bucket(4) n listed
    by (cases r1) (simp_all add: rm_recursive_def demo_rm_def normalize_recursive_tos_target_def Let_def)
  have gone: "''p/a'' \<notin> set st'" using final e by simp
  have k: "''p/a'' \<in> set demo_keys" by (simp add: demo_keys_def)
  show ?thesis
    using rm_confined [OF demo_bucket(1-3) demo_deletes_only demo_bucket(4) run k gone] n by simp
qed

end
