(* ===== verification/Tos_Sync.thy ===== *)
theory Tos_Sync
  imports Tos_Delete
begin

text \<open>
  \<open>sync\<close> of a local directory to a TOS prefix (\<open>crates/tos/src/handler/directory_upload.rs\<close> and
  \<open>execute_sync_local_to_tos\<close> of \<open>high_level.rs\<close>): the walk of the source tree, the plan of
  uploads with the folders they need, the keys that are kept, the extras that \<open>--delete\<close>
  removes, and the execution with its report. The source tree does not change during the
  command; a path inside it is the list of its names, and \<open>local_source\<close> is the path as text.
  The listing of the bucket, the copies, the deletions and the writing of report rows are
  parameters.
\<close>

section \<open>The local tree\<close>

text \<open>A symbolic link or a special file is \<open>LocalOther\<close>; \<open>LocalUnreadable\<close> fails to be inspected.\<close>

datatype local_node =
  LocalFile string
| LocalDirectory "(string \<times> local_node) list"
| LocalOther
| LocalUnreadable cli_error

primrec tree_size :: "local_node \<Rightarrow> nat" where
  "tree_size (LocalFile content) = 1"
| "tree_size (LocalDirectory children) = Suc (sum_list (map snd (map (map_prod id tree_size) children)))"
| "tree_size LocalOther = 1"
| "tree_size (LocalUnreadable e) = 1"

definition is_directory :: "local_node \<Rightarrow> bool" where
  "is_directory node = (case node of LocalDirectory _ \<Rightarrow> True | _ \<Rightarrow> False)"

definition local_source :: "string \<Rightarrow> string list \<Rightarrow> string" where
  "local_source root path = foldl local_join root path"

definition backslash :: char where
  "backslash = CHR 0x5C"

definition slashed :: "string \<Rightarrow> string" where
  "slashed s = map (\<lambda>c. if c = backslash then slash else c) s"

section \<open>The walk\<close>

record upload_walker =
  uw_destination :: tos_uri
  uw_parent_prefix :: "string option"

record upload_item =
  ui_path :: "string list"
  ui_relative_key :: string
  ui_destination :: string
  ui_size :: nat

definition upload_walker_new ::
  "string \<Rightarrow> local_node \<Rightarrow> string \<Rightarrow> bool \<Rightarrow> (upload_walker, cli_error) result" where
  "upload_walker_new source tree destination include_parent =
     (if \<not> is_directory tree
      then Err (ValidationError (''recursive source '' @ quoted source @ '' must be a local directory''))
      else try_in (parse_tos_uri destination True) (\<lambda>target.
           try_in (recursive_source_parent_prefix source include_parent) (\<lambda>parent.
             Ok \<lparr>uw_destination = target, uw_parent_prefix = parent\<rparr>)))"

definition plan_item :: "upload_walker \<Rightarrow> string list \<Rightarrow> bool \<Rightarrow> nat \<Rightarrow> upload_item option" where
  "plan_item walker path is_dir bytes =
     (let relative_key = prepend_parent_prefix (slashed (join_with slash path)) (uw_parent_prefix walker);
          key = join_tos_key (unwrap_key (tu_key (uw_destination walker))) relative_key
      in if key = [] then None
         else
           let key = (if is_dir \<and> \<not> ends_with [slash] key then key @ [slash] else key);
               relative_key = (if is_dir \<and> relative_key \<noteq> [] \<and> \<not> ends_with [slash] relative_key
                               then relative_key @ [slash] else relative_key)
           in Some \<lparr>ui_path = path, ui_relative_key = relative_key,
                 ui_destination = object_uri (tu_bucket (uw_destination walker)) key,
                 ui_size = (if is_dir then 0 else bytes)\<rparr>)"

definition optional_item :: "upload_item option \<Rightarrow> (upload_item, cli_error) result list" where
  "optional_item item = (case item of None \<Rightarrow> [] | Some i \<Rightarrow> [Ok i])"

lemma tree_size_children:
  "sum_list (map (tree_size \<circ> snd) (map (\<lambda>(name, child). (path @ [name], child)) (sort_key fst children))) =
   sum_list (map snd (map (map_prod id tree_size) children))"
proof -
  have "sum_list (map (tree_size \<circ> snd) (map (\<lambda>(name, child). (path @ [name], child)) (sort_key fst children))) =
      sum_list (map (tree_size \<circ> snd) (sort_key fst children))"
    by (simp add: o_def case_prod_beta)
  also have "\<dots> = sum_mset (image_mset (tree_size \<circ> snd) (mset (sort_key fst children)))"
    by (simp only: sum_mset_sum_list mset_map [symmetric])
  also have "\<dots> = sum_list (map (tree_size \<circ> snd) children)"
    by (simp only: mset_sort mset_map [symmetric] sum_mset_sum_list)
  finally show ?thesis by (simp add: o_def map_prod_def case_prod_beta)
qed

text \<open>The iterator: \<open>pending\<close> is the stack of paths with its top first; the children are pushed in reverse.\<close>

function local_upload_walk ::
  "upload_walker \<Rightarrow> (string list \<times> local_node) list \<Rightarrow> (upload_item, cli_error) result list" where
  "local_upload_walk walker [] = []"
| "local_upload_walk walker ((path, node) # pending) =
     (case node of
        LocalUnreadable e \<Rightarrow> Err e # local_upload_walk walker pending
      | LocalOther \<Rightarrow> local_upload_walk walker pending
      | LocalFile content \<Rightarrow>
          optional_item (plan_item walker path False (length content)) @ local_upload_walk walker pending
      | LocalDirectory children \<Rightarrow>
          optional_item (plan_item walker path True 0) @
          local_upload_walk walker
            (map (\<lambda>(name, child). (path @ [name], child)) (sort_key fst children) @ pending))"
  by pat_completeness auto

termination
  by (relation "measure (\<lambda>(walker, pending). sum_list (map (tree_size \<circ> snd) pending))")
    (auto simp: tree_size_children simp del: map_map)

section \<open>The selection\<close>

definition local_upload_item_matches :: "upload_item \<Rightarrow> string option \<Rightarrow> string option \<Rightarrow> bool" where
  "local_upload_item_matches item include exclude \<longleftrightarrow>
     ui_path item = [] \<or> pattern_allows (slashed (join_with slash (ui_path item))) include exclude"

definition required_local_upload_ancestors :: "upload_walker \<Rightarrow> upload_item \<Rightarrow> upload_item list" where
  "required_local_upload_ancestors walker item =
     List.map_filter (\<lambda>n. plan_item walker (take n (ui_path item)) True 0) [0..<length (ui_path item)]"

fun retain_actions :: "upload_item list \<Rightarrow> string set \<Rightarrow> upload_item list \<times> string set" where
  "retain_actions [] emitted = ([], emitted)"
| "retain_actions (action # actions) emitted =
     (if ends_with [slash] (ui_destination action) \<and> ui_destination action \<in> emitted
      then retain_actions actions emitted
      else map_prod (Cons action) id
        (retain_actions actions
           (if ends_with [slash] (ui_destination action) then insert (ui_destination action) emitted else emitted)))"

definition select_local_upload_actions ::
  "upload_walker \<Rightarrow> upload_item \<Rightarrow> bool \<Rightarrow> string set \<Rightarrow> upload_item list \<times> string set" where
  "select_local_upload_actions walker item is_preserving_directories emitted =
     (if \<not> is_preserving_directories \<and> ends_with [slash] (ui_destination item) then ([], emitted)
      else retain_actions
        ((if is_preserving_directories then required_local_upload_ancestors walker item else []) @ [item]) emitted)"

section \<open>The plan\<close>

record sync_args =
  sy_source :: string
  sy_destination :: string
  sy_delete :: bool
  sy_size_only :: bool
  sy_exact_timestamps :: bool
  sy_include_parent :: bool
  sy_disable_dir_object :: bool
  sy_include :: "string option"
  sy_exclude :: "string option"

text \<open>\<open>match_indices('/')\<close>: the prefixes of a key that end with a slash.\<close>

definition slash_prefixes :: "string \<Rightarrow> string set" where
  "slash_prefixes key = {take (Suc i) key | i. i < length key \<and> key ! i = slash}"

definition protect_tos_key_ancestors :: "string set \<Rightarrow> string \<Rightarrow> string \<Rightarrow> string set" where
  "protect_tos_key_ancestors desired key destination_prefix =
     desired \<union> {parent \<in> slash_prefixes key. starts_with destination_prefix parent}"

lemma slash_prefixes_code [code]:
  "slash_prefixes key =
     set (map (\<lambda>i. take (Suc i) key) (List.filter (\<lambda>i. key ! i = slash) [0..<length key]))"
  by (auto simp: slash_prefixes_def)

text \<open>\<open>parse_tos_uri(..)?.key.expect(..)\<close> of an item's destination.\<close>

definition destination_key :: "upload_item \<Rightarrow> (string, cli_error) result" where
  "destination_key item =
     try_in (parse_tos_uri (ui_destination item) False) (\<lambda>target. Ok (unwrap_key (tu_key target)))"

record planned_upload =
  pu_path :: "string list"
  pu_key :: string
  pu_size :: nat

definition planned_upload_of :: "upload_item \<Rightarrow> (planned_upload, cli_error) result" where
  "planned_upload_of action =
     try_in (destination_key action) (\<lambda>key.
       Ok \<lparr>pu_path = ui_path action, pu_key = key, pu_size = ui_size action\<rparr>)"

fun plan_uploads ::
  "upload_walker \<Rightarrow> sync_args \<Rightarrow> string \<Rightarrow> (upload_item, cli_error) result list \<Rightarrow>
   planned_upload list \<Rightarrow> string set \<Rightarrow> string set \<Rightarrow>
   (planned_upload list \<times> string set, cli_error) result" where
  "plan_uploads walker args destination_prefix [] planned desired emitted = Ok (planned, desired)"
| "plan_uploads walker args destination_prefix (Err e # results) planned desired emitted = Err e"
| "plan_uploads walker args destination_prefix (Ok item # results) planned desired emitted =
     (if \<not> local_upload_item_matches item (sy_include args) (sy_exclude args)
      then plan_uploads walker args destination_prefix results planned desired emitted
      else try_in (destination_key item) (\<lambda>key.
        let desired1 = protect_tos_key_ancestors (insert key desired) key destination_prefix
        in case select_local_upload_actions walker item (\<not> sy_disable_dir_object args) emitted of
             (actions, emitted1) \<Rightarrow>
               try_in (try_map planned_upload_of actions) (\<lambda>uploads.
                 plan_uploads walker args destination_prefix results (planned @ uploads) desired1 emitted1)))"

definition build_local_upload_sync_plan ::
  "sync_args \<Rightarrow> local_node \<Rightarrow> string \<Rightarrow> (planned_upload list \<times> string set, cli_error) result" where
  "build_local_upload_sync_plan args tree destination_prefix =
     try_in (upload_walker_new (sy_source args) tree (sy_destination args) (sy_include_parent args)) (\<lambda>walker.
       plan_uploads walker args destination_prefix (local_upload_walk walker [([], tree)]) [] {} {})"

definition sync_remote_relative :: "string \<Rightarrow> string \<Rightarrow> string option \<Rightarrow> string" where
  "sync_remote_relative key destination_prefix parent_prefix =
     (let relative = trim_end_of slash (strip_tos_prefix key destination_prefix)
      in case parent_prefix of
           Some parent \<Rightarrow>
             if relative = parent then []
             else (case strip_prefix (parent @ [slash]) relative of Some r \<Rightarrow> r | None \<Rightarrow> relative)
         | None \<Rightarrow> relative)"

definition sync_remote_key_matches :: "sync_args \<Rightarrow> string \<Rightarrow> string \<Rightarrow> string option \<Rightarrow> bool" where
  "sync_remote_key_matches args key destination_prefix parent_prefix \<longleftrightarrow>
     pattern_allows (sync_remote_relative key destination_prefix parent_prefix) (sy_include args) (sy_exclude args)"

text \<open>The inventory is a map from keys to entries: a list whose keys are distinct.\<close>

definition plan_local_upload_sync_extras ::
  "sync_args \<Rightarrow> string \<Rightarrow> object_entry list \<Rightarrow> string set \<Rightarrow> (object_entry list, cli_error) result" where
  "plan_local_upload_sync_extras args destination_prefix inventory desired =
     (if \<not> sy_delete args then Ok []
      else try_in (recursive_source_parent_prefix (sy_source args) (sy_include_parent args)) (\<lambda>parent.
        let desired1 = fold (\<lambda>entry desired.
              if \<not> sync_remote_key_matches args (oe_key entry) destination_prefix parent
              then protect_tos_key_ancestors desired (oe_key entry) destination_prefix else desired)
            inventory desired
        in Ok (sort_key oe_key (List.filter (\<lambda>entry.
             oe_key entry \<notin> desired1 \<and>
             sync_remote_key_matches args (oe_key entry) destination_prefix parent) inventory))))"

section \<open>The execution\<close>

datatype copy_outcome = Transferred | Skipped

record 's sync_service =
  ss_is_hns :: "(bool, cli_error) result"
  ss_copy :: "'s \<Rightarrow> string list \<Rightarrow> string \<Rightarrow> (copy_outcome, cli_error) result \<times> 's"
  ss_delete :: "'s \<Rightarrow> string \<Rightarrow> string option \<Rightarrow> (unit, cli_error) result \<times> 's"

text \<open>\<open>rows\<close> gives the outcome of writing each report row; the first failure is remembered.\<close>

record sync_report =
  sr_report :: batch_report
  sr_rows :: nat
  sr_error :: "cli_error option"

definition record_row ::
  "(nat \<Rightarrow> (unit, cli_error) result) \<Rightarrow> (batch_report \<Rightarrow> batch_report) \<Rightarrow> sync_report \<Rightarrow> sync_report" where
  "record_row rows f r =
     r\<lparr>sr_report := f (sr_report r), sr_rows := Suc (sr_rows r),
       sr_error := (case sr_error r of
          Some e \<Rightarrow> Some e
        | None \<Rightarrow> (case rows (sr_rows r) of Ok _ \<Rightarrow> None | Err e \<Rightarrow> Some e))\<rparr>"

definition has_failures :: "sync_report \<Rightarrow> bool" where
  "has_failures r \<longleftrightarrow> br_failed (sr_report r) \<noteq> [] \<or> sr_error r \<noteq> None"

definition remote_sync_should_skip :: "nat \<Rightarrow> object_entry option \<Rightarrow> sync_args \<Rightarrow> bool" where
  "remote_sync_should_skip local_size destination args =
     (case destination of
        None \<Rightarrow> False
      | Some d \<Rightarrow>
          if unat (oe_size d) \<noteq> local_size then False
          else if sy_exact_timestamps args then False
          else sy_size_only args \<or> unat (oe_size d) = local_size)"

definition inventory_get :: "object_entry list \<Rightarrow> string \<Rightarrow> object_entry option" where
  "inventory_get inventory key = map_of (map (\<lambda>entry. (oe_key entry, entry)) inventory) key"

definition upload_is_skipped :: "sync_args \<Rightarrow> object_entry list \<Rightarrow> planned_upload \<Rightarrow> bool" where
  "upload_is_skipped args inventory upload =
     (if ends_with [slash] (pu_key upload)
      then (case inventory_get inventory (pu_key upload) of Some entry \<Rightarrow> oe_size entry = 0 | None \<Rightarrow> False)
      else remote_sync_should_skip (pu_size upload) (inventory_get inventory (pu_key upload)) args)"

text \<open>Filling the window of running copies; a skipped upload takes no place in it.\<close>

fun start_copies ::
  "(planned_upload \<Rightarrow> bool) \<Rightarrow> (planned_upload \<Rightarrow> sync_report \<Rightarrow> sync_report) \<Rightarrow> nat \<Rightarrow>
   planned_upload list \<Rightarrow> planned_upload list \<Rightarrow> sync_report \<Rightarrow>
   planned_upload list \<times> planned_upload list \<times> sync_report" where
  "start_copies skipped note_skip limit in_flight [] report = (in_flight, [], report)"
| "start_copies skipped note_skip limit in_flight (upload # pending) report =
     (if length in_flight < limit then
        if skipped upload then start_copies skipped note_skip limit in_flight pending (note_skip upload report)
        else start_copies skipped note_skip limit (in_flight @ [upload]) pending report
      else (in_flight, upload # pending, report))"

lemma start_copies_length:
  "start_copies skipped note_skip limit in_flight pending report = (fl, pd, report1) \<Longrightarrow>
   length fl + length pd \<le> length in_flight + length pending"
  by (induction skipped note_skip limit in_flight pending report rule: start_copies.induct) (auto split: if_splits)

definition sync_uris :: "sync_args \<Rightarrow> string \<Rightarrow> planned_upload \<Rightarrow> string \<times> string" where
  "sync_uris args bucket upload = (local_source (sy_source args) (pu_path upload), object_uri bucket (pu_key upload))"

definition note_copy_skipped ::
  "sync_args \<Rightarrow> string \<Rightarrow> (nat \<Rightarrow> (unit, cli_error) result) \<Rightarrow> planned_upload \<Rightarrow> sync_report \<Rightarrow> sync_report" where
  "note_copy_skipped args bucket rows upload =
     (case sync_uris args bucket upload of (source, target) \<Rightarrow>
        record_row rows (record_skipped ''sync-copy'' source (Some target)))"

definition note_copy_result ::
  "sync_args \<Rightarrow> string \<Rightarrow> (nat \<Rightarrow> (unit, cli_error) result) \<Rightarrow> planned_upload \<Rightarrow>
   (copy_outcome, cli_error) result \<Rightarrow> sync_report \<Rightarrow> sync_report" where
  "note_copy_result args bucket rows upload result =
     (case sync_uris args bucket upload of (source, target) \<Rightarrow>
        record_row rows
          (case result of
             Ok Transferred \<Rightarrow> record_success ''sync-copy'' source (Some target)
           | Ok Skipped \<Rightarrow> record_skipped ''sync-copy'' source (Some target)
           | Err e \<Rightarrow> record_failure ''sync-copy'' source (Some target) e))"

lemma start_copies_shrinks:
  assumes "(fl, pd, report1) = start_copies skipped note_skip limit in_flight pending report" and "fl \<noteq> []"
  shows "length (remove_at (k mod length fl) fl) + length pd < length in_flight + length pending"
proof -
  have "k mod length fl < length fl" using assms(2) by simp
  then have "length (remove_at (k mod length fl) fl) < length fl" by (simp add: remove_at_def)
  then show ?thesis using start_copies_length [OF assms(1) [symmetric]] by linarith
qed

text \<open>The copies run with bounded concurrency; \<open>pick\<close> chooses the one that completes next.\<close>

function sync_copies ::
  "'s sync_service \<Rightarrow> sync_args \<Rightarrow> string \<Rightarrow> (nat \<Rightarrow> (unit, cli_error) result) \<Rightarrow> object_entry list \<Rightarrow> nat \<Rightarrow>
   (nat \<Rightarrow> nat) \<Rightarrow> nat \<Rightarrow> planned_upload list \<Rightarrow> planned_upload list \<Rightarrow> sync_report \<Rightarrow> 's \<Rightarrow> sync_report \<times> 's" where
  "sync_copies svc args bucket rows inventory batch_concurrency pick n in_flight pending report st =
     (case start_copies (upload_is_skipped args inventory) (note_copy_skipped args bucket rows)
             (max 1 batch_concurrency) in_flight pending report of
        (in_flight1, pending1, report1) \<Rightarrow>
          if in_flight1 = [] then (report1, st)
          else let i = pick n mod length in_flight1; upload = in_flight1 ! i in
            (case ss_copy svc st (pu_path upload) (pu_key upload) of
               (result, st1) \<Rightarrow>
                 sync_copies svc args bucket rows inventory batch_concurrency pick (Suc n)
                   (remove_at i in_flight1) pending1 (note_copy_result args bucket rows upload result report1) st1))"
  by pat_completeness auto

termination
  by (relation "measure (\<lambda>(svc, args, bucket, rows, inventory, c, pick, n, in_flight, pending, report, st).
      length in_flight + length pending)") (auto intro!: start_copies_shrinks)

declare sync_copies.simps [simp del]

text \<open>Deletions stop as soon as the report cannot be written; what is left is recorded as skipped.\<close>

fun sync_deletes ::
  "'s sync_service \<Rightarrow> string \<Rightarrow> (nat \<Rightarrow> (unit, cli_error) result) \<Rightarrow> object_entry list \<Rightarrow> sync_report \<Rightarrow> 's \<Rightarrow>
   sync_report \<times> 's" where
  "sync_deletes svc bucket rows [] report st = (report, st)"
| "sync_deletes svc bucket rows (entry # extras) report st =
     (if sr_error report \<noteq> None
      then (fold (\<lambda>pending. record_row rows (record_skipped ''delete-extra'' (object_uri bucket (oe_key pending)) None))
              (entry # extras) report, st)
      else case ss_delete svc st (oe_key entry) (oe_etag entry) of
        (result, st1) \<Rightarrow>
          sync_deletes svc bucket rows extras
            (record_row rows
               (case result of
                  Ok _ \<Rightarrow> record_success ''delete-extra'' (object_uri bucket (oe_key entry)) None
                | Err e \<Rightarrow> record_failure ''delete-extra'' (object_uri bucket (oe_key entry)) None e) report) st1)"

fun insert_entry :: "object_entry \<Rightarrow> object_entry list \<Rightarrow> object_entry list" where
  "insert_entry entry [] = [entry]"
| "insert_entry entry (e # entries) =
     (if bottom_up_before (oe_key entry) (oe_key e) then entry # e # entries else e # insert_entry entry entries)"

definition sort_tos_sync_delete_entries_bottom_up :: "object_entry list \<Rightarrow> object_entry list" where
  "sort_tos_sync_delete_entries_bottom_up entries = foldr insert_entry entries []"

record sync_env =
  se_fetch :: list_objects
  se_schedule :: "nat list"
  se_list_concurrency :: nat
  se_batch_concurrency :: nat
  se_pick :: "nat \<Rightarrow> nat"
  se_manifest :: "(unit, cli_error) result"
  se_report :: "(unit, cli_error) result"
  se_rows :: "nat \<Rightarrow> (unit, cli_error) result"

definition run_sync ::
  "sync_env \<Rightarrow> 's sync_service \<Rightarrow> sync_args \<Rightarrow> string \<Rightarrow> object_entry list \<Rightarrow> planned_upload list \<Rightarrow>
   object_entry list \<Rightarrow> 's \<Rightarrow> sync_report \<times> 's" where
  "run_sync env svc args bucket inventory planned extras st =
     (let report0 = \<lparr>sr_report = batch_report_new (length planned + length extras), sr_rows = 0, sr_error = None\<rparr>
      in case sync_copies svc args bucket (se_rows env) inventory (se_batch_concurrency env) (se_pick env) 0
              [] planned report0 st of
           (report, st1) \<Rightarrow>
             if sy_delete args \<and> has_failures report
             then (fold (\<lambda>entry. record_row (se_rows env)
                     (record_skipped ''delete-extra'' (object_uri bucket (oe_key entry)) None)) extras report, st1)
             else if sy_delete args then sync_deletes svc bucket (se_rows env) extras report st1
             else (report, st1))"

definition sync_listed ::
  "sync_env \<Rightarrow> 's sync_service \<Rightarrow> sync_args \<Rightarrow> local_node \<Rightarrow> string \<Rightarrow> string \<Rightarrow> bool \<Rightarrow> object_entry list \<Rightarrow> 's \<Rightarrow>
   (batch_report, cli_error) result \<times> 's" where
  "sync_listed env svc args tree bucket prefix is_hns inventory st =
     (case try_in (build_local_upload_sync_plan args tree prefix) (\<lambda>(planned, desired).
             try_in (plan_local_upload_sync_extras args prefix inventory desired) (\<lambda>extras.
             try_in (se_manifest env) (\<lambda>_.
             try_in (se_report env) (\<lambda>_.
               Ok (planned, if sy_delete args \<and> extras \<noteq> [] \<and> is_hns
                            then sort_tos_sync_delete_entries_bottom_up extras else extras))))) of
        Err e \<Rightarrow> (Err e, st)
      | Ok (planned, extras) \<Rightarrow>
          (case run_sync env svc args bucket inventory planned extras st of
             (report, st1) \<Rightarrow> (case sr_error report of None \<Rightarrow> Ok (sr_report report) | Some e \<Rightarrow> Err e, st1)))"

text \<open>The bucket's kind is asked for twice in the code; its answer does not change.\<close>

definition execute_sync_local_to_tos ::
  "sync_env \<Rightarrow> 's sync_service \<Rightarrow> sync_args \<Rightarrow> local_node \<Rightarrow> 's \<Rightarrow> ((batch_report, cli_error) result \<times> 's) option" where
  "execute_sync_local_to_tos env svc args tree st =
     (case parse_tos_uri (sy_destination args) True of
        Err e \<Rightarrow> Some (Err e, st)
      | Ok parsed \<Rightarrow>
          let destination = normalize_recursive_tos_target parsed; prefix = unwrap_key (tu_key destination)
          in case ss_is_hns svc of
               Err e \<Rightarrow> Some (Err e, st)
             | Ok is_hns \<Rightarrow>
                 (case list_object_entries_recursive (se_fetch env) (se_schedule env) (Some prefix) is_hns
                         (se_list_concurrency env) of
                    None \<Rightarrow> None
                  | Some (Err e) \<Rightarrow> Some (Err e, st)
                  | Some (Ok inventory) \<Rightarrow>
                      Some (sync_listed env svc args tree (tu_bucket destination) prefix is_hns inventory st)))"

section \<open>The items of the walk\<close>

definition plain_name :: "string \<Rightarrow> bool" where
  "plain_name n \<longleftrightarrow> n \<noteq> [] \<and> slash \<notin> set n \<and> backslash \<notin> set n"

text \<open>Names as a file system has them, without backslashes, which the keys turn into slashes.\<close>

primrec plain_tree :: "local_node \<Rightarrow> bool" where
  "plain_tree (LocalFile content) = True"
| "plain_tree (LocalDirectory children) =
     (distinct (map fst children) \<and> (\<forall>n \<in> set (map fst children). plain_name n) \<and>
      (\<forall>b \<in> set (map snd (map (map_prod id plain_tree) children)). b))"
| "plain_tree LocalOther = True"
| "plain_tree (LocalUnreadable e) = True"

fun node_at :: "local_node \<Rightarrow> string list \<Rightarrow> local_node option" where
  "node_at node [] = Some node"
| "node_at (LocalDirectory children) (n # path) =
     (case map_of children n of None \<Rightarrow> None | Some child \<Rightarrow> node_at child path)"
| "node_at _ (n # path) = None"

definition file_at :: "local_node \<Rightarrow> string list \<Rightarrow> string option" where
  "file_at tree path = (case node_at tree path of Some (LocalFile content) \<Rightarrow> Some content | _ \<Rightarrow> None)"

lemma plain_child:
  assumes "plain_tree (LocalDirectory children)" and "(n, child) \<in> set children"
  shows "plain_tree child" and "plain_name n" and "map_of children n = Some child"
proof -
  show "plain_tree child" using assms by (force simp: image_iff)
  show "plain_name n" using assms by force
  show "map_of children n = Some child" using assms by simp
qed

lemma node_at_plain:
  "plain_tree node \<Longrightarrow> node_at node path = Some found \<Longrightarrow> plain_tree found \<and> (\<forall>n \<in> set path. plain_name n)"
proof (induction node path rule: node_at.induct)
  case (2 children n path)
  then obtain child where child: "map_of children n = Some child" and at: "node_at child path = Some found"
    by (auto split: option.splits)
  have "(n, child) \<in> set children" using child by (rule map_of_SomeD)
  from plain_child(1,2) [OF 2(2) this] show ?case using 2(1) [OF child _ at] by simp
qed auto

lemma node_at_append:
  "node_at node (xs @ ys) = Some found \<Longrightarrow>
   \<exists>d. node_at node xs = Some d \<and> node_at d ys = Some found \<and> (ys \<noteq> [] \<longrightarrow> is_directory d)"
proof (induction node xs rule: node_at.induct)
  case (1 node)
  then show ?case by (cases ys; cases node) (auto simp: is_directory_def)
next
  case (2 children n path)
  then show ?case by (auto split: option.splits)
qed auto

definition planned_at :: "upload_walker \<Rightarrow> string list \<Rightarrow> local_node \<Rightarrow> upload_item option" where
  "planned_at walker path node =
     (case node of
        LocalFile content \<Rightarrow> plan_item walker path False (length content)
      | LocalDirectory _ \<Rightarrow> plan_item walker path True 0
      | _ \<Rightarrow> None)"

lemma node_at_directory:
  assumes "plain_tree (LocalDirectory children)"
  shows "(\<exists>path found. node_at (LocalDirectory children) path = Some found \<and> Q path found) \<longleftrightarrow>
    Q [] (LocalDirectory children) \<or>
    (\<exists>(n, child) \<in> set children. \<exists>path found. node_at child path = Some found \<and> Q (n # path) found)"
    (is "?at \<longleftrightarrow> _ \<or> ?below")
proof -
  have at: "node_at (LocalDirectory children) path = Some found \<longleftrightarrow>
      path = [] \<and> found = LocalDirectory children \<or>
      (\<exists>n child rest. path = n # rest \<and> (n, child) \<in> set children \<and> node_at child rest = Some found)" for path found
  proof (cases path)
    case (Cons n rest)
    have m: "map_of children n = Some child \<longleftrightarrow> (n, child) \<in> set children" for child
      using assms by (simp add: map_of_eq_Some_iff)
    have "node_at (LocalDirectory children) (n # rest) = Some found \<longleftrightarrow>
        (\<exists>child. map_of children n = Some child \<and> node_at child rest = Some found)"
      by (simp split: option.split)
    then show ?thesis using Cons by (simp add: m)
  qed auto
  show ?thesis unfolding at by blast
qed

lemma walk_items:
  assumes "\<forall>(path, node) \<in> set pending. plain_tree node"
  shows "Ok item \<in> set (local_upload_walk walker pending) \<longleftrightarrow>
    (\<exists>(start, node) \<in> set pending. \<exists>path found. node_at node path = Some found \<and>
       planned_at walker (start @ path) found = Some item)"
  using assms
proof (induction walker pending rule: local_upload_walk.induct)
  case (1 walker)
  then show ?case by simp
next
  case (2 walker path node pending)
  define F where "F = (\<lambda>(start, node). \<exists>rest found. node_at node rest = Some found \<and>
      planned_at walker (start @ rest) found = Some item)"
  have leaf: "F (path, node) \<longleftrightarrow> planned_at walker path node = Some item" if "\<not> is_directory node"
  proof -
    have "node_at node rest = Some found \<longleftrightarrow> rest = [] \<and> found = node" for rest found
      using that by (cases node; cases rest) (auto simp: is_directory_def)
    then show ?thesis by (simp add: F_def)
  qed
  have rest: "\<forall>(path, node) \<in> set pending. plain_tree node" using 2(5) by auto
  have goal: "(\<exists>x \<in> set ((path, node) # pending). F x) \<longleftrightarrow> F (path, node) \<or> (\<exists>x \<in> set pending. F x)" by simp
  have "Ok item \<in> set (local_upload_walk walker ((path, node) # pending)) \<longleftrightarrow>
      (\<exists>x \<in> set ((path, node) # pending). F x)"
  proof (cases node)
    case (LocalFile content)
    then show ?thesis using 2(1) [OF LocalFile rest] leaf unfolding goal F_def [symmetric]
      by (simp add: is_directory_def optional_item_def planned_at_def eq_commute split: option.splits)
  next
    case (LocalDirectory children)
    let ?children = "map (\<lambda>(name, child). (path @ [name], child)) (sort_key fst children)"
    have plain: "plain_tree (LocalDirectory children)" using 2(5) LocalDirectory by auto
    have "\<forall>(path, node) \<in> set (?children @ pending). plain_tree node" using plain_child(1) [OF plain] rest by auto
    note ih = 2(2) [OF LocalDirectory this, folded F_def]
    have here: "planned_at walker path (LocalDirectory children) = Some item \<longleftrightarrow>
        Ok item \<in> set (optional_item (plan_item walker path True 0))"
      by (auto simp: planned_at_def optional_item_def split: option.splits)
    have "F (path, node) \<longleftrightarrow> Ok item \<in> set (optional_item (plan_item walker path True 0)) \<or> (\<exists>x \<in> set ?children. F x)"
      unfolding LocalDirectory F_def prod.case
      by (subst node_at_directory [OF plain]) (simp add: here case_prod_beta)
    moreover have "(\<exists>x \<in> set (?children @ pending). F x) \<longleftrightarrow> (\<exists>x \<in> set ?children. F x) \<or> (\<exists>x \<in> set pending. F x)"
      by (simp only: set_append bex_Un)
    moreover have "Ok item \<in> set (local_upload_walk walker ((path, node) # pending)) \<longleftrightarrow>
        Ok item \<in> set (optional_item (plan_item walker path True 0)) \<or>
        Ok item \<in> set (local_upload_walk walker (?children @ pending))"
      using LocalDirectory by simp
    ultimately show ?thesis using ih goal by (simp only: disj_assoc)
  next
    case LocalOther
    then show ?thesis using 2(3) [OF LocalOther rest] leaf unfolding goal F_def [symmetric]
      by (simp add: is_directory_def planned_at_def)
  next
    case (LocalUnreadable e)
    then show ?thesis using 2(4) [OF LocalUnreadable rest] leaf unfolding goal F_def [symmetric]
      by (simp add: is_directory_def planned_at_def)
  qed
  then show ?case unfolding F_def .
qed

section \<open>Keys of the walk and their names\<close>

definition sync_prefix :: "upload_walker \<Rightarrow> string" where
  "sync_prefix walker = normalize_recursive_tos_prefix (tu_key (uw_destination walker))"

lemma unwrap_normalized_target:
  "unwrap_key (tu_key (normalize_recursive_tos_target target)) = normalize_recursive_tos_prefix (tu_key target)"
  by (auto simp: normalize_recursive_tos_target_def normalize_recursive_tos_prefix_def unwrap_key_def
      trim_start_of_def Let_def split: option.splits)

lemma strip_joined_key:
  assumes r: "r \<noteq> []" "hd r \<noteq> slash"
    and D: "starts_with (normalize_recursive_tos_prefix key) (join_tos_key (unwrap_key key) r @ t)"
  shows "strip_tos_prefix (join_tos_key (unwrap_key key) r @ t) (normalize_recursive_tos_prefix key) = r @ t"
proof -
  let ?K = "unwrap_key key" and ?P = "trim_of slash (unwrap_key key)" and ?q = "trim_start_of slash (unwrap_key key)"
  have rs: "trim_start_of slash r = r" "trim_start_of slash (r @ t) = r @ t"
    using r by (simp_all add: trim_start_of_id hd_append)
  show ?thesis
  proof (cases "?q = []")
    case True
    then have "?P = []" by (simp add: trim_of_def trim_end_of_def)
    then show ?thesis using True rs
      by (simp add: strip_tos_prefix_def normalize_recursive_tos_prefix_def Let_def join_tos_key_def strip_prefix_Some
          trim_start_of_def [of slash "[]"] split: option.split)
  next
    case False
    have hdq: "hd ?q \<noteq> slash" by (rule trim_start_of_hd [OF False])
    obtain n where "?q = ?P @ replicate n slash"
      using trim_end_of_decomp [of ?q slash] by (auto simp: trim_of_def)
    then obtain s where s: "?q = ?P @ s" and sl: "s = replicate n slash" by blast
    have P: "?P \<noteq> []"
    proof
      assume "?P = []"
      then have "?q = replicate n slash" using s sl by simp
      then show False using False hdq by (cases n) simp_all
    qed
    have k: "join_tos_key ?K r @ t = ?P @ slash # r @ t" using P rs by (simp add: join_tos_key_def)
    have "normalize_recursive_tos_prefix key = ?P @ [slash]"
    proof (cases s)
      case Nil
      have "last ?P \<noteq> slash" using trim_of_ends [of slash ?K] P by auto
      then show ?thesis
        using s Nil False P by (simp add: normalize_recursive_tos_prefix_def Let_def ends_with_single)
    next
      case (Cons c s')
      have c: "c = slash" and "last s = slash" using sl Cons by (cases n; simp)+
      then have "ends_with [slash] ?q" using s Cons by (simp add: ends_with_single)
      then have n: "normalize_recursive_tos_prefix key = ?P @ slash # s'"
        using False s Cons c by (simp add: normalize_recursive_tos_prefix_def Let_def)
      have "s' = []"
      proof (rule ccontr)
        assume "s' \<noteq> []"
        moreover have "set s' \<subseteq> {slash}" using sl Cons by (metis insert_subset list.set(2) set_replicate_conv_if subset_insertI subset_trans)
        ultimately obtain s2 where "s' = slash # s2" by (cases s') auto
        moreover obtain u where "r @ t = s' @ u" using D k n by (auto simp: starts_with_iff)
        ultimately have "hd (r @ t) = slash" by simp
        then show False using r by (simp add: hd_append)
      qed
      then show ?thesis using n by simp
    qed
    moreover have "trim_start_of slash (?P @ [slash]) = ?P @ [slash]"
      using P hdq s by (simp add: trim_start_of_id hd_append)
    moreover have "strip_prefix (?P @ [slash]) (?P @ slash # r @ t) = Some (r @ t)"
      by (simp add: strip_prefix_Some)
    ultimately show ?thesis using k rs by (simp add: strip_tos_prefix_def)
  qed
qed

definition walker_wf :: "upload_walker \<Rightarrow> bool" where
  "walker_wf walker \<longleftrightarrow>
     (\<exists>uri. parse_tos_uri uri True = Ok (uw_destination walker)) \<and>
     (\<forall>p. uw_parent_prefix walker = Some p \<longrightarrow> p \<noteq> [] \<and> slash \<notin> set p)"

lemma upload_walker_new_wf:
  assumes "upload_walker_new source tree destination include_parent = Ok walker"
  shows "walker_wf walker" and "parse_tos_uri destination True = Ok (uw_destination walker)"
    and "recursive_source_parent_prefix source include_parent = Ok (uw_parent_prefix walker)"
    and "is_directory tree"
proof -
  show dest: "parse_tos_uri destination True = Ok (uw_destination walker)"
    and parent: "recursive_source_parent_prefix source include_parent = Ok (uw_parent_prefix walker)"
    and "is_directory tree"
    using assms by (auto simp: upload_walker_new_def try_in_Ok_iff split: if_splits)
  show "walker_wf walker"
    unfolding walker_wf_def using dest parent parent_prefix_plain by metis
qed

lemma joined_names:
  assumes "path \<noteq> []" and "\<forall>n \<in> set path. plain_name n"
  shows "join_with slash path \<noteq> []" and "hd (join_with slash path) \<noteq> slash"
    and "last (join_with slash path) \<noteq> slash" and "slashed (join_with slash path) = join_with slash path"
proof -
  have "join_with slash path \<noteq> [] \<and> hd (join_with slash path) \<noteq> slash \<and>
      last (join_with slash path) \<noteq> slash \<and> slashed (join_with slash path) = join_with slash path"
    using assms
  proof (induction path)
    case (Cons x ys)
    have x: "x \<noteq> []" "hd x \<noteq> slash" "last x \<noteq> slash" "slashed x = x"
      using Cons.prems by (auto simp: plain_name_def slashed_def intro!: map_idI dest: hd_in_set last_in_set)
    show ?case
    proof (cases "ys = []")
      case False
      then show ?thesis using x Cons by (auto simp: join_with_Cons slashed_def)
    qed (use x in simp)
  qed simp
  then show "join_with slash path \<noteq> []" and "hd (join_with slash path) \<noteq> slash"
    and "last (join_with slash path) \<noteq> slash" and "slashed (join_with slash path) = join_with slash path"
    by simp_all
qed

definition walk_relative :: "upload_walker \<Rightarrow> string list \<Rightarrow> string" where
  "walk_relative walker path = prepend_parent_prefix (join_with slash path) (uw_parent_prefix walker)"

definition walk_key :: "upload_walker \<Rightarrow> string list \<Rightarrow> bool \<Rightarrow> string" where
  "walk_key walker path is_dir =
     join_tos_key (unwrap_key (tu_key (uw_destination walker))) (walk_relative walker path) @ (if is_dir then [slash] else [])"

lemma walk_relative_parts:
  assumes "walker_wf walker" and "path \<noteq> []" and "\<forall>n \<in> set path. plain_name n"
  shows "walk_relative walker path = (case uw_parent_prefix walker of
      None \<Rightarrow> join_with slash path | Some p \<Rightarrow> p @ slash # join_with slash path)"
    and "walk_relative walker path \<noteq> []" and "hd (walk_relative walker path) \<noteq> slash"
    and "last (walk_relative walker path) \<noteq> slash"
proof -
  note j = joined_names [OF assms(2,3)]
  have p: "p \<noteq> [] \<and> hd p \<noteq> slash \<and> trim_of slash p = p" if "uw_parent_prefix walker = Some p" for p
  proof -
    have "p \<noteq> []" and "slash \<notin> set p" using assms(1) that by (auto simp: walker_wf_def)
    moreover from this have "hd p \<noteq> slash" and "last p \<noteq> slash" by (metis hd_in_set, metis last_in_set)
    ultimately show ?thesis by (simp add: trim_of_id)
  qed
  show r: "walk_relative walker path = (case uw_parent_prefix walker of
      None \<Rightarrow> join_with slash path | Some p \<Rightarrow> p @ slash # join_with slash path)"
    using j p by (auto simp: walk_relative_def prepend_parent_prefix_def join_tos_key_def trim_start_of_id split: option.split)
  show "walk_relative walker path \<noteq> []" "hd (walk_relative walker path) \<noteq> slash"
    "last (walk_relative walker path) \<noteq> slash"
    unfolding r using j p by (auto simp: hd_append split: option.split)
qed

lemma plan_item_key:
  assumes "walker_wf walker" and "path \<noteq> []" and "\<forall>n \<in> set path. plain_name n"
  shows "\<exists>item. plan_item walker path is_dir bytes = Some item \<and> ui_path item = path \<and>
      ui_size item = (if is_dir then 0 else bytes) \<and>
      ui_destination item = object_uri (tu_bucket (uw_destination walker)) (walk_key walker path is_dir) \<and>
      destination_key item = Ok (walk_key walker path is_dir)"
    and "ends_with [slash] (walk_key walker path is_dir) \<longleftrightarrow> is_dir"
proof -
  let ?K = "unwrap_key (tu_key (uw_destination walker))" and ?r = "walk_relative walker path"
  note r = walk_relative_parts [OF assms]
  have ne: "join_tos_key ?K ?r \<noteq> []" and last: "last (join_tos_key ?K ?r) \<noteq> slash"
    using r by (auto simp: join_tos_key_def trim_start_of_id)
  then show dir: "ends_with [slash] (walk_key walker path is_dir) \<longleftrightarrow> is_dir"
    by (simp add: walk_key_def ends_with_single)
  obtain uri where uri: "parse_tos_uri uri True = Ok (uw_destination walker)"
    using assms(1) by (auto simp: walker_wf_def)
  from canonical_join [OF uri ne]
  have "canonical_object (tu_bucket (uw_destination walker)) (walk_key walker path is_dir)"
    using ne by (simp add: canonical_object_def walk_key_def)
  note parsed = parse_object_uri [OF this, of False]
  have u: "unwrap_key (Some x) = x" for x by (simp add: unwrap_key_def)
  have "slashed (join_with slash path) = join_with slash path" by (rule joined_names(4) [OF assms(2,3)])
  then show "\<exists>item. plan_item walker path is_dir bytes = Some item \<and> ui_path item = path \<and>
      ui_size item = (if is_dir then 0 else bytes) \<and>
      ui_destination item = object_uri (tu_bucket (uw_destination walker)) (walk_key walker path is_dir) \<and>
      destination_key item = Ok (walk_key walker path is_dir)"
    using ne last parsed
    by (cases is_dir; simp add: plan_item_def Let_def walk_relative_def [symmetric] ends_with_single
        destination_key_def walk_key_def u)
qed

lemma sync_relative_key:
  assumes "walker_wf walker" and "path \<noteq> []" and "\<forall>n \<in> set path. plain_name n"
    and "starts_with (sync_prefix walker) (walk_key walker path is_dir)"
  shows "sync_remote_relative (walk_key walker path is_dir) (sync_prefix walker) (uw_parent_prefix walker) =
    join_with slash path"
proof -
  note r = walk_relative_parts [OF assms(1-3)]
  have "strip_tos_prefix (walk_key walker path is_dir) (sync_prefix walker) =
      walk_relative walker path @ (if is_dir then [slash] else [])"
    using strip_joined_key [OF r(2,3)] assms(4) unfolding walk_key_def sync_prefix_def by blast
  moreover have "trim_end_of slash (walk_relative walker path @ (if is_dir then [slash] else [])) =
      walk_relative walker path"
    using r(4) trim_end_of_id [of "walk_relative walker path" slash] by (simp add: trim_end_of_def)
  moreover have "strip_prefix (p @ [slash]) (p @ slash # s) = Some s" for p s :: string
    by (simp add: strip_prefix_Some)
  ultimately show ?thesis
    using r(1) joined_names(1) [OF assms(2,3)]
    by (cases "uw_parent_prefix walker") (auto simp: sync_remote_relative_def Let_def)
qed

section \<open>What the plan holds\<close>

definition matching_keys ::
  "sync_args \<Rightarrow> (upload_item, cli_error) result list \<Rightarrow> string set" where
  "matching_keys args results =
     {key. \<exists>item. Ok item \<in> set results \<and>
        local_upload_item_matches item (sy_include args) (sy_exclude args) \<and> destination_key item = Ok key}"

lemma plan_uploads_desired:
  assumes "plan_uploads walker args D results planned desired emitted = Ok (planned', desired')"
  shows "desired' = desired \<union> matching_keys args results \<union>
      {parent. starts_with D parent \<and> (\<exists>key \<in> matching_keys args results. parent \<in> slash_prefixes key)} \<and>
    (\<forall>item. Ok item \<in> set results \<longrightarrow> local_upload_item_matches item (sy_include args) (sy_exclude args) \<longrightarrow>
       destination_key item \<in> range Ok) \<and> (\<forall>e. Err e \<notin> set results)"
  using assms
proof (induction walker args D results planned desired emitted arbitrary: planned' desired' rule: plan_uploads.induct)
  case (1 walker args D planned desired emitted)
  then show ?case by (simp add: matching_keys_def)
next
  case (2 walker args D e results planned desired emitted)
  then show ?case by simp
next
  case (3 walker args D item results planned desired emitted)
  show ?case
  proof (cases "local_upload_item_matches item (sy_include args) (sy_exclude args)")
    case False
    then have "matching_keys args (Ok item # results) = matching_keys args results"
      by (auto simp: matching_keys_def)
    then show ?thesis using 3 False by auto
  next
    case True
    obtain key where key: "destination_key item = Ok key"
      using 3(3) True by (auto simp: try_in_Ok_iff)
    obtain actions emitted1 where sel: "select_local_upload_actions walker item (\<not> sy_disable_dir_object args) emitted
        = (actions, emitted1)"
      by (cases "select_local_upload_actions walker item (\<not> sy_disable_dir_object args) emitted")
    let ?d = "protect_tos_key_ancestors (insert key desired) key D"
    obtain uploads where "try_map planned_upload_of actions = Ok uploads"
      and rec: "plan_uploads walker args D results (planned @ uploads) ?d emitted1 = Ok (planned', desired')"
      using 3(3) True key sel by (auto simp: try_in_Ok_iff Let_def)
    have keys: "matching_keys args (Ok item # results) = insert key (matching_keys args results)"
      using True key by (auto simp: matching_keys_def)
    have "desired' = ?d \<union> matching_keys args results \<union>
        {parent. starts_with D parent \<and> (\<exists>key \<in> matching_keys args results. parent \<in> slash_prefixes key)} \<and>
      (\<forall>item. Ok item \<in> set results \<longrightarrow> local_upload_item_matches item (sy_include args) (sy_exclude args) \<longrightarrow>
         destination_key item \<in> range Ok) \<and> (\<forall>e. Err e \<notin> set results)"
      using 3(2) True key sel rec \<open>try_map planned_upload_of actions = Ok uploads\<close> by auto
    then show ?thesis using key by (auto simp: keys protect_tos_key_ancestors_def)
  qed
qed

lemma try_map_members:
  assumes "try_map f xs = Ok ys"
  shows "y \<in> set ys \<Longrightarrow> \<exists>x \<in> set xs. f x = Ok y" and "x \<in> set xs \<Longrightarrow> \<exists>y \<in> set ys. f x = Ok y"
proof -
  have "list_all2 (\<lambda>x y. f x = Ok y) xs ys" using assms by (simp add: try_map_Ok_iff)
  then show "y \<in> set ys \<Longrightarrow> \<exists>x \<in> set xs. f x = Ok y" and "x \<in> set xs \<Longrightarrow> \<exists>y \<in> set ys. f x = Ok y"
    by (induction rule: list_all2_induct) auto
qed

lemma retain_actions_facts:
  "set (fst (retain_actions actions emitted)) \<subseteq> set actions"
  "action \<in> set actions \<Longrightarrow> \<not> ends_with [slash] (ui_destination action) \<Longrightarrow>
   action \<in> set (fst (retain_actions actions emitted))"
  by (induction actions emitted rule: retain_actions.induct) auto

lemma select_actions_facts:
  assumes "select_local_upload_actions walker item preserving emitted = (actions, emitted1)"
  shows "set actions \<subseteq> insert item (set (required_local_upload_ancestors walker item))"
    and "\<not> ends_with [slash] (ui_destination item) \<Longrightarrow> item \<in> set actions"
proof -
  have a: "actions = fst (select_local_upload_actions walker item preserving emitted)" using assms by simp
  show "set actions \<subseteq> insert item (set (required_local_upload_ancestors walker item))"
    unfolding a select_local_upload_actions_def by (auto dest!: subsetD [OF retain_actions_facts(1)] split: if_splits)
  show "\<not> ends_with [slash] (ui_destination item) \<Longrightarrow> item \<in> set actions"
    unfolding a select_local_upload_actions_def by (simp add: retain_actions_facts(2))
qed

definition planned_for ::
  "upload_walker \<Rightarrow> sync_args \<Rightarrow> (upload_item, cli_error) result list \<Rightarrow> planned_upload \<Rightarrow> bool" where
  "planned_for walker args results upload \<longleftrightarrow>
     (\<exists>item action. Ok item \<in> set results \<and> local_upload_item_matches item (sy_include args) (sy_exclude args) \<and>
        action \<in> insert item (set (required_local_upload_ancestors walker item)) \<and>
        planned_upload_of action = Ok upload)"

lemma plan_uploads_planned:
  assumes "plan_uploads walker args D results planned desired emitted = Ok (planned', desired')"
  shows "set planned \<subseteq> set planned' \<and>
    (\<forall>upload \<in> set planned'. upload \<in> set planned \<or> planned_for walker args results upload) \<and>
    (\<forall>item. Ok item \<in> set results \<longrightarrow> local_upload_item_matches item (sy_include args) (sy_exclude args) \<longrightarrow>
       \<not> ends_with [slash] (ui_destination item) \<longrightarrow> (\<exists>upload \<in> set planned'. planned_upload_of item = Ok upload))"
  using assms
proof (induction walker args D results planned desired emitted arbitrary: planned' desired' rule: plan_uploads.induct)
  case (1 walker args D planned desired emitted)
  then show ?case by simp
next
  case (2 walker args D e results planned desired emitted)
  then show ?case by simp
next
  case (3 walker args D item results planned desired emitted)
  have more: "planned_for walker args results u \<Longrightarrow> planned_for walker args (Ok item # results) u" for u
    unfolding planned_for_def by auto
  show ?case
  proof (cases "local_upload_item_matches item (sy_include args) (sy_exclude args)")
    case False
    then have "plan_uploads walker args D results planned desired emitted = Ok (planned', desired')" using 3(3) by simp
    from 3(1) [OF False this] show ?thesis using False more by auto
  next
    case True
    obtain key where key: "destination_key item = Ok key"
      using 3(3) True by (auto simp: try_in_Ok_iff)
    obtain actions emitted1 where sel: "select_local_upload_actions walker item (\<not> sy_disable_dir_object args) emitted
        = (actions, emitted1)"
      by (cases "select_local_upload_actions walker item (\<not> sy_disable_dir_object args) emitted")
    let ?d = "protect_tos_key_ancestors (insert key desired) key D"
    obtain uploads where ups: "try_map planned_upload_of actions = Ok uploads"
      and rec: "plan_uploads walker args D results (planned @ uploads) ?d emitted1 = Ok (planned', desired')"
      using 3(3) True key sel by (auto simp: try_in_Ok_iff Let_def)
    have ih: "set (planned @ uploads) \<subseteq> set planned' \<and>
      (\<forall>upload \<in> set planned'. upload \<in> set (planned @ uploads) \<or> planned_for walker args results upload) \<and>
      (\<forall>item. Ok item \<in> set results \<longrightarrow> local_upload_item_matches item (sy_include args) (sy_exclude args) \<longrightarrow>
         \<not> ends_with [slash] (ui_destination item) \<longrightarrow> (\<exists>upload \<in> set planned'. planned_upload_of item = Ok upload))"
      by (rule 3(2)) (use True key sel ups rec in auto)
    have new: "planned_for walker args (Ok item # results) u" if u: "u \<in> set uploads" for u
    proof -
      obtain action where "action \<in> set actions" and "planned_upload_of action = Ok u"
        using try_map_members(1) [OF ups u] by blast
      then show ?thesis using True select_actions_facts(1) [OF sel] unfolding planned_for_def by auto
    qed
    have own: "\<exists>upload \<in> set uploads. planned_upload_of item = Ok upload"
      if "\<not> ends_with [slash] (ui_destination item)"
      using try_map_members(2) [OF ups] select_actions_facts(2) [OF sel that] by blast
    have sub: "set uploads \<subseteq> set planned'" using ih by simp
    show ?thesis
    proof (intro conjI allI impI ballI)
      show "set planned \<subseteq> set planned'" using ih by simp
    next
      fix upload
      assume "upload \<in> set planned'"
      then show "upload \<in> set planned \<or> planned_for walker args (Ok item # results) upload"
        using ih new more by auto
    next
      fix i
      assume "Ok i \<in> set (Ok item # results)" "local_upload_item_matches i (sy_include args) (sy_exclude args)"
        "\<not> ends_with [slash] (ui_destination i)"
      then show "\<exists>upload \<in> set planned'. planned_upload_of i = Ok upload" using own sub ih by auto
    qed
  qed
qed

section \<open>The copies and the deletions\<close>

text \<open>
  What the bucket does: a copy that succeeds stores the bytes of the file at the key, one
  that is skipped changes nothing, and whatever happens only the key and folder keys above
  it change, and nothing stored disappears; a deletion touches only its key.
\<close>

type_synonym 's bucket_view = "'s \<Rightarrow> string \<Rightarrow> string option"

definition copy_contract :: "'s sync_service \<Rightarrow> (string list \<Rightarrow> string) \<Rightarrow> 's bucket_view \<Rightarrow> bool" where
  "copy_contract svc bytes stored \<longleftrightarrow>
     (\<forall>st path key k. stored st k \<noteq> None \<longrightarrow> stored (snd (ss_copy svc st path key)) k \<noteq> None) \<and>
     (\<forall>st path key k. k \<noteq> key \<longrightarrow> k \<notin> slash_prefixes key \<longrightarrow>
        stored (snd (ss_copy svc st path key)) k = stored st k) \<and>
     (\<forall>st path key. fst (ss_copy svc st path key) = Ok Transferred \<longrightarrow>
        stored (snd (ss_copy svc st path key)) key = Some (bytes path))"

definition delete_contract :: "'s sync_service \<Rightarrow> 's bucket_view \<Rightarrow> bool" where
  "delete_contract svc stored \<longleftrightarrow>
     (\<forall>st key etag k. k \<noteq> key \<longrightarrow> stored (snd (ss_delete svc st key etag)) k = stored st k) \<and>
     (\<forall>st key etag u. fst (ss_delete svc st key etag) = Ok u \<longrightarrow> stored (snd (ss_delete svc st key etag)) key = None)"

lemma copyD:
  assumes "copy_contract svc bytes stored" and "ss_copy svc st path key = (r, st1)"
  shows "stored st k \<noteq> None \<Longrightarrow> stored st1 k \<noteq> None"
    and "k \<noteq> key \<Longrightarrow> k \<notin> slash_prefixes key \<Longrightarrow> stored st1 k = stored st k"
    and "r = Ok Transferred \<Longrightarrow> stored st1 key = Some (bytes path)"
  using assms unfolding copy_contract_def by (metis snd_conv, metis snd_conv, metis fst_conv snd_conv)

lemma deleteD:
  assumes "delete_contract svc stored" and "ss_delete svc st key etag = (r, st1)"
  shows "k \<noteq> key \<Longrightarrow> stored st1 k = stored st k" and "r = Ok u \<Longrightarrow> stored st1 key = None"
  using assms unfolding delete_contract_def by (metis snd_conv, metis fst_conv snd_conv)

definition active :: "(planned_upload \<Rightarrow> bool) \<Rightarrow> planned_upload list \<Rightarrow> planned_upload list \<Rightarrow> planned_upload set" where
  "active skipped in_flight pending = set in_flight \<union> {u \<in> set pending. \<not> skipped u}"

lemma start_copies_facts:
  "start_copies skipped note_skip limit in_flight pending report = (fl, pd, report1) \<Longrightarrow>
   active skipped fl pd = active skipped in_flight pending \<and> (0 < limit \<longrightarrow> fl = [] \<longrightarrow> pd = [])"
proof (induction skipped note_skip limit in_flight pending report rule: start_copies.induct)
  case (2 skipped note_skip limit in_flight upload pending report)
  show ?case
  proof (cases "length in_flight < limit")
    case True
    then show ?thesis using 2 by (cases "skipped upload") (auto simp: active_def)
  next
    case False
    then show ?thesis using 2 by auto
  qed
qed (auto simp: active_def)

lemma start_copies_subset:
  "start_copies skipped note_skip limit in_flight pending report = (fl, pd, report1) \<Longrightarrow>
   set fl \<union> set pd \<subseteq> set in_flight \<union> set pending"
proof (induction skipped note_skip limit in_flight pending report rule: start_copies.induct)
  case (2 skipped note_skip limit in_flight upload pending report)
  show ?case
  proof (cases "length in_flight < limit")
    case True
    then show ?thesis using 2 by (cases "skipped upload") auto
  next
    case False
    then show ?thesis using 2 by auto
  qed
qed auto

lemma start_copies_report:
  assumes "start_copies skipped note_skip limit in_flight pending report = (fl, pd, report1)"
    and "\<forall>u r. br_failed (sr_report (note_skip u r)) = br_failed (sr_report r) \<and>
      (sr_error r \<noteq> None \<longrightarrow> sr_error (note_skip u r) \<noteq> None)"
  shows "br_failed (sr_report report1) = br_failed (sr_report report) \<and>
    (sr_error report \<noteq> None \<longrightarrow> sr_error report1 \<noteq> None)"
  using assms
proof (induction skipped note_skip limit in_flight pending report rule: start_copies.induct)
  case (2 skipped note_skip limit in_flight upload pending report)
  show ?case
  proof (cases "length in_flight < limit")
    case True
    then show ?thesis using 2 by (cases "skipped upload") auto
  next
    case False
    then show ?thesis using 2 by auto
  qed
qed auto

lemma record_row_error: "sr_error r \<noteq> None \<Longrightarrow> sr_error (record_row rows f r) \<noteq> None"
  by (auto simp: record_row_def)

lemma note_skip_report:
  "br_failed (sr_report (note_copy_skipped args bucket rows u r)) = br_failed (sr_report r) \<and>
   (sr_error r \<noteq> None \<longrightarrow> sr_error (note_copy_skipped args bucket rows u r) \<noteq> None)"
proof
  show "br_failed (sr_report (note_copy_skipped args bucket rows u r)) = br_failed (sr_report r)"
    by (simp add: note_copy_skipped_def sync_uris_def record_row_def record_skipped_def)
  show "sr_error r \<noteq> None \<longrightarrow> sr_error (note_copy_skipped args bucket rows u r) \<noteq> None"
    unfolding note_copy_skipped_def sync_uris_def prod.case by (intro impI record_row_error)
qed

lemma note_result_report:
  "br_failed (sr_report (note_copy_result args bucket rows u result r)) =
     br_failed (sr_report r) @ (case result of Err e \<Rightarrow>
       [\<lparr>bi_operation = ''sync-copy'', bi_source = fst (sync_uris args bucket u),
         bi_destination = Some (snd (sync_uris args bucket u)), bi_error = Some e\<rparr>] | Ok _ \<Rightarrow> [])"
  "sr_error r \<noteq> None \<Longrightarrow> sr_error (note_copy_result args bucket rows u result r) \<noteq> None"
proof -
  show "br_failed (sr_report (note_copy_result args bucket rows u result r)) =
     br_failed (sr_report r) @ (case result of Err e \<Rightarrow>
       [\<lparr>bi_operation = ''sync-copy'', bi_source = fst (sync_uris args bucket u),
         bi_destination = Some (snd (sync_uris args bucket u)), bi_error = Some e\<rparr>] | Ok _ \<Rightarrow> [])"
    by (auto simp: note_copy_result_def sync_uris_def record_row_def record_skipped_def record_success_def
        record_failure_def split: result.split copy_outcome.split)
  show "sr_error r \<noteq> None \<Longrightarrow> sr_error (note_copy_result args bucket rows u result r) \<noteq> None"
    unfolding note_copy_result_def sync_uris_def prod.case by (rule record_row_error)
qed

lemma active_pick:
  assumes "i < length fl"
  shows "active skipped fl pd = insert (fl ! i) (active skipped (remove_at i fl) pd)"
proof -
  have "set fl = insert (fl ! i) (set (remove_at i fl))"
    using mset_remove_at [OF assms] by (metis set_mset_add_mset_insert set_mset_mset)
  then show ?thesis unfolding active_def by (simp only: Un_insert_left)
qed

lemma sync_copies_sound:
  assumes contract: "copy_contract svc bytes stored"
    and "sync_copies svc args bucket rows inventory c pick n in_flight pending report st = (report', st')"
  shows "(\<forall>k. stored st k \<noteq> None \<longrightarrow> stored st' k \<noteq> None) \<and>
    (\<forall>k. (\<forall>u \<in> active (upload_is_skipped args inventory) in_flight pending.
        k \<noteq> pu_key u \<and> k \<notin> slash_prefixes (pu_key u)) \<longrightarrow> stored st' k = stored st k) \<and>
    (br_failed (sr_report report') = [] \<longrightarrow> br_failed (sr_report report) = []) \<and>
    (sr_error report \<noteq> None \<longrightarrow> sr_error report' \<noteq> None)"
  using assms(2)
proof (induction "length in_flight + length pending" arbitrary: in_flight pending n report st rule: less_induct)
  case less
  let ?sk = "upload_is_skipped args inventory"
  obtain fl pd report1 where f: "start_copies ?sk (note_copy_skipped args bucket rows) (max 1 c)
      in_flight pending report = (fl, pd, report1)"
    using prod_cases3 by blast
  note act = start_copies_facts [OF f]
  have rep: "br_failed (sr_report report1) = br_failed (sr_report report) \<and>
      (sr_error report \<noteq> None \<longrightarrow> sr_error report1 \<noteq> None)"
    by (rule start_copies_report [OF f]) (simp add: note_skip_report)
  show ?case
  proof (cases "fl = []")
    case True
    then have "report' = report1 \<and> st' = st"
      using less.prems f by (subst (asm) sync_copies.simps) simp
    then show ?thesis using rep by simp
  next
    case False
    define i where "i = pick n mod length fl"
    have i: "i < length fl" using False by (simp add: i_def)
    let ?u = "fl ! i"
    obtain result st1 where run: "ss_copy svc st (pu_path ?u) (pu_key ?u) = (result, st1)" by fastforce
    let ?report2 = "note_copy_result args bucket rows ?u result report1"
    have rest: "sync_copies svc args bucket rows inventory c pick (Suc n) (remove_at i fl) pd ?report2 st1 = (report', st')"
      using less.prems f False run
      by (subst (asm) sync_copies.simps) (simp add: i_def [symmetric] Let_def)
    have "length (remove_at i fl) + length pd < length in_flight + length pending"
      using start_copies_shrinks [OF f [symmetric] False, of "pick n"] by (simp add: i_def)
    note ih = less.hyps [OF this rest]
    have split: "active ?sk in_flight pending = insert ?u (active ?sk (remove_at i fl) pd)"
      using active_pick [OF i] act by simp
    then have mem: "?u \<in> active ?sk in_flight pending"
      and sub: "active ?sk (remove_at i fl) pd \<subseteq> active ?sk in_flight pending" by blast+
    show ?thesis
    proof (intro conjI allI impI)
      show "stored st' k \<noteq> None" if "stored st k \<noteq> None" for k
        using ih copyD(1) [OF contract run that] by blast
      show "stored st' k = stored st k"
        if k: "\<forall>u \<in> active ?sk in_flight pending. k \<noteq> pu_key u \<and> k \<notin> slash_prefixes (pu_key u)" for k
      proof -
        have "stored st' k = stored st1 k" using ih k sub by blast
        moreover have "stored st1 k = stored st k" using copyD(2) [OF contract run] k mem by blast
        ultimately show ?thesis by simp
      qed
      show "br_failed (sr_report report) = []" if "br_failed (sr_report report') = []"
        using ih that rep by (simp add: note_result_report(1))
      show "sr_error report' \<noteq> None" if "sr_error report \<noteq> None"
      proof -
        have "sr_error ?report2 \<noteq> None" using rep that by (intro note_result_report(2)) simp
        then show ?thesis using ih by blast
      qed
    qed
  qed
qed

text \<open>With the overwriting strategy no copy is skipped by the service.\<close>

definition never_skips :: "'s sync_service \<Rightarrow> bool" where
  "never_skips svc \<longleftrightarrow> (\<forall>st path key. fst (ss_copy svc st path key) \<noteq> Ok Skipped)"

lemma slash_prefix_ends: "k \<in> slash_prefixes key \<Longrightarrow> ends_with [slash] k"
  by (auto simp: slash_prefixes_def ends_with_single take_Suc_conv_app_nth)

text \<open>An object that one path is copied to ends with the bytes of that path.\<close>

lemma sync_copies_stores:
  assumes contract: "copy_contract svc bytes stored" and force: "never_skips svc"
    and key: "\<not> ends_with [slash] key"
    and "\<forall>u \<in> set in_flight \<union> set pending. pu_key u = key \<longrightarrow> pu_path u = path"
    and "stored st key = Some (bytes path) \<or>
      (\<exists>u \<in> active (upload_is_skipped args inventory) in_flight pending. pu_key u = key)"
    and "sync_copies svc args bucket rows inventory c pick n in_flight pending report st = (report', st')"
    and "br_failed (sr_report report') = []"
  shows "stored st' key = Some (bytes path)"
  using assms(4-7)
proof (induction "length in_flight + length pending" arbitrary: in_flight pending n report st rule: less_induct)
  case less
  let ?sk = "upload_is_skipped args inventory"
  obtain fl pd report1 where f: "start_copies ?sk (note_copy_skipped args bucket rows) (max 1 c)
      in_flight pending report = (fl, pd, report1)"
    using prod_cases3 by blast
  note act = start_copies_facts [OF f]
  have all: "set fl \<union> set pd \<subseteq> set in_flight \<union> set pending"
    using f by (rule start_copies_subset)
  show ?case
  proof (cases "fl = []")
    case True
    then have "st' = st" using less.prems(3) f by (subst (asm) sync_copies.simps) simp
    moreover have "active ?sk in_flight pending = {}" using act True by (auto simp: active_def)
    ultimately show ?thesis using less.prems(2) by simp
  next
    case False
    define i where "i = pick n mod length fl"
    have i: "i < length fl" using False by (simp add: i_def)
    let ?u = "fl ! i"
    obtain result st1 where run: "ss_copy svc st (pu_path ?u) (pu_key ?u) = (result, st1)" by fastforce
    let ?report2 = "note_copy_result args bucket rows ?u result report1"
    have rest: "sync_copies svc args bucket rows inventory c pick (Suc n) (remove_at i fl) pd ?report2 st1 = (report', st')"
      using less.prems(3) f False run
      by (subst (asm) sync_copies.simps) (simp add: i_def [symmetric] Let_def)
    have shorter: "length (remove_at i fl) + length pd < length in_flight + length pending"
      using start_copies_shrinks [OF f [symmetric] False, of "pick n"] by (simp add: i_def)
    have "br_failed (sr_report ?report2) = []"
      using sync_copies_sound [OF contract rest] less.prems(4) by blast
    then have "\<exists>o1. result = Ok o1" by (cases result) (simp_all add: note_result_report(1))
    then have ok: "result = Ok Transferred"
      using force run unfolding never_skips_def by (metis copy_outcome.exhaust fst_conv)
    have u: "?u \<in> set fl" using i by simp
    have split: "set fl = insert ?u (set (remove_at i fl))"
      using mset_remove_at [OF i] by (metis set_mset_add_mset_insert set_mset_mset)
    have paths: "\<forall>u \<in> set (remove_at i fl) \<union> set pd. pu_key u = key \<longrightarrow> pu_path u = path"
      using less.prems(1) all split by blast
    have "stored st1 key = Some (bytes path) \<or>
        (\<exists>u \<in> active ?sk (remove_at i fl) pd. pu_key u = key)"
    proof (cases "pu_key ?u = key")
      case True
      then have "pu_path ?u = path" using less.prems(1) all u by blast
      then show ?thesis using copyD(3) [OF contract run ok] True by simp
    next
      case no: False
      have "stored st1 key = stored st key"
        using copyD(2) [OF contract run] no key slash_prefix_ends by metis
      moreover have "active ?sk in_flight pending = insert ?u (active ?sk (remove_at i fl) pd)"
        using active_pick [OF i] act by simp
      ultimately show ?thesis using less.prems(2) no by auto
    qed
    from less.hyps [OF shorter paths this rest less.prems(4)] show ?thesis .
  qed
qed

lemma skip_rows:
  "br_failed (sr_report (fold (\<lambda>entry. record_row rows (record_skipped op (f entry) None)) xs report)) =
     br_failed (sr_report report) \<and>
   (sr_error report \<noteq> None \<longrightarrow>
     sr_error (fold (\<lambda>entry. record_row rows (record_skipped op (f entry) None)) xs report) \<noteq> None)"
proof (induction xs arbitrary: report)
  case (Cons x xs)
  let ?r = "record_row rows (record_skipped op (f x) None) report"
  have "br_failed (sr_report ?r) = br_failed (sr_report report)" by (simp add: record_row_def record_skipped_def)
  moreover have "sr_error report \<noteq> None \<longrightarrow> sr_error ?r \<noteq> None" using record_row_error by blast
  ultimately show ?case using Cons [of ?r] by simp
qed simp

definition only_deletes :: "batch_item list \<Rightarrow> bool" where
  "only_deletes items \<longleftrightarrow> (\<forall>row \<in> set items. bi_operation row = ''delete-extra'')"

lemma sync_deletes_sound:
  assumes contract: "delete_contract svc stored"
    and "sync_deletes svc bucket rows extras report st = (report', st')"
  shows "(\<forall>k. k \<notin> oe_key ` set extras \<longrightarrow> stored st' k = stored st k) \<and>
    (sr_error report \<noteq> None \<longrightarrow> sr_error report' \<noteq> None) \<and>
    (\<exists>more. br_failed (sr_report report') = br_failed (sr_report report) @ more \<and> only_deletes more) \<and>
    (br_failed (sr_report report') = [] \<longrightarrow> sr_error report' = None \<longrightarrow>
       (\<forall>k. k \<in> oe_key ` set extras \<or> stored st k = None \<longrightarrow> stored st' k = None))"
  using assms(2)
proof (induction extras arbitrary: report st)
  case Nil
  then show ?case by (simp add: only_deletes_def)
next
  case (Cons entry extras)
  show ?case
  proof (cases "sr_error report = None")
    case False
    then have r: "report' = fold (\<lambda>pending. record_row rows (record_skipped ''delete-extra'' (object_uri bucket (oe_key pending)) None))
        (entry # extras) report" and s: "st' = st"
      using Cons.prems by simp_all
    have sk: "br_failed (sr_report report') = br_failed (sr_report report)" "sr_error report' \<noteq> None"
      unfolding r
      using skip_rows [where rows = rows and f = "\<lambda>e. object_uri bucket (oe_key e)" and op = "''delete-extra''"
          and xs = "entry # extras" and report = report] False
      by blast+
    show ?thesis using sk s by (auto simp: only_deletes_def)
  next
    case True
    obtain result st1 where run: "ss_delete svc st (oe_key entry) (oe_etag entry) = (result, st1)" by fastforce
    define report1 where "report1 = record_row rows
        (case result of
           Ok _ \<Rightarrow> record_success ''delete-extra'' (object_uri bucket (oe_key entry)) None
         | Err e \<Rightarrow> record_failure ''delete-extra'' (object_uri bucket (oe_key entry)) None e) report"
    have rest: "sync_deletes svc bucket rows extras report1 st1 = (report', st')"
      using Cons.prems True run by (simp add: report1_def)
    have failed: "\<exists>more. br_failed (sr_report report1) = br_failed (sr_report report) @ more \<and> only_deletes more \<and>
        (more = [] \<longrightarrow> (\<exists>u. result = Ok u))"
      by (cases result)
        (auto simp: report1_def record_row_def record_success_def record_failure_def only_deletes_def)
    note ih = Cons.IH [OF rest]
    obtain m1 m2 where m: "br_failed (sr_report report') = br_failed (sr_report report) @ m1 @ m2"
      "only_deletes (m1 @ m2)" "m1 = [] \<longrightarrow> (\<exists>u. result = Ok u)"
      using failed ih by (fastforce simp: only_deletes_def)
    show ?thesis
    proof (intro conjI allI impI)
      show "stored st' k = stored st k" if "k \<notin> oe_key ` set (entry # extras)" for k
        using ih that deleteD(1) [OF contract run, of k] by simp
      show "sr_error report' \<noteq> None" if "sr_error report \<noteq> None" using that True by simp
      show "\<exists>more. br_failed (sr_report report') = br_failed (sr_report report) @ more \<and> only_deletes more"
        using m by blast
      show "stored st' k = None"
        if clean: "br_failed (sr_report report') = []" "sr_error report' = None"
          and k: "k \<in> oe_key ` set (entry # extras) \<or> stored st k = None" for k
      proof -
        obtain u where "result = Ok u" using m clean(1) by auto
        then have "stored st1 (oe_key entry) = None" using deleteD(2) [OF contract run] by blast
        then have "k \<in> oe_key ` set extras \<or> stored st1 k = None"
          using k deleteD(1) [OF contract run, of k] by (cases "k = oe_key entry") auto
        from ih [THEN conjunct2, THEN conjunct2, THEN conjunct2, rule_format, OF clean this] show ?thesis .
      qed
    qed
  qed
qed

lemma set_insert_entry: "set (insert_entry e es) = insert e (set es)"
  by (induction es) auto

lemma set_sort_extras [simp]: "set (sort_tos_sync_delete_entries_bottom_up es) = set es"
proof -
  have "set (foldr insert_entry es []) = set es" by (induction es) (simp_all add: set_insert_entry)
  then show ?thesis by (simp add: sort_tos_sync_delete_entries_bottom_up_def)
qed

lemma run_sync_parts:
  assumes "run_sync env svc args bucket inventory planned extras st = (report, st')"
  shows "\<exists>report0 report1 st1.
    sync_copies svc args bucket (se_rows env) inventory (se_batch_concurrency env) (se_pick env) 0 [] planned report0 st
      = (report1, st1) \<and> br_failed (sr_report report0) = [] \<and>
    (sy_delete args \<and> \<not> has_failures report1 \<and> sync_deletes svc bucket (se_rows env) extras report1 st1 = (report, st') \<or>
     st' = st1 \<and> (sy_delete args \<longrightarrow> has_failures report1) \<and> br_failed (sr_report report) = br_failed (sr_report report1) \<and>
       (sr_error report1 \<noteq> None \<longrightarrow> sr_error report \<noteq> None))"
proof -
  define report0 where "report0 =
    \<lparr>sr_report = batch_report_new (length planned + length extras), sr_rows = 0, sr_error = (None :: cli_error option)\<rparr>"
  obtain report1 st1 where c: "sync_copies svc args bucket (se_rows env) inventory (se_batch_concurrency env)
      (se_pick env) 0 [] planned report0 st = (report1, st1)" by fastforce
  have z: "br_failed (sr_report report0) = []" by (simp add: report0_def batch_report_new_def)
  note sk = skip_rows [where rows = "se_rows env" and f = "\<lambda>e. object_uri bucket (oe_key e)" and op = "''delete-extra''"
      and xs = extras and report = report1]
  have run: "(report, st') =
      (if sy_delete args \<and> has_failures report1
       then (fold (\<lambda>entry. record_row (se_rows env)
               (record_skipped ''delete-extra'' (object_uri bucket (oe_key entry)) None)) extras report1, st1)
       else if sy_delete args then sync_deletes svc bucket (se_rows env) extras report1 st1
       else (report1, st1))"
    using assms c unfolding run_sync_def report0_def [symmetric] Let_def by simp
  have "sy_delete args \<and> \<not> has_failures report1 \<and> sync_deletes svc bucket (se_rows env) extras report1 st1 = (report, st') \<or>
     st' = st1 \<and> (sy_delete args \<longrightarrow> has_failures report1) \<and> br_failed (sr_report report) = br_failed (sr_report report1) \<and>
       (sr_error report1 \<noteq> None \<longrightarrow> sr_error report \<noteq> None)"
  proof (cases "sy_delete args")
    case False
    then show ?thesis using run by simp
  next
    case True
    show ?thesis
    proof (cases "has_failures report1")
      case failed: True
      then have "report = fold (\<lambda>entry. record_row (se_rows env)
               (record_skipped ''delete-extra'' (object_uri bucket (oe_key entry)) None)) extras report1"
        and "st' = st1" using run True by simp_all
      then show ?thesis using sk failed by blast
    next
      case clean: False
      then show ?thesis using run True by simp
    qed
  qed
  then show ?thesis using c z by blast
qed

section \<open>The whole command\<close>

declare local_upload_walk.simps [simp del]

lemma execute_parts:
  assumes listing: "lists_bucket (se_fetch env) objects" "distinct (map oe_key objects)"
      "sum_list (map (\<lambda>o1. length (oe_key o1)) objects) < length (se_schedule env)"
    and walker: "upload_walker_new (sy_source args) tree (sy_destination args) (sy_include_parent args) = Ok walker"
    and run: "execute_sync_local_to_tos env svc args tree st = Some (r, st')"
  shows "(st' = st \<and> (\<exists>e. r = Err e)) \<or>
    (\<exists>planned desired extras extras' report.
       plan_uploads walker args (sync_prefix walker) (local_upload_walk walker [([], tree)]) [] {} {} = Ok (planned, desired) \<and>
       plan_local_upload_sync_extras args (sync_prefix walker) (objects_below objects (Some (sync_prefix walker))) desired
         = Ok extras \<and> set extras' = set extras \<and>
       run_sync env svc args (tu_bucket (uw_destination walker)) (objects_below objects (Some (sync_prefix walker)))
         planned extras' st = (report, st') \<and>
       r = (case sr_error report of None \<Rightarrow> Ok (sr_report report) | Some e \<Rightarrow> Err e))"
proof -
  let ?D = "sync_prefix walker"
  note wf = upload_walker_new_wf [OF walker]
  have D: "unwrap_key (tu_key (normalize_recursive_tos_target (uw_destination walker))) = ?D"
    by (simp add: unwrap_normalized_target sync_prefix_def)
  have B: "tu_bucket (normalize_recursive_tos_target (uw_destination walker)) = tu_bucket (uw_destination walker)"
    by (simp add: normalize_recursive_tos_target_def)
  show ?thesis
  proof (cases "ss_is_hns svc")
    case (Err e)
    then have "st' = st \<and> r = Err e" using run wf(2) by (simp add: execute_sync_local_to_tos_def Let_def)
    then show ?thesis by blast
  next
    case (Ok is_hns)
    let ?listed = "objects_below objects (Some ?D)"
    have list: "list_object_entries_recursive (se_fetch env) (se_schedule env) (Some ?D) is_hns (se_list_concurrency env)
        = Some (Ok ?listed)" by (rule listing_complete [OF listing])
    have listed: "sync_listed env svc args tree (tu_bucket (uw_destination walker)) ?D is_hns ?listed st = (r, st')"
      using run list unfolding execute_sync_local_to_tos_def wf(2) Ok result.case Let_def D B
      by (simp only: option.case result.case option.inject)
    define plan where "plan = try_in (build_local_upload_sync_plan args tree ?D) (\<lambda>(planned, desired).
        try_in (plan_local_upload_sync_extras args ?D ?listed desired) (\<lambda>extras.
        try_in (se_manifest env) (\<lambda>_. try_in (se_report env) (\<lambda>_.
          Ok (planned, if sy_delete args \<and> extras \<noteq> [] \<and> is_hns
                       then sort_tos_sync_delete_entries_bottom_up extras else extras)))))"
    note run1 = listed [unfolded sync_listed_def, folded plan_def]
    show ?thesis
    proof (cases plan)
      case (Err e)
      then have "st' = st \<and> r = Err e" using run1 by simp
      then show ?thesis by blast
    next
      case plan: (Ok p)
      obtain planned desired extras where p1: "build_local_upload_sync_plan args tree ?D = Ok (planned, desired)"
        and p2: "plan_local_upload_sync_extras args ?D ?listed desired = Ok extras"
        and p3: "p = (planned, if sy_delete args \<and> extras \<noteq> [] \<and> is_hns
                       then sort_tos_sync_delete_entries_bottom_up extras else extras)"
        using plan unfolding plan_def by (auto simp: try_in_Ok_iff)
      let ?extras = "snd p"
      obtain report st1 where run2: "run_sync env svc args (tu_bucket (uw_destination walker)) ?listed planned ?extras st = (report, st1)"
        by fastforce
      have "set ?extras = set extras" unfolding p3 by simp
      moreover have "st1 = st'" and "r = (case sr_error report of None \<Rightarrow> Ok (sr_report report) | Some e \<Rightarrow> Err e)"
        using run1 run2 plan p3 by simp_all
      moreover have "plan_uploads walker args ?D (local_upload_walk walker [([], tree)]) [] {} {} = Ok (planned, desired)"
        using p1 walker by (simp add: build_local_upload_sync_plan_def)
      ultimately show ?thesis using p2 run2 by blast
    qed
  qed
qed

lemma walk_item:
  assumes "plain_tree tree"
  shows "Ok item \<in> set (local_upload_walk walker [([], tree)]) \<longleftrightarrow>
    (\<exists>path found. node_at tree path = Some found \<and> planned_at walker path found = Some item)"
  using walk_items [of "[([], tree)]" item walker] assms by simp

lemma planned_at_kind:
  "planned_at walker path found = Some item \<longleftrightarrow>
     (\<exists>content. found = LocalFile content \<and> plan_item walker path False (length content) = Some item) \<or>
     is_directory found \<and> plan_item walker path True 0 = Some item"
  by (cases found) (simp_all add: planned_at_def is_directory_def)

lemma plan_item_dest:
  assumes "walker_wf walker" and "plan_item walker path is_dir bytes = Some item"
  shows "ui_path item = path \<and> (\<exists>key. destination_key item = Ok key \<and> key \<noteq> [] \<and>
    ui_destination item = object_uri (tu_bucket (uw_destination walker)) key \<and> (is_dir \<longrightarrow> ends_with [slash] key))"
proof -
  obtain uri where uri: "parse_tos_uri uri True = Ok (uw_destination walker)"
    using assms(1) by (auto simp: walker_wf_def)
  let ?j = "join_tos_key (unwrap_key (tu_key (uw_destination walker)))
    (prepend_parent_prefix (slashed (join_with slash path)) (uw_parent_prefix walker))"
  let ?k = "if is_dir \<and> \<not> ends_with [slash] ?j then ?j @ [slash] else ?j"
  have j: "?j \<noteq> []" and item: "ui_path item = path" "ui_destination item = object_uri (tu_bucket (uw_destination walker)) ?k"
    using assms(2) by (auto simp: plan_item_def Let_def split: if_splits)
  from canonical_join [OF uri j] have "canonical_object (tu_bucket (uw_destination walker)) ?k"
    by (auto simp: canonical_object_def)
  from parse_object_uri [OF this, of False] have "destination_key item = Ok ?k"
    unfolding destination_key_def item(2) by (simp add: unwrap_key_def)
  moreover have "?k \<noteq> []" using j by simp
  moreover have "is_dir \<longrightarrow> ends_with [slash] ?k" by (simp add: ends_with_single)
  ultimately show ?thesis using item by blast
qed

text \<open>A key of the source is never an extra, whether the filters select it or not.\<close>

lemma source_key_kept:
  assumes tree: "plain_tree tree" and walker: "walker_wf walker"
    and item: "Ok item \<in> set (local_upload_walk walker [([], tree)])" and key: "destination_key item = Ok k"
    and below: "starts_with (sync_prefix walker) k"
    and match: "sync_remote_key_matches args k (sync_prefix walker) (uw_parent_prefix walker)"
  shows "k \<in> matching_keys args (local_upload_walk walker [([], tree)])"
proof -
  obtain path found where at: "node_at tree path = Some found" "planned_at walker path found = Some item"
    using item walk_item [OF tree] by blast
  then obtain is_dir bytes where p: "plan_item walker path is_dir bytes = Some item"
    unfolding planned_at_kind by blast
  then have path: "ui_path item = path" using plan_item_dest [OF walker] by blast
  have "local_upload_item_matches item (sy_include args) (sy_exclude args)"
  proof (cases "path = []")
    case True
    then show ?thesis using path by (simp add: local_upload_item_matches_def)
  next
    case False
    have plain: "\<forall>n \<in> set path. plain_name n" using node_at_plain [OF tree at(1)] by blast
    have "k = walk_key walker path is_dir"
      using plan_item_key(1) [OF walker False plain, of is_dir bytes] p key by auto
    then have "sync_remote_relative k (sync_prefix walker) (uw_parent_prefix walker) = join_with slash path"
      using sync_relative_key [OF walker False plain] below by simp
    then show ?thesis
      using match path joined_names(4) [OF False plain]
      by (simp add: local_upload_item_matches_def sync_remote_key_matches_def)
  qed
  then show ?thesis using item key unfolding matching_keys_def by blast
qed

lemma protected_fold:
  fixes listed :: "object_entry list"
  shows
  "fold (\<lambda>entry desired. if \<not> P entry then protect_tos_key_ancestors desired (oe_key entry) D else desired) listed desired =
   desired \<union> {parent. starts_with D parent \<and> (\<exists>entry \<in> set listed. \<not> P entry \<and> parent \<in> slash_prefixes (oe_key entry))}"
  by (induction listed arbitrary: desired) (auto simp: protect_tos_key_ancestors_def)

lemma extras_facts:
  assumes "plan_local_upload_sync_extras args D listed desired = Ok extras" and "sy_delete args"
    and "recursive_source_parent_prefix (sy_source args) (sy_include_parent args) = Ok parent"
  shows "set extras = {entry \<in> set listed. oe_key entry \<notin> desired \<and> sync_remote_key_matches args (oe_key entry) D parent \<and>
     \<not> (starts_with D (oe_key entry) \<and> (\<exists>kept \<in> set listed. \<not> sync_remote_key_matches args (oe_key kept) D parent \<and>
          oe_key entry \<in> slash_prefixes (oe_key kept)))}"
  using assms unfolding plan_local_upload_sync_extras_def
  by (auto simp: Let_def protected_fold [of "\<lambda>entry. sync_remote_key_matches args (oe_key entry) D parent"])

text \<open>
  C9: \<open>sync\<close> from a local directory removes an object only under \<open>--delete\<close>, below the
  destination prefix, selected by the filters, and never the key of a file or directory of the
  source, selected or not, nor a folder above a selected one; and only after every copy
  succeeded, whatever requests, rows or walks fail and in whatever order the copies complete.
\<close>

theorem sync_removes_only_extras:
  assumes "lists_bucket (se_fetch env) objects" and "distinct (map oe_key objects)"
    and "sum_list (map (\<lambda>o1. length (oe_key o1)) objects) < length (se_schedule env)"
    and copies: "copy_contract svc bytes stored" and deletes: "delete_contract svc stored"
    and tree: "plain_tree tree"
    and walker: "upload_walker_new (sy_source args) tree (sy_destination args) (sy_include_parent args) = Ok walker"
    and run: "execute_sync_local_to_tos env svc args tree st = Some (r, st')"
    and lost: "stored st k \<noteq> None" "stored st' k = None"
  shows "sy_delete args \<and> starts_with (sync_prefix walker) k \<and>
    pattern_allows (sync_remote_relative k (sync_prefix walker) (uw_parent_prefix walker)) (sy_include args) (sy_exclude args) \<and>
    (\<forall>item. Ok item \<in> set (local_upload_walk walker [([], tree)]) \<longrightarrow> destination_key item \<noteq> Ok k) \<and>
    (\<forall>key \<in> matching_keys args (local_upload_walk walker [([], tree)]). k \<notin> slash_prefixes key) \<and>
    (\<forall>report. r = Ok report \<longrightarrow> only_deletes (br_failed report))"
proof -
  let ?D = "sync_prefix walker" and ?W = "local_upload_walk walker [([], tree)]"
  let ?listed = "objects_below objects (Some ?D)"
  note wf = upload_walker_new_wf [OF walker]
  obtain planned desired extras extras' report where
    plan: "plan_uploads walker args ?D ?W [] {} {} = Ok (planned, desired)"
    and ex: "plan_local_upload_sync_extras args ?D ?listed desired = Ok extras" and same: "set extras' = set extras"
    and go: "run_sync env svc args (tu_bucket (uw_destination walker)) ?listed planned extras' st = (report, st')"
    and r: "r = (case sr_error report of None \<Rightarrow> Ok (sr_report report) | Some e \<Rightarrow> Err e)"
    using execute_parts [OF assms(1-3) walker run] lost by auto
  from run_sync_parts [OF go] obtain report0 report1 st1 where
    c: "sync_copies svc args (tu_bucket (uw_destination walker)) (se_rows env) ?listed (se_batch_concurrency env)
      (se_pick env) 0 [] planned report0 st = (report1, st1)"
    and d: "sy_delete args \<and> \<not> has_failures report1 \<and>
        sync_deletes svc (tu_bucket (uw_destination walker)) (se_rows env) extras' report1 st1 = (report, st') \<or> st' = st1"
    by blast
  have kept: "stored st1 k \<noteq> None" using sync_copies_sound [OF copies c] lost(1) by blast
  then have del: "sy_delete args" and clean: "\<not> has_failures report1"
    and ds: "sync_deletes svc (tu_bucket (uw_destination walker)) (se_rows env) extras' report1 st1 = (report, st')"
    using d lost(2) by auto
  note dd = sync_deletes_sound [OF deletes ds]
  have "k \<in> oe_key ` set extras'" using dd kept lost(2) by metis
  then have k: "k \<notin> desired" "sync_remote_key_matches args k ?D (uw_parent_prefix walker)" "k \<in> oe_key ` set ?listed"
    using extras_facts [OF ex del wf(3)] same by auto
  have below: "starts_with ?D k" using k(3) by (auto simp: objects_below_def unwrap_or_empty_def)
  note des = plan_uploads_desired [OF plan]
  have "destination_key item \<noteq> Ok k" if "Ok item \<in> set ?W" for item
    using source_key_kept [OF tree wf(1) that _ below k(2)] des k(1) by blast
  moreover have "k \<notin> slash_prefixes key" if "key \<in> matching_keys args ?W" for key
    using des k(1) below that by blast
  moreover have "only_deletes (br_failed b)" if "r = Ok b" for b
  proof -
    have "b = sr_report report" using r that by (auto split: option.splits)
    then show ?thesis using dd clean by (auto simp: has_failures_def)
  qed
  ultimately show ?thesis using del below k(2) unfolding sync_remote_key_matches_def by blast
qed

lemma walk_key_inj:
  assumes "walker_wf walker" and "p \<noteq> []" "\<forall>n \<in> set p. plain_name n" and "q \<noteq> []" "\<forall>n \<in> set q. plain_name n"
    and "walk_key walker p False = walk_key walker q False"
  shows "p = q"
proof -
  note p = walk_relative_parts [OF assms(1-3)] and q = walk_relative_parts [OF assms(1,4,5)]
  have "walk_relative walker p = walk_relative walker q"
    using assms(6) p q by (simp add: walk_key_def join_tos_key_def trim_start_of_id split: if_splits)
  then have "join_with slash p = join_with slash q"
    using p(1) q(1) by (auto split: option.splits)
  then show ?thesis using assms(2-5) split_join by (metis plain_name_def)
qed

lemma walked_file:
  assumes tree: "plain_tree tree" and dir: "is_directory tree" and walker: "walker_wf walker"
    and isfile: "file_at tree path = Some content"
  shows "\<exists>item. Ok item \<in> set (local_upload_walk walker [([], tree)]) \<and> ui_path item = path \<and>
      ui_size item = length content \<and> destination_key item = Ok (walk_key walker path False) \<and>
      \<not> ends_with [slash] (ui_destination item)"
    and "path \<noteq> []" and "\<forall>n \<in> set path. plain_name n" and "\<not> ends_with [slash] (walk_key walker path False)"
proof -
  have at: "node_at tree path = Some (LocalFile content)"
    using isfile by (auto simp: file_at_def split: option.splits local_node.splits)
  show ne: "path \<noteq> []" using at dir by (auto simp: is_directory_def)
  show plain: "\<forall>n \<in> set path. plain_name n" using node_at_plain [OF tree at] by blast
  note p = plan_item_key [OF walker ne plain]
  show key: "\<not> ends_with [slash] (walk_key walker path False)" using p(2) by simp
  obtain item where item: "plan_item walker path False (length content) = Some item" "ui_path item = path"
    "ui_size item = length content" "destination_key item = Ok (walk_key walker path False)"
    "ui_destination item = object_uri (tu_bucket (uw_destination walker)) (walk_key walker path False)"
    using p(1) [of False "length content"] by auto
  have "walk_key walker path False \<noteq> []"
    using plan_item_dest [OF walker item(1)] item(4) by auto
  then have "\<not> ends_with [slash] (ui_destination item)"
    using key unfolding item(5) object_uri_def by (simp add: ends_with_single)
  moreover have "Ok item \<in> set (local_upload_walk walker [([], tree)])"
    unfolding walk_item [OF tree] by (intro exI conjI, rule at) (simp add: planned_at_def item(1))
  ultimately show "\<exists>item. Ok item \<in> set (local_upload_walk walker [([], tree)]) \<and> ui_path item = path \<and>
      ui_size item = length content \<and> destination_key item = Ok (walk_key walker path False) \<and>
      \<not> ends_with [slash] (ui_destination item)"
    using item by blast
qed

text \<open>Every planned upload is the upload of a node of the tree.\<close>

lemma planned_node:
  assumes tree: "plain_tree tree" and walker: "walker_wf walker"
    and planned: "planned_for walker args (local_upload_walk walker [([], tree)]) upload"
  shows "\<exists>found action. node_at tree (pu_path upload) = Some found \<and>
    planned_at walker (pu_path upload) found = Some action \<and>
    destination_key action = Ok (pu_key upload) \<and> pu_size upload = ui_size action"
proof -
  let ?W = "local_upload_walk walker [([], tree)]"
  obtain item action where item: "Ok item \<in> set ?W" and action: "action \<in> insert item (set (required_local_upload_ancestors walker item))"
    and up: "planned_upload_of action = Ok upload" using planned unfolding planned_for_def by blast
  obtain path found where at: "node_at tree path = Some found" "planned_at walker path found = Some item"
    using item walk_item [OF tree] by blast
  have path: "ui_path item = path"
    using at(2) plan_item_dest [OF walker] unfolding planned_at_kind by blast
  have u: "pu_path upload = ui_path action" "destination_key action = Ok (pu_key upload)" "pu_size upload = ui_size action"
    using up by (auto simp: planned_upload_of_def try_in_Ok_iff)
  show ?thesis
  proof (cases "action = item")
    case True
    then show ?thesis using at u path by auto
  next
    case False
    then obtain n where n: "n < length path" "plan_item walker (take n path) True 0 = Some action"
      using action path by (auto simp: required_local_upload_ancestors_def List.map_filter_def split: option.splits if_splits)
    obtain d where d: "node_at tree (take n path) = Some d" "drop n path \<noteq> [] \<longrightarrow> is_directory d"
      using node_at_append [of tree "take n path" "drop n path" found] at(1) by auto
    have "ui_path action = take n path" using plan_item_dest [OF walker n(2)] by blast
    then show ?thesis using d n u unfolding planned_at_kind by auto
  qed
qed

text \<open>A file of the source is stored under its key, or was left as it was because the sizes agree.\<close>

lemma copied_file:
  assumes copies: "copy_contract svc bytes stored" and force: "never_skips svc"
    and tree: "plain_tree tree" and walker: "walker_wf walker" and dir: "is_directory tree"
    and listed: "\<forall>o1 \<in> set inventory. \<exists>b. stored st (oe_key o1) = Some b \<and> length b = unat (oe_size o1)"
    and plan: "plan_uploads walker args D (local_upload_walk walker [([], tree)]) [] {} {} = Ok (planned, desired)"
    and all: "sy_include args = None" "sy_exclude args = None"
    and isfile: "file_at tree path = Some content" and "bytes path = content"
    and run: "sync_copies svc args bucket rows inventory c pick n [] planned report st = (report1, st1)"
    and clean: "br_failed (sr_report report1) = []"
  shows "stored st1 (walk_key walker path False) = Some content \<or>
    (\<exists>b. stored st (walk_key walker path False) = Some b \<and> length b = length content \<and>
       stored st1 (walk_key walker path False) = Some b)"
proof -
  let ?K = "walk_key walker path False" and ?W = "local_upload_walk walker [([], tree)]"
  note wf = walked_file [OF tree dir walker isfile]
  note planned_facts = plan_uploads_planned [OF plan]
  obtain item where item: "Ok item \<in> set ?W" "ui_path item = path" "ui_size item = length content"
    "destination_key item = Ok ?K" "\<not> ends_with [slash] (ui_destination item)" using wf(1) by blast
  have "local_upload_item_matches item (sy_include args) (sy_exclude args)"
    by (simp add: local_upload_item_matches_def all pattern_allows_def)
  then obtain u where u: "u \<in> set planned" "planned_upload_of item = Ok u"
    using planned_facts item(1,5) by blast
  have uk: "pu_key u = ?K" "pu_path u = path" "pu_size u = length content"
    using u(2) item by (auto simp: planned_upload_of_def try_in_Ok_iff)
  have same: "pu_path v = path \<and> pu_size v = length content" if v: "v \<in> set planned" "pu_key v = ?K" for v
  proof -
    obtain found action where node: "node_at tree (pu_path v) = Some found"
      "planned_at walker (pu_path v) found = Some action" "destination_key action = Ok ?K" "pu_size v = ui_size action"
      using planned_node [OF tree walker] planned_facts v by fastforce
    have "\<not> is_directory found"
    proof
      assume d: "is_directory found"
      then have "plan_item walker (pu_path v) True 0 = Some action"
        using node(2) unfolding planned_at_kind by (auto simp: is_directory_def)
      then show False using plan_item_dest [OF walker] node(3) wf(4) by fastforce
    qed
    then obtain content' where f: "found = LocalFile content'"
      and p: "plan_item walker (pu_path v) False (length content') = Some action"
      using node(2) unfolding planned_at_kind by blast
    then have "file_at tree (pu_path v) = Some content'" using node(1) by (simp add: file_at_def)
    note wv = walked_file [OF tree dir walker this]
    have k: "destination_key action = Ok (walk_key walker (pu_path v) False)" and size: "ui_size action = length content'"
      using plan_item_key(1) [OF walker wv(2,3), of False "length content'"] p by auto
    have "walk_key walker (pu_path v) False = ?K" using k unfolding node(3) by (simp only: result.inject)
    then have "pu_path v = path" by (rule walk_key_inj [OF walker wv(2,3) wf(2,3)])
    then show ?thesis using size node(1,4) f isfile by (simp add: file_at_def)
  qed
  show ?thesis
  proof (cases "upload_is_skipped args inventory u")
    case False
    then have "\<exists>u \<in> active (upload_is_skipped args inventory) [] planned. pu_key u = ?K"
      using u(1) uk by (auto simp: active_def)
    then have "stored st1 ?K = Some (bytes path)"
      using sync_copies_stores [OF copies force wf(4) _ _ run clean, of path] same by simp
    then show ?thesis using assms(11) by simp
  next
    case True
    have "upload_is_skipped args inventory v" if "v \<in> set planned" "pu_key v = ?K" for v
      using True uk same [OF that] that(2) wf(4) by (simp add: upload_is_skipped_def)
    then have none: "\<forall>v \<in> active (upload_is_skipped args inventory) [] planned. ?K \<noteq> pu_key v \<and> ?K \<notin> slash_prefixes (pu_key v)"
      using slash_prefix_ends wf(4) by (auto simp: active_def)
    have st1: "stored st1 ?K = stored st ?K" using sync_copies_sound [OF copies run] none by blast
    obtain o1 where o1: "inventory_get inventory ?K = Some o1" "unat (oe_size o1) = length content"
      using True uk wf(4)
      by (auto simp: upload_is_skipped_def remote_sync_should_skip_def split: option.splits if_splits)
    then have "o1 \<in> set inventory" and "oe_key o1 = ?K"
      by (auto simp: inventory_get_def dest!: map_of_SomeD)
    then obtain b where "stored st ?K = Some b" "length b = length content" using listed o1(2) by metis
    then show ?thesis using st1 by simp
  qed
qed

lemma created_key:
  assumes "copy_contract svc bytes stored"
    and "sync_copies svc args bucket rows inventory c pick n [] planned report st = (report1, st1)"
    and "stored st k = None" and "stored st1 k \<noteq> None"
  shows "\<exists>u \<in> set planned. k = pu_key u \<or> k \<in> slash_prefixes (pu_key u)"
proof (rule ccontr)
  assume none: "\<not> ?thesis"
  have "stored st1 k = stored st k"
    by (rule sync_copies_sound [OF assms(1,2), THEN conjunct2, THEN conjunct1, rule_format])
      (use none in \<open>auto simp: active_def\<close>)
  then show False using assms(3,4) by simp
qed

lemma unfiltered:
  assumes "sy_include args = None" "sy_exclude args = None"
  shows "sync_remote_key_matches args k D parent" and "local_upload_item_matches item (sy_include args) (sy_exclude args)"
  using assms by (simp_all add: sync_remote_key_matches_def local_upload_item_matches_def pattern_allows_def)

text \<open>A key that is not among the extras belongs to the source, or is a folder above one that does.\<close>

lemma kept_key:
  assumes tree: "plain_tree tree" and walker: "walker_wf walker" and copies: "copy_contract svc bytes stored"
    and all: "sy_include args = None" "sy_exclude args = None"
    and plan: "plan_uploads walker args D (local_upload_walk walker [([], tree)]) [] {} {} = Ok (planned, desired)"
    and run: "sync_copies svc args bucket rows inventory c pick n [] planned report st = (report1, st1)"
    and listed: "stored st k \<noteq> None \<Longrightarrow> k \<in> desired" and here: "stored st1 k \<noteq> None"
  shows "\<exists>key \<in> matching_keys args (local_upload_walk walker [([], tree)]). k = key \<or> k \<in> slash_prefixes key"
proof (cases "stored st k = None")
  case False
  then show ?thesis using listed unfolding plan_uploads_desired [OF plan, THEN conjunct1] by blast
next
  case True
  then obtain u where u: "u \<in> set planned" "k = pu_key u \<or> k \<in> slash_prefixes (pu_key u)"
    using created_key [OF copies run _ here] by blast
  then obtain found action where "node_at tree (pu_path u) = Some found"
    "planned_at walker (pu_path u) found = Some action" "destination_key action = Ok (pu_key u)"
    using planned_node [OF tree walker] plan_uploads_planned [OF plan] by fastforce
  then have "pu_key u \<in> matching_keys args (local_upload_walk walker [([], tree)])"
    using walk_item [OF tree] unfiltered(2) [OF all] unfolding matching_keys_def by blast
  then show ?thesis using u(2) by blast
qed

text \<open>What an unfiltered run that reports no failure has done: its copies, then exactly its extras.\<close>

lemma unfiltered_run:
  assumes listing: "lists_bucket (se_fetch env) objects" "distinct (map oe_key objects)"
      "sum_list (map (\<lambda>o1. length (oe_key o1)) objects) < length (se_schedule env)"
    and deletes: "delete_contract svc stored"
    and all: "sy_include args = None" "sy_exclude args = None" "sy_delete args"
    and walker: "upload_walker_new (sy_source args) tree (sy_destination args) (sy_include_parent args) = Ok walker"
    and run: "execute_sync_local_to_tos env svc args tree st = Some (Ok report, st')" and ok: "rm_exit_code report = 0"
  obtains planned desired report0 report1 st1 where
    "plan_uploads walker args (sync_prefix walker) (local_upload_walk walker [([], tree)]) [] {} {} = Ok (planned, desired)"
    and "sync_copies svc args (tu_bucket (uw_destination walker)) (se_rows env)
      (objects_below objects (Some (sync_prefix walker))) (se_batch_concurrency env) (se_pick env) 0 [] planned report0 st =
      (report1, st1)"
    and "br_failed (sr_report report1) = []"
    and "\<forall>k. stored st' k = (if k \<in> oe_key ` set (objects_below objects (Some (sync_prefix walker))) - desired
      then None else stored st1 k)"
proof -
  let ?D = "sync_prefix walker"
  let ?listed = "objects_below objects (Some ?D)"
  note wf = upload_walker_new_wf [OF walker]
  obtain planned desired extras extras' sr where
    plan: "plan_uploads walker args ?D (local_upload_walk walker [([], tree)]) [] {} {} = Ok (planned, desired)"
    and ex: "plan_local_upload_sync_extras args ?D ?listed desired = Ok extras" and same: "set extras' = set extras"
    and go: "run_sync env svc args (tu_bucket (uw_destination walker)) ?listed planned extras' st = (sr, st')"
    and r: "Ok report = (case sr_error sr of None \<Rightarrow> Ok (sr_report sr) | Some e \<Rightarrow> Err e)"
    using execute_parts [OF listing walker run] by auto
  have sr: "sr_error sr = None" "br_failed (sr_report sr) = []"
    using r ok by (auto simp: rm_exit_code_def split: option.splits if_splits)
  from run_sync_parts [OF go] sr all(3) obtain report0 report1 st1 where
    c: "sync_copies svc args (tu_bucket (uw_destination walker)) (se_rows env) ?listed (se_batch_concurrency env)
      (se_pick env) 0 [] planned report0 st = (report1, st1)" and clean: "\<not> has_failures report1"
    and ds: "sync_deletes svc (tu_bucket (uw_destination walker)) (se_rows env) extras' report1 st1 = (sr, st')"
    by (auto simp: has_failures_def)
  note dd = sync_deletes_sound [OF deletes ds]
  have removed: "oe_key ` set extras' = oe_key ` set ?listed - desired"
    unfolding same using extras_facts [OF ex all(3) wf(3)] unfiltered(1) [OF all(1,2)] by auto
  have "stored st' k = (if k \<in> oe_key ` set ?listed - desired then None else stored st1 k)" for k
  proof (cases "k \<in> oe_key ` set extras'")
    case True
    from dd [THEN conjunct2, THEN conjunct2, THEN conjunct2, rule_format, OF sr(2,1) disjI1 [OF True]]
    show ?thesis using True unfolding removed by simp
  next
    case False
    then have "stored st' k = stored st1 k" by (rule dd [THEN conjunct1, rule_format])
    then show ?thesis using False unfolding removed by auto
  qed
  moreover have "br_failed (sr_report report1) = []" using clean by (simp add: has_failures_def)
  ultimately show ?thesis using that plan c by blast
qed


section \<open>An example\<close>

type_synonym demo_bucket = "(string \<times> string) list"

definition demo_sync_tree :: local_node where
  "demo_sync_tree = LocalDirectory [(''d'', LocalDirectory [(''b'', LocalFile ''z'')]), (''a'', LocalFile ''xy'')]"

definition demo_sync_bytes :: "string list \<Rightarrow> string" where
  "demo_sync_bytes path = (case file_at demo_sync_tree path of Some content \<Rightarrow> content | None \<Rightarrow> [])"

definition demo_sync_service :: "demo_bucket sync_service" where
  "demo_sync_service =
     \<lparr>ss_is_hns = Ok True,
      ss_copy = (\<lambda>st path key. (Ok Transferred, (key, demo_sync_bytes path) # List.filter (\<lambda>(k, b). k \<noteq> key) st)),
      ss_delete = (\<lambda>st key etag. (Ok (), List.filter (\<lambda>(k, b). k \<noteq> key) st))\<rparr>"

definition demo_sync_args :: sync_args where
  "demo_sync_args =
     \<lparr>sy_source = ''src'', sy_destination = ''tos://bk/p'', sy_delete = True, sy_size_only = False,
      sy_exact_timestamps = False, sy_include_parent = False, sy_disable_dir_object = False,
      sy_include = None, sy_exclude = None\<rparr>"

definition demo_sync_objects :: "object_entry list" where
  "demo_sync_objects = map demo_object [''p/a'', ''p/e/'', ''p/e/f'', ''q'']"

definition demo_sync_bucket :: demo_bucket where
  "demo_sync_bucket = [(''p/a'', ''u''), (''p/e/'', ''v''), (''p/e/f'', ''w''), (''q'', ''x'')]"

definition demo_sync_env :: sync_env where
  "demo_sync_env =
     \<lparr>se_fetch = demo_fetch demo_sync_objects, se_schedule = replicate 20 0, se_list_concurrency = 2,
      se_batch_concurrency = 2, se_pick = (\<lambda>n. Suc n), se_manifest = Ok (), se_report = Ok (),
      se_rows = (\<lambda>n. Ok ())\<rparr>"

definition demo_sync_walker :: upload_walker where
  "demo_sync_walker = \<lparr>uw_destination = \<lparr>tu_bucket = ''bk'', tu_key = Some ''p''\<rparr>, uw_parent_prefix = None\<rparr>"

definition demo_view :: "demo_bucket \<Rightarrow> string \<Rightarrow> string option" where
  "demo_view st = map_of st"

lemma map_of_filter_other: "map_of (List.filter (\<lambda>(k, b). k \<noteq> key) st) k = (if k = key then None else map_of st k)"
  by (induction st) auto

lemma demo_sync_contracts:
  "copy_contract demo_sync_service demo_sync_bytes demo_view" "delete_contract demo_sync_service demo_view"
  "never_skips demo_sync_service"
  by (auto simp: copy_contract_def delete_contract_def never_skips_def demo_sync_service_def demo_view_def
      map_of_filter_other)

lemma demo_sync_listing:
  "lists_bucket (se_fetch demo_sync_env) demo_sync_objects" "distinct (map oe_key demo_sync_objects)"
  "sum_list (map (\<lambda>o1. length (oe_key o1)) demo_sync_objects) < length (se_schedule demo_sync_env)"
proof -
  have "distinct demo_sync_objects" by code_simp
  then show "lists_bucket (se_fetch demo_sync_env) demo_sync_objects"
    unfolding demo_sync_env_def sync_env.select_convs by (rule demo_lists)
qed code_simp+

lemma demo_sync_walker: "upload_walker_new (sy_source demo_sync_args) demo_sync_tree (sy_destination demo_sync_args)
    (sy_include_parent demo_sync_args) = Ok demo_sync_walker"
  by code_simp

definition demo_sync_result :: "(batch_report, cli_error) result \<times> demo_bucket" where
  "demo_sync_result = sync_listed demo_sync_env demo_sync_service demo_sync_args demo_sync_tree ''bk'' ''p/'' True
     (objects_below demo_sync_objects (Some ''p/'')) demo_sync_bucket"

lemma demo_sync_run:
  "execute_sync_local_to_tos demo_sync_env demo_sync_service demo_sync_args demo_sync_tree demo_sync_bucket =
     Some demo_sync_result"
proof -
  let ?t = "\<lparr>tu_bucket = ''bk'', tu_key = Some ''p''\<rparr>"
  have parse: "parse_tos_uri (sy_destination demo_sync_args) True = Ok ?t" by code_simp
  have norm: "unwrap_key (tu_key (normalize_recursive_tos_target ?t)) = ''p/''"
    "tu_bucket (normalize_recursive_tos_target ?t) = ''bk''" by code_simp+
  have hns: "ss_is_hns demo_sync_service = Ok True" by (simp add: demo_sync_service_def)
  have list: "list_object_entries_recursive (se_fetch demo_sync_env) (se_schedule demo_sync_env) (Some ''p/'') True
      (se_list_concurrency demo_sync_env) = Some (Ok (objects_below demo_sync_objects (Some ''p/'')))"
    by (rule listing_complete [OF demo_sync_listing])
  show ?thesis
    unfolding execute_sync_local_to_tos_def parse hns Let_def result.case norm list option.case demo_sync_result_def
    by (rule refl)
qed

lemma demo_sync_outcome:
  "case fst demo_sync_result of Ok report \<Rightarrow> rm_exit_code report = 0 | Err e \<Rightarrow> False"
  "snd demo_sync_result = [(''p/d/'', []), (''p/d/b'', ''z''), (''p/'', []), (''p/a'', ''xy''), (''q'', ''x'')]"
  by code_simp+

lemma demo_sync_ok: "\<exists>report st'. demo_sync_result = (Ok report, st') \<and> rm_exit_code report = 0"
proof -
  obtain a b where p: "demo_sync_result = (a, b)" by fastforce
  show ?thesis using demo_sync_outcome(1) unfolding p by (cases a) auto
qed


theorem sync_removes_only_extras_witness:
  "\<exists>report st'. execute_sync_local_to_tos demo_sync_env demo_sync_service demo_sync_args demo_sync_tree demo_sync_bucket =
     Some (Ok report, st') \<and> demo_view demo_sync_bucket ''p/e/f'' \<noteq> None \<and> demo_view st' ''p/e/f'' = None \<and>
     starts_with ''p/'' ''p/e/f'' \<and> only_deletes (br_failed report) \<and>
     (\<forall>key \<in> matching_keys demo_sync_args (local_upload_walk demo_sync_walker [([], demo_sync_tree)]).
        ''p/e/f'' \<notin> slash_prefixes key)"
proof -
  obtain report st' where r: "demo_sync_result = (Ok report, st')"
    using demo_sync_ok by blast
  note run = demo_sync_run [unfolded r]
  have tree: "plain_tree demo_sync_tree" by code_simp
  have before: "demo_view demo_sync_bucket ''p/e/f'' \<noteq> None" by code_simp
  have "st' = [(''p/d/'', []), (''p/d/b'', ''z''), (''p/'', []), (''p/a'', ''xy''), (''q'', ''x'')]"
    using demo_sync_outcome(2) unfolding r by (simp only: snd_conv)
  then have after: "demo_view st' ''p/e/f'' = None" by (simp add: demo_view_def)
  note only = sync_removes_only_extras [where stored = demo_view and st = demo_sync_bucket and st' = st'
      and k = "''p/e/f''", OF demo_sync_listing demo_sync_contracts(1,2) tree demo_sync_walker run before after]
  have "sync_prefix demo_sync_walker = ''p/''" by code_simp
  then show ?thesis using only run before after by (intro exI [of _ report] exI [of _ st']) simp
qed

text \<open>\<open>--size-only\<close> changes nothing: files of one size are taken for equal with and without it.\<close>

lemma size_only_ignored:
  "remote_sync_should_skip local_size destination (args\<lparr>sy_size_only := b\<rparr>) =
   remote_sync_should_skip local_size destination args"
  by (simp add: remote_sync_should_skip_def split: option.split)
end
