(* ===== verification/Local_Sync.thy ===== *)
theory Local_Sync
  imports Tos_Sync
begin

text \<open>
  \<open>sync\<close> between two local directories (\<open>execute_sync_local_to_local\<close> and its plans in
  \<open>crates/tos/src/handler/high_level.rs\<close>) on a file system with directories, files and symbolic
  links: the collection of the files of a tree, the plan of copies and of extras, and the
  execution with its report. Paths are absolute lists of names; a link holds the real path it
  leads to. Faults of the system calls are parameters.
\<close>

section \<open>The file system\<close>

datatype fs_node = FsFile string int | FsDirectory | FsLink "string list"

type_synonym local_fs = "(string list, fs_node) btree_map"

definition fs_at :: "local_fs \<Rightarrow> string list \<Rightarrow> fs_node option" where
  "fs_at fs p = (if p = [] then Some FsDirectory else bt_get fs p)"

text \<open>Resolution follows at most 40 links, as the kernel does; the last name may be missing.\<close>

fun real_path :: "local_fs \<Rightarrow> nat \<Rightarrow> string list \<Rightarrow> string list \<Rightarrow> string list option" where
  "real_path fs links base [] = Some base"
| "real_path fs links base (c # rest) =
     (case fs_at fs (base @ [c]) of
        Some (FsLink t) \<Rightarrow> (case links of 0 \<Rightarrow> None | Suc n \<Rightarrow> real_path fs n t rest)
      | Some FsDirectory \<Rightarrow> real_path fs links (base @ [c]) rest
      | Some (FsFile content t) \<Rightarrow> if rest = [] then Some (base @ [c]) else None
      | None \<Rightarrow> if rest = [] then Some (base @ [c]) else None)"

definition resolved :: "local_fs \<Rightarrow> string list \<Rightarrow> string list option" where
  "resolved fs p = real_path fs 40 [] p"

text \<open>\<open>fs::metadata\<close>, \<open>is_dir\<close>, \<open>is_file\<close> and \<open>exists\<close> follow links.\<close>

definition stat :: "local_fs \<Rightarrow> string list \<Rightarrow> fs_node option" where
  "stat fs p = Option.bind (resolved fs p) (fs_at fs)"

definition is_dir_at :: "local_fs \<Rightarrow> string list \<Rightarrow> bool" where
  "is_dir_at fs p \<longleftrightarrow> stat fs p = Some FsDirectory"

definition is_file_at :: "local_fs \<Rightarrow> string list \<Rightarrow> bool" where
  "is_file_at fs p \<longleftrightarrow> (case stat fs p of Some (FsFile _ _) \<Rightarrow> True | _ \<Rightarrow> False)"

definition children_of :: "local_fs \<Rightarrow> string list \<Rightarrow> string list" where
  "children_of fs r = map last (List.filter (\<lambda>k. k \<noteq> [] \<and> butlast k = r) (map fst fs))"

datatype copy_fault = CopyDone | CopyRefused io_error | CopyTorn nat io_error

record local_env =
  le_fuel :: nat
  le_read_dir :: "string list \<Rightarrow> (unit, io_error) result"
  le_stat :: "string list \<Rightarrow> (unit, io_error) result"
  le_copy :: "string list \<Rightarrow> copy_fault"
  le_remove :: "string list \<Rightarrow> (unit, io_error) result"
  le_now :: int
  le_directory :: "string list \<Rightarrow> nat \<times> int"
  le_answer :: "(string, io_error) result"
  le_confirm :: "string option"
  le_can_prompt :: bool
  le_force :: bool
  le_manifest :: "(unit, cli_error) result"
  le_report :: "(unit, cli_error) result"
  le_rows :: "nat \<Rightarrow> (unit, cli_error) result"

definition fs_error :: "io_error_kind \<Rightarrow> string \<Rightarrow> io_error" where
  "fs_error kind message = \<lparr>io_kind = kind, io_text = message\<rparr>"

definition fs_missing :: io_error where
  "fs_missing = fs_error IoNotFound ''No such file or directory (os error 2)''"

definition fs_not_directory :: io_error where
  "fs_not_directory = fs_error IoOther ''Not a directory (os error 20)''"

definition fs_is_directory :: io_error where
  "fs_is_directory = fs_error IoOther ''Is a directory (os error 21)''"

text \<open>\<open>create_dir_all\<close>.\<close>

fun make_dirs :: "local_fs \<Rightarrow> string list \<Rightarrow> string list \<Rightarrow> (unit, io_error) result \<times> local_fs" where
  "make_dirs fs base [] = (Ok (), fs)"
| "make_dirs fs base (c # rest) =
     (case stat fs (base @ [c]) of
        Some FsDirectory \<Rightarrow> make_dirs fs (base @ [c]) rest
      | Some _ \<Rightarrow> (Err fs_not_directory, fs)
      | None \<Rightarrow>
          (case resolved fs base of
             None \<Rightarrow> (Err fs_missing, fs)
           | Some r \<Rightarrow>
               if fs_at fs r \<noteq> Some FsDirectory then (Err fs_not_directory, fs)
               else if fs_at fs (r @ [c]) \<noteq> None
               then (Err (fs_error IoAlreadyExists ''File exists (os error 17)''), fs)
               else make_dirs (bt_put (r @ [c]) FsDirectory fs) (base @ [c]) rest))"

text \<open>\<open>fs::copy\<close> truncates what the destination leads to, or creates it; a file copied to itself ends empty.\<close>

definition fs_copy :: "local_env \<Rightarrow> local_fs \<Rightarrow> string list \<Rightarrow> string list \<Rightarrow> (unit, io_error) result \<times> local_fs" where
  "fs_copy env fs source destination =
     (case stat fs source of
        None \<Rightarrow> (Err fs_missing, fs)
      | Some (FsFile content t) \<Rightarrow>
          (case resolved fs destination of
             None \<Rightarrow> (Err fs_missing, fs)
           | Some r \<Rightarrow>
               if fs_at fs (butlast r) \<noteq> Some FsDirectory then (Err fs_missing, fs)
               else if fs_at fs r = Some FsDirectory then (Err fs_is_directory, fs)
               else let written = (if resolved fs source = Some r then [] else content)
                 in (case le_copy env destination of
                       CopyDone \<Rightarrow> (Ok (), bt_put r (FsFile written (le_now env)) fs)
                     | CopyRefused e \<Rightarrow> (Err e, fs)
                     | CopyTorn n e \<Rightarrow> (Err e, bt_put r (FsFile (take n written) (le_now env)) fs)))
      | Some _ \<Rightarrow>
          (Err (fs_error IoInvalidInput ''the source path is neither a regular file nor a symlink to a regular file''), fs))"

definition copy_local_file_without_output ::
  "local_env \<Rightarrow> local_fs \<Rightarrow> string list \<Rightarrow> string list \<Rightarrow> (unit, cli_error) result \<times> local_fs" where
  "copy_local_file_without_output env fs source destination =
     (case st_try (make_dirs fs [] (butlast destination)) (\<lambda>_ fs. fs_copy env fs source destination) of
        (r, fs) \<Rightarrow> (map_err Io r, fs))"

text \<open>\<open>fs::remove_file\<close> removes a link, not what it leads to; its parent is resolved.\<close>

definition fs_remove :: "local_env \<Rightarrow> local_fs \<Rightarrow> string list \<Rightarrow> (unit, cli_error) result \<times> local_fs" where
  "fs_remove env fs p =
     (case resolved fs (butlast p) of
        None \<Rightarrow> (Err (Io fs_missing), fs)
      | Some r \<Rightarrow>
          (case bt_get fs (r @ [last p]) of
             None \<Rightarrow> (Err (Io fs_missing), fs)
           | Some FsDirectory \<Rightarrow> (Err (Io fs_is_directory), fs)
           | Some _ \<Rightarrow>
               (case le_remove env p of
                  Err e \<Rightarrow> (Err (Io e), fs)
                | Ok _ \<Rightarrow> (Ok (), List.filter (\<lambda>(k, n). k \<noteq> r @ [last p]) fs))))"

section \<open>The plans\<close>

text \<open>The walk of \<open>collect_local_files\<close>; with links it may come back to where it was, hence the fuel.\<close>

fun collect_loop ::
  "local_env \<Rightarrow> local_fs \<Rightarrow> nat \<Rightarrow> string list list \<Rightarrow> string list list \<Rightarrow> (string list list, cli_error) result option" where
  "collect_loop env fs fuel [] files = Some (Ok files)"
| "collect_loop env fs 0 (p # pending) files = None"
| "collect_loop env fs (Suc fuel) (p # pending) files =
     (case try_in (le_read_dir env p) (\<lambda>_. ok_or fs_missing (resolved fs p)) of
        Err e \<Rightarrow> Some (Err (Io e))
      | Ok r \<Rightarrow>
          if fs_at fs r \<noteq> Some FsDirectory then Some (Err (Io fs_not_directory))
          else let paths = map (\<lambda>n. p @ [n]) (children_of fs r)
            in collect_loop env fs fuel (rev (List.filter (is_dir_at fs) paths) @ pending)
                 (files @ List.filter (is_file_at fs) paths))"

definition collect_local_files :: "local_env \<Rightarrow> local_fs \<Rightarrow> string list \<Rightarrow> (string list list, cli_error) result option" where
  "collect_local_files env fs root =
     map_option (\<lambda>r. try_in r (\<lambda>files. Ok (sort files))) (collect_loop env fs (le_fuel env) [root] [])"

definition path_text :: "string list \<Rightarrow> string" where
  "path_text p = slash # join_with slash p"

record local_item =
  li_relative :: "string list"
  li_relative_key :: string
  li_size :: nat

definition relative_text :: "string list \<Rightarrow> string" where
  "relative_text relative = slashed (join_with slash relative)"

definition file_size :: "local_fs \<Rightarrow> string list \<Rightarrow> nat" where
  "file_size fs p = (case stat fs p of Some (FsFile content t) \<Rightarrow> length content | _ \<Rightarrow> 0)"

definition build_local_source_mappings ::
  "local_env \<Rightarrow> local_fs \<Rightarrow> string list \<Rightarrow> bool \<Rightarrow> (local_item list, cli_error) result option" where
  "build_local_source_mappings env fs source include_parent =
     (if \<not> is_dir_at fs source
      then Some (Err (ValidationError (''recursive source '' @ quoted (path_text source) @
        '' must be a local directory or tos:// prefix'')))
      else case recursive_source_parent_prefix (path_text source) include_parent of
        Err e \<Rightarrow> Some (Err e)
      | Ok parent \<Rightarrow>
          map_option (\<lambda>r. try_in r (\<lambda>files. Ok (map (\<lambda>f.
            let relative = drop (length source) f
            in \<lparr>li_relative = relative, li_relative_key = prepend_parent_prefix (relative_text relative) parent,
                li_size = file_size fs f\<rparr>) files))) (collect_local_files env fs source))"

definition local_plan_item :: "string list \<Rightarrow> string list \<Rightarrow> local_item \<Rightarrow> transfer_plan_item" where
  "local_plan_item source destination item =
     \<lparr>tp_relative_key = li_relative_key item, tp_source = path_text (source @ li_relative item),
      tp_destination = path_text (destination @ li_relative item), tp_size = of_nat (li_size item),
      tp_etag = None, tp_crc64 = None, tp_last_modified = None\<rparr>"

text \<open>The paths that are wanted, as \<open>PathBuf\<close> compares them: by their components.\<close>

definition build_local_extras_plan_from_desired ::
  "local_env \<Rightarrow> local_fs \<Rightarrow> string list \<Rightarrow> path_component list set \<Rightarrow> sync_args \<Rightarrow>
   (string list list, cli_error) result option" where
  "build_local_extras_plan_from_desired env fs destination desired args =
     (if stat fs destination = None then Some (Ok [])
      else map_option (\<lambda>r. try_in r (\<lambda>files.
        Ok (List.filter (\<lambda>f. let relative = drop (length destination) f
              in pattern_allows (relative_text relative) (sy_include args) (sy_exclude args) \<and>
                 map Normal relative \<notin> desired) files)))
        (collect_local_files env fs destination))"

definition build_local_extras_plan ::
  "local_env \<Rightarrow> local_fs \<Rightarrow> string list \<Rightarrow> string list \<Rightarrow> sync_args \<Rightarrow> (string list list, cli_error) result option" where
  "build_local_extras_plan env fs source destination args =
     (case recursive_source_parent_prefix (path_text source) (sy_include_parent args) of
        Err e \<Rightarrow> Some (Err e)
      | Ok parent \<Rightarrow>
          (case collect_local_files env fs source of
             None \<Rightarrow> None
           | Some (Err e) \<Rightarrow> Some (Err e)
           | Some (Ok files) \<Rightarrow>
               build_local_extras_plan_from_desired env fs destination
                 (set (map (\<lambda>f. path_components (prepend_parent_prefix (relative_text (drop (length source) f)) parent)) files))
                 args))"

section \<open>The execution\<close>

text \<open>Length and modification time; those of a directory are the file system's choice.\<close>

definition meta_of :: "local_env \<Rightarrow> string list \<Rightarrow> fs_node \<Rightarrow> nat \<times> int" where
  "meta_of env p n = (case n of FsFile content t \<Rightarrow> (length content, t) | _ \<Rightarrow> le_directory env p)"

definition local_sync_should_skip ::
  "local_env \<Rightarrow> local_fs \<Rightarrow> sync_args \<Rightarrow> string list \<Rightarrow> string list \<Rightarrow> (bool, cli_error) result" where
  "local_sync_should_skip env fs args source destination =
     (case stat fs destination of
        None \<Rightarrow> Ok False
      | Some d \<Rightarrow>
          (case try_in (le_stat env source) (\<lambda>_. try_in (ok_or fs_missing (stat fs source)) (\<lambda>s.
                 try_in (le_stat env destination) (\<lambda>_. Ok (meta_of env source s, meta_of env destination d)))) of
             Err e \<Rightarrow> Err (Io e)
           | Ok ((n, t), (m, u)) \<Rightarrow>
               if n \<noteq> m then Ok False
               else if sy_exact_timestamps args then Ok (t = u)
               else Ok (sy_size_only args \<or> n = m)))"

fun local_copies ::
  "local_env \<Rightarrow> sync_args \<Rightarrow> string list \<Rightarrow> string list \<Rightarrow> local_item list \<Rightarrow> sync_report \<Rightarrow> local_fs \<Rightarrow>
   (sync_report, cli_error) result \<times> local_fs" where
  "local_copies env args source destination [] report fs = (Ok report, fs)"
| "local_copies env args source destination (item # items) report fs =
     (let src = source @ li_relative item; dst = destination @ li_relative item
      in case local_sync_should_skip env fs args src dst of
           Err e \<Rightarrow> (Err e, fs)
         | Ok True \<Rightarrow>
             local_copies env args source destination items
               (record_row (le_rows env) (record_skipped ''sync-copy'' (path_text src) (Some (path_text dst))) report) fs
         | Ok False \<Rightarrow>
             (case copy_local_file_without_output env fs src dst of
                (Ok _, fs) \<Rightarrow>
                  local_copies env args source destination items
                    (record_row (le_rows env) (record_success ''sync-copy'' (path_text src) (Some (path_text dst))) report) fs
              | (Err e, fs) \<Rightarrow>
                  local_copies env args source destination items
                    (record_row (le_rows env) (record_failure ''sync-copy'' (path_text src) (Some (path_text dst)) e) report) fs))"

fun local_deletes :: "local_env \<Rightarrow> string list list \<Rightarrow> sync_report \<Rightarrow> local_fs \<Rightarrow> sync_report \<times> local_fs" where
  "local_deletes env [] report fs = (report, fs)"
| "local_deletes env (p # extras) report fs =
     (if sr_error report \<noteq> None
      then (fold (\<lambda>p. record_row (le_rows env) (record_skipped ''delete-extra'' (path_text p) None)) (p # extras) report, fs)
      else case fs_remove env fs p of
        (r, fs) \<Rightarrow> local_deletes env extras
          (record_row (le_rows env)
             (case r of
                Ok _ \<Rightarrow> record_success ''delete-extra'' (path_text p) None
              | Err e \<Rightarrow> record_failure ''delete-extra'' (path_text p) None e) report) fs)"

definition local_sync_run ::
  "local_env \<Rightarrow> sync_args \<Rightarrow> string list \<Rightarrow> string list \<Rightarrow> local_item list \<Rightarrow> string list list \<Rightarrow> local_fs \<Rightarrow>
   (batch_report, cli_error) result \<times> local_fs" where
  "local_sync_run env args source destination planned extras fs =
     (let report0 = \<lparr>sr_report = batch_report_new (length planned + length extras), sr_rows = 0, sr_error = None\<rparr>
      in case local_copies env args source destination planned report0 fs of
           (Err e, fs) \<Rightarrow> (Err e, fs)
         | (Ok report, fs) \<Rightarrow>
             (case (if sy_delete args \<and> has_failures report
                    then (fold (\<lambda>p. record_row (le_rows env) (record_skipped ''delete-extra'' (path_text p) None)) extras report, fs)
                    else if sy_delete args then local_deletes env extras report fs
                    else (report, fs)) of
                (report, fs) \<Rightarrow> (case sr_error report of None \<Rightarrow> Ok (sr_report report) | Some e \<Rightarrow> Err e, fs)))"

definition execute_sync_local_to_local ::
  "local_env \<Rightarrow> sync_args \<Rightarrow> string list \<Rightarrow> string list \<Rightarrow> local_fs \<Rightarrow>
   ((batch_report, cli_error) result \<times> local_fs) option" where
  "execute_sync_local_to_local env args source destination fs =
     (case build_local_source_mappings env fs source (sy_include_parent args) of
        None \<Rightarrow> None
      | Some (Err e) \<Rightarrow> Some (Err e, fs)
      | Some (Ok mappings) \<Rightarrow>
          let planned = List.filter (\<lambda>item. pattern_allows (li_relative_key item) (sy_include args) (sy_exclude args)) mappings
          in case enforce_transfer_plan_path_traversal (le_answer env) (le_confirm env) (le_can_prompt env) ''ve-tos sync''
                  (le_force env) (sy_delete args) (path_text destination) (map (local_plan_item source destination) planned) of
               Err e \<Rightarrow> Some (Err e, fs)
             | Ok _ \<Rightarrow>
                 (case (if sy_delete args then build_local_extras_plan env fs source destination args else Some (Ok [])) of
                    None \<Rightarrow> None
                  | Some (Err e) \<Rightarrow> Some (Err e, fs)
                  | Some (Ok extras) \<Rightarrow>
                      (case try_in (le_manifest env) (\<lambda>_. le_report env) of
                         Err e \<Rightarrow> Some (Err e, fs)
                       | Ok _ \<Rightarrow> Some (local_sync_run env args source destination planned extras fs))))"

section \<open>File systems without links\<close>

definition plain_fs :: "local_fs \<Rightarrow> bool" where
  "plain_fs fs \<longleftrightarrow> bt_wf fs \<and> (\<forall>p t. bt_get fs p \<noteq> Some (FsLink t)) \<and>
     (\<forall>p n. bt_get fs p = Some n \<longrightarrow> p \<noteq> [] \<and> fs_at fs (butlast p) = Some FsDirectory)"

lemma plain_no_link: "plain_fs fs \<Longrightarrow> fs_at fs p \<noteq> Some (FsLink t)"
  by (simp add: plain_fs_def fs_at_def)

lemma plain_parent: "plain_fs fs \<Longrightarrow> fs_at fs p \<noteq> None \<Longrightarrow> fs_at fs (butlast p) = Some FsDirectory"
  by (cases "p = []") (auto simp: plain_fs_def fs_at_def)

lemma plain_prefix: "plain_fs fs \<Longrightarrow> fs_at fs (a @ b) \<noteq> None \<Longrightarrow> b \<noteq> [] \<Longrightarrow> fs_at fs a = Some FsDirectory"
proof (induction b rule: rev_induct)
  case (snoc x b)
  have "fs_at fs (a @ b) = Some FsDirectory" using plain_parent [OF snoc.prems(1,2)] by (simp add: butlast_append)
  then show ?case using snoc.IH [OF snoc.prems(1)] by (cases "b = []") simp_all
qed simp

lemma plain_dir: "plain_fs fs \<Longrightarrow> fs_at fs (a @ b) = Some FsDirectory \<Longrightarrow> fs_at fs a = Some FsDirectory"
  using plain_prefix [of fs a b] by (cases "b = []") auto

lemma real_path_plain:
  assumes "plain_fs fs" and "fs_at fs base = Some FsDirectory"
  shows "real_path fs n base rest =
    (if rest = [] \<or> fs_at fs (butlast (base @ rest)) = Some FsDirectory then Some (base @ rest) else None)"
  using assms(2)
proof (induction rest arbitrary: base)
  case (Cons c rest)
  have link: "fs_at fs (base @ [c]) \<noteq> Some (FsLink t)" for t using plain_no_link [OF assms(1)] .
  have below: "rest \<noteq> [] \<Longrightarrow> fs_at fs (butlast (base @ c # rest)) = Some FsDirectory \<Longrightarrow> fs_at fs (base @ [c]) = Some FsDirectory"
    using plain_dir [OF assms(1), of "base @ [c]" "butlast rest"] by (simp add: butlast_append)
  show ?case
  proof (cases "fs_at fs (base @ [c])")
    case None
    then show ?thesis using below Cons.prems by (cases "rest = []") auto
  next
    case (Some x)
    then show ?thesis using below Cons link by (cases x) (auto simp: butlast_append)
  qed
qed simp

lemma resolved_plain:
  "plain_fs fs \<Longrightarrow> resolved fs p = (if p = [] \<or> fs_at fs (butlast p) = Some FsDirectory then Some p else None)"
  unfolding resolved_def using real_path_plain [of fs "[]" 40 p] by (simp add: fs_at_def)

lemma stat_plain: "plain_fs fs \<Longrightarrow> stat fs p = fs_at fs p"
  using plain_parent [of fs p] by (cases "fs_at fs p = None") (simp_all add: stat_def resolved_plain)

lemma is_dir_plain: "plain_fs fs \<Longrightarrow> is_dir_at fs p \<longleftrightarrow> fs_at fs p = Some FsDirectory"
  by (simp add: is_dir_at_def stat_plain)

definition file_here :: "local_fs \<Rightarrow> string list \<Rightarrow> bool" where
  "file_here fs p \<longleftrightarrow> (\<exists>content t. fs_at fs p = Some (FsFile content t))"

lemma is_file_plain: "plain_fs fs \<Longrightarrow> is_file_at fs p \<longleftrightarrow> file_here fs p"
  by (auto simp: is_file_at_def stat_plain file_here_def split: option.split fs_node.split)

lemma plain_put:
  assumes "plain_fs fs" and "p \<noteq> []" and "fs_at fs (butlast p) = Some FsDirectory" and "\<And>t. n \<noteq> FsLink t"
    and "bt_get fs p = Some FsDirectory \<Longrightarrow> n = FsDirectory"
  shows "plain_fs (bt_put p n fs)"
proof -
  have "fs_at (bt_put p n fs) (butlast q) = Some FsDirectory" if "bt_get (bt_put p n fs) q = Some m" for q m
  proof (cases "q = p")
    case True
    have "butlast p \<noteq> p" using assms(2) by (metis butlast_snoc length_append_singleton length_butlast
          n_not_Suc_n append_butlast_last_id)
    then show ?thesis using assms(3) True by (auto simp: fs_at_def bt_get_put)
  next
    case False
    then have "fs_at fs (butlast q) = Some FsDirectory" using that assms(1) by (auto simp: plain_fs_def bt_get_put)
    then show ?thesis using assms(5) by (auto simp: fs_at_def bt_get_put)
  qed
  then show ?thesis using assms(1,2,4) by (auto simp: plain_fs_def bt_get_put bt_wf_put split: if_splits)
qed

lemma bt_get_drop: "bt_get (List.filter (\<lambda>(k, n). k \<noteq> p) fs) q = (if q = p then None else bt_get fs q)"
  by (induction fs) auto

lemma plain_drop:
  assumes "plain_fs fs" and "bt_get fs p = Some (FsFile content t)"
  shows "plain_fs (List.filter (\<lambda>(k, n). k \<noteq> p) fs)"
proof -
  have "bt_wf (List.filter (\<lambda>(k, n). k \<noteq> p) fs)"
    using assms(1) by (auto simp: plain_fs_def bt_wf_def sorted_wrt_map intro: sorted_wrt_filter)
  moreover have "fs_at (List.filter (\<lambda>(k, n). k \<noteq> p) fs) (butlast q) = Some FsDirectory" if "bt_get fs q = Some m" for q m
  proof -
    have "fs_at fs (butlast q) = Some FsDirectory" using assms(1) that by (simp add: plain_fs_def)
    then show ?thesis using assms(2) by (auto simp: fs_at_def bt_get_drop split: if_splits)
  qed
  ultimately show ?thesis using assms(1) by (auto simp: plain_fs_def bt_get_drop)
qed

section \<open>The walk of a tree\<close>

definition files_below :: "local_fs \<Rightarrow> string list \<Rightarrow> string list set" where
  "files_below fs p = {p @ x | x. x \<noteq> [] \<and> file_here fs (p @ x)}"

definition dirs_from :: "local_fs \<Rightarrow> string list \<Rightarrow> string list set" where
  "dirs_from fs p = {p @ x | x. fs_at fs (p @ x) = Some FsDirectory}"

definition child_paths :: "local_fs \<Rightarrow> string list \<Rightarrow> string list list" where
  "child_paths fs p = map (\<lambda>n. p @ [n]) (children_of fs p)"

lemma file_in_keys: "fs_at fs q \<noteq> None \<Longrightarrow> q = [] \<or> q \<in> fst ` set fs"
  by (cases "bt_get fs q") (force simp: fs_at_def dest: bt_get_in_set)+

lemma finite_dirs_from: "finite (dirs_from fs p)"
proof (rule finite_subset)
  show "dirs_from fs p \<subseteq> insert [] (fst ` set fs)"
    using file_in_keys [of fs] by (fastforce simp: dirs_from_def)
qed simp

lemma card_dirs_from: "card (dirs_from fs p) \<le> Suc (length fs)"
proof -
  have "dirs_from fs p \<subseteq> set ([] # map fst fs)" using file_in_keys [of fs] by (fastforce simp: dirs_from_def)
  then have "card (dirs_from fs p) \<le> card (set ([] # map fst fs))" by (intro card_mono) auto
  also have "\<dots> \<le> length ([] # map fst fs)" by (rule card_length)
  finally show ?thesis by simp
qed

lemma child_paths_set:
  assumes "bt_wf fs"
  shows "set (child_paths fs p) = {p @ [n] | n. fs_at fs (p @ [n]) \<noteq> None}"
proof -
  have key: "\<exists>v. (p @ [n], v) \<in> set fs" if "fs_at fs (p @ [n]) \<noteq> None" for n
    using that bt_get_in_set by (fastforce simp: fs_at_def)
  have node: "fs_at fs k \<noteq> None" if "(k, v) \<in> set fs" "k \<noteq> []" for k v
    using bt_in_set_get [OF assms that(1)] that(2) by (simp add: fs_at_def)
  have "set (child_paths fs p) = {k. (\<exists>v. (k, v) \<in> set fs) \<and> k \<noteq> [] \<and> butlast k = p}"
    by (force simp: child_paths_def children_of_def image_iff append_butlast_last_id)
  also have "\<dots> = {p @ [n] | n. \<exists>v. (p @ [n], v) \<in> set fs}"
    by (auto, metis append_butlast_last_id)
  also have "\<dots> = {p @ [n] | n. fs_at fs (p @ [n]) \<noteq> None}"
    using key node by blast
  finally show ?thesis .
qed

lemma distinct_child_paths:
  assumes "bt_wf fs"
  shows "distinct (child_paths fs p)"
proof -
  have "inj_on last {k :: string list. k \<noteq> [] \<and> butlast k = p}"
    by (rule inj_onI) (metis (mono_tags, lifting) append_butlast_last_id mem_Collect_eq)
  then have "distinct (children_of fs p)"
    using bt_wf_distinct [OF assms] unfolding children_of_def
    by (auto simp: distinct_map intro: inj_on_subset)
  then show ?thesis by (auto simp: child_paths_def distinct_map intro: inj_onI)
qed

lemma children_room:
  assumes "bt_wf fs" and "fs_at fs p = Some FsDirectory" and "\<And>q. q \<in> set ds \<Longrightarrow> \<exists>n. q = p @ [n]" and "distinct ds"
  shows "(\<Sum>q\<leftarrow>ds. card (dirs_from fs q)) < card (dirs_from fs p)"
proof -
  have apart: "dirs_from fs a \<inter> dirs_from fs b = {}" if "a \<in> set ds" "b \<in> set ds" "a \<noteq> b" for a b
    using assms(3) [OF that(1)] assms(3) [OF that(2)] that(3) by (auto simp: dirs_from_def)
  have "(\<Sum>q\<leftarrow>ds. card (dirs_from fs q)) = (\<Sum>q\<in>set ds. card (dirs_from fs q))"
    using assms(4) by (simp add: sum_list_distinct_conv_sum_set)
  also have "\<dots> = card (\<Union>q\<in>set ds. dirs_from fs q)"
    using apart by (intro card_UN_disjoint [symmetric]) (auto simp: finite_dirs_from)
  also have "\<dots> < card (dirs_from fs p)"
  proof (rule psubset_card_mono [OF finite_dirs_from])
    have below: "\<exists>n y. q = p @ n # y" if "a \<in> set ds" "q \<in> dirs_from fs a" for a q
      using assms(3) [OF that(1)] that(2) by (auto simp: dirs_from_def)
    have "(\<Union>q\<in>set ds. dirs_from fs q) \<subseteq> dirs_from fs p"
      using below by (fastforce simp: dirs_from_def)
    moreover have "p \<in> dirs_from fs p" using assms(2) by (auto simp: dirs_from_def intro: exI [of _ "[]"])
    moreover have "p \<notin> (\<Union>q\<in>set ds. dirs_from fs q)" using below by fastforce
    ultimately show "(\<Union>q\<in>set ds. dirs_from fs q) \<subset> dirs_from fs p" by blast
  qed
  finally show ?thesis .
qed

lemma files_below_step:
  assumes "plain_fs fs"
  shows "files_below fs p =
    set (List.filter (is_file_at fs) (child_paths fs p)) \<union>
    (\<Union>q \<in> set (List.filter (is_dir_at fs) (child_paths fs p)). files_below fs q)" (is "?L = ?R")
proof -
  have wf: "bt_wf fs" using assms by (simp add: plain_fs_def)
  show ?thesis
  proof (intro set_eqI iffI)
    fix f assume "f \<in> ?L"
    then obtain n y where f: "f = p @ n # y" "file_here fs f" by (auto simp: files_below_def neq_Nil_conv)
    show "f \<in> ?R"
    proof (cases "y = []")
      case True
      then show ?thesis using f by (auto simp: child_paths_set [OF wf] is_file_plain [OF assms] file_here_def)
    next
      case False
      then have "fs_at fs (p @ [n]) = Some FsDirectory"
        using plain_prefix [OF assms, of "p @ [n]" y] f by (auto simp: file_here_def)
      then have "p @ [n] \<in> set (List.filter (is_dir_at fs) (child_paths fs p))" and "f \<in> files_below fs (p @ [n])"
        using f False by (auto simp: child_paths_set [OF wf] is_dir_plain [OF assms] files_below_def)
      then show ?thesis by blast
    qed
  next
    fix f assume "f \<in> ?R"
    then show "f \<in> ?L"
      by (auto simp: child_paths_set [OF wf] is_file_plain [OF assms] files_below_def)
  qed
qed

lemma collect_loop_step:
  assumes "plain_fs fs"
  shows "collect_loop env fs (Suc fuel) (p # pending) files =
    (case le_read_dir env p of
       Err e \<Rightarrow> Some (Err (Io e))
     | Ok _ \<Rightarrow>
         if fs_at fs p = Some FsDirectory
         then collect_loop env fs fuel (rev (List.filter (is_dir_at fs) (child_paths fs p)) @ pending)
                (files @ List.filter (is_file_at fs) (child_paths fs p))
         else Some (Err (Io (if resolved fs p = None then fs_missing else fs_not_directory))))"
proof -
  have "resolved fs p = Some p" if "fs_at fs p = Some FsDirectory"
    using plain_parent [OF assms, of p] that by (simp add: resolved_plain [OF assms])
  moreover have "resolved fs p = Some r \<Longrightarrow> r = p" for r
    by (simp add: resolved_plain [OF assms] split: if_splits)
  ultimately show ?thesis
    by (cases "resolved fs p") (auto simp: child_paths_def Let_def split: result.split)
qed

lemma collect_loop_files:
  assumes "plain_fs fs"
  shows "collect_loop env fs fuel pending files = Some (Ok found) \<Longrightarrow>
    set found = set files \<union> (\<Union>p \<in> set pending. files_below fs p)"
proof (induction fuel arbitrary: pending files)
  case 0
  then show ?case by (cases pending) auto
next
  case (Suc fuel)
  show ?case
  proof (cases pending)
    case (Cons p rest)
    then have "collect_loop env fs fuel (rev (List.filter (is_dir_at fs) (child_paths fs p)) @ rest)
                 (files @ List.filter (is_file_at fs) (child_paths fs p)) = Some (Ok found)"
      using Suc.prems by (simp add: collect_loop_step [OF assms] del: collect_loop.simps split: result.splits if_splits)
    from Suc.IH [OF this] show ?thesis using Cons files_below_step [OF assms, of p] by auto
  qed (use Suc.prems in simp)
qed

lemma collect_loop_ends:
  assumes "plain_fs fs"
  shows "(\<Sum>p\<leftarrow>pending. card (dirs_from fs p)) \<le> fuel \<Longrightarrow>
    \<forall>p \<in> set pending. fs_at fs p = Some FsDirectory \<Longrightarrow> collect_loop env fs fuel pending files \<noteq> None"
proof (induction fuel arbitrary: pending files)
  case 0
  have "card (dirs_from fs p) \<noteq> 0" if "fs_at fs p = Some FsDirectory" for p
  proof -
    have "p \<in> dirs_from fs p" using that by (auto simp: dirs_from_def intro: exI [of _ "[]"])
    then show ?thesis using finite_dirs_from by (auto simp: card_gt_0_iff)
  qed
  then show ?case using 0 by (cases pending) (auto, metis neq0_conv)
next
  case (Suc fuel)
  show ?case
  proof (cases pending)
    case (Cons p rest)
    let ?ds = "List.filter (is_dir_at fs) (child_paths fs p)"
    have wf: "bt_wf fs" using assms by (simp add: plain_fs_def)
    have "(\<Sum>q\<leftarrow>?ds. card (dirs_from fs q)) < card (dirs_from fs p)"
      by (rule children_room [OF wf])
        (use Suc.prems Cons distinct_child_paths [OF wf, of p] in \<open>auto simp: child_paths_set [OF wf]\<close>)
    then have "collect_loop env fs fuel (rev ?ds @ rest) (files @ List.filter (is_file_at fs) (child_paths fs p)) \<noteq> None"
      using Suc.prems Cons
      by (intro Suc.IH) (auto simp: is_dir_plain [OF assms] rev_map [symmetric] sum_list_rev)
    then show ?thesis using Cons
      by (simp add: collect_loop_step [OF assms] del: collect_loop.simps split: result.split)
  qed simp
qed

lemma collect_local_files_plain:
  assumes "plain_fs fs" and "length fs < le_fuel env"
  shows "collect_local_files env fs root \<noteq> None"
    and "collect_local_files env fs root = Some (Ok files) \<Longrightarrow> set files = files_below fs root"
proof -
  obtain fuel where fuel: "le_fuel env = Suc fuel" using assms(2) by (cases "le_fuel env") auto
  have "collect_loop env fs (le_fuel env) [root] [] \<noteq> None"
  proof (cases "fs_at fs root = Some FsDirectory")
    case True
    then show ?thesis using assms(2) card_dirs_from [of fs root] by (intro collect_loop_ends [OF assms(1)]) auto
  next
    case False
    then show ?thesis
      unfolding fuel collect_loop_step [OF assms(1)] by (simp split: result.split)
  qed
  then show "collect_local_files env fs root \<noteq> None" by (simp add: collect_local_files_def)
  assume "collect_local_files env fs root = Some (Ok files)"
  then obtain found where "collect_loop env fs (le_fuel env) [root] [] = Some (Ok found)" and "files = sort found"
    by (auto simp: collect_local_files_def try_in_Ok_iff)
  then show "set files = files_below fs root" using collect_loop_files [OF assms(1)] by fastforce
qed

section \<open>What writing does\<close>

text \<open>Files appear or change at the paths of \<open>d\<close> only, and directories appear above them.\<close>

definition grown :: "string list set \<Rightarrow> local_fs \<Rightarrow> local_fs \<Rightarrow> bool" where
  "grown d fs fs' \<longleftrightarrow> plain_fs fs' \<and> (\<forall>q. fs_at fs' q = fs_at fs q \<or>
     (fs_at fs q = None \<and> fs_at fs' q = Some FsDirectory \<and> (\<exists>y. y \<noteq> [] \<and> q @ y \<in> d)) \<or>
     (q \<in> d \<and> fs_at fs q \<noteq> Some FsDirectory \<and> file_here fs' q))"

lemma grown_refl: "plain_fs fs \<Longrightarrow> grown d fs fs"
  by (simp add: grown_def)

lemma grown_mono: "grown d fs fs' \<Longrightarrow> d \<subseteq> e \<Longrightarrow> grown e fs fs'"
  unfolding grown_def by blast

lemma grown_plain: "grown d fs fs' \<Longrightarrow> plain_fs fs'"
  by (simp add: grown_def)

lemma grown_cases:
  assumes "grown d fs fs'"
  obtains "fs_at fs' q = fs_at fs q"
    | "fs_at fs q = None" "fs_at fs' q = Some FsDirectory" "\<exists>y. y \<noteq> [] \<and> q @ y \<in> d"
    | "q \<in> d" "fs_at fs q \<noteq> Some FsDirectory" "file_here fs' q"
proof -
  have "fs_at fs' q = fs_at fs q \<or>
     (fs_at fs q = None \<and> fs_at fs' q = Some FsDirectory \<and> (\<exists>y. y \<noteq> [] \<and> q @ y \<in> d)) \<or>
     (q \<in> d \<and> fs_at fs q \<noteq> Some FsDirectory \<and> file_here fs' q)"
    using assms by (simp add: grown_def)
  then show thesis using that by argo
qed

lemma grown_trans:
  assumes "grown d fs fs1" and "grown d fs1 fs2"
  shows "grown d fs fs2"
proof -
  have "fs_at fs2 q = fs_at fs q \<or>
     (fs_at fs q = None \<and> fs_at fs2 q = Some FsDirectory \<and> (\<exists>y. y \<noteq> [] \<and> q @ y \<in> d)) \<or>
     (q \<in> d \<and> fs_at fs q \<noteq> Some FsDirectory \<and> file_here fs2 q)" for q
    by (rule grown_cases [OF assms(1), of q]; rule grown_cases [OF assms(2), of q]) (auto simp: file_here_def)
  then show ?thesis using assms(2) unfolding grown_def by blast
qed

lemma grown_keeps_file: "grown d fs fs' \<Longrightarrow> file_here fs q \<Longrightarrow> q \<notin> d \<Longrightarrow> fs_at fs' q = fs_at fs q"
  unfolding grown_def file_here_def by (metis option.distinct(1))

lemma grown_file: "grown d fs fs' \<Longrightarrow> file_here fs q \<Longrightarrow> file_here fs' q"
  unfolding grown_def file_here_def by (metis option.distinct(1))

lemma fs_at_put: "p \<noteq> [] \<Longrightarrow> fs_at (bt_put p n fs) q = (if q = p then Some n else fs_at fs q)"
  by (simp add: fs_at_def bt_get_put)

lemma grown_dir:
  assumes "plain_fs fs" and "fs_at fs base = Some FsDirectory" and "fs_at fs (base @ [c]) = None"
    and "base @ c # y \<in> d" and "y \<noteq> []"
  shows "grown d fs (bt_put (base @ [c]) FsDirectory fs)"
proof -
  have "plain_fs (bt_put (base @ [c]) FsDirectory fs)" using assms by (intro plain_put) auto
  moreover have "\<exists>y. y \<noteq> [] \<and> (base @ [c]) @ y \<in> d" using assms(4,5) by auto
  ultimately show ?thesis using assms(3) by (auto simp: grown_def fs_at_put)
qed

lemma grown_write:
  assumes "plain_fs fs" and "p \<noteq> []" and "fs_at fs (butlast p) = Some FsDirectory" and "fs_at fs p \<noteq> Some FsDirectory"
    and "p \<in> d"
  shows "grown d fs (bt_put p (FsFile content t) fs)"
proof -
  have "plain_fs (bt_put p (FsFile content t) fs)" using assms by (intro plain_put) (auto simp: fs_at_def)
  then show ?thesis using assms by (auto simp: grown_def fs_at_put file_here_def)
qed

lemma make_dirs_plain:
  "make_dirs fs base rest = (r, fs') \<Longrightarrow> plain_fs fs \<Longrightarrow> fs_at fs base = Some FsDirectory \<Longrightarrow>
   base @ rest @ y \<in> d \<Longrightarrow> y \<noteq> [] \<Longrightarrow>
   grown d fs fs' \<and> (r = Ok () \<longrightarrow> fs_at fs' (base @ rest) = Some FsDirectory)"
proof (induction rest arbitrary: fs base)
  case Nil
  then show ?case by (auto simp: grown_refl)
next
  case (Cons c rest)
  have base: "resolved fs base = Some base"
    using Cons.prems plain_parent [of fs base] by (simp add: resolved_plain)
  consider (dir) "fs_at fs (base @ [c]) = Some FsDirectory" | (other) n where "fs_at fs (base @ [c]) = Some n" "n \<noteq> FsDirectory"
    | (none) "fs_at fs (base @ [c]) = None" by (cases "fs_at fs (base @ [c])") auto
  then show ?case
  proof cases
    case dir
    then show ?thesis using Cons.prems Cons.IH [of fs "base @ [c]"] by (simp add: stat_plain)
  next
    case other
    then show ?thesis using Cons.prems by (cases n) (auto simp: stat_plain grown_refl)
  next
    case none
    let ?fs = "bt_put (base @ [c]) FsDirectory fs"
    have g: "grown d fs ?fs" using Cons.prems none by (intro grown_dir [where y = "rest @ y"]) auto
    have "make_dirs ?fs (base @ [c]) rest = (r, fs')" using Cons.prems none base by (simp add: stat_plain)
    then have "grown d ?fs fs' \<and> (r = Ok () \<longrightarrow> fs_at fs' ((base @ [c]) @ rest) = Some FsDirectory)"
      by (rule Cons.IH) (use Cons.prems grown_plain [OF g] in \<open>auto simp: fs_at_put\<close>)
    then show ?thesis using grown_trans [OF g] by auto
  qed
qed

lemma fs_copy_plain:
  assumes "fs_copy env fs source destination = (r, fs')" and "plain_fs fs" and "destination \<in> d" and "destination \<noteq> []"
  shows "grown d fs fs'"
    and "r = Ok () \<Longrightarrow> fs_at fs' destination \<noteq> None"
    and "r = Ok () \<Longrightarrow> fs_at fs source = Some (FsFile content t) \<Longrightarrow> source \<noteq> destination \<Longrightarrow>
      fs_at fs' destination = Some (FsFile content (le_now env))"
  using assms
  by (auto simp: fs_copy_def stat_plain resolved_plain Let_def grown_refl fs_at_put
      intro!: grown_write split: option.splits fs_node.splits if_splits copy_fault.splits)

lemma copy_plain:
  assumes "copy_local_file_without_output env fs source destination = (r, fs')" and "plain_fs fs"
    and "destination \<in> d" and "destination \<noteq> []"
  shows "grown d fs fs'"
    and "r = Ok () \<Longrightarrow> fs_at fs' destination \<noteq> None"
    and "r = Ok () \<Longrightarrow> fs_at fs source = Some (FsFile content t) \<Longrightarrow> source \<noteq> destination \<Longrightarrow>
      fs_at fs' destination = Some (FsFile content (le_now env))"
proof -
  obtain r1 fs1 where m: "make_dirs fs [] (butlast destination) = (r1, fs1)" by fastforce
  have "[] @ butlast destination @ [last destination] \<in> d" using assms by simp
  from make_dirs_plain [OF m assms(2) _ this] have g: "grown d fs fs1" by (simp add: fs_at_def)
  note p = grown_plain [OF g]
  show "grown d fs fs'"
    using assms(1) m g grown_trans [OF g] fs_copy_plain(1) [OF _ p assms(3,4)]
    by (cases r1) (auto simp: copy_local_file_without_output_def split: prod.splits)
  show "fs_at fs' destination \<noteq> None" if "r = Ok ()"
    using assms(1) m that fs_copy_plain(2) [OF _ p assms(3,4)]
    by (cases r1) (auto simp: copy_local_file_without_output_def split: prod.splits)
  assume r: "r = Ok ()" "fs_at fs source = Some (FsFile content t)" "source \<noteq> destination"
  have "destination = [] @ butlast destination @ [last destination]" using assms by simp
  from make_dirs_plain [OF m assms(2) _ _, of "[last destination]" "{destination}"] this
  have "grown {destination} fs fs1" by (simp add: fs_at_def)
  then have "fs_at fs1 source = Some (FsFile content t)"
    using grown_keeps_file [of "{destination}" fs fs1 source] r by (auto simp: file_here_def)
  then show "fs_at fs' destination = Some (FsFile content (le_now env))"
    using assms(1) m r fs_copy_plain(3) [OF _ p assms(3,4)]
    by (cases r1) (auto simp: copy_local_file_without_output_def split: prod.splits)
qed

lemma skip_plain:
  assumes "plain_fs fs" and "local_sync_should_skip env fs args source destination = Ok True"
    and "fs_at fs source = Some (FsFile content t)"
  shows "fs_at fs destination = Some FsDirectory \<or>
    (\<exists>old u. fs_at fs destination = Some (FsFile old u) \<and> length old = length content)"
  using assms plain_no_link [OF assms(1), of destination]
  by (auto simp: local_sync_should_skip_def stat_plain try_in_Ok_iff meta_of_def
      split: option.splits fs_node.splits if_splits result.splits)

lemma skip_there: "local_sync_should_skip env fs args source destination = Ok True \<Longrightarrow> stat fs destination \<noteq> None"
  by (cases "stat fs destination") (simp_all add: local_sync_should_skip_def)

definition clean :: "sync_report \<Rightarrow> bool" where
  "clean r \<longleftrightarrow> \<not> has_failures r"

lemma clean_row: "clean (record_row rows f r) \<Longrightarrow> br_failed (f (sr_report r)) = [] \<and> sr_error r = None"
  by (auto simp: clean_def has_failures_def record_row_def split: option.splits)

lemma clean_report: "clean r \<longleftrightarrow> br_failed (sr_report r) = [] \<and> sr_error r = None"
  by (simp add: clean_def has_failures_def)

definition copied_to :: "string list \<Rightarrow> local_item list \<Rightarrow> string list set" where
  "copied_to destination items = (\<lambda>item. destination @ li_relative item) ` set items"

text \<open>One copy: a row is recorded, and the rest goes on from the file system it leaves.\<close>

lemma local_copies_step:
  assumes "local_copies env args source destination (item # items) report fs = (res, fs')" and "plain_fs fs"
    and "li_relative item \<noteq> []"
  obtains (fail) e where "res = Err e" "fs' = fs"
  | (skip) report1 where "local_sync_should_skip env fs args (source @ li_relative item) (destination @ li_relative item) = Ok True"
      "local_copies env args source destination items report1 fs = (res, fs')" "clean report1 \<longrightarrow> clean report"
  | (copy) r report1 fs1 where
      "copy_local_file_without_output env fs (source @ li_relative item) (destination @ li_relative item) = (r, fs1)"
      "local_copies env args source destination items report1 fs1 = (res, fs')"
      "clean report1 \<longrightarrow> clean report \<and> r = Ok ()"
proof (cases "local_sync_should_skip env fs args (source @ li_relative item) (destination @ li_relative item)")
  case (Ok b)
  show thesis
  proof (cases b)
    case True
    have "local_copies env args source destination items
        (record_row (le_rows env) (record_skipped ''sync-copy'' (path_text (source @ li_relative item))
          (Some (path_text (destination @ li_relative item)))) report) fs = (res, fs')"
      using assms(1) Ok True by (simp add: Let_def)
    from skip [OF _ this] show thesis
      using Ok True clean_row by (fastforce simp: clean_report record_skipped_def)
  next
    case False
    obtain r fs1 where c: "copy_local_file_without_output env fs (source @ li_relative item) (destination @ li_relative item) = (r, fs1)"
      by fastforce
    show thesis
    proof (cases r)
      case (Ok u)
      have "local_copies env args source destination items
          (record_row (le_rows env) (record_success ''sync-copy'' (path_text (source @ li_relative item))
            (Some (path_text (destination @ li_relative item)))) report) fs1 = (res, fs')"
        using assms(1) \<open>local_sync_should_skip _ _ _ _ _ = _\<close> False c Ok by (simp add: Let_def)
      from copy [OF c this] show thesis
        using Ok clean_row by (fastforce simp: clean_report record_success_def)
    next
      case (Err e)
      have "local_copies env args source destination items
          (record_row (le_rows env) (record_failure ''sync-copy'' (path_text (source @ li_relative item))
            (Some (path_text (destination @ li_relative item))) e) report) fs1 = (res, fs')"
        using assms(1) \<open>local_sync_should_skip _ _ _ _ _ = _\<close> False c Err by (simp add: Let_def)
      from copy [OF c this] show thesis
        using clean_row by (fastforce simp: record_failure_def)
    qed
  qed
qed (use fail assms(1) in \<open>auto simp: Let_def\<close>)

lemma local_copies_grown:
  assumes "local_copies env args source destination items report fs = (res, fs')" and "plain_fs fs"
    and "\<forall>item \<in> set items. li_relative item \<noteq> []"
  shows "grown (copied_to destination items) fs fs'"
  using assms
proof (induction items arbitrary: report fs)
  case Nil
  then show ?case by (simp add: grown_refl)
next
  case (Cons item items)
  have sub: "copied_to destination items \<subseteq> copied_to destination (item # items)" by (auto simp: copied_to_def)
  from Cons.prems have nonempty: "li_relative item \<noteq> []" by simp
  from Cons.prems(1,2) nonempty show ?case
  proof (cases rule: local_copies_step)
    case fail
    then show ?thesis using Cons.prems(2) by (simp add: grown_refl)
  next
    case skip
    then show ?thesis using Cons.IH Cons.prems grown_mono [OF _ sub] by fastforce
  next
    case (copy r report1 fs1)
    have g: "grown (copied_to destination (item # items)) fs fs1"
      using copy_plain(1) [OF copy(1) Cons.prems(2)] nonempty by (simp add: copied_to_def)
    have "grown (copied_to destination items) fs1 fs'"
      using Cons.IH [OF copy(2) grown_plain [OF g]] Cons.prems by simp
    then show ?thesis using grown_trans [OF g] grown_mono [OF _ sub] by blast
  qed
qed

lemma grown_there: "grown d fs fs' \<Longrightarrow> fs_at fs q \<noteq> None \<Longrightarrow> fs_at fs' q \<noteq> None"
  by (rule grown_cases [of d fs fs' q]) (auto simp: file_here_def)

lemma grown_stays_dir: "grown d fs fs' \<Longrightarrow> fs_at fs q = Some FsDirectory \<Longrightarrow> fs_at fs' q = Some FsDirectory"
  by (rule grown_cases [of d fs fs' q]) auto

lemma local_copies_clean:
  assumes "local_copies env args source destination items report fs = (Ok report', fs')" and "plain_fs fs"
    and "\<forall>item \<in> set items. li_relative item \<noteq> []" and "clean report'"
  shows "clean report \<and> (\<forall>item \<in> set items. fs_at fs' (destination @ li_relative item) \<noteq> None)"
  using assms
proof (induction items arbitrary: report fs)
  case (Cons item items)
  from Cons.prems have nonempty: "li_relative item \<noteq> []" and rest: "\<forall>item \<in> set items. li_relative item \<noteq> []" by simp_all
  from Cons.prems(1,2) nonempty show ?case
  proof (cases rule: local_copies_step)
    case (skip report1)
    have "fs_at fs (destination @ li_relative item) \<noteq> None"
      using skip_there [OF skip(1)] Cons.prems(2) by (simp add: stat_plain)
    then show ?thesis
      using Cons.IH [OF skip(2) Cons.prems(2) rest Cons.prems(4)] skip(3)
        grown_there [OF local_copies_grown [OF skip(2) Cons.prems(2) rest]] by auto
  next
    case (copy r report1 fs1)
    have "grown {destination @ li_relative item} fs fs1" using copy_plain(1) [OF copy(1) Cons.prems(2)] nonempty by simp
    note p = grown_plain [OF this]
    from Cons.IH [OF copy(2) p rest Cons.prems(4)]
    have c: "clean report1" "\<forall>item \<in> set items. fs_at fs' (destination @ li_relative item) \<noteq> None" by simp_all
    then have "fs_at fs1 (destination @ li_relative item) \<noteq> None"
      using copy(3) copy_plain(2) [OF copy(1) Cons.prems(2) singletonI] nonempty by simp
    then show ?thesis using c copy(3) grown_there [OF local_copies_grown [OF copy(2) p rest]] by auto
  qed simp
qed simp

text \<open>After copies without a failure every selected file is at its place: new, or of the same length and left alone.\<close>

definition copy_settled :: "local_fs \<Rightarrow> local_fs \<Rightarrow> string list \<Rightarrow> string list \<Rightarrow> bool" where
  "copy_settled fs fs' source destination \<longleftrightarrow>
     (\<exists>content t. fs_at fs source = Some (FsFile content t) \<and>
        ((\<exists>u. fs_at fs' destination = Some (FsFile content u)) \<or>
         fs_at fs' destination = fs_at fs destination \<and>
         (fs_at fs destination = Some FsDirectory \<or>
          (\<exists>old u. fs_at fs destination = Some (FsFile old u) \<and> length old = length content))))"

lemma copy_settled_later:
  assumes "copy_settled fs fs1 source destination" and "grown d fs1 fs'" and "destination \<notin> d"
  shows "copy_settled fs fs' source destination"
proof -
  have "fs_at fs' destination = fs_at fs1 destination" if "fs_at fs1 destination \<noteq> None"
    using assms(2,3) that by (auto elim: grown_cases [of d fs1 fs' destination])
  moreover have "fs_at fs1 destination \<noteq> None" using assms(1) by (auto simp: copy_settled_def)
  ultimately show ?thesis using assms(1) by (simp add: copy_settled_def)
qed

lemma copy_settled_earlier:
  assumes "copy_settled fs1 fs' source destination" and "fs_at fs1 source = fs_at fs source"
    and "fs_at fs1 destination = fs_at fs destination \<or> copy_settled fs fs1 source destination"
  shows "copy_settled fs fs' source destination"
  using assms by (auto simp: copy_settled_def; metis)

lemma local_copies_settled:
  assumes "local_copies env args source destination items report fs = (Ok report', fs')" and "plain_fs fs"
    and "\<forall>item \<in> set items. li_relative item \<noteq> []" and "clean report'"
    and "\<forall>item \<in> set items. file_here fs (source @ li_relative item)"
    and "\<forall>x y. source @ x \<noteq> destination @ y"
  shows "\<forall>item \<in> set items. copy_settled fs fs' (source @ li_relative item) (destination @ li_relative item)"
  using assms(1-5)
proof (induction items arbitrary: report fs)
  case (Cons item items)
  let ?s = "source @ li_relative item" and ?d = "destination @ li_relative item"
  from Cons.prems have nonempty: "li_relative item \<noteq> []" and rest: "\<forall>item \<in> set items. li_relative item \<noteq> []" by simp_all
  obtain content t where src: "fs_at fs ?s = Some (FsFile content t)" using Cons.prems(5) by (auto simp: file_here_def)
  have go: "\<forall>i \<in> set (item # items). copy_settled fs fs' (source @ li_relative i) (destination @ li_relative i)"
    if run: "local_copies env args source destination items report1 fs1 = (Ok report', fs')"
      and g: "grown {?d} fs fs1" and head: "copy_settled fs fs1 ?s ?d" for report1 fs1
  proof -
    note p = grown_plain [OF g]
    have keep: "fs_at fs1 (source @ li_relative i) = fs_at fs (source @ li_relative i)" if "i \<in> set items" for i
      using grown_keeps_file [OF g, of "source @ li_relative i"] Cons.prems(5) assms(6) that by simp
    then have "\<forall>i \<in> set items. file_here fs1 (source @ li_relative i)"
      using Cons.prems(5) by (simp add: file_here_def)
    from Cons.IH [OF run p rest Cons.prems(4) this]
    have tail: "\<forall>i \<in> set items. copy_settled fs1 fs' (source @ li_relative i) (destination @ li_relative i)" .
    have "copy_settled fs fs' (source @ li_relative i) (destination @ li_relative i)" if i: "i \<in> set items" for i
    proof (rule copy_settled_earlier [OF tail [rule_format, OF i] keep [OF i]])
      let ?i = "destination @ li_relative i"
      have apart: "\<nexists>y. y \<noteq> [] \<and> ?i @ y = ?d"
      proof
        assume "\<exists>y. y \<noteq> [] \<and> ?i @ y = ?d"
        then obtain y where "y \<noteq> []" "(source @ li_relative i) @ y = ?s" by auto
        then have "fs_at fs (source @ li_relative i) = Some FsDirectory"
          using plain_prefix [OF Cons.prems(2), of "source @ li_relative i" y] src by auto
        then show False using Cons.prems(5) i by (auto simp: file_here_def)
      qed
      show "fs_at fs1 ?i = fs_at fs ?i \<or> copy_settled fs fs1 (source @ li_relative i) ?i"
        by (rule grown_cases [OF g, of ?i]) (use apart head in auto)
    qed
    moreover have "copy_settled fs fs' ?s ?d"
    proof (cases "li_relative item \<in> li_relative ` set items")
      case True
      then obtain i where "i \<in> set items" "li_relative i = li_relative item" by force
      then show ?thesis using calculation by metis
    next
      case False
      then have "?d \<notin> copied_to destination items" by (auto simp: copied_to_def)
      then show ?thesis by (rule copy_settled_later [OF head local_copies_grown [OF run p rest]])
    qed
    ultimately show ?thesis by simp
  qed
  from Cons.prems(1,2) nonempty show ?case
  proof (cases rule: local_copies_step)
    case (skip report1)
    have "copy_settled fs fs ?s ?d" using skip_plain [OF Cons.prems(2) skip(1) src] src by (auto simp: copy_settled_def)
    then show ?thesis by (rule go [OF skip(2) grown_refl [OF Cons.prems(2)]])
  next
    case (copy r report1 fs1)
    have g: "grown {?d} fs fs1" using copy_plain(1) [OF copy(1) Cons.prems(2)] nonempty by simp
    have "clean report1" using local_copies_clean [OF copy(2) grown_plain [OF g] rest Cons.prems(4)] by simp
    then have "r = Ok ()" using copy(3) by simp
    then have "fs_at fs1 ?d = Some (FsFile content (le_now env))"
      using copy_plain(3) [OF copy(1) Cons.prems(2) singletonI _ _ src assms(6) [rule_format]] nonempty by simp
    then have "copy_settled fs fs1 ?s ?d" using src by (auto simp: copy_settled_def)
    then show ?thesis by (rule go [OF copy(2) g])
  qed simp
qed simp

section \<open>What deleting does\<close>

definition shrunk :: "string list set \<Rightarrow> local_fs \<Rightarrow> local_fs \<Rightarrow> bool" where
  "shrunk d fs fs' \<longleftrightarrow> plain_fs fs' \<and>
     (\<forall>q. fs_at fs' q = fs_at fs q \<or> (q \<in> d \<and> file_here fs q \<and> fs_at fs' q = None))"

lemma shrunk_refl: "plain_fs fs \<Longrightarrow> shrunk d fs fs"
  by (simp add: shrunk_def)

lemma shrunk_trans: "shrunk d fs fs1 \<Longrightarrow> shrunk d fs1 fs2 \<Longrightarrow> shrunk d fs fs2"
  unfolding shrunk_def file_here_def by (metis option.distinct(1))

lemma shrunk_mono: "shrunk d fs fs' \<Longrightarrow> d \<subseteq> e \<Longrightarrow> shrunk e fs fs'"
  unfolding shrunk_def by blast

lemma shrunk_gone: "shrunk d fs fs' \<Longrightarrow> fs_at fs q = None \<Longrightarrow> fs_at fs' q = None"
  unfolding shrunk_def by metis

lemma fs_remove_plain:
  assumes "fs_remove env fs p = (r, fs')" and "plain_fs fs" and "p \<noteq> []"
  shows "shrunk {p} fs fs' \<and> (r = Ok () \<longrightarrow> fs_at fs' p = None)"
proof (cases "\<exists>content t. bt_get fs p = Some (FsFile content t) \<and> resolved fs (butlast p) = Some (butlast p) \<and> le_remove env p = Ok ()")
  case True
  then obtain content t where at: "bt_get fs p = Some (FsFile content t)"
    and ok: "resolved fs (butlast p) = Some (butlast p)" "le_remove env p = Ok ()" by blast
  have "fs' = List.filter (\<lambda>(k, n). k \<noteq> p) fs" using assms at ok by (auto simp: fs_remove_def)
  then show ?thesis using plain_drop [OF assms(2) at] at assms(3)
    by (auto simp: shrunk_def fs_at_def bt_get_drop file_here_def)
next
  case False
  have "resolved fs (butlast p) = Some x \<Longrightarrow> x = butlast p" for x
    using assms(2) by (auto simp: resolved_plain split: if_splits)
  moreover have "bt_get fs p \<noteq> Some (FsLink x)" for x using assms(2) by (simp add: plain_fs_def)
  ultimately have "fs' = fs \<and> r \<noteq> Ok ()"
    using assms(1,3) False
    by (auto simp: fs_remove_def split: option.splits fs_node.splits result.splits)
  then show ?thesis using assms(2) by (simp add: shrunk_refl)
qed

lemma fold_rows_clean:
  "clean (fold (\<lambda>p. record_row rows (record_skipped operation (text p) None)) ps report) \<Longrightarrow> clean report"
proof (induction ps arbitrary: report)
  case (Cons p ps)
  then have "clean (record_row rows (record_skipped operation (text p) None) report)" by simp
  from clean_row [OF this] show ?case by (simp add: clean_report record_skipped_def)
qed simp

lemma local_deletes_shrunk:
  assumes "local_deletes env ps report fs = (report', fs')" and "plain_fs fs" and "\<forall>p \<in> set ps. p \<noteq> []"
  shows "shrunk (set ps) fs fs' \<and> (clean report' \<longrightarrow> clean report \<and> (\<forall>p \<in> set ps. fs_at fs' p = None))"
  using assms
proof (induction ps arbitrary: report fs)
  case Nil
  then show ?case by (simp add: shrunk_refl)
next
  case (Cons p ps)
  show ?case
  proof (cases "sr_error report = None")
    case False
    then have "fs' = fs" and "report' = fold (\<lambda>p. record_row (le_rows env) (record_skipped ''delete-extra'' (path_text p) None)) (p # ps) report"
      using Cons.prems(1) by auto
    then show ?thesis
      using False fold_rows_clean [of "le_rows env" "''delete-extra''" path_text "p # ps" report] Cons.prems(2)
      by (auto simp: shrunk_refl clean_report)
  next
    case True
    obtain r fs1 where r: "fs_remove env fs p = (r, fs1)" by fastforce
    define report1 where "report1 = record_row (le_rows env)
      (case r of Ok _ \<Rightarrow> record_success ''delete-extra'' (path_text p) None
       | Err e \<Rightarrow> record_failure ''delete-extra'' (path_text p) None e) report"
    have run: "local_deletes env ps report1 fs1 = (report', fs')" using Cons.prems(1) True r by (simp add: report1_def)
    have s: "shrunk {p} fs fs1" "r = Ok () \<longrightarrow> fs_at fs1 p = None"
      using fs_remove_plain [OF r Cons.prems(2)] Cons.prems(3) by simp_all
    have c: "clean report1 \<longrightarrow> clean report \<and> r = Ok ()"
      using clean_row [of "le_rows env" _ report]
      by (cases r) (fastforce simp: report1_def clean_report record_success_def record_failure_def)+
    have p1: "plain_fs fs1" using s(1) by (simp add: shrunk_def)
    have ih: "shrunk (set ps) fs1 fs'" "clean report' \<longrightarrow> clean report1 \<and> (\<forall>p \<in> set ps. fs_at fs' p = None)"
      using Cons.IH [OF run p1] Cons.prems(3) by simp_all
    have "shrunk (set (p # ps)) fs fs'"
      by (rule shrunk_trans [OF shrunk_mono [OF s(1)] shrunk_mono [OF ih(1)]]) auto
    then show ?thesis using ih c s(2) shrunk_gone [OF ih(1), of p] by auto
  qed
qed

section \<open>The whole command\<close>

definition proper_path :: "string list \<Rightarrow> bool" where
  "proper_path x \<longleftrightarrow> x \<noteq> [] \<and> (\<forall>n \<in> set x. plain_name n \<and> n \<noteq> ''.'' \<and> n \<noteq> ''..'')"

lemma relative_components:
  assumes "proper_path x"
  shows "path_components (relative_text x) = map Normal x"
proof -
  have x: "x \<noteq> []" "\<forall>n \<in> set x. plain_name n" using assms by (auto simp: proper_path_def)
  note j = joined_names [OF x]
  have "\<forall>n \<in> set x. slash \<notin> set n" using x by (auto simp: plain_name_def)
  then have s: "split_on slash (join_with slash x) = x" using x by (intro split_join)
  have "List.filter (\<lambda>c. c \<noteq> [] \<and> c \<noteq> ''.'') x = x" and "map component_of x = map Normal x" and "hd x \<noteq> ''.''"
    using assms by (auto simp: proper_path_def plain_name_def filter_id_conv hd_in_set)
  moreover have "\<not> starts_with [slash] (join_with slash x)"
    using j(1,2) by (cases "join_with slash x") (auto simp: starts_with_def)
  ultimately show ?thesis by (simp add: path_components_def relative_text_def j(4) s)
qed

lemma local_sync_run_parts:
  assumes "local_sync_run env args source destination planned extras fs = (res, fs')"
  obtains (stop) e where "local_copies env args source destination planned
        \<lparr>sr_report = batch_report_new (length planned + length extras), sr_rows = 0, sr_error = None\<rparr> fs = (Err e, fs')" "res = Err e"
  | (finished) report report' fs1 where "local_copies env args source destination planned
        \<lparr>sr_report = batch_report_new (length planned + length extras), sr_rows = 0, sr_error = None\<rparr> fs = (Ok report, fs1)"
      "sy_delete args \<and> clean report \<and> local_deletes env extras report fs1 = (report', fs') \<or>
       fs' = fs1 \<and> (clean report' \<longrightarrow> \<not> sy_delete args \<and> clean report)"
      "res = (case sr_error report' of None \<Rightarrow> Ok (sr_report report') | Some e \<Rightarrow> Err e)"
proof -
  obtain copied fs1 where c: "local_copies env args source destination planned
      \<lparr>sr_report = batch_report_new (length planned + length extras), sr_rows = 0, sr_error = None\<rparr> fs = (copied, fs1)"
    by fastforce
  show thesis
  proof (cases copied)
    case (Err e)
    then show thesis using assms c stop by (auto simp: local_sync_run_def)
  next
    case (Ok report)
    consider "sy_delete args" "\<not> clean report" | "sy_delete args" "clean report" | "\<not> sy_delete args" by blast
    then show thesis
    proof cases
      case 1
      show thesis
        by (rule finished [OF c [unfolded Ok], where report' =
            "fold (\<lambda>p. record_row (le_rows env) (record_skipped ''delete-extra'' (path_text p) None)) extras report"])
          (use assms c Ok 1 fold_rows_clean [of "le_rows env" "''delete-extra''" path_text extras report] in
            \<open>auto simp: local_sync_run_def clean_def\<close>)
    next
      case 2
      obtain report' fs2 where "local_deletes env extras report fs1 = (report', fs2)" by fastforce
      moreover from this have "fs2 = fs'" and "res = (case sr_error report' of None \<Rightarrow> Ok (sr_report report') | Some e \<Rightarrow> Err e)"
        using assms c Ok 2 by (auto simp: local_sync_run_def clean_def)
      ultimately show thesis using finished [OF c [unfolded Ok], of report'] 2 by simp
    next
      case 3
      show thesis
        by (rule finished [OF c [unfolded Ok], where report' = report])
          (use assms c Ok 3 in \<open>auto simp: local_sync_run_def\<close>)
    qed
  qed
qed

lemma source_items:
  assumes "plain_fs fs" and "length fs < le_fuel env"
    and "build_local_source_mappings env fs source include_parent = Some (Ok mappings)"
  obtains parent where "recursive_source_parent_prefix (path_text source) include_parent = Ok parent"
    "li_relative ` set mappings = {x. x \<noteq> [] \<and> file_here fs (source @ x)}"
    "\<forall>item \<in> set mappings. li_relative_key item = prepend_parent_prefix (relative_text (li_relative item)) parent"
proof -
  obtain parent files where p: "recursive_source_parent_prefix (path_text source) include_parent = Ok parent"
    and f: "collect_local_files env fs source = Some (Ok files)"
    and m: "mappings = map (\<lambda>f. \<lparr>li_relative = drop (length source) f,
        li_relative_key = prepend_parent_prefix (relative_text (drop (length source) f)) parent, li_size = file_size fs f\<rparr>) files"
    using assms(3) by (auto simp: build_local_source_mappings_def try_in_Ok_iff Let_def split: if_splits result.splits)
  have "set files = files_below fs source" by (rule collect_local_files_plain(2) [OF assms(1,2) f])
  then have "li_relative ` set mappings = {x. x \<noteq> [] \<and> file_here fs (source @ x)}"
    by (force simp: m files_below_def image_iff)
  then show thesis using that [OF p] m by simp
qed

lemma extras_plain:
  assumes "plain_fs fs" and "length fs < le_fuel env"
  shows "build_local_extras_plan env fs source destination args \<noteq> None"
    and "build_local_extras_plan env fs source destination args = Some (Ok extras) \<Longrightarrow>
      recursive_source_parent_prefix (path_text source) (sy_include_parent args) = Ok parent \<Longrightarrow>
      set extras = {destination @ x | x. x \<noteq> [] \<and> file_here fs (destination @ x) \<and>
        pattern_allows (relative_text x) (sy_include args) (sy_exclude args) \<and>
        (\<forall>z. z \<noteq> [] \<and> file_here fs (source @ z) \<longrightarrow>
           map Normal x \<noteq> path_components (prepend_parent_prefix (relative_text z) parent))}"
proof -
  note c = collect_local_files_plain [OF assms]
  show "build_local_extras_plan env fs source destination args \<noteq> None"
    using c(1) [of source] c(1) [of destination]
    by (auto simp: build_local_extras_plan_def build_local_extras_plan_from_desired_def split: result.splits option.splits)
  assume "build_local_extras_plan env fs source destination args = Some (Ok extras)"
    and p: "recursive_source_parent_prefix (path_text source) (sy_include_parent args) = Ok parent"
  then obtain files desired where f: "collect_local_files env fs source = Some (Ok files)"
    and d: "desired = (\<lambda>f. path_components (prepend_parent_prefix (relative_text (drop (length source) f)) parent)) ` set files"
    and e: "build_local_extras_plan_from_desired env fs destination desired args = Some (Ok extras)"
    by (auto simp: build_local_extras_plan_def split: result.splits option.splits)
  have "desired = {path_components (prepend_parent_prefix (relative_text z) parent) | z. z \<noteq> [] \<and> file_here fs (source @ z)}"
    by (force simp: d c(2) [OF f] files_below_def image_iff)
  moreover have "set extras = {destination @ x | x. x \<noteq> [] \<and> file_here fs (destination @ x) \<and>
        pattern_allows (relative_text x) (sy_include args) (sy_exclude args) \<and> map Normal x \<notin> desired}"
  proof (cases "fs_at fs destination = None")
    case True
    then have "\<not> file_here fs (destination @ x)" for x
      using plain_prefix [OF assms(1), of destination x] by (cases "x = []") (auto simp: file_here_def)
    then show ?thesis using e True assms(1) by (simp add: build_local_extras_plan_from_desired_def stat_plain)
  next
    case False
    then obtain files2 where g: "collect_local_files env fs destination = Some (Ok files2)"
      and x: "extras = List.filter (\<lambda>f. pattern_allows (relative_text (drop (length destination) f)) (sy_include args) (sy_exclude args) \<and>
          map Normal (drop (length destination) f) \<notin> desired) files2"
      using e assms(1) by (auto simp: build_local_extras_plan_from_desired_def stat_plain try_in_Ok_iff Let_def)
    show ?thesis unfolding x using c(2) [OF g] by (auto simp: files_below_def)
  qed
  ultimately show "set extras = {destination @ x | x. x \<noteq> [] \<and> file_here fs (destination @ x) \<and>
        pattern_allows (relative_text x) (sy_include args) (sy_exclude args) \<and>
        (\<forall>z. z \<noteq> [] \<and> file_here fs (source @ z) \<longrightarrow>
           map Normal x \<noteq> path_components (prepend_parent_prefix (relative_text z) parent))}"
    by auto
qed

lemma execute_local_parts:
  assumes "plain_fs fs" and "length fs < le_fuel env"
  obtains (refused) e where "execute_sync_local_to_local env args source destination fs = Some (Err e, fs)"
  | (ran) parent planned extras res fs' where
      "execute_sync_local_to_local env args source destination fs = Some (res, fs')"
      "recursive_source_parent_prefix (path_text source) (sy_include_parent args) = Ok parent"
      "li_relative ` set planned = {x. x \<noteq> [] \<and> file_here fs (source @ x) \<and>
         pattern_allows (prepend_parent_prefix (relative_text x) parent) (sy_include args) (sy_exclude args)}"
      "if sy_delete args then build_local_extras_plan env fs source destination args = Some (Ok extras) else extras = []"
      "local_sync_run env args source destination planned extras fs = (res, fs')"
proof -
  let ?x = "execute_sync_local_to_local env args source destination fs"
  let ?m = "build_local_source_mappings env fs source (sy_include_parent args)"
  have m: "?m \<noteq> None"
    using collect_local_files_plain(1) [OF assms] by (auto simp: build_local_source_mappings_def split: result.split)
  have e: "build_local_extras_plan env fs source destination args \<noteq> None" by (rule extras_plain(1) [OF assms])
  show thesis
  proof (cases "\<exists>e. ?x = Some (Err e, fs)")
    case False
    then obtain mappings where maps: "?m = Some (Ok mappings)"
      using m by (auto simp: execute_sync_local_to_local_def split: option.splits result.splits)
    define planned where "planned = List.filter (\<lambda>item. pattern_allows (li_relative_key item) (sy_include args) (sy_exclude args)) mappings"
    obtain extras where ex: "(if sy_delete args then build_local_extras_plan env fs source destination args else Some (Ok [])) = Some (Ok extras)"
      and run: "?x = Some (local_sync_run env args source destination planned extras fs)"
      using False maps e
      by (auto simp: execute_sync_local_to_local_def planned_def Let_def split: option.splits result.splits if_splits)
    obtain parent where p: "recursive_source_parent_prefix (path_text source) (sy_include_parent args) = Ok parent"
      and rel: "li_relative ` set mappings = {x. x \<noteq> [] \<and> file_here fs (source @ x)}"
      and key: "\<forall>item \<in> set mappings. li_relative_key item = prepend_parent_prefix (relative_text (li_relative item)) parent"
      by (rule source_items [OF assms maps])
    have "li_relative ` set planned = {x \<in> li_relative ` set mappings.
        pattern_allows (prepend_parent_prefix (relative_text x) parent) (sy_include args) (sy_exclude args)}"
      using key by (auto simp: planned_def)
    then have planned: "li_relative ` set planned = {x. x \<noteq> [] \<and> file_here fs (source @ x) \<and>
        pattern_allows (prepend_parent_prefix (relative_text x) parent) (sy_include args) (sy_exclude args)}"
      unfolding rel by simp
    obtain res fs' where "local_sync_run env args source destination planned extras fs = (res, fs')" by fastforce
    then show thesis using ran [OF _ p planned _, of res fs' extras] run ex by (simp split: if_splits)
  qed (use refused in blast)
qed

text \<open>What the command may do to the node at \<open>q\<close>: write a file, make a directory above one, remove an extra file.\<close>

definition may_write :: "local_fs \<Rightarrow> local_fs \<Rightarrow> string list \<Rightarrow> string list \<Rightarrow> string list \<Rightarrow> bool" where
  "may_write fs fs' source destination q \<longleftrightarrow>
     (\<exists>x. x \<noteq> [] \<and> file_here fs (source @ x) \<and>
        (q = destination @ x \<and> fs_at fs q \<noteq> Some FsDirectory \<and> file_here fs' q \<or>
         (\<exists>y. y \<noteq> [] \<and> q @ y = destination @ x \<and> fs_at fs q = None \<and> fs_at fs' q = Some FsDirectory)))"

definition may_remove :: "sync_args \<Rightarrow> local_fs \<Rightarrow> local_fs \<Rightarrow> string list \<Rightarrow> string list \<Rightarrow> string list \<Rightarrow> bool" where
  "may_remove args fs fs' source destination q \<longleftrightarrow>
     (\<exists>x. x \<noteq> [] \<and> q = destination @ x \<and> sy_delete args \<and> file_here fs q \<and> fs_at fs' q = None \<and>
        pattern_allows (relative_text x) (sy_include args) (sy_exclude args) \<and>
        (\<not> sy_include_parent args \<longrightarrow> proper_path x \<longrightarrow> \<not> file_here fs (source @ x)) \<and>
        (\<not> sy_include_parent args \<longrightarrow> (\<forall>z. proper_path z \<and> file_here fs (source @ z) \<and>
           pattern_allows (relative_text z) (sy_include args) (sy_exclude args) \<longrightarrow> fs_at fs' (destination @ z) \<noteq> None)))"

lemma no_parent_prefix: "recursive_source_parent_prefix source False = Ok parent \<Longrightarrow> prepend_parent_prefix key parent = key"
  by (auto simp: recursive_source_parent_prefix_def prepend_parent_prefix_def)

lemma extras_absent:
  assumes "plain_fs fs" and "length fs < le_fuel env"
    and "build_local_extras_plan env fs source destination args = Some (Ok extras)" and "\<not> sy_include_parent args"
    and "proper_path x" and "destination @ x \<in> set extras"
  shows "\<not> file_here fs (source @ x)"
proof -
  obtain parent where p: "recursive_source_parent_prefix (path_text source) (sy_include_parent args) = Ok parent"
    using assms(4) by (simp add: recursive_source_parent_prefix_def)
  have "map Normal x \<noteq> path_components (relative_text z)" if "z \<noteq> []" "file_here fs (source @ z)" for z
    using assms(6) that no_parent_prefix [of "path_text source" parent] p assms(4)
    unfolding extras_plain(2) [OF assms(1,2,3) p] by simp
  then show ?thesis using relative_components [OF assms(5)] assms(5) by (metis proper_path_def)
qed

lemma local_sync_changes:
  assumes "plain_fs fs" and "length fs < le_fuel env"
  obtains r fs' where "execute_sync_local_to_local env args source destination fs = Some (r, fs')" "plain_fs fs'"
    "\<forall>q. fs_at fs' q = fs_at fs q \<or> may_write fs fs' source destination q \<or> may_remove args fs fs' source destination q"
  using assms
proof (cases rule: execute_local_parts [where args = args and source = source and destination = destination])
  case (refused e)
  show thesis by (rule that [OF refused assms(1)]) simp
next
  case (ran parent planned extras res fs')
  have nonempty: "\<forall>item \<in> set planned. li_relative item \<noteq> []" using ran(3) by blast
  have written: "\<exists>x. q = destination @ x \<and> x \<noteq> [] \<and> file_here fs (source @ x)" if "q \<in> copied_to destination planned" for q
    using that ran(3) by (auto simp: copied_to_def)
  have wrote: "fs_at fs1 q = fs_at fs q \<or> may_write fs fs2 source destination q"
    if "grown (copied_to destination planned) fs fs1" "fs_at fs2 q = fs_at fs1 q" for fs1 fs2 q
    by (rule grown_cases [OF that(1), of q])
      (use written that(2) in \<open>fastforce simp: may_write_def file_here_def\<close>)+
  from ran(5) show thesis
  proof (cases rule: local_sync_run_parts)
    case (stop e)
    note g = local_copies_grown [OF stop(1) assms(1) nonempty]
    show thesis by (rule that [OF ran(1) grown_plain [OF g]]) (use wrote [OF g] in blast)
  next
    case (finished report report' fs1)
    note g = local_copies_grown [OF finished(1) assms(1) nonempty]
    from finished(2) consider "fs' = fs1" | "sy_delete args" "clean report" "local_deletes env extras report fs1 = (report', fs')"
      by blast
    then show thesis
    proof cases
      case 1
      then show thesis using that [OF ran(1)] grown_plain [OF g] wrote [OF g] by blast
    next
      case 2
      have ex: "build_local_extras_plan env fs source destination args = Some (Ok extras)" using ran(4) 2(1) by simp
      note extras = extras_plain(2) [OF assms ex ran(2)]
      have "\<forall>p \<in> set extras. p \<noteq> []" unfolding extras by auto
      then have s: "shrunk (set extras) fs1 fs'" using local_deletes_shrunk [OF 2(3) grown_plain [OF g]] by simp
      have there: "fs_at fs' (destination @ z) \<noteq> None"
        if z: "proper_path z" "file_here fs (source @ z)" "\<not> sy_include_parent args"
          "pattern_allows (relative_text z) (sy_include args) (sy_exclude args)" for z
      proof -
        have "z \<in> li_relative ` set planned"
          using z ran(2) no_parent_prefix [of "path_text source" parent] unfolding ran(3) by (auto simp: proper_path_def)
        then have "fs_at fs1 (destination @ z) \<noteq> None"
          using local_copies_clean [OF finished(1) assms(1) nonempty 2(2)] by auto
        moreover have "destination @ z \<notin> set extras" using extras_absent [OF assms ex z(3,1)] z(2) by blast
        ultimately show ?thesis using s unfolding shrunk_def by metis
      qed
      have removed: "may_remove args fs fs' source destination q" if q: "q \<in> set extras" "fs_at fs' q = None" for q
      proof -
        obtain x where x: "q = destination @ x" "x \<noteq> []" "file_here fs q"
            "pattern_allows (relative_text x) (sy_include args) (sy_exclude args)"
          using q(1) unfolding extras by auto
        moreover have "\<not> sy_include_parent args \<longrightarrow> proper_path x \<longrightarrow> \<not> file_here fs (source @ x)"
          using extras_absent [OF assms ex] q(1) x(1) by blast
        ultimately show ?thesis unfolding may_remove_def using 2(1) q(2) there by blast
      qed
      have "fs_at fs' q = fs_at fs q \<or> may_write fs fs' source destination q \<or>
          may_remove args fs fs' source destination q" for q
      proof (cases "fs_at fs' q = fs_at fs1 q")
        case True
        then show ?thesis using wrote [OF g, of fs' q] by auto
      qed (use removed [of q] s in \<open>auto simp: shrunk_def\<close>)
      then show thesis using that [OF ran(1)] s by (simp add: shrunk_def)
    qed
  qed
qed


lemma copy_settled_file:
  assumes "copy_settled fs fs1 (source @ x) (destination @ x)" and "fs_at fs (destination @ x) \<noteq> Some FsDirectory"
  shows "file_here fs1 (destination @ x)"
  using assms by (auto simp: copy_settled_def file_here_def)

text \<open>An unfiltered run without a failure: the copies settle every source file, then the rest below the destination goes.\<close>

lemma unfiltered_local_run:
  assumes plain: "plain_fs fs" "length fs < le_fuel env"
    and names: "\<forall>x. x \<noteq> [] \<and> file_here fs (source @ x) \<longrightarrow> proper_path x"
    and apart: "\<forall>x y. source @ x \<noteq> destination @ y"
    and all: "sy_include args = None" "sy_exclude args = None" "sy_delete args" "\<not> sy_include_parent args"
    and run: "execute_sync_local_to_local env args source destination fs = Some (Ok report, fs')"
    and ok: "rm_exit_code report = 0"
  obtains fs1 where "grown {destination @ x | x. x \<noteq> [] \<and> file_here fs (source @ x)} fs fs1"
    "\<forall>x. x \<noteq> [] \<and> file_here fs (source @ x) \<longrightarrow> copy_settled fs fs1 (source @ x) (destination @ x)"
    "\<forall>q. fs_at fs' q = (if \<exists>x. q = destination @ x \<and> x \<noteq> [] \<and> file_here fs q \<and> \<not> file_here fs (source @ x)
       then None else fs_at fs1 q)"
  using plain
proof (cases rule: execute_local_parts [where args = args and source = source and destination = destination])
  case (refused e)
  then show ?thesis using run by simp
next
  case (ran parent planned extras res fs2)
  have same: "res = Ok report" "fs2 = fs'" using run ran(1) by simp_all
  note parent = no_parent_prefix [of "path_text source" parent]
  have planned: "li_relative ` set planned = {x. x \<noteq> [] \<and> file_here fs (source @ x)}"
    using ran(3) all by (simp add: pattern_allows_def)
  then have here: "\<forall>item \<in> set planned. li_relative item \<noteq> []"
      "\<forall>item \<in> set planned. file_here fs (source @ li_relative item)" by auto
  have places: "copied_to destination planned = {destination @ x | x. x \<noteq> [] \<and> file_here fs (source @ x)}"
    using planned unfolding copied_to_def image_image [symmetric, of "\<lambda>x. destination @ x" li_relative] by auto
  have ex: "build_local_extras_plan env fs source destination args = Some (Ok extras)" using ran(4) all(3) by simp
  have named: "map Normal x \<noteq> path_components (relative_text z) \<longleftrightarrow> x \<noteq> z" if "z \<noteq> []" "file_here fs (source @ z)" for x z
    using relative_components [of z] names that by (simp add: inj_map_eq_map inj_def)
  have "set extras = {destination @ x | x. x \<noteq> [] \<and> file_here fs (destination @ x) \<and>
      (\<forall>z. z \<noteq> [] \<and> file_here fs (source @ z) \<longrightarrow> map Normal x \<noteq> path_components (relative_text z))}"
    unfolding extras_plain(2) [OF plain ex ran(2)] using parent ran(2) all by (simp add: pattern_allows_def)
  then have extras: "set extras = {q. \<exists>x. q = destination @ x \<and> x \<noteq> [] \<and> file_here fs q \<and> \<not> file_here fs (source @ x)}"
    using named by auto
  from ran(5) show ?thesis
  proof (cases rule: local_sync_run_parts)
    case (stop e)
    then show ?thesis using same by simp
  next
    case (finished report1 report2 fs1)
    have c2: "clean report2" using finished(3) same ok by (auto simp: clean_report rm_exit_code_def split: option.splits if_splits)
    then have d: "clean report1" "local_deletes env extras report1 fs1 = (report2, fs')" using finished(2) all(3) same by auto
    note g = local_copies_grown [OF finished(1) plain(1) here(1)]
    have settled: "\<forall>x. x \<noteq> [] \<and> file_here fs (source @ x) \<longrightarrow> copy_settled fs fs1 (source @ x) (destination @ x)"
    proof (intro allI impI)
      fix x assume "x \<noteq> [] \<and> file_here fs (source @ x)"
      then have "x \<in> li_relative ` set planned" unfolding planned by simp
      then obtain item where "item \<in> set planned" "x = li_relative item" by blast
      then show "copy_settled fs fs1 (source @ x) (destination @ x)"
        using local_copies_settled [OF finished(1) plain(1) here(1) d(1) here(2) apart] by blast
    qed
    have "\<forall>p \<in> set extras. p \<noteq> []" unfolding extras by auto
    from local_deletes_shrunk [OF d(2) grown_plain [OF g] this] c2
    have "\<forall>q. fs_at fs' q = (if q \<in> set extras then None else fs_at fs1 q)" by (auto simp: shrunk_def)
    then show ?thesis using that [OF g [unfolded places] settled] by (simp add: extras)
  qed
qed


section \<open>A run\<close>

definition demo_local_env :: local_env where
  "demo_local_env = \<lparr>le_fuel = 20, le_read_dir = (\<lambda>p. Ok ()), le_stat = (\<lambda>p. Ok ()), le_copy = (\<lambda>p. CopyDone),
     le_remove = (\<lambda>p. Ok ()), le_now = 7, le_directory = (\<lambda>p. (4, 0)), le_answer = Ok ''yes'', le_confirm = None,
     le_can_prompt = False, le_force = False, le_manifest = Ok (), le_report = Ok (), le_rows = (\<lambda>n. Ok ())\<rparr>"

definition demo_local_args :: sync_args where
  "demo_local_args = \<lparr>sy_source = ''/s'', sy_destination = ''/d'', sy_delete = True, sy_size_only = False,
     sy_exact_timestamps = False, sy_include_parent = False, sy_disable_dir_object = False, sy_include = None, sy_exclude = None\<rparr>"

definition demo_local_fs :: local_fs where
  "demo_local_fs =
     [([''d''], FsDirectory), ([''d'', ''a''], FsFile ''old'' 1), ([''d'', ''x''], FsFile ''extra'' 1),
      ([''s''], FsDirectory), ([''s'', ''a''], FsFile ''new!'' 2), ([''s'', ''b''], FsDirectory), ([''s'', ''b'', ''c''], FsFile ''z'' 2)]"

definition demo_local_sync :: "sync_args \<Rightarrow> local_fs \<Rightarrow> (nat \<times> local_fs) option" where
  "demo_local_sync args fs =
     (case execute_sync_local_to_local demo_local_env args [''s''] [''d''] fs of
        Some (Ok report, fs') \<Rightarrow> Some (length (br_failed report), fs')
      | _ \<Rightarrow> None)"

lemma demo_local_run:
  "demo_local_sync demo_local_args demo_local_fs = Some (0,
     [([''d''], FsDirectory), ([''d'', ''a''], FsFile ''new!'' 7), ([''d'', ''b''], FsDirectory), ([''d'', ''b'', ''c''], FsFile ''z'' 7),
      ([''s''], FsDirectory), ([''s'', ''a''], FsFile ''new!'' 2), ([''s'', ''b''], FsDirectory), ([''s'', ''b'', ''c''], FsFile ''z'' 2)])"
  by code_simp

text \<open>With \<open>--include-parent\<close> the copies go to paths without the parent, and the extras are those
  that are not at paths with it: the file that was just updated is deleted.\<close>

lemma include_parent_deletes_updates:
  "demo_local_sync (demo_local_args\<lparr>sy_include_parent := True\<rparr>) demo_local_fs = Some (0,
     [([''d''], FsDirectory), ([''d'', ''b''], FsDirectory), ([''d'', ''b'', ''c''], FsFile ''z'' 7),
      ([''s''], FsDirectory), ([''s'', ''a''], FsFile ''new!'' 2), ([''s'', ''b''], FsDirectory), ([''s'', ''b'', ''c''], FsFile ''z'' 2)])"
  by code_simp

text \<open>The walk follows links to directories: \<open>--delete\<close> removes a file outside the destination.\<close>

lemma link_leads_outside:
  "demo_local_sync demo_local_args
     [([''d''], FsDirectory), ([''d'', ''l''], FsLink [''o'']), ([''o''], FsDirectory), ([''o'', ''f''], FsFile ''kept'' 1), ([''s''], FsDirectory)] =
   Some (0, [([''d''], FsDirectory), ([''d'', ''l''], FsLink [''o'']), ([''o''], FsDirectory), ([''s''], FsDirectory)])"
  by code_simp

text \<open>The wanted paths have backslashes replaced, the paths found have not: such a file is updated and then deleted.\<close>

lemma backslash_deletes_updates:
  "demo_local_sync demo_local_args
     [([''d''], FsDirectory), ([''d'', [backslash]], FsFile ''old'' 1), ([''s''], FsDirectory), ([''s'', [backslash]], FsFile ''new!'' 2)] =
   Some (0, [([''d''], FsDirectory), ([''s''], FsDirectory), ([''s'', [backslash]], FsFile ''new!'' 2)])"
  by code_simp

text \<open>A directory whose entry has the length of the source file is taken for an up-to-date copy of it.\<close>

lemma directory_taken_for_copy:
  "demo_local_sync demo_local_args
     [([''d''], FsDirectory), ([''d'', ''a''], FsDirectory), ([''s''], FsDirectory), ([''s'', ''a''], FsFile ''new!'' 2)] =
   Some (0, [([''d''], FsDirectory), ([''d'', ''a''], FsDirectory), ([''s''], FsDirectory), ([''s'', ''a''], FsFile ''new!'' 2)])"
  by code_simp

lemma plain_fs_code [code]:
  "plain_fs fs \<longleftrightarrow> bt_wf fs \<and> list_all (\<lambda>(p, n). (case n of FsLink _ \<Rightarrow> False | _ \<Rightarrow> True) \<and> p \<noteq> [] \<and>
     fs_at fs (butlast p) = Some FsDirectory) fs"
proof (cases "bt_wf fs")
  case True
  have "list_all P fs \<longleftrightarrow> (\<forall>p n. bt_get fs p = Some n \<longrightarrow> P (p, n))" for P
    using bt_mem [OF True] by (auto simp: list_all_iff)
  then show ?thesis using True
    by (simp add: plain_fs_def) (auto split: fs_node.splits; metis fs_node.exhaust)
qed (simp add: plain_fs_def)

lemma demo_local_plain: "plain_fs demo_local_fs" and demo_local_fuel: "length demo_local_fs < le_fuel demo_local_env"
  by code_simp+

lemma demo_local_files:
  "file_here demo_local_fs ([''s''] @ x) \<Longrightarrow> x = [''a''] \<or> x = [''b'', ''c'']"
  by (auto simp: file_here_def fs_at_def demo_local_fs_def split: if_splits)

lemma demo_local_execute:
  obtains report fs' where "execute_sync_local_to_local demo_local_env demo_local_args [''s''] [''d''] demo_local_fs = Some (Ok report, fs')"
    "rm_exit_code report = 0" "fs_at fs' [''d'', ''a''] = Some (FsFile ''new!'' 7)" "fs_at fs' [''d'', ''x''] = None"
  using demo_local_run
  by (auto simp: demo_local_sync_def rm_exit_code_def fs_at_def split: option.splits result.splits prod.splits)


end
