(* ===== verification/Tos_Multipart.thy ===== *)
theory Tos_Multipart
  imports Cli_Error
begin

text \<open>
  The multipart upload of \<open>crates/tos/src/handler/high_level.rs\<close> with its checkpoint: the
  part size, the lock, the reconciliation with the parts the service lists, the concurrent
  part requests and the completion. The service is the record \<open>upload_service\<close> of its
  request functions over a state \<open>'s\<close>; \<open>saves\<close> gives the outcome of each checkpoint write, \<open>removal\<close> that of its removal,
  and a schedule that ends is the interruption of the process. The uploaded file keeps its
  bytes: its size and modification time are part of the checkpoint's name.
\<close>

section \<open>Part sizes\<close>

definition MiB :: nat where
  "MiB = 1024 * 1024"

definition GiB :: nat where
  "GiB = 1024 * MiB"

datatype upload_strategy = Simple | Multipart nat | Stream

definition optimal_part_size :: "nat \<Rightarrow> nat" where
  "optimal_part_size file_size =
     (if file_size < GiB then 20 * MiB else if file_size < 10 * GiB then 50 * MiB else 100 * MiB)"

definition auto_select :: "nat \<Rightarrow> upload_strategy" where
  "auto_select file_size =
     (if file_size \<le> 5 * GiB then Simple else Multipart (optimal_part_size file_size))"

definition should_use_multipart :: "nat \<Rightarrow> bool \<Rightarrow> nat \<Rightarrow> bool" where
  "should_use_multipart file_size checkpoint_enabled checkpoint_threshold \<longleftrightarrow>
     (case auto_select file_size of Multipart _ \<Rightarrow> True | _ \<Rightarrow> False) \<or>
     (checkpoint_enabled \<and> checkpoint_threshold \<le> file_size)"

definition multipart_part_size :: "nat \<Rightarrow> nat" where
  "multipart_part_size file_size =
     (case auto_select file_size of Multipart part_size \<Rightarrow> part_size | _ \<Rightarrow> 20 * MiB)"

section \<open>Data\<close>

record completed_part =
  cpt_number :: nat
  cpt_etag :: string

record upload_checkpoint =
  uc_file_size :: nat
  uc_part_size :: nat
  uc_upload_id :: "string option"
  uc_completed :: "completed_part list"

text \<open>What one upload keeps on disk: the checkpoint, absent, present or unreadable, and the lock.\<close>

record upload_disk =
  ud_checkpoint :: "(upload_checkpoint, cli_error) result option"
  ud_lock :: bool

record 's upload_service =
  us_create :: "'s \<Rightarrow> (string option, cli_error) result \<times> 's"
  us_list_parts :: "'s \<Rightarrow> string \<Rightarrow> (nat set, cli_error) result"
  us_upload_part :: "'s \<Rightarrow> string \<Rightarrow> nat \<Rightarrow> string \<Rightarrow> (string, cli_error) result \<times> 's"
  us_complete :: "'s \<Rightarrow> string \<Rightarrow> completed_part list \<Rightarrow> (unit, cli_error) result \<times> 's"

datatype upload_outcome = Uploaded | UploadFailed cli_error | UploadInterrupted

section \<open>The parts still to send\<close>

text \<open>The loop over the offsets numbers the parts from one; \<open>u32::checked_add\<close> guards the number.\<close>

function pending_parts ::
  "nat \<Rightarrow> nat \<Rightarrow> nat set \<Rightarrow> nat \<Rightarrow> nat \<Rightarrow> ((nat \<times> nat \<times> nat) list, cli_error) result" where
  "pending_parts file_size part_size completed part_number offset =
     (if offset < file_size \<and> 0 < part_size then
        let current_size = min (file_size - offset) part_size
        in if part_number \<in> completed
           then pending_parts file_size part_size completed (Suc part_number) (offset + current_size)
           else if u32_max \<le> part_number
           then Err (ValidationError ''stdin multipart upload has too many parts'')
           else try_in (pending_parts file_size part_size completed (Suc part_number) (offset + current_size))
                  (\<lambda>rest. Ok ((part_number, offset, current_size) # rest))
      else Ok [])"
  by pat_completeness auto
termination
  by (relation "measure (\<lambda>(file_size, part_size, completed, part_number, offset). file_size - offset)") auto

declare pending_parts.simps [simp del]

definition file_part :: "string \<Rightarrow> nat \<Rightarrow> nat \<Rightarrow> string" where
  "file_part content offset len = take len (drop offset content)"

section \<open>The upload\<close>

definition insert_part :: "completed_part \<Rightarrow> completed_part list \<Rightarrow> completed_part list" where
  "insert_part part parts = sort_key cpt_number (parts @ [part])"

text \<open>The bounded loop over the part requests; a request takes effect when it completes.\<close>

fun upload_parts ::
  "'s upload_service \<Rightarrow> string \<Rightarrow> (nat \<Rightarrow> (unit, cli_error) result) \<Rightarrow> nat \<Rightarrow> nat list \<Rightarrow> string \<Rightarrow>
   (nat \<times> nat \<times> nat) list \<Rightarrow> (nat \<times> nat \<times> nat) list \<Rightarrow> upload_checkpoint \<Rightarrow> nat \<Rightarrow> upload_disk \<Rightarrow> 's \<Rightarrow>
   (upload_checkpoint, upload_outcome) result \<times> upload_disk \<times> 's" where
  "upload_parts svc content saves concurrency schedule upload_id in_flight pending checkpoint n disk st =
     (case fill concurrency in_flight pending of
        (in_flight1, pending1) \<Rightarrow>
          if in_flight1 = [] then (Ok checkpoint, disk, st)
          else case schedule of
            [] \<Rightarrow> (Err UploadInterrupted, disk, st)
          | choice # rest \<Rightarrow>
              let i = choice mod length in_flight1
              in case in_flight1 ! i of
                   (part_number, offset, current_size) \<Rightarrow>
                     (case us_upload_part svc st upload_id part_number (file_part content offset current_size) of
                        (Err e, st1) \<Rightarrow> (Err (UploadFailed e), disk, st1)
                      | (Ok etag, st1) \<Rightarrow>
                          let checkpoint1 = checkpoint\<lparr>uc_completed :=
                                insert_part \<lparr>cpt_number = part_number, cpt_etag = etag\<rparr> (uc_completed checkpoint)\<rparr>
                          in case saves n of
                               Err e \<Rightarrow> (Err (UploadFailed e), disk, st1)
                             | Ok _ \<Rightarrow>
                                 upload_parts svc content saves concurrency rest upload_id
                                   (remove_at i in_flight1) pending1 checkpoint1 (Suc n)
                                   (disk\<lparr>ud_checkpoint := Some (Ok checkpoint1)\<rparr>) st1))"

declare upload_parts.simps [simp del]

definition fresh_checkpoint :: "nat \<Rightarrow> nat \<Rightarrow> upload_checkpoint" where
  "fresh_checkpoint file_size part_size =
     \<lparr>uc_file_size = file_size, uc_part_size = part_size, uc_upload_id = None, uc_completed = []\<rparr>"

definition create_upload ::
  "'s upload_service \<Rightarrow> (nat \<Rightarrow> (unit, cli_error) result) \<Rightarrow> upload_checkpoint \<Rightarrow> upload_disk \<Rightarrow> 's \<Rightarrow>
   (upload_checkpoint, upload_outcome) result \<times> upload_disk \<times> 's" where
  "create_upload svc saves checkpoint disk st =
     (if uc_upload_id checkpoint \<noteq> None then (Ok checkpoint, disk, st)
      else case us_create svc st of
        (Err e, st1) \<Rightarrow> (Err (UploadFailed e), disk, st1)
      | (Ok None, st1) \<Rightarrow>
          (Err (UploadFailed (ValidationError ''CreateMultipartUpload response did not include UploadId'')), disk, st1)
      | (Ok (Some upload_id), st1) \<Rightarrow>
          let checkpoint1 = checkpoint\<lparr>uc_upload_id := Some upload_id\<rparr>
          in case saves 0 of
               Err e \<Rightarrow> (Err (UploadFailed e), disk, st1)
             | Ok _ \<Rightarrow> (Ok checkpoint1, disk\<lparr>ud_checkpoint := Some (Ok checkpoint1)\<rparr>, st1))"

definition the_upload_id :: "upload_checkpoint \<Rightarrow> string" where
  "the_upload_id checkpoint = (case uc_upload_id checkpoint of None \<Rightarrow> [] | Some upload_id \<Rightarrow> upload_id)"

definition complete_upload ::
  "'s upload_service \<Rightarrow> (unit, cli_error) result \<Rightarrow> upload_checkpoint \<Rightarrow> upload_disk \<Rightarrow> 's \<Rightarrow>
   upload_outcome \<times> upload_disk \<times> 's" where
  "complete_upload svc removal checkpoint disk st =
     (if uc_completed checkpoint = []
      then (UploadFailed (ValidationError ''CompleteMultipartUpload requires at least one part''), disk, st)
      else case us_complete svc st (the_upload_id checkpoint) (uc_completed checkpoint) of
        (Err e, st1) \<Rightarrow> (UploadFailed e, disk, st1)
      | (Ok _, st1) \<Rightarrow>
          (case removal of
             Err e \<Rightarrow> (UploadFailed e, disk, st1)
           | Ok _ \<Rightarrow> (Uploaded, disk\<lparr>ud_checkpoint := None\<rparr>, st1)))"

definition send_upload ::
  "'s upload_service \<Rightarrow> string \<Rightarrow> (nat \<Rightarrow> (unit, cli_error) result) \<Rightarrow> (unit, cli_error) result \<Rightarrow>
   nat \<Rightarrow> nat list \<Rightarrow> upload_checkpoint \<Rightarrow> upload_disk \<Rightarrow> 's \<Rightarrow> upload_outcome \<times> upload_disk \<times> 's" where
  "send_upload svc content saves removal concurrency schedule checkpoint disk st =
     (case us_list_parts svc st (the_upload_id checkpoint) of
        Err e \<Rightarrow> (UploadFailed e, disk, st)
      | Ok remote_parts \<Rightarrow>
          let checkpoint1 = checkpoint\<lparr>uc_completed :=
                List.filter (\<lambda>part. cpt_number part \<in> remote_parts) (uc_completed checkpoint)\<rparr>
          in case saves 1 of
               Err e \<Rightarrow> (UploadFailed e, disk, st)
             | Ok _ \<Rightarrow>
                 let disk1 = disk\<lparr>ud_checkpoint := Some (Ok checkpoint1)\<rparr>
                 in case pending_parts (uc_file_size checkpoint1) (uc_part_size checkpoint1)
                          (cpt_number ` set (uc_completed checkpoint1)) 1 0 of
                      Err e \<Rightarrow> (UploadFailed e, disk1, st)
                    | Ok pending \<Rightarrow>
                        (case upload_parts svc content saves concurrency schedule (the_upload_id checkpoint1)
                                [] pending checkpoint1 2 disk1 st of
                           (Err outcome, disk2, st2) \<Rightarrow> (outcome, disk2, st2)
                         | (Ok checkpoint2, disk2, st2) \<Rightarrow> complete_upload svc removal checkpoint2 disk2 st2))"

text \<open>The lock is released on every return, but stays when the process is interrupted.\<close>

definition release_lock ::
  "upload_outcome \<times> upload_disk \<times> 's \<Rightarrow> upload_outcome \<times> upload_disk \<times> 's" where
  "release_lock run =
     (case run of (outcome, disk, st) \<Rightarrow>
        (outcome, if outcome = UploadInterrupted then disk else disk\<lparr>ud_lock := False\<rparr>, st))"

definition upload_local_to_tos_multipart ::
  "'s upload_service \<Rightarrow> string \<Rightarrow> (nat \<Rightarrow> (unit, cli_error) result) \<Rightarrow> (unit, cli_error) result \<Rightarrow>
   nat \<Rightarrow> nat list \<Rightarrow> upload_disk \<Rightarrow> 's \<Rightarrow> upload_outcome \<times> upload_disk \<times> 's" where
  "upload_local_to_tos_multipart svc content saves removal concurrency schedule disk st =
     (let file_size = length content; part_size = multipart_part_size file_size
      in if ud_lock disk then (UploadFailed (Conflict ''checkpoint is locked''), disk, st)
         else release_lock
           (let disk1 = disk\<lparr>ud_lock := True\<rparr>
            in case (case ud_checkpoint disk1 of None \<Rightarrow> Ok (fresh_checkpoint file_size part_size) | Some r \<Rightarrow> r) of
                 Err e \<Rightarrow> (UploadFailed e, disk1, st)
               | Ok checkpoint \<Rightarrow>
                   if uc_file_size checkpoint \<noteq> file_size \<or> uc_part_size checkpoint \<noteq> part_size
                   then (UploadFailed (ValidationError
                     ''checkpoint metadata does not match the local file; remove the checkpoint to restart''), disk1, st)
                   else case create_upload svc saves checkpoint disk1 st of
                          (Err outcome, disk2, st2) \<Rightarrow> (outcome, disk2, st2)
                        | (Ok checkpoint1, disk2, st2) \<Rightarrow>
                            send_upload svc content saves removal concurrency schedule checkpoint1 disk2 st2))"

section \<open>The parts of a file\<close>

definition upload_part_count :: "nat \<Rightarrow> nat \<Rightarrow> nat" where
  "upload_part_count file_size part_size = (file_size + part_size - 1) div part_size"

definition part_at :: "nat \<Rightarrow> nat \<Rightarrow> nat \<Rightarrow> nat \<times> nat \<times> nat" where
  "part_at file_size part_size n =
     (n, (n - 1) * part_size, min (file_size - (n - 1) * part_size) part_size)"

definition part_bytes :: "string \<Rightarrow> nat \<Rightarrow> string" where
  "part_bytes content n =
     (let part_size = multipart_part_size (length content)
      in file_part content ((n - 1) * part_size) (min (length content - (n - 1) * part_size) part_size))"

lemma part_size_positive [simp]: "0 < multipart_part_size n"
  by (auto simp: multipart_part_size_def auto_select_def optimal_part_size_def MiB_def)

lemma upload_part_count_iff:
  assumes "0 < part_size" and "0 < n"
  shows "n \<le> upload_part_count file_size part_size \<longleftrightarrow> (n - 1) * part_size < file_size"
proof -
  obtain m where m: "n = Suc m" using assms(2) by (cases n) auto
  have "Suc m \<le> (file_size + part_size - 1) div part_size \<longleftrightarrow> Suc m * part_size \<le> file_size + part_size - 1"
    using assms(1) by (simp add: less_eq_div_iff_mult_less_eq)
  also have "\<dots> \<longleftrightarrow> m * part_size < file_size" using assms(1) by auto
  finally show ?thesis by (simp add: upload_part_count_def m)
qed

lemma pending_parts_at:
  assumes "pending_parts file_size part_size completed k ((k - 1) * part_size) = Ok parts"
    and "0 < part_size" and "0 < k"
  shows "parts = map (part_at file_size part_size)
    (List.filter (\<lambda>n. n \<notin> completed) [k..<Suc (upload_part_count file_size part_size)])"
  using assms(1,3)
proof (induction "Suc (upload_part_count file_size part_size) - k" arbitrary: k parts)
  case 0
  then have "\<not> k \<le> upload_part_count file_size part_size" by simp
  then have "\<not> (k - 1) * part_size < file_size" using upload_part_count_iff [OF assms(2) 0(3)] by simp
  then show ?case using 0 by (subst (asm) pending_parts.simps) simp
next
  case (Suc d)
  let ?off = "(k - 1) * part_size"
  have k: "k \<le> upload_part_count file_size part_size" using Suc(2) by simp
  then have off: "?off < file_size" using upload_part_count_iff [OF assms(2) Suc(4)] by simp
  have upt: "[k..<Suc (upload_part_count file_size part_size)] = k # [Suc k..<Suc (upload_part_count file_size part_size)]"
    using k by (simp add: upt_conv_Cons)
  have later: "rest = map (part_at file_size part_size)
      (List.filter (\<lambda>n. n \<notin> completed) [Suc k..<Suc (upload_part_count file_size part_size)])"
    if "pending_parts file_size part_size completed (Suc k) (?off + min (file_size - ?off) part_size) = Ok rest" for rest
  proof (cases "Suc k \<le> upload_part_count file_size part_size")
    case True
    then have "k * part_size < file_size" using upload_part_count_iff [OF assms(2), of "Suc k" file_size] by simp
    moreover have "k * part_size = ?off + part_size"
      using Suc(4) by (metis One_nat_def Suc_pred add.commute mult_Suc)
    ultimately have "?off + min (file_size - ?off) part_size = (Suc k - 1) * part_size" by simp
    then show ?thesis using Suc(1) [of "Suc k" rest] Suc(2) that by simp
  next
    case False
    then have "\<not> k * part_size < file_size" using upload_part_count_iff [OF assms(2), of "Suc k" file_size] by simp
    moreover have "k * part_size = ?off + part_size"
      using Suc(4) by (metis One_nat_def Suc_pred add.commute mult_Suc)
    ultimately have "?off + min (file_size - ?off) part_size = file_size" using off by simp
    then have "rest = []" using that by (subst (asm) pending_parts.simps) simp
    then show ?thesis using False by simp
  qed
  show ?case
  proof (cases "k \<in> completed")
    case True
    then have "pending_parts file_size part_size completed (Suc k) (?off + min (file_size - ?off) part_size) = Ok parts"
      using Suc(3) off assms(2) by (subst (asm) pending_parts.simps) (simp add: Let_def)
    from later [OF this] show ?thesis using True upt by simp
  next
    case False
    then obtain rest where "pending_parts file_size part_size completed (Suc k) (?off + min (file_size - ?off) part_size) = Ok rest"
      and "parts = (k, ?off, min (file_size - ?off) part_size) # rest"
      using Suc(3) off assms(2) by (subst (asm) pending_parts.simps) (auto simp: Let_def try_in_Ok_iff split: if_splits)
    then show ?thesis using later False upt by (simp add: part_at_def)
  qed
qed

lemma parts_concat: "concat (map (part_bytes content) [1..<Suc m]) = take (m * multipart_part_size (length content)) content"
proof (induction m)
  case 0
  then show ?case by simp
next
  case (Suc m)
  let ?ps = "multipart_part_size (length content)"
  have "part_bytes content (Suc m) = take ?ps (drop (m * ?ps) content)"
    by (simp add: part_bytes_def file_part_def Let_def min_def)
  moreover have "concat (map (part_bytes content) [1..<Suc (Suc m)]) =
      concat (map (part_bytes content) [1..<Suc m]) @ part_bytes content (Suc m)" by simp
  ultimately show ?case
    using Suc by (simp add: take_add [symmetric] add.commute)
qed

lemma all_parts: "concat (map (part_bytes content) [1..<Suc (upload_part_count (length content) (multipart_part_size (length content)))]) = content"
proof -
  let ?ps = "multipart_part_size (length content)"
  let ?N = "upload_part_count (length content) ?ps"
  have "\<not> Suc ?N \<le> ?N" by simp
  then have "length content \<le> ?N * ?ps" using upload_part_count_iff [of ?ps "Suc ?N" "length content"] by simp
  then show ?thesis by (simp only: parts_concat take_all)
qed

section \<open>The service\<close>

type_synonym stored_parts = "string \<Rightarrow> nat \<Rightarrow> (string \<times> string) option"

text \<open>
  The documented behaviour of multipart uploads. A part request stores that part and nothing
  else, also when its answer is lost; an acknowledged part is stored under its entity tag;
  completion stores nothing, and when it succeeds it has checked the entity tags and
  published the parts in the given order, which must ascend.
\<close>

definition stores_only :: "'s upload_service \<Rightarrow> ('s \<Rightarrow> stored_parts) \<Rightarrow> bool" where
  "stores_only svc stored \<longleftrightarrow>
     (\<forall>st upload_id n bytes id1 n1 e b.
        stored (snd (us_upload_part svc st upload_id n bytes)) id1 n1 = Some (e, b) \<longrightarrow>
        stored st id1 n1 = Some (e, b) \<or> n1 = n \<and> b = bytes)"

definition acknowledges :: "'s upload_service \<Rightarrow> ('s \<Rightarrow> stored_parts) \<Rightarrow> bool" where
  "acknowledges svc stored \<longleftrightarrow>
     (\<forall>st upload_id n bytes e st1.
        us_upload_part svc st upload_id n bytes = (Ok e, st1) \<longrightarrow> stored st1 upload_id n = Some (e, bytes))"

definition completion_stores_nothing :: "'s upload_service \<Rightarrow> ('s \<Rightarrow> stored_parts) \<Rightarrow> bool" where
  "completion_stores_nothing svc stored \<longleftrightarrow>
     (\<forall>st upload_id parts id1 n x.
        stored (snd (us_complete svc st upload_id parts)) id1 n = Some x \<longrightarrow> stored st id1 n = Some x)"

definition completion_publishes ::
  "'s upload_service \<Rightarrow> ('s \<Rightarrow> stored_parts) \<Rightarrow> ('s \<Rightarrow> string option) \<Rightarrow> bool" where
  "completion_publishes svc stored published \<longleftrightarrow>
     (\<forall>st upload_id parts u st1.
        us_complete svc st upload_id parts = (Ok u, st1) \<longrightarrow> sorted_wrt (<) (map cpt_number parts) \<longrightarrow>
        (\<forall>p \<in> set parts. \<exists>b. stored st upload_id (cpt_number p) = Some (cpt_etag p, b)) \<and>
        published st1 = Some (concat (map (\<lambda>p. snd (the (stored st upload_id (cpt_number p)))) parts)))"

definition multipart_contract ::
  "'s upload_service \<Rightarrow> ('s \<Rightarrow> stored_parts) \<Rightarrow> ('s \<Rightarrow> string option) \<Rightarrow> bool" where
  "multipart_contract svc stored published \<longleftrightarrow>
     stores_only svc stored \<and> acknowledges svc stored \<and> completion_stores_nothing svc stored \<and>
     completion_publishes svc stored published"

lemma contract_part:
  assumes "multipart_contract svc stored published"
    and "us_upload_part svc st upload_id n bytes = (r, st1)"
    and "stored st1 id1 n1 = Some (e, b)"
  shows "stored st id1 n1 = Some (e, b) \<or> n1 = n \<and> b = bytes"
proof -
  have "stored (snd (us_upload_part svc st upload_id n bytes)) id1 n1 = Some (e, b)"
    using assms(2,3) by simp
  then show ?thesis using assms(1) unfolding multipart_contract_def stores_only_def by blast
qed

lemma contract_ack:
  assumes "multipart_contract svc stored published"
    and "us_upload_part svc st upload_id n bytes = (Ok e, st1)"
  shows "stored st1 upload_id n = Some (e, bytes)"
  using assms unfolding multipart_contract_def acknowledges_def by blast

lemma contract_complete:
  assumes "multipart_contract svc stored published"
    and "us_complete svc st upload_id parts = (Ok u, st1)"
    and "sorted_wrt (<) (map cpt_number parts)"
  shows "\<forall>p \<in> set parts. \<exists>b. stored st upload_id (cpt_number p) = Some (cpt_etag p, b)"
    and "published st1 = Some (concat (map (\<lambda>p. snd (the (stored st upload_id (cpt_number p)))) parts))"
proof -
  have "completion_publishes svc stored published" using assms(1) by (simp add: multipart_contract_def)
  then have "(\<forall>p \<in> set parts. \<exists>b. stored st upload_id (cpt_number p) = Some (cpt_etag p, b)) \<and>
      published st1 = Some (concat (map (\<lambda>p. snd (the (stored st upload_id (cpt_number p)))) parts))"
    using assms(2,3) unfolding completion_publishes_def by blast
  then show "\<forall>p \<in> set parts. \<exists>b. stored st upload_id (cpt_number p) = Some (cpt_etag p, b)"
    and "published st1 = Some (concat (map (\<lambda>p. snd (the (stored st upload_id (cpt_number p)))) parts))"
    by simp_all
qed

section \<open>What a checkpoint guarantees\<close>

text \<open>
  The recorded parts are numbered within the file, in ascending order, and what the service
  still stores of them are the bytes of the file.
\<close>

definition faithful_parts :: "stored_parts \<Rightarrow> string \<Rightarrow> string \<Rightarrow> nat set \<Rightarrow> bool" where
  "faithful_parts stored content upload_id ns \<longleftrightarrow>
     (\<forall>n \<in> ns. \<forall>e b. stored upload_id n = Some (e, b) \<longrightarrow> b = part_bytes content n)"

definition file_parts :: "string \<Rightarrow> nat" where
  "file_parts content = upload_part_count (length content) (multipart_part_size (length content))"

definition recorded_numbers :: "upload_checkpoint \<Rightarrow> nat set" where
  "recorded_numbers cp = set (map cpt_number (uc_completed cp))"

definition good_checkpoint :: "stored_parts \<Rightarrow> string \<Rightarrow> upload_checkpoint \<Rightarrow> bool" where
  "good_checkpoint stored content cp \<longleftrightarrow>
     uc_file_size cp = length content \<and> uc_part_size cp = multipart_part_size (length content) \<and>
     (uc_upload_id cp = None \<longrightarrow> uc_completed cp = []) \<and>
     sorted_wrt (<) (map cpt_number (uc_completed cp)) \<and>
     recorded_numbers cp \<subseteq> {1..file_parts content} \<and>
     faithful_parts stored content (the_upload_id cp) (recorded_numbers cp)"

definition good_disk :: "stored_parts \<Rightarrow> string \<Rightarrow> upload_disk \<Rightarrow> bool" where
  "good_disk stored content disk \<longleftrightarrow>
     (\<forall>cp. ud_checkpoint disk = Some (Ok cp) \<longrightarrow> good_checkpoint stored content cp)"

lemma insert_part_facts:
  assumes "sorted_wrt (<) (map cpt_number parts)" and "cpt_number part \<notin> set (map cpt_number parts)"
  shows "set (insert_part part parts) = insert part (set parts)"
    and "sorted_wrt (<) (map cpt_number (insert_part part parts))"
proof -
  show "set (insert_part part parts) = insert part (set parts)" by (auto simp: insert_part_def)
  have "distinct (map cpt_number (parts @ [part]))" using assms by (auto simp: strict_sorted_iff)
  moreover have "mset (map cpt_number (insert_part part parts)) = mset (map cpt_number (parts @ [part]))"
    by (simp add: insert_part_def)
  ultimately have "distinct (map cpt_number (insert_part part parts))" by (metis mset_eq_imp_distinct_iff)
  moreover have "sorted (map cpt_number (insert_part part parts))" by (simp add: insert_part_def)
  ultimately show "sorted_wrt (<) (map cpt_number (insert_part part parts))" by (simp add: strict_sorted_iff)
qed

text \<open>The service may lose stored parts and may still store the bytes of a late part request.\<close>

definition parts_settle :: "string \<Rightarrow> stored_parts \<Rightarrow> stored_parts \<Rightarrow> bool" where
  "parts_settle content before after \<longleftrightarrow>
     (\<forall>upload_id n e b. after upload_id n = Some (e, b) \<longrightarrow>
        before upload_id n = Some (e, b) \<or> b = part_bytes content n)"

lemma good_settle:
  assumes "good_checkpoint before content cp" and "parts_settle content before after"
  shows "good_checkpoint after content cp"
  using assms unfolding good_checkpoint_def faithful_parts_def parts_settle_def by blast

lemma good_disk_settle:
  assumes "good_disk before content disk" and "parts_settle content before after"
  shows "good_disk after content disk"
  using assms good_settle unfolding good_disk_def by blast

lemma upload_part_settles:
  assumes "multipart_contract svc stored published"
    and "us_upload_part svc st upload_id n (part_bytes content n) = (r, st1)"
  shows "parts_settle content (stored st) (stored st1)"
  using contract_part [OF assms] unfolding parts_settle_def by blast

lemma complete_settles:
  assumes "multipart_contract svc stored published" and "us_complete svc st upload_id parts = (r, st1)"
  shows "parts_settle content (stored st) (stored st1)"
proof -
  have c: "completion_stores_nothing svc stored" using assms(1) by (simp add: multipart_contract_def)
  have "snd (us_complete svc st upload_id parts) = st1" using assms(2) by simp
  then show ?thesis using c unfolding parts_settle_def completion_stores_nothing_def by metis
qed

text \<open>The loop: the parts recorded, pending and in flight are together the parts of the file.\<close>

definition sending :: "stored_parts \<Rightarrow> string \<Rightarrow> (nat \<times> nat \<times> nat) list \<Rightarrow> upload_checkpoint \<Rightarrow> bool" where
  "sending stored content parts cp \<longleftrightarrow>
     good_checkpoint stored content cp \<and> uc_upload_id cp \<noteq> None \<and> distinct (map fst parts) \<and>
     (\<forall>part \<in> set parts. part = part_at (length content) (multipart_part_size (length content)) (fst part)) \<and>
     fst ` set parts \<inter> recorded_numbers cp = {} \<and>
     fst ` set parts \<union> recorded_numbers cp = {1..file_parts content}"

lemma sending_append:
  assumes "sending stored content (p @ q) cp" and "p' @ q' = p @ q"
  shows "sending stored content (p' @ q') cp"
  using assms by simp

lemma sending_part:
  assumes "sending stored content parts cp" and "(k, off, len) \<in> set parts"
  shows "file_part content off len = part_bytes content k" and "k \<notin> recorded_numbers cp"
proof -
  have "(k, off, len) = part_at (length content) (multipart_part_size (length content)) k"
    using assms by (fastforce simp: sending_def)
  then show "file_part content off len = part_bytes content k"
    by (auto simp: part_at_def part_bytes_def Let_def)
  have "k \<in> fst ` set parts" using assms(2) by force
  then show "k \<notin> recorded_numbers cp" using assms(1) by (auto simp: sending_def)
qed

lemma good_disk_save:
  assumes "good_checkpoint stored content cp"
  shows "good_disk stored content (disk\<lparr>ud_checkpoint := Some (Ok cp)\<rparr>)"
  using assms by (simp add: good_disk_def)

text \<open>Recording an acknowledged part.\<close>

definition record_part :: "upload_checkpoint \<Rightarrow> nat \<Rightarrow> string \<Rightarrow> upload_checkpoint" where
  "record_part cp k etag =
     cp\<lparr>uc_completed := insert_part \<lparr>cpt_number = k, cpt_etag = etag\<rparr> (uc_completed cp)\<rparr>"

lemma record_part_facts [simp]:
  "uc_file_size (record_part cp k etag) = uc_file_size cp"
  "uc_part_size (record_part cp k etag) = uc_part_size cp"
  "uc_upload_id (record_part cp k etag) = uc_upload_id cp"
  "the_upload_id (record_part cp k etag) = the_upload_id cp"
  by (simp_all add: record_part_def the_upload_id_def)

lemma record_part_numbers:
  assumes "good_checkpoint stored content cp" and "k \<notin> recorded_numbers cp"
  shows "recorded_numbers (record_part cp k etag) = insert k (recorded_numbers cp)"
    and "sorted_wrt (<) (map cpt_number (uc_completed (record_part cp k etag)))"
proof -
  have s: "sorted_wrt (<) (map cpt_number (uc_completed cp))" using assms(1) by (simp add: good_checkpoint_def)
  have n: "cpt_number \<lparr>cpt_number = k, cpt_etag = etag\<rparr> \<notin> set (map cpt_number (uc_completed cp))"
    using assms(2) by (simp add: recorded_numbers_def)
  show "recorded_numbers (record_part cp k etag) = insert k (recorded_numbers cp)"
    using insert_part_facts(1) [OF s n] by (simp add: recorded_numbers_def record_part_def)
  show "sorted_wrt (<) (map cpt_number (uc_completed (record_part cp k etag)))"
    using insert_part_facts(2) [OF s n] by (simp add: record_part_def)
qed

lemma sending_step:
  assumes contract: "multipart_contract svc stored published"
    and sending: "sending (stored st) content (p @ q) cp"
    and i: "i < length p" and part: "p ! i = (k, off, len)"
    and sent: "us_upload_part svc st (the_upload_id cp) k (file_part content off len) = (Ok etag, st1)"
  shows "sending (stored st1) content (remove_at i p @ q) (record_part cp k etag)"
proof -
  have mem: "(k, off, len) \<in> set (p @ q)" using nth_mem [OF i] part by simp
  note bytes = sending_part [OF sending mem]
  have sent1: "us_upload_part svc st (the_upload_id cp) k (part_bytes content k) = (Ok etag, st1)"
    using sent bytes(1) by simp
  have good: "good_checkpoint (stored st) content cp" using sending by (simp add: sending_def)
  have good1: "good_checkpoint (stored st1) content cp"
    using good_settle [OF good upload_part_settles [OF contract sent1]] .
  note numbers = record_part_numbers [OF good1 bytes(2), of etag]
  have d: "distinct (map fst (p @ q))" using sending by (simp add: sending_def)
  have ms: "mset p = add_mset (k, off, len) (mset (remove_at i p))" using mset_remove_at [OF i] part by simp
  then have "mset (map fst (p @ q)) = add_mset k (mset (map fst (remove_at i p @ q)))" by simp
  then have d1: "distinct (k # map fst (remove_at i p @ q))"
    using d by (metis mset.simps(2) mset_eq_imp_distinct_iff)
  have "set_mset (mset p) = insert (k, off, len) (set_mset (mset (remove_at i p)))"
    unfolding ms by simp
  then have s: "set (p @ q) = insert (k, off, len) (set (remove_at i p @ q))" by auto
  then have f: "fst ` set (p @ q) = insert k (fst ` set (remove_at i p @ q))" by force
  have k: "k \<notin> fst ` set (remove_at i p @ q)" using d1 by (simp add: image_Un)
  have u: "fst ` set (p @ q) \<union> recorded_numbers cp = {1..file_parts content}"
    using sending unfolding sending_def by (elim conjE)
  have e: "fst ` set (p @ q) \<inter> recorded_numbers cp = {}"
    using sending unfolding sending_def by (elim conjE)
  have a: "\<forall>part \<in> set (p @ q). part = part_at (length content) (multipart_part_size (length content)) (fst part)"
    using sending unfolding sending_def by (elim conjE)
  have "k \<in> fst ` set (p @ q)" unfolding f by (rule insertI1)
  then have inside: "k \<in> {1..file_parts content}" unfolding u [symmetric] by (rule UnI1)
  have "stored st1 (the_upload_id cp) k = Some (etag, part_bytes content k)"
    by (rule contract_ack [OF contract sent1])
  then have "faithful_parts (stored st1) content (the_upload_id cp) (insert k (recorded_numbers cp))"
    using good1 by (auto simp: good_checkpoint_def faithful_parts_def)
  moreover have id: "uc_upload_id cp \<noteq> None" using sending unfolding sending_def by (elim conjE)
  ultimately have "good_checkpoint (stored st1) content (record_part cp k etag)"
    using good1 numbers inside by (auto simp: good_checkpoint_def)
  moreover note id
  moreover have "fst ` set (remove_at i p @ q) \<inter> insert k (recorded_numbers cp) = {}"
    using e k unfolding f by blast
  moreover have "fst ` set (remove_at i p @ q) \<union> insert k (recorded_numbers cp) = {1..file_parts content}"
    using u unfolding f by (simp only: Un_insert_left Un_insert_right)
  moreover have "\<forall>part \<in> set (remove_at i p @ q).
      part = part_at (length content) (multipart_part_size (length content)) (fst part)"
    using a unfolding s ball_simps by (elim conjE)
  moreover have "distinct (map fst (remove_at i p @ q))" using d1 by simp
  ultimately show ?thesis
    unfolding sending_def numbers(1) record_part_facts by (intro conjI)
qed

lemma upload_parts_sound:
  assumes contract: "multipart_contract svc stored published" and c: "0 < concurrency"
    and "sending (stored st) content (in_flight @ pending) cp"
    and "good_disk (stored st) content disk"
    and "upload_parts svc content saves concurrency schedule (the_upload_id cp) in_flight pending cp n disk st = (r, disk', st')"
  shows "good_disk (stored st') content disk' \<and> ud_lock disk' = ud_lock disk \<and>
    (case r of Ok cp' \<Rightarrow> sending (stored st') content [] cp' | Err outcome \<Rightarrow> outcome \<noteq> Uploaded)"
  using assms(3-5)
proof (induction schedule arbitrary: in_flight pending cp n disk st)
  case Nil
  obtain p q where f: "fill concurrency in_flight pending = (p, q)" by (cases "fill concurrency in_flight pending")
  show ?case
  proof (cases "p = []")
    case True
    then have "in_flight @ pending = []" using fill_append [OF f] fill_empty [OF _ c] f by auto
    then show ?thesis using Nil True f by (subst (asm) upload_parts.simps) auto
  next
    case False
    then show ?thesis using Nil f by (subst (asm) upload_parts.simps) auto
  qed
next
  case (Cons choice rest)
  obtain p q where f: "fill concurrency in_flight pending = (p, q)" by (cases "fill concurrency in_flight pending")
  show ?case
  proof (cases "p = []")
    case True
    then have "in_flight @ pending = []" using fill_append [OF f] fill_empty [OF _ c] f by auto
    then show ?thesis using Cons.prems True f by (subst (asm) upload_parts.simps) auto
  next
    case False
    let ?i = "choice mod length p"
    have i: "?i < length p" using False by simp
    obtain k off len where part: "p ! ?i = (k, off, len)" by (cases "p ! ?i")
    obtain a st1 where sent: "us_upload_part svc st (the_upload_id cp) k (file_part content off len) = (a, st1)"
      by (cases "us_upload_part svc st (the_upload_id cp) k (file_part content off len)")
    have sending: "sending (stored st) content (p @ q) cp"
      using Cons.prems(1) fill_append [OF f] by simp
    have mem: "(k, off, len) \<in> set (p @ q)" using nth_mem [OF i] part by simp
    have settle: "parts_settle content (stored st) (stored st1)"
      using upload_part_settles [OF contract] sent sending_part(1) [OF sending mem] by metis
    have disk: "good_disk (stored st1) content disk" by (rule good_disk_settle [OF Cons.prems(2) settle])
    show ?thesis
    proof (cases a)
      case (Err e)
      then show ?thesis using Cons.prems(3) False f part sent disk
        by (subst (asm) upload_parts.simps) (auto simp: Let_def)
    next
      case (Ok etag)
      let ?cp1 = "record_part cp k etag"
      have next_sending: "sending (stored st1) content (remove_at ?i p @ q) ?cp1"
        using sending_step [OF contract sending i part] sent Ok by simp
      show ?thesis
      proof (cases "saves n")
        case (Err e)
        then show ?thesis using Cons.prems(3) False f part sent disk Ok
          by (subst (asm) upload_parts.simps) (auto simp: Let_def)
      next
        case save: (Ok u)
        let ?disk1 = "disk\<lparr>ud_checkpoint := Some (Ok ?cp1)\<rparr>"
        have "upload_parts svc content saves concurrency rest (the_upload_id ?cp1)
            (remove_at ?i p) q ?cp1 (Suc n) ?disk1 st1 = (r, disk', st')"
          using Cons.prems(3) False f part sent Ok save
          by (subst (asm) upload_parts.simps) (simp add: Let_def record_part_def the_upload_id_def)
        moreover have "good_disk (stored st1) content ?disk1"
          using next_sending by (intro good_disk_save) (simp add: sending_def)
        ultimately show ?thesis using Cons.IH [OF next_sending, of ?disk1 "Suc n"] by simp
      qed
    qed
  qed
qed

lemma kept_parts_good:
  assumes "good_checkpoint stored content cp"
  shows "good_checkpoint stored content (cp\<lparr>uc_completed :=
    List.filter (\<lambda>part. cpt_number part \<in> remote) (uc_completed cp)\<rparr>)"
proof -
  let ?cp = "cp\<lparr>uc_completed := List.filter (\<lambda>part. cpt_number part \<in> remote) (uc_completed cp)\<rparr>"
  have n: "recorded_numbers ?cp \<subseteq> recorded_numbers cp" by (auto simp: recorded_numbers_def)
  have "faithful_parts stored content (the_upload_id ?cp) (recorded_numbers ?cp)"
    using assms n by (fastforce simp: good_checkpoint_def faithful_parts_def the_upload_id_def)
  moreover have "sorted_wrt (<) (map cpt_number (uc_completed ?cp))"
    using assms by (simp add: good_checkpoint_def sorted_wrt_map sorted_wrt_filter)
  moreover have "recorded_numbers ?cp \<subseteq> {1..file_parts content}"
    using assms n unfolding good_checkpoint_def by blast
  ultimately show ?thesis using assms by (simp add: good_checkpoint_def)
qed

lemma pending_sending:
  assumes good: "good_checkpoint stored content cp" and "uc_upload_id cp \<noteq> None"
    and "pending_parts (uc_file_size cp) (uc_part_size cp) (cpt_number ` set (uc_completed cp)) 1 0 = Ok pending"
  shows "sending stored content ([] @ pending) cp"
proof -
  let ?ps = "multipart_part_size (length content)"
  let ?todo = "List.filter (\<lambda>n. n \<notin> recorded_numbers cp) [1..<Suc (file_parts content)]"
  have "pending_parts (length content) ?ps (recorded_numbers cp) 1 ((1 - 1) * ?ps) = Ok pending"
    using assms by (simp add: good_checkpoint_def recorded_numbers_def)
  from pending_parts_at [OF this]
  have p: "pending = map (part_at (length content) ?ps) ?todo" by (simp add: file_parts_def)
  then have f: "map fst pending = ?todo" by (simp add: part_at_def o_def)
  have r: "recorded_numbers cp \<subseteq> {1..file_parts content}" using good by (simp add: good_checkpoint_def)
  have fs: "fst ` set pending = {1..file_parts content} - recorded_numbers cp"
    using arg_cong [OF f, of set] by (auto simp del: upt_Suc)
  have "distinct (map fst pending)" unfolding f by simp
  moreover have "\<forall>part \<in> set pending. part = part_at (length content) ?ps (fst part)"
    unfolding p by (auto simp: part_at_def)
  ultimately show ?thesis using assms(1,2) fs r unfolding sending_def by auto
qed

lemma sent_parts:
  assumes "sending stored content [] cp"
  shows "map cpt_number (uc_completed cp) = [1..<Suc (file_parts content)]"
proof (rule sorted_distinct_set_unique)
  have "sorted_wrt (<) (map cpt_number (uc_completed cp))" using assms by (simp add: sending_def good_checkpoint_def)
  then show "sorted (map cpt_number (uc_completed cp))" and "distinct (map cpt_number (uc_completed cp))"
    by (simp_all add: strict_sorted_iff)
  have "set (map cpt_number (uc_completed cp)) = {1..file_parts content}"
    using assms by (simp add: sending_def recorded_numbers_def)
  then show "set (map cpt_number (uc_completed cp)) = set [1..<Suc (file_parts content)]" by auto
qed (simp_all only: sorted_upt distinct_upt)

lemma complete_upload_sound:
  assumes contract: "multipart_contract svc stored published"
    and sending: "sending (stored st) content [] cp" and disk: "good_disk (stored st) content disk"
    and "complete_upload svc removal cp disk st = (outcome, disk', st')"
  shows "good_disk (stored st') content disk' \<and> ud_lock disk' = ud_lock disk \<and>
    (outcome = Uploaded \<longrightarrow> content \<noteq> [] \<and> published st' = Some content \<and> ud_checkpoint disk' = None)"
proof (cases "uc_completed cp = []")
  case True
  then show ?thesis using assms by (auto simp: complete_upload_def)
next
  case False
  obtain a st1 where a: "us_complete svc st (the_upload_id cp) (uc_completed cp) = (a, st1)"
    by (cases "us_complete svc st (the_upload_id cp) (uc_completed cp)")
  have disk1: "good_disk (stored st1) content disk"
    by (rule good_disk_settle [OF disk complete_settles [OF contract a]])
  show ?thesis
  proof (cases a)
    case (Err e)
    then show ?thesis using assms(4) a False disk1 by (auto simp: complete_upload_def)
  next
    case (Ok u)
    have sorted: "sorted_wrt (<) (map cpt_number (uc_completed cp))"
      using sending by (simp add: sending_def good_checkpoint_def)
    note done1 = contract_complete [OF contract a [unfolded Ok] sorted]
    have "snd (the (stored st (the_upload_id cp) (cpt_number p))) = part_bytes content (cpt_number p)"
      if p: "p \<in> set (uc_completed cp)" for p
    proof -
      obtain b where b: "stored st (the_upload_id cp) (cpt_number p) = Some (cpt_etag p, b)" using done1(1) p by blast
      have "cpt_number p \<in> recorded_numbers cp" using p by (simp add: recorded_numbers_def)
      then have "b = part_bytes content (cpt_number p)"
        using sending b unfolding sending_def good_checkpoint_def faithful_parts_def by blast
      then show ?thesis using b by simp
    qed
    then have "concat (map (\<lambda>p. snd (the (stored st (the_upload_id cp) (cpt_number p)))) (uc_completed cp)) =
        concat (map (part_bytes content) (map cpt_number (uc_completed cp)))"
      by (simp add: o_def cong: map_cong)
    also have "\<dots> = content" unfolding sent_parts [OF sending] file_parts_def by (rule all_parts)
    finally have pub: "published st1 = Some content" using done1(2) by simp
    have "content \<noteq> []"
    proof
      assume "content = []"
      then have "file_parts content = 0" by (simp add: file_parts_def upload_part_count_def)
      then show False using sent_parts [OF sending] False by simp
    qed
    note pub = pub this
    show ?thesis
    proof (cases removal)
      case (Err e)
      then show ?thesis using assms(4) a False disk1 Ok by (auto simp: complete_upload_def)
    next
      case removed: (Ok u1)
      then have "outcome = Uploaded" and "disk' = disk\<lparr>ud_checkpoint := None\<rparr>" and "st' = st1"
        using assms(4) a False Ok by (simp_all add: complete_upload_def)
      then show ?thesis using pub by (auto simp: good_disk_def)
    qed
  qed
qed

lemma send_upload_sound:
  assumes contract: "multipart_contract svc stored published" and c: "0 < concurrency"
    and good: "good_checkpoint (stored st) content cp" and id: "uc_upload_id cp \<noteq> None"
    and disk: "good_disk (stored st) content disk"
    and "send_upload svc content saves removal concurrency schedule cp disk st = (outcome, disk', st')"
  shows "good_disk (stored st') content disk' \<and> ud_lock disk' = ud_lock disk \<and>
    (outcome = Uploaded \<longrightarrow> content \<noteq> [] \<and> published st' = Some content \<and> ud_checkpoint disk' = None)"
proof (cases "us_list_parts svc st (the_upload_id cp)")
  case (Err e)
  then show ?thesis using assms(6) disk by (auto simp: send_upload_def)
next
  case (Ok remote)
  let ?cp1 = "cp\<lparr>uc_completed := List.filter (\<lambda>part. cpt_number part \<in> remote) (uc_completed cp)\<rparr>"
  let ?disk1 = "disk\<lparr>ud_checkpoint := Some (Ok ?cp1)\<rparr>"
  have good1: "good_checkpoint (stored st) content ?cp1" by (rule kept_parts_good [OF good])
  have disk1: "good_disk (stored st) content ?disk1" by (rule good_disk_save [OF good1])
  show ?thesis
  proof (cases "saves 1")
    case (Err e)
    then show ?thesis using assms(6) disk Ok by (auto simp: send_upload_def Let_def)
  next
    case save: (Ok u)
    show ?thesis
    proof (cases "pending_parts (uc_file_size ?cp1) (uc_part_size ?cp1) (cpt_number ` set (uc_completed ?cp1)) 1 0")
      case (Err e)
      then show ?thesis using assms(6) disk1 Ok save by (auto simp: send_upload_def Let_def)
    next
      case pending: (Ok pending)
      have "sending (stored st) content ([] @ pending) ?cp1"
        using pending_sending [OF good1 _ pending] id by simp
      note sound = upload_parts_sound [OF contract c this disk1]
      obtain r disk2 st2 where r: "upload_parts svc content saves concurrency schedule (the_upload_id ?cp1)
          [] pending ?cp1 2 ?disk1 st = (r, disk2, st2)"
        using prod_cases3 by blast
      from sound [OF r]
      have s: "good_disk (stored st2) content disk2" "ud_lock disk2 = ud_lock disk"
        "case r of Ok cp' \<Rightarrow> sending (stored st2) content [] cp' | Err outcome \<Rightarrow> outcome \<noteq> Uploaded"
        by simp_all
      have run: "send_upload svc content saves removal concurrency schedule cp disk st =
          (case r of Err outcome \<Rightarrow> (outcome, disk2, st2)
           | Ok checkpoint2 \<Rightarrow> complete_upload svc removal checkpoint2 disk2 st2)"
        unfolding send_upload_def Let_def Ok save result.case pending r prod.case by (rule refl)
      show ?thesis
      proof (cases r)
        case (Err e)
        then show ?thesis using run assms(6) s by auto
      next
        case (Ok cp2)
        then have "complete_upload svc removal cp2 disk2 st2 = (outcome, disk', st')" using run assms(6) by simp
        moreover have "sending (stored st2) content [] cp2" using s(3) Ok by simp
        ultimately show ?thesis using complete_upload_sound [OF contract _ s(1)] s(2) by simp
      qed
    qed
  qed
qed

lemma create_upload_sound:
  assumes good: "good_checkpoint (stored st) content cp" and disk: "good_disk (stored st) content disk"
    and fresh: "uc_upload_id cp = None \<Longrightarrow>
      ud_checkpoint disk = None \<or> ud_checkpoint disk = Some (Ok cp)"
    and "create_upload svc saves cp disk st = (r, disk', st')"
  shows "good_disk (stored st') content disk' \<and> ud_lock disk' = ud_lock disk \<and>
    (case r of Ok cp' \<Rightarrow> good_checkpoint (stored st') content cp' \<and> uc_upload_id cp' \<noteq> None
     | Err outcome \<Rightarrow> outcome \<noteq> Uploaded)"
proof (cases "uc_upload_id cp = None")
  case False
  then show ?thesis using assms by (auto simp: create_upload_def)
next
  case True
  then have e: "uc_completed cp = []" using good by (simp add: good_checkpoint_def)
  have any: "good_checkpoint s content (cp\<lparr>uc_upload_id := i\<rparr>)" for s i
    using good e by (simp add: good_checkpoint_def recorded_numbers_def faithful_parts_def)
  have same: "good_checkpoint s content cp" for s
    using good e by (simp add: good_checkpoint_def recorded_numbers_def faithful_parts_def)
  have kept: "good_disk s content disk" for s
    using fresh [OF True] same by (auto simp: good_disk_def)
  obtain a st1 where a: "us_create svc st = (a, st1)" by (cases "us_create svc st")
  show ?thesis
    using assms(4) True a any kept good_disk_save [OF any]
    by (auto simp: create_upload_def Let_def split: result.splits option.splits)
qed

lemma upload_attempt_sound:
  assumes contract: "multipart_contract svc stored published" and c: "0 < concurrency"
    and disk: "good_disk (stored st) content disk"
    and "upload_local_to_tos_multipart svc content saves removal concurrency schedule disk st = (outcome, disk', st')"
  shows "good_disk (stored st') content disk' \<and>
    (outcome = Uploaded \<longrightarrow> content \<noteq> [] \<and> published st' = Some content \<and> ud_checkpoint disk' = None \<and> \<not> ud_lock disk')"
proof (cases "ud_lock disk")
  case True
  then show ?thesis using assms by (auto simp: upload_local_to_tos_multipart_def Let_def)
next
  case False
  let ?fresh = "fresh_checkpoint (length content) (multipart_part_size (length content))"
  let ?disk1 = "disk\<lparr>ud_lock := True\<rparr>"
  have disk1: "good_disk (stored st) content ?disk1" using disk by (simp add: good_disk_def)
  show ?thesis
  proof (cases "case ud_checkpoint ?disk1 of None \<Rightarrow> Ok ?fresh | Some r \<Rightarrow> r")
    case (Err e)
    then show ?thesis using assms(4) False disk1
      by (auto simp: upload_local_to_tos_multipart_def Let_def release_lock_def good_disk_def)
  next
    case (Ok cp)
    have good: "good_checkpoint (stored st) content cp"
      using Ok disk by (auto simp: good_disk_def good_checkpoint_def fresh_checkpoint_def recorded_numbers_def
          faithful_parts_def split: option.splits)
    have src: "ud_checkpoint ?disk1 = None \<or> ud_checkpoint ?disk1 = Some (Ok cp)"
      using Ok by (auto split: option.splits)
    obtain r disk2 st2 where r: "create_upload svc saves cp ?disk1 st = (r, disk2, st2)"
      using prod_cases3 by blast
    note created = create_upload_sound [where stored = stored and st = st and content = content, OF good disk1 src r]
    have sizes: "\<not> (uc_file_size cp \<noteq> length content \<or> uc_part_size cp \<noteq> multipart_part_size (length content))"
      using good by (simp add: good_checkpoint_def)
    have run: "(outcome, disk', st') = release_lock
        (case r of Err outcome \<Rightarrow> (outcome, disk2, st2)
         | Ok checkpoint1 \<Rightarrow> send_upload svc content saves removal concurrency schedule checkpoint1 disk2 st2)"
      using assms(4) False Ok sizes r by (simp add: upload_local_to_tos_multipart_def Let_def split: result.splits)
    show ?thesis
    proof (cases r)
      case (Err e)
      then show ?thesis using run created by (auto simp: release_lock_def good_disk_def)
    next
      case (Ok cp1)
      obtain o2 disk3 st3 where sent: "send_upload svc content saves removal concurrency schedule cp1 disk2 st2 = (o2, disk3, st3)"
        using prod_cases3 by blast
      from send_upload_sound [OF contract c _ _ _ sent] created Ok
      show ?thesis using run sent Ok by (auto simp: release_lock_def good_disk_def)
    qed
  qed
qed

section \<open>Any number of attempts\<close>

text \<open>
  What may have happened before an attempt: attempts of the same upload with any outcome,
  service and schedule, crashes among them; late part requests and expired parts at the
  service; the removal of a stale lock.
\<close>

inductive upload_history ::
  "'s upload_service \<Rightarrow> ('s \<Rightarrow> stored_parts) \<Rightarrow> string \<Rightarrow> upload_disk \<Rightarrow> 's \<Rightarrow> bool"
  for svc stored content where
  start: "ud_checkpoint disk = None \<Longrightarrow> upload_history svc stored content disk st"
| attempt: "upload_history svc stored content disk st \<Longrightarrow> 0 < concurrency \<Longrightarrow>
    upload_local_to_tos_multipart svc content saves removal concurrency schedule disk st = (outcome, disk1, st1) \<Longrightarrow>
    upload_history svc stored content disk1 st1"
| service: "upload_history svc stored content disk st \<Longrightarrow> parts_settle content (stored st) (stored st1) \<Longrightarrow>
    upload_history svc stored content disk st1"
| unlock: "upload_history svc stored content disk st \<Longrightarrow>
    upload_history svc stored content (disk\<lparr>ud_lock := False\<rparr>) st"

lemma upload_history_good:
  assumes "upload_history svc stored content disk st" and "multipart_contract svc stored published"
  shows "good_disk (stored st) content disk"
  using assms(1)
proof (induction rule: upload_history.induct)
  case (start disk st)
  then show ?case by (simp add: good_disk_def)
next
  case (attempt disk st concurrency saves removal schedule outcome disk1 st1)
  then show ?case using upload_attempt_sound [OF assms(2)] by blast
next
  case (service disk st st1)
  then show ?case using good_disk_settle by blast
next
  case (unlock disk st)
  then show ?case by (simp add: good_disk_def)
qed

text \<open>
  C5: However many attempts of a multipart upload failed or were killed before, whatever parts
  the service kept or lost in between, and in whatever order the part requests complete, an
  attempt that reports success has published exactly the bytes of the file, and leaves neither
  a checkpoint nor a lock behind.
\<close>

theorem multipart_upload_exact:
  assumes "multipart_contract svc stored published"
    and "upload_history svc stored content disk st" and "0 < concurrency"
    and "upload_local_to_tos_multipart svc content saves removal concurrency schedule disk st = (Uploaded, disk', st')"
  shows "published st' = Some content \<and> ud_checkpoint disk' = None \<and> \<not> ud_lock disk'"
  using upload_attempt_sound [OF assms(1,3) upload_history_good [OF assms(2,1)] assms(4)] by simp

text \<open>A service that keeps parts in a list, and an upload resumed after a crash and a lost save.\<close>

type_synonym demo_store = "((string \<times> nat) \<times> (string \<times> string)) list \<times> string option"

definition demo_stored :: "demo_store \<Rightarrow> stored_parts" where
  "demo_stored st upload_id n = map_of (fst st) (upload_id, n)"

definition demo_upload_service :: "demo_store upload_service" where
  "demo_upload_service =
     \<lparr>us_create = (\<lambda>st. (Ok (Some ''id''), st)),
      us_list_parts = (\<lambda>st upload_id. Ok (snd ` fst ` set (fst st))),
      us_upload_part = (\<lambda>st upload_id n bytes. (Ok ''tag'', (((upload_id, n), (''tag'', bytes)) # fst st, snd st))),
      us_complete = (\<lambda>st upload_id parts.
        if list_all (\<lambda>p. map_option fst (demo_stored st upload_id (cpt_number p)) = Some (cpt_etag p)) parts
        then (Ok (), (fst st, Some (concat (map (\<lambda>p. snd (the (demo_stored st upload_id (cpt_number p)))) parts))))
        else (Err (ValidationError ''InvalidPart''), st))\<rparr>"

lemma demo_upload_contract: "multipart_contract demo_upload_service demo_stored snd"
  unfolding multipart_contract_def
proof (intro conjI)
  show "stores_only demo_upload_service demo_stored"
    by (auto simp: stores_only_def demo_upload_service_def demo_stored_def split: if_splits)
  show "acknowledges demo_upload_service demo_stored"
    by (auto simp: acknowledges_def demo_upload_service_def demo_stored_def)
  show "completion_stores_nothing demo_upload_service demo_stored"
    by (auto simp: completion_stores_nothing_def demo_upload_service_def demo_stored_def)
  show "completion_publishes demo_upload_service demo_stored snd"
    by (auto simp: completion_publishes_def demo_upload_service_def list_all_iff split: if_splits)
qed

definition demo_upload :: "nat list \<Rightarrow> upload_disk \<Rightarrow> demo_store \<Rightarrow> upload_outcome \<times> upload_disk \<times> demo_store" where
  "demo_upload schedule disk st =
     upload_local_to_tos_multipart demo_upload_service ''abc'' (\<lambda>n. Ok ()) (Ok ()) 2 schedule disk st"

lemma demo_part_size: "multipart_part_size (Suc (Suc (Suc 0))) = 20971520" "multipart_part_size 3 = 20971520"
  by (simp_all add: multipart_part_size_def auto_select_def MiB_def GiB_def)

lemma demo_interrupted:
  "demo_upload [] \<lparr>ud_checkpoint = None, ud_lock = False\<rparr> ([], None) =
     (UploadInterrupted,
      \<lparr>ud_checkpoint = Some (Ok \<lparr>uc_file_size = 3, uc_part_size = 20971520, uc_upload_id = Some ''id'', uc_completed = []\<rparr>),
       ud_lock = True\<rparr>, ([], None))"
  by (simp add: demo_upload_def upload_local_to_tos_multipart_def Let_def demo_part_size fresh_checkpoint_def
      create_upload_def send_upload_def demo_upload_service_def pending_parts.simps u32_max_def
      upload_parts.simps release_lock_def the_upload_id_def)

lemma demo_resumed:
  "demo_upload [7] \<lparr>ud_checkpoint = Some (Ok \<lparr>uc_file_size = 3, uc_part_size = 20971520, uc_upload_id = Some ''id'', uc_completed = []\<rparr>),
     ud_lock = False\<rparr> ([], None) =
     (Uploaded, \<lparr>ud_checkpoint = None, ud_lock = False\<rparr>, ([((''id'', 1), (''tag'', ''abc''))], Some ''abc''))"
  by (simp add: demo_upload_def upload_local_to_tos_multipart_def Let_def demo_part_size
      create_upload_def send_upload_def demo_upload_service_def pending_parts.simps u32_max_def
      upload_parts.simps release_lock_def the_upload_id_def remove_at_def insert_part_def complete_upload_def
      demo_stored_def file_part_def)

theorem multipart_upload_exact_witness:
  "\<exists>disk st disk' st'.
     demo_upload [] \<lparr>ud_checkpoint = None, ud_lock = False\<rparr> ([], None) = (UploadInterrupted, disk, st) \<and> ud_lock disk \<and>
     demo_upload [7] (disk\<lparr>ud_lock := False\<rparr>) st = (Uploaded, disk', st') \<and>
     snd st' = Some ''abc'' \<and> ud_checkpoint disk' = None \<and> \<not> ud_lock disk'"
proof -
  let ?cp = "\<lparr>uc_file_size = 3, uc_part_size = 20971520, uc_upload_id = Some ''id'', uc_completed = []\<rparr>"
  let ?killed = "\<lparr>ud_checkpoint = Some (Ok ?cp), ud_lock = True\<rparr>"
  let ?st' = "([((''id'', 1), (''tag'', ''abc''))], Some ''abc'') :: demo_store"
  have "upload_history demo_upload_service demo_stored ''abc'' \<lparr>ud_checkpoint = None, ud_lock = False\<rparr> ([], None)"
    by (rule upload_history.start) simp
  from upload_history.unlock [OF upload_history.attempt [OF this _ demo_interrupted [unfolded demo_upload_def]]]
  have "upload_history demo_upload_service demo_stored ''abc'' (?killed\<lparr>ud_lock := False\<rparr>) ([], None)" by simp
  then have h: "upload_history demo_upload_service demo_stored ''abc''
    \<lparr>ud_checkpoint = Some (Ok ?cp), ud_lock = False\<rparr> ([], None)" by simp
  from multipart_upload_exact [OF demo_upload_contract h _ demo_resumed [unfolded demo_upload_def]]
  have "snd ?st' = Some ''abc'' \<and> ud_checkpoint \<lparr>ud_checkpoint = None, ud_lock = False\<rparr> = None \<and>
      \<not> ud_lock \<lparr>ud_checkpoint = None, ud_lock = False\<rparr>" by simp
  then show ?thesis
    by (intro exI [of _ ?killed] exI [of _ "([], None)"]
        exI [of _ "\<lparr>ud_checkpoint = None, ud_lock = False\<rparr>"] exI [of _ ?st'])
      (simp add: demo_interrupted demo_resumed)
qed

text \<open>
  An empty file never uploads this way: it has no part, and the completion demands one. The
  threshold may be zero, so the empty file does come here.
\<close>

lemma empty_file_never_uploads:
  assumes "multipart_contract svc stored published" and "0 < concurrency" and "upload_history svc stored [] disk st"
  shows "should_use_multipart 0 True 0"
    and "fst (upload_local_to_tos_multipart svc [] saves removal concurrency schedule disk st) \<noteq> Uploaded"
proof -
  show "should_use_multipart 0 True 0" by (simp add: should_use_multipart_def)
  obtain outcome disk' st' where
    run: "upload_local_to_tos_multipart svc [] saves removal concurrency schedule disk st = (outcome, disk', st')"
    using prod_cases3 by blast
  show "fst (upload_local_to_tos_multipart svc [] saves removal concurrency schedule disk st) \<noteq> Uploaded"
    using upload_attempt_sound [OF assms(1,2) upload_history_good [OF assms(3,1)] run] run by simp
qed
end
