(* ===== verification/Credentials.thy ===== *)
theory Credentials
  imports Cli_Error
begin

text \<open>
  The encrypted credential store shared by the front ends
  (\<open>crates/tos-core/src/infra/credentials.rs\<close> and \<open>crypto.rs\<close>): profiles with the keys of each
  surface, the OAuth group of ADrive, encryption under a master key kept beside the file, and
  reading and writing of the file. The state is the directory: the master key, the file and the
  number of random draws. AES-256-GCM, base64 and TOML are parameters.
\<close>

section \<open>Text encoding\<close>

definition utf8_continuation :: "char \<Rightarrow> bool" where
  "utf8_continuation c \<longleftrightarrow> 0x80 \<le> byte c \<and> byte c \<le> 0xBF"

text \<open>\<open>String::from_utf8\<close> accepts exactly the well-formed sequences of the Unicode standard.\<close>

fun valid_utf8 :: "string \<Rightarrow> bool" where
  "valid_utf8 [] = True"
| "valid_utf8 (a # s) =
     (if byte a < 0x80 then valid_utf8 s
      else case s of
        [] \<Rightarrow> False
      | b # s \<Rightarrow>
          if 0xC2 \<le> byte a \<and> byte a \<le> 0xDF then utf8_continuation b \<and> valid_utf8 s
          else (case s of
            [] \<Rightarrow> False
          | c # s \<Rightarrow>
              if byte a = 0xE0 then 0xA0 \<le> byte b \<and> byte b \<le> 0xBF \<and> utf8_continuation c \<and> valid_utf8 s
              else if byte a = 0xED then 0x80 \<le> byte b \<and> byte b \<le> 0x9F \<and> utf8_continuation c \<and> valid_utf8 s
              else if 0xE1 \<le> byte a \<and> byte a \<le> 0xEF then utf8_continuation b \<and> utf8_continuation c \<and> valid_utf8 s
              else (case s of
                [] \<Rightarrow> False
              | d # s \<Rightarrow>
                  utf8_continuation c \<and> utf8_continuation d \<and> valid_utf8 s \<and>
                  (if byte a = 0xF0 then 0x90 \<le> byte b \<and> byte b \<le> 0xBF
                   else if byte a = 0xF4 then 0x80 \<le> byte b \<and> byte b \<le> 0x8F
                   else 0xF1 \<le> byte a \<and> byte a \<le> 0xF3 \<and> utf8_continuation b))))"


section \<open>Data\<close>

datatype credential_section = SharedSection | TosSection | VeTosSection | ADriveSection

record stored_aksk =
  ak_access_key_id :: "string option"
  ak_secret_access_key :: "string option"
  ak_security_token :: "string option"

record stored_oauth =
  so_access_token :: "string option"
  so_refresh_token :: "string option"
  so_expires_at :: "string option"
  so_token_type :: "string option"
  so_scope :: "string list"
  so_legacy_client_id :: "string option"
  so_instance_id :: "string option"
  so_user_id :: "string option"
  so_auth_endpoint :: "string option"

text \<open>The fields a surface shares with \<open>StoredAkskCredentials\<close> are inherited from it.\<close>

record adrive_credentials = stored_aksk +
  ac_oauth :: "stored_oauth option"

record credential_profile = stored_aksk +
  cp_tos :: "stored_aksk option"
  cp_ve_tos :: "stored_aksk option"
  cp_adrive :: "adrive_credentials option"

record credentials_file =
  cf_schema_version :: nat
  cf_profiles :: "(string, credential_profile) btree_map"

definition no_aksk :: stored_aksk where
  "no_aksk = \<lparr>ak_access_key_id = None, ak_secret_access_key = None, ak_security_token = None\<rparr>"

definition no_oauth :: stored_oauth where
  "no_oauth = \<lparr>so_access_token = None, so_refresh_token = None, so_expires_at = None, so_token_type = None,
     so_scope = [], so_legacy_client_id = None, so_instance_id = None, so_user_id = None, so_auth_endpoint = None\<rparr>"

definition no_adrive :: adrive_credentials where
  "no_adrive = stored_aksk.extend no_aksk \<lparr>ac_oauth = None\<rparr>"

definition no_profile :: credential_profile where
  "no_profile = stored_aksk.extend no_aksk \<lparr>cp_tos = None, cp_ve_tos = None, cp_adrive = None\<rparr>"

definition current_schema_version :: nat where
  "current_schema_version = 1"

definition no_credentials :: credentials_file where
  "no_credentials = \<lparr>cf_schema_version = current_schema_version, cf_profiles = []\<rparr>"

text \<open>The three own fields of a surface as \<open>StoredAkskCredentials\<close> (\<open>shared_aksk\<close>, \<open>aksk\<close>).\<close>

definition own_aksk :: "'a stored_aksk_scheme \<Rightarrow> stored_aksk" where
  "own_aksk c = stored_aksk.truncate c"

definition aksk_merge :: "stored_aksk \<Rightarrow> stored_aksk \<Rightarrow> stored_aksk" where
  "aksk_merge self other =
     \<lparr>ak_access_key_id = (case ak_access_key_id other of Some v \<Rightarrow> Some v | None \<Rightarrow> ak_access_key_id self),
      ak_secret_access_key = (case ak_secret_access_key other of Some v \<Rightarrow> Some v | None \<Rightarrow> ak_secret_access_key self),
      ak_security_token = (case ak_security_token other of Some v \<Rightarrow> Some v | None \<Rightarrow> ak_security_token self)\<rparr>"

definition aksk_is_empty :: "stored_aksk \<Rightarrow> bool" where
  "aksk_is_empty c \<longleftrightarrow> ak_access_key_id c = None \<and> ak_secret_access_key c = None \<and> ak_security_token c = None"

definition oauth_is_empty :: "stored_oauth \<Rightarrow> bool" where
  "oauth_is_empty c \<longleftrightarrow> so_access_token c = None \<and> so_refresh_token c = None"

definition validate_profile_name :: "string \<Rightarrow> (unit, cli_error) result" where
  "validate_profile_name profile_name =
     (if profile_name = ''schema_version''
      then Err (ValidationError (quoted ''schema_version'' @
        '' is reserved and cannot be used as a credentials profile''))
      else Ok ())"

definition credentials_validate :: "credentials_file \<Rightarrow> (unit, cli_error) result" where
  "credentials_validate store =
     (if cf_schema_version store \<noteq> current_schema_version
      then Err (ValidationError (''unsupported credentials schema_version '' @ show_nat (cf_schema_version store) @
        ''; expected '' @ show_nat current_schema_version))
      else try_each validate_profile_name (map fst (cf_profiles store)))"

section \<open>Encryption\<close>

text \<open>The outcomes of writing the master key, which is not atomic, and of replacing the file, which is.\<close>

datatype key_write = KeyWritten | KeyTorn nat io_error | KeyNotWritten io_error
datatype file_write = FileReplaced | FileNotReplaced cli_error | FileReplacedUnsynced cli_error

record cred_env =
  ce_random :: "nat \<Rightarrow> nat \<Rightarrow> string"
  ce_seal :: "string \<Rightarrow> string \<Rightarrow> string \<Rightarrow> (string, string) result"
  ce_open :: "string \<Rightarrow> string \<Rightarrow> string \<Rightarrow> (string, string) result"
  ce_base64 :: "string \<Rightarrow> string"
  ce_unbase64 :: "string \<Rightarrow> (string, string) result"
  ce_parse :: "string \<Rightarrow> credentials_file option"
  ce_render :: "credentials_file \<Rightarrow> (string, string) result"
  ce_path :: string
  ce_key_path :: string
  ce_dir :: string
  ce_directory :: "(unit, io_error) result"
  ce_read_key :: "(unit, io_error) result"
  ce_write_key :: key_write
  ce_read_file :: "(unit, string) result"
  ce_write_file :: file_write

record cred_dir =
  cd_key :: "string option"
  cd_file :: "string option"
  cd_draws :: nat

definition enc_prefix :: string where
  "enc_prefix = ''ENC:''"

definition is_encrypted :: "string \<Rightarrow> bool" where
  "is_encrypted s = starts_with enc_prefix s"

definition load_or_init_key :: "cred_env \<Rightarrow> cred_dir \<Rightarrow> (string, cli_error) result \<times> cred_dir" where
  "load_or_init_key env dir =
     (case cd_key dir of
        Some bytes \<Rightarrow>
          (case ce_read_key env of
             Err e \<Rightarrow> (Err (Io (e\<lparr>io_text := ''Failed to read master key at '' @ ce_key_path env @ '': '' @ io_text e\<rparr>)), dir)
           | Ok _ \<Rightarrow>
               if length bytes \<noteq> 32
               then (Err (ValidationError (''Master key at '' @ ce_key_path env @
                 '' is corrupted (expected 32 bytes, found '' @ show_nat (length bytes) @ '')'')), dir)
               else (Ok bytes, dir))
      | None \<Rightarrow>
          (case ce_directory env of
             Err e \<Rightarrow> (Err (Io (e\<lparr>io_text := ''Failed to create config dir '' @ ce_dir env @ '': '' @ io_text e\<rparr>)), dir)
           | Ok _ \<Rightarrow>
               let key = ce_random env (cd_draws dir) 32; dir = dir\<lparr>cd_draws := Suc (cd_draws dir)\<rparr>;
                   failed = (\<lambda>e. Err (Io (e\<lparr>io_text := ''Failed to write master key to '' @ ce_key_path env @ '': '' @ io_text e\<rparr>)))
               in (case ce_write_key env of
                     KeyNotWritten e \<Rightarrow> (failed e, dir)
                   | KeyTorn n e \<Rightarrow> (failed e, dir\<lparr>cd_key := Some (take n key)\<rparr>)
                   | KeyWritten \<Rightarrow> (Ok key, dir\<lparr>cd_key := Some key\<rparr>))))"

definition encrypt_with_key :: "cred_env \<Rightarrow> string \<Rightarrow> string \<Rightarrow> cred_dir \<Rightarrow> (string, cli_error) result \<times> cred_dir" where
  "encrypt_with_key env key plaintext dir =
     (let nonce = ce_random env (cd_draws dir) 12
      in (case ce_seal env key nonce plaintext of
            Err m \<Rightarrow> Err (ValidationError (''AES-GCM encrypt failed: '' @ m))
          | Ok ct \<Rightarrow> Ok (enc_prefix @ ce_base64 env (nonce @ ct)),
          dir\<lparr>cd_draws := Suc (cd_draws dir)\<rparr>))"

text \<open>The position that Rust names after an invalid encoding is left out.\<close>

definition decrypt_with_key :: "cred_env \<Rightarrow> string \<Rightarrow> string \<Rightarrow> (string, cli_error) result" where
  "decrypt_with_key env key ciphertext =
     (case strip_prefix enc_prefix ciphertext of
        None \<Rightarrow> Err (ValidationError ''value is not ENC:-prefixed'')
      | Some body \<Rightarrow>
          (case ce_unbase64 env body of
             Err m \<Rightarrow> Err (ValidationError (''Invalid base64 ciphertext: '' @ m))
           | Ok raw \<Rightarrow>
               if length raw < 12 + 16 then Err (ValidationError ''Ciphertext too short (missing nonce/tag)'')
               else (case ce_open env key (take 12 raw) (drop 12 raw) of
                       Err m \<Rightarrow> Err (ValidationError (''AES-GCM decrypt failed: '' @ m))
                     | Ok pt \<Rightarrow>
                         if valid_utf8 pt then Ok pt
                         else Err (ValidationError ''Decrypted value is not valid UTF-8''))))"

definition encrypted_value ::
  "cred_env \<Rightarrow> string \<Rightarrow> string option \<Rightarrow> cred_dir \<Rightarrow> (string option, cli_error) result \<times> cred_dir" where
  "encrypted_value env key v dir =
     (case v of
        None \<Rightarrow> (Ok None, dir)
      | Some plaintext \<Rightarrow>
          if is_encrypted plaintext then (Ok (Some plaintext), dir)
          else st_try (encrypt_with_key env key plaintext dir) (\<lambda>c dir. (Ok (Some c), dir)))"

definition decrypted_value :: "cred_env \<Rightarrow> string \<Rightarrow> string option \<Rightarrow> (string option, cli_error) result" where
  "decrypted_value env key v =
     (case v of
        None \<Rightarrow> Ok None
      | Some s \<Rightarrow> if is_encrypted s then try_in (decrypt_with_key env key s) (\<lambda>p. Ok (Some p)) else Ok (Some s))"

text \<open>The three fields of a surface are encrypted in place.\<close>

definition encrypt_aksk ::
  "cred_env \<Rightarrow> string \<Rightarrow> 'a stored_aksk_scheme \<Rightarrow> cred_dir \<Rightarrow> ('a stored_aksk_scheme, cli_error) result \<times> cred_dir" where
  "encrypt_aksk env key c dir =
     st_try (encrypted_value env key (ak_access_key_id c) dir) (\<lambda>i dir.
     st_try (encrypted_value env key (ak_secret_access_key c) dir) (\<lambda>s dir.
     st_try (encrypted_value env key (ak_security_token c) dir) (\<lambda>t dir.
       (Ok (c\<lparr>ak_access_key_id := i, ak_secret_access_key := s, ak_security_token := t\<rparr>), dir))))"

definition encrypt_oauth ::
  "cred_env \<Rightarrow> string \<Rightarrow> stored_oauth \<Rightarrow> cred_dir \<Rightarrow> (stored_oauth, cli_error) result \<times> cred_dir" where
  "encrypt_oauth env key o1 dir =
     st_try (encrypted_value env key (so_access_token o1) dir) (\<lambda>a dir.
     st_try (encrypted_value env key (so_refresh_token o1) dir) (\<lambda>r dir.
       (Ok (o1\<lparr>so_access_token := a, so_refresh_token := r\<rparr>), dir)))"

text \<open>\<open>if let Some(..) = field.as_mut()\<close> around a fallible change.\<close>

definition st_option ::
  "('a \<Rightarrow> 's \<Rightarrow> ('b, 'e) result \<times> 's) \<Rightarrow> 'a option \<Rightarrow> 's \<Rightarrow> ('b option, 'e) result \<times> 's" where
  "st_option f v s = (case v of None \<Rightarrow> (Ok None, s) | Some x \<Rightarrow> st_try (f x s) (\<lambda>y s. (Ok (Some y), s)))"

definition encrypt_adrive ::
  "cred_env \<Rightarrow> string \<Rightarrow> adrive_credentials \<Rightarrow> cred_dir \<Rightarrow> (adrive_credentials, cli_error) result \<times> cred_dir" where
  "encrypt_adrive env key c dir =
     st_try (encrypt_aksk env key c dir) (\<lambda>c dir.
     st_try (st_option (encrypt_oauth env key) (ac_oauth c) dir) (\<lambda>o1 dir. (Ok (c\<lparr>ac_oauth := o1\<rparr>), dir)))"

definition encrypt_profile ::
  "cred_env \<Rightarrow> string \<Rightarrow> credential_profile \<Rightarrow> cred_dir \<Rightarrow> (credential_profile, cli_error) result \<times> cred_dir" where
  "encrypt_profile env key p dir =
     st_try (encrypt_aksk env key p dir) (\<lambda>p dir.
     st_try (st_option (encrypt_aksk env key) (cp_tos p) dir) (\<lambda>t dir.
     st_try (st_option (encrypt_aksk env key) (cp_ve_tos p) dir) (\<lambda>v dir.
     st_try (st_option (encrypt_adrive env key) (cp_adrive p) dir) (\<lambda>a dir.
       (Ok (p\<lparr>cp_tos := t, cp_ve_tos := v, cp_adrive := a\<rparr>), dir)))))"

fun encrypt_profiles ::
  "cred_env \<Rightarrow> string \<Rightarrow> (string, credential_profile) btree_map \<Rightarrow> cred_dir \<Rightarrow>
   ((string, credential_profile) btree_map, cli_error) result \<times> cred_dir" where
  "encrypt_profiles env key [] dir = (Ok [], dir)"
| "encrypt_profiles env key ((name, p) # profiles) dir =
     st_try (encrypt_profile env key p dir) (\<lambda>p dir.
     st_try (encrypt_profiles env key profiles dir) (\<lambda>profiles dir. (Ok ((name, p) # profiles), dir)))"

definition encrypt_in_place ::
  "cred_env \<Rightarrow> string \<Rightarrow> credentials_file \<Rightarrow> cred_dir \<Rightarrow> (credentials_file, cli_error) result \<times> cred_dir" where
  "encrypt_in_place env key store dir =
     st_try (encrypt_profiles env key (cf_profiles store) dir) (\<lambda>ps dir. (Ok (store\<lparr>cf_profiles := ps\<rparr>), dir))"

definition aksk_requires_decryption :: "stored_aksk \<Rightarrow> bool" where
  "aksk_requires_decryption c \<longleftrightarrow>
     (\<exists>v \<in> set [ak_access_key_id c, ak_secret_access_key c, ak_security_token c]. \<exists>s \<in> set_option v. is_encrypted s)"

definition decrypted_aksk :: "cred_env \<Rightarrow> stored_aksk \<Rightarrow> cred_dir \<Rightarrow> (stored_aksk, cli_error) result \<times> cred_dir" where
  "decrypted_aksk env c dir =
     (if aksk_is_empty c \<or> \<not> aksk_requires_decryption c then (Ok c, dir)
      else st_try (load_or_init_key env dir) (\<lambda>key dir.
        (try_in (decrypted_value env key (ak_access_key_id c)) (\<lambda>i.
         try_in (decrypted_value env key (ak_secret_access_key c)) (\<lambda>s.
         try_in (decrypted_value env key (ak_security_token c)) (\<lambda>t.
           Ok \<lparr>ak_access_key_id = i, ak_secret_access_key = s, ak_security_token = t\<rparr>))), dir)))"

definition oauth_requires_decryption :: "stored_oauth \<Rightarrow> bool" where
  "oauth_requires_decryption c \<longleftrightarrow>
     (\<exists>v \<in> set [so_access_token c, so_refresh_token c]. \<exists>s \<in> set_option v. is_encrypted s)"

definition decrypt_oauth :: "cred_env \<Rightarrow> stored_oauth \<Rightarrow> cred_dir \<Rightarrow> (stored_oauth, cli_error) result \<times> cred_dir" where
  "decrypt_oauth env c dir =
     (if oauth_is_empty c \<or> \<not> oauth_requires_decryption c then (Ok c, dir)
      else st_try (load_or_init_key env dir) (\<lambda>key dir.
        (try_in (decrypted_value env key (so_access_token c)) (\<lambda>a.
         try_in (decrypted_value env key (so_refresh_token c)) (\<lambda>r.
           Ok (c\<lparr>so_access_token := a, so_refresh_token := r\<rparr>))), dir)))"

section \<open>The store\<close>

definition load_from :: "cred_env \<Rightarrow> cred_dir \<Rightarrow> (credentials_file, cli_error) result" where
  "load_from env dir =
     (case cd_file dir of
        None \<Rightarrow> Ok no_credentials
      | Some content \<Rightarrow>
          (case ce_read_file env of
             Err e \<Rightarrow> Err (ConfigMissing (''Failed to read credentials file '' @ ce_path env @ '': '' @ e))
           | Ok _ \<Rightarrow>
               (case ce_parse env content of
                  None \<Rightarrow> Err (ValidationError (''Failed to parse credentials file '' @ ce_path env @
                    ''; validate its TOML syntax and schema''))
                | Some store \<Rightarrow> try_in (credentials_validate store) (\<lambda>_. Ok store))))"

definition save_to_path :: "cred_env \<Rightarrow> credentials_file \<Rightarrow> cred_dir \<Rightarrow> (unit, cli_error) result \<times> cred_dir" where
  "save_to_path env store dir =
     (case try_in (credentials_validate store) (\<lambda>_. map_err Io (ce_directory env)) of
        Err e \<Rightarrow> (Err e, dir)
      | Ok _ \<Rightarrow>
          st_try (load_or_init_key env dir) (\<lambda>key dir.
          st_try (encrypt_in_place env key store dir) (\<lambda>encrypted dir.
            case ce_render env encrypted of
              Err m \<Rightarrow> (Err (ValidationError (''Failed to serialize credentials: '' @ m)), dir)
            | Ok content \<Rightarrow>
                (case ce_write_file env of
                   FileNotReplaced e \<Rightarrow> (Err e, dir)
                 | FileReplacedUnsynced e \<Rightarrow> (Err e, dir\<lparr>cd_file := Some content\<rparr>)
                 | FileReplaced \<Rightarrow> (Ok (), dir\<lparr>cd_file := Some content\<rparr>)))))"

definition profile_names :: "credentials_file \<Rightarrow> string list" where
  "profile_names store = map fst (cf_profiles store)"

definition set_field :: "string \<Rightarrow> string \<Rightarrow> 'a stored_aksk_scheme \<Rightarrow> ('a stored_aksk_scheme, cli_error) result" where
  "set_field field v c =
     (if field = ''access_key_id'' then Ok (c\<lparr>ak_access_key_id := Some v\<rparr>)
      else if field = ''secret_access_key'' then Ok (c\<lparr>ak_secret_access_key := Some v\<rparr>)
      else if field = ''security_token'' then Ok (c\<lparr>ak_security_token := Some v\<rparr>)
      else Err (ValidationError (''unsupported credential field '' @ quoted field)))"

definition or_default :: "'a \<Rightarrow> 'a option \<Rightarrow> 'a" where
  "or_default d v = (case v of None \<Rightarrow> d | Some x \<Rightarrow> x)"

definition set_aksk_field ::
  "credentials_file \<Rightarrow> string \<Rightarrow> credential_section \<Rightarrow> string \<Rightarrow> string \<Rightarrow> (credentials_file, cli_error) result" where
  "set_aksk_field store profile_name section1 field v =
     try_in (validate_profile_name profile_name) (\<lambda>_.
       let p = or_default no_profile (bt_get (cf_profiles store) profile_name)
       in try_in (case section1 of
            SharedSection \<Rightarrow> set_field field v p
          | TosSection \<Rightarrow> try_in (set_field field v (or_default no_aksk (cp_tos p))) (\<lambda>c. Ok (p\<lparr>cp_tos := Some c\<rparr>))
          | VeTosSection \<Rightarrow> try_in (set_field field v (or_default no_aksk (cp_ve_tos p))) (\<lambda>c. Ok (p\<lparr>cp_ve_tos := Some c\<rparr>))
          | ADriveSection \<Rightarrow>
              try_in (set_field field v (or_default no_adrive (cp_adrive p))) (\<lambda>c. Ok (p\<lparr>cp_adrive := Some c\<rparr>)))
          (\<lambda>p. Ok (store\<lparr>cf_profiles := bt_put profile_name p (cf_profiles store)\<rparr>)))"

definition surface_aksk :: "credential_profile \<Rightarrow> credential_section \<Rightarrow> stored_aksk" where
  "surface_aksk p section1 =
     (case section1 of
        SharedSection \<Rightarrow> own_aksk p
      | TosSection \<Rightarrow> or_default no_aksk (cp_tos p)
      | VeTosSection \<Rightarrow> or_default no_aksk (cp_ve_tos p)
      | ADriveSection \<Rightarrow> or_default no_aksk (map_option own_aksk (cp_adrive p)))"

definition effective_aksk ::
  "cred_env \<Rightarrow> credentials_file \<Rightarrow> string \<Rightarrow> credential_section \<Rightarrow> cred_dir \<Rightarrow>
   (stored_aksk, cli_error) result \<times> cred_dir" where
  "effective_aksk env store profile_name section1 dir =
     (case bt_get (cf_profiles store) profile_name of
        None \<Rightarrow> (Ok no_aksk, dir)
      | Some p \<Rightarrow>
          st_try (if section1 = TosSection \<or> section1 = VeTosSection
                  then decrypted_aksk env (own_aksk p) dir else (Ok no_aksk, dir)) (\<lambda>shared dir.
          st_try (decrypted_aksk env (surface_aksk p section1) dir) (\<lambda>specific dir.
            (Ok (aksk_merge shared specific), dir))))"

definition stored_adrive_oauth :: "credentials_file \<Rightarrow> string \<Rightarrow> stored_oauth option" where
  "stored_adrive_oauth store profile_name =
     Option.bind (bt_get (cf_profiles store) profile_name) (\<lambda>p. Option.bind (cp_adrive p) ac_oauth)"

definition adrive_oauth ::
  "cred_env \<Rightarrow> credentials_file \<Rightarrow> string \<Rightarrow> cred_dir \<Rightarrow> (stored_oauth, cli_error) result \<times> cred_dir" where
  "adrive_oauth env store profile_name dir =
     decrypt_oauth env (or_default no_oauth (stored_adrive_oauth store profile_name)) dir"

definition has_adrive_oauth_tokens :: "credentials_file \<Rightarrow> string \<Rightarrow> bool" where
  "has_adrive_oauth_tokens store profile_name \<longleftrightarrow>
     (case stored_adrive_oauth store profile_name of None \<Rightarrow> False | Some o1 \<Rightarrow> \<not> oauth_is_empty o1)"

definition set_adrive_oauth :: "credentials_file \<Rightarrow> string \<Rightarrow> stored_oauth \<Rightarrow> (credentials_file, cli_error) result" where
  "set_adrive_oauth store profile_name credentials =
     try_in (validate_profile_name profile_name) (\<lambda>_.
       let p = or_default no_profile (bt_get (cf_profiles store) profile_name);
           a = or_default no_adrive (cp_adrive p)
       in Ok (store\<lparr>cf_profiles :=
            bt_put profile_name (p\<lparr>cp_adrive := Some (a\<lparr>ac_oauth := Some credentials\<rparr>)\<rparr>) (cf_profiles store)\<rparr>))"

definition clear_adrive_oauth :: "credentials_file \<Rightarrow> string \<Rightarrow> credentials_file" where
  "clear_adrive_oauth store profile_name =
     (case bt_get (cf_profiles store) profile_name of
        None \<Rightarrow> store
      | Some p \<Rightarrow>
          (case cp_adrive p of
             None \<Rightarrow> store
           | Some a \<Rightarrow> store\<lparr>cf_profiles :=
               bt_put profile_name (p\<lparr>cp_adrive := Some (a\<lparr>ac_oauth := None\<rparr>)\<rparr>) (cf_profiles store)\<rparr>))"

section \<open>What is assumed of the parameters\<close>

text \<open>AES-GCM opens what it sealed and adds a tag of 16 bytes; base64 reads back what it wrote.\<close>

definition crypto_ok :: "cred_env \<Rightarrow> bool" where
  "crypto_ok env \<longleftrightarrow>
     (\<forall>key nonce p c. ce_seal env key nonce p = Ok c \<longrightarrow> ce_open env key nonce c = Ok p \<and> length c = length p + 16) \<and>
     (\<forall>b. ce_unbase64 env (ce_base64 env b) = Ok b) \<and> (\<forall>i n. length (ce_random env i n) = n)"

text \<open>What TOML keeps of a store: the identifier written by early builds is read, but not written.\<close>

definition persisted_oauth :: "stored_oauth \<Rightarrow> stored_oauth" where
  "persisted_oauth o1 = o1\<lparr>so_legacy_client_id := None\<rparr>"

definition persisted_adrive :: "adrive_credentials \<Rightarrow> adrive_credentials" where
  "persisted_adrive a = a\<lparr>ac_oauth := map_option persisted_oauth (ac_oauth a)\<rparr>"

definition persisted_profile :: "credential_profile \<Rightarrow> credential_profile" where
  "persisted_profile p = p\<lparr>cp_adrive := map_option persisted_adrive (cp_adrive p)\<rparr>"

definition persisted :: "credentials_file \<Rightarrow> credentials_file" where
  "persisted store = store\<lparr>cf_profiles := map (map_prod id persisted_profile) (cf_profiles store)\<rparr>"

definition toml_ok :: "cred_env \<Rightarrow> bool" where
  "toml_ok env \<longleftrightarrow> (\<forall>store content. bt_wf (cf_profiles store) \<longrightarrow> ce_render env store = Ok content \<longrightarrow>
     ce_parse env content = Some (persisted store))"

section \<open>Sealed stores\<close>

text \<open>A value is sealed from another: a plain text under the key, what has the prefix as it is.\<close>

definition sealed_value :: "cred_env \<Rightarrow> string \<Rightarrow> string option \<Rightarrow> string option \<Rightarrow> bool" where
  "sealed_value env key v w \<longleftrightarrow>
     (case v of
        None \<Rightarrow> w = None
      | Some p \<Rightarrow>
          if is_encrypted p then w = Some p
          else \<exists>i c. ce_seal env key (ce_random env i 12) p = Ok c \<and>
                 w = Some (enc_prefix @ ce_base64 env (ce_random env i 12 @ c)))"

definition sealed_aksk :: "cred_env \<Rightarrow> string \<Rightarrow> 'a stored_aksk_scheme \<Rightarrow> 'b stored_aksk_scheme \<Rightarrow> bool" where
  "sealed_aksk env key c d \<longleftrightarrow>
     sealed_value env key (ak_access_key_id c) (ak_access_key_id d) \<and>
     sealed_value env key (ak_secret_access_key c) (ak_secret_access_key d) \<and>
     sealed_value env key (ak_security_token c) (ak_security_token d)"

definition sealed_oauth :: "cred_env \<Rightarrow> string \<Rightarrow> stored_oauth \<Rightarrow> stored_oauth \<Rightarrow> bool" where
  "sealed_oauth env key o1 o2 \<longleftrightarrow>
     sealed_value env key (so_access_token o1) (so_access_token o2) \<and>
     sealed_value env key (so_refresh_token o1) (so_refresh_token o2) \<and>
     o2 = o1\<lparr>so_access_token := so_access_token o2, so_refresh_token := so_refresh_token o2\<rparr>"

definition sealed_adrive :: "cred_env \<Rightarrow> string \<Rightarrow> adrive_credentials \<Rightarrow> adrive_credentials \<Rightarrow> bool" where
  "sealed_adrive env key a b \<longleftrightarrow> sealed_aksk env key a b \<and> rel_option (sealed_oauth env key) (ac_oauth a) (ac_oauth b)"

definition sealed_profile :: "cred_env \<Rightarrow> string \<Rightarrow> credential_profile \<Rightarrow> credential_profile \<Rightarrow> bool" where
  "sealed_profile env key p q \<longleftrightarrow>
     sealed_aksk env key p q \<and> rel_option (sealed_aksk env key) (cp_tos p) (cp_tos q) \<and>
     rel_option (sealed_aksk env key) (cp_ve_tos p) (cp_ve_tos q) \<and>
     rel_option (sealed_adrive env key) (cp_adrive p) (cp_adrive q)"

definition sealed_store :: "cred_env \<Rightarrow> string \<Rightarrow> credentials_file \<Rightarrow> credentials_file \<Rightarrow> bool" where
  "sealed_store env key s t \<longleftrightarrow>
     cf_schema_version t = cf_schema_version s \<and>
     list_all2 (rel_prod (=) (sealed_profile env key)) (cf_profiles s) (cf_profiles t)"

text \<open>Encryption changes neither the key nor the file.\<close>

definition same_files :: "cred_dir \<Rightarrow> cred_dir \<Rightarrow> bool" where
  "same_files d e \<longleftrightarrow> cd_key e = cd_key d \<and> cd_file e = cd_file d"

lemma same_files_refl [simp]: "same_files d d"
  by (simp add: same_files_def)

lemma same_files_trans: "same_files d e \<Longrightarrow> same_files e f \<Longrightarrow> same_files d f"
  by (simp add: same_files_def)

text \<open>A step that draws numbers only, and whose result satisfies a relation when it succeeds.\<close>

definition seals :: "('a, cli_error) result \<times> cred_dir \<Rightarrow> cred_dir \<Rightarrow> ('a \<Rightarrow> bool) \<Rightarrow> bool" where
  "seals step d P \<longleftrightarrow> same_files d (snd step) \<and> (\<forall>x. fst step = Ok x \<longrightarrow> P x)"

lemma seals_try:
  assumes "seals step d P" and "\<And>x e. P x \<Longrightarrow> same_files d e \<Longrightarrow> seals (k x e) e Q"
  shows "seals (st_try step k) d Q"
proof (cases step)
  case (Pair r e)
  then show ?thesis
    using assms same_files_trans unfolding seals_def by (cases r) fastforce+
qed

lemma seals_Ok: "P x \<Longrightarrow> seals (Ok x, d) d P"
  by (simp add: seals_def)

lemma seals_value: "seals (encrypted_value env key v d) d (sealed_value env key v)"
  by (auto simp: seals_def encrypted_value_def sealed_value_def encrypt_with_key_def Let_def same_files_def
      split: option.split result.split)

lemma seals_aksk: "seals (encrypt_aksk env key c d) d
    (\<lambda>e. sealed_aksk env key c e \<and> stored_aksk.more e = stored_aksk.more c)"
  unfolding encrypt_aksk_def
  by (intro seals_try [OF seals_value] seals_Ok) (simp add: sealed_aksk_def)

lemma seals_oauth: "seals (encrypt_oauth env key o1 d) d (sealed_oauth env key o1)"
  unfolding encrypt_oauth_def
  by (intro seals_try [OF seals_value] seals_Ok) (simp add: sealed_oauth_def)

lemma seals_option:
  assumes "\<And>x d. seals (f x d) d (R x)"
  shows "seals (st_option f v d) d (rel_option R v)"
  unfolding st_option_def
  by (cases v) (auto intro!: seals_try [OF assms] seals_Ok)

lemma seals_adrive: "seals (encrypt_adrive env key a d) d (sealed_adrive env key a)"
  unfolding encrypt_adrive_def
proof (rule seals_try [OF seals_aksk])
  fix b e
  assume b: "sealed_aksk env key a b \<and> stored_aksk.more b = stored_aksk.more a"
  then have "ac_oauth b = ac_oauth a" by (cases a; cases b) simp
  then show "seals (st_try (st_option (encrypt_oauth env key) (ac_oauth b) e) (\<lambda>o1 dir. (Ok (b\<lparr>ac_oauth := o1\<rparr>), dir))) e
      (sealed_adrive env key a)"
    using b by (intro seals_try [OF seals_option [OF seals_oauth]] seals_Ok)
      (simp add: sealed_adrive_def sealed_aksk_def)
qed

lemma seals_profile: "seals (encrypt_profile env key p d) d (sealed_profile env key p)"
  unfolding encrypt_profile_def
proof (rule seals_try [OF seals_aksk])
  fix q e
  assume q: "sealed_aksk env key p q \<and> stored_aksk.more q = stored_aksk.more p"
  then have same: "cp_tos q = cp_tos p" "cp_ve_tos q = cp_ve_tos p" "cp_adrive q = cp_adrive p"
    by (cases p; cases q; simp)+
  have aksk: "seals (encrypt_aksk env key c d) d (sealed_aksk env key c)" for c :: stored_aksk and d
    using seals_aksk [of env key c d] by (simp add: seals_def)
  show "seals (st_try (st_option (encrypt_aksk env key) (cp_tos q) e) (\<lambda>t dir.
      st_try (st_option (encrypt_aksk env key) (cp_ve_tos q) dir) (\<lambda>v dir.
      st_try (st_option (encrypt_adrive env key) (cp_adrive q) dir) (\<lambda>a dir.
        (Ok (q\<lparr>cp_tos := t, cp_ve_tos := v, cp_adrive := a\<rparr>), dir))))) e (sealed_profile env key p)"
    unfolding same using q
    by (intro seals_try [OF seals_option [OF aksk]] seals_try [OF seals_option [OF seals_adrive]] seals_Ok)
      (simp add: sealed_profile_def sealed_aksk_def)
qed

lemma seals_profiles:
  "seals (encrypt_profiles env key ps d) d (list_all2 (rel_prod (=) (sealed_profile env key)) ps)"
proof (induction ps arbitrary: d)
  case Nil
  then show ?case by (simp add: seals_def)
next
  case (Cons x ps)
  obtain name p where x: "x = (name, p)" by (cases x)
  show ?case
    unfolding x encrypt_profiles.simps
    by (rule seals_try [OF seals_profile], rule seals_try [OF Cons.IH], rule seals_Ok) simp
qed

lemma seals_store: "seals (encrypt_in_place env key store d) d (sealed_store env key store)"
  unfolding encrypt_in_place_def
  by (intro seals_try [OF seals_profiles] seals_Ok) (simp add: sealed_store_def)

lemma sealed_keys: "sealed_store env key s t \<Longrightarrow> map fst (cf_profiles t) = map fst (cf_profiles s)"
proof -
  have "list_all2 (rel_prod (=) (sealed_profile env key)) ps qs \<Longrightarrow> map fst qs = map fst ps" for ps qs
    by (induction ps qs rule: list_all2_induct) auto
  then show "sealed_store env key s t \<Longrightarrow> map fst (cf_profiles t) = map fst (cf_profiles s)"
    unfolding sealed_store_def by blast
qed

lemma sealed_persisted: "sealed_store env key s t \<Longrightarrow> sealed_store env key (persisted s) (persisted t)"
proof -
  have oauth: "sealed_oauth env key (persisted_oauth o1) (persisted_oauth o2)" if "sealed_oauth env key o1 o2" for o1 o2
    using that by (cases o1; cases o2) (simp add: sealed_oauth_def persisted_oauth_def)
  have adrive: "sealed_adrive env key (persisted_adrive a) (persisted_adrive b)" if "sealed_adrive env key a b" for a b
    using that oauth unfolding sealed_adrive_def persisted_adrive_def sealed_aksk_def
    by (cases "ac_oauth a"; cases "ac_oauth b") auto
  have profile: "sealed_profile env key (persisted_profile p) (persisted_profile q)" if "sealed_profile env key p q" for p q
    using that adrive unfolding sealed_profile_def persisted_profile_def sealed_aksk_def
    by (cases "cp_adrive p"; cases "cp_adrive q") auto
  show "sealed_store env key s t \<Longrightarrow> sealed_store env key (persisted s) (persisted t)"
    unfolding sealed_store_def persisted_def
    by (auto simp: list.rel_map rel_prod_conv profile elim!: list_all2_mono split: prod.splits)
qed

section \<open>Saving\<close>

lemma load_key_facts:
  assumes "load_or_init_key env dir = (r, dir1)"
  shows "cd_file dir1 = cd_file dir" and "r = Ok key \<Longrightarrow> cd_key dir1 = Some key"
    and "r = Ok key \<Longrightarrow> \<forall>i n. length (ce_random env i n) = n \<Longrightarrow> length key = 32"
    and "cd_key dir = Some k \<Longrightarrow> dir1 = dir"
  using assms
  by (auto simp: load_or_init_key_def Let_def split: option.splits result.splits if_splits key_write.splits)

lemma load_key_again:
  "cd_key dir = Some key \<Longrightarrow> length key = 32 \<Longrightarrow> ce_read_key env = Ok () \<Longrightarrow> load_or_init_key env dir = (Ok key, dir)"
  by (simp add: load_or_init_key_def)

text \<open>A save leaves the file as it was, or replaces it by the whole store, sealed under the key.\<close>

lemma save_cases:
  assumes "save_to_path env store dir = (r, dir1)" and toml: "toml_ok env" and wf: "bt_wf (cf_profiles store)"
  shows "r \<noteq> Ok () \<and> cd_file dir1 = cd_file dir \<or>
    (\<exists>key dir0 content saved. load_or_init_key env dir = (Ok key, dir0) \<and> cd_key dir1 = Some key \<and>
       credentials_validate store = Ok () \<and>
       cd_file dir1 = Some content \<and> ce_parse env content = Some saved \<and> sealed_store env key (persisted store) saved)"
proof (cases "try_in (credentials_validate store) (\<lambda>_. map_err Io (ce_directory env))")
  case (Err e)
  then show ?thesis using assms(1) by (auto simp: save_to_path_def)
next
  case (Ok u)
  obtain rk dir0 where k: "load_or_init_key env dir = (rk, dir0)" by fastforce
  note file0 = load_key_facts(1) [OF k]
  show ?thesis
  proof (cases rk)
    case (Err e)
    then show ?thesis using assms(1) Ok k file0 by (auto simp: save_to_path_def)
  next
    case key: (Ok key)
    obtain re dir2 where e: "encrypt_in_place env key store dir0 = (re, dir2)" by fastforce
    have same: "same_files dir0 dir2" and sealed: "re = Ok enc \<Longrightarrow> sealed_store env key store enc" for enc
      using seals_store [of env key store dir0] e by (auto simp: seals_def)
    have parsed: "ce_parse env content = Some (persisted enc)" if "re = Ok enc" "ce_render env enc = Ok content" for enc content
    proof -
      have "bt_wf (cf_profiles enc)" using sealed_keys [OF sealed [OF that(1)]] wf by (simp add: bt_wf_def)
      then show ?thesis using toml that(2) by (simp add: toml_ok_def)
    qed
    have v: "credentials_validate store = Ok ()" using Ok by (auto simp: try_in_Ok_iff)
    have key2: "cd_key dir2 = Some key" using same load_key_facts(2) [OF k key] by (simp add: same_files_def)
    note step = assms(1) [unfolded save_to_path_def Ok k key result.case st_try.simps e]
    show ?thesis
    proof (cases re)
      case (Err e)
      then show ?thesis using step same file0 by (auto simp: same_files_def)
    next
      case enc: (Ok enc)
      note s = sealed_persisted [OF sealed [OF enc]]
      show ?thesis
        using step same file0 k key key2 v s parsed [OF enc] unfolding enc same_files_def
        by (auto split: result.splits file_write.splits)
    qed
  qed
qed

section \<open>Reading back\<close>

definition aksk_texts :: "'a stored_aksk_scheme \<Rightarrow> string set" where
  "aksk_texts c = set_option (ak_access_key_id c) \<union> set_option (ak_secret_access_key c) \<union> set_option (ak_security_token c)"

definition oauth_texts :: "stored_oauth \<Rightarrow> string set" where
  "oauth_texts o1 = set_option (so_access_token o1) \<union> set_option (so_refresh_token o1)"

definition profile_texts :: "credential_profile \<Rightarrow> string set" where
  "profile_texts p = aksk_texts p \<union> \<Union> (aksk_texts ` set_option (cp_tos p)) \<union> \<Union> (aksk_texts ` set_option (cp_ve_tos p)) \<union>
     \<Union> ((\<lambda>a. aksk_texts a \<union> \<Union> (oauth_texts ` set_option (ac_oauth a))) ` set_option (cp_adrive p))"

text \<open>The secrets of a store.\<close>

definition store_texts :: "credentials_file \<Rightarrow> string set" where
  "store_texts store = \<Union> ((\<lambda>(name, p). profile_texts p) ` set (cf_profiles store))"

lemma decrypted_sealed:
  assumes crypto: "crypto_ok env" and sealed: "sealed_value env key v w" and utf8: "\<forall>s \<in> set_option v. valid_utf8 s"
  shows "decrypted_value env key w = decrypted_value env key v"
proof (cases v)
  case None
  then show ?thesis using sealed by (simp add: sealed_value_def)
next
  case (Some p)
  show ?thesis
  proof (cases "is_encrypted p")
    case True
    then show ?thesis using Some sealed by (simp add: sealed_value_def)
  next
    case False
    then obtain i c where c: "ce_seal env key (ce_random env i 12) p = Ok c"
      and w: "w = Some (enc_prefix @ ce_base64 env (ce_random env i 12 @ c))"
      using sealed Some by (auto simp: sealed_value_def)
    have opened: "ce_open env key (ce_random env i 12) c = Ok p" "length c = length p + 16"
        "ce_unbase64 env (ce_base64 env (ce_random env i 12 @ c)) = Ok (ce_random env i 12 @ c)"
        "length (ce_random env i 12) = 12"
      using crypto c by (auto simp: crypto_ok_def)
    have "decrypt_with_key env key (enc_prefix @ ce_base64 env (ce_random env i 12 @ c)) = Ok p"
      using opened utf8 Some by (simp add: decrypt_with_key_def strip_prefix_append)
    moreover have "is_encrypted (enc_prefix @ ce_base64 env (ce_random env i 12 @ c))"
      by (simp add: is_encrypted_def starts_with_iff)
    ultimately show ?thesis using False Some w by (simp add: decrypted_value_def)
  qed
qed

text \<open>What a successful reading says of the fields under the key, and back.\<close>

lemma plain_decrypted: "\<forall>s \<in> set_option v. \<not> is_encrypted s \<Longrightarrow> decrypted_value env key v = Ok v"
  by (cases v) (simp_all add: decrypted_value_def)

lemma decrypted_aksk_fields:
  assumes "load_or_init_key env dir = (Ok key, dir0)" and "decrypted_aksk env c dir = (Ok r, d)"
  shows "decrypted_value env key (ak_access_key_id c) = Ok (ak_access_key_id r)"
    and "decrypted_value env key (ak_secret_access_key c) = Ok (ak_secret_access_key r)"
    and "decrypted_value env key (ak_security_token c) = Ok (ak_security_token r)"
    and "d = dir \<or> d = dir0"
proof -
  have "(decrypted_value env key (ak_access_key_id c) = Ok (ak_access_key_id r) \<and>
      decrypted_value env key (ak_secret_access_key c) = Ok (ak_secret_access_key r) \<and>
      decrypted_value env key (ak_security_token c) = Ok (ak_security_token r)) \<and> (d = dir \<or> d = dir0)"
  proof (cases "aksk_is_empty c \<or> \<not> aksk_requires_decryption c")
    case True
    then have "\<forall>v \<in> {ak_access_key_id c, ak_secret_access_key c, ak_security_token c}. \<forall>s \<in> set_option v. \<not> is_encrypted s"
      by (auto simp: aksk_is_empty_def aksk_requires_decryption_def)
    then show ?thesis using True assms(2) by (auto simp: decrypted_aksk_def plain_decrypted)
  next
    case False
    then show ?thesis using assms by (auto simp: decrypted_aksk_def try_in_Ok_iff)
  qed
  then show "decrypted_value env key (ak_access_key_id c) = Ok (ak_access_key_id r)"
    and "decrypted_value env key (ak_secret_access_key c) = Ok (ak_secret_access_key r)"
    and "decrypted_value env key (ak_security_token c) = Ok (ak_security_token r)"
    and "d = dir \<or> d = dir0" by simp_all
qed

lemma decrypted_aksk_conv:
  assumes "load_or_init_key env d = (Ok key, d)"
    and "decrypted_value env key (ak_access_key_id c) = Ok (ak_access_key_id r)"
    and "decrypted_value env key (ak_secret_access_key c) = Ok (ak_secret_access_key r)"
    and "decrypted_value env key (ak_security_token c) = Ok (ak_security_token r)"
  shows "decrypted_aksk env c d = (Ok r, d)"
proof (cases "aksk_is_empty c \<or> \<not> aksk_requires_decryption c")
  case True
  then have "\<forall>v \<in> {ak_access_key_id c, ak_secret_access_key c, ak_security_token c}. \<forall>s \<in> set_option v. \<not> is_encrypted s"
    by (auto simp: aksk_is_empty_def aksk_requires_decryption_def)
  then have "c = r" using assms(2-4) plain_decrypted by auto
  then show ?thesis using True by (simp add: decrypted_aksk_def)
next
  case False
  then show ?thesis using assms by (simp add: decrypted_aksk_def)
qed

lemma decrypt_oauth_fields:
  assumes "load_or_init_key env dir = (Ok key, dir0)" and "decrypt_oauth env c dir = (Ok r, d)"
  shows "decrypted_value env key (so_access_token c) = Ok (so_access_token r) \<and>
    decrypted_value env key (so_refresh_token c) = Ok (so_refresh_token r) \<and>
    r = c\<lparr>so_access_token := so_access_token r, so_refresh_token := so_refresh_token r\<rparr>"
proof (cases "oauth_is_empty c \<or> \<not> oauth_requires_decryption c")
  case True
  then have "\<forall>v \<in> {so_access_token c, so_refresh_token c}. \<forall>s \<in> set_option v. \<not> is_encrypted s"
    by (auto simp: oauth_is_empty_def oauth_requires_decryption_def)
  then show ?thesis using True assms(2) by (auto simp: decrypt_oauth_def plain_decrypted)
next
  case False
  then show ?thesis using assms by (auto simp: decrypt_oauth_def try_in_Ok_iff)
qed

lemma decrypt_oauth_conv:
  assumes "load_or_init_key env d = (Ok key, d)"
    and "decrypted_value env key (so_access_token c) = Ok (so_access_token r)"
    and "decrypted_value env key (so_refresh_token c) = Ok (so_refresh_token r)"
    and "r = c\<lparr>so_access_token := so_access_token r, so_refresh_token := so_refresh_token r\<rparr>"
  shows "decrypt_oauth env c d = (Ok r, d)"
proof (cases "oauth_is_empty c \<or> \<not> oauth_requires_decryption c")
  case True
  then have "\<forall>v \<in> {so_access_token c, so_refresh_token c}. \<forall>s \<in> set_option v. \<not> is_encrypted s"
    by (auto simp: oauth_is_empty_def oauth_requires_decryption_def)
  then have "so_access_token c = so_access_token r" "so_refresh_token c = so_refresh_token r"
    using assms(2,3) plain_decrypted by auto
  then have "r = c" using assms(4) by (cases c) simp
  then show ?thesis using True by (simp add: decrypt_oauth_def)
next
  case False
  then show ?thesis using assms(1-3) assms(4) [symmetric] by (simp add: decrypt_oauth_def)
qed

lemma aksk_read_back:
  assumes crypto: "crypto_ok env" and sealed: "sealed_aksk env key c e" and utf8: "\<forall>s \<in> aksk_texts c. valid_utf8 s"
    and key: "load_or_init_key env dir = (Ok key, dir0)" "load_or_init_key env dir1 = (Ok key, dir1)"
    and read: "decrypted_aksk env c dir = (Ok r, d)"
  shows "decrypted_aksk env e dir1 = (Ok r, dir1)"
proof (rule decrypted_aksk_conv [OF key(2)])
  note f = decrypted_aksk_fields [OF key(1) read]
  have same: "decrypted_value env key w = decrypted_value env key v"
    if "sealed_value env key v w" "set_option v \<subseteq> aksk_texts c" for v w
    using decrypted_sealed [OF crypto that(1)] that(2) utf8 by blast
  show "decrypted_value env key (ak_access_key_id e) = Ok (ak_access_key_id r)"
    using f(1) same [of "ak_access_key_id c" "ak_access_key_id e"] sealed by (auto simp: sealed_aksk_def aksk_texts_def)
  show "decrypted_value env key (ak_secret_access_key e) = Ok (ak_secret_access_key r)"
    using f(2) same [of "ak_secret_access_key c" "ak_secret_access_key e"] sealed
    by (auto simp: sealed_aksk_def aksk_texts_def)
  show "decrypted_value env key (ak_security_token e) = Ok (ak_security_token r)"
    using f(3) same [of "ak_security_token c" "ak_security_token e"] sealed by (auto simp: sealed_aksk_def aksk_texts_def)
qed

lemma oauth_read_back:
  assumes crypto: "crypto_ok env" and sealed: "sealed_oauth env key c e" and utf8: "\<forall>s \<in> oauth_texts c. valid_utf8 s"
    and key: "load_or_init_key env dir = (Ok key, dir0)" "load_or_init_key env dir1 = (Ok key, dir1)"
    and read: "decrypt_oauth env c dir = (Ok r, d)"
  shows "decrypt_oauth env e dir1 = (Ok r, dir1)"
proof (rule decrypt_oauth_conv [OF key(2)])
  note f = decrypt_oauth_fields [OF key(1) read]
  have same: "decrypted_value env key w = decrypted_value env key v"
    if "sealed_value env key v w" "set_option v \<subseteq> oauth_texts c" for v w
    using decrypted_sealed [OF crypto that(1)] that(2) utf8 by blast
  show "decrypted_value env key (so_access_token e) = Ok (so_access_token r)"
    using f same [of "so_access_token c" "so_access_token e"] sealed by (auto simp: sealed_oauth_def oauth_texts_def)
  show "decrypted_value env key (so_refresh_token e) = Ok (so_refresh_token r)"
    using f same [of "so_refresh_token c" "so_refresh_token e"] sealed by (auto simp: sealed_oauth_def oauth_texts_def)
  show "r = e\<lparr>so_access_token := so_access_token r, so_refresh_token := so_refresh_token r\<rparr>"
    using f sealed by (cases c; cases e; cases r) (simp add: sealed_oauth_def)
qed

lemma sealed_lookup:
  assumes "sealed_store env key s t"
  shows "rel_option (sealed_profile env key) (bt_get (cf_profiles s) n) (bt_get (cf_profiles t) n)"
proof -
  have "list_all2 (rel_prod (=) (sealed_profile env key)) ps qs \<Longrightarrow>
      rel_option (sealed_profile env key) (bt_get ps n) (bt_get qs n)" for ps qs
    by (induction ps qs rule: list_all2_induct) auto
  then show ?thesis using assms unfolding sealed_store_def by blast
qed

lemma persisted_lookup:
  "bt_get (cf_profiles (persisted store)) n = map_option persisted_profile (bt_get (cf_profiles store) n)"
proof -
  have "bt_get (map (map_prod id persisted_profile) ps) n = map_option persisted_profile (bt_get ps n)" for ps
    by (induction ps) auto
  then show ?thesis by (simp add: persisted_def)
qed

lemma own_aksk_fields:
  "own_aksk c = \<lparr>ak_access_key_id = ak_access_key_id c, ak_secret_access_key = ak_secret_access_key c,
     ak_security_token = ak_security_token c\<rparr>"
  by (simp add: own_aksk_def stored_aksk.truncate_def)

lemma sealed_own: "sealed_aksk env key c e \<Longrightarrow> sealed_aksk env key (own_aksk c) (own_aksk e)"
  by (simp add: sealed_aksk_def own_aksk_fields)

lemma sealed_surface:
  assumes "sealed_profile env key (persisted_profile p) q"
  shows "sealed_aksk env key (surface_aksk p s) (surface_aksk q s)"
proof -
  have "sealed_aksk env key no_aksk no_aksk" by (simp add: sealed_aksk_def sealed_value_def no_aksk_def)
  then show ?thesis
    using assms
    by (cases s; cases "cp_tos p"; cases "cp_ve_tos p"; cases "cp_adrive p"; cases "cp_tos q"; cases "cp_ve_tos q";
        cases "cp_adrive q")
      (auto simp: sealed_profile_def persisted_profile_def surface_aksk_def or_default_def sealed_aksk_def
         sealed_adrive_def persisted_adrive_def own_aksk_fields)
qed

lemma surface_texts: "aksk_texts (surface_aksk p s) \<subseteq> profile_texts p"
  by (cases s; cases "cp_tos p"; cases "cp_ve_tos p"; cases "cp_adrive p")
    (auto simp: surface_aksk_def or_default_def profile_texts_def own_aksk_fields aksk_texts_def no_aksk_def)

lemma surface_shared: "surface_aksk p SharedSection = own_aksk p"
  by (simp add: surface_aksk_def)

lemma effective_read_back:
  assumes crypto: "crypto_ok env" and sealed: "sealed_store env key (persisted store) saved"
    and utf8: "\<forall>s \<in> store_texts store. valid_utf8 s"
    and key: "load_or_init_key env dir = (Ok key, dir0)" "load_or_init_key env dir0 = (Ok key, dir0)"
      "load_or_init_key env dir1 = (Ok key, dir1)"
    and read: "effective_aksk env store n s dir = (Ok r, d)"
  shows "effective_aksk env saved n s dir1 = (Ok r, dir1)"
proof (cases "bt_get (cf_profiles store) n")
  case None
  then have "bt_get (cf_profiles saved) n = None"
    using sealed_lookup [OF sealed, of n] by (simp add: persisted_lookup)
  then show ?thesis using None read by (simp add: effective_aksk_def)
next
  case (Some p)
  then obtain q where q: "bt_get (cf_profiles saved) n = Some q" and pq: "sealed_profile env key (persisted_profile p) q"
    using sealed_lookup [OF sealed, of n] by (auto simp: persisted_lookup elim: option.rel_cases)
  have "profile_texts p \<subseteq> store_texts store" using bt_get_in_set [OF Some] by (auto simp: store_texts_def)
  then have texts: "\<forall>t \<in> aksk_texts (surface_aksk p s). valid_utf8 t" for s using utf8 surface_texts by blast
  note again = aksk_read_back [OF crypto sealed_surface [OF pq] texts _ key(3)]
  let ?both = "s = TosSection \<or> s = VeTosSection"
  obtain shared e specific where
    sh: "(if ?both then decrypted_aksk env (own_aksk p) dir else (Ok no_aksk, dir)) = (Ok shared, e)"
    and sp: "decrypted_aksk env (surface_aksk p s) e = (Ok specific, d)" and r: "r = aksk_merge shared specific"
    using read Some by (auto simp: effective_aksk_def st_try_Ok_iff)
  have sh1: "(if ?both then decrypted_aksk env (own_aksk q) dir1 else (Ok no_aksk, dir1)) = (Ok shared, dir1)"
    using sh again [OF key(1), of SharedSection] by (auto simp: surface_shared split: if_splits)
  have "e = dir \<or> e = dir0" using sh decrypted_aksk_fields(4) [OF key(1)] by (auto split: if_splits)
  then have "decrypted_aksk env (surface_aksk q s) dir1 = (Ok specific, dir1)"
    using sp again [OF key(1)] again [OF key(2)] by blast
  then show ?thesis using q sh1 r by (simp add: effective_aksk_def)
qed

lemma adrive_read_back:
  assumes crypto: "crypto_ok env" and sealed: "sealed_store env key (persisted store) saved"
    and utf8: "\<forall>s \<in> store_texts store. valid_utf8 s"
    and key: "load_or_init_key env dir = (Ok key, dir0)" "load_or_init_key env dir1 = (Ok key, dir1)"
    and read: "adrive_oauth env store n dir = (Ok r, d)"
  shows "adrive_oauth env saved n dir1 = (Ok (persisted_oauth r), dir1)"
proof -
  have rel: "rel_option (sealed_oauth env key) (map_option persisted_oauth (stored_adrive_oauth store n)) (stored_adrive_oauth saved n)"
    using sealed_lookup [OF sealed, of n]
    by (auto simp: persisted_lookup stored_adrive_oauth_def sealed_profile_def persisted_profile_def sealed_adrive_def
        persisted_adrive_def option.rel_map elim!: option.rel_cases split: bind_splits)
  have texts: "\<forall>t \<in> \<Union> (oauth_texts ` set_option (stored_adrive_oauth store n)). valid_utf8 t"
    using utf8 bt_get_in_set [of "cf_profiles store" n]
    by (fastforce simp: stored_adrive_oauth_def store_texts_def profile_texts_def split: bind_splits)
  let ?o = "or_default no_oauth (stored_adrive_oauth store n)"
  have sealed_o: "sealed_oauth env key (persisted_oauth ?o) (or_default no_oauth (stored_adrive_oauth saved n))"
    using rel by (cases "stored_adrive_oauth store n"; cases "stored_adrive_oauth saved n")
      (simp_all add: or_default_def sealed_oauth_def sealed_value_def no_oauth_def persisted_oauth_def)
  have utf8_o: "\<forall>t \<in> oauth_texts (persisted_oauth ?o). valid_utf8 t"
    using texts by (cases "stored_adrive_oauth store n")
      (simp_all add: or_default_def oauth_texts_def persisted_oauth_def no_oauth_def)
  have "decrypt_oauth env (persisted_oauth ?o) dir = (Ok (persisted_oauth r), d)"
    using read by (auto simp: adrive_oauth_def decrypt_oauth_def persisted_oauth_def oauth_is_empty_def
        oauth_requires_decryption_def st_try_Ok_iff try_in_Ok_iff split: if_splits)
  from oauth_read_back [OF crypto sealed_o utf8_o key this] show ?thesis by (simp add: adrive_oauth_def)
qed

lemma sealed_validates:
  assumes "sealed_store env key (persisted store) saved" and "credentials_validate store = Ok ()"
  shows "credentials_validate saved = Ok () \<and> profile_names saved = profile_names store"
proof -
  have "map fst (cf_profiles saved) = map fst (cf_profiles store)"
    using sealed_keys [OF assms(1)] by (simp add: persisted_def)
  moreover have "cf_schema_version saved = cf_schema_version store"
    using assms(1) by (simp add: sealed_store_def persisted_def)
  ultimately show ?thesis using assms(2) by (auto simp: credentials_validate_def profile_names_def split: if_splits)
qed

lemma saved_reads_back:
  assumes crypto: "crypto_ok env" and toml: "toml_ok env" and read: "ce_read_key env = Ok ()" "ce_read_file env = Ok ()"
    and wf: "bt_wf (cf_profiles store)" and utf8: "\<forall>s \<in> store_texts store. valid_utf8 s"
    and save: "save_to_path env store dir = (Ok (), dir')"
  shows "\<exists>saved. load_from env dir' = Ok saved \<and> profile_names saved = profile_names store \<and>
    (\<forall>n s r d. effective_aksk env store n s dir = (Ok r, d) \<longrightarrow> effective_aksk env saved n s dir' = (Ok r, dir')) \<and>
    (\<forall>n r d. adrive_oauth env store n dir = (Ok r, d) \<longrightarrow>
       adrive_oauth env saved n dir' = (Ok (r\<lparr>so_legacy_client_id := None\<rparr>), dir'))"
proof -
  obtain key dir0 content saved where key: "load_or_init_key env dir = (Ok key, dir0)" "cd_key dir' = Some key"
    and valid: "credentials_validate store = Ok ()" and file1: "cd_file dir' = Some content" "ce_parse env content = Some saved"
    and sealed: "sealed_store env key (persisted store) saved"
    using save_cases [OF save toml wf] by blast
  have "length key = 32" using load_key_facts(3) [OF key(1)] crypto by (simp add: crypto_ok_def)
  then have again: "load_or_init_key env dir0 = (Ok key, dir0)" "load_or_init_key env dir' = (Ok key, dir')"
    using load_key_again read(1) key(2) load_key_facts(2) [OF key(1)] by blast+
  note v = sealed_validates [OF sealed valid]
  have "load_from env dir' = Ok saved" using file1 read(2) v by (simp add: load_from_def)
  then show ?thesis
    using v effective_read_back [OF crypto sealed utf8 key(1) again]
      adrive_read_back [OF crypto sealed utf8 key(1) again(2)] unfolding persisted_oauth_def by blast
qed

section \<open>Properties\<close>


text \<open>
  C17: A store that was saved reads back as it was: the same profiles, for every profile and surface
  the same effective keys, and the same OAuth group but for the identifier of early builds.
\<close>

theorem credentials_roundtrip:
  assumes crypto: "crypto_ok env" and toml: "toml_ok env" and read: "ce_read_key env = Ok ()" "ce_read_file env = Ok ()"
    and wf: "bt_wf (cf_profiles store)" and utf8: "\<forall>s \<in> store_texts store. valid_utf8 s"
    and save: "save_to_path env store dir = (Ok (), dir')"
  shows "\<exists>saved. load_from env dir' = Ok saved \<and> profile_names saved = profile_names store \<and>
    (\<forall>n s r d. effective_aksk env store n s dir = (Ok r, d) \<longrightarrow> effective_aksk env saved n s dir' = (Ok r, dir')) \<and>
    (\<forall>n r d. adrive_oauth env store n dir = (Ok r, d) \<longrightarrow>
       adrive_oauth env saved n dir' = (Ok (r\<lparr>so_legacy_client_id := None\<rparr>), dir'))"
  using assms by (rule saved_reads_back)

section \<open>An example\<close>

definition demo_oauth :: stored_oauth where
  "demo_oauth = no_oauth\<lparr>so_access_token := Some ''at'', so_refresh_token := Some ''rt'', so_instance_id := Some ''i'',
     so_auth_endpoint := Some ''e''\<rparr>"

definition demo_tag :: string where
  "demo_tag = replicate 16 (CHR ''T'')"

definition demo_draw :: "nat \<Rightarrow> nat \<Rightarrow> string" where
  "demo_draw i n = replicate n (char_of (48 + i))"

definition demo_stores :: "credentials_file \<times> credentials_file" where
  "demo_stores =
     (no_credentials\<lparr>cf_profiles := [(''p'', no_profile\<lparr>ak_access_key_id := Some ''id'',
        cp_adrive := Some (no_adrive\<lparr>ac_oauth := Some demo_oauth\<rparr>)\<rparr>)]\<rparr>,
      no_credentials\<lparr>cf_profiles := [(''p'', no_profile\<lparr>ak_access_key_id := Some (enc_prefix @ demo_draw 1 12 @ ''id'' @ demo_tag),
        cp_adrive := Some (no_adrive\<lparr>ac_oauth := Some (demo_oauth\<lparr>
          so_access_token := Some (enc_prefix @ demo_draw 2 12 @ ''at'' @ demo_tag),
          so_refresh_token := Some (enc_prefix @ demo_draw 3 12 @ ''rt'' @ demo_tag)\<rparr>)\<rparr>)\<rparr>)]\<rparr>)"

definition demo_cred_env :: cred_env where
  "demo_cred_env = \<lparr>ce_random = demo_draw, ce_seal = (\<lambda>key nonce p. Ok (p @ demo_tag)),
     ce_open = (\<lambda>key nonce c. Ok (take (length c - 16) c)), ce_base64 = (\<lambda>b. b), ce_unbase64 = Ok,
     ce_parse = (\<lambda>content. Some (snd demo_stores)),
     ce_render = (\<lambda>store. if store = snd demo_stores then Ok ''toml'' else Err ''unknown''),
     ce_path = ''c/credentials.toml'', ce_key_path = ''c/.key'', ce_dir = ''c'', ce_directory = Ok (), ce_read_key = Ok (),
     ce_write_key = KeyWritten, ce_read_file = Ok (), ce_write_file = FileReplaced\<rparr>"

definition demo_cred_dir :: cred_dir where
  "demo_cred_dir = \<lparr>cd_key = None, cd_file = None, cd_draws = 0\<rparr>"

definition demo_saved_dir :: cred_dir where
  "demo_saved_dir = \<lparr>cd_key = Some (demo_draw 0 32), cd_file = Some ''toml'', cd_draws = 4\<rparr>"

lemma demo_save: "save_to_path demo_cred_env (fst demo_stores) demo_cred_dir = (Ok (), demo_saved_dir)"
  by code_simp

lemma demo_cred_ok: "crypto_ok demo_cred_env" "toml_ok demo_cred_env"
proof -
  have "persisted (snd demo_stores) = snd demo_stores" by code_simp
  then show "toml_ok demo_cred_env" by (simp add: toml_ok_def demo_cred_env_def)
  show "crypto_ok demo_cred_env" by (simp add: crypto_ok_def demo_cred_env_def demo_tag_def demo_draw_def)
qed

lemma demo_cred_texts: "store_texts (fst demo_stores) = {''id'', ''at'', ''rt''}"
  by (simp add: demo_stores_def store_texts_def no_credentials_def profile_texts_def aksk_texts_def no_profile_def
      no_aksk_def no_adrive_def oauth_texts_def demo_oauth_def no_oauth_def insert_commute stored_aksk.defs
      credential_profile.defs adrive_credentials.defs)


theorem credentials_roundtrip_witness:
  "\<exists>saved. load_from demo_cred_env demo_saved_dir = Ok saved \<and>
     adrive_oauth demo_cred_env saved ''p'' demo_saved_dir = (Ok demo_oauth, demo_saved_dir)"
proof -
  have valid: "\<forall>s \<in> store_texts (fst demo_stores). valid_utf8 s" unfolding demo_cred_texts by code_simp
  have "adrive_oauth demo_cred_env (fst demo_stores) ''p'' demo_cred_dir = (Ok demo_oauth, demo_cred_dir)" by code_simp
  moreover have "demo_oauth\<lparr>so_legacy_client_id := None\<rparr> = demo_oauth" by code_simp
  ultimately show ?thesis
    using credentials_roundtrip [OF demo_cred_ok _ _ _ valid demo_save]
    by (fastforce simp: bt_wf_def demo_stores_def demo_cred_env_def)
qed

end
