(* ===== verification/Oauth_Token.thy ===== *)
theory Oauth_Token
  imports Credentials
begin

text \<open>
  The OAuth tokens of ADrive (\<open>crates/adrive/src/domain/token_manager.rs\<close>): which stored token
  is used, when it is refreshed, and how refreshes of several commands are coordinated. A call of
  the manager is a machine whose steps are the reads and writes of the credentials file, the
  acquisition of the refresh lock and the requests to the token endpoint; the calls of any number
  of processes interleave step by step, with logins, logouts, the passing of time and processes
  that are killed. The answers of the endpoint and the calendar of \<open>chrono\<close> are parameters.
\<close>

section \<open>Data\<close>

record token_response =
  tr_access_token :: string
  tr_refresh_token :: string
  tr_token_type :: string
  tr_expires_in :: u64
  tr_scope :: string
  tr_user_id :: "string option"
  tr_instance_id :: string

record oauth_failure =
  of_code :: string
  of_request_id :: "string option"
  of_status :: nat
  of_retry_after_seconds :: "u64 option"

datatype oauth_client_error = OAuthHttp http_error | OAuthResponse string | OAuthFailed oauth_failure

record validated_token =
  vt_access_token :: string
  vt_refresh_token :: string
  vt_expires_in :: u64
  vt_scope :: "string list"
  vt_user_id :: "string option"

text \<open>Instants are in milliseconds. \<open>te_client\<close> builds a client and gives its normalized endpoint.\<close>

record token_env =
  te_store :: cred_env
  te_parse_time :: "string \<Rightarrow> int option"
  te_format_time :: "int \<Rightarrow> string option"
  te_client :: "string \<Rightarrow> (string, oauth_client_error) result"

section \<open>Errors and texts\<close>

definition login_required :: "string \<Rightarrow> cli_error" where
  "login_required message = AuthFailed (''[login_required] '' @ message @ ''; run ve-adrive auth login'')"

definition request_suffix :: "string option \<Rightarrow> string" where
  "request_suffix request_id = (case request_id of None \<Rightarrow> [] | Some v \<Rightarrow> '' (RequestId: '' @ v @ '')'')"

definition login_required_with_request :: "string \<Rightarrow> string option \<Rightarrow> cli_error" where
  "login_required_with_request message request_id =
     AuthFailed (''[login_required] '' @ message @ request_suffix request_id @ ''; run ve-adrive auth login'')"

definition invalid_response :: "string \<Rightarrow> cli_error" where
  "invalid_response message = ValidationError (''invalid OAuth response: '' @ message)"

definition failure_diagnostic :: "oauth_failure \<Rightarrow> string" where
  "failure_diagnostic f = ''HTTP '' @ show_nat (of_status f) @ '' ['' @ of_code f @ ''] OAuth Token refresh failed'' @
     request_suffix (of_request_id f)"

definition map_refresh_failure :: "oauth_failure \<Rightarrow> cli_error" where
  "map_refresh_failure f =
     (if of_code f \<in> {''invalid_request'', ''invalid_scope'', ''unsupported_response_type'', ''unsupported_grant_type''}
      then ValidationError (failure_diagnostic f)
      else if of_code f = ''temporarily_unavailable'' then RateLimited (failure_diagnostic f)
      else if of_code f = ''server_error'' then Unknown (failure_diagnostic f)
      else AuthFailed (failure_diagnostic f))"

definition map_refresh_error :: "oauth_client_error \<Rightarrow> cli_error" where
  "map_refresh_error error =
     (case error of
        OAuthHttp e \<Rightarrow> Http e
      | OAuthResponse message \<Rightarrow> invalid_response message
      | OAuthFailed f \<Rightarrow> map_refresh_failure f)"

definition nonempty :: "string option \<Rightarrow> string option" where
  "nonempty v = (case v of Some s \<Rightarrow> if trim s \<noteq> [] then Some s else None | None \<Rightarrow> None)"

definition normalize_user_id :: "string option \<Rightarrow> string option" where
  "normalize_user_id v = (case v of Some s \<Rightarrow> if trim s \<noteq> [] then Some (trim s) else None | None \<Rightarrow> None)"

definition required_metadata :: "string option \<Rightarrow> string \<Rightarrow> (string, cli_error) result" where
  "required_metadata v field =
     ok_or (login_required (''OAuth credentials cannot refresh without stored '' @ field)) (nonempty v)"

definition is_ascii_whitespace :: "char \<Rightarrow> bool" where
  "is_ascii_whitespace c \<longleftrightarrow> byte c \<in> {0x20, 0x09, 0x0A, 0x0C, 0x0D}"

fun split_ascii_whitespace :: "string \<Rightarrow> string list" where
  "split_ascii_whitespace [] = []"
| "split_ascii_whitespace (c # s) =
     (if is_ascii_whitespace c then split_ascii_whitespace s
      else case s of
        [] \<Rightarrow> [[c]]
      | d # _ \<Rightarrow>
          if is_ascii_whitespace d then [c] # split_ascii_whitespace s
          else (case split_ascii_whitespace s of [] \<Rightarrow> [[c]] | w # ws \<Rightarrow> (c # w) # ws))"

section \<open>Stored tokens\<close>

definition access_token_refresh_window :: int where
  "access_token_refresh_window = 60 * 1000"

definition reusable_access_token ::
  "token_env \<Rightarrow> int \<Rightarrow> stored_oauth \<Rightarrow> bool \<Rightarrow> (string option, cli_error) result" where
  "reusable_access_token env now stored apply_refresh_window =
     (case nonempty (so_access_token stored) of
        None \<Rightarrow> Ok None
      | Some access_token \<Rightarrow>
          (case so_expires_at stored of
             None \<Rightarrow> Ok (Some access_token)
           | Some t \<Rightarrow>
               (case te_parse_time env t of
                  None \<Rightarrow> Err (ValidationError ''OAuth credentials contain an invalid expires_at'')
                | Some expiry \<Rightarrow>
                    let window = (if apply_refresh_window then access_token_refresh_window else 0)
                    in Ok (if now + window < expiry then Some access_token else None))))"

definition oauth_credential_snapshot ::
  "token_env \<Rightarrow> int \<Rightarrow> stored_oauth \<Rightarrow> bool \<Rightarrow> ((string \<times> string option) option, cli_error) result" where
  "oauth_credential_snapshot env now stored apply_refresh_window =
     try_in (reusable_access_token env now stored apply_refresh_window) (\<lambda>token.
       Ok (map_option (\<lambda>t. (t, normalize_user_id (so_user_id stored))) token))"

definition validate_snapshot_instance :: "stored_oauth \<Rightarrow> string option \<Rightarrow> (unit, cli_error) result" where
  "validate_snapshot_instance stored expected =
     (case (expected, so_instance_id stored) of
        (Some e, Some bound) \<Rightarrow>
          if bound \<noteq> e then Err (login_required ''OAuth credentials belong to a different ADrive Instance'') else Ok ()
      | _ \<Rightarrow> Ok ())"

definition load_oauth :: "token_env \<Rightarrow> string \<Rightarrow> cred_dir \<Rightarrow> (stored_oauth, cli_error) result \<times> cred_dir" where
  "load_oauth env profile_name dir =
     (case load_from (te_store env) dir of
        Err e \<Rightarrow> (Err e, dir)
      | Ok store \<Rightarrow> adrive_oauth (te_store env) store profile_name dir)"

definition validate_refresh_token :: "token_response \<Rightarrow> string \<Rightarrow> (validated_token, cli_error) result" where
  "validate_refresh_token token expected_instance =
     (if trim (tr_access_token token) = [] \<or> trim (tr_refresh_token token) = []
      then Err (invalid_response ''Token response omitted a required token'')
      else if \<not> eq_ignore_ascii_case (tr_token_type token) ''bearer'' \<or> tr_expires_in token = 0
      then Err (invalid_response ''Token response has an invalid token_type or expires_in'')
      else if tr_instance_id token \<noteq> expected_instance
      then Err (invalid_response ''Token response instance_id does not match stored credentials'')
      else let scope = split_ascii_whitespace (tr_scope token)
        in if scope = [] then Err (invalid_response ''Token response scope is empty'')
        else Ok \<lparr>vt_access_token = tr_access_token token, vt_refresh_token = tr_refresh_token token,
               vt_expires_in = tr_expires_in token, vt_scope = scope,
               vt_user_id = normalize_user_id (tr_user_id token)\<rparr>)"

text \<open>
  \<open>chrono::Duration::seconds\<close> panics beyond \<open>i64::MAX\<close> milliseconds: \<open>None\<close> is the panic.
\<close>

definition max_duration_seconds :: nat where
  "max_duration_seconds = 9223372036854775"

definition expires_at :: "token_env \<Rightarrow> int \<Rightarrow> u64 \<Rightarrow> (string, cli_error) result option" where
  "expires_at env now expires_in =
     (if 2 ^ 63 \<le> unat expires_in then Some (Err (invalid_response ''Token lifetime is too large''))
      else if max_duration_seconds < unat expires_in then None
      else Some (ok_or (invalid_response ''Token expiry is outside the supported range'')
        (te_format_time env (now + 1000 * int (unat expires_in)))))"

lemma expires_at_code [code]:
  "expires_at env now expires_in =
     (if 9223372036854775808 \<le> uint expires_in then Some (Err (invalid_response ''Token lifetime is too large''))
      else if 9223372036854775 < uint expires_in then None
      else Some (ok_or (invalid_response ''Token expiry is outside the supported range'')
        (te_format_time env (now + 1000 * uint expires_in))))"
proof -
  have u: "uint expires_in = int (unat expires_in)" by simp
  have p: "(2 :: nat) ^ 63 = 9223372036854775808" by simp
  have "2 ^ 63 \<le> unat expires_in \<longleftrightarrow> 9223372036854775808 \<le> int (unat expires_in)" unfolding p by linarith
  moreover have "max_duration_seconds < unat expires_in \<longleftrightarrow> 9223372036854775 < int (unat expires_in)"
    unfolding max_duration_seconds_def by linarith
  ultimately show ?thesis unfolding u expires_at_def by (simp only:)
qed

section \<open>Retries\<close>

definition is_retryable_refresh_error :: "oauth_client_error \<Rightarrow> bool" where
  "is_retryable_refresh_error error =
     (case error of
        OAuthHttp e \<Rightarrow> he_is_timeout e \<or> he_is_connect e
      | OAuthFailed f \<Rightarrow>
          if of_code f \<in> {''temporarily_unavailable'', ''server_error''} then True
          else if of_code f \<in> {''invalid_request'', ''invalid_client'', ''unauthorized_client'', ''invalid_scope'',
            ''invalid_grant'', ''access_denied'', ''unsupported_response_type'', ''unsupported_grant_type''} then False
          else of_status f = 429 \<or> 500 \<le> of_status f
      | OAuthResponse _ \<Rightarrow> False)"

definition refresh_retry_delay :: "oauth_client_error \<Rightarrow> nat \<Rightarrow> nat" where
  "refresh_retry_delay error attempt =
     (let server_delay = (case error of OAuthFailed f \<Rightarrow> map_option (\<lambda>s. 1000 * unat s) (of_retry_after_seconds f) | _ \<Rightarrow> None);
          backoff = 200 * 2 ^ min attempt 16
      in min (case server_delay of Some d \<Rightarrow> d | None \<Rightarrow> backoff) 30000)"

definition bounded_refresh_retries :: "nat \<Rightarrow> nat" where
  "bounded_refresh_retries configured = min configured 10"

section \<open>The manager\<close>

text \<open>\<open>om_environment\<close> is the environment's token group when that was selected, \<open>None\<close> for the file.\<close>

record oauth_manager =
  om_profile :: string
  om_environment :: "string option option"
  om_is_refresh_allowed :: bool
  om_max_retry_count :: nat

definition new_with_environment ::
  "token_env \<Rightarrow> string \<Rightarrow> nat \<Rightarrow> string option \<Rightarrow> cred_dir \<Rightarrow> (oauth_manager, cli_error) result \<times> cred_dir" where
  "new_with_environment env profile_name max_retry_count environment_access_token dir =
     (if trim profile_name = []
      then (Err (ValidationError ''Invalid profile name: profile must not be empty''), dir)
      else st_try (load_oauth env profile_name dir) (\<lambda>stored dir.
        (Ok \<lparr>om_profile = profile_name,
           om_environment = (if oauth_is_empty stored then Some (nonempty environment_access_token) else None),
           om_is_refresh_allowed = True, om_max_retry_count = max_retry_count\<rparr>, dir)))"

definition without_refresh :: "oauth_manager \<Rightarrow> oauth_manager" where
  "without_refresh m = m\<lparr>om_is_refresh_allowed := False\<rparr>"

definition validate_refresh_allowed :: "oauth_manager \<Rightarrow> (unit, cli_error) result" where
  "validate_refresh_allowed m =
     ensure (om_is_refresh_allowed m) (AuthFailed (''[oauth_refresh_required] read-only dry-run requires a usable '' @
       ''OAuth Access Token; allow refresh with a normal share inspect <share-url> --auth-mode oauth using the '' @
       ''selected profile, then retry''))"

definition environment_token :: "string option \<Rightarrow> (string, cli_error) result" where
  "environment_token token = ok_or (login_required ''environment Access Token is missing'') token"

datatype token_call = AccessToken | ForceRefresh string | TokenAndUser bool "string option"

text \<open>
  The phases of a call: before it starts, at the lock, having it and before reading the file,
  before each request, with an answer before reading the file again, before writing it, and the
  same after an invalid grant; a call that returns both token and user reads the file once more.
\<close>

datatype token_phase =
  AtStart
| AtLock
| AtRead
| AtSend stored_oauth nat
| AtLoad stored_oauth string validated_token
| AtSave credentials_file string
| AtReload
| AtRejected string "string option"
| AtClear credentials_file "string option"
| Ended "(string \<times> string option, cli_error) result"
| Killed

record token_system =
  ts_dir :: cred_dir
  ts_now :: int
  ts_lock :: "string \<Rightarrow> nat option"
  ts_phase :: "nat \<Rightarrow> token_phase"
  ts_exchanged :: "string list"
  ts_is_lost :: bool

text \<open>
  \<open>ts_exchanged\<close> and \<open>ts_is_lost\<close> are history: the refresh tokens the endpoint exchanged, and whether
  an answer was lost before it reached the file. Leaving the manager releases the lock.
\<close>

definition goto :: "nat \<Rightarrow> token_phase \<Rightarrow> token_system \<Rightarrow> token_system" where
  "goto i phase s = s\<lparr>ts_phase := (ts_phase s)(i := phase)\<rparr>"

definition leave :: "nat \<Rightarrow> token_phase \<Rightarrow> token_system \<Rightarrow> token_system" where
  "leave i phase s = (goto i phase s)\<lparr>ts_lock := (\<lambda>p. if ts_lock s p = Some i then None else ts_lock s p)\<rparr>"

definition fail_call :: "nat \<Rightarrow> cli_error \<Rightarrow> token_system \<Rightarrow> token_system" where
  "fail_call i e s = leave i (Ended (Err e)) s"

definition in_dir :: "'a \<times> cred_dir \<Rightarrow> token_system \<Rightarrow> ('a \<Rightarrow> token_system \<Rightarrow> token_system) \<Rightarrow> token_system" where
  "in_dir step s k = (case step of (r, dir) \<Rightarrow> k r (s\<lparr>ts_dir := dir\<rparr>))"

text \<open>\<open>access_token\<close>, \<open>force_refresh\<close> and \<open>access_token_and_user_id\<close> up to the lock.\<close>

definition usable_stored ::
  "token_env \<Rightarrow> int \<Rightarrow> token_call \<Rightarrow> stored_oauth \<Rightarrow> ((string \<times> string option) option, cli_error) result" where
  "usable_stored env now call stored =
     (case call of
        AccessToken \<Rightarrow> try_in (reusable_access_token env now stored True) (\<lambda>t. Ok (map_option (\<lambda>t. (t, None)) t))
      | TokenAndUser window receiver \<Rightarrow>
          try_in (validate_snapshot_instance stored receiver) (\<lambda>_. oauth_credential_snapshot env now stored window)
      | ForceRefresh rejected \<Rightarrow>
          if so_access_token stored \<noteq> Some rejected
          then try_in (reusable_access_token env now stored False) (\<lambda>t. Ok (map_option (\<lambda>t. (t, None)) t))
          else Ok None)"

definition token_start :: "token_env \<Rightarrow> oauth_manager \<Rightarrow> token_call \<Rightarrow> nat \<Rightarrow> token_system \<Rightarrow> token_system" where
  "token_start env m call i s =
     (let lock = (\<lambda>s. case validate_refresh_allowed m of Err e \<Rightarrow> fail_call i e s | Ok _ \<Rightarrow> goto i AtLock s)
      in case om_environment m of
           Some token \<Rightarrow>
             (case call of
                ForceRefresh _ \<Rightarrow>
                  fail_call i (login_required ''environment OAuth credentials cannot be refreshed; provide a new Access Token'') s
              | _ \<Rightarrow> leave i (Ended (try_in (environment_token token) (\<lambda>t. Ok (t, None)))) s)
         | None \<Rightarrow>
             (case call of
                ForceRefresh _ \<Rightarrow> lock s
              | _ \<Rightarrow> in_dir (load_oauth env (om_profile m) (ts_dir s)) s (\<lambda>r s.
                  case try_in r (usable_stored env (ts_now s) call) of
                    Err e \<Rightarrow> fail_call i e s
                  | Ok (Some t) \<Rightarrow> leave i (Ended (Ok t)) s
                  | Ok None \<Rightarrow> lock s)))"

text \<open>\<open>refresh_file\<close> and \<open>refresh_locked\<close>: the second look at the file, now under the lock.\<close>

definition token_read :: "token_env \<Rightarrow> oauth_manager \<Rightarrow> token_call \<Rightarrow> nat \<Rightarrow> token_system \<Rightarrow> token_system" where
  "token_read env m call i s =
     in_dir (load_oauth env (om_profile m) (ts_dir s)) s (\<lambda>r s.
       case try_in r (\<lambda>stored. try_in (usable_stored env (ts_now s) call stored) (\<lambda>t. Ok (stored, t))) of
         Err e \<Rightarrow> fail_call i e s
       | Ok (stored, Some t) \<Rightarrow> leave i (Ended (Ok t)) s
       | Ok (stored, None) \<Rightarrow>
           (case try_in (required_metadata (so_refresh_token stored) ''refresh_token'') (\<lambda>_.
                 try_in (required_metadata (so_instance_id stored) ''instance_id'') (\<lambda>_.
                 try_in (required_metadata (so_auth_endpoint stored) ''auth_endpoint'') (\<lambda>endpoint.
                   map_err map_refresh_error (te_client env endpoint)))) of
              Err e \<Rightarrow> fail_call i e s
            | Ok _ \<Rightarrow> goto i (AtSend stored 0) s))"

definition stored_text :: "string option \<Rightarrow> string" where
  "stored_text v = (case v of Some s \<Rightarrow> s | None \<Rightarrow> [])"

text \<open>One request of \<open>request_refresh\<close> with the endpoint's answer.\<close>

definition token_send ::
  "oauth_manager \<Rightarrow> nat \<Rightarrow> stored_oauth \<Rightarrow> nat \<Rightarrow> (token_response, oauth_client_error) result \<Rightarrow> token_env \<Rightarrow>
   token_system \<Rightarrow> token_system" where
  "token_send m i stored attempt answer env s =
     (case answer of
        Ok token \<Rightarrow>
          let s = s\<lparr>ts_exchanged := stored_text (so_refresh_token stored) # ts_exchanged s\<rparr>
          in (case validate_refresh_token token (stored_text (so_instance_id stored)) of
                Err e \<Rightarrow> (fail_call i e s)\<lparr>ts_is_lost := True\<rparr>
              | Ok validated \<Rightarrow>
                  (case te_client env (stored_text (so_auth_endpoint stored)) of
                     Ok endpoint \<Rightarrow> goto i (AtLoad stored endpoint validated) s
                   | Err e \<Rightarrow> (fail_call i (map_refresh_error e) s)\<lparr>ts_is_lost := True\<rparr>))
      | Err error \<Rightarrow>
          if attempt < bounded_refresh_retries (om_max_retry_count m) \<and> is_retryable_refresh_error error
          then (goto i (AtSend stored (Suc attempt)) s)\<lparr>ts_now := ts_now s + int (refresh_retry_delay error attempt)\<rparr>
          else (case error of
                  OAuthFailed f \<Rightarrow>
                    if of_code f = ''invalid_grant''
                    then goto i (AtRejected (stored_text (so_refresh_token stored)) (of_request_id f)) s
                    else fail_call i (map_refresh_error error) s
                | _ \<Rightarrow> fail_call i (map_refresh_error error) s))"

text \<open>\<open>save_refreshed_token\<close>: the file is read, changed in memory and written.\<close>

definition refreshed_oauth :: "stored_oauth \<Rightarrow> string \<Rightarrow> validated_token \<Rightarrow> string \<Rightarrow> stored_oauth" where
  "refreshed_oauth stored endpoint token expiry =
     \<lparr>so_access_token = Some (vt_access_token token), so_refresh_token = Some (vt_refresh_token token),
      so_expires_at = Some expiry, so_token_type = Some ''Bearer'', so_scope = vt_scope token,
      so_legacy_client_id = None, so_instance_id = so_instance_id stored,
      so_user_id = (case vt_user_id token of Some u \<Rightarrow> Some u | None \<Rightarrow> normalize_user_id (so_user_id stored)),
      so_auth_endpoint = Some endpoint\<rparr>"

definition token_load ::
  "token_env \<Rightarrow> oauth_manager \<Rightarrow> nat \<Rightarrow> stored_oauth \<Rightarrow> string \<Rightarrow> validated_token \<Rightarrow> token_system \<Rightarrow> token_system" where
  "token_load env m i stored endpoint token s =
     (case load_from (te_store env) (ts_dir s) of
        Err e \<Rightarrow> (fail_call i e s)\<lparr>ts_is_lost := True\<rparr>
      | Ok store \<Rightarrow>
          (case expires_at env (ts_now s) (vt_expires_in token) of
             None \<Rightarrow> (leave i Killed s)\<lparr>ts_is_lost := True\<rparr>
           | Some r \<Rightarrow>
               (case try_in r (\<lambda>expiry. set_adrive_oauth store (om_profile m) (refreshed_oauth stored endpoint token expiry)) of
                  Err e \<Rightarrow> (fail_call i e s)\<lparr>ts_is_lost := True\<rparr>
                | Ok store \<Rightarrow> goto i (AtSave store (vt_access_token token)) s)))"

definition token_save ::
  "token_env \<Rightarrow> token_call \<Rightarrow> nat \<Rightarrow> credentials_file \<Rightarrow> string \<Rightarrow> token_system \<Rightarrow> token_system" where
  "token_save env call i store access_token s =
     in_dir (save_to_path (te_store env) store (ts_dir s)) s (\<lambda>r s.
       case r of
         Err e \<Rightarrow> (fail_call i e s)\<lparr>ts_is_lost := True\<rparr>
       | Ok _ \<Rightarrow> (case call of TokenAndUser _ _ \<Rightarrow> goto i AtReload s | _ \<Rightarrow> leave i (Ended (Ok (access_token, None))) s))"

definition token_reload :: "token_env \<Rightarrow> oauth_manager \<Rightarrow> token_call \<Rightarrow> nat \<Rightarrow> token_system \<Rightarrow> token_system" where
  "token_reload env m call i s =
     in_dir (load_oauth env (om_profile m) (ts_dir s)) s (\<lambda>r s.
       leave i (Ended (try_in r (\<lambda>stored.
         try_in (validate_snapshot_instance stored (case call of TokenAndUser _ receiver \<Rightarrow> receiver | _ \<Rightarrow> None)) (\<lambda>_.
         try_in (oauth_credential_snapshot env (ts_now s) stored False) (\<lambda>t.
           ok_or (login_required ''OAuth credentials do not contain a usable Access Token after refresh'') t))))) s)"

text \<open>\<open>clear_invalid_grant\<close>: only the group that still holds the rejected token is removed.\<close>

definition rejected_error :: "string option \<Rightarrow> cli_error" where
  "rejected_error request_id =
     login_required_with_request ''Refresh Token is invalid, expired, or revoked'' request_id"

definition token_rejected ::
  "token_env \<Rightarrow> oauth_manager \<Rightarrow> nat \<Rightarrow> string \<Rightarrow> string option \<Rightarrow> token_system \<Rightarrow> token_system" where
  "token_rejected env m i rejected request_id s =
     (case load_from (te_store env) (ts_dir s) of
        Err e \<Rightarrow> fail_call i e s
      | Ok store \<Rightarrow>
          in_dir (adrive_oauth (te_store env) store (om_profile m) (ts_dir s)) s (\<lambda>r s.
            case r of
              Err e \<Rightarrow> fail_call i e s
            | Ok current \<Rightarrow>
                if so_refresh_token current = Some rejected
                then goto i (AtClear (clear_adrive_oauth store (om_profile m)) request_id) s
                else fail_call i (rejected_error request_id) s))"

definition token_clear :: "token_env \<Rightarrow> nat \<Rightarrow> credentials_file \<Rightarrow> string option \<Rightarrow> token_system \<Rightarrow> token_system" where
  "token_clear env i store request_id s =
     in_dir (save_to_path (te_store env) store (ts_dir s)) s (\<lambda>r s.
       case r of Err e \<Rightarrow> fail_call i e s | Ok _ \<Rightarrow> fail_call i (rejected_error request_id) s)"

section \<open>Interleaving\<close>

text \<open>Login and logout change the file without the lock.\<close>

definition handle_logout :: "token_env \<Rightarrow> string \<Rightarrow> cred_dir \<Rightarrow> (bool, cli_error) result \<times> cred_dir" where
  "handle_logout env profile_name dir =
     (if cd_file dir = None then (Ok False, dir)
      else case load_from (te_store env) dir of
        Err e \<Rightarrow> (Err e, dir)
      | Ok store \<Rightarrow>
          st_try (adrive_oauth (te_store env) store profile_name dir) (\<lambda>existing dir.
            if oauth_is_empty existing then (Ok False, dir)
            else st_try (save_to_path (te_store env) (clear_adrive_oauth store profile_name) dir) (\<lambda>_ dir. (Ok True, dir))))"

definition save_login :: "token_env \<Rightarrow> string \<Rightarrow> stored_oauth \<Rightarrow> cred_dir \<Rightarrow> (unit, cli_error) result \<times> cred_dir" where
  "save_login env profile_name stored dir =
     (case try_in (load_from (te_store env) dir) (\<lambda>store. set_adrive_oauth store profile_name stored) of
        Err e \<Rightarrow> (Err e, dir)
      | Ok store \<Rightarrow> save_to_path (te_store env) store dir)"

datatype token_event =
  Advance nat "(token_response, oauth_client_error) result"
| LockTimeout nat
| Kill nat
| Tick nat
| Logout string
| Login string stored_oauth

definition lock_timeout_error :: cli_error where
  "lock_timeout_error = Conflict ''timed out waiting 10 seconds for another OAuth refresh to finish''"

text \<open>A call takes its next step; the answer matters only when the step is a request.\<close>

definition token_advance ::
  "token_env \<Rightarrow> (nat \<Rightarrow> oauth_manager \<times> token_call) \<Rightarrow> nat \<Rightarrow> (token_response, oauth_client_error) result \<Rightarrow>
   token_system \<Rightarrow> token_system" where
  "token_advance env calls i answer s =
     (case calls i of (m, call) \<Rightarrow>
       (case ts_phase s i of
          AtStart \<Rightarrow> token_start env m call i s
        | AtLock \<Rightarrow>
            if ts_lock s (om_profile m) = None
            then (goto i AtRead s)\<lparr>ts_lock := (ts_lock s)(om_profile m := Some i)\<rparr> else s
        | AtRead \<Rightarrow> token_read env m call i s
        | AtSend stored attempt \<Rightarrow> token_send m i stored attempt answer env s
        | AtLoad stored endpoint token \<Rightarrow> token_load env m i stored endpoint token s
        | AtSave store access_token \<Rightarrow> token_save env call i store access_token s
        | AtReload \<Rightarrow> token_reload env m call i s
        | AtRejected rejected request_id \<Rightarrow> token_rejected env m i rejected request_id s
        | AtClear store request_id \<Rightarrow> token_clear env i store request_id s
        | Ended _ \<Rightarrow> s
        | Killed \<Rightarrow> s))"

fun holds_answer :: "token_phase \<Rightarrow> bool" where
  "holds_answer (AtLoad _ _ _) = True"
| "holds_answer (AtSave _ _) = True"
| "holds_answer _ = False"

fun token_step :: "token_env \<Rightarrow> (nat \<Rightarrow> oauth_manager \<times> token_call) \<Rightarrow> token_event \<Rightarrow> token_system \<Rightarrow> token_system" where
  "token_step env calls (Advance i answer) s = token_advance env calls i answer s"
| "token_step env calls (LockTimeout i) s = (if ts_phase s i = AtLock then fail_call i lock_timeout_error s else s)"
| "token_step env calls (Kill i) s = (leave i Killed s)\<lparr>ts_is_lost := (ts_is_lost s \<or> holds_answer (ts_phase s i))\<rparr>"
| "token_step env calls (Tick d) s = s\<lparr>ts_now := ts_now s + int d\<rparr>"
| "token_step env calls (Logout p) s = s\<lparr>ts_dir := snd (handle_logout env p (ts_dir s))\<rparr>"
| "token_step env calls (Login p stored) s = s\<lparr>ts_dir := snd (save_login env p stored (ts_dir s))\<rparr>"

definition token_idle :: "cred_dir \<Rightarrow> int \<Rightarrow> token_system" where
  "token_idle dir now = \<lparr>ts_dir = dir, ts_now = now, ts_lock = (\<lambda>_. None), ts_phase = (\<lambda>_. AtStart), ts_exchanged = [],
     ts_is_lost = False\<rparr>"

text \<open>The states an interleaving reaches when every event is allowed by \<open>P\<close> where it happens.\<close>

inductive token_reaches ::
  "token_env \<Rightarrow> (nat \<Rightarrow> oauth_manager \<times> token_call) \<Rightarrow> (token_system \<Rightarrow> token_event \<Rightarrow> bool) \<Rightarrow> token_system \<Rightarrow>
   token_system \<Rightarrow> bool" for env calls P s0 where
  token_initial: "token_reaches env calls P s0 s0"
| token_next: "token_reaches env calls P s0 s \<Longrightarrow> P s e \<Longrightarrow> token_reaches env calls P s0 (token_step env calls e s)"

section \<open>Reading and writing the group of a profile\<close>

text \<open>The master key is there and the files can be read.\<close>

definition cred_ready :: "token_env \<Rightarrow> cred_dir \<Rightarrow> bool" where
  "cred_ready env dir \<longleftrightarrow> ce_read_key (te_store env) = Ok () \<and> ce_read_file (te_store env) = Ok () \<and>
     (\<exists>key. cd_key dir = Some key \<and> length key = 32)"

text \<open>What is assumed of the crates: the laws of encryption and TOML, and that parsing gives maps and UTF-8.\<close>

definition cred_contract :: "token_env \<Rightarrow> bool" where
  "cred_contract env \<longleftrightarrow> crypto_ok (te_store env) \<and> toml_ok (te_store env) \<and>
     (\<forall>content store. ce_parse (te_store env) content = Some store \<longrightarrow>
        bt_wf (cf_profiles store) \<and> (\<forall>t \<in> store_texts store. valid_utf8 t))"

lemma ready_key: "cred_ready env dir \<Longrightarrow> \<exists>key. load_or_init_key (te_store env) dir = (Ok key, dir)"
  by (auto simp: cred_ready_def intro: load_key_again)

lemma ready_oauth:
  assumes "cred_ready env dir"
  shows "snd (adrive_oauth (te_store env) store p dir) = dir"
  using ready_key [OF assms] by (auto simp: adrive_oauth_def decrypt_oauth_def)

lemma ready_load_oauth: "cred_ready env dir \<Longrightarrow> snd (load_oauth env p dir) = dir"
  by (simp add: load_oauth_def ready_oauth split: result.split)

lemma load_good:
  assumes "cred_contract env" and "load_from (te_store env) dir = Ok store"
  shows "bt_wf (cf_profiles store) \<and> (\<forall>t \<in> store_texts store. valid_utf8 t)"
  using assms
  by (auto simp: load_from_def cred_contract_def no_credentials_def bt_wf_def store_texts_def try_in_Ok_iff
      split: option.splits result.splits)

lemma save_reads:
  assumes contract: "cred_contract env" and ready: "cred_ready env dir"
    and store: "bt_wf (cf_profiles store)" "\<forall>t \<in> store_texts store. valid_utf8 t"
    and save: "save_to_path (te_store env) store dir = (Ok (), dir')"
    and read: "adrive_oauth (te_store env) store p dir = (Ok o1, d)"
  shows "cred_ready env dir' \<and> load_oauth env p dir' = (Ok (o1\<lparr>so_legacy_client_id := None\<rparr>), dir')"
proof -
  have c: "crypto_ok (te_store env)" "toml_ok (te_store env)" using contract by (simp_all add: cred_contract_def)
  have r: "ce_read_key (te_store env) = Ok ()" "ce_read_file (te_store env) = Ok ()" using ready by (simp_all add: cred_ready_def)
  obtain key where key: "load_or_init_key (te_store env) dir = (Ok key, dir)" using ready_key [OF ready] ..
  have "cd_key dir' = Some key" using save_cases [OF save c(2) store(1)] key by auto
  moreover have "length key = 32" using load_key_facts(3) [OF key] c(1) by (simp add: crypto_ok_def)
  ultimately have "cred_ready env dir'" using r by (simp add: cred_ready_def)
  then show ?thesis
    using saved_reads_back [OF c r store save] read unfolding load_oauth_def by fastforce
qed

text \<open>Setting the group of a profile.\<close>

definition plain_oauth :: "stored_oauth \<Rightarrow> bool" where
  "plain_oauth o1 \<longleftrightarrow> (\<forall>t \<in> oauth_texts o1. valid_utf8 t \<and> \<not> is_encrypted t)"

lemma set_oauth_facts:
  assumes set: "set_adrive_oauth store p o1 = Ok store1" and wf: "bt_wf (cf_profiles store)"
  shows "bt_wf (cf_profiles store1)" and "stored_adrive_oauth store1 p = Some o1"
    and "store_texts store1 \<subseteq> store_texts store \<union> oauth_texts o1"
proof -
  define q where "q = or_default no_profile (bt_get (cf_profiles store) p)"
  define a where "a = or_default no_adrive (cp_adrive q)"
  define q1 where "q1 = q\<lparr>cp_adrive := Some (a\<lparr>ac_oauth := Some o1\<rparr>)\<rparr>"
  have store1: "store1 = store\<lparr>cf_profiles := bt_put p q1 (cf_profiles store)\<rparr>"
    using set by (auto simp: set_adrive_oauth_def try_in_Ok_iff Let_def q1_def a_def q_def)
  show wf1: "bt_wf (cf_profiles store1)" using wf by (simp add: store1 bt_wf_put)
  show "stored_adrive_oauth store1 p = Some o1" by (simp add: store1 stored_adrive_oauth_def bt_get_put q1_def)
  have q: "profile_texts q \<subseteq> store_texts store"
  proof (cases "bt_get (cf_profiles store) p")
    case None
    then show ?thesis by (simp add: q_def or_default_def profile_texts_def no_profile_def aksk_texts_def no_aksk_def
          stored_aksk.defs credential_profile.defs)
  next
    case (Some x)
    then show ?thesis using bt_get_in_set [OF Some] by (auto simp: q_def or_default_def store_texts_def)
  qed
  have "aksk_texts a \<subseteq> profile_texts q"
    by (cases "cp_adrive q") (auto simp: a_def or_default_def profile_texts_def aksk_texts_def no_adrive_def no_aksk_def
        stored_aksk.defs adrive_credentials.defs)
  then have "profile_texts q1 \<subseteq> profile_texts q \<union> oauth_texts o1"
    by (auto simp: q1_def profile_texts_def aksk_texts_def)
  then have "profile_texts q1 \<subseteq> store_texts store \<union> oauth_texts o1" using q by blast
  moreover have "profile_texts x \<subseteq> store_texts store" if "bt_get (cf_profiles store) n = Some x" for n x
    using bt_get_in_set [OF that] by (auto simp: store_texts_def)
  ultimately have "profile_texts x \<subseteq> store_texts store \<union> oauth_texts o1" if "bt_get (cf_profiles store1) n = Some x" for n x
    using that by (auto simp: store1 bt_get_put split: if_splits)
  then show "store_texts store1 \<subseteq> store_texts store \<union> oauth_texts o1"
    using bt_in_set_get [OF wf1] unfolding store_texts_def by fastforce
qed

lemma plain_reads:
  "stored_adrive_oauth store p = Some o1 \<Longrightarrow> plain_oauth o1 \<Longrightarrow> adrive_oauth env store p dir = (Ok o1, dir)"
  by (auto simp: adrive_oauth_def or_default_def decrypt_oauth_def oauth_requires_decryption_def plain_oauth_def oauth_texts_def)

section \<open>Refresh tokens are used once\<close>

text \<open>
  The endpoint rotates: an exchange gives a refresh token that was never exchanged, and an invalid
  grant is the answer to a token that was. Tokens are plain texts.
\<close>

definition rotating_answer :: "string list \<Rightarrow> string \<Rightarrow> (token_response, oauth_client_error) result \<Rightarrow> bool" where
  "rotating_answer exchanged refresh_token answer =
     (case answer of
        Ok t \<Rightarrow> tr_refresh_token t \<notin> set (refresh_token # exchanged) \<and>
          (\<forall>v \<in> {tr_access_token t, tr_refresh_token t}. valid_utf8 v \<and> \<not> is_encrypted v)
      | Err (OAuthFailed f) \<Rightarrow> of_code f = ''invalid_grant'' \<longrightarrow> refresh_token \<in> set exchanged
      | Err _ \<Rightarrow> True)"

text \<open>Only calls of the manager touch the file, and the endpoint rotates.\<close>

definition coordinated :: "token_system \<Rightarrow> token_event \<Rightarrow> bool" where
  "coordinated s e =
     (case e of
        Advance i answer \<Rightarrow>
          (case ts_phase s i of
             AtSend stored n \<Rightarrow> rotating_answer (ts_exchanged s) (stored_text (so_refresh_token stored)) answer
           | _ \<Rightarrow> True)
      | Logout _ \<Rightarrow> False
      | Login _ _ \<Rightarrow> False
      | _ \<Rightarrow> True)"

fun inside :: "token_phase \<Rightarrow> bool" where
  "inside AtStart = False"
| "inside AtLock = False"
| "inside (Ended _) = False"
| "inside Killed = False"
| "inside _ = True"

definition stored_unused :: "token_env \<Rightarrow> string \<Rightarrow> token_system \<Rightarrow> bool" where
  "stored_unused env p s \<longleftrightarrow>
     (\<exists>o1 r. load_oauth env p (ts_dir s) = (Ok o1, ts_dir s) \<and> so_refresh_token o1 = Some r \<and> r \<notin> set (ts_exchanged s))"

fun phase_good :: "string \<Rightarrow> string list \<Rightarrow> token_phase \<Rightarrow> bool" where
  "phase_good p exchanged (AtSend stored n) = (\<exists>r. so_refresh_token stored = Some r \<and> r \<notin> set exchanged)"
| "phase_good p exchanged (AtLoad stored endpoint token) =
     (vt_refresh_token token \<notin> set exchanged \<and>
      (\<forall>v \<in> {vt_access_token token, vt_refresh_token token}. valid_utf8 v \<and> \<not> is_encrypted v))"
| "phase_good p exchanged (AtSave store access_token) =
     (bt_wf (cf_profiles store) \<and> (\<forall>t \<in> store_texts store. valid_utf8 t) \<and>
      (\<exists>o1 r. stored_adrive_oauth store p = Some o1 \<and> plain_oauth o1 \<and> so_refresh_token o1 = Some r \<and> r \<notin> set exchanged))"
| "phase_good p exchanged (AtRejected r i) = False"
| "phase_good p exchanged (AtClear store i) = False"
| "phase_good p exchanged _ = True"

definition token_inv :: "token_env \<Rightarrow> string \<Rightarrow> token_system \<Rightarrow> bool" where
  "token_inv env p s \<longleftrightarrow>
     cred_ready env (ts_dir s) \<and> distinct (ts_exchanged s) \<and>
     (\<forall>i. inside (ts_phase s i) \<longrightarrow> ts_lock s p = Some i) \<and>
     (\<forall>i. phase_good p (ts_exchanged s) (ts_phase s i)) \<and>
     ((\<forall>i. \<not> holds_answer (ts_phase s i)) \<longrightarrow> stored_unused env p s)"

lemma holds_inside: "holds_answer ph \<Longrightarrow> inside ph"
  by (cases ph) simp_all

lemma outside_good: "\<not> inside ph \<Longrightarrow> phase_good p ex ph"
  by (cases ph) simp_all

text \<open>What one call may do: before it has the lock, and while it has it.\<close>

lemma step_outside:
  assumes good: "token_inv env p s" and i: "\<not> holds_answer (ts_phase s i)"
    and s': "ts_dir s' = ts_dir s" "ts_exchanged s' = ts_exchanged s" "ts_phase s' = (ts_phase s)(i := ph)"
    and lock: "inside ph \<Longrightarrow> ts_lock s' p = Some i" "\<And>j. j \<noteq> i \<Longrightarrow> inside (ts_phase s j) \<Longrightarrow> ts_lock s' p = Some j"
    and ph: "phase_good p (ts_exchanged s) ph" "\<not> holds_answer ph"
  shows "token_inv env p s'"
proof -
  have "\<forall>j. holds_answer (ts_phase s' j) = holds_answer (ts_phase s j)" using i ph(2) s'(3) by simp
  then show ?thesis
    using good lock ph(1) s' unfolding token_inv_def stored_unused_def by (simp add: fun_upd_apply)
qed

lemma step_inside:
  assumes good: "token_inv env p s" and i: "inside (ts_phase s i)"
    and s': "ts_phase s' = (ts_phase s)(i := ph)" "cred_ready env (ts_dir s')" "distinct (ts_exchanged s')"
    and lock: "inside ph \<Longrightarrow> ts_lock s' p = ts_lock s p"
    and ph: "phase_good p (ts_exchanged s') ph" "\<not> holds_answer ph \<Longrightarrow> stored_unused env p s'"
  shows "token_inv env p s'"
proof -
  have holder: "ts_lock s p = Some i" using good i by (simp add: token_inv_def)
  have others: "\<not> inside (ts_phase s j)" if "j \<noteq> i" for j
  proof
    assume "inside (ts_phase s j)"
    then have "ts_lock s p = Some j" using good by (simp add: token_inv_def)
    then show False using holder that by simp
  qed
  have good_j: "phase_good p (ts_exchanged s') (ts_phase s j)" if "j \<noteq> i" for j
  proof -
    have "phase_good p (ts_exchanged s) (ts_phase s j)" using good by (simp add: token_inv_def)
    then show ?thesis using others [OF that] by (cases "ts_phase s j") simp_all
  qed
  have "inside (ts_phase s' j) \<longrightarrow> ts_lock s' p = Some j" for j
    using others lock holder s'(1) by (cases "j = i") auto
  moreover have "phase_good p (ts_exchanged s') (ts_phase s' j)" for j
    using good_j ph(1) s'(1) by (cases "j = i") auto
  moreover have "stored_unused env p s'" if "\<forall>j. \<not> holds_answer (ts_phase s' j)"
  proof -
    have "\<not> holds_answer ph" using that [rule_format, of i] s'(1) by simp
    then show ?thesis by (rule ph(2))
  qed
  ultimately show ?thesis using s' unfolding token_inv_def by blast
qed

text \<open>While no answer is held the stored token is unused; leaving the manager keeps that.\<close>

lemma leave_simps [simp]:
  "ts_phase (leave i ph s) = (ts_phase s)(i := ph)" "ts_dir (leave i ph s) = ts_dir s"
  "ts_exchanged (leave i ph s) = ts_exchanged s" "ts_is_lost (leave i ph s) = ts_is_lost s" "ts_now (leave i ph s) = ts_now s"
  "ts_lock (leave i ph s) p = (if ts_lock s p = Some i then None else ts_lock s p)"
  "ts_phase (goto i ph s) = (ts_phase s)(i := ph)" "ts_dir (goto i ph s) = ts_dir s"
  "ts_exchanged (goto i ph s) = ts_exchanged s" "ts_is_lost (goto i ph s) = ts_is_lost s" "ts_now (goto i ph s) = ts_now s"
  "ts_lock (goto i ph s) = ts_lock s"
  by (simp_all add: leave_def goto_def)

lemma inv_unused:
  assumes "token_inv env p s" and "inside (ts_phase s i)" and "\<not> holds_answer (ts_phase s i)"
  shows "stored_unused env p s"
proof -
  have "\<not> holds_answer (ts_phase s j)" for j
  proof
    assume h: "holds_answer (ts_phase s j)"
    have "inside (ts_phase s k) \<Longrightarrow> ts_lock s p = Some k" for k using assms(1) by (simp add: token_inv_def)
    then have "ts_lock s p = Some j" "ts_lock s p = Some i" using holds_inside [OF h] assms(2) by blast+
    then show False using h assms(3) by simp
  qed
  then show ?thesis using assms(1) by (simp add: token_inv_def)
qed

lemma inv_leave:
  assumes good: "token_inv env p s" and i: "\<not> holds_answer (ts_phase s i)"
    and ph: "\<not> inside ph"
  shows "token_inv env p (leave i ph s)"
proof (rule step_outside [OF good i])
  show "ts_lock (leave i ph s) p = Some j" if "j \<noteq> i" "inside (ts_phase s j)" for j
    using that good by (simp add: token_inv_def)
  show "\<not> holds_answer ph" using ph holds_inside by blast
  show "phase_good p (ts_exchanged s) ph" using ph by (rule outside_good)
qed (use ph in simp_all)

lemma inv_failed: "token_inv env p s \<Longrightarrow> \<not> holds_answer (ts_phase s i) \<Longrightarrow> token_inv env p (fail_call i e s)"
  unfolding fail_call_def by (rule inv_leave) simp_all

lemma in_dir_same: "cred_ready env (ts_dir s) \<Longrightarrow>
  in_dir (load_oauth env q (ts_dir s)) s k = k (fst (load_oauth env q (ts_dir s))) s"
  using ready_load_oauth [of env "ts_dir s" q] by (simp add: in_dir_def split_beta)

lemma start_keeps:
  assumes good: "token_inv env p s" and i: "ts_phase s i = AtStart"
  shows "token_inv env p (token_start env m call i s)"
proof -
  have ready: "cred_ready env (ts_dir s)" using good by (simp add: token_inv_def)
  have out: "\<not> holds_answer (ts_phase s i)" using i by simp
  have lock: "token_inv env p (goto i AtLock s)"
    by (rule step_outside [OF good out, of _ AtLock]) (use good in \<open>auto simp: token_inv_def\<close>)
  note leaves = inv_leave [OF good out]
  show ?thesis
    unfolding token_start_def in_dir_same [OF ready]
    using lock leaves inv_failed [OF good out]
    by (auto simp: Let_def split: option.split token_call.split result.split)
qed

lemma read_keeps:
  assumes good: "token_inv env p s" and i: "ts_phase s i = AtRead" and m: "om_profile m = p"
  shows "token_inv env p (token_read env m call i s)"
proof -
  have ready: "cred_ready env (ts_dir s)" using good by (simp add: token_inv_def)
  have inner: "inside (ts_phase s i)" "\<not> holds_answer (ts_phase s i)" using i by simp_all
  have unused: "stored_unused env p s" by (rule inv_unused [OF good inner])
  have sends: "token_inv env p (goto i (AtSend stored 0) s)" if "fst (load_oauth env p (ts_dir s)) = Ok stored" for stored
    by (rule step_inside [OF good inner(1), of _ "AtSend stored 0"])
      (use good unused that ready in \<open>auto simp: token_inv_def stored_unused_def\<close>)
  show ?thesis
    unfolding token_read_def m in_dir_same [OF ready]
    using inv_leave [OF good inner(2)] inv_failed [OF good inner(2)] sends
    by (auto simp: try_in_Ok_iff split: option.split result.splits)
qed

lemma tick_keeps: "token_inv env p s \<Longrightarrow> token_inv env p (s\<lparr>ts_now := t\<rparr>)"
  by (simp add: token_inv_def stored_unused_def)

lemma send_keeps:
  assumes good: "token_inv env p s" and i: "ts_phase s i = AtSend stored n"
    and answer: "rotating_answer (ts_exchanged s) (stored_text (so_refresh_token stored)) answer"
    and kept: "\<not> ts_is_lost (token_send m i stored n answer env s)"
  shows "token_inv env p (token_send m i stored n answer env s)"
proof -
  have inner: "inside (ts_phase s i)" "\<not> holds_answer (ts_phase s i)" using i by simp_all
  have ready: "cred_ready env (ts_dir s)" and dist: "distinct (ts_exchanged s)" using good by (simp_all add: token_inv_def)
  have unused: "stored_unused env p s" by (rule inv_unused [OF good inner])
  have "phase_good p (ts_exchanged s) (ts_phase s i)" using good by (simp add: token_inv_def)
  then have "phase_good p (ts_exchanged s) (AtSend stored n)" by (simp add: i)
  then obtain r where r: "so_refresh_token stored = Some r" "r \<notin> set (ts_exchanged s)" by auto
  show ?thesis
  proof (cases answer)
    case (Err error)
    have "token_inv env p (goto i (AtSend stored (Suc n)) s)"
      by (rule step_inside [OF good inner(1), of _ "AtSend stored (Suc n)"])
        (use ready dist r unused in \<open>auto simp: stored_unused_def\<close>)
    then have again: "token_inv env p ((goto i (AtSend stored (Suc n)) s)\<lparr>ts_now := t\<rparr>)" for t by (rule tick_keeps)
    have "error = OAuthFailed f \<Longrightarrow> of_code f \<noteq> ''invalid_grant''" for f
      using answer r by (auto simp: rotating_answer_def Err stored_text_def)
    then show ?thesis
      using again inv_failed [OF good inner(2)]
      by (auto simp: token_send_def Err split: oauth_client_error.split)
  next
    case (Ok token)
    let ?s = "s\<lparr>ts_exchanged := stored_text (so_refresh_token stored) # ts_exchanged s\<rparr>"
    obtain v endpoint where v: "validate_refresh_token token (stored_text (so_instance_id stored)) = Ok v"
      and goto: "token_send m i stored n answer env s = goto i (AtLoad stored endpoint v) ?s"
      using kept by (auto simp: token_send_def Ok Let_def fail_call_def split: result.splits)
    have vt: "vt_access_token v = tr_access_token token" "vt_refresh_token v = tr_refresh_token token"
      using v by (auto simp: validate_refresh_token_def Let_def split: if_splits)
    show ?thesis
      unfolding goto
      by (rule step_inside [OF good inner(1), of _ "AtLoad stored endpoint v"])
        (use ready dist r vt answer in \<open>auto simp: rotating_answer_def Ok stored_text_def\<close>)
  qed
qed

lemma load_keeps:
  assumes contract: "cred_contract env" and good: "token_inv env p s" and i: "ts_phase s i = AtLoad stored endpoint token"
    and m: "om_profile m = p" and kept: "\<not> ts_is_lost (token_load env m i stored endpoint token s)"
  shows "token_inv env p (token_load env m i stored endpoint token s)"
proof -
  have inner: "inside (ts_phase s i)" using i by simp
  have ready: "cred_ready env (ts_dir s)" and dist: "distinct (ts_exchanged s)" using good by (simp_all add: token_inv_def)
  have "phase_good p (ts_exchanged s) (ts_phase s i)" using good by (simp add: token_inv_def)
  then have token: "vt_refresh_token token \<notin> set (ts_exchanged s)"
    "\<forall>v \<in> {vt_access_token token, vt_refresh_token token}. valid_utf8 v \<and> \<not> is_encrypted v" by (simp_all add: i)
  obtain store expiry store1 where store: "load_from (te_store env) (ts_dir s) = Ok store"
    and set: "set_adrive_oauth store p (refreshed_oauth stored endpoint token expiry) = Ok store1"
    and goto: "token_load env m i stored endpoint token s = goto i (AtSave store1 (vt_access_token token)) s"
    using kept m by (auto simp: token_load_def fail_call_def try_in_Ok_iff split: result.splits option.splits)
  let ?o = "refreshed_oauth stored endpoint token expiry"
  note facts = set_oauth_facts [OF set load_good [OF contract store, THEN conjunct1]]
  have plain: "plain_oauth ?o" and texts: "\<forall>t \<in> oauth_texts ?o. valid_utf8 t"
    using token(2) by (auto simp: plain_oauth_def oauth_texts_def refreshed_oauth_def)
  have "\<forall>t \<in> store_texts store1. valid_utf8 t"
    using facts(3) load_good [OF contract store] texts by blast
  moreover have "so_refresh_token ?o = Some (vt_refresh_token token)" by (simp add: refreshed_oauth_def)
  ultimately show ?thesis
    unfolding goto
    by (intro step_inside [OF good inner, of _ "AtSave store1 (vt_access_token token)"])
      (use ready dist facts(1,2) plain token(1) in auto)
qed

lemma save_keeps:
  assumes contract: "cred_contract env" and good: "token_inv env p s" and i: "ts_phase s i = AtSave store a"
    and kept: "\<not> ts_is_lost (token_save env call i store a s)"
  shows "token_inv env p (token_save env call i store a s)"
proof -
  have inner: "inside (ts_phase s i)" using i by simp
  have ready: "cred_ready env (ts_dir s)" and dist: "distinct (ts_exchanged s)" using good by (simp_all add: token_inv_def)
  have "phase_good p (ts_exchanged s) (ts_phase s i)" using good by (simp add: token_inv_def)
  then obtain o1 r where store: "bt_wf (cf_profiles store)" "\<forall>t \<in> store_texts store. valid_utf8 t"
    and o1: "stored_adrive_oauth store p = Some o1" "plain_oauth o1" "so_refresh_token o1 = Some r" "r \<notin> set (ts_exchanged s)"
    by (auto simp: i)
  obtain rs dir where save: "save_to_path (te_store env) store (ts_dir s) = (rs, dir)" by fastforce
  have ok: "rs = Ok ()" using kept save by (cases rs) (auto simp: token_save_def in_dir_def)
  note reads = save_reads [OF contract ready store save [unfolded ok] plain_reads [OF o1(1,2)]]
  have unused: "stored_unused env p (goto i ph (s\<lparr>ts_dir := dir\<rparr>))" "stored_unused env p (leave i ph (s\<lparr>ts_dir := dir\<rparr>))" for ph
    using reads o1(3,4) by (auto simp: stored_unused_def)
  have "token_inv env p (goto i AtReload (s\<lparr>ts_dir := dir\<rparr>))"
    by (rule step_inside [OF good inner, of _ AtReload]) (use reads dist unused in auto)
  moreover have "token_inv env p (leave i (Ended x) (s\<lparr>ts_dir := dir\<rparr>))" for x
    by (rule step_inside [OF good inner, of _ "Ended x"]) (use reads dist unused in auto)
  ultimately show ?thesis by (cases call) (simp_all add: token_save_def in_dir_def save ok)
qed

lemma advance_keeps:
  assumes contract: "cred_contract env" and good: "token_inv env p s" and calls: "om_profile (fst (calls i)) = p"
    and allowed: "coordinated s (Advance i answer)" and kept: "\<not> ts_is_lost (token_advance env calls i answer s)"
  shows "token_inv env p (token_advance env calls i answer s)"
proof -
  obtain m call where m: "calls i = (m, call)" by fastforce
  have p: "om_profile m = p" using calls m by simp
  have ready: "cred_ready env (ts_dir s)" using good by (simp add: token_inv_def)
  have good_i: "phase_good p (ts_exchanged s) (ts_phase s i)" using good by (simp add: token_inv_def)
  show ?thesis
  proof (cases "ts_phase s i")
    case AtStart
    then show ?thesis using start_keeps [OF good] by (simp add: token_advance_def m)
  next
    case AtLock
    have "token_inv env p ((goto i AtRead s)\<lparr>ts_lock := (ts_lock s)(p := Some i)\<rparr>)" if "ts_lock s p = None"
      by (rule step_outside [OF good, of i _ AtRead]) (use AtLock good that in \<open>auto simp: token_inv_def\<close>)
    then show ?thesis using good by (simp add: token_advance_def m AtLock p)
  next
    case AtRead
    then show ?thesis using read_keeps [OF good _ p] by (simp add: token_advance_def m)
  next
    case (AtSend stored n)
    then show ?thesis using send_keeps [OF good AtSend] allowed kept by (simp add: token_advance_def m coordinated_def)
  next
    case (AtLoad stored endpoint token)
    then show ?thesis using load_keeps [OF contract good AtLoad p] kept by (simp add: token_advance_def m)
  next
    case (AtSave store a)
    then show ?thesis using save_keeps [OF contract good AtSave] kept by (simp add: token_advance_def m)
  next
    case AtReload
    then show ?thesis using inv_leave [OF good] in_dir_same [OF ready]
      by (simp add: token_advance_def m token_reload_def)
  qed (use good good_i in \<open>simp_all add: token_advance_def m\<close>)
qed

text \<open>What is lost stays lost.\<close>

lemma in_dir_lost: "(\<And>r d. ts_is_lost (k r (s\<lparr>ts_dir := d\<rparr>))) \<Longrightarrow> ts_is_lost (in_dir step s k)"
  by (simp add: in_dir_def split: prod.split)

lemma lost_steps:
  assumes "ts_is_lost s"
  shows "ts_is_lost (token_start env m call i s)" "ts_is_lost (token_read env m call i s)"
    "ts_is_lost (token_send m i stored n answer env s)" "ts_is_lost (token_load env m i stored endpoint token s)"
    "ts_is_lost (token_save env call i store a s)" "ts_is_lost (token_reload env m call i s)"
    "ts_is_lost (token_rejected env m i rejected request_id s)" "ts_is_lost (token_clear env i store request_id s)"
proof -
  show "ts_is_lost (token_start env m call i s)"
    using assms unfolding token_start_def Let_def fail_call_def
    by (auto intro!: in_dir_lost split: option.split token_call.split result.split)
  show "ts_is_lost (token_read env m call i s)"
    using assms unfolding token_read_def fail_call_def by (auto intro!: in_dir_lost split: option.split result.split)
  show "ts_is_lost (token_send m i stored n answer env s)"
    using assms unfolding token_send_def Let_def fail_call_def by (simp split: result.split oauth_client_error.split)
  show "ts_is_lost (token_load env m i stored endpoint token s)"
    using assms unfolding token_load_def fail_call_def by (simp split: result.split option.split)
  show "ts_is_lost (token_save env call i store a s)"
    using assms unfolding token_save_def fail_call_def by (auto intro!: in_dir_lost split: result.split token_call.split)
  show "ts_is_lost (token_reload env m call i s)"
    using assms unfolding token_reload_def by (auto intro!: in_dir_lost)
  show "ts_is_lost (token_rejected env m i rejected request_id s)"
    using assms unfolding token_rejected_def fail_call_def by (auto intro!: in_dir_lost split: result.split)
  show "ts_is_lost (token_clear env i store request_id s)"
    using assms unfolding token_clear_def fail_call_def by (auto intro!: in_dir_lost split: result.split)
qed

lemma advance_lost: "ts_is_lost s \<Longrightarrow> ts_is_lost (token_advance env calls i answer s)"
  unfolding token_advance_def by (cases "calls i"; cases "ts_phase s i") (simp_all add: lost_steps)

lemma step_lost: "ts_is_lost s \<Longrightarrow> ts_is_lost (token_step env calls e s)"
  by (cases e) (simp_all add: advance_lost fail_call_def)

lemma step_keeps:
  assumes contract: "cred_contract env" and good: "token_inv env p s" and calls: "\<forall>i. om_profile (fst (calls i)) = p"
    and allowed: "coordinated s e" and kept: "\<not> ts_is_lost (token_step env calls e s)"
  shows "token_inv env p (token_step env calls e s)"
proof (cases e)
  case (Advance i answer)
  then show ?thesis using advance_keeps [OF contract good] calls allowed kept by simp
next
  case (LockTimeout i)
  then show ?thesis using inv_failed [OF good] good by simp
next
  case (Kill i)
  then have "\<not> holds_answer (ts_phase s i)" using kept by simp
  from inv_leave [OF good this, of Killed] show ?thesis using Kill by (simp add: token_inv_def stored_unused_def)
next
  case (Tick d)
  then show ?thesis using tick_keeps [OF good] by simp
qed (use allowed in \<open>simp_all add: coordinated_def\<close>)

lemma reaches_inv:
  assumes "token_reaches env calls coordinated s0 s" and contract: "cred_contract env"
    and calls: "\<forall>i. om_profile (fst (calls i)) = p" and s0: "token_inv env p s0"
  shows "ts_is_lost s \<or> token_inv env p s"
  using assms(1)
proof (induction rule: token_reaches.induct)
  case token_initial
  then show ?case using s0 by simp
next
  case (token_next s e)
  then show ?case using step_lost step_keeps [OF contract _ calls] by blast
qed

lemma idle_inv:
  assumes "cred_ready env dir" and "load_oauth env p dir = (Ok o1, dir)" and "so_refresh_token o1 = Some r"
  shows "token_inv env p (token_idle dir now)"
  using assms by (simp add: token_inv_def token_idle_def stored_unused_def)

section \<open>One refresh for a rejected token\<close>

text \<open>Every call was rejected with the same token; tokens that are issued now live beyond \<open>limit\<close>.\<close>

definition long_lived :: "token_env \<Rightarrow> int \<Rightarrow> bool" where
  "long_lived env limit \<longleftrightarrow>
     (\<forall>t text. te_format_time env t = Some text \<longrightarrow> (\<exists>e. te_parse_time env text = Some e \<and> limit < e))"

definition not_reissued :: "string \<Rightarrow> token_event \<Rightarrow> bool" where
  "not_reissued rejected e = (case e of Advance i (Ok t) \<Rightarrow> tr_access_token t \<noteq> rejected | _ \<Rightarrow> True)"

definition renewed_oauth :: "token_env \<Rightarrow> string \<Rightarrow> int \<Rightarrow> stored_oauth \<Rightarrow> bool" where
  "renewed_oauth env rejected limit o1 \<longleftrightarrow>
     (\<exists>a text e. so_access_token o1 = Some a \<and> a \<noteq> rejected \<and> trim a \<noteq> [] \<and> so_expires_at o1 = Some text \<and>
        te_parse_time env text = Some e \<and> limit < e)"

definition renewed :: "token_env \<Rightarrow> string \<Rightarrow> int \<Rightarrow> string \<Rightarrow> token_system \<Rightarrow> bool" where
  "renewed env rejected limit p s \<longleftrightarrow>
     (\<exists>o1. load_oauth env p (ts_dir s) = (Ok o1, ts_dir s) \<and> renewed_oauth env rejected limit o1)"

fun phase_new :: "token_env \<Rightarrow> string \<Rightarrow> int \<Rightarrow> string \<Rightarrow> bool \<Rightarrow> token_phase \<Rightarrow> bool" where
  "phase_new env rejected limit p used (AtSend stored n) = (\<not> used)"
| "phase_new env rejected limit p used (AtLoad stored endpoint v) = (vt_access_token v \<noteq> rejected \<and> trim (vt_access_token v) \<noteq> [])"
| "phase_new env rejected limit p used (AtSave store a) =
     (\<exists>o1. stored_adrive_oauth store p = Some o1 \<and> renewed_oauth env rejected limit o1)"
| "phase_new env rejected limit p used _ = True"

definition single_inv :: "token_env \<Rightarrow> string \<Rightarrow> int \<Rightarrow> string \<Rightarrow> token_system \<Rightarrow> bool" where
  "single_inv env rejected limit p s \<longleftrightarrow>
     length (ts_exchanged s) \<le> 1 \<and>
     (\<forall>i. phase_new env rejected limit p (ts_exchanged s \<noteq> []) (ts_phase s i)) \<and>
     (ts_exchanged s \<noteq> [] \<longrightarrow> (\<forall>i. \<not> holds_answer (ts_phase s i)) \<longrightarrow> renewed env rejected limit p s)"

lemma only_inside:
  assumes "token_inv env p s" and "inside (ts_phase s i)" and "j \<noteq> i"
  shows "\<not> inside (ts_phase s j)"
proof
  assume "inside (ts_phase s j)"
  moreover have "inside (ts_phase s k) \<Longrightarrow> ts_lock s p = Some k" for k using assms(1) by (simp add: token_inv_def)
  ultimately have "ts_lock s p = Some j" "ts_lock s p = Some i" using assms(2) by blast+
  then show False using assms(3) by simp
qed

text \<open>A call that neither sends, nor holds an answer, changes nothing that matters.\<close>

lemma single_move:
  assumes "single_inv env rejected limit p s" and "\<not> holds_answer (ts_phase s i)"
    and "ts_dir s' = ts_dir s" "ts_exchanged s' = ts_exchanged s" "ts_phase s' = (ts_phase s)(i := ph)"
    and "phase_new env rejected limit p (ts_exchanged s \<noteq> []) ph" and "\<not> holds_answer ph"
  shows "single_inv env rejected limit p s'"
proof -
  have "\<forall>j. holds_answer (ts_phase s' j) = holds_answer (ts_phase s j)" using assms(2,5,7) by simp
  then show ?thesis using assms by (simp add: single_inv_def renewed_def fun_upd_apply)
qed

lemma single_leave:
  "single_inv env rejected limit p s \<Longrightarrow> \<not> holds_answer (ts_phase s i) \<Longrightarrow> \<not> inside ph \<Longrightarrow>
   single_inv env rejected limit p (leave i ph s)"
  by (rule single_move [of _ _ _ _ _ i _ ph]) (simp_all, (cases ph; simp)+)

lemma single_failed:
  "single_inv env rejected limit p s \<Longrightarrow> \<not> holds_answer (ts_phase s i) \<Longrightarrow> single_inv env rejected limit p (fail_call i e s)"
  unfolding fail_call_def by (rule single_leave) simp_all

text \<open>A call inside: the others are not, so that only its own new phase matters.\<close>

lemma single_inside:
  assumes "token_inv env p s" and "inside (ts_phase s i)"
    and s': "ts_phase s' = (ts_phase s)(i := ph)" "length (ts_exchanged s') \<le> 1"
    and "phase_new env rejected limit p (ts_exchanged s' \<noteq> []) ph"
    and "ts_exchanged s' \<noteq> [] \<Longrightarrow> \<not> holds_answer ph \<Longrightarrow> renewed env rejected limit p s'"
  shows "single_inv env rejected limit p s'"
proof -
  have "phase_new env rejected limit p u (ts_phase s j)" if "j \<noteq> i" for j u
    using only_inside [OF assms(1,2) that] by (cases "ts_phase s j") simp_all
  then have "phase_new env rejected limit p (ts_exchanged s' \<noteq> []) (ts_phase s' j)" for j
    using assms(5) s'(1) by (cases "j = i") simp_all
  moreover have "renewed env rejected limit p s'" if "ts_exchanged s' \<noteq> []" "\<forall>j. \<not> holds_answer (ts_phase s' j)"
    using assms(6) [OF that(1)] that(2) s'(1) by (metis fun_upd_same)
  ultimately show ?thesis using s'(2) by (simp add: single_inv_def)
qed

lemma single_read:
  assumes good: "token_inv env p s" and single: "single_inv env rejected limit p s" and i: "ts_phase s i = AtRead"
    and m: "om_profile m = p" and now: "ts_now s \<le> limit"
  shows "single_inv env rejected limit p (token_read env m (ForceRefresh rejected) i s)"
proof -
  have ready: "cred_ready env (ts_dir s)" using good by (simp add: token_inv_def)
  have out: "\<not> holds_answer (ts_phase s i)" "inside (ts_phase s i)" using i by simp_all
  note leaves = single_leave [OF single out(1)] and errors = single_failed [OF single out(1)]
  show ?thesis
  proof (cases "ts_exchanged s = []")
    case True
    have "single_inv env rejected limit p (goto i (AtSend stored 0) s)" for stored
      by (rule single_move [OF single out(1), of _ "AtSend stored 0"]) (simp_all add: True)
    then show ?thesis
      unfolding token_read_def m in_dir_same [OF ready] using leaves errors
      by (auto split: option.split result.splits)
  next
    case False
    have "\<not> holds_answer (ts_phase s j)" for j
      using only_inside [OF good out(2), of j] holds_inside out(1) by (cases "j = i") auto
    then have "renewed env rejected limit p s" using single False by (simp add: single_inv_def)
    then obtain o1 a tx e where o1: "fst (load_oauth env p (ts_dir s)) = Ok o1" "so_access_token o1 = Some a" "a \<noteq> rejected"
      "trim a \<noteq> []" "so_expires_at o1 = Some tx" "te_parse_time env tx = Some e" "limit < e"
      by (auto simp: renewed_def renewed_oauth_def)
    then have "usable_stored env (ts_now s) (ForceRefresh rejected) o1 = Ok (Some (a, None))"
      using now by (simp add: usable_stored_def reusable_access_token_def nonempty_def)
    then show ?thesis unfolding token_read_def m in_dir_same [OF ready] using leaves o1(1) by simp
  qed
qed

lemma single_start:
  assumes good: "token_inv env p s" and single: "single_inv env rejected limit p s" and i: "ts_phase s i = AtStart"
  shows "single_inv env rejected limit p (token_start env m (ForceRefresh rejected) i s)"
proof -
  have out: "\<not> holds_answer (ts_phase s i)" using i by simp
  have "single_inv env rejected limit p (goto i AtLock s)" by (rule single_move [OF single out, of _ AtLock]) simp_all
  then show ?thesis
    using single_failed [OF single out] by (simp add: token_start_def Let_def split: option.split result.split)
qed

lemma single_send:
  assumes good: "token_inv env p s" and single: "single_inv env rejected limit p s" and i: "ts_phase s i = AtSend stored n"
    and new: "\<And>t. answer = Ok t \<Longrightarrow> tr_access_token t \<noteq> rejected"
    and answer: "rotating_answer (ts_exchanged s) (stored_text (so_refresh_token stored)) answer"
    and kept: "\<not> ts_is_lost (token_send m i stored n answer env s)"
  shows "single_inv env rejected limit p (token_send m i stored n answer env s)"
proof -
  have out: "\<not> holds_answer (ts_phase s i)" "inside (ts_phase s i)" using i by simp_all
  have "phase_new env rejected limit p (ts_exchanged s \<noteq> []) (ts_phase s i)" using single by (simp add: single_inv_def)
  then have none: "ts_exchanged s = []" by (simp add: i)
  have "phase_good p (ts_exchanged s) (ts_phase s i)" using good by (simp add: token_inv_def)
  then have unused: "stored_text (so_refresh_token stored) \<notin> set (ts_exchanged s)" by (auto simp: i stored_text_def)
  show ?thesis
  proof (cases answer)
    case (Err error)
    have again: "single_inv env rejected limit p ((goto i (AtSend stored (Suc n)) s)\<lparr>ts_now := t\<rparr>)" for t
      by (rule single_move [OF single out(1), of _ "AtSend stored (Suc n)"]) (simp_all add: none)
    have "error = OAuthFailed f \<Longrightarrow> of_code f \<noteq> ''invalid_grant''" for f
      using answer unused by (auto simp: rotating_answer_def Err)
    then show ?thesis
      using again single_failed [OF single out(1)] by (auto simp: token_send_def Err split: oauth_client_error.split)
  next
    case (Ok token)
    let ?s = "s\<lparr>ts_exchanged := stored_text (so_refresh_token stored) # ts_exchanged s\<rparr>"
    obtain v endpoint where v: "validate_refresh_token token (stored_text (so_instance_id stored)) = Ok v"
      and goto: "token_send m i stored n answer env s = goto i (AtLoad stored endpoint v) ?s"
      using kept by (auto simp: token_send_def Ok Let_def fail_call_def split: result.splits)
    have vt: "vt_access_token v = tr_access_token token" "trim (vt_access_token v) \<noteq> []"
      using v by (auto simp: validate_refresh_token_def Let_def split: if_splits)
    show ?thesis
      unfolding goto
      by (rule single_inside [OF good out(2), of _ "AtLoad stored endpoint v"]) (use vt new [OF Ok] none in simp_all)
  qed
qed

lemma single_load:
  assumes lived: "long_lived env limit" and contract: "cred_contract env" and good: "token_inv env p s"
    and single: "single_inv env rejected limit p s"
    and i: "ts_phase s i = AtLoad stored endpoint token" and m: "om_profile m = p"
    and kept: "\<not> ts_is_lost (token_load env m i stored endpoint token s)"
  shows "single_inv env rejected limit p (token_load env m i stored endpoint token s)"
proof -
  have inner: "inside (ts_phase s i)" using i by simp
  have "phase_new env rejected limit p (ts_exchanged s \<noteq> []) (ts_phase s i)" and short: "length (ts_exchanged s) \<le> 1"
    using single by (simp_all add: single_inv_def)
  then have token: "vt_access_token token \<noteq> rejected" "trim (vt_access_token token) \<noteq> []" by (simp_all add: i)
  obtain store expiry store1 where store: "load_from (te_store env) (ts_dir s) = Ok store"
    and expiry: "expires_at env (ts_now s) (vt_expires_in token) = Some (Ok expiry)"
    and set: "set_adrive_oauth store p (refreshed_oauth stored endpoint token expiry) = Ok store1"
    and goto: "token_load env m i stored endpoint token s = goto i (AtSave store1 (vt_access_token token)) s"
    using kept m by (auto simp: token_load_def fail_call_def try_in_Ok_iff split: result.splits option.splits)
  have "te_format_time env (ts_now s + 1000 * int (unat (vt_expires_in token))) = Some expiry"
    using expiry by (simp add: expires_at_def split: if_splits)
  then obtain e where "te_parse_time env expiry = Some e" "limit < e" using lived unfolding long_lived_def by blast
  then have "renewed_oauth env rejected limit (refreshed_oauth stored endpoint token expiry)"
    using token by (simp add: renewed_oauth_def refreshed_oauth_def)
  moreover have "stored_adrive_oauth store1 p = Some (refreshed_oauth stored endpoint token expiry)"
    using set_oauth_facts(2) [OF set] load_good [OF contract store] by blast
  ultimately show ?thesis
    unfolding goto
    by (intro single_inside [OF good inner, of _ "AtSave store1 (vt_access_token token)"]) (use short in simp_all)
qed

lemma single_save:
  assumes contract: "cred_contract env" and good: "token_inv env p s" and single: "single_inv env rejected limit p s"
    and i: "ts_phase s i = AtSave store a" and kept: "\<not> ts_is_lost (token_save env call i store a s)"
  shows "single_inv env rejected limit p (token_save env call i store a s)"
proof -
  have inner: "inside (ts_phase s i)" using i by simp
  have ready: "cred_ready env (ts_dir s)" using good by (simp add: token_inv_def)
  have "phase_good p (ts_exchanged s) (ts_phase s i)" using good by (simp add: token_inv_def)
  then obtain o1 where store: "bt_wf (cf_profiles store)" "\<forall>t \<in> store_texts store. valid_utf8 t"
    and o1: "stored_adrive_oauth store p = Some o1" "plain_oauth o1" by (auto simp: i)
  have "phase_new env rejected limit p (ts_exchanged s \<noteq> []) (ts_phase s i)" and short: "length (ts_exchanged s) \<le> 1"
    using single by (simp_all add: single_inv_def)
  then have new: "renewed_oauth env rejected limit (o1\<lparr>so_legacy_client_id := None\<rparr>)"
    using o1(1) by (simp add: i renewed_oauth_def)
  obtain rs dir where save: "save_to_path (te_store env) store (ts_dir s) = (rs, dir)" by fastforce
  have ok: "rs = Ok ()" using kept save by (cases rs) (auto simp: token_save_def in_dir_def)
  note reads = save_reads [OF contract ready store save [unfolded ok] plain_reads [OF o1]]
  have now: "renewed env rejected limit p (goto i ph (s\<lparr>ts_dir := dir\<rparr>))"
    "renewed env rejected limit p (leave i ph (s\<lparr>ts_dir := dir\<rparr>))" for ph
    using reads new by (simp_all add: renewed_def)
  have "single_inv env rejected limit p (goto i AtReload (s\<lparr>ts_dir := dir\<rparr>))"
    by (rule single_inside [OF good inner, of _ AtReload]) (use short now in simp_all)
  moreover have "single_inv env rejected limit p (leave i (Ended x) (s\<lparr>ts_dir := dir\<rparr>))" for x
    by (rule single_inside [OF good inner, of _ "Ended x"]) (use short now in simp_all)
  ultimately show ?thesis by (cases call) (simp_all add: token_save_def in_dir_def save ok)
qed

lemma single_advance:
  assumes lived: "long_lived env limit" and contract: "cred_contract env" and good: "token_inv env p s"
    and single: "single_inv env rejected limit p s" and calls: "calls i = (m, ForceRefresh rejected)" "om_profile m = p"
    and now: "ts_now s \<le> limit" and allowed: "coordinated s (Advance i answer)" "not_reissued rejected (Advance i answer)"
    and kept: "\<not> ts_is_lost (token_advance env calls i answer s)"
  shows "single_inv env rejected limit p (token_advance env calls i answer s)"
proof -
  have ready: "cred_ready env (ts_dir s)" using good by (simp add: token_inv_def)
  have good_i: "phase_good p (ts_exchanged s) (ts_phase s i)" using good by (simp add: token_inv_def)
  show ?thesis
  proof (cases "ts_phase s i")
    case AtStart
    then show ?thesis using single_start [OF good single] by (simp add: token_advance_def calls)
  next
    case AtLock
    have "single_inv env rejected limit p ((goto i AtRead s)\<lparr>ts_lock := (ts_lock s)(p := Some i)\<rparr>)"
      by (rule single_move [OF single, of i _ AtRead]) (simp_all add: AtLock)
    then show ?thesis using single by (simp add: token_advance_def calls AtLock)
  next
    case AtRead
    then show ?thesis using single_read [OF good single _ calls(2) now] by (simp add: token_advance_def calls)
  next
    case (AtSend stored n)
    have "tr_access_token t \<noteq> rejected" if "answer = Ok t" for t using allowed(2) that by (simp add: not_reissued_def)
    then show ?thesis
      using single_send [OF good single AtSend] allowed(1) kept by (simp add: token_advance_def calls AtSend coordinated_def)
  next
    case (AtLoad stored endpoint token)
    then show ?thesis
      using single_load [OF lived contract good single AtLoad calls(2)] kept by (simp add: token_advance_def calls)
  next
    case (AtSave store a)
    then show ?thesis using single_save [OF contract good single AtSave] kept by (simp add: token_advance_def calls)
  next
    case AtReload
    then show ?thesis using single_leave [OF single, of i] in_dir_same [OF ready]
      by (simp add: token_advance_def calls token_reload_def)
  qed (use single good_i in \<open>simp_all add: token_advance_def calls\<close>)
qed

lemma single_step:
  assumes lived: "long_lived env limit" and contract: "cred_contract env" and good: "token_inv env p s"
    and single: "single_inv env rejected limit p s"
    and calls: "\<forall>i. om_profile (fst (calls i)) = p \<and> snd (calls i) = ForceRefresh rejected"
    and now: "ts_now s \<le> limit" and allowed: "coordinated s e" "not_reissued rejected e"
    and kept: "\<not> ts_is_lost (token_step env calls e s)"
  shows "single_inv env rejected limit p (token_step env calls e s)"
proof (cases e)
  case (Advance i answer)
  have "calls i = (fst (calls i), ForceRefresh rejected)" using calls by (metis prod.collapse)
  then show ?thesis
    using single_advance [OF lived contract good single _ _ now, of calls i] calls allowed kept by (simp add: Advance)
next
  case (LockTimeout i)
  then show ?thesis using single_failed [OF single] single by simp
next
  case (Kill i)
  then have "\<not> holds_answer (ts_phase s i)" using kept by simp
  from single_leave [OF single this, of Killed] show ?thesis using Kill by (simp add: single_inv_def renewed_def)
next
  case (Tick d)
  then show ?thesis using single by (simp add: single_inv_def renewed_def)
qed (use allowed in \<open>simp_all add: coordinated_def\<close>)

lemma in_dir_now: "(\<And>r d. t \<le> ts_now (k r (s\<lparr>ts_dir := d\<rparr>))) \<Longrightarrow> t \<le> ts_now (in_dir step s k)"
  by (simp add: in_dir_def split: prod.split)

lemma now_steps:
  shows "ts_now s \<le> ts_now (token_start env m call i s)" "ts_now s \<le> ts_now (token_read env m call i s)"
    "ts_now s \<le> ts_now (token_send m i stored n answer env s)" "ts_now s \<le> ts_now (token_load env m i stored endpoint token s)"
    "ts_now s \<le> ts_now (token_save env call i store a s)" "ts_now s \<le> ts_now (token_reload env m call i s)"
    "ts_now s \<le> ts_now (token_rejected env m i rejected request_id s)" "ts_now s \<le> ts_now (token_clear env i store request_id s)"
proof -
  show "ts_now s \<le> ts_now (token_start env m call i s)"
    unfolding token_start_def Let_def fail_call_def
    by (auto intro!: in_dir_now split: option.split token_call.split result.split)
  show "ts_now s \<le> ts_now (token_read env m call i s)"
    unfolding token_read_def fail_call_def by (auto intro!: in_dir_now split: option.split result.split)
  show "ts_now s \<le> ts_now (token_send m i stored n answer env s)"
    unfolding token_send_def Let_def fail_call_def by (simp split: result.split oauth_client_error.split)
  show "ts_now s \<le> ts_now (token_load env m i stored endpoint token s)"
    unfolding token_load_def fail_call_def by (simp split: result.split option.split)
  show "ts_now s \<le> ts_now (token_save env call i store a s)"
    unfolding token_save_def fail_call_def by (auto intro!: in_dir_now split: result.split token_call.split)
  show "ts_now s \<le> ts_now (token_reload env m call i s)"
    unfolding token_reload_def by (auto intro!: in_dir_now)
  show "ts_now s \<le> ts_now (token_rejected env m i rejected request_id s)"
    unfolding token_rejected_def fail_call_def by (auto intro!: in_dir_now split: result.split)
  show "ts_now s \<le> ts_now (token_clear env i store request_id s)"
    unfolding token_clear_def fail_call_def by (auto intro!: in_dir_now split: result.split)
qed

lemma step_now: "ts_now s \<le> ts_now (token_step env calls e s)"
proof (cases e)
  case (Advance i answer)
  then show ?thesis by (cases "calls i"; cases "ts_phase s i") (simp_all add: token_advance_def now_steps)
qed (simp_all add: fail_call_def)

lemma reaches_single:
  assumes "token_reaches env calls (\<lambda>s e. coordinated s e \<and> not_reissued rejected e) s0 s"
    and lived: "long_lived env limit" and contract: "cred_contract env"
    and calls: "\<forall>i. om_profile (fst (calls i)) = p \<and> snd (calls i) = ForceRefresh rejected"
    and s0: "token_inv env p s0" "single_inv env rejected limit p s0"
  shows "ts_now s \<le> limit \<longrightarrow> ts_is_lost s \<or> token_inv env p s \<and> single_inv env rejected limit p s"
  using assms(1)
proof (induction rule: token_reaches.induct)
  case token_initial
  then show ?case using s0 by simp
next
  case (token_next s e)
  show ?case
  proof (intro impI)
    assume now1: "ts_now (token_step env calls e s) \<le> limit"
    then have now: "ts_now s \<le> limit" using step_now [of s env calls e] by simp
    show "ts_is_lost (token_step env calls e s) \<or>
        token_inv env p (token_step env calls e s) \<and> single_inv env rejected limit p (token_step env calls e s)"
    proof (cases "ts_is_lost (token_step env calls e s)")
      case False
      then have s: "token_inv env p s" "single_inv env rejected limit p s"
        using token_next.IH now step_lost by blast+
      then show ?thesis
        using step_keeps [OF contract s(1) _ _ False] single_step [OF lived contract s calls now _ _ False] calls token_next(2)
        by blast
    qed simp
  qed
qed

section \<open>Properties\<close>



text \<open>
  A save writes the whole store that was read before, whatever happened to the file in between: a
  token that another profile saved meanwhile is undone, and so is a logout.
\<close>

lemma stale_save_wins:
  assumes contract: "cred_contract env" and ready: "cred_ready env (ts_dir s)" and at: "ts_phase s i = AtSave store a"
    and store: "bt_wf (cf_profiles store)" "\<forall>t \<in> store_texts store. valid_utf8 t"
    and saves: "fst (save_to_path (te_store env) store (ts_dir s)) = Ok ()"
    and held: "adrive_oauth (te_store env) store q (ts_dir s) = (Ok o1, d)"
  shows "fst (load_oauth env q (ts_dir (token_step env calls (Advance i answer) s))) = Ok (o1\<lparr>so_legacy_client_id := None\<rparr>)"
proof -
  obtain dir where dir: "save_to_path (te_store env) store (ts_dir s) = (Ok (), dir)"
    using saves by (cases "save_to_path (te_store env) store (ts_dir s)") simp
  have "ts_dir (token_step env calls (Advance i answer) s) = dir"
    by (cases "calls i"; cases "snd (calls i)") (simp_all add: token_advance_def at token_save_def in_dir_def dir)
  then show ?thesis using save_reads [OF contract ready store dir held] by simp
qed

text \<open>A lifetime beyond the range of \<open>chrono\<close> but within \<open>i64\<close> ends in a panic, not in an error.\<close>

lemma huge_lifetime_panics: "expires_at env now 9223372036854776 = None"
  by (simp add: expires_at_code)

section \<open>An example\<close>

text \<open>A run of events, each of which has to be allowed.\<close>

fun token_run ::
  "token_env \<Rightarrow> (nat \<Rightarrow> oauth_manager \<times> token_call) \<Rightarrow> (token_system \<Rightarrow> token_event \<Rightarrow> bool) \<Rightarrow> token_event list \<Rightarrow>
   token_system \<Rightarrow> token_system option" where
  "token_run env calls P [] s = Some s"
| "token_run env calls P (e # es) s = (if P s e then token_run env calls P es (token_step env calls e s) else None)"

lemma token_run_reaches:
  "token_run env calls P es s = Some t \<Longrightarrow> token_reaches env calls P s0 s \<Longrightarrow> token_reaches env calls P s0 t"
  by (induction es arbitrary: s) (auto split: if_splits intro: token_next)

definition demo_renewed :: stored_oauth where
  "demo_renewed = \<lparr>so_access_token = Some ''at2'', so_refresh_token = Some ''rt2'', so_expires_at = Some ''later'',
     so_token_type = Some ''Bearer'', so_scope = [''all''], so_legacy_client_id = None, so_instance_id = Some ''i'',
     so_user_id = None, so_auth_endpoint = Some ''e''\<rparr>"

definition demo_resaved :: credentials_file where
  "demo_resaved = no_credentials\<lparr>cf_profiles := [(''p'', no_profile\<lparr>
     ak_access_key_id := Some (enc_prefix @ demo_draw 1 12 @ ''id'' @ demo_tag),
     cp_adrive := Some (no_adrive\<lparr>ac_oauth := Some (demo_renewed\<lparr>
       so_access_token := Some (enc_prefix @ demo_draw 4 12 @ ''at2'' @ demo_tag),
       so_refresh_token := Some (enc_prefix @ demo_draw 5 12 @ ''rt2'' @ demo_tag)\<rparr>)\<rparr>)\<rparr>)]\<rparr>"

definition demo_token_env :: token_env where
  "demo_token_env = \<lparr>te_store = demo_cred_env\<lparr>
       ce_parse := (\<lambda>content. Some (if content = ''new'' then demo_resaved else snd demo_stores)),
       ce_render := (\<lambda>store. if store = snd demo_stores then Ok ''toml''
         else if store = demo_resaved then Ok ''new'' else Err ''unknown'')\<rparr>,
     te_parse_time = (\<lambda>t. Some 1000), te_format_time = (\<lambda>t. Some ''later''), te_client = Ok\<rparr>"

definition demo_calls :: "nat \<Rightarrow> oauth_manager \<times> token_call" where
  "demo_calls i = (\<lparr>om_profile = ''p'', om_environment = None, om_is_refresh_allowed = True, om_max_retry_count = 3\<rparr>,
     ForceRefresh ''at'')"

definition demo_answer :: "(token_response, oauth_client_error) result" where
  "demo_answer = Ok \<lparr>tr_access_token = ''at2'', tr_refresh_token = ''rt2'', tr_token_type = ''Bearer'', tr_expires_in = 600,
     tr_scope = ''all'', tr_user_id = None, tr_instance_id = ''i''\<rparr>"

text \<open>Both calls come to the lock; the first refreshes, the second finds the new token.\<close>

definition demo_events :: "token_event list" where
  "demo_events = map (\<lambda>i. Advance i demo_answer) [0, 1, 0, 0, 0, 0, 0, 1, 1]"

definition demo_token_system :: token_system where
  "demo_token_system = (case token_run demo_token_env demo_calls (\<lambda>s e. coordinated s e \<and> not_reissued ''at'' e)
     demo_events (token_idle demo_saved_dir 0) of Some s \<Rightarrow> s | None \<Rightarrow> token_idle demo_saved_dir 0)"

lemma demo_tokens:
  "case token_run demo_token_env demo_calls (\<lambda>s e. coordinated s e \<and> not_reissued ''at'' e) demo_events
     (token_idle demo_saved_dir 0) of
     None \<Rightarrow> False
   | Some s \<Rightarrow> ts_exchanged s = [''rt''] \<and> \<not> ts_is_lost s \<and> ts_now s = 0 \<and>
       ts_phase s 0 = Ended (Ok (''at2'', None)) \<and> ts_phase s 1 = Ended (Ok (''at2'', None))"
  by code_simp

lemma demo_reaches:
  obtains s where
    "token_reaches demo_token_env demo_calls (\<lambda>s e. coordinated s e \<and> not_reissued ''at'' e) (token_idle demo_saved_dir 0) s"
    and "ts_exchanged s = [''rt'']" and "\<not> ts_is_lost s" and "ts_now s = 0"
    and "ts_phase s 0 = Ended (Ok (''at2'', None))" and "ts_phase s 1 = Ended (Ok (''at2'', None))"
  using demo_tokens token_run_reaches [OF _ token_initial] by (fastforce split: option.splits)

lemma reaches_mono:
  "token_reaches env calls P s0 s \<Longrightarrow> (\<And>s e. P s e \<Longrightarrow> Q s e) \<Longrightarrow> token_reaches env calls Q s0 s"
  by (induction rule: token_reaches.induct) (auto intro: token_reaches.intros)

lemma demo_token_ok:
  "cred_contract demo_token_env" "cred_ready demo_token_env demo_saved_dir"
  "load_oauth demo_token_env ''p'' demo_saved_dir = (Ok demo_oauth, demo_saved_dir)" "so_refresh_token demo_oauth = Some ''rt''"
  "\<forall>i. om_profile (fst (demo_calls i)) = ''p'' \<and> snd (demo_calls i) = ForceRefresh ''at''"
  "long_lived demo_token_env 10"
proof -
  have same: "persisted (snd demo_stores) = snd demo_stores" "persisted demo_resaved = demo_resaved" "snd demo_stores \<noteq> demo_resaved"
    by code_simp+
  have "toml_ok (te_store demo_token_env)"
    using same by (simp add: toml_ok_def demo_token_env_def demo_cred_env_def)
  moreover have "crypto_ok (te_store demo_token_env)"
    using demo_cred_ok(1) by (simp add: crypto_ok_def demo_token_env_def demo_cred_env_def)
  moreover have "bt_wf (cf_profiles (snd demo_stores)) \<and> (\<forall>t \<in> store_texts (snd demo_stores). valid_utf8 t)"
    "bt_wf (cf_profiles demo_resaved) \<and> (\<forall>t \<in> store_texts demo_resaved. valid_utf8 t)" by code_simp+
  ultimately show "cred_contract demo_token_env"
    by (simp add: cred_contract_def demo_token_env_def demo_cred_env_def)
  show "cred_ready demo_token_env demo_saved_dir"
    by (simp add: cred_ready_def demo_token_env_def demo_cred_env_def demo_saved_dir_def demo_draw_def)
  show "load_oauth demo_token_env ''p'' demo_saved_dir = (Ok demo_oauth, demo_saved_dir)"
    "so_refresh_token demo_oauth = Some ''rt''" by code_simp+
  show "\<forall>i. om_profile (fst (demo_calls i)) = ''p'' \<and> snd (demo_calls i) = ForceRefresh ''at''" by (simp add: demo_calls_def)
  show "long_lived demo_token_env 10" by (simp add: long_lived_def demo_token_env_def)
qed


end
